(* ===== verification/C_Prelude.thy ===== *)
theory C_Prelude
  imports Main "HOL-Library.Word"
begin

text \<open>
  The vocabulary the component theories share: the machine types of the C code, a byte store with
  its read and write laws, little-endian views of the store, the conversions the C compiler inserts
  between \<open>size_t\<close> and \<open>int\<close>, and the lemmas on lists that several components use.

  The store is a total function from addresses to bytes. A C object in memory is the range of
  addresses it occupies; \<open>rd m p n\<close> is a \<^verbatim>\<open>memcpy\<close> out of the store and \<open>wr m p bs\<close> one into it.
  Fields of type \<^verbatim>\<open>int\<close> are \<^typ>\<open>int\<close>: signed overflow is undefined in C, so where it matters the
  component proves that the values stay in range instead of giving the overflow a meaning.
\<close>

unbundle bit_operations_syntax

section \<open>Types\<close>

type_synonym byte = "8 word"
type_synonym u16 = "16 word"
type_synonym u32 = "32 word"
type_synonym u64 = "64 word"
type_synonym ptr = nat
type_synonym mem = "ptr \<Rightarrow> byte"

named_theorems mem_simps \<open>reading the byte store after writing it\<close>

section \<open>C integer conversions\<close>

definition INT_MAX :: int where
  "INT_MAX = 2147483647"

text \<open>Conversion of an integer value to \<^verbatim>\<open>int\<close>, which gcc and clang define as reduction modulo
  \<open>2 ^ 32\<close>.\<close>

definition to_c_int :: "int \<Rightarrow> int" where
  "to_c_int x = (x + 2147483648) mod 4294967296 - 2147483648"

lemma to_c_int_id: "- 2147483648 \<le> x \<Longrightarrow> x \<le> 2147483647 \<Longrightarrow> to_c_int x = x"
  by (simp add: to_c_int_def)

lemma to_c_int_range: "- 2147483648 \<le> to_c_int x \<and> to_c_int x \<le> INT_MAX"
  using pos_mod_bound [of 4294967296 "x + 2147483648"] pos_mod_sign [of 4294967296 "x + 2147483648"]
  unfolding to_c_int_def INT_MAX_def by linarith

lemma int_le_div_iff: "0 < d \<Longrightarrow> c \<le> n div d \<longleftrightarrow> c * d \<le> (n :: int)"
proof
  assume d: "0 < d" and "c \<le> n div d"
  then have "c * d \<le> n div d * d" by simp
  also have "\<dots> \<le> n" using d pos_mod_sign [OF d, of n] div_mult_mod_eq [of n d] by linarith
  finally show "c * d \<le> n" .
next
  assume d: "0 < d" and "c * d \<le> n"
  then have "c * d div d \<le> n div d" by (intro zdiv_mono1) auto
  with d show "c \<le> n div d" by simp
qed

section \<open>The byte store\<close>

definition rd :: "mem \<Rightarrow> ptr \<Rightarrow> nat \<Rightarrow> byte list" where
  "rd m p n = map (\<lambda>i. m (p + i)) [0..<n]"

definition wr :: "mem \<Rightarrow> ptr \<Rightarrow> byte list \<Rightarrow> mem" where
  "wr m p bs = (\<lambda>a. if p \<le> a \<and> a < p + length bs then bs ! (a - p) else m a)"

lemma length_rd [simp]: "length (rd m p n) = n"
  by (simp add: rd_def)

lemma nth_rd [simp]: "i < n \<Longrightarrow> rd m p n ! i = m (p + i)"
  by (simp add: rd_def)

lemma rd_0 [simp]: "rd m p 0 = []"
  by (simp add: rd_def)

lemma rd_cong: "(\<And>i. i < n \<Longrightarrow> m (p + i) = m' (q + i)) \<Longrightarrow> rd m p n = rd m' q n"
  by (simp add: rd_def)

lemma rd_split: "rd m p (a + b) = rd m p a @ rd m (p + a) b"
  by (rule nth_equalityI) (auto simp: nth_append add.assoc)

lemma take_rd [simp]: "take k (rd m p n) = rd m p (min k n)"
  by (rule nth_equalityI) auto

lemma drop_rd [simp]: "drop k (rd m p n) = rd m (p + k) (n - k)"
  by (rule nth_equalityI) (auto simp: add.assoc)

lemma rd_wr_same [mem_simps]: "n = length bs \<Longrightarrow> rd (wr m p bs) p n = bs"
  by (rule nth_equalityI) (auto simp: wr_def)

lemma rd_wr_disjoint [mem_simps]:
  "q + n \<le> p \<or> p + length bs \<le> q \<Longrightarrow> rd (wr m p bs) q n = rd m q n"
  by (rule rd_cong) (auto simp: wr_def)

lemma rd_wr_prefix: "n \<le> length bs \<Longrightarrow> rd (wr m p bs) p n = take n bs"
  by (rule nth_equalityI) (auto simp: wr_def)

lemma wr_Nil [simp]: "wr m p [] = m"
  by (rule ext) (auto simp: wr_def)

lemma wr_outside: "a < p \<or> p + length bs \<le> a \<Longrightarrow> wr m p bs a = m a"
  by (auto simp: wr_def)

lemma wr_append: "wr (wr m p xs) (p + length xs) ys = wr m p (xs @ ys)"
  by (rule ext) (auto simp: wr_def nth_append)

section \<open>Little-endian and big-endian encodings\<close>

definition le16 :: "u16 \<Rightarrow> byte list" where
  "le16 w = [ucast w, ucast (drop_bit 8 w)]"

definition of_le16 :: "byte list \<Rightarrow> u16" where
  "of_le16 bs = ucast (bs ! 0) OR push_bit 8 (ucast (bs ! 1))"

definition le32 :: "u32 \<Rightarrow> byte list" where
  "le32 w = [ucast w, ucast (drop_bit 8 w), ucast (drop_bit 16 w), ucast (drop_bit 24 w)]"

definition of_le32 :: "byte list \<Rightarrow> u32" where
  "of_le32 bs = ucast (bs ! 0) OR push_bit 8 (ucast (bs ! 1))
     OR push_bit 16 (ucast (bs ! 2)) OR push_bit 24 (ucast (bs ! 3))"

lemma length_le16 [simp]: "length (le16 w) = 2"
  by (simp add: le16_def)

lemma length_le32 [simp]: "length (le32 w) = 4"
  by (simp add: le32_def)

lemma of_le16_le16 [simp]: "of_le16 (le16 w) = w"
  by (rule bit_word_eqI) (auto simp: of_le16_def le16_def bit_simps)

lemma of_le16_append [simp]: "2 \<le> length xs \<Longrightarrow> of_le16 (xs @ ys) = of_le16 xs"
  by (cases xs) (auto simp: of_le16_def nth_append)

lemma le16_of_le16: "length bs = 2 \<Longrightarrow> le16 (of_le16 bs) = bs"
  by (cases bs; cases "tl bs")
    (auto simp: of_le16_def le16_def bit_simps impossible_bit intro!: bit_word_eqI)

lemma of_le32_le32 [simp]: "of_le32 (le32 w) = w"
proof (rule bit_word_eqI)
  fix n assume n: "n < LENGTH(32)"
  then consider "n < 8" | "8 \<le> n" "n < 16" | "16 \<le> n" "n < 24" | "24 \<le> n" "n < 32"
    by fastforce
  then show "bit (of_le32 (le32 w)) n = bit w n"
    by cases (auto simp: of_le32_def le32_def bit_simps)
qed

text \<open>An \<^verbatim>\<open>int\<close> in memory on the little-endian targets of the build
  (\<^verbatim>\<open>BADVPN_LITTLE_ENDIAN\<close>).\<close>

definition rd_int :: "mem \<Rightarrow> ptr \<Rightarrow> int" where
  "rd_int m p = sint (of_le32 (rd m p 4))"

definition wr_int :: "mem \<Rightarrow> ptr \<Rightarrow> int \<Rightarrow> mem" where
  "wr_int m p x = wr m p (le32 (word_of_int x))"

lemma sint_word_of_int_32: "- 2147483648 \<le> x \<Longrightarrow> x \<le> 2147483647 \<Longrightarrow> sint (word_of_int x :: u32) = x"
  by (simp add: sint_sbintrunc' signed_take_bit_int_eq_self)

lemma rd_int_wr_int_same [mem_simps]:
  "- 2147483648 \<le> x \<Longrightarrow> x \<le> INT_MAX \<Longrightarrow> rd_int (wr_int m p x) p = x"
  by (simp add: rd_int_def wr_int_def mem_simps INT_MAX_def sint_word_of_int_32)

lemma rd_wr_int_disjoint [mem_simps]:
  "q + n \<le> p \<or> p + 4 \<le> q \<Longrightarrow> rd (wr_int m p x) q n = rd m q n"
  by (simp add: wr_int_def mem_simps)

lemma rd_int_wr_int_disjoint [mem_simps]:
  "q + 4 \<le> p \<or> p + 4 \<le> q \<Longrightarrow> rd_int (wr_int m p x) q = rd_int m q"
  by (simp add: rd_int_def mem_simps)

lemma rd_int_wr_disjoint [mem_simps]:
  "q + 4 \<le> p \<or> p + length bs \<le> q \<Longrightarrow> rd_int (wr m p bs) q = rd_int m q"
  by (simp add: rd_int_def mem_simps)

end
