(* ===== verification/Misc_Size.thy ===== *)
theory Misc_Size
  imports C_Prelude
begin

text \<open>
  \<^verbatim>\<open>misc/balign.h\<close>, \<^verbatim>\<open>misc/bsize.h\<close>, \<^verbatim>\<open>misc/balloc.h\<close> and \<^verbatim>\<open>misc/modadd.h\<close>: rounding, sizes with overflow detection, allocation
  and modular addition. \<open>size_t\<close> is a word of any width, so that the results hold for the 32-bit
  and the 64-bit builds alike; \<^verbatim>\<open>bdivide_up\<close> is only called on values that come from a non-negative
  \<^verbatim>\<open>int\<close> and is given on \<^typ>\<open>int\<close>.
\<close>

section \<open>Rounding (misc/balign.h)\<close>

definition bdivide_up :: "int \<Rightarrow> int \<Rightarrow> int" where
  "bdivide_up a b = (let r = a mod b in if r > 0 then a div b + 1 else a div b)"

definition balign_up_overflows :: "'a::len word \<Rightarrow> 'a word \<Rightarrow> bool" where
  "balign_up_overflows x n = (let r = x mod n in r \<noteq> 0 \<and> x > - 1 - (n - r))"

definition balign_up :: "'a::len word \<Rightarrow> 'a word \<Rightarrow> 'a word" where
  "balign_up x n = (let r = x mod n in if r \<noteq> 0 then x + (n - r) else x)"

definition balign_down :: "'a::len word \<Rightarrow> 'a word \<Rightarrow> 'a word" where
  "balign_down x n = x - (x mod n)"

lemma bdivide_up_bounds:
  assumes "0 < b"
  shows "a \<le> b * bdivide_up a b" and "b * bdivide_up a b < a + b"
proof -
  have eq: "b * (a div b) + a mod b = a" by simp
  have r: "0 \<le> a mod b" "a mod b < b" using assms by simp_all
  have "a \<le> b * bdivide_up a b \<and> b * bdivide_up a b < a + b"
  proof (cases "a mod b > 0")
    case True
    then have "b * bdivide_up a b = b * (a div b) + b"
      by (simp add: bdivide_up_def distrib_left)
    with eq r True show ?thesis by linarith
  next
    case False
    then have "b * bdivide_up a b = b * (a div b)" by (simp add: bdivide_up_def)
    with eq r False assms show ?thesis by linarith
  qed
  then show "a \<le> b * bdivide_up a b" and "b * bdivide_up a b < a + b" by simp_all
qed

lemma bdivide_up_nonneg [simp]: "0 \<le> a \<Longrightarrow> 0 < b \<Longrightarrow> 0 \<le> bdivide_up a b"
  by (simp add: bdivide_up_def Let_def pos_imp_zdiv_nonneg_iff)

lemma bdivide_up_le_iff: "0 < b \<Longrightarrow> bdivide_up a b \<le> k \<longleftrightarrow> a \<le> b * k"
proof
  assume b: "0 < b" and "bdivide_up a b \<le> k"
  then have "b * bdivide_up a b \<le> b * k" by simp
  with bdivide_up_bounds(1) [OF b, of a] show "a \<le> b * k" by linarith
next
  assume b: "0 < b" and "a \<le> b * k"
  with bdivide_up_bounds(2) [OF b, of a] have "b * bdivide_up a b < b * (k + 1)"
    by (simp add: distrib_left)
  with b show "bdivide_up a b \<le> k" by simp
qed

lemma bdivide_up_mono: "a \<le> a' \<Longrightarrow> 0 < b \<Longrightarrow> bdivide_up a b \<le> bdivide_up a' b"
  using bdivide_up_bounds(1) [of b a'] by (simp add: bdivide_up_le_iff)

section \<open>Sizes with overflow detection (misc/bsize.h)\<close>

record 'v bsize_t =
  bs_is_overflow :: bool
  bs_value :: 'v

definition bsize_fromsize :: "'w::len word \<Rightarrow> 'w word bsize_t" where
  "bsize_fromsize v = \<lparr>bs_is_overflow = False, bs_value = v\<rparr>"

definition bsize_fromint :: "int \<Rightarrow> 'w::len word bsize_t" where
  "bsize_fromint v = \<lparr>bs_is_overflow = (v < 0 \<or> v > 2 ^ LENGTH('w) - 1), bs_value = word_of_int v\<rparr>"

definition bsize_overflow :: "'w::len word bsize_t" where
  "bsize_overflow = \<lparr>bs_is_overflow = True, bs_value = 0\<rparr>"

definition bsize_tosize :: "'w::len word bsize_t \<Rightarrow> 'w word option" where
  "bsize_tosize s = (if bs_is_overflow s then None else Some (bs_value s))"

definition bsize_toint :: "'w::len word bsize_t \<Rightarrow> int option" where
  "bsize_toint s = (if bs_is_overflow s \<or> uint (bs_value s) > INT_MAX then None
     else Some (uint (bs_value s)))"

definition bsize_add :: "'w::len word bsize_t \<Rightarrow> 'w word bsize_t \<Rightarrow> 'w word bsize_t" where
  "bsize_add s1 s2 = \<lparr>bs_is_overflow = (bs_is_overflow s1 \<or> bs_is_overflow s2
       \<or> bs_value s2 > - 1 - bs_value s1),
     bs_value = bs_value s1 + bs_value s2\<rparr>"

definition bsize_max :: "'w::len word bsize_t \<Rightarrow> 'w word bsize_t \<Rightarrow> 'w word bsize_t" where
  "bsize_max s1 s2 = \<lparr>bs_is_overflow = (bs_is_overflow s1 \<or> bs_is_overflow s2),
     bs_value = (if bs_value s1 > bs_value s2 then 1 else 0) * bs_value s1
       + (if bs_value s1 \<le> bs_value s2 then 1 else 0) * bs_value s2\<rparr>"

definition bsize_mul :: "'w::len word bsize_t \<Rightarrow> 'w word bsize_t \<Rightarrow> 'w word bsize_t" where
  "bsize_mul s1 s2 = \<lparr>bs_is_overflow = (bs_is_overflow s1 \<or> bs_is_overflow s2
       \<or> (bs_value s1 \<noteq> 0 \<and> bs_value s2 > (- 1) div bs_value s1)),
     bs_value = bs_value s1 * bs_value s2\<rparr>"

text \<open>What a size denotes: the mathematical value, or nothing once an overflow was seen.\<close>

definition bsize_abs :: "'w::len word bsize_t \<Rightarrow> nat option" where
  "bsize_abs s = (if bs_is_overflow s then None else Some (unat (bs_value s)))"

text \<open>The checked reference operations: the exact result if it fits the width.\<close>

definition fits :: "'w::len itself \<Rightarrow> nat \<Rightarrow> nat option" where
  "fits _ n = (if n < 2 ^ LENGTH('w) then Some n else None)"

lemma unat_minus_one_word: "unat (- 1 :: 'w::len word) = 2 ^ LENGTH('w) - 1"
  by (simp add: unsigned_minus_1_eq_mask mask_eq_exp_minus_1)

lemma unat_not: "unat (- 1 - x :: 'w::len word) = 2 ^ LENGTH('w) - 1 - unat x"
proof -
  have "x \<le> - 1" by simp
  then have "unat (- 1 - x) = unat (- 1 :: 'w word) - unat x"
    by (simp add: unat_sub)
  then show ?thesis by (simp add: unat_minus_one_word)
qed

lemma bsize_add_overflow_iff:
  "(y :: 'w::len word) > - 1 - x \<longleftrightarrow> 2 ^ LENGTH('w) \<le> unat x + unat y"
proof -
  have "unat x < 2 ^ LENGTH('w)" by (rule unsigned_less)
  then have "2 ^ LENGTH('w) - 1 - unat x < unat y \<longleftrightarrow> 2 ^ LENGTH('w) \<le> unat x + unat y"
    by linarith
  then show ?thesis by (simp add: word_less_nat_alt unat_not)
qed

lemma bsize_mul_overflow_iff:
  "((x :: 'w::len word) \<noteq> 0 \<and> y > (- 1) div x) \<longleftrightarrow> 2 ^ LENGTH('w) \<le> unat x * unat y"
proof (cases "x = 0")
  case False
  then have x: "0 < unat x" by (simp add: unat_gt_0)
  let ?M = "2 ^ LENGTH('w) :: nat"
  have "y > (- 1) div x \<longleftrightarrow> (?M - 1) div unat x < unat y"
    by (simp add: word_less_nat_alt unat_div unat_minus_one_word)
  also have "\<dots> \<longleftrightarrow> ?M - 1 < unat y * unat x"
    using x by (simp add: div_less_iff_less_mult)
  also have "\<dots> \<longleftrightarrow> ?M \<le> unat x * unat y"
    using zero_less_power [of "2 :: nat" "LENGTH('w)"]
    by (cases ?M) (auto simp: mult.commute)
  finally show ?thesis using False by simp
qed simp

lemma bsize_abs_fromsize [simp]: "bsize_abs (bsize_fromsize v) = Some (unat v)"
  by (simp add: bsize_abs_def bsize_fromsize_def)

lemma bsize_abs_add:
  "bsize_abs (bsize_add s1 s2 :: 'w::len word bsize_t) =
     Option.bind (bsize_abs s1) (\<lambda>a. Option.bind (bsize_abs s2) (\<lambda>b. fits TYPE('w) (a + b)))"
  by (auto simp: bsize_abs_def bsize_add_def fits_def bsize_add_overflow_iff unat_word_ariths
      simp del: word_not_simps)

lemma bsize_abs_mul:
  "bsize_abs (bsize_mul s1 s2 :: 'w::len word bsize_t) =
     Option.bind (bsize_abs s1) (\<lambda>a. Option.bind (bsize_abs s2) (\<lambda>b. fits TYPE('w) (a * b)))"
proof -
  have "(bs_value s1 \<noteq> 0 \<and> bs_value s2 > (- 1) div bs_value s1) \<longleftrightarrow>
      2 ^ LENGTH('w) \<le> unat (bs_value s1) * unat (bs_value s2)"
    by (rule bsize_mul_overflow_iff)
  then show ?thesis
    by (auto simp: bsize_abs_def bsize_mul_def fits_def unat_word_ariths)
qed

lemma bsize_abs_max:
  "bsize_abs (bsize_max s1 s2 :: 'w::len word bsize_t) =
     Option.bind (bsize_abs s1) (\<lambda>a. Option.bind (bsize_abs s2) (\<lambda>b. Some (max a b)))"
  by (auto simp: bsize_abs_def bsize_max_def max_def word_le_nat_alt word_less_nat_alt)

section \<open>Modular addition (misc/modadd.h)\<close>

definition bmodadd_int :: "int \<Rightarrow> int \<Rightarrow> int \<Rightarrow> int" where
  "bmodadd_int x y m = (if y \<ge> m - x then y - (m - x) else x + y)"

lemma bmodadd_int_mod:
  assumes "0 \<le> x" "x < m" "0 \<le> y" "y < m"
  shows "bmodadd_int x y m = (x + y) mod m"
proof (cases "y \<ge> m - x")
  case True
  have "(x + y) mod m = (x + y - m) mod m" by simp
  also have "\<dots> = x + y - m"
    using True assms by (intro mod_pos_pos_trivial) linarith+
  finally show ?thesis using True by (simp add: bmodadd_int_def)
qed (use assms in \<open>simp add: bmodadd_int_def mod_pos_pos_trivial\<close>)

section \<open>Allocation (misc/balloc.h)\<close>

text \<open>\<open>malloc\<close> is the allocator of the C library, a parameter that maps a size to the address it
  returns or to nothing. The element count and size of an array are words, so the product in
  \<^verbatim>\<open>BAllocArray\<close> is the one modulo \<open>2 ^ w\<close> of the code.\<close>

definition BAlloc :: "('w::len word \<Rightarrow> ptr option) \<Rightarrow> 'w word \<Rightarrow> ptr option" where
  "BAlloc malloc bytes = (if bytes = 0 then malloc 1 else malloc bytes)"

definition BAllocSize :: "('w::len word \<Rightarrow> ptr option) \<Rightarrow> 'w word bsize_t \<Rightarrow> ptr option" where
  "BAllocSize malloc bytes = (if bs_is_overflow bytes then None else BAlloc malloc (bs_value bytes))"

definition BAllocArray :: "('w::len word \<Rightarrow> ptr option) \<Rightarrow> 'w word \<Rightarrow> 'w word \<Rightarrow> ptr option" where
  "BAllocArray malloc count bytes =
     (if count = 0 \<or> bytes = 0 then malloc 1
      else if count > (- 1) div bytes then None
      else BAlloc malloc (count * bytes))"

definition BAllocArray2 :: "('w::len word \<Rightarrow> ptr option) \<Rightarrow> 'w word \<Rightarrow> 'w word \<Rightarrow> 'w word \<Rightarrow> ptr option" where
  "BAllocArray2 malloc count2 count1 bytes =
     (if count2 = 0 \<or> count1 = 0 \<or> bytes = 0 then malloc 1
      else if count1 > (- 1) div bytes then None
      else if count2 > (- 1) div (count1 * bytes) then None
      else BAlloc malloc (count2 * (count1 * bytes)))"

definition BSizeAdd :: "'w::len word \<Rightarrow> 'w word \<Rightarrow> 'w word option" where
  "BSizeAdd s add = (if add > - 1 - s then None else Some (s + add))"

definition BSizeAlign :: "'w::len word \<Rightarrow> 'w word \<Rightarrow> 'w word option" where
  "BSizeAlign s align =
     (let md = s mod align in
      if md > 0 then (if align - md > - 1 - s then None else Some (s + (align - md))) else Some s)"

lemma not_mul_overflow: "(x :: 'w::len word) \<noteq> 0 \<Longrightarrow> \<not> y > (- 1) div x \<Longrightarrow> unat (y * x) = unat y * unat x"
  using bsize_mul_overflow_iff [of x y]
  by (simp add: unat_word_ariths mult.commute not_le)

lemma BAllocArray_exact:
  assumes "BAllocArray malloc count bytes = Some p"
  shows "\<exists>n :: 'w::len word. malloc n = Some p \<and> unat count * unat bytes \<le> unat n"
  using assms
proof (cases "count = 0 \<or> bytes = 0")
  case True
  with assms show ?thesis by (auto simp: BAllocArray_def)
next
  case False
  with assms have "\<not> count > (- 1) div bytes" "BAlloc malloc (count * bytes) = Some p"
    by (auto simp: BAllocArray_def split: if_splits)
  with False not_mul_overflow [of bytes count] show ?thesis
    by (auto simp: BAlloc_def split: if_splits)
qed

lemma BAllocArray2_exact:
  assumes "BAllocArray2 malloc count2 count1 bytes = Some p"
  shows "\<exists>n :: 'w::len word. malloc n = Some p \<and> unat count2 * (unat count1 * unat bytes) \<le> unat n"
proof (cases "count2 = 0 \<or> count1 = 0 \<or> bytes = 0")
  case True
  with assms show ?thesis by (auto simp: BAllocArray2_def)
next
  case False
  with assms have 1: "\<not> count1 > (- 1) div bytes" and 2: "\<not> count2 > (- 1) div (count1 * bytes)"
    and a: "BAlloc malloc (count2 * (count1 * bytes)) = Some p"
    by (auto simp: BAllocArray2_def split: if_splits)
  have e1: "unat (count1 * bytes) = unat count1 * unat bytes" using False 1 by (simp add: not_mul_overflow)
  moreover have "count1 * bytes \<noteq> 0" using e1 False by (metis mult_is_0 unat_eq_zero)
  ultimately have "unat (count2 * (count1 * bytes)) = unat count2 * (unat count1 * unat bytes)"
    using 2 not_mul_overflow [of "count1 * bytes" count2] by simp
  with a show ?thesis by (auto simp: BAlloc_def split: if_splits)
qed

section \<open>Properties\<close>

text \<open>The \<^verbatim>\<open>bsize_t\<close> operations are exact arithmetic with sticky overflow at every width of
  \<^verbatim>\<open>size_t\<close>: sum, product and maximum denote the mathematical result when it fits and nothing as soon
  as an operand or the result does not.\<close>

lemma bsize_exact:
  fixes s1 s2 :: "'w::len word bsize_t"
  shows "bsize_abs (bsize_add s1 s2) =
      Option.bind (bsize_abs s1) (\<lambda>a. Option.bind (bsize_abs s2) (\<lambda>b. fits TYPE('w) (a + b))) \<and>
    bsize_abs (bsize_mul s1 s2) =
      Option.bind (bsize_abs s1) (\<lambda>a. Option.bind (bsize_abs s2) (\<lambda>b. fits TYPE('w) (a * b))) \<and>
    bsize_abs (bsize_max s1 s2) =
      Option.bind (bsize_abs s1) (\<lambda>a. Option.bind (bsize_abs s2) (\<lambda>b. Some (max a b)))"
  by (simp add: bsize_abs_add bsize_abs_mul bsize_abs_max)

text \<open>An array allocation that succeeds obtained at least as many bytes as the elements
  need: the multiplications of \<^verbatim>\<open>BAllocArray\<close> and \<^verbatim>\<open>BAllocArray2\<close> never wrap around.\<close>

lemma BAllocArray_no_short_allocation:
  assumes "BAllocArray malloc count bytes = Some p" "BAllocArray2 malloc count2 count1 bytes = Some q"
  shows "(\<exists>n :: 'w::len word. malloc n = Some p \<and> unat count * unat bytes \<le> unat n) \<and>
    (\<exists>n. malloc n = Some q \<and> unat count2 * (unat count1 * unat bytes) \<le> unat n)"
  using BAllocArray_exact [OF assms(1)] BAllocArray2_exact [OF assms(2)] by blast

end
