(* ===== verification/Chunk_Buffer.thy ===== *)
theory Chunk_Buffer
  imports Misc_Size
begin

text \<open>
  \<^verbatim>\<open>structure/ChunkBuffer2.h\<close>: the circular packet buffer behind \<^verbatim>\<open>flow/PacketBuffer.c\<close>. Packets are
  stored in an array of 4-byte blocks, each as one header block that holds its length followed by
  the blocks of its data; a packet is never split, so the write position jumps to block 0 when a
  packet of maximal size would no longer fit before the end of the array (\<open>wrap\<close> remembers where).

  The file translates every function of the header, states what the buffer holds as a list of
  packets (\<open>cb_rep\<close>) and shows that submitting appends to that list and consuming removes its head.
  The contract the clients use is the locale \<open>packet_fifo\<close>, interpreted here on the translated code.
\<close>

section \<open>The code\<close>

record ChunkBuffer2 =
  cb_buffer :: ptr
  cb_size :: int
  cb_wrap :: int
  cb_start :: int
  cb_used :: int
  cb_mtu :: int
  cb_input_dest :: "ptr option"
  cb_input_avail :: int
  cb_output_dest :: "ptr option"
  cb_output_avail :: int

text \<open>The address \<^verbatim>\<open>&buf->buffer[i]\<close>.\<close>

definition cb_block :: "ChunkBuffer2 \<Rightarrow> int \<Rightarrow> ptr" where
  "cb_block b i = cb_buffer b + 4 * nat i"

definition ChunkBuffer2_end :: "ChunkBuffer2 \<Rightarrow> int" where
  "ChunkBuffer2_end b =
     (if cb_used b \<ge> cb_wrap b - cb_start b then cb_used b - (cb_wrap b - cb_start b)
      else cb_start b + cb_used b)"

definition ChunkBuffer2_assert_buffer :: "ChunkBuffer2 \<Rightarrow> bool" where
  "ChunkBuffer2_assert_buffer b \<longleftrightarrow>
     cb_size b > 0 \<and> cb_wrap b > 0 \<and> cb_wrap b \<le> cb_size b \<and>
     cb_start b \<ge> 0 \<and> cb_start b < cb_wrap b \<and> cb_used b \<ge> 0 \<and> cb_used b \<le> cb_wrap b \<and>
     (cb_wrap b = cb_size b \<or> cb_used b \<ge> cb_wrap b - cb_start b) \<and> cb_mtu b \<ge> 0"

text \<open>The number of free blocks, as both \<^verbatim>\<open>_ChunkBuffer2_update_input\<close> and
  \<^verbatim>\<open>_ChunkBuffer2_assert_io\<close> compute it.\<close>

definition cb_free :: "ChunkBuffer2 \<Rightarrow> int" where
  "cb_free b =
     (if cb_used b \<ge> cb_wrap b - cb_start b then cb_start b - ChunkBuffer2_end b
      else cb_size b - ChunkBuffer2_end b)"

definition ChunkBuffer2_assert_io :: "mem \<Rightarrow> ChunkBuffer2 \<Rightarrow> bool" where
  "ChunkBuffer2_assert_io m b \<longleftrightarrow>
     (let end = ChunkBuffer2_end b in
      if cb_size b - end - 1 < cb_mtu b then cb_input_dest b = None \<and> cb_input_avail b = - 1
      else (let free = cb_free b in
        if free > 0 then cb_input_dest b = Some (cb_block b (end + 1)) \<and>
          cb_input_avail b = to_c_int ((free - 1) * 4)
        else cb_input_dest b = None \<and> cb_input_avail b = - 1)) \<and>
     (if cb_used b > 0 then
        (let datalen = rd_int m (cb_block b (cb_start b)); blocklen = bdivide_up datalen 4
         in datalen \<ge> 0 \<and> blocklen \<le> cb_used b - 1 \<and> blocklen \<le> cb_wrap b - cb_start b - 1 \<and>
            cb_output_dest b = Some (cb_block b (cb_start b + 1)) \<and> cb_output_avail b = datalen)
      else cb_output_dest b = None \<and> cb_output_avail b = - 1)"

definition ChunkBuffer2_update_input :: "ChunkBuffer2 \<Rightarrow> ChunkBuffer2" where
  "ChunkBuffer2_update_input b =
     (let end = ChunkBuffer2_end b in
      if cb_size b - end - 1 < cb_mtu b then b\<lparr>cb_input_dest := None, cb_input_avail := - 1\<rparr>
      else (let free = cb_free b in
        if free > 0 then
          b\<lparr>cb_input_dest := Some (cb_block b (end + 1)), cb_input_avail := to_c_int ((free - 1) * 4)\<rparr>
        else b\<lparr>cb_input_dest := None, cb_input_avail := - 1\<rparr>))"

definition ChunkBuffer2_update_output :: "mem \<Rightarrow> ChunkBuffer2 \<Rightarrow> ChunkBuffer2" where
  "ChunkBuffer2_update_output m b =
     (if cb_used b > 0 then
        b\<lparr>cb_output_dest := Some (cb_block b (cb_start b + 1)),
          cb_output_avail := rd_int m (cb_block b (cb_start b))\<rparr>
      else b\<lparr>cb_output_dest := None, cb_output_avail := - 1\<rparr>)"

definition ChunkBuffer2_calc_blocks :: "int \<Rightarrow> int \<Rightarrow> int" where
  "ChunkBuffer2_calc_blocks chunk_len num =
     (let chunk_data_blocks = bdivide_up chunk_len 4 in
      if chunk_data_blocks > INT_MAX - 1 then - 1 else
      let chunk_blocks = 1 + chunk_data_blocks in
      if num > INT_MAX - 1 then - 1 else
      let num_chunks = num + 1 in
      if chunk_blocks > INT_MAX div num_chunks then - 1 else chunk_blocks * num_chunks)"

definition ChunkBuffer2_Init :: "mem \<Rightarrow> ptr \<Rightarrow> int \<Rightarrow> int \<Rightarrow> ChunkBuffer2" where
  "ChunkBuffer2_Init m buffer blocks mtu =
     ChunkBuffer2_update_output m (ChunkBuffer2_update_input
       \<lparr>cb_buffer = buffer, cb_size = blocks, cb_wrap = blocks, cb_start = 0, cb_used = 0,
        cb_mtu = bdivide_up mtu 4,
        cb_input_dest = None, cb_input_avail = 0, cb_output_dest = None, cb_output_avail = 0\<rparr>)"

definition ChunkBuffer2_SubmitPacket :: "mem \<Rightarrow> ChunkBuffer2 \<Rightarrow> int \<Rightarrow> mem \<times> ChunkBuffer2" where
  "ChunkBuffer2_SubmitPacket m b len =
     (let end = ChunkBuffer2_end b;
          blocklen = bdivide_up len 4;
          m' = wr_int m (cb_block b end) len;
          b1 = b\<lparr>cb_used := cb_used b + (1 + blocklen)\<rparr>;
          b2 = (if cb_used b1 \<le> cb_wrap b1 - cb_start b1 \<and> cb_mtu b1 > cb_size b1 - (end + 1 + blocklen) - 1
                then b1\<lparr>cb_wrap := end + 1 + blocklen\<rparr> else b1);
          b3 = ChunkBuffer2_update_input b2;
          b4 = (if cb_used b3 = 1 + blocklen then ChunkBuffer2_update_output m' b3 else b3)
      in (m', b4))"

definition ChunkBuffer2_ConsumePacket :: "mem \<Rightarrow> ChunkBuffer2 \<Rightarrow> ChunkBuffer2" where
  "ChunkBuffer2_ConsumePacket m b =
     (let blocklen = bdivide_up (rd_int m (cb_block b (cb_start b))) 4;
          data_wrapped = (cb_used b \<ge> cb_wrap b - cb_start b);
          b1 = b\<lparr>cb_start := cb_start b + (1 + blocklen), cb_used := cb_used b - (1 + blocklen)\<rparr>;
          b2 = (if cb_start b1 = cb_wrap b1 then b1\<lparr>cb_start := 0, cb_wrap := cb_size b1\<rparr> else b1);
          b3 = (if data_wrapped then ChunkBuffer2_update_input b2 else b2)
      in ChunkBuffer2_update_output m b3)"

section \<open>What the buffer holds\<close>

definition pkt_blocks :: "byte list \<Rightarrow> int" where
  "pkt_blocks p = 1 + bdivide_up (int (length p)) 4"

definition nblocks :: "byte list list \<Rightarrow> int" where
  "nblocks ps = sum_list (map pkt_blocks ps)"

text \<open>The last block at which a packet may begin: a packet of maximal size still fits there.\<close>

definition cb_last :: "ChunkBuffer2 \<Rightarrow> int" where
  "cb_last b = cb_size b - 1 - cb_mtu b"

text \<open>Consecutive packets from block \<open>i\<close> on, none of which begins after \<open>lim\<close>.\<close>

fun segs :: "mem \<Rightarrow> ptr \<Rightarrow> int \<Rightarrow> int \<Rightarrow> byte list list \<Rightarrow> bool" where
  "segs m base lim i [] = True"
| "segs m base lim i (p # ps) =
     (i \<le> lim \<and> rd_int m (base + 4 * nat i) = int (length p) \<and>
      rd m (base + 4 * nat (i + 1)) (length p) = p \<and> int (length p) \<le> INT_MAX \<and>
      segs m base lim (i + pkt_blocks p) ps)"

text \<open>Whether the data reaches the wrap position, so that the free space lies between the end of
  the data and its start.\<close>

definition cb_wrapped :: "ChunkBuffer2 \<Rightarrow> bool" where
  "cb_wrapped b \<longleftrightarrow> cb_used b \<ge> cb_wrap b - cb_start b"

text \<open>The buffer holds \<open>ps\<close>: one segment from \<open>start\<close>, and after wrapping a second one from
  block 0.\<close>

definition cb_rep :: "mem \<Rightarrow> ChunkBuffer2 \<Rightarrow> byte list list \<Rightarrow> bool" where
  "cb_rep m b ps \<longleftrightarrow> (\<exists>xs ys. ps = xs @ ys \<and>
     segs m (cb_buffer b) (cb_last b) (cb_start b) xs \<and> segs m (cb_buffer b) (cb_last b) 0 ys \<and>
     (if cb_wrapped b then cb_start b + nblocks xs = cb_wrap b \<and> cb_used b = nblocks xs + nblocks ys
      else ys = [] \<and> cb_used b = nblocks xs))"

text \<open>The invariant: the assertions of the code, the input and output fields up to date, and room
  for one packet of maximal size behind unwrapped data.\<close>

definition cb_inv :: "mem \<Rightarrow> ChunkBuffer2 \<Rightarrow> bool" where
  "cb_inv m b \<longleftrightarrow> ChunkBuffer2_assert_buffer b \<and> ChunkBuffer2_assert_io m b \<and>
     cb_mtu b < cb_size b \<and> cb_size b \<le> 536870912 \<and>
     (\<not> cb_wrapped b \<longrightarrow> ChunkBuffer2_end b \<le> cb_last b) \<and>
     cb_size b - cb_wrap b \<le> cb_mtu b"

section \<open>Layout lemmas\<close>

lemma pkt_blocks_ge1: "1 \<le> pkt_blocks p"
  by (simp add: pkt_blocks_def)

lemma pkt_blocks_bytes: "int (length p) \<le> 4 * (pkt_blocks p - 1)"
  using bdivide_up_bounds(1) [of 4 "int (length p)"] by (simp add: pkt_blocks_def)

lemma pkt_blocks_le: "int (length p) \<le> 4 * k \<Longrightarrow> pkt_blocks p \<le> 1 + k"
  by (simp add: pkt_blocks_def bdivide_up_le_iff)

lemma nblocks_simps [simp]:
  "nblocks [] = 0" "nblocks (p # ps) = pkt_blocks p + nblocks ps"
  "nblocks (ps @ qs) = nblocks ps + nblocks qs"
  by (simp_all add: nblocks_def)

lemma nblocks_nonneg: "0 \<le> nblocks ps"
proof (induction ps)
  case (Cons p ps)
  with pkt_blocks_ge1 [of p] show ?case by simp
qed simp

lemma nblocks_eq_0 [simp]: "nblocks ps = 0 \<longleftrightarrow> ps = []"
proof (cases ps)
  case (Cons p qs)
  with pkt_blocks_ge1 [of p] nblocks_nonneg [of qs] show ?thesis by auto
qed simp

lemma nblocks_le: "(\<And>p. p \<in> set ps \<Longrightarrow> pkt_blocks p \<le> k) \<Longrightarrow> nblocks ps \<le> int (length ps) * k"
proof (induction ps)
  case (Cons p ps)
  then have "pkt_blocks p \<le> k" "nblocks ps \<le> int (length ps) * k" by auto
  then show ?case by (simp add: distrib_right)
qed simp

lemma segs_append:
  "segs m base lim i (xs @ ys) \<longleftrightarrow> segs m base lim i xs \<and> segs m base lim (i + nblocks xs) ys"
  by (induction xs arbitrary: i) (auto simp: add.assoc)

text \<open>The layout only depends on the bytes it covers.\<close>

lemma segs_frame:
  assumes "segs m base lim i ps" and "0 \<le> i"
    and "\<And>a. base + 4 * nat i \<le> a \<Longrightarrow> a < base + 4 * nat (i + nblocks ps) \<Longrightarrow> m' a = m a"
  shows "segs m' base lim i ps"
  using assms
proof (induction ps arbitrary: i)
  case (Cons p ps)
  have k: "1 \<le> pkt_blocks p" "int (length p) \<le> 4 * (pkt_blocks p - 1)" "0 \<le> nblocks ps"
    by (rule pkt_blocks_ge1, rule pkt_blocks_bytes, rule nblocks_nonneg)
  then have top: "4 * nat (i + nblocks (p # ps)) = 4 * nat i + 4 * nat (pkt_blocks p) + 4 * nat (nblocks ps)"
    and len: "length p + 4 \<le> 4 * nat (pkt_blocks p)" and i1: "nat (i + 1) = nat i + 1"
    using Cons.prems(2) by (simp_all add: nat_add_distrib)
  have "rd m' (base + 4 * nat i) 4 = rd m (base + 4 * nat i) 4"
    by (rule rd_cong, rule Cons.prems(3)) (use top len in linarith)+
  moreover have "rd m' (base + 4 * nat (i + 1)) (length p) = rd m (base + 4 * nat (i + 1)) (length p)"
    by (rule rd_cong, rule Cons.prems(3)) (use top len i1 in linarith)+
  moreover have "segs m' base lim (i + pkt_blocks p) ps"
    by (rule Cons.IH) (use Cons.prems k in \<open>auto simp: add.assoc\<close>)
  ultimately show ?case using Cons.prems(1) by (simp add: rd_int_def)
qed simp

section \<open>Input and output fields\<close>

text \<open>The two halves of \<^verbatim>\<open>_ChunkBuffer2_assert_io\<close>.\<close>

definition cb_io_in :: "ChunkBuffer2 \<Rightarrow> bool" where
  "cb_io_in b \<longleftrightarrow>
     (if cb_size b - ChunkBuffer2_end b - 1 < cb_mtu b \<or> cb_free b \<le> 0
      then cb_input_dest b = None \<and> cb_input_avail b = - 1
      else cb_input_dest b = Some (cb_block b (ChunkBuffer2_end b + 1)) \<and>
        cb_input_avail b = to_c_int ((cb_free b - 1) * 4))"

definition cb_io_out :: "mem \<Rightarrow> ChunkBuffer2 \<Rightarrow> bool" where
  "cb_io_out m b \<longleftrightarrow>
     (if cb_used b > 0 then
        cb_output_dest b = Some (cb_block b (cb_start b + 1)) \<and>
        cb_output_avail b = rd_int m (cb_block b (cb_start b))
      else cb_output_dest b = None \<and> cb_output_avail b = - 1)"

definition cb_head_ok :: "mem \<Rightarrow> ChunkBuffer2 \<Rightarrow> bool" where
  "cb_head_ok m b \<longleftrightarrow> cb_used b > 0 \<longrightarrow>
     (let datalen = rd_int m (cb_block b (cb_start b)); blocklen = bdivide_up datalen 4
      in datalen \<ge> 0 \<and> blocklen \<le> cb_used b - 1 \<and> blocklen \<le> cb_wrap b - cb_start b - 1)"

lemma assert_io_iff:
  "ChunkBuffer2_assert_io m b \<longleftrightarrow> cb_io_in b \<and> cb_io_out m b \<and> cb_head_ok m b"
  by (auto simp: ChunkBuffer2_assert_io_def cb_io_in_def cb_io_out_def cb_head_ok_def Let_def)

lemma update_input_fields [simp]:
  "cb_buffer (ChunkBuffer2_update_input b) = cb_buffer b"
  "cb_size (ChunkBuffer2_update_input b) = cb_size b"
  "cb_wrap (ChunkBuffer2_update_input b) = cb_wrap b"
  "cb_start (ChunkBuffer2_update_input b) = cb_start b"
  "cb_used (ChunkBuffer2_update_input b) = cb_used b"
  "cb_mtu (ChunkBuffer2_update_input b) = cb_mtu b"
  "cb_output_dest (ChunkBuffer2_update_input b) = cb_output_dest b"
  "cb_output_avail (ChunkBuffer2_update_input b) = cb_output_avail b"
  by (simp_all add: ChunkBuffer2_update_input_def Let_def)

lemma update_output_fields [simp]:
  "cb_buffer (ChunkBuffer2_update_output m b) = cb_buffer b"
  "cb_size (ChunkBuffer2_update_output m b) = cb_size b"
  "cb_wrap (ChunkBuffer2_update_output m b) = cb_wrap b"
  "cb_start (ChunkBuffer2_update_output m b) = cb_start b"
  "cb_used (ChunkBuffer2_update_output m b) = cb_used b"
  "cb_mtu (ChunkBuffer2_update_output m b) = cb_mtu b"
  "cb_input_dest (ChunkBuffer2_update_output m b) = cb_input_dest b"
  "cb_input_avail (ChunkBuffer2_update_output m b) = cb_input_avail b"
  by (simp_all add: ChunkBuffer2_update_output_def)

lemmas cb_geom_defs = ChunkBuffer2_end_def cb_free_def cb_block_def cb_last_def cb_wrapped_def

lemma cb_io_in_update_input [simp]: "cb_io_in (ChunkBuffer2_update_input b)"
  by (auto simp: cb_io_in_def ChunkBuffer2_update_input_def cb_geom_defs Let_def)

lemma cb_io_out_update_output [simp]: "cb_io_out m (ChunkBuffer2_update_output m b)"
  by (auto simp: cb_io_out_def ChunkBuffer2_update_output_def cb_geom_defs)

lemma cb_io_in_update_output [simp]: "cb_io_in (ChunkBuffer2_update_output m b) = cb_io_in b"
  by (simp add: cb_io_in_def cb_geom_defs)

lemma cb_io_out_update_input [simp]: "cb_io_out m (ChunkBuffer2_update_input b) = cb_io_out m b"
  by (simp add: cb_io_out_def cb_geom_defs)

text \<open>The head of the list is the packet at \<open>start\<close>.\<close>

lemma cb_rep_Cons_head:
  assumes "cb_rep m b (p # ps)" and "ChunkBuffer2_assert_buffer b"
  obtains xs ys where "ps = xs @ ys"
    and "segs m (cb_buffer b) (cb_last b) (cb_start b) (p # xs)"
    and "segs m (cb_buffer b) (cb_last b) 0 ys"
    and "if cb_wrapped b then cb_start b + nblocks (p # xs) = cb_wrap b
           \<and> cb_used b = nblocks (p # xs) + nblocks ys
         else ys = [] \<and> cb_used b = nblocks (p # xs)"
proof -
  obtain xs ys where *: "p # ps = xs @ ys"
    "segs m (cb_buffer b) (cb_last b) (cb_start b) xs" "segs m (cb_buffer b) (cb_last b) 0 ys"
    "if cb_wrapped b then cb_start b + nblocks xs = cb_wrap b \<and> cb_used b = nblocks xs + nblocks ys
     else ys = [] \<and> cb_used b = nblocks xs"
    using assms(1) unfolding cb_rep_def by blast
  have "xs \<noteq> []"
    using *(1,4) assms(2) by (auto simp: ChunkBuffer2_assert_buffer_def split: if_splits)
  then obtain xs' where "xs = p # xs'" using *(1) by (cases xs) auto
  with * that show ?thesis by auto
qed

lemma cb_rep_Nil_iff:
  assumes "ChunkBuffer2_assert_buffer b"
  shows "cb_rep m b [] \<longleftrightarrow> cb_used b = 0"
  using assms by (auto simp: cb_rep_def cb_wrapped_def ChunkBuffer2_assert_buffer_def)

lemma cb_rep_used_pos:
  assumes "cb_rep m b (p # ps)" and "ChunkBuffer2_assert_buffer b"
  shows "pkt_blocks p \<le> cb_used b" "cb_start b + pkt_blocks p \<le> cb_wrap b"
    "rd_int m (cb_block b (cb_start b)) = int (length p)"
    "rd m (cb_block b (cb_start b + 1)) (length p) = p" "cb_start b \<le> cb_last b"
proof -
  obtain xs ys where *: "segs m (cb_buffer b) (cb_last b) (cb_start b) (p # xs)"
    "if cb_wrapped b then cb_start b + nblocks (p # xs) = cb_wrap b
       \<and> cb_used b = nblocks (p # xs) + nblocks ys
     else ys = [] \<and> cb_used b = nblocks (p # xs)"
    using cb_rep_Cons_head [OF assms] by metis
  show "pkt_blocks p \<le> cb_used b" "cb_start b + pkt_blocks p \<le> cb_wrap b"
    using *(2) nblocks_nonneg [of xs] nblocks_nonneg [of ys]
    by (auto simp: cb_wrapped_def split: if_splits)
  show "rd_int m (cb_block b (cb_start b)) = int (length p)"
    "rd m (cb_block b (cb_start b + 1)) (length p) = p" "cb_start b \<le> cb_last b"
    using *(1) by (simp_all add: cb_block_def)
qed

lemma cb_head_ok_of_rep:
  assumes "cb_rep m b ps" and "ChunkBuffer2_assert_buffer b"
  shows "cb_head_ok m b"
proof (cases ps)
  case Nil
  with assms show ?thesis by (simp add: cb_rep_Nil_iff cb_head_ok_def)
next
  case (Cons p qs)
  with cb_rep_used_pos [OF assms(1)[unfolded Cons] assms(2)]
  show ?thesis by (auto simp: cb_head_ok_def pkt_blocks_def)
qed

section \<open>Submitting a packet\<close>

text \<open>What an open input position guarantees.\<close>

lemma cb_input_open:
  assumes "cb_inv m b" and "cb_input_dest b = Some d"
  shows "d = cb_block b (ChunkBuffer2_end b + 1)" "0 \<le> ChunkBuffer2_end b"
    "ChunkBuffer2_end b \<le> cb_last b" "0 < cb_free b" "cb_input_avail b = (cb_free b - 1) * 4"
    "ChunkBuffer2_end b + cb_free b \<le> cb_size b"
proof -
  have b: "ChunkBuffer2_assert_buffer b" "cb_io_in b" "cb_size b \<le> 536870912"
    using assms(1) by (simp_all add: cb_inv_def assert_io_iff)
  show d: "d = cb_block b (ChunkBuffer2_end b + 1)" and f: "0 < cb_free b"
    and "ChunkBuffer2_end b \<le> cb_last b"
    using b(2) assms(2) by (auto simp: cb_io_in_def cb_last_def split: if_splits)
  show e: "0 \<le> ChunkBuffer2_end b" and le: "ChunkBuffer2_end b + cb_free b \<le> cb_size b"
    using b(1) by (auto simp: ChunkBuffer2_assert_buffer_def ChunkBuffer2_end_def cb_free_def)
  have "cb_input_avail b = to_c_int ((cb_free b - 1) * 4)"
    using b(2) assms(2) by (auto simp: cb_io_in_def split: if_splits)
  also have "\<dots> = (cb_free b - 1) * 4"
    using f e le b(3) by (intro to_c_int_id) (simp_all add: left_diff_distrib)
  finally show "cb_input_avail b = (cb_free b - 1) * 4" .
qed

lemma submit_fields:
  assumes "ChunkBuffer2_SubmitPacket m b len = (m', b')"
  shows "m' = wr_int m (cb_block b (ChunkBuffer2_end b)) len"
    and "cb_buffer b' = cb_buffer b" "cb_size b' = cb_size b" "cb_mtu b' = cb_mtu b"
    and "cb_start b' = cb_start b" "cb_used b' = cb_used b + (1 + bdivide_up len 4)"
    and "cb_wrap b' = (if cb_used b' \<le> cb_wrap b - cb_start b
           \<and> cb_mtu b > cb_size b - (ChunkBuffer2_end b + 1 + bdivide_up len 4) - 1
         then ChunkBuffer2_end b + 1 + bdivide_up len 4 else cb_wrap b)"
    and "cb_io_in b'"
    and "if cb_used b = 0 then cb_io_out m' b'
         else cb_output_dest b' = cb_output_dest b \<and> cb_output_avail b' = cb_output_avail b"
  using assms by (simp_all add: ChunkBuffer2_SubmitPacket_def Let_def split: if_split_asm) auto

text \<open>The bytes a submission writes: the header block and the packet behind it.\<close>

lemma submit_frame:
  assumes d: "d = cb_block b (e + 1)" and e: "0 \<le> e" and n: "n = int (length data)"
    and a: "a < cb_buffer b + 4 * nat e \<or> cb_buffer b + 4 * nat (e + pkt_blocks data) \<le> a"
  shows "wr_int (wr m d data) (cb_block b e) n a = m a"
proof -
  have len: "int (length data) \<le> 4 * (pkt_blocks data - 1)" "1 \<le> pkt_blocks data"
    by (rule pkt_blocks_bytes, rule pkt_blocks_ge1)
  then have "4 * nat (e + pkt_blocks data) = 4 * nat e + 4 * nat (pkt_blocks data)"
    "length data + 4 \<le> 4 * nat (pkt_blocks data)" "nat (e + 1) = nat e + 1"
    using e by (simp_all add: nat_add_distrib)
  with a have "a < d \<or> d + length data \<le> a" "a < cb_block b e \<or> cb_block b e + 4 \<le> a"
    unfolding d cb_block_def by linarith+
  then show ?thesis by (simp add: wr_int_def wr_outside)
qed

lemma submit_segs_new:
  assumes d: "d = cb_block b (e + 1)" and e: "0 \<le> e" "e \<le> lim" and n: "int (length data) \<le> INT_MAX"
  shows "segs (wr_int (wr m d data) (cb_block b e) (int (length data))) (cb_buffer b) lim e [data]"
proof -
  have "nat (e + 1) = nat e + 1" using e by simp
  then show ?thesis
    using e n by (simp add: d cb_block_def mem_simps)
qed

lemma submit_segs_old:
  assumes "segs m (cb_buffer b) lim i ps" "0 \<le> i" "0 \<le> e"
    and "i + nblocks ps \<le> e \<or> e + pkt_blocks data \<le> i"
    and "d = cb_block b (e + 1)" "n = int (length data)"
  shows "segs (wr_int (wr m d data) (cb_block b e) n) (cb_buffer b) lim i ps"
proof (rule segs_frame [OF assms(1,2)])
  fix a assume a: "cb_buffer b + 4 * nat i \<le> a" "a < cb_buffer b + 4 * nat (i + nblocks ps)"
  have "nat (i + nblocks ps) \<le> nat e \<or> nat (e + pkt_blocks data) \<le> nat i"
    using assms(4) by linarith
  with a have "a < cb_buffer b + 4 * nat e \<or> cb_buffer b + 4 * nat (e + pkt_blocks data) \<le> a"
    by linarith
  then show "wr_int (wr m d data) (cb_block b e) n a = m a"
    by (rule submit_frame [OF assms(5,3,6)])
qed

text \<open>The conjuncts of \<^const>\<open>cb_inv\<close> that do not depend on the store.\<close>

definition cb_shape :: "ChunkBuffer2 \<Rightarrow> bool" where
  "cb_shape b \<longleftrightarrow> ChunkBuffer2_assert_buffer b \<and> cb_mtu b < cb_size b \<and> cb_size b \<le> 536870912 \<and>
     (\<not> cb_wrapped b \<longrightarrow> ChunkBuffer2_end b \<le> cb_last b) \<and> cb_size b - cb_wrap b \<le> cb_mtu b"

lemma cb_inv_iff: "cb_inv m b \<longleftrightarrow> cb_shape b \<and> cb_io_in b \<and> cb_io_out m b \<and> cb_head_ok m b"
  by (auto simp: cb_inv_def cb_shape_def assert_io_iff)

lemma cb_shape_intro:
  assumes "0 \<le> cb_start b" "cb_start b < cb_wrap b" "0 \<le> cb_used b" "cb_used b \<le> cb_wrap b"
    "cb_wrap b \<le> cb_size b" "cb_size b \<le> 536870912" "cb_size b - cb_wrap b \<le> cb_mtu b"
    "0 \<le> cb_mtu b" "cb_mtu b < cb_size b"
    "cb_wrapped b \<or> cb_wrap b = cb_size b \<and> ChunkBuffer2_end b \<le> cb_last b"
  shows "cb_shape b"
  unfolding cb_shape_def ChunkBuffer2_assert_buffer_def
  using assms unfolding cb_wrapped_def by linarith

lemma cb_shapeD:
  assumes "cb_shape b"
  shows "0 \<le> cb_start b" "cb_start b < cb_wrap b" "0 \<le> cb_used b" "cb_used b \<le> cb_wrap b"
    "cb_wrap b \<le> cb_size b" "cb_size b \<le> 536870912" "cb_size b - cb_wrap b \<le> cb_mtu b"
    "0 \<le> cb_mtu b" "cb_mtu b < cb_size b"
    "cb_wrapped b \<or> cb_wrap b = cb_size b \<and> ChunkBuffer2_end b \<le> cb_last b"
  using assms unfolding cb_shape_def ChunkBuffer2_assert_buffer_def cb_wrapped_def by linarith+

lemma submit_wrapped:
  assumes inv: "cb_inv m b" and w: "cb_wrapped b" and dest: "cb_input_dest b = Some d"
    and k: "pkt_blocks data \<le> cb_free b" and n: "int (length data) \<le> INT_MAX"
    and rep: "cb_rep m b ps"
    and run: "ChunkBuffer2_SubmitPacket (wr m d data) b (int (length data)) = (m', b')"
  shows "cb_rep m' b' (ps @ [data])" "cb_shape b'"
proof -
  let ?e = "ChunkBuffer2_end b" and ?k = "pkt_blocks data"
  note op = cb_input_open [OF inv dest]
  note fl = submit_fields [OF run, folded pkt_blocks_def]
  have sh: "cb_shape b" using inv by (simp add: cb_inv_iff)
  note sh = cb_shapeD [OF this]
  have k1: "1 \<le> ?k" by (rule pkt_blocks_ge1)
  obtain xs ys where ps: "ps = xs @ ys"
    and xs: "segs m (cb_buffer b) (cb_last b) (cb_start b) xs"
    and ys: "segs m (cb_buffer b) (cb_last b) 0 ys"
    and g: "cb_start b + nblocks xs = cb_wrap b" "cb_used b = nblocks xs + nblocks ys"
    using rep w unfolding cb_rep_def by auto
  have e: "?e = nblocks ys" "?e + ?k \<le> cb_start b"
    using g k w by (simp_all add: ChunkBuffer2_end_def cb_wrapped_def cb_free_def)
  have wrap: "cb_wrap b' = cb_wrap b"
    using fl(6,7) k1 w by (simp add: cb_wrapped_def)
  have w': "cb_wrapped b'" using w fl(5,6) wrap k1 by (simp add: cb_wrapped_def)
  have "segs m' (cb_buffer b) (cb_last b) (cb_start b) xs"
    unfolding fl(1) by (rule submit_segs_old [OF xs sh(1) op(2) _ op(1)]) (use e in simp_all)
  moreover have "segs m' (cb_buffer b) (cb_last b) 0 ys"
    unfolding fl(1) by (rule submit_segs_old [OF ys _ op(2) _ op(1)]) (use e in simp_all)
  then have "segs m' (cb_buffer b) (cb_last b) 0 (ys @ [data])"
    using submit_segs_new [OF op(1,2,3) n, of m] e(1) fl(1) by (simp add: segs_append)
  moreover have "cb_last b' = cb_last b" using fl by (simp add: cb_last_def)
  ultimately show "cb_rep m' b' (ps @ [data])"
    unfolding cb_rep_def using w' g fl(2,5,6) wrap ps
    by (intro exI [of _ xs] exI [of _ "ys @ [data]"]) simp
  show "cb_shape b'"
    by (rule cb_shape_intro) (use sh w' wrap fl(3,4,5,6) g e k1 in linarith)+
qed

lemma submit_unwrapped:
  assumes inv: "cb_inv m b" and w: "\<not> cb_wrapped b" and dest: "cb_input_dest b = Some d"
    and k: "pkt_blocks data \<le> cb_free b" and n: "int (length data) \<le> INT_MAX"
    and rep: "cb_rep m b ps"
    and run: "ChunkBuffer2_SubmitPacket (wr m d data) b (int (length data)) = (m', b')"
  shows "cb_rep m' b' (ps @ [data])" "cb_shape b'"
proof -
  let ?e = "ChunkBuffer2_end b" and ?k = "pkt_blocks data"
  note op = cb_input_open [OF inv dest]
  note fl = submit_fields [OF run, folded pkt_blocks_def]
  have sh: "cb_shape b" using inv by (simp add: cb_inv_iff)
  note sh = cb_shapeD [OF this]
  have k1: "1 \<le> ?k" by (rule pkt_blocks_ge1)
  have xs: "segs m (cb_buffer b) (cb_last b) (cb_start b) ps" and g: "cb_used b = nblocks ps"
    using rep w unfolding cb_rep_def by auto
  have e: "?e = cb_start b + nblocks ps" "cb_wrap b = cb_size b" "?e + ?k \<le> cb_size b"
    using g k w sh(10) by (simp_all add: ChunkBuffer2_end_def cb_wrapped_def cb_free_def)
  have bl: "?e + 1 + bdivide_up (int (length data)) 4 = ?e + ?k" by (simp add: pkt_blocks_def)
  have wrap: "cb_wrap b' = (if ?e + ?k > cb_last b then ?e + ?k else cb_size b)"
    using fl(6,7) e g unfolding bl by (simp add: cb_last_def)
  have last: "cb_last b' = cb_last b" "cb_last b < cb_size b"
    using fl(3,4) sh(8) by (simp_all add: cb_last_def)
  have w': "cb_wrapped b' \<longleftrightarrow> ?e + ?k > cb_last b"
    using fl(5,6) e(1) g wrap last(2) by (simp add: cb_wrapped_def)
  have "segs m' (cb_buffer b) (cb_last b) (cb_start b) ps"
    unfolding fl(1) by (rule submit_segs_old [OF xs sh(1) op(2) _ op(1)]) (use e in simp_all)
  then have "segs m' (cb_buffer b) (cb_last b) (cb_start b) (ps @ [data])"
    using submit_segs_new [OF op(1,2,3) n, of m] e(1) fl(1) by (simp add: segs_append)
  then show "cb_rep m' b' (ps @ [data])"
    unfolding cb_rep_def using w' g fl(2,5,6) wrap e last
    by (intro exI [of _ "ps @ [data]"] exI [of _ "[]"]) simp
  have "\<not> cb_wrapped b' \<Longrightarrow> ChunkBuffer2_end b' = ?e + ?k"
    using fl(5,6) g e(1) by (simp add: ChunkBuffer2_end_def cb_wrapped_def)
  then have "cb_wrapped b' \<or> cb_wrap b' = cb_size b' \<and> ChunkBuffer2_end b' \<le> cb_last b'"
    using w' wrap last fl(3) by auto
  moreover have "cb_start b < cb_wrap b'" "cb_used b + ?k \<le> cb_wrap b'" "cb_wrap b' \<le> cb_size b"
    "cb_size b - cb_wrap b' \<le> cb_mtu b"
    using wrap e g k1 nblocks_nonneg [of ps] sh by (simp_all add: cb_last_def)
  ultimately show "cb_shape b'"
    by (intro cb_shape_intro) (use sh fl(3,4,5,6) k1 in simp_all)
qed

lemma submit_rep_inv:
  assumes inv: "cb_inv m b" and rep: "cb_rep m b ps" and dest: "cb_input_dest b = Some d"
    and fit: "int (length data) \<le> cb_input_avail b"
    and run: "ChunkBuffer2_SubmitPacket (wr m d data) b (int (length data)) = (m', b')"
  shows "cb_rep m' b' (ps @ [data])" "cb_inv m' b'"
proof -
  note op = cb_input_open [OF inv dest] and fl = submit_fields [OF run, folded pkt_blocks_def]
  have sh: "cb_shape b" and buf: "ChunkBuffer2_assert_buffer b" and io: "cb_io_out m b"
    using inv by (simp_all add: cb_inv_iff cb_shape_def)
  have k: "pkt_blocks data \<le> cb_free b"
    using fit op(5) pkt_blocks_le [of data "cb_free b - 1"] by simp
  have n: "int (length data) \<le> INT_MAX"
    using fit op cb_shapeD(6) [OF sh] by (simp add: INT_MAX_def)
  note new = submit_wrapped [OF inv _ dest k n rep run] submit_unwrapped [OF inv _ dest k n rep run]
  show rep': "cb_rep m' b' (ps @ [data])" using new by blast
  have sh': "cb_shape b'" using new by blast
  then have buf': "ChunkBuffer2_assert_buffer b'" by (simp add: cb_shape_def)
  have "cb_io_out m' b'"
  proof (cases "cb_used b = 0")
    case False
    then obtain p qs where ps: "ps = p # qs"
      using rep cb_rep_Nil_iff [OF buf] by (cases ps) auto
    have "rd_int m' (cb_block b' (cb_start b')) = rd_int m (cb_block b (cb_start b))"
      using cb_rep_used_pos(3) [OF rep [unfolded ps] buf] 
        cb_rep_used_pos(3) [OF rep' [unfolded ps append_Cons] buf'] by simp
    moreover have "0 < cb_used b" "0 < cb_used b'"
      using False cb_shapeD(3) [OF sh] fl(6) pkt_blocks_ge1 [of data] by simp_all
    ultimately show ?thesis
      using fl(2,5,9) io False by (simp add: cb_io_out_def cb_block_def)
  qed (use fl(9) in simp)
  then show "cb_inv m' b'"
    using sh' fl(8) cb_head_ok_of_rep [OF rep' buf'] by (simp add: cb_inv_iff)
qed

lemma submit_keeps_output:
  assumes inv: "cb_inv m b" and rep: "cb_rep m b ps" and dest: "cb_input_dest b = Some d"
    and fit: "int (length data) \<le> cb_input_avail b"
    and run: "ChunkBuffer2_SubmitPacket (wr m d data) b (int (length data)) = (m', b')" and ne: "ps \<noteq> []"
  shows "cb_output_dest b' = cb_output_dest b" "cb_output_avail b' = cb_output_avail b"
proof -
  have buf: "ChunkBuffer2_assert_buffer b" and sh: "cb_shape b"
    using inv by (simp_all add: cb_inv_iff cb_shape_def)
  have "cb_used b \<noteq> 0"
    using rep ne cb_rep_used_pos(1) [OF _ buf, of m "hd ps" "tl ps"] pkt_blocks_ge1 [of "hd ps"] by simp
  then show "cb_output_dest b' = cb_output_dest b" "cb_output_avail b' = cb_output_avail b"
    using submit_fields(9) [OF run] by simp_all
qed

section \<open>Consuming a packet, initialisation and capacity\<close>

lemma consume_fields:
  assumes b': "b' = ChunkBuffer2_ConsumePacket m b"
    and len: "rd_int m (cb_block b (cb_start b)) = int (length p)"
  shows "cb_buffer b' = cb_buffer b" "cb_size b' = cb_size b" "cb_mtu b' = cb_mtu b"
    "cb_used b' = cb_used b - pkt_blocks p"
    "cb_start b' = (if cb_start b + pkt_blocks p = cb_wrap b then 0 else cb_start b + pkt_blocks p)"
    "cb_wrap b' = (if cb_start b + pkt_blocks p = cb_wrap b then cb_size b else cb_wrap b)"
    "cb_io_out m b'"
    "if cb_wrapped b then cb_io_in b'
     else cb_input_dest b' = cb_input_dest b \<and> cb_input_avail b' = cb_input_avail b"
  unfolding b' ChunkBuffer2_ConsumePacket_def len
  by (simp_all add: Let_def pkt_blocks_def cb_wrapped_def)

lemma consume_wrapped:
  assumes sh: "cb_shape b" and w: "cb_wrapped b" and rep: "cb_rep m b (p # ps)"
    and b': "b' = ChunkBuffer2_ConsumePacket m b"
  shows "cb_rep m b' ps" "cb_shape b'"
proof -
  let ?k = "pkt_blocks p"
  note s = cb_shapeD [OF sh]
  have buf: "ChunkBuffer2_assert_buffer b" using sh by (simp add: cb_shape_def)
  note hd = cb_rep_used_pos [OF rep buf]
  note fl = consume_fields [OF b' hd(3)]
  have k1: "1 \<le> ?k" by (rule pkt_blocks_ge1)
  have last: "cb_last b' = cb_last b" using fl by (simp add: cb_last_def)
  obtain xs ys where ps: "ps = xs @ ys"
    and xs: "segs m (cb_buffer b) (cb_last b) (cb_start b + ?k) xs"
    and ys: "segs m (cb_buffer b) (cb_last b) 0 ys"
    and g: "cb_start b + ?k + nblocks xs = cb_wrap b" "cb_used b = ?k + nblocks xs + nblocks ys"
    using cb_rep_Cons_head [OF rep buf] w by (metis add.assoc nblocks_simps(2) segs.simps(2))
  have nn: "0 \<le> nblocks xs" "0 \<le> nblocks ys" "nblocks ys \<le> cb_start b"
    using g s(4) by (simp_all add: nblocks_nonneg)
  have "cb_rep m b' ps \<and> cb_shape b'"
  proof (cases "xs = []")
    case True
    then have f: "cb_start b' = 0" "cb_wrap b' = cb_size b" "cb_used b' = nblocks ys"
      using fl g by simp_all
    have nw: "\<not> cb_wrapped b'" using f nn s by (simp add: cb_wrapped_def)
    have "cb_rep m b' ps"
      unfolding cb_rep_def using nw f last fl(1) ys ps True
      by (intro exI [of _ ys] exI [of _ "[]"]) simp
    moreover have "ChunkBuffer2_end b' \<le> cb_last b'"
      using nw f nn last hd(5) by (simp add: ChunkBuffer2_end_def cb_wrapped_def)
    then have "cb_shape b'"
      by (intro cb_shape_intro) (use f fl(2,3) s nn in simp_all)
    ultimately show ?thesis ..
  next
    case False
    then have "0 < nblocks xs" using nn(1) nblocks_eq_0 [of xs] by linarith
    then have f: "cb_start b' = cb_start b + ?k" "cb_wrap b' = cb_wrap b"
      "cb_used b' = nblocks xs + nblocks ys"
      using fl g by simp_all
    have w': "cb_wrapped b'" using f g nn by (simp add: cb_wrapped_def)
    have "cb_rep m b' ps"
      unfolding cb_rep_def using w' f g last fl(1) xs ys ps
      by (intro exI [of _ xs] exI [of _ ys]) simp
    moreover have "cb_shape b'"
      by (rule cb_shape_intro) (use \<open>0 < nblocks xs\<close> f fl(2,3) g s nn k1 w' in linarith)+
    ultimately show ?thesis ..
  qed
  then show "cb_rep m b' ps" "cb_shape b'" by simp_all
qed

lemma consume_unwrapped:
  assumes inv: "cb_shape b" "cb_io_in b" and w: "\<not> cb_wrapped b" and rep: "cb_rep m b (p # ps)"
    and b': "b' = ChunkBuffer2_ConsumePacket m b"
  shows "cb_rep m b' ps" "cb_shape b'" "cb_io_in b'"
proof -
  let ?k = "pkt_blocks p"
  note s = cb_shapeD [OF inv(1)]
  have buf: "ChunkBuffer2_assert_buffer b" using inv(1) by (simp add: cb_shape_def)
  note hd = cb_rep_used_pos [OF rep buf]
  note fl = consume_fields [OF b' hd(3)]
  have xs: "segs m (cb_buffer b) (cb_last b) (cb_start b) (p # ps)" and g: "cb_used b = nblocks (p # ps)"
    using rep w unfolding cb_rep_def by auto
  have nw: "cb_start b + nblocks (p # ps) < cb_wrap b" "cb_wrap b = cb_size b"
    "ChunkBuffer2_end b \<le> cb_last b"
    using w g s(10) by (auto simp: cb_wrapped_def)
  have f: "cb_start b' = cb_start b + ?k" "cb_wrap b' = cb_wrap b" "cb_used b' = nblocks ps"
    using fl nw nblocks_nonneg [of ps] g by simp_all
  have w': "\<not> cb_wrapped b'" using f nw by (simp add: cb_wrapped_def)
  have e: "ChunkBuffer2_end b' = ChunkBuffer2_end b" "cb_last b' = cb_last b" "cb_free b' = cb_free b"
    using f g w w' fl by (simp_all add: ChunkBuffer2_end_def cb_wrapped_def cb_last_def cb_free_def)
  show "cb_rep m b' ps"
    unfolding cb_rep_def using w' f e fl(1) xs by (intro exI [of _ ps] exI [of _ "[]"]) simp
  show "cb_shape b'"
    by (intro cb_shape_intro)
      (use f fl(2,3) s nw e nblocks_nonneg [of ps] pkt_blocks_ge1 [of p] in simp_all)
  show "cb_io_in b'"
    using inv(2) w e fl(1,2,3,8) by (simp add: cb_io_in_def cb_block_def)
qed

lemma consume_rep_inv:
  assumes inv: "cb_inv m b" and rep: "cb_rep m b (p # ps)"
  shows "cb_rep m (ChunkBuffer2_ConsumePacket m b) ps" "cb_inv m (ChunkBuffer2_ConsumePacket m b)"
proof -
  let ?b' = "ChunkBuffer2_ConsumePacket m b"
  have i: "cb_shape b" "cb_io_in b" and buf: "ChunkBuffer2_assert_buffer b"
    using inv by (simp_all add: cb_inv_iff cb_shape_def)
  note hd = cb_rep_used_pos [OF rep buf]
  note fl = consume_fields [OF refl hd(3)]
  have new: "cb_rep m ?b' ps \<and> cb_shape ?b' \<and> cb_io_in ?b'"
    using consume_wrapped [OF i(1) _ rep refl] consume_unwrapped [OF i _ rep refl] fl(8)
    by (cases "cb_wrapped b") auto
  then have "ChunkBuffer2_assert_buffer ?b'" by (simp add: cb_shape_def)
  then show "cb_rep m ?b' ps" "cb_inv m ?b'"
    using new fl(7) cb_head_ok_of_rep [of m ?b' ps] by (simp_all add: cb_inv_iff)
qed

text \<open>Consuming does not move an input position that was handed out: a receive that is under way
  still writes to the place where the packet is submitted later.\<close>

lemma consume_input_stable:
  assumes inv: "cb_inv m b" and rep: "cb_rep m b (p # ps)" and dest: "cb_input_dest b = Some d"
  shows "cb_input_dest (ChunkBuffer2_ConsumePacket m b) = Some d"
    "cb_input_avail b \<le> cb_input_avail (ChunkBuffer2_ConsumePacket m b)"
proof -
  let ?b' = "ChunkBuffer2_ConsumePacket m b" and ?k = "pkt_blocks p"
  have sh: "cb_shape b" and io: "cb_io_in b" and buf: "ChunkBuffer2_assert_buffer b"
    using inv by (simp_all add: cb_inv_iff cb_shape_def)
  note s = cb_shapeD [OF sh] and hd = cb_rep_used_pos [OF rep buf]
  note fl = consume_fields [OF refl hd(3)] and op = cb_input_open [OF inv dest]
  have inv': "cb_inv m ?b'" by (rule consume_rep_inv(2) [OF inv rep])
  have "cb_input_dest ?b' = Some d \<and> cb_input_avail b \<le> cb_input_avail ?b'"
  proof (cases "cb_wrapped b")
    case True
    then have e: "ChunkBuffer2_end ?b' = ChunkBuffer2_end b" and f: "cb_free b \<le> cb_free ?b'"
      using fl(2,4,5,6) hd(1,2) s pkt_blocks_ge1 [of p]
      by (auto simp: ChunkBuffer2_end_def cb_free_def cb_wrapped_def)
    have "cb_io_in ?b'" using fl(8) True by simp
    then have d': "cb_input_dest ?b' = Some d"
      using op(1,3,4) e f fl(1,2,3) by (auto simp: cb_io_in_def cb_last_def cb_block_def)
    with cb_input_open(5) [OF inv' d'] op(5) f show ?thesis by simp
  qed (use fl(8) dest in simp)
  then show "cb_input_dest ?b' = Some d" "cb_input_avail b \<le> cb_input_avail ?b'" by simp_all
qed

lemma init_rep_inv:
  assumes "0 \<le> mtu" "bdivide_up mtu 4 < blocks" "blocks \<le> 536870912"
    and b: "b = ChunkBuffer2_Init m buffer blocks mtu"
  shows "cb_rep m b []" "cb_inv m b" "cb_mtu b = bdivide_up mtu 4" "cb_size b = blocks"
    "cb_buffer b = buffer"
proof -
  have f: "cb_buffer b = buffer" "cb_size b = blocks" "cb_wrap b = blocks" "cb_start b = 0"
    "cb_used b = 0" "cb_mtu b = bdivide_up mtu 4" "cb_io_in b" "cb_io_out m b"
    unfolding b ChunkBuffer2_Init_def by simp_all
  have M: "0 \<le> bdivide_up mtu 4" using assms(1) by simp
  have sh: "cb_shape b"
    by (rule cb_shape_intro) (use f M assms(2,3) in \<open>auto simp: ChunkBuffer2_end_def cb_last_def\<close>)
  then have buf: "ChunkBuffer2_assert_buffer b" by (simp add: cb_shape_def)
  then show rep: "cb_rep m b []" using f by (simp add: cb_rep_Nil_iff)
  show "cb_inv m b" using sh f cb_head_ok_of_rep [OF rep buf] by (simp add: cb_inv_iff)
qed (use b in \<open>simp_all add: ChunkBuffer2_Init_def\<close>)

text \<open>The output fields describe the oldest packet.\<close>

lemma cb_head:
  assumes inv: "cb_inv m b" and rep: "cb_rep m b (p # ps)"
  shows "\<exists>q. cb_output_dest b = Some q \<and> rd m q (length p) = p" "cb_output_avail b = int (length p)"
proof -
  have buf: "ChunkBuffer2_assert_buffer b" and io: "cb_io_out m b"
    using inv by (simp_all add: cb_inv_iff cb_shape_def)
  note hd = cb_rep_used_pos [OF rep buf]
  have "0 < cb_used b" using hd(1) pkt_blocks_ge1 [of p] by simp
  with io hd show "\<exists>q. cb_output_dest b = Some q \<and> rd m q (length p) = p"
    "cb_output_avail b = int (length p)"
    by (simp_all add: cb_io_out_def)
qed

lemma cb_empty_iff:
  assumes "cb_inv m b" and "cb_rep m b ps"
  shows "cb_output_avail b < 0 \<longleftrightarrow> ps = []"
proof (cases ps)
  case Nil
  with assms show ?thesis
    by (auto simp: cb_inv_iff cb_shape_def cb_io_out_def cb_rep_Nil_iff)
qed (use cb_head [OF assms(1)] assms(2) in auto)

lemma cb_input_avail_nonneg:
  assumes "cb_inv m b" "0 \<le> cb_input_avail b"
  shows "\<exists>d. cb_input_dest b = Some d"
  using assms by (auto simp: cb_inv_iff cb_io_in_def split: if_splits)

text \<open>Data that does not reach the wrap position leaves room for a packet of maximal size.\<close>

lemma cb_unwrapped_room:
  assumes inv: "cb_inv m b" and w: "\<not> cb_wrapped b" and mtu: "mtu \<le> 4 * cb_mtu b"
  shows "mtu \<le> cb_input_avail b"
proof -
  have sh: "cb_shape b" and io: "cb_io_in b" using inv by (simp_all add: cb_inv_iff)
  note s = cb_shapeD [OF sh]
  have free: "cb_free b = cb_size b - ChunkBuffer2_end b" using w by (simp add: cb_free_def cb_wrapped_def)
  moreover have e: "ChunkBuffer2_end b \<le> cb_last b" using s(10) w by blast
  ultimately have f: "cb_mtu b < cb_free b" by (simp add: cb_last_def)
  then obtain d where "cb_input_dest b = Some d"
    using io e s(8) by (auto simp: cb_io_in_def cb_last_def split: if_splits)
  then have "cb_input_avail b = (cb_free b - 1) * 4" by (rule cb_input_open(5) [OF inv])
  with f mtu show ?thesis by simp
qed

lemma cb_full_count:
  assumes inv: "cb_inv m b" and rep: "cb_rep m b ps"
    and small: "\<And>p. p \<in> set ps \<Longrightarrow> int (length p) \<le> mtu" and mtu: "bdivide_up mtu 4 = cb_mtu b"
    and size: "(1 + cb_mtu b) * (num + 1) \<le> cb_size b" and full: "cb_input_avail b < mtu"
  shows "num \<le> int (length ps)"
proof -
  let ?M = "cb_mtu b"
  have sh: "cb_shape b" and io: "cb_io_in b" using inv by (simp_all add: cb_inv_iff)
  note s = cb_shapeD [OF sh]
  have M: "mtu \<le> 4 * ?M" using bdivide_up_bounds(1) [of 4 mtu] mtu by simp
  have w: "cb_wrapped b" using cb_unwrapped_room [OF inv _ M] full by fastforce
  have free: "cb_free b \<le> ?M"
  proof (cases "cb_input_dest b")
    case None
    then show ?thesis
      using io s w by (auto simp: cb_io_in_def cb_free_def cb_wrapped_def split: if_splits)
  next
    case (Some d)
    with cb_input_open(5) [OF inv Some] full M show ?thesis by simp
  qed
  have "cb_used b = cb_wrap b - cb_free b"
    using w by (simp add: cb_free_def ChunkBuffer2_end_def cb_wrapped_def)
  with free s(7) have lo: "cb_size b - 2 * ?M \<le> cb_used b" by linarith
  have "cb_used b = nblocks ps" using rep w by (auto simp: cb_rep_def)
  also have "\<dots> \<le> int (length ps) * (1 + ?M)"
    by (rule nblocks_le, rule pkt_blocks_le) (use small M in fastforce)
  finally have "(1 + ?M) * (num + 1) - 2 * ?M \<le> int (length ps) * (1 + ?M)"
    using lo size by linarith
  then have "(1 + ?M) * (num - 1) < (1 + ?M) * int (length ps)"
    using s(8) by (simp add: algebra_simps)
  then have "num - 1 < int (length ps)"
    using s(8) by (simp add: mult_less_cancel_left_pos)
  then show ?thesis by simp
qed

lemma calc_blocks_exact:
  assumes "0 \<le> chunk_len" "0 \<le> num" "ChunkBuffer2_calc_blocks chunk_len num \<noteq> - 1"
  shows "ChunkBuffer2_calc_blocks chunk_len num = (1 + bdivide_up chunk_len 4) * (num + 1)"
    "ChunkBuffer2_calc_blocks chunk_len num \<le> INT_MAX"
proof -
  let ?c = "1 + bdivide_up chunk_len 4"
  show eq: "ChunkBuffer2_calc_blocks chunk_len num = ?c * (num + 1)"
    using assms(3) by (auto simp: ChunkBuffer2_calc_blocks_def Let_def split: if_splits)
  have "?c \<le> INT_MAX div (num + 1)"
    using assms(3) by (auto simp: ChunkBuffer2_calc_blocks_def Let_def split: if_splits)
  then show "ChunkBuffer2_calc_blocks chunk_len num \<le> INT_MAX"
    using assms(2) by (simp add: eq int_le_div_iff)
qed

section \<open>The contract of a packet queue\<close>

text \<open>
  What a client of the buffer may rely on. A client writes a packet at \<open>in_dest\<close> and submits it,
  reads the oldest packet at \<open>out_dest\<close> and consumes it; \<open>holds m b ps\<close> says which packets the
  buffer contains, oldest first.
\<close>

locale packet_fifo =
  fixes inv :: "mem \<Rightarrow> 'b \<Rightarrow> bool"
    and holds :: "mem \<Rightarrow> 'b \<Rightarrow> byte list list \<Rightarrow> bool"
    and in_dest :: "'b \<Rightarrow> ptr option" and in_avail :: "'b \<Rightarrow> int"
    and out_dest :: "'b \<Rightarrow> ptr option" and out_avail :: "'b \<Rightarrow> int"
    and submit :: "mem \<Rightarrow> 'b \<Rightarrow> int \<Rightarrow> mem \<times> 'b"
    and consume :: "mem \<Rightarrow> 'b \<Rightarrow> 'b"
    and max_len :: "'b \<Rightarrow> int"
  assumes submit_law: "inv m b \<Longrightarrow> holds m b ps \<Longrightarrow> in_dest b = Some d \<Longrightarrow>
      int (length data) \<le> in_avail b \<Longrightarrow> submit (wr m d data) b (int (length data)) = (m', b') \<Longrightarrow>
      holds m' b' (ps @ [data]) \<and> inv m' b' \<and> max_len b' = max_len b"
    and consume_law: "inv m b \<Longrightarrow> holds m b (p # ps) \<Longrightarrow>
      holds m (consume m b) ps \<and> inv m (consume m b) \<and> max_len (consume m b) = max_len b"
    and head_law: "inv m b \<Longrightarrow> holds m b (p # ps) \<Longrightarrow>
      (\<exists>q. out_dest b = Some q \<and> rd m q (length p) = p) \<and> out_avail b = int (length p)"
    and empty_law: "inv m b \<Longrightarrow> holds m b ps \<Longrightarrow> out_avail b < 0 \<longleftrightarrow> ps = []"
    and room_law: "inv m b \<Longrightarrow> holds m b [] \<Longrightarrow> max_len b \<le> in_avail b"
    and open_law: "inv m b \<Longrightarrow> 0 \<le> in_avail b \<Longrightarrow> \<exists>d. in_dest b = Some d"
    and stable_law: "inv m b \<Longrightarrow> holds m b (p # ps) \<Longrightarrow> in_dest b = Some d \<Longrightarrow>
      in_dest (consume m b) = Some d \<and> in_avail b \<le> in_avail (consume m b)"
begin

text \<open>After a submission there is a packet to send, and it is the new one exactly if the queue was
  empty.\<close>

lemma submit_head:
  assumes "inv m b" "holds m b ps" "in_dest b = Some d" "int (length data) \<le> in_avail b"
    "submit (wr m d data) b (int (length data)) = (m', b')"
  shows "\<exists>q. out_dest b' = Some q \<and> rd m' q (length (hd (ps @ [data]))) = hd (ps @ [data])"
    "out_avail b' = int (length (hd (ps @ [data])))"
proof -
  obtain p qs where ps: "ps @ [data] = p # qs" by (cases "ps @ [data]") auto
  have new: "holds m' b' (p # qs)" "inv m' b'" using submit_law [OF assms] by (simp_all add: ps)
  show "\<exists>q. out_dest b' = Some q \<and> rd m' q (length (hd (ps @ [data]))) = hd (ps @ [data])"
    "out_avail b' = int (length (hd (ps @ [data])))"
    using head_law [OF new(2,1)] by (simp_all add: ps)
qed

text \<open>A queue that has no room for a packet of maximal size is not empty: its client can always go
  on, either by receiving or by sending.\<close>

lemma no_room_not_empty:
  assumes "inv m b" "holds m b ps" "in_avail b < max_len b"
  shows "ps \<noteq> []"
  using room_law [OF assms(1)] assms(2,3) by (cases ps) auto

lemma room_or_data:
  assumes "inv m b" "holds m b ps"
  shows "max_len b \<le> in_avail b \<or> 0 \<le> out_avail b"
  using no_room_not_empty [OF assms] empty_law [OF assms] by (cases "max_len b \<le> in_avail b") auto

end

lemma submit_mtu:
  "ChunkBuffer2_SubmitPacket m b len = (m', b') \<Longrightarrow> cb_mtu b' = cb_mtu b \<and> cb_size b' = cb_size b"
  by (simp add: submit_fields)

lemma consume_mtu:
  "cb_mtu (ChunkBuffer2_ConsumePacket m b) = cb_mtu b \<and> cb_size (ChunkBuffer2_ConsumePacket m b) = cb_size b"
  by (simp add: ChunkBuffer2_ConsumePacket_def Let_def)

interpretation cbq: packet_fifo cb_inv cb_rep cb_input_dest cb_input_avail cb_output_dest
  cb_output_avail ChunkBuffer2_SubmitPacket ChunkBuffer2_ConsumePacket "\<lambda>b. 4 * cb_mtu b"
proof
  fix m b assume "cb_inv m b" "cb_rep m b []"
  then have "\<not> cb_wrapped b"
    by (auto simp: cb_inv_iff cb_shape_def cb_rep_Nil_iff cb_wrapped_def ChunkBuffer2_assert_buffer_def)
  with \<open>cb_inv m b\<close> show "4 * cb_mtu b \<le> cb_input_avail b" by (rule cb_unwrapped_room) simp
qed (auto simp: consume_mtu consume_rep_inv cb_empty_iff cb_input_avail_nonneg consume_input_stable
    dest: submit_rep_inv submit_mtu cb_head)

section \<open>Properties\<close>

text \<open>A small buffer for the witnesses: 12 blocks, packets of at most 20 bytes, one of which is
  guaranteed to fit at any time.\<close>

definition cb_ex :: ChunkBuffer2 where
  "cb_ex = ChunkBuffer2_Init (\<lambda>_. 0) 0 12 20"

lemma cb_ex_ok: "cb_rep (\<lambda>_. 0) cb_ex []" "cb_inv (\<lambda>_. 0) cb_ex" "cb_size cb_ex = 12" "cb_mtu cb_ex = 5"
  using init_rep_inv [of 20 12 cb_ex "\<lambda>_. 0" 0] by (simp_all add: cb_ex_def bdivide_up_def)

lemma cb_ex_input: "cb_input_dest cb_ex = Some 4" "cb_input_avail cb_ex = 44"
  by (simp_all add: cb_ex_def ChunkBuffer2_Init_def ChunkBuffer2_update_input_def cb_geom_defs
      bdivide_up_def to_c_int_def)

text \<open>The example buffer after one packet of 3 bytes, and after one and two packets of 20 bytes.\<close>

definition cb_ex1 :: "mem \<times> ChunkBuffer2" where
  "cb_ex1 = ChunkBuffer2_SubmitPacket (wr (\<lambda>_. 0) 4 [7, 8, 9]) cb_ex 3"

definition cb_ex2 :: "mem \<times> ChunkBuffer2" where
  "cb_ex2 = ChunkBuffer2_SubmitPacket (wr (\<lambda>_. 0) 4 (replicate 20 1)) cb_ex 20"

definition cb_ex3 :: "mem \<times> ChunkBuffer2" where
  "cb_ex3 = ChunkBuffer2_SubmitPacket (wr (fst cb_ex2) 28 (replicate 20 2)) (snd cb_ex2) 20"

text \<open>Claim C17. Submitting a packet that was written at \<^verbatim>\<open>input_dest\<close> and fits \<^verbatim>\<open>input_avail\<close> appends
  exactly that packet to the queue the buffer holds, changes no other stored packet, and keeps the
  assertions of \<^verbatim>\<open>_ChunkBuffer2_assert_buffer\<close> and \<^verbatim>\<open>_ChunkBuffer2_assert_io\<close>.\<close>

theorem ChunkBuffer2_submit_appends:
  assumes "cb_inv m b" "cb_rep m b ps" "cb_input_dest b = Some d"
    and "int (length data) \<le> cb_input_avail b"
    and "ChunkBuffer2_SubmitPacket (wr m d data) b (int (length data)) = (m', b')"
  shows "cb_rep m' b' (ps @ [data]) \<and> cb_inv m' b' \<and>
    ChunkBuffer2_assert_buffer b' \<and> ChunkBuffer2_assert_io m' b'"
  using submit_rep_inv [OF assms] by (simp add: cb_inv_def)

theorem ChunkBuffer2_submit_appends_witness:
  "cb_rep (fst cb_ex1) (snd cb_ex1) [[7, 8, 9]] \<and> cb_inv (fst cb_ex1) (snd cb_ex1)"
  using ChunkBuffer2_submit_appends [OF cb_ex_ok(2,1) cb_ex_input(1),
      of "[7, 8, 9]" "fst cb_ex1" "snd cb_ex1"]
  by (simp add: cb_ex_input cb_ex1_def)

text \<open>Claim C18. Consuming removes the oldest packet, the one that \<^verbatim>\<open>output_dest\<close> and
  \<^verbatim>\<open>output_avail\<close> describe, and leaves the others in order.\<close>

theorem ChunkBuffer2_consume_removes_head:
  assumes "cb_inv m b" "cb_rep m b (p # ps)"
  shows "(\<exists>q. cb_output_dest b = Some q \<and> rd m q (length p) = p) \<and>
    cb_output_avail b = int (length p) \<and>
    cb_rep m (ChunkBuffer2_ConsumePacket m b) ps \<and> cb_inv m (ChunkBuffer2_ConsumePacket m b)"
  using cbq.head_law [OF assms] cbq.consume_law [OF assms] by blast

lemma cb_ex1_ok: "cb_rep (fst cb_ex1) (snd cb_ex1) [[7, 8, 9]]" "cb_inv (fst cb_ex1) (snd cb_ex1)"
  using submit_rep_inv [OF cb_ex_ok(2,1) cb_ex_input(1), of "[7, 8, 9]" "fst cb_ex1" "snd cb_ex1"]
  by (simp_all add: cb_ex_input cb_ex1_def)

theorem ChunkBuffer2_consume_removes_head_witness:
  "cb_output_avail (snd cb_ex1) = 3 \<and>
   cb_rep (fst cb_ex1) (ChunkBuffer2_ConsumePacket (fst cb_ex1) (snd cb_ex1)) []"
  using ChunkBuffer2_consume_removes_head [OF cb_ex1_ok(2,1)] by simp

text \<open>Capacity: a buffer whose size comes from \<^verbatim>\<open>ChunkBuffer2_calc_blocks(mtu, num)\<close>
  and that holds packets of at most \<open>mtu\<close> bytes refuses a packet of \<open>mtu\<close> bytes only while it
  holds at least \<open>num\<close> packets, wherever its data lies.\<close>

lemma ChunkBuffer2_capacity:
  assumes "cb_inv m b" "cb_rep m b ps" "0 \<le> mtu" "0 \<le> num"
    and "ChunkBuffer2_calc_blocks mtu num = cb_size b" "cb_mtu b = bdivide_up mtu 4"
    and "list_all (\<lambda>p. int (length p) \<le> mtu) ps" and "cb_input_avail b < mtu"
  shows "num \<le> int (length ps)"
proof -
  have "cb_size b \<noteq> - 1" using assms(1) by (auto simp: cb_inv_def ChunkBuffer2_assert_buffer_def)
  then have "cb_size b = (1 + cb_mtu b) * (num + 1)"
    using calc_blocks_exact(1) [of mtu num] assms(3-6) by simp
  then show ?thesis
    by (intro cb_full_count [OF assms(1,2) _ assms(6) [symmetric] _ assms(8)])
      (use assms(7) in \<open>auto simp: list_all_iff\<close>)
qed

lemma cb_ex2_ok: "cb_rep (fst cb_ex2) (snd cb_ex2) [replicate 20 1]" "cb_inv (fst cb_ex2) (snd cb_ex2)"
  using submit_rep_inv [OF cb_ex_ok(2,1) cb_ex_input(1), of "replicate 20 1" "fst cb_ex2" "snd cb_ex2"]
  by (simp_all add: cb_ex_input cb_ex2_def)

lemma cb_ex_fields:
  "cb_buffer cb_ex = 0" "cb_size cb_ex = 12" "cb_wrap cb_ex = 12" "cb_start cb_ex = 0" "cb_used cb_ex = 0"
  "cb_mtu cb_ex = 5"
  by (simp_all add: cb_ex_def ChunkBuffer2_Init_def bdivide_up_def)

lemma cb_ex2_fields:
  "cb_buffer (snd cb_ex2) = 0" "cb_size (snd cb_ex2) = 12" "cb_wrap (snd cb_ex2) = 12"
  "cb_start (snd cb_ex2) = 0" "cb_used (snd cb_ex2) = 6" "cb_mtu (snd cb_ex2) = 5"
  using submit_fields [where m = "wr (\<lambda>_. 0) 4 (replicate 20 1)" and b = cb_ex and len = 20,
      OF prod.collapse [symmetric]]
  unfolding cb_ex2_def [symmetric]
  by (simp_all add: cb_ex_fields bdivide_up_def ChunkBuffer2_end_def)

lemma cb_ex2_input: "cb_input_dest (snd cb_ex2) = Some 28" "cb_input_avail (snd cb_ex2) = 20"
proof -
  have "cb_io_in (snd cb_ex2)" using cb_ex2_ok(2) by (simp add: cb_inv_iff)
  then show "cb_input_dest (snd cb_ex2) = Some 28" "cb_input_avail (snd cb_ex2) = 20"
    by (simp_all add: cb_io_in_def cb_geom_defs cb_ex2_fields to_c_int_def)
qed

lemma cb_ex3_ok:
  "cb_rep (fst cb_ex3) (snd cb_ex3) [replicate 20 1, replicate 20 2]" "cb_inv (fst cb_ex3) (snd cb_ex3)"
  using submit_rep_inv [OF cb_ex2_ok(2,1) cb_ex2_input(1), of "replicate 20 2" "fst cb_ex3" "snd cb_ex3"]
  by (simp_all add: cb_ex2_input cb_ex3_def)

lemma cb_ex3_fields:
  "cb_size (snd cb_ex3) = 12" "cb_wrap (snd cb_ex3) = 12" "cb_start (snd cb_ex3) = 0"
  "cb_used (snd cb_ex3) = 12" "cb_mtu (snd cb_ex3) = 5"
  using submit_fields [where m = "wr (fst cb_ex2) 28 (replicate 20 2)" and b = "snd cb_ex2" and len = 20,
      OF prod.collapse [symmetric]]
  unfolding cb_ex3_def [symmetric]
  by (simp_all add: cb_ex2_fields bdivide_up_def ChunkBuffer2_end_def)

lemma cb_ex3_full: "cb_input_avail (snd cb_ex3) = - 1"
  using cb_ex3_ok(2) by (simp add: cb_inv_iff cb_io_in_def cb_geom_defs cb_ex3_fields)

text \<open>\<^verbatim>\<open>ChunkBuffer2_calc_blocks\<close> returns -1 or the exact product, and an exact result
  never exceeds \<^verbatim>\<open>INT_MAX\<close>: the multiplication does not overflow.\<close>

lemma ChunkBuffer2_calc_blocks_no_overflow:
  assumes "0 \<le> chunk_len" "0 \<le> num"
  shows "ChunkBuffer2_calc_blocks chunk_len num =
      (if bdivide_up chunk_len 4 < INT_MAX \<and> num < INT_MAX \<and>
         (1 + bdivide_up chunk_len 4) * (num + 1) \<le> INT_MAX
       then (1 + bdivide_up chunk_len 4) * (num + 1) else - 1)"
proof -
  have d: "0 < num + 1" using assms(2) by simp
  have "(1 + bdivide_up chunk_len 4 \<le> INT_MAX div (num + 1)) \<longleftrightarrow>
      (1 + bdivide_up chunk_len 4) * (num + 1) \<le> INT_MAX"
    using d by (rule int_le_div_iff)
  then show ?thesis by (auto simp: ChunkBuffer2_calc_blocks_def Let_def)
qed

end
