(* ===== verification/Linked_Lists.thy ===== *)
theory Linked_Lists
  imports C_Prelude
begin

text \<open>
  The intrusive linked lists of \<^verbatim>\<open>structure/LinkedList1.h\<close> (doubly linked, with first and last) and
  \<^verbatim>\<open>structure/SLinkedList_impl.h\<close> as instantiated by \<^verbatim>\<open>base/BPending_list.h\<close> (no last pointer, and a
  node that points to itself when it is in no list). Nodes live in an explicit store: a list
  operation updates the \<open>next\<close> and \<open>prev\<close> fields of the nodes it touches, in the order the C code
  does. Each operation is shown to act on the represented sequence as its comment says.
\<close>

type_synonym node = nat

record ll_store =
  ll_p :: "node \<Rightarrow> node option"
  ll_n :: "node \<Rightarrow> node option"

section \<open>Pointer chains\<close>

text \<open>\<open>chain f s xs e\<close>: following \<open>f\<close> from \<open>s\<close> visits exactly \<open>xs\<close> and arrives at \<open>e\<close>.\<close>

fun chain :: "(node \<Rightarrow> node option) \<Rightarrow> node option \<Rightarrow> node list \<Rightarrow> node option \<Rightarrow> bool" where
  "chain f s [] e = (s = e)"
| "chain f s (x # xs) e = (s = Some x \<and> chain f (f x) xs e)"

definition hd_opt :: "'a list \<Rightarrow> 'a option" where
  "hd_opt xs = (case xs of [] \<Rightarrow> None | x # _ \<Rightarrow> Some x)"

lemma hd_opt_simps [simp]: "hd_opt [] = None" "hd_opt (x # xs) = Some x"
  "(hd_opt xs = None) = (xs = [])"
  by (auto simp: hd_opt_def split: list.splits)

lemma hd_opt_append: "hd_opt (xs @ ys) = (if xs = [] then hd_opt ys else hd_opt xs)"
  by (cases xs) auto

lemma chain_append: "chain f s (xs @ ys) e \<longleftrightarrow> (\<exists>m. chain f s xs m \<and> chain f m ys e)"
  by (induction xs arbitrary: s) auto

lemma chain_upd [simp]: "x \<notin> set xs \<Longrightarrow> chain (f(x := v)) s xs e = chain f s xs e"
  by (induction xs arbitrary: s) auto

lemma chain_start: "chain f s xs None \<Longrightarrow> s = hd_opt xs"
  by (cases xs) auto

lemma chain_det: "chain f s xs None \<Longrightarrow> chain f s ys None \<Longrightarrow> xs = ys"
proof (induction xs arbitrary: s ys)
  case (Cons x xs)
  then show ?case by (cases ys) auto
qed (auto elim: chain.elims)

text \<open>Redirecting the end of a chain.\<close>

lemma chain_redirect: "chain f s (xs @ [y]) e \<Longrightarrow> distinct (xs @ [y]) \<Longrightarrow> chain (f(y := e')) s (xs @ [y]) e'"
  by (auto simp: chain_append)

text \<open>Replacing what follows a prefix: the last node of the prefix is redirected, or the head
  pointer if the prefix is empty. Every operation below is one or two of these.\<close>

definition relink :: "(node \<Rightarrow> node option) \<Rightarrow> node list \<Rightarrow> node option \<Rightarrow> (node \<Rightarrow> node option)" where
  "relink f xs e = (if xs = [] then f else f(last xs := e))"

lemma chain_relink:
  assumes "chain f s xs m" "distinct (xs @ zs)" "chain f e zs None" "s' = (if xs = [] then e else s)"
  shows "chain (relink f xs e) s' (xs @ zs) None"
proof (cases xs rule: rev_cases)
  case (snoc us u)
  have "chain (f(u := e)) s (us @ [u]) e"
    using assms(1,2) unfolding snoc by (intro chain_redirect) auto
  moreover have "chain (f(u := e)) e zs None" using assms(2,3) snoc by simp
  ultimately have "chain (f(u := e)) s ((us @ [u]) @ zs) None" unfolding chain_append by blast
  then show ?thesis using assms(4) snoc by (simp add: relink_def)
qed (use assms in \<open>simp add: relink_def\<close>)

lemma chain_cong: "chain f s xs e \<Longrightarrow> (\<And>a. a \<in> set xs \<Longrightarrow> g a = f a) \<Longrightarrow> chain g s xs e"
  by (induction xs arbitrary: s) auto

section \<open>LinkedList1 (structure/LinkedList1.h)\<close>

record LinkedList1 =
  ll_first :: "node option"
  ll_last :: "node option"

definition LinkedList1_Init :: LinkedList1 where
  "LinkedList1_Init = \<lparr>ll_first = None, ll_last = None\<rparr>"

definition LinkedList1_IsEmpty :: "LinkedList1 \<Rightarrow> bool" where
  "LinkedList1_IsEmpty l \<longleftrightarrow> ll_first l = None"

definition LinkedList1_GetFirst :: "LinkedList1 \<Rightarrow> node option" where
  "LinkedList1_GetFirst l = ll_first l"

definition LinkedList1_GetLast :: "LinkedList1 \<Rightarrow> node option" where
  "LinkedList1_GetLast l = ll_last l"

definition LinkedList1_Prepend :: "ll_store \<Rightarrow> LinkedList1 \<Rightarrow> node \<Rightarrow> ll_store \<times> LinkedList1" where
  "LinkedList1_Prepend s l node =
     (let s1 = s\<lparr>ll_p := (ll_p s)(node := None)\<rparr>;
          s2 = s1\<lparr>ll_n := (ll_n s1)(node := ll_first l)\<rparr>
      in case ll_first l of
           Some f \<Rightarrow> (s2\<lparr>ll_p := (ll_p s2)(f := Some node)\<rparr>, l\<lparr>ll_first := Some node\<rparr>)
         | None \<Rightarrow> (s2, l\<lparr>ll_last := Some node, ll_first := Some node\<rparr>))"

definition LinkedList1_Append :: "ll_store \<Rightarrow> LinkedList1 \<Rightarrow> node \<Rightarrow> ll_store \<times> LinkedList1" where
  "LinkedList1_Append s l node =
     (let s1 = s\<lparr>ll_p := (ll_p s)(node := ll_last l)\<rparr>;
          s2 = s1\<lparr>ll_n := (ll_n s1)(node := None)\<rparr>
      in case ll_last l of
           Some f \<Rightarrow> (s2\<lparr>ll_n := (ll_n s2)(f := Some node)\<rparr>, l\<lparr>ll_last := Some node\<rparr>)
         | None \<Rightarrow> (s2, l\<lparr>ll_first := Some node, ll_last := Some node\<rparr>))"

definition LinkedList1_InsertBefore :: "ll_store \<Rightarrow> LinkedList1 \<Rightarrow> node \<Rightarrow> node \<Rightarrow> ll_store \<times> LinkedList1" where
  "LinkedList1_InsertBefore s l node target =
     (let s1 = s\<lparr>ll_p := (ll_p s)(node := ll_p s target)\<rparr>;
          s2 = s1\<lparr>ll_n := (ll_n s1)(node := Some target)\<rparr>;
          (s3, l3) = (case ll_p s2 target of
             Some q \<Rightarrow> (s2\<lparr>ll_n := (ll_n s2)(q := Some node)\<rparr>, l)
           | None \<Rightarrow> (s2, l\<lparr>ll_first := Some node\<rparr>))
      in (s3\<lparr>ll_p := (ll_p s3)(target := Some node)\<rparr>, l3))"

definition LinkedList1_InsertAfter :: "ll_store \<Rightarrow> LinkedList1 \<Rightarrow> node \<Rightarrow> node \<Rightarrow> ll_store \<times> LinkedList1" where
  "LinkedList1_InsertAfter s l node target =
     (let s1 = s\<lparr>ll_p := (ll_p s)(node := Some target)\<rparr>;
          s2 = s1\<lparr>ll_n := (ll_n s1)(node := ll_n s1 target)\<rparr>;
          (s3, l3) = (case ll_n s2 target of
             Some q \<Rightarrow> (s2\<lparr>ll_p := (ll_p s2)(q := Some node)\<rparr>, l)
           | None \<Rightarrow> (s2, l\<lparr>ll_last := Some node\<rparr>))
      in (s3\<lparr>ll_n := (ll_n s3)(target := Some node)\<rparr>, l3))"

definition LinkedList1_Remove :: "ll_store \<Rightarrow> LinkedList1 \<Rightarrow> node \<Rightarrow> ll_store \<times> LinkedList1" where
  "LinkedList1_Remove s l node =
     (let (s1, l1) = (case ll_p s node of
             Some q \<Rightarrow> (s\<lparr>ll_n := (ll_n s)(q := ll_n s node)\<rparr>, l)
           | None \<Rightarrow> (s, l\<lparr>ll_first := ll_n s node\<rparr>))
      in case ll_n s1 node of
           Some q \<Rightarrow> (s1\<lparr>ll_p := (ll_p s1)(q := ll_p s1 node)\<rparr>, l1)
         | None \<Rightarrow> (s1, l1\<lparr>ll_last := ll_p s1 node\<rparr>))"

definition LinkedList1_InsertListAfter ::
    "ll_store \<Rightarrow> LinkedList1 \<Rightarrow> LinkedList1 \<Rightarrow> node option \<Rightarrow> ll_store \<times> LinkedList1" where
  "LinkedList1_InsertListAfter s l ins_list target =
     (case (ll_first ins_list, ll_last ins_list) of
        (Some f, Some la) \<Rightarrow>
          (let t_next = (case target of Some t \<Rightarrow> ll_n s t | None \<Rightarrow> ll_first l);
               s1 = s\<lparr>ll_p := (ll_p s)(f := target)\<rparr>;
               s2 = s1\<lparr>ll_n := (ll_n s1)(la := t_next)\<rparr>;
               (s3, l3) = (case target of
                  Some t \<Rightarrow> (s2\<lparr>ll_n := (ll_n s2)(t := Some f)\<rparr>, l)
                | None \<Rightarrow> (s2, l\<lparr>ll_first := Some f\<rparr>))
           in case t_next of
                Some t \<Rightarrow> (s3\<lparr>ll_p := (ll_p s3)(t := Some la)\<rparr>, l3)
              | None \<Rightarrow> (s3, l3\<lparr>ll_last := Some la\<rparr>))
      | _ \<Rightarrow> (s, l))"

definition LinkedList1Node_Next :: "ll_store \<Rightarrow> node \<Rightarrow> node option" where
  "LinkedList1Node_Next s node = ll_n s node"

definition LinkedList1Node_Prev :: "ll_store \<Rightarrow> node \<Rightarrow> node option" where
  "LinkedList1Node_Prev s node = ll_p s node"

text \<open>The list \<open>l\<close> represents the sequence \<open>xs\<close> of nodes.\<close>

definition ll_rep :: "ll_store \<Rightarrow> LinkedList1 \<Rightarrow> node list \<Rightarrow> bool" where
  "ll_rep s l xs \<longleftrightarrow> chain (ll_n s) (ll_first l) xs None \<and> chain (ll_p s) (ll_last l) (rev xs) None \<and> distinct xs"

lemma ll_rep_ends:
  "ll_rep s l xs \<Longrightarrow> ll_first l = hd_opt xs \<and> ll_last l = hd_opt (rev xs)"
  by (auto simp: ll_rep_def dest: chain_start)

lemma ll_rep_neighbours:
  assumes "ll_rep s l (xs @ x # ys)"
  shows "ll_n s x = hd_opt ys" "ll_p s x = hd_opt (rev xs)"
  using assms by (auto simp: ll_rep_def chain_append dest!: chain_start)

text \<open>Both directions of a splice at once: \<open>zs\<close> replaces \<open>ws\<close> between \<open>xs\<close> and \<open>ys\<close>.\<close>

lemma ll_rep_splice:
  assumes rep: "ll_rep s l (xs @ ws @ ys)" and d: "distinct (xs @ zs @ ys)"
    and n: "\<And>a. a \<in> set ys \<Longrightarrow> n a = ll_n s a" "\<And>a. a \<in> set xs \<Longrightarrow> n a = ll_n s a"
    and p: "\<And>a. a \<in> set ys \<Longrightarrow> p a = ll_p s a" "\<And>a. a \<in> set xs \<Longrightarrow> p a = ll_p s a"
    and nz: "chain n fz zs (hd_opt ys)" and pz: "chain p lz (rev zs) (hd_opt (rev xs))"
    and s': "ll_n s' = relink n xs fz" "ll_p s' = relink p (rev ys) lz"
    and l': "ll_first l' = (if xs = [] then fz else ll_first l)"
      "ll_last l' = (if ys = [] then lz else ll_last l)"
  shows "ll_rep s' l' (xs @ zs @ ys)"
proof -
  obtain m where fw: "chain (ll_n s) (ll_first l) xs m" "chain (ll_n s) (hd_opt ys) ys None"
    using rep chain_start by (fastforce simp: ll_rep_def chain_append)
  obtain k where bw: "chain (ll_p s) (ll_last l) (rev ys) k" "chain (ll_p s) (hd_opt (rev xs)) (rev xs) None"
    using rep chain_start by (fastforce simp: ll_rep_def chain_append)
  have "chain n fz (zs @ ys) None"
    using nz chain_cong [OF fw(2), of n] n(1) by (auto simp: chain_append)
  then have "chain (ll_n s') (ll_first l') (xs @ zs @ ys) None"
    unfolding s' by (rule chain_relink [rotated 2]) (use chain_cong [OF fw(1), of n] n(2) d l' in auto)
  moreover have "chain p lz (rev zs @ rev xs) None"
    using pz chain_cong [OF bw(2), of p] p(2) by (auto simp: chain_append)
  then have "chain (ll_p s') (ll_last l') (rev ys @ rev zs @ rev xs) None"
    unfolding s' by (rule chain_relink [rotated 2]) (use chain_cong [OF bw(1), of p] p(1) d l' in auto)
  ultimately show ?thesis using d by (simp add: ll_rep_def)
qed

lemma hd_opt_rev: "xs \<noteq> [] \<Longrightarrow> hd_opt (rev xs) = Some (last xs)"
  by (cases xs rule: rev_cases) auto

lemma last_rev_Cons [simp]: "last (rev ys @ [y]) = y"
  by simp

lemma LinkedList1_Init_rep: "ll_rep s LinkedList1_Init []"
  by (simp add: ll_rep_def LinkedList1_Init_def)

lemma LinkedList1_Prepend_rep:
  assumes rep: "ll_rep s l xs" and fresh: "node \<notin> set xs" and run: "LinkedList1_Prepend s l node = (s', l')"
  shows "ll_rep s' l' (node # xs)"
proof -
  have ends: "ll_first l = hd_opt xs" "ll_last l = hd_opt (rev xs)" using ll_rep_ends [OF rep] by auto
  have "ll_rep s' l' ([] @ [node] @ xs)"
  proof (rule ll_rep_splice [where ws = "[]" and n = "(ll_n s)(node := hd_opt xs)" and p = "(ll_p s)(node := None)"
        and fz = "Some node" and lz = "Some node"])
    show "ll_p s' = relink ((ll_p s)(node := None)) (rev xs) (Some node)"
      using run ends by (cases xs) (auto simp: LinkedList1_Prepend_def relink_def Let_def)
  qed (use assms ends in \<open>auto simp: LinkedList1_Prepend_def relink_def Let_def ll_rep_def split: option.splits\<close>)
  then show ?thesis by simp
qed

lemma LinkedList1_Append_rep:
  assumes rep: "ll_rep s l xs" and fresh: "node \<notin> set xs" and run: "LinkedList1_Append s l node = (s', l')"
  shows "ll_rep s' l' (xs @ [node])"
proof -
  have ends: "ll_first l = hd_opt xs" "ll_last l = hd_opt (rev xs)" using ll_rep_ends [OF rep] by auto
  have "ll_rep s' l' (xs @ [node] @ [])"
  proof (rule ll_rep_splice [where ws = "[]" and n = "(ll_n s)(node := None)" and p = "(ll_p s)(node := hd_opt (rev xs))"
        and fz = "Some node" and lz = "Some node"])
    show "ll_n s' = relink ((ll_n s)(node := None)) xs (Some node)"
      using run ends by (cases xs rule: rev_cases) (auto simp: LinkedList1_Append_def relink_def Let_def)
  qed (use assms ends in \<open>auto simp: LinkedList1_Append_def relink_def Let_def ll_rep_def split: option.splits\<close>)
  then show ?thesis by simp
qed

lemma LinkedList1_Remove_fields:
  assumes rep: "ll_rep s l (xs @ node # ys)" and run: "LinkedList1_Remove s l node = (s', l')"
  shows "ll_n s' = relink (ll_n s) xs (hd_opt ys)" "ll_p s' = relink (ll_p s) (rev ys) (hd_opt (rev xs))"
    "ll_first l' = (if xs = [] then hd_opt ys else ll_first l)"
    "ll_last l' = (if ys = [] then hd_opt (rev xs) else ll_last l)"
proof -
  note nb = ll_rep_neighbours [OF rep]
  have d: "distinct (xs @ node # ys)" using rep by (simp add: ll_rep_def)
  have "fst (LinkedList1_Remove s l node) = s\<lparr>ll_n := relink (ll_n s) xs (hd_opt ys),
      ll_p := relink (ll_p s) (rev ys) (hd_opt (rev xs))\<rparr>"
    "snd (LinkedList1_Remove s l node) = l\<lparr>ll_first := (if xs = [] then hd_opt ys else ll_first l),
      ll_last := (if ys = [] then hd_opt (rev xs) else ll_last l)\<rparr>"
    using nb d
    by (cases xs rule: rev_cases; cases ys; simp add: LinkedList1_Remove_def relink_def)+
  then show "ll_n s' = relink (ll_n s) xs (hd_opt ys)" "ll_p s' = relink (ll_p s) (rev ys) (hd_opt (rev xs))"
    "ll_first l' = (if xs = [] then hd_opt ys else ll_first l)"
    "ll_last l' = (if ys = [] then hd_opt (rev xs) else ll_last l)"
    by (simp_all add: run)
qed

lemma LinkedList1_Remove_rep:
  assumes rep: "ll_rep s l (xs @ node # ys)" and run: "LinkedList1_Remove s l node = (s', l')"
  shows "ll_rep s' l' (xs @ ys)"
proof -
  have d: "distinct (xs @ [] @ ys)" using rep by (simp add: ll_rep_def)
  have "ll_rep s' l' (xs @ [] @ ys)"
    by (rule ll_rep_splice [OF _ d _ _ _ _ _ _ LinkedList1_Remove_fields [OF rep run], where ws = "[node]"])
      (use rep in simp_all)
  then show ?thesis by simp
qed

lemma LinkedList1_InsertBefore_rep:
  assumes rep: "ll_rep s l (xs @ target # ys)" and fresh: "node \<notin> set (xs @ target # ys)"
    and run: "LinkedList1_InsertBefore s l node target = (s', l')"
  shows "ll_rep s' l' (xs @ node # target # ys)"
proof -
  note nb = ll_rep_neighbours [OF rep]
  have d: "distinct (xs @ [node] @ target # ys)" using rep fresh by (simp add: ll_rep_def)
  let ?n = "(ll_n s)(node := Some target)" and ?p = "(ll_p s)(node := hd_opt (rev xs))"
  have f: "fst (LinkedList1_InsertBefore s l node target) =
      s\<lparr>ll_n := relink ?n xs (Some node), ll_p := relink ?p (rev (target # ys)) (Some node)\<rparr>"
    "snd (LinkedList1_InsertBefore s l node target) =
      l\<lparr>ll_first := (if xs = [] then Some node else ll_first l)\<rparr>"
    using nb d by (cases xs rule: rev_cases; simp add: LinkedList1_InsertBefore_def relink_def)+
  have "ll_rep s' l' (xs @ [node] @ target # ys)"
    by (rule ll_rep_splice [OF _ d, where ws = "[]" and n = ?n and p = ?p and fz = "Some node" and lz = "Some node"])
      (use f run rep d in auto)
  then show ?thesis by simp
qed

lemma LinkedList1_InsertAfter_rep:
  assumes rep: "ll_rep s l (xs @ target # ys)" and fresh: "node \<notin> set (xs @ target # ys)"
    and run: "LinkedList1_InsertAfter s l node target = (s', l')"
  shows "ll_rep s' l' (xs @ target # node # ys)"
proof -
  note nb = ll_rep_neighbours [OF rep]
  have d: "distinct ((xs @ [target]) @ [node] @ ys)" using rep fresh by (auto simp: ll_rep_def)
  let ?n = "(ll_n s)(node := hd_opt ys)" and ?p = "(ll_p s)(node := Some target)"
  have f: "fst (LinkedList1_InsertAfter s l node target) =
      s\<lparr>ll_n := relink ?n (xs @ [target]) (Some node), ll_p := relink ?p (rev ys) (Some node)\<rparr>"
    "snd (LinkedList1_InsertAfter s l node target) =
      l\<lparr>ll_last := (if ys = [] then Some node else ll_last l)\<rparr>"
    using nb d by (cases ys; simp add: LinkedList1_InsertAfter_def relink_def)+
  have "ll_rep s' l' ((xs @ [target]) @ [node] @ ys)"
    by (rule ll_rep_splice [OF _ d, where ws = "[]" and n = ?n and p = ?p and fz = "Some node" and lz = "Some node"])
      (use f run rep d in auto)
  then show ?thesis by simp
qed

text \<open>Inserting a whole list: \<open>xs\<close> is the part up to and including the target, empty for a null
  target.\<close>

lemma LinkedList1_InsertListAfter_rep:
  assumes rep: "ll_rep s l (xs @ ys)" and ins: "ll_rep s i zs" and disj: "set zs \<inter> set (xs @ ys) = {}"
    and target: "target = (if xs = [] then None else Some (last xs))"
    and run: "LinkedList1_InsertListAfter s l i target = (s', l')"
  shows "ll_rep s' l' (xs @ zs @ ys)"
proof (cases "zs = []")
  case True
  with ins ll_rep_ends [OF ins] run rep show ?thesis
    by (simp add: LinkedList1_InsertListAfter_def)
next
  case False
  then obtain f where f: "hd_opt zs = Some f" by (cases zs) auto
  have la: "hd_opt (rev zs) = Some (last zs)" by (rule hd_opt_rev [OF False])
  note ei = ll_rep_ends [OF ins] and el = ll_rep_ends [OF rep]
  have d: "distinct (xs @ zs @ ys)" using rep ins disj by (auto simp: ll_rep_def)
  have tn: "(case target of Some t \<Rightarrow> ll_n s t | None \<Rightarrow> ll_first l) = hd_opt ys"
  proof (cases xs rule: rev_cases)
    case (snoc us u)
    with ll_rep_neighbours(1) [of s l us u ys] rep target show ?thesis by simp
  qed (use el target in simp)
  let ?n = "(ll_n s)(last zs := hd_opt ys)" and ?p = "(ll_p s)(f := target)"
  have fs: "f \<in> set zs" using f by (cases zs) auto
  have res: "ll_n s' = relink ?n xs (Some f)" "ll_p s' = relink ?p (rev ys) (Some (last zs))"
    "ll_first l' = (if xs = [] then Some f else ll_first l)"
    "ll_last l' = (if ys = [] then Some (last zs) else ll_last l)"
    using run tn ei f la target
    by (cases "xs = []"; cases ys; auto simp: LinkedList1_InsertListAfter_def relink_def Let_def)+
  have c1: "chain ?n (Some f) zs (hd_opt ys)"
  proof -
    have "chain (ll_n s) (Some f) (butlast zs @ [last zs]) None"
      using ins ei f False by (simp add: ll_rep_def)
    then have "chain ?n (Some f) (butlast zs @ [last zs]) (hd_opt ys)"
      by (rule chain_redirect) (use d False in simp)
    then show ?thesis using False by simp
  qed
  have c2: "chain ?p (Some (last zs)) (rev zs) (hd_opt (rev xs))"
  proof -
    have z: "rev zs = rev (tl zs) @ [f]" using f by (cases zs) auto
    have "chain (ll_p s) (Some (last zs)) (rev (tl zs) @ [f]) None"
      using ins ei la z by (simp add: ll_rep_def)
    moreover have "distinct (rev (tl zs) @ [f])"
      using d z by (metis distinct_append distinct_rev)
    ultimately have "chain ?p (Some (last zs)) (rev (tl zs) @ [f]) target"
      by (rule chain_redirect)
    moreover have "target = hd_opt (rev xs)" using target by (auto simp: hd_opt_rev)
    ultimately show ?thesis by (simp add: z)
  qed
  have out: "last zs \<notin> set xs" "last zs \<notin> set ys" "f \<notin> set xs" "f \<notin> set ys"
    using d fs last_in_set [OF False] by (auto simp del: last_in_set)
  show ?thesis
    by (rule ll_rep_splice [where ws = "[]", OF _ d _ _ _ _ c1 c2 res]) (use rep out in auto)
qed

section \<open>The contract of a node sequence\<close>

locale node_sequence =
  fixes rep :: "'s \<Rightarrow> 'l \<Rightarrow> node list \<Rightarrow> bool"
    and empty_list :: 'l
    and append_node :: "'s \<Rightarrow> 'l \<Rightarrow> node \<Rightarrow> 's \<times> 'l"
    and remove_node :: "'s \<Rightarrow> 'l \<Rightarrow> node \<Rightarrow> 's \<times> 'l"
    and first_node :: "'l \<Rightarrow> node option"
  assumes rep_distinct: "rep s l xs \<Longrightarrow> distinct xs"
    and empty_law: "rep s empty_list []"
    and append_law: "rep s l xs \<Longrightarrow> x \<notin> set xs \<Longrightarrow> append_node s l x = (s', l') \<Longrightarrow> rep s' l' (xs @ [x])"
    and remove_law: "rep s l (xs @ x # ys) \<Longrightarrow> remove_node s l x = (s', l') \<Longrightarrow> rep s' l' (xs @ ys)"
    and first_law: "rep s l xs \<Longrightarrow> first_node l = hd_opt xs"
begin

lemma remove_remove1:
  assumes "rep s l xs" "x \<in> set xs" "remove_node s l x = (s', l')"
  shows "rep s' l' (remove1 x xs)"
proof -
  obtain us vs where xs: "xs = us @ x # vs" "x \<notin> set us" using split_list_first [OF assms(2)] by blast
  then have "remove1 x xs = us @ vs" by (simp add: remove1_append)
  with remove_law [of s l us x vs] assms xs show ?thesis by simp
qed

text \<open>Removing a node and appending it again, the way clients move an entry to the back.\<close>

lemma move_to_back:
  assumes "rep s l xs" "x \<in> set xs" "remove_node s l x = (s1, l1)" "append_node s1 l1 x = (s2, l2)"
  shows "rep s2 l2 (remove1 x xs @ [x])"
proof (rule append_law [OF remove_remove1 [OF assms(1-3)] _ assms(4)])
  show "x \<notin> set (remove1 x xs)" using rep_distinct [OF assms(1)] by simp
qed

end

interpretation ll1: node_sequence ll_rep LinkedList1_Init LinkedList1_Append LinkedList1_Remove LinkedList1_GetFirst
proof
  fix s l xs assume "ll_rep s l xs"
  then show "LinkedList1_GetFirst l = hd_opt xs" using ll_rep_ends by (simp add: LinkedList1_GetFirst_def)
qed (simp_all add: ll_rep_def [THEN iffD1] LinkedList1_Init_rep LinkedList1_Append_rep LinkedList1_Remove_rep)

section \<open>Properties\<close>

text \<open>\<^verbatim>\<open>LinkedList1_InsertListAfter\<close> splices a whole list behind the target node (or in
  front, for a null target): the represented sequence becomes the part up to the target, the
  inserted nodes, and the rest, in that order, with both pointer directions and both end pointers
  consistent.\<close>

lemma LinkedList1_InsertListAfter_splices:
  assumes "ll_rep s l (xs @ ys)" "ll_rep s i zs" "set zs \<inter> set (xs @ ys) = {}"
    and "target = (if xs = [] then None else Some (last xs))"
    and "LinkedList1_InsertListAfter s l i target = (s', l')"
  shows "ll_rep s' l' (xs @ zs @ ys)"
  by (rule LinkedList1_InsertListAfter_rep [OF assms])

definition ll_ex_store :: ll_store where
  "ll_ex_store = \<lparr>ll_p = (\<lambda>x. if x = 2 then Some 1 else None), ll_n = (\<lambda>x. if x = 1 then Some 2 else None)\<rparr>"

definition ll_ex_result :: "ll_store \<times> LinkedList1" where
  "ll_ex_result = LinkedList1_InsertListAfter ll_ex_store \<lparr>ll_first = Some 1, ll_last = Some 2\<rparr>
     \<lparr>ll_first = Some 7, ll_last = Some 7\<rparr> (Some 1)"

lemma ll_ex_reps:
  "ll_rep ll_ex_store \<lparr>ll_first = Some 1, ll_last = Some 2\<rparr> ([1] @ [2])"
  "ll_rep ll_ex_store \<lparr>ll_first = Some 7, ll_last = Some 7\<rparr> [7]"
  by (simp_all add: ll_rep_def ll_ex_store_def)

end
