(* ===== verification/Pending_Jobs.thy ===== *)
theory Pending_Jobs
  imports Linked_Lists
begin

text \<open>
  \<^verbatim>\<open>base/BPending.c\<close> over \<^verbatim>\<open>structure/SLinkedList_impl.h\<close>: the queue of jobs that the reactor runs
  after every event. A job is an object in the store; it is pending exactly if its \<open>next\<close> field does
  not point to itself. Setting a job pushes it to the top of the list, so that jobs run in
  last-set-first order.

  The concrete state is refined to the list of pending jobs, top first (\<open>bp_rep\<close>), and the abstract
  operations \<open>jobs_set\<close>, \<open>jobs_unset\<close> on that list are what the interface theories use. The locale
  \<open>job_queue\<close> is the contract, interpreted on the translated code.
\<close>

section \<open>SLinkedList as BPending\_\_List (structure/SLinkedList\_impl.h)\<close>

record 'h BPendingGroup =
  bp_first :: "node option"
  bp_prev :: "node \<Rightarrow> node option"
  bp_next :: "node \<Rightarrow> node option"
  bp_handler :: "node \<Rightarrow> 'h"

definition SLinkedListMarkRemoved :: "'h BPendingGroup \<Rightarrow> node \<Rightarrow> 'h BPendingGroup" where
  "SLinkedListMarkRemoved g entry = g\<lparr>bp_next := (bp_next g)(entry := Some entry)\<rparr>"

definition SLinkedListIsRemoved :: "'h BPendingGroup \<Rightarrow> node \<Rightarrow> bool" where
  "SLinkedListIsRemoved g entry \<longleftrightarrow> bp_next g entry = Some entry"

definition SLinkedList_Init :: "'h BPendingGroup \<Rightarrow> 'h BPendingGroup" where
  "SLinkedList_Init g = g\<lparr>bp_first := None\<rparr>"

definition SLinkedList_Next :: "'h BPendingGroup \<Rightarrow> node \<Rightarrow> node option" where
  "SLinkedList_Next g entry = bp_next g entry"

definition SLinkedList_Prev :: "'h BPendingGroup \<Rightarrow> node \<Rightarrow> node option" where
  "SLinkedList_Prev g entry = (if bp_first g = Some entry then None else bp_prev g entry)"

definition SLinkedList_Prepend :: "'h BPendingGroup \<Rightarrow> node \<Rightarrow> 'h BPendingGroup" where
  "SLinkedList_Prepend g entry =
     (let g1 = g\<lparr>bp_next := (bp_next g)(entry := bp_first g)\<rparr>;
          g2 = (case bp_first g1 of
                  Some f \<Rightarrow> g1\<lparr>bp_prev := (bp_prev g1)(f := Some entry)\<rparr>
                | None \<Rightarrow> g1)
      in g2\<lparr>bp_first := Some entry\<rparr>)"

text \<open>\<^verbatim>\<open>SLinkedList_next(SLinkedList_prev(entry)) = ...\<close> goes through the \<open>prev\<close> pointer; it is only
  reached for an entry that is not first, and a null \<open>prev\<close> there would be a crash. The model
  leaves the store unchanged in that case.\<close>

definition SLinkedList_Remove :: "'h BPendingGroup \<Rightarrow> node \<Rightarrow> 'h BPendingGroup" where
  "SLinkedList_Remove g entry =
     (if bp_first g \<noteq> Some entry then
        (case bp_prev g entry of
           None \<Rightarrow> g
         | Some q \<Rightarrow>
             (let g1 = g\<lparr>bp_next := (bp_next g)(q := bp_next g entry)\<rparr>
              in case bp_next g1 entry of
                   Some r \<Rightarrow> g1\<lparr>bp_prev := (bp_prev g1)(r := bp_prev g1 entry)\<rparr>
                 | None \<Rightarrow> g1))
      else g\<lparr>bp_first := bp_next g entry\<rparr>)"

definition SLinkedList_RemoveFirst :: "'h BPendingGroup \<Rightarrow> 'h BPendingGroup" where
  "SLinkedList_RemoveFirst g =
     (case bp_first g of Some f \<Rightarrow> g\<lparr>bp_first := bp_next g f\<rparr> | None \<Rightarrow> g)"

definition SLinkedList_First :: "'h BPendingGroup \<Rightarrow> node option" where
  "SLinkedList_First g = bp_first g"

definition SLinkedList_IsEmpty :: "'h BPendingGroup \<Rightarrow> bool" where
  "SLinkedList_IsEmpty g \<longleftrightarrow> bp_first g = None"

section \<open>BPending (base/BPending.c)\<close>

definition BPendingGroup_Init :: "'h BPendingGroup \<Rightarrow> 'h BPendingGroup" where
  "BPendingGroup_Init g = SLinkedList_Init g"

definition BPendingGroup_HasJobs :: "'h BPendingGroup \<Rightarrow> bool" where
  "BPendingGroup_HasJobs g \<longleftrightarrow> \<not> SLinkedList_IsEmpty g"

text \<open>The second component is the handler that the function goes on to call.\<close>

definition BPendingGroup_ExecuteJob :: "'h BPendingGroup \<Rightarrow> 'h BPendingGroup \<times> 'h option" where
  "BPendingGroup_ExecuteJob g =
     (case SLinkedList_First g of
        None \<Rightarrow> (g, None)
      | Some p \<Rightarrow>
          (let g1 = SLinkedList_RemoveFirst g;
               g2 = SLinkedListMarkRemoved g1 p
           in (g2, Some (bp_handler g2 p))))"

definition BPendingGroup_PeekJob :: "'h BPendingGroup \<Rightarrow> node option" where
  "BPendingGroup_PeekJob g = SLinkedList_First g"

definition BSmallPending_Init :: "'h BPendingGroup \<Rightarrow> node \<Rightarrow> 'h \<Rightarrow> 'h BPendingGroup" where
  "BSmallPending_Init g j handler =
     SLinkedListMarkRemoved (g\<lparr>bp_handler := (bp_handler g)(j := handler)\<rparr>) j"

definition BSmallPending_Free :: "'h BPendingGroup \<Rightarrow> node \<Rightarrow> 'h BPendingGroup" where
  "BSmallPending_Free g j = (if \<not> SLinkedListIsRemoved g j then SLinkedList_Remove g j else g)"

definition BSmallPending_SetHandler :: "'h BPendingGroup \<Rightarrow> node \<Rightarrow> 'h \<Rightarrow> 'h BPendingGroup" where
  "BSmallPending_SetHandler g j handler = g\<lparr>bp_handler := (bp_handler g)(j := handler)\<rparr>"

definition BSmallPending_Set :: "'h BPendingGroup \<Rightarrow> node \<Rightarrow> 'h BPendingGroup" where
  "BSmallPending_Set g j =
     SLinkedList_Prepend (if \<not> SLinkedListIsRemoved g j then SLinkedList_Remove g j else g) j"

definition BSmallPending_Unset :: "'h BPendingGroup \<Rightarrow> node \<Rightarrow> 'h BPendingGroup" where
  "BSmallPending_Unset g j =
     (if \<not> SLinkedListIsRemoved g j then SLinkedListMarkRemoved (SLinkedList_Remove g j) j else g)"

definition BSmallPending_IsSet :: "'h BPendingGroup \<Rightarrow> node \<Rightarrow> bool" where
  "BSmallPending_IsSet g j \<longleftrightarrow> \<not> SLinkedListIsRemoved g j"

section \<open>The abstract job list\<close>

definition jobs_set :: "'j \<Rightarrow> 'j list \<Rightarrow> 'j list" where
  "jobs_set j js = j # removeAll j js"

definition jobs_unset :: "'j \<Rightarrow> 'j list \<Rightarrow> 'j list" where
  "jobs_unset j js = removeAll j js"

lemma jobs_set_simps [simp]:
  "set (jobs_set j js) = insert j (set js)" "distinct (jobs_set j js) = distinct (removeAll j js)"
  by (auto simp: jobs_set_def)

lemma jobs_unset_simps [simp]:
  "set (jobs_unset j js) = set js - {j}" "distinct js \<Longrightarrow> distinct (jobs_unset j js)"
  by (auto simp: jobs_unset_def distinct_removeAll)

lemma jobs_unset_fresh [simp]: "j \<notin> set js \<Longrightarrow> jobs_unset j js = js"
  by (simp add: jobs_unset_def)

lemma jobs_set_fresh: "j \<notin> set js \<Longrightarrow> jobs_set j js = j # js"
  by (simp add: jobs_set_def)

lemma jobs_distinct_set [simp]: "distinct js \<Longrightarrow> distinct (jobs_set j js)"
  by (simp add: distinct_removeAll)

section \<open>Refinement\<close>

definition bp_chain :: "'h BPendingGroup \<Rightarrow> node list \<Rightarrow> bool" where
  "bp_chain g xs \<longleftrightarrow> chain (bp_next g) (bp_first g) xs None \<and>
     (\<exists>m. chain (bp_prev g) (hd_opt (rev xs)) (rev xs) m) \<and> distinct xs"

text \<open>\<open>objs\<close> are the initialised job objects, \<open>xs\<close> the pending ones from the top.\<close>

definition bp_rep :: "node set \<Rightarrow> 'h BPendingGroup \<Rightarrow> node list \<Rightarrow> bool" where
  "bp_rep objs g xs \<longleftrightarrow> bp_chain g xs \<and> set xs \<subseteq> objs \<and> (\<forall>j \<in> objs - set xs. SLinkedListIsRemoved g j)"

lemma bp_chain_not_removed:
  assumes "bp_chain g xs" "j \<in> set xs"
  shows "\<not> SLinkedListIsRemoved g j"
proof -
  obtain us vs where xs: "xs = us @ j # vs" using assms(2) by (meson split_list)
  then have "bp_next g j = hd_opt vs"
    using assms(1) by (auto simp: bp_chain_def chain_append dest: chain_start)
  then show ?thesis using assms(1) xs by (cases vs) (auto simp: SLinkedListIsRemoved_def bp_chain_def)
qed

lemma bp_rep_IsRemoved: "bp_rep objs g xs \<Longrightarrow> j \<in> objs \<Longrightarrow> SLinkedListIsRemoved g j \<longleftrightarrow> j \<notin> set xs"
  using bp_chain_not_removed unfolding bp_rep_def by blast

lemma bp_rep_distinct: "bp_rep objs g xs \<Longrightarrow> distinct xs"
  by (simp add: bp_rep_def bp_chain_def)

lemma Prepend_chain:
  assumes "bp_chain g xs" "j \<notin> set xs"
  shows "bp_chain (SLinkedList_Prepend g j) (j # xs)"
proof (cases xs)
  case Nil
  with assms show ?thesis by (auto simp: bp_chain_def SLinkedList_Prepend_def)
next
  case (Cons f ys)
  then have first: "bp_first g = Some f" using assms(1) by (simp add: bp_chain_def)
  obtain m where "chain (bp_prev g) (hd_opt (rev xs)) (rev ys @ [f]) m"
    using assms(1) Cons by (auto simp: bp_chain_def)
  then have "chain ((bp_prev g)(f := Some j)) (hd_opt (rev xs)) (rev ys @ [f]) (Some j)"
    by (rule chain_redirect) (use assms(1) Cons in \<open>simp add: bp_chain_def\<close>)
  then have "chain ((bp_prev g)(f := Some j)) (hd_opt (rev (j # xs))) (rev (j # xs)) ((bp_prev g) j)"
    using assms(2) Cons by (auto simp: chain_append hd_opt_append)
  with assms first Cons show ?thesis
    by (auto simp: bp_chain_def SLinkedList_Prepend_def Let_def)
qed

lemma Remove_chain:
  assumes "bp_chain g (us @ j # vs)"
  shows "bp_chain (SLinkedList_Remove g j) (us @ vs)"
proof -
  have d: "distinct (us @ j # vs)" and fw: "chain (bp_next g) (bp_first g) (us @ j # vs) None"
    using assms by (simp_all add: bp_chain_def)
  have "chain (bp_next g) (bp_next g j) vs None" using fw by (auto simp: chain_append)
  then have nj: "bp_next g j = hd_opt vs" and vs: "chain (bp_next g) (hd_opt vs) vs None"
    using chain_start [of "bp_next g" "bp_next g j" vs] by auto
  obtain m where bw: "chain (bp_prev g) (hd_opt (rev (us @ j # vs))) (rev vs @ j # rev us) m"
    using assms by (auto simp: bp_chain_def)
  show ?thesis
  proof (cases us rule: rev_cases)
    case Nil
    have "\<exists>k. chain (bp_prev g) (hd_opt (rev vs)) (rev vs) k"
      using bw by (cases "rev vs") (auto simp: chain_append Nil)
    with fw d vs nj Nil show ?thesis
      by (simp add: bp_chain_def SLinkedList_Remove_def)
  next
    case (snoc ws q)
    have pj: "bp_prev g j = Some q" and bu: "chain (bp_prev g) (Some q) (rev us) m"
      using bw snoc by (auto simp: chain_append)
    have nf: "bp_first g \<noteq> Some j"
      using fw d snoc by (cases ws) auto
    obtain k where "chain (bp_next g) (bp_first g) us k" using fw by (auto simp: chain_append)
    then have n': "chain ((bp_next g)(q := hd_opt vs)) (bp_first g) (us @ vs) None"
      using chain_relink [OF _ _ vs, of "bp_first g" us k "bp_first g"] d snoc by (simp add: relink_def)
    show ?thesis
    proof (cases vs)
      case Nil
      have "hd_opt (rev us) = Some q" using snoc by simp
      with bu n' nf pj nj d Nil snoc show ?thesis
        by (auto simp: bp_chain_def SLinkedList_Remove_def)
    next
      case (Cons r zs)
      have "chain (bp_prev g) (hd_opt (rev vs)) (rev zs @ [r]) (Some j)"
        using bw Cons by (cases "rev zs") (auto simp: chain_append hd_opt_append)
      then have "chain ((bp_prev g)(r := Some q)) (hd_opt (rev vs)) (rev zs @ [r]) (Some q)"
        by (rule chain_redirect) (use d Cons in auto)
      moreover have "chain ((bp_prev g)(r := Some q)) (Some q) (rev us) m"
        using bu d Cons by simp
      moreover have "hd_opt (rev vs @ rev us) = hd_opt (rev vs)"
        using Cons by (simp add: hd_opt_append)
      ultimately have "chain ((bp_prev g)(r := Some q)) (hd_opt (rev (us @ vs))) (rev (us @ vs)) m"
        using Cons chain_append [of _ _ "rev zs @ [r]" "rev us"] by auto
      with n' nf pj nj d Cons snoc show ?thesis
        by (auto simp: bp_chain_def SLinkedList_Remove_def)
    qed
  qed
qed

lemma bp_chain_mark:
  "bp_chain g xs \<Longrightarrow> j \<notin> set xs \<Longrightarrow> bp_chain (SLinkedListMarkRemoved g j) xs"
  by (simp add: bp_chain_def SLinkedListMarkRemoved_def)

lemma Remove_chain_removeAll:
  assumes "bp_chain g xs" "j \<in> set xs"
  shows "bp_chain (SLinkedList_Remove g j) (removeAll j xs)"
proof -
  obtain us vs where xs: "xs = us @ j # vs" using assms(2) by (meson split_list)
  have "j \<notin> set us" "j \<notin> set vs" using assms(1) xs by (auto simp: bp_chain_def)
  with Remove_chain [of g us j vs] assms xs show ?thesis by simp
qed

lemma Remove_other:
  assumes "bp_chain g xs" "j \<in> set xs" "i \<notin> set xs"
  shows "SLinkedListIsRemoved (SLinkedList_Remove g j) i = SLinkedListIsRemoved g i"
proof -
  obtain us vs where xs: "xs = us @ j # vs" using assms(2) by (meson split_list)
  obtain m where "chain (bp_prev g) (hd_opt (rev (us @ j # vs))) (rev vs @ j # rev us) m"
    using assms(1) xs by (auto simp: bp_chain_def)
  then have bw: "\<exists>k. chain (bp_prev g) (bp_prev g j) (rev us) k" by (auto simp: chain_append)
  show ?thesis
  proof (cases us rule: rev_cases)
    case Nil
    then have "bp_first g = Some j" using assms(1) xs by (simp add: bp_chain_def)
    then show ?thesis by (simp add: SLinkedList_Remove_def SLinkedListIsRemoved_def)
  next
    case (snoc ws q)
    with bw have "bp_prev g j = Some q" by auto
    moreover have "i \<noteq> q" using assms(3) xs snoc by auto
    ultimately show ?thesis
      by (auto simp: SLinkedList_Remove_def SLinkedListIsRemoved_def Let_def split: option.splits)
  qed
qed

lemma Prepend_other:
  "i \<noteq> j \<Longrightarrow> SLinkedListIsRemoved (SLinkedList_Prepend g j) i = SLinkedListIsRemoved g i"
  by (auto simp: SLinkedList_Prepend_def SLinkedListIsRemoved_def Let_def split: option.splits)

lemma Mark_IsRemoved [simp]:
  "SLinkedListIsRemoved (SLinkedListMarkRemoved g j) i \<longleftrightarrow> i = j \<or> SLinkedListIsRemoved g i"
  by (auto simp: SLinkedListMarkRemoved_def SLinkedListIsRemoved_def)

text \<open>Taking a pending job out of the list, the common part of Set, Unset and Free.\<close>

lemma bp_take_out:
  assumes "bp_rep objs g xs" "j \<in> objs"
  defines "g' \<equiv> (if \<not> SLinkedListIsRemoved g j then SLinkedList_Remove g j else g)"
  shows "bp_chain g' (removeAll j xs)" "\<And>i. i \<in> objs - set xs \<Longrightarrow> SLinkedListIsRemoved g' i"
proof -
  have c: "bp_chain g xs" using assms(1) by (simp add: bp_rep_def)
  have r: "SLinkedListIsRemoved g j \<longleftrightarrow> j \<notin> set xs" by (rule bp_rep_IsRemoved [OF assms(1,2)])
  show "bp_chain g' (removeAll j xs)"
    using c r Remove_chain_removeAll [OF c, of j] by (auto simp: g'_def)
  fix i assume "i \<in> objs - set xs"
  then show "SLinkedListIsRemoved g' i"
    using r assms(1) Remove_other [OF c, of j i] by (auto simp: g'_def bp_rep_def)
qed

lemma BSmallPending_Set_rep:
  assumes "bp_rep objs g xs" "j \<in> objs"
  shows "bp_rep objs (BSmallPending_Set g j) (jobs_set j xs)"
  using bp_take_out [OF assms] assms
  by (auto simp: bp_rep_def BSmallPending_Set_def jobs_set_def Prepend_other intro!: Prepend_chain)

lemma BSmallPending_Unset_rep:
  assumes "bp_rep objs g xs" "j \<in> objs"
  shows "bp_rep objs (BSmallPending_Unset g j) (jobs_unset j xs)"
proof (cases "SLinkedListIsRemoved g j")
  case True
  with bp_rep_IsRemoved [OF assms] assms(1) show ?thesis by (simp add: BSmallPending_Unset_def)
next
  case False
  with bp_take_out [OF assms] assms show ?thesis
    by (auto simp: bp_rep_def BSmallPending_Unset_def jobs_unset_def intro!: bp_chain_mark)
qed

lemma BSmallPending_Free_rep:
  assumes "bp_rep objs g xs" "j \<in> objs"
  shows "bp_rep (objs - {j}) (BSmallPending_Free g j) (jobs_unset j xs)"
  using bp_take_out [OF assms] assms by (auto simp: bp_rep_def BSmallPending_Free_def jobs_unset_def)

lemma BSmallPending_Init_rep:
  assumes "bp_rep objs g xs" "j \<notin> objs"
  shows "bp_rep (insert j objs) (BSmallPending_Init g j h) xs"
proof -
  have "bp_chain (g\<lparr>bp_handler := (bp_handler g)(j := h)\<rparr>) xs" "j \<notin> set xs"
    using assms by (auto simp: bp_rep_def bp_chain_def)
  then have "bp_chain (BSmallPending_Init g j h) xs"
    unfolding BSmallPending_Init_def by (rule bp_chain_mark)
  with assms show ?thesis
    by (auto simp: bp_rep_def BSmallPending_Init_def SLinkedListIsRemoved_def SLinkedListMarkRemoved_def)
qed

lemma BPendingGroup_ExecuteJob_rep:
  assumes "bp_rep objs g (j # xs)"
  shows "bp_rep objs (fst (BPendingGroup_ExecuteJob g)) xs \<and>
    snd (BPendingGroup_ExecuteJob g) = Some (bp_handler g j)"
proof -
  have first: "bp_first g = Some j" and c: "bp_chain g (j # xs)"
    using assms by (auto simp: bp_rep_def bp_chain_def)
  obtain m where "chain (bp_prev g) (hd_opt (rev xs @ [j])) (rev xs @ [j]) m"
    using c by (auto simp: bp_chain_def)
  then have "\<exists>k. chain (bp_prev g) (hd_opt (rev xs)) (rev xs) k"
    by (cases "rev xs") (auto simp: chain_append)
  then have "bp_chain (SLinkedList_RemoveFirst g) xs"
    using c first by (auto simp: bp_chain_def SLinkedList_RemoveFirst_def)
  moreover have "\<And>i. SLinkedListIsRemoved (SLinkedList_RemoveFirst g) i = SLinkedListIsRemoved g i"
    using first by (simp add: SLinkedList_RemoveFirst_def SLinkedListIsRemoved_def)
  moreover have "j \<notin> set xs" using c by (auto simp: bp_chain_def)
  ultimately show ?thesis
    using assms first bp_chain_mark [of "SLinkedList_RemoveFirst g" xs j]
    by (auto simp: bp_rep_def BPendingGroup_ExecuteJob_def SLinkedList_First_def Let_def
        SLinkedList_RemoveFirst_def SLinkedListMarkRemoved_def SLinkedListIsRemoved_def)
qed

lemma BPendingGroup_HasJobs_rep: "bp_rep objs g xs \<Longrightarrow> BPendingGroup_HasJobs g \<longleftrightarrow> xs \<noteq> []"
  by (cases xs) (auto simp: bp_rep_def bp_chain_def BPendingGroup_HasJobs_def SLinkedList_IsEmpty_def)

lemma BSmallPending_IsSet_rep: "bp_rep objs g xs \<Longrightarrow> j \<in> objs \<Longrightarrow> BSmallPending_IsSet g j \<longleftrightarrow> j \<in> set xs"
  by (simp add: BSmallPending_IsSet_def bp_rep_IsRemoved)

section \<open>The contract of the job queue\<close>

locale job_queue =
  fixes rep :: "'j set \<Rightarrow> 'g \<Rightarrow> 'j list \<Rightarrow> bool"
    and set_job :: "'g \<Rightarrow> 'j \<Rightarrow> 'g" and unset_job :: "'g \<Rightarrow> 'j \<Rightarrow> 'g" and is_set :: "'g \<Rightarrow> 'j \<Rightarrow> bool"
    and execute :: "'g \<Rightarrow> 'g \<times> 'h option" and handler :: "'g \<Rightarrow> 'j \<Rightarrow> 'h" and has_jobs :: "'g \<Rightarrow> bool"
  assumes rep_distinct: "rep objs g js \<Longrightarrow> distinct js"
    and set_law: "rep objs g js \<Longrightarrow> j \<in> objs \<Longrightarrow> rep objs (set_job g j) (jobs_set j js)"
    and unset_law: "rep objs g js \<Longrightarrow> j \<in> objs \<Longrightarrow> rep objs (unset_job g j) (jobs_unset j js)"
    and is_set_law: "rep objs g js \<Longrightarrow> j \<in> objs \<Longrightarrow> is_set g j \<longleftrightarrow> j \<in> set js"
    and execute_law: "rep objs g (j # js) \<Longrightarrow>
      rep objs (fst (execute g)) js \<and> snd (execute g) = Some (handler g j)"
    and has_jobs_law: "rep objs g js \<Longrightarrow> has_jobs g \<longleftrightarrow> js \<noteq> []"
    and handler_set: "handler (set_job g j) = handler g"
begin

text \<open>A job that was just set is the next one to run, and it is no longer set when it runs.\<close>

lemma set_then_execute:
  assumes "rep objs g js" "j \<in> objs"
  shows "snd (execute (set_job g j)) = Some (handler g j)"
    "rep objs (fst (execute (set_job g j))) (removeAll j js)" "\<not> is_set (fst (execute (set_job g j))) j"
proof -
  have r: "rep objs (set_job g j) (j # removeAll j js)" using set_law [OF assms] by (simp add: jobs_set_def)
  show "snd (execute (set_job g j)) = Some (handler g j)"
    and r': "rep objs (fst (execute (set_job g j))) (removeAll j js)"
    using execute_law [OF r] by (simp_all add: handler_set)
  show "\<not> is_set (fst (execute (set_job g j))) j" using is_set_law [OF r' assms(2)] by simp
qed

end

lemma bp_handler_Remove [simp]: "bp_handler (SLinkedList_Remove g j) = bp_handler g"
  by (auto simp: SLinkedList_Remove_def Let_def split: option.splits)

lemma bp_handler_Prepend [simp]: "bp_handler (SLinkedList_Prepend g j) = bp_handler g"
  by (auto simp: SLinkedList_Prepend_def Let_def split: option.splits)

interpretation bpq: job_queue bp_rep BSmallPending_Set BSmallPending_Unset BSmallPending_IsSet
  BPendingGroup_ExecuteJob bp_handler BPendingGroup_HasJobs
proof
  fix g :: "'h BPendingGroup" and j
  show "bp_handler (BSmallPending_Set g j) = bp_handler g" by (simp add: BSmallPending_Set_def)
qed (simp_all add: bp_rep_distinct BSmallPending_IsSet_rep BPendingGroup_HasJobs_rep
    BSmallPending_Set_rep BSmallPending_Unset_rep BPendingGroup_ExecuteJob_rep)

section \<open>Properties\<close>

text \<open>Claim C21. The pointer implementation of the job list refines the abstract list: on every
  initialised job \<^verbatim>\<open>BSmallPending_Set\<close> moves the job to the top whether or not it was pending,
  \<^verbatim>\<open>BSmallPending_Unset\<close> and \<^verbatim>\<open>BSmallPending_Free\<close> take it out, \<^verbatim>\<open>BSmallPending_IsSet\<close> answers
  membership, and no other job changes its state or position.\<close>

theorem BPending_refines_job_list:
  assumes "bp_rep objs g js" "j \<in> objs"
  shows "bp_rep objs (BSmallPending_Set g j) (j # removeAll j js) \<and>
    bp_rep objs (BSmallPending_Unset g j) (removeAll j js) \<and>
    bp_rep (objs - {j}) (BSmallPending_Free g j) (removeAll j js) \<and>
    (BSmallPending_IsSet g j \<longleftrightarrow> j \<in> set js) \<and> (BPendingGroup_HasJobs g \<longleftrightarrow> js \<noteq> [])"
  using BSmallPending_Set_rep [OF assms] BSmallPending_Unset_rep [OF assms] BSmallPending_Free_rep [OF assms]
    BSmallPending_IsSet_rep [OF assms] BPendingGroup_HasJobs_rep [OF assms(1)]
  by (simp add: jobs_set_def jobs_unset_def)

definition bp_ex :: "nat BPendingGroup" where
  "bp_ex = BSmallPending_Init (BSmallPending_Init (BPendingGroup_Init
     \<lparr>bp_first = None, bp_prev = (\<lambda>_. None), bp_next = (\<lambda>_. None), bp_handler = (\<lambda>_. 0)\<rparr>) 1 10) 2 20"

lemma bp_ex_rep: "bp_rep {1, 2} bp_ex []"
  by (simp add: bp_ex_def bp_rep_def bp_chain_def BSmallPending_Init_def BPendingGroup_Init_def
      SLinkedList_Init_def SLinkedListMarkRemoved_def SLinkedListIsRemoved_def)

theorem BPending_refines_job_list_witness:
  "bp_rep {1, 2} (BSmallPending_Set (BSmallPending_Set bp_ex 1) 2) [2, 1] \<and>
   BSmallPending_IsSet (BSmallPending_Set bp_ex 1) 1"
proof -
  have 1: "bp_rep {1, 2} (BSmallPending_Set bp_ex 1) [1]"
    using BPending_refines_job_list [OF bp_ex_rep, of 1] by simp
  show ?thesis
    using BPending_refines_job_list [OF 1, of 1] BPending_refines_job_list [OF 1, of 2] by simp
qed

text \<open>\<^verbatim>\<open>BPendingGroup_ExecuteJob\<close> runs the job that was set last: after
  \<^verbatim>\<open>BSmallPending_Set\<close> the next executed handler is that job's, the job is no longer set when its
  handler runs, and the rest of the list is as before.\<close>

lemma BPending_last_set_first_run:
  assumes "bp_rep objs g js" "j \<in> objs"
  shows "snd (BPendingGroup_ExecuteJob (BSmallPending_Set g j)) = Some (bp_handler g j) \<and>
    bp_rep objs (fst (BPendingGroup_ExecuteJob (BSmallPending_Set g j))) (removeAll j js) \<and>
    \<not> BSmallPending_IsSet (fst (BPendingGroup_ExecuteJob (BSmallPending_Set g j))) j"
  using bpq.set_then_execute [OF assms] by blast

end
