(* ===== verification/Flow_Interface.thy ===== *)
theory Flow_Interface
  imports Pending_Jobs
begin

text \<open>
  The four asynchronous interfaces of \<^verbatim>\<open>flow/\<close>: \<^verbatim>\<open>PacketPassInterface\<close>, \<^verbatim>\<open>PacketRecvInterface\<close>,
  \<^verbatim>\<open>StreamPassInterface\<close> and \<^verbatim>\<open>StreamRecvInterface\<close>. Every call across an interface is deferred through a
  job of the reactor's job queue, which is represented here by the abstract list of pending jobs of
  \<^verbatim>\<open>BPending\<close> (refined by \<open>bp_rep\<close>). An operation of the interface maps the interface object and the
  job list to their new values; the handler a job calls is returned as a value of \<open>if_call\<close>.

  The conditions the sources state as \<^verbatim>\<open>ASSERT\<close>, which are compiled out of the release build, are the
  guards of the step relation \<open>ppi_step\<close>; for the assertions inside the job handlers it is proved that
  they hold in every reachable state.
\<close>

section \<open>Shared vocabulary\<close>

datatype if_state = STATE_NONE | STATE_OPERATION_PENDING | STATE_BUSY | STATE_DONE_PENDING

datatype if_call =
    Call_handler_operation "ptr option" int
  | Call_handler_requestcancel
  | Call_handler_recv "ptr option"
  | Call_handler_done
  | Call_handler_done_len int

text \<open>The discipline between the state and the two jobs all four interfaces have.\<close>

definition if_inv :: "if_state \<Rightarrow> nat \<Rightarrow> nat \<Rightarrow> nat list \<Rightarrow> bool" where
  "if_inv st jop jdone js \<longleftrightarrow> distinct js \<and> jop \<noteq> jdone \<and>
     (jop \<in> set js \<longleftrightarrow> st = STATE_OPERATION_PENDING) \<and> (jdone \<in> set js \<longleftrightarrow> st = STATE_DONE_PENDING)"

section \<open>PacketPassInterface\<close>

text \<open>The function pointers \<^verbatim>\<open>handler_requestcancel\<close> and \<^verbatim>\<open>handler_done\<close> are represented by whether they
  are set, the three \<^verbatim>\<open>BPending\<close> members by the identity of the job object.\<close>

record PacketPassInterface =
  ppi_mtu :: int
  ppi_handler_requestcancel :: bool
  ppi_handler_done :: bool
  ppi_job_operation :: nat
  ppi_job_operation_data :: "ptr option"
  ppi_job_operation_len :: int
  ppi_job_requestcancel :: nat
  ppi_job_done :: nat
  ppi_state :: if_state
  ppi_cancel_requested :: bool

definition PacketPassInterface_Init :: "PacketPassInterface \<Rightarrow> int \<Rightarrow> PacketPassInterface" where
  "PacketPassInterface_Init i mtu =
     i\<lparr>ppi_mtu := mtu, ppi_handler_requestcancel := False, ppi_handler_done := False,
       ppi_state := STATE_NONE\<rparr>"

definition PacketPassInterface_Free :: "PacketPassInterface \<Rightarrow> nat list \<Rightarrow> nat list" where
  "PacketPassInterface_Free i js =
     jobs_unset (ppi_job_operation i) (jobs_unset (ppi_job_requestcancel i) (jobs_unset (ppi_job_done i) js))"

definition PacketPassInterface_EnableCancel :: "PacketPassInterface \<Rightarrow> PacketPassInterface" where
  "PacketPassInterface_EnableCancel i = i\<lparr>ppi_handler_requestcancel := True\<rparr>"

definition PacketPassInterface_Done ::
    "PacketPassInterface \<Rightarrow> nat list \<Rightarrow> PacketPassInterface \<times> nat list" where
  "PacketPassInterface_Done i js =
     (i\<lparr>ppi_state := STATE_DONE_PENDING\<rparr>,
      jobs_set (ppi_job_done i) (jobs_unset (ppi_job_requestcancel i) js))"

definition PacketPassInterface_GetMTU :: "PacketPassInterface \<Rightarrow> int" where
  "PacketPassInterface_GetMTU i = ppi_mtu i"

definition PacketPassInterface_Sender_Init :: "PacketPassInterface \<Rightarrow> PacketPassInterface" where
  "PacketPassInterface_Sender_Init i = i\<lparr>ppi_handler_done := True\<rparr>"

definition PacketPassInterface_Sender_Send ::
    "PacketPassInterface \<Rightarrow> nat list \<Rightarrow> ptr option \<Rightarrow> int \<Rightarrow> PacketPassInterface \<times> nat list" where
  "PacketPassInterface_Sender_Send i js data data_len =
     (i\<lparr>ppi_job_operation_data := data, ppi_job_operation_len := data_len,
        ppi_state := STATE_OPERATION_PENDING, ppi_cancel_requested := False\<rparr>,
      jobs_set (ppi_job_operation i) js)"

definition PacketPassInterface_Sender_RequestCancel ::
    "PacketPassInterface \<Rightarrow> nat list \<Rightarrow> PacketPassInterface \<times> nat list" where
  "PacketPassInterface_Sender_RequestCancel i js =
     (if ppi_cancel_requested i then (i, js)
      else let i1 = i\<lparr>ppi_cancel_requested := True\<rparr> in
        if ppi_state i1 = STATE_OPERATION_PENDING then
          (i1\<lparr>ppi_state := STATE_DONE_PENDING\<rparr>,
           jobs_set (ppi_job_done i1) (jobs_unset (ppi_job_operation i1) js))
        else if ppi_state i1 = STATE_BUSY then (i1, jobs_set (ppi_job_requestcancel i1) js)
        else (i1, js))"

definition PacketPassInterface_HasCancel :: "PacketPassInterface \<Rightarrow> bool" where
  "PacketPassInterface_HasCancel i = ppi_handler_requestcancel i"

definition PacketPassInterface_job_operation :: "PacketPassInterface \<Rightarrow> PacketPassInterface \<times> if_call" where
  "PacketPassInterface_job_operation i =
     (i\<lparr>ppi_state := STATE_BUSY\<rparr>, Call_handler_operation (ppi_job_operation_data i) (ppi_job_operation_len i))"

definition PacketPassInterface_job_requestcancel :: "PacketPassInterface \<Rightarrow> PacketPassInterface \<times> if_call" where
  "PacketPassInterface_job_requestcancel i = (i, Call_handler_requestcancel)"

definition PacketPassInterface_job_done :: "PacketPassInterface \<Rightarrow> PacketPassInterface \<times> if_call" where
  "PacketPassInterface_job_done i = (i\<lparr>ppi_state := STATE_NONE\<rparr>, Call_handler_done)"

section \<open>PacketRecvInterface\<close>

record PacketRecvInterface =
  pri_mtu :: int
  pri_handler_done :: bool
  pri_job_operation :: nat
  pri_job_operation_data :: "ptr option"
  pri_job_done :: nat
  pri_job_done_len :: int
  pri_state :: if_state

definition PacketRecvInterface_Init :: "PacketRecvInterface \<Rightarrow> int \<Rightarrow> PacketRecvInterface" where
  "PacketRecvInterface_Init i mtu = i\<lparr>pri_mtu := mtu, pri_handler_done := False, pri_state := STATE_NONE\<rparr>"

definition PacketRecvInterface_Free :: "PacketRecvInterface \<Rightarrow> nat list \<Rightarrow> nat list" where
  "PacketRecvInterface_Free i js = jobs_unset (pri_job_operation i) (jobs_unset (pri_job_done i) js)"

definition PacketRecvInterface_Done ::
    "PacketRecvInterface \<Rightarrow> nat list \<Rightarrow> int \<Rightarrow> PacketRecvInterface \<times> nat list" where
  "PacketRecvInterface_Done i js data_len =
     (i\<lparr>pri_job_done_len := data_len, pri_state := STATE_DONE_PENDING\<rparr>, jobs_set (pri_job_done i) js)"

definition PacketRecvInterface_GetMTU :: "PacketRecvInterface \<Rightarrow> int" where
  "PacketRecvInterface_GetMTU i = pri_mtu i"

definition PacketRecvInterface_Receiver_Init :: "PacketRecvInterface \<Rightarrow> PacketRecvInterface" where
  "PacketRecvInterface_Receiver_Init i = i\<lparr>pri_handler_done := True\<rparr>"

definition PacketRecvInterface_Receiver_Recv ::
    "PacketRecvInterface \<Rightarrow> nat list \<Rightarrow> ptr option \<Rightarrow> PacketRecvInterface \<times> nat list" where
  "PacketRecvInterface_Receiver_Recv i js data =
     (i\<lparr>pri_job_operation_data := data, pri_state := STATE_OPERATION_PENDING\<rparr>, jobs_set (pri_job_operation i) js)"

definition PacketRecvInterface_job_operation :: "PacketRecvInterface \<Rightarrow> PacketRecvInterface \<times> if_call" where
  "PacketRecvInterface_job_operation i =
     (i\<lparr>pri_state := STATE_BUSY\<rparr>, Call_handler_recv (pri_job_operation_data i))"

definition PacketRecvInterface_job_done :: "PacketRecvInterface \<Rightarrow> PacketRecvInterface \<times> if_call" where
  "PacketRecvInterface_job_done i = (i\<lparr>pri_state := STATE_NONE\<rparr>, Call_handler_done_len (pri_job_done_len i))"

section \<open>StreamPassInterface\<close>

record StreamPassInterface =
  spi_handler_done :: bool
  spi_job_operation :: nat
  spi_job_operation_data :: "ptr option"
  spi_job_operation_len :: int
  spi_job_done :: nat
  spi_job_done_len :: int
  spi_state :: if_state

definition StreamPassInterface_Init :: "StreamPassInterface \<Rightarrow> StreamPassInterface" where
  "StreamPassInterface_Init i = i\<lparr>spi_handler_done := False, spi_state := STATE_NONE\<rparr>"

definition StreamPassInterface_Free :: "StreamPassInterface \<Rightarrow> nat list \<Rightarrow> nat list" where
  "StreamPassInterface_Free i js = jobs_unset (spi_job_operation i) (jobs_unset (spi_job_done i) js)"

definition StreamPassInterface_Done ::
    "StreamPassInterface \<Rightarrow> nat list \<Rightarrow> int \<Rightarrow> StreamPassInterface \<times> nat list" where
  "StreamPassInterface_Done i js data_len =
     (i\<lparr>spi_job_done_len := data_len, spi_state := STATE_DONE_PENDING\<rparr>, jobs_set (spi_job_done i) js)"

definition StreamPassInterface_Sender_Init :: "StreamPassInterface \<Rightarrow> StreamPassInterface" where
  "StreamPassInterface_Sender_Init i = i\<lparr>spi_handler_done := True\<rparr>"

definition StreamPassInterface_Sender_Send ::
    "StreamPassInterface \<Rightarrow> nat list \<Rightarrow> ptr option \<Rightarrow> int \<Rightarrow> StreamPassInterface \<times> nat list" where
  "StreamPassInterface_Sender_Send i js data data_len =
     (i\<lparr>spi_job_operation_data := data, spi_job_operation_len := data_len,
        spi_state := STATE_OPERATION_PENDING\<rparr>, jobs_set (spi_job_operation i) js)"

definition StreamPassInterface_job_operation :: "StreamPassInterface \<Rightarrow> StreamPassInterface \<times> if_call" where
  "StreamPassInterface_job_operation i =
     (i\<lparr>spi_state := STATE_BUSY\<rparr>, Call_handler_operation (spi_job_operation_data i) (spi_job_operation_len i))"

definition StreamPassInterface_job_done :: "StreamPassInterface \<Rightarrow> StreamPassInterface \<times> if_call" where
  "StreamPassInterface_job_done i = (i\<lparr>spi_state := STATE_NONE\<rparr>, Call_handler_done_len (spi_job_done_len i))"

section \<open>StreamRecvInterface\<close>

record StreamRecvInterface =
  sri_handler_done :: bool
  sri_job_operation :: nat
  sri_job_operation_data :: "ptr option"
  sri_job_operation_len :: int
  sri_job_done :: nat
  sri_job_done_len :: int
  sri_state :: if_state

definition StreamRecvInterface_Init :: "StreamRecvInterface \<Rightarrow> StreamRecvInterface" where
  "StreamRecvInterface_Init i = i\<lparr>sri_handler_done := False, sri_state := STATE_NONE\<rparr>"

definition StreamRecvInterface_Free :: "StreamRecvInterface \<Rightarrow> nat list \<Rightarrow> nat list" where
  "StreamRecvInterface_Free i js = jobs_unset (sri_job_operation i) (jobs_unset (sri_job_done i) js)"

definition StreamRecvInterface_Done ::
    "StreamRecvInterface \<Rightarrow> nat list \<Rightarrow> int \<Rightarrow> StreamRecvInterface \<times> nat list" where
  "StreamRecvInterface_Done i js data_len =
     (i\<lparr>sri_job_done_len := data_len, sri_state := STATE_DONE_PENDING\<rparr>, jobs_set (sri_job_done i) js)"

definition StreamRecvInterface_Receiver_Init :: "StreamRecvInterface \<Rightarrow> StreamRecvInterface" where
  "StreamRecvInterface_Receiver_Init i = i\<lparr>sri_handler_done := True\<rparr>"

definition StreamRecvInterface_Receiver_Recv ::
    "StreamRecvInterface \<Rightarrow> nat list \<Rightarrow> ptr option \<Rightarrow> int \<Rightarrow> StreamRecvInterface \<times> nat list" where
  "StreamRecvInterface_Receiver_Recv i js data data_len =
     (i\<lparr>sri_job_operation_data := data, sri_job_operation_len := data_len,
        sri_state := STATE_OPERATION_PENDING\<rparr>, jobs_set (sri_job_operation i) js)"

definition StreamRecvInterface_job_operation :: "StreamRecvInterface \<Rightarrow> StreamRecvInterface \<times> if_call" where
  "StreamRecvInterface_job_operation i =
     (i\<lparr>sri_state := STATE_BUSY\<rparr>, Call_handler_operation (sri_job_operation_data i) (sri_job_operation_len i))"

definition StreamRecvInterface_job_done :: "StreamRecvInterface \<Rightarrow> StreamRecvInterface \<times> if_call" where
  "StreamRecvInterface_job_done i = (i\<lparr>sri_state := STATE_NONE\<rparr>, Call_handler_done_len (sri_job_done_len i))"

section \<open>Steps of an interface\<close>

text \<open>The operations of an interface, with the conditions its users have to keep, so that one step
  relation covers the four of them. \<open>o_aux\<close> holds the request-cancel job where there is one.\<close>

record ('i, 'r, 'd) if_ops =
  o_state :: "'i \<Rightarrow> if_state"
  o_job_operation :: "'i \<Rightarrow> nat"
  o_job_done :: "'i \<Rightarrow> nat"
  o_aux :: "'i \<Rightarrow> nat set"
  o_start_ok :: "'i \<Rightarrow> 'r \<Rightarrow> bool"
  o_start :: "'i \<Rightarrow> nat list \<Rightarrow> 'r \<Rightarrow> 'i \<times> nat list"
  o_done_ok :: "'i \<Rightarrow> 'd \<Rightarrow> bool"
  o_done :: "'i \<Rightarrow> nat list \<Rightarrow> 'd \<Rightarrow> 'i \<times> nat list"
  o_cancel_ok :: "'i \<Rightarrow> bool"
  o_cancel :: "'i \<Rightarrow> nat list \<Rightarrow> 'i \<times> nat list"
  o_run_operation :: "'i \<Rightarrow> 'i \<times> if_call"
  o_run_done :: "'i \<Rightarrow> 'i \<times> if_call"
  o_run_aux :: "'i \<Rightarrow> 'i \<times> if_call"

datatype ('r, 'd) if_event = Ev_start 'r | Ev_done 'd | Ev_cancel | Ev_call if_call | Ev_other

definition o_jobs :: "('i, 'r, 'd, 'z) if_ops_scheme \<Rightarrow> 'i \<Rightarrow> nat set" where
  "o_jobs ops i = insert (o_job_operation ops i) (insert (o_job_done ops i) (o_aux ops i))"

text \<open>Steps: a call by the user or the provider of the interface within the documented conditions,
  the reactor executing the top job, and any change of jobs that belong to other objects.\<close>

inductive if_step :: "('i, 'r, 'd) if_ops \<Rightarrow> 'i \<times> nat list \<Rightarrow> ('r, 'd) if_event \<Rightarrow> 'i \<times> nat list \<Rightarrow> bool"
  for ops where
  start: "o_state ops i = STATE_NONE \<Longrightarrow> o_start_ok ops i r \<Longrightarrow>
    if_step ops (i, js) (Ev_start r) (o_start ops i js r)"
| fin: "o_state ops i = STATE_BUSY \<Longrightarrow> o_done_ok ops i d \<Longrightarrow>
    if_step ops (i, js) (Ev_done d) (o_done ops i js d)"
| cancel: "o_state ops i \<noteq> STATE_NONE \<Longrightarrow> o_cancel_ok ops i \<Longrightarrow>
    if_step ops (i, js) Ev_cancel (o_cancel ops i js)"
| run_operation: "o_run_operation ops i = (i', c) \<Longrightarrow>
    if_step ops (i, o_job_operation ops i # js) (Ev_call c) (i', js)"
| run_done: "o_run_done ops i = (i', c) \<Longrightarrow>
    if_step ops (i, o_job_done ops i # js) (Ev_call c) (i', js)"
| run_aux: "j \<in> o_aux ops i \<Longrightarrow> o_run_aux ops i = (i', c) \<Longrightarrow>
    if_step ops (i, j # js) (Ev_call c) (i', js)"
| other_set: "j \<notin> o_jobs ops i \<Longrightarrow> if_step ops (i, js) Ev_other (i, jobs_set j js)"
| other_unset: "j \<notin> o_jobs ops i \<Longrightarrow> if_step ops (i, js) Ev_other (i, jobs_unset j js)"
| other_run: "j \<notin> o_jobs ops i \<Longrightarrow> if_step ops (i, j # js) Ev_other (i, js)"

inductive if_run :: "('i, 'r, 'd) if_ops \<Rightarrow> 'i \<times> nat list \<Rightarrow> ('r, 'd) if_event list \<Rightarrow> 'i \<times> nat list \<Rightarrow> bool"
  for ops where
  run_refl: "if_run ops s [] s"
| run_step: "if_run ops s tr s' \<Longrightarrow> if_step ops s' e s'' \<Longrightarrow> if_run ops s (tr @ [e]) s''"

definition is_start :: "('r, 'd) if_event \<Rightarrow> bool" where
  "is_start e = (case e of Ev_start _ \<Rightarrow> True | _ \<Rightarrow> False)"

fun is_operation_call :: "('r, 'd) if_event \<Rightarrow> bool" where
  "is_operation_call (Ev_call (Call_handler_operation _ _)) = True"
| "is_operation_call (Ev_call (Call_handler_recv _)) = True"
| "is_operation_call _ = False"

fun is_done_call :: "('r, 'd) if_event \<Rightarrow> bool" where
  "is_done_call (Ev_call Call_handler_done) = True"
| "is_done_call (Ev_call (Call_handler_done_len _)) = True"
| "is_done_call _ = False"

definition if_count :: "(('r, 'd) if_event \<Rightarrow> bool) \<Rightarrow> ('r, 'd) if_event list \<Rightarrow> nat" where
  "if_count p tr = length (filter p tr)"

definition o_inv :: "('i, 'r, 'd) if_ops \<Rightarrow> 'i \<times> nat list \<Rightarrow> bool" where
  "o_inv ops s \<longleftrightarrow> if_inv (o_state ops (fst s)) (o_job_operation ops (fst s)) (o_job_done ops (fst s)) (snd s) \<and>
     o_job_operation ops (fst s) \<notin> o_aux ops (fst s) \<and> o_job_done ops (fst s) \<notin> o_aux ops (fst s) \<and>
     (o_aux ops (fst s) \<inter> set (snd s) \<noteq> {} \<longrightarrow> o_state ops (fst s) = STATE_BUSY)"

text \<open>The contract of an asynchronous interface.\<close>

locale async_interface =
  fixes ops :: "('i, 'r, 'd) if_ops"
  assumes frame_start: "o_job_operation ops (fst (o_start ops i js r)) = o_job_operation ops i"
      "o_job_done ops (fst (o_start ops i js r)) = o_job_done ops i"
      "o_aux ops (fst (o_start ops i js r)) = o_aux ops i"
    and frame_done: "o_job_operation ops (fst (o_done ops i js d)) = o_job_operation ops i"
      "o_job_done ops (fst (o_done ops i js d)) = o_job_done ops i"
      "o_aux ops (fst (o_done ops i js d)) = o_aux ops i"
    and frame_cancel: "o_job_operation ops (fst (o_cancel ops i js)) = o_job_operation ops i"
      "o_job_done ops (fst (o_cancel ops i js)) = o_job_done ops i"
      "o_aux ops (fst (o_cancel ops i js)) = o_aux ops i"
    and frame_run_operation: "o_run_operation ops i = (i', c) \<Longrightarrow> o_job_operation ops i' = o_job_operation ops i \<and>
      o_job_done ops i' = o_job_done ops i \<and> o_aux ops i' = o_aux ops i"
    and frame_run_done: "o_run_done ops i = (i', c) \<Longrightarrow> o_job_operation ops i' = o_job_operation ops i \<and>
      o_job_done ops i' = o_job_done ops i \<and> o_aux ops i' = o_aux ops i"
    and frame_run_aux: "o_run_aux ops i = (i', c) \<Longrightarrow> o_job_operation ops i' = o_job_operation ops i \<and>
      o_job_done ops i' = o_job_done ops i \<and> o_aux ops i' = o_aux ops i"
    and start_state: "o_state ops (fst (o_start ops i js r)) = STATE_OPERATION_PENDING"
    and start_jobs: "snd (o_start ops i js r) = jobs_set (o_job_operation ops i) js"
    and done_state: "o_state ops (fst (o_done ops i js d)) = STATE_DONE_PENDING"
    and done_jobs: "distinct js \<Longrightarrow> distinct (snd (o_done ops i js d))"
      "distinct js \<Longrightarrow> set (snd (o_done ops i js d)) = insert (o_job_done ops i) (set js - o_aux ops i)"
    and cancel_jobs: "distinct js \<Longrightarrow> distinct (snd (o_cancel ops i js))"
    and cancel_law: "o_state ops i \<noteq> STATE_NONE \<Longrightarrow> distinct js \<Longrightarrow>
      (o_state ops (fst (o_cancel ops i js)) = o_state ops i \<and> (set (snd (o_cancel ops i js)) = set js \<or>
         (o_state ops i = STATE_BUSY \<and> set (snd (o_cancel ops i js)) = set js \<union> o_aux ops i))) \<or>
      (o_state ops i = STATE_OPERATION_PENDING \<and> o_state ops (fst (o_cancel ops i js)) = STATE_DONE_PENDING \<and>
       set (snd (o_cancel ops i js)) = insert (o_job_done ops i) (set js - {o_job_operation ops i}))"
    and run_operation_law: "o_run_operation ops i = (i', c) \<Longrightarrow> o_state ops i' = STATE_BUSY \<and>
      is_operation_call (Ev_call c :: ('r, 'd) if_event) \<and> \<not> is_done_call (Ev_call c :: ('r, 'd) if_event)"
    and run_done_law: "o_run_done ops i = (i', c) \<Longrightarrow> o_state ops i' = STATE_NONE \<and>
      is_done_call (Ev_call c :: ('r, 'd) if_event) \<and> \<not> is_operation_call (Ev_call c :: ('r, 'd) if_event)"
    and run_aux_law: "o_run_aux ops i = (i', c) \<Longrightarrow> o_state ops i' = o_state ops i \<and>
      \<not> is_done_call (Ev_call c :: ('r, 'd) if_event) \<and> \<not> is_operation_call (Ev_call c :: ('r, 'd) if_event)"
begin

lemma step_inv:
  assumes "if_step ops s e s'" "o_inv ops s"
  shows "o_inv ops s'"
  using assms(1)
proof cases
  case (start i r js)
  then show ?thesis using assms(2)
    by (auto simp: o_inv_def if_inv_def frame_start start_state start_jobs)
next
  case (fin i d js)
  then show ?thesis using assms(2)
    by (auto simp: o_inv_def if_inv_def frame_done done_state done_jobs)
next
  case (cancel i js)
  then have d: "distinct js" using assms(2) by (simp add: o_inv_def if_inv_def)
  have inv: "o_inv ops (i, js)" using cancel assms(2) by simp
  obtain i' js' where c: "o_cancel ops i js = (i', js')" by (cases "o_cancel ops i js")
  note f = frame_cancel [of i js, unfolded c fst_conv] cancel_jobs [OF d, of i, unfolded c snd_conv]
  from cancel_law [OF cancel(4) d]
  consider "o_state ops i' = o_state ops i" "set js' = set js"
    | "o_state ops i' = o_state ops i" "o_state ops i = STATE_BUSY" "set js' = set js \<union> o_aux ops i"
    | "o_state ops i = STATE_OPERATION_PENDING" "o_state ops i' = STATE_DONE_PENDING"
      "set js' = insert (o_job_done ops i) (set js - {o_job_operation ops i})"
    by (auto simp: c)
  then have "o_inv ops (i', js')"
    by cases (use inv f in \<open>auto simp: o_inv_def if_inv_def\<close>)
  then show ?thesis using cancel c by simp
next
  case (run_operation i i' c js)
  then have "o_inv ops (i, o_job_operation ops i # js)" using assms(2) by simp
  then have "o_inv ops (i', js)"
    by (auto simp: o_inv_def if_inv_def frame_run_operation [OF run_operation(4)] run_operation_law [OF run_operation(4)])
  then show ?thesis using run_operation by simp
next
  case (run_done i i' c js)
  then have "o_inv ops (i, o_job_done ops i # js)" using assms(2) by simp
  then have "o_inv ops (i', js)"
    by (auto simp: o_inv_def if_inv_def frame_run_done [OF run_done(4)] run_done_law [OF run_done(4)])
  then show ?thesis using run_done by simp
next
  case (run_aux j i i' c js)
  then have "o_inv ops (i, j # js)" using assms(2) by simp
  with run_aux(4) have "o_inv ops (i', js)"
    by (auto simp: o_inv_def if_inv_def frame_run_aux [OF run_aux(5)] run_aux_law [OF run_aux(5)])
  then show ?thesis using run_aux by simp
next
  case (other_set j i js)
  then show ?thesis using assms(2) by (auto simp: o_inv_def if_inv_def o_jobs_def distinct_removeAll)
next
  case (other_unset j i js)
  then show ?thesis using assms(2) by (auto simp: o_inv_def if_inv_def o_jobs_def)
next
  case (other_run j i js)
  then show ?thesis using assms(2) by (auto simp: o_inv_def if_inv_def o_jobs_def)
qed

lemma run_inv: "if_run ops s tr s' \<Longrightarrow> o_inv ops s \<Longrightarrow> o_inv ops s'"
  by (induction rule: if_run.induct) (auto intro: step_inv)

text \<open>What the code asserts when a job runs.\<close>

lemma head_state:
  assumes "o_inv ops (i, j # js)"
  shows "j = o_job_operation ops i \<Longrightarrow> o_state ops i = STATE_OPERATION_PENDING"
    "j = o_job_done ops i \<Longrightarrow> o_state ops i = STATE_DONE_PENDING"
    "j \<in> o_aux ops i \<Longrightarrow> o_state ops i = STATE_BUSY"
  using assms by (auto simp: o_inv_def if_inv_def)

lemma quiescent: "o_inv ops (i, []) \<Longrightarrow> o_state ops i = STATE_NONE \<or> o_state ops i = STATE_BUSY"
  by (cases "o_state ops i") (auto simp: o_inv_def if_inv_def)

definition pending :: "'i \<Rightarrow> nat" where
  "pending i = (if o_state ops i = STATE_NONE then 0 else 1)"

definition undelivered :: "'i \<Rightarrow> nat" where
  "undelivered i = (if o_state ops i = STATE_OPERATION_PENDING then 1 else 0)"

lemma step_counts:
  assumes "if_step ops s e s'" "o_inv ops s"
  shows "pending (fst s') + of_bool (is_done_call e) = pending (fst s) + of_bool (is_start e) \<and>
    undelivered (fst s') + of_bool (is_operation_call e) \<le> undelivered (fst s) + of_bool (is_start e)"
  using assms(1)
proof cases
  case (cancel i js)
  then have d: "distinct js" using assms(2) by (simp add: o_inv_def if_inv_def)
  show ?thesis using cancel_law [OF cancel(4) d] cancel
    by (auto simp: pending_def undelivered_def is_start_def)
next
  case (run_operation i i' c js)
  then show ?thesis using run_operation_law [OF run_operation(4)] head_state(1) [of i _ js] assms(2)
    by (simp add: pending_def undelivered_def is_start_def)
next
  case (run_done i i' c js)
  then show ?thesis using run_done_law [OF run_done(4)] head_state(2) [of i _ js] assms(2)
    by (simp add: pending_def undelivered_def is_start_def)
next
  case (run_aux j i i' c js)
  then show ?thesis using run_aux_law [OF run_aux(5)] head_state(3) [of i j js] assms(2)
    by (simp add: pending_def undelivered_def is_start_def)
qed (auto simp: pending_def undelivered_def is_start_def start_state done_state)

lemma run_counts:
  assumes "if_run ops s tr s'" "o_inv ops s" "o_state ops (fst s) = STATE_NONE"
  shows "if_count is_start tr = if_count is_done_call tr + pending (fst s')"
    "if_count is_operation_call tr + undelivered (fst s') \<le> if_count is_start tr"
proof -
  have "if_count is_start tr = if_count is_done_call tr + pending (fst s') \<and>
    if_count is_operation_call tr + undelivered (fst s') \<le> if_count is_start tr"
    using assms
  proof (induction rule: if_run.induct)
    case (run_refl s)
    then show ?case by (simp add: if_count_def pending_def undelivered_def)
  next
    case (run_step s tr s' e s'')
    have "o_inv ops s'" using run_inv [OF run_step(1)] run_step by blast
    from step_counts [OF run_step(2) this] run_step show ?case
      by (auto simp: if_count_def of_bool_def split: if_splits)
  qed
  then show "if_count is_start tr = if_count is_done_call tr + pending (fst s')"
    "if_count is_operation_call tr + undelivered (fst s') \<le> if_count is_start tr" by auto
qed

end

section \<open>The four interfaces meet the contract\<close>

definition PPI_ops :: "(PacketPassInterface, ptr option \<times> int, unit) if_ops" where
  "PPI_ops = \<lparr>o_state = ppi_state, o_job_operation = ppi_job_operation, o_job_done = ppi_job_done,
     o_aux = (\<lambda>i. {ppi_job_requestcancel i}),
     o_start_ok = (\<lambda>i (d, n). 0 \<le> n \<and> n \<le> ppi_mtu i \<and> (0 < n \<longrightarrow> d \<noteq> None) \<and> ppi_handler_done i),
     o_start = (\<lambda>i js (d, n). PacketPassInterface_Sender_Send i js d n),
     o_done_ok = (\<lambda>i _. True), o_done = (\<lambda>i js _. PacketPassInterface_Done i js),
     o_cancel_ok = ppi_handler_requestcancel, o_cancel = PacketPassInterface_Sender_RequestCancel,
     o_run_operation = PacketPassInterface_job_operation, o_run_done = PacketPassInterface_job_done,
     o_run_aux = PacketPassInterface_job_requestcancel\<rparr>"

definition PRI_ops :: "(PacketRecvInterface, ptr option, int) if_ops" where
  "PRI_ops = \<lparr>o_state = pri_state, o_job_operation = pri_job_operation, o_job_done = pri_job_done,
     o_aux = (\<lambda>i. {}),
     o_start_ok = (\<lambda>i d. (0 < pri_mtu i \<longrightarrow> d \<noteq> None) \<and> pri_handler_done i),
     o_start = PacketRecvInterface_Receiver_Recv,
     o_done_ok = (\<lambda>i n. 0 \<le> n \<and> n \<le> pri_mtu i), o_done = PacketRecvInterface_Done,
     o_cancel_ok = (\<lambda>_. False), o_cancel = Pair,
     o_run_operation = PacketRecvInterface_job_operation, o_run_done = PacketRecvInterface_job_done,
     o_run_aux = (\<lambda>i. (i, Call_handler_requestcancel))\<rparr>"

definition SPI_ops :: "(StreamPassInterface, ptr option \<times> int, int) if_ops" where
  "SPI_ops = \<lparr>o_state = spi_state, o_job_operation = spi_job_operation, o_job_done = spi_job_done,
     o_aux = (\<lambda>i. {}),
     o_start_ok = (\<lambda>i (d, n). 0 < n \<and> d \<noteq> None \<and> spi_handler_done i),
     o_start = (\<lambda>i js (d, n). StreamPassInterface_Sender_Send i js d n),
     o_done_ok = (\<lambda>i n. 0 < n \<and> n \<le> spi_job_operation_len i), o_done = StreamPassInterface_Done,
     o_cancel_ok = (\<lambda>_. False), o_cancel = Pair,
     o_run_operation = StreamPassInterface_job_operation, o_run_done = StreamPassInterface_job_done,
     o_run_aux = (\<lambda>i. (i, Call_handler_requestcancel))\<rparr>"

definition SRI_ops :: "(StreamRecvInterface, ptr option \<times> int, int) if_ops" where
  "SRI_ops = \<lparr>o_state = sri_state, o_job_operation = sri_job_operation, o_job_done = sri_job_done,
     o_aux = (\<lambda>i. {}),
     o_start_ok = (\<lambda>i (d, n). 0 < n \<and> d \<noteq> None \<and> sri_handler_done i),
     o_start = (\<lambda>i js (d, n). StreamRecvInterface_Receiver_Recv i js d n),
     o_done_ok = (\<lambda>i n. 0 < n \<and> n \<le> sri_job_operation_len i), o_done = StreamRecvInterface_Done,
     o_cancel_ok = (\<lambda>_. False), o_cancel = Pair,
     o_run_operation = StreamRecvInterface_job_operation, o_run_done = StreamRecvInterface_job_done,
     o_run_aux = (\<lambda>i. (i, Call_handler_requestcancel))\<rparr>"

lemmas if_op_defs =
  PacketPassInterface_Sender_Send_def PacketPassInterface_Done_def
  PacketPassInterface_job_operation_def PacketPassInterface_job_done_def PacketPassInterface_job_requestcancel_def
  PacketRecvInterface_Receiver_Recv_def PacketRecvInterface_Done_def PacketRecvInterface_job_operation_def
  PacketRecvInterface_job_done_def StreamPassInterface_Sender_Send_def StreamPassInterface_Done_def
  StreamPassInterface_job_operation_def StreamPassInterface_job_done_def StreamRecvInterface_Receiver_Recv_def
  StreamRecvInterface_Done_def StreamRecvInterface_job_operation_def StreamRecvInterface_job_done_def

interpretation ppi: async_interface PPI_ops
  by unfold_locales
    (auto simp: PPI_ops_def if_op_defs distinct_removeAll PacketPassInterface_Sender_RequestCancel_def Let_def
        distinct_removeAll jobs_unset_def split: prod.splits)

interpretation pri: async_interface PRI_ops
  by unfold_locales (auto simp: PRI_ops_def if_op_defs distinct_removeAll)

interpretation spi: async_interface SPI_ops
  by unfold_locales (auto simp: SPI_ops_def if_op_defs distinct_removeAll split: prod.splits)

interpretation sri: async_interface SRI_ops
  by unfold_locales (auto simp: SRI_ops_def if_op_defs distinct_removeAll split: prod.splits)

text \<open>A freshly initialised object whose jobs are three (two) different job objects, none pending.\<close>

definition ppi_fresh :: "PacketPassInterface \<Rightarrow> nat list \<Rightarrow> bool" where
  "ppi_fresh i js \<longleftrightarrow> ppi_state i = STATE_NONE \<and> distinct js \<and>
     distinct [ppi_job_operation i, ppi_job_requestcancel i, ppi_job_done i] \<and>
     set js \<inter> {ppi_job_operation i, ppi_job_requestcancel i, ppi_job_done i} = {}"

lemma ppi_fresh_inv: "ppi_fresh i js \<Longrightarrow> o_inv PPI_ops (i, js)"
  by (auto simp: ppi_fresh_def o_inv_def if_inv_def PPI_ops_def)

text \<open>What \<^verbatim>\<open>_PacketPassInterface_job_requestcancel\<close> asserts besides the state.\<close>

definition ppi_cancel_inv :: "PacketPassInterface \<times> nat list \<Rightarrow> bool" where
  "ppi_cancel_inv s \<longleftrightarrow> (ppi_job_requestcancel (fst s) \<in> set (snd s) \<longrightarrow>
     ppi_cancel_requested (fst s) \<and> ppi_handler_requestcancel (fst s))"

lemma ppi_cancel_step:
  assumes "if_step PPI_ops s e s'" "o_inv PPI_ops s" "ppi_cancel_inv s"
  shows "ppi_cancel_inv s'"
  using assms
  by cases
    (auto simp: ppi_cancel_inv_def PPI_ops_def if_op_defs PacketPassInterface_Sender_RequestCancel_def Let_def
      o_inv_def if_inv_def o_jobs_def split: if_splits)

lemma ppi_run_invs:
  assumes "if_run PPI_ops (i, js) tr s" "ppi_fresh i js"
  shows "o_inv PPI_ops s \<and> ppi_cancel_inv s"
  using assms
proof (induction "(i, js)" tr s rule: if_run.induct)
  case run_refl
  then show ?case by (auto simp: ppi_fresh_inv ppi_cancel_inv_def ppi_fresh_def)
next
  case (run_step tr s' e s'')
  then show ?case using ppi.step_inv ppi_cancel_step by blast
qed

section \<open>What a component asks of its interfaces\<close>

text \<open>The components above the interfaces are given as handlers that return the interface functions
  they call, in order, as values of \<open>flow_call\<close>. A component has at most one interface of each kind and
  role, so a call needs no interface argument; \<open>Report_error\<close> and \<open>Call_user_handler\<close> stand for calls of
  the component's own handlers, the timer calls for \<^verbatim>\<open>BReactor_SetTimer\<close>, \<^verbatim>\<open>BReactor_SetTimerAfter\<close> and
  \<^verbatim>\<open>BReactor_RemoveTimer\<close> on its timer.\<close>

datatype flow_call =
    Recv_Packet "ptr option"
  | Send_Packet "ptr option" int
  | Recv_Stream "ptr option" int
  | Send_Stream "ptr option" int
  | Cancel_Packet
  | PacketPass_Done
  | PacketRecv_Done int
  | StreamPass_Done int
  | StreamRecv_Done int
  | Report_error
  | Timer_Set
  | Timer_SetAfter int
  | Timer_Remove
  | Call_user_handler

text \<open>The operations outstanding at the interfaces of a component: the ones it started as a user
  (\<open>fe_recv_packet\<close> to \<open>fe_send_stream\<close>) and the ones it has to answer as a provider. By the theorems of
  the previous section an operation is outstanding exactly while the interface is not idle.\<close>

record flow_env =
  fe_recv_packet :: "ptr option option"
  fe_send_packet :: "(ptr option \<times> int) option"
  fe_recv_stream :: "(ptr option \<times> int) option"
  fe_send_stream :: "(ptr option \<times> int) option"
  fe_serve_pass :: "(ptr option \<times> int) option"
  fe_serve_recv :: "ptr option option"
  fe_serve_stream_pass :: "(ptr option \<times> int) option"
  fe_serve_stream_recv :: "(ptr option \<times> int) option"

definition fe_idle :: flow_env where
  "fe_idle = \<lparr>fe_recv_packet = None, fe_send_packet = None, fe_recv_stream = None, fe_send_stream = None,
     fe_serve_pass = None, fe_serve_recv = None, fe_serve_stream_pass = None, fe_serve_stream_recv = None\<rparr>"

text \<open>One call; the result is nothing when the call breaks an assertion of the interface.\<close>

fun issue :: "flow_call \<Rightarrow> flow_env \<Rightarrow> flow_env option" where
  "issue (Recv_Packet d) e = (if fe_recv_packet e = None then Some (e\<lparr>fe_recv_packet := Some d\<rparr>) else None)"
| "issue (Send_Packet d n) e =
     (if fe_send_packet e = None \<and> 0 \<le> n \<and> (0 < n \<longrightarrow> d \<noteq> None) then Some (e\<lparr>fe_send_packet := Some (d, n)\<rparr>) else None)"
| "issue (Recv_Stream d n) e =
     (if fe_recv_stream e = None \<and> 0 < n \<and> d \<noteq> None then Some (e\<lparr>fe_recv_stream := Some (d, n)\<rparr>) else None)"
| "issue (Send_Stream d n) e =
     (if fe_send_stream e = None \<and> 0 < n \<and> d \<noteq> None then Some (e\<lparr>fe_send_stream := Some (d, n)\<rparr>) else None)"
| "issue Cancel_Packet e = (if fe_send_packet e \<noteq> None then Some e else None)"
| "issue PacketPass_Done e = (if fe_serve_pass e \<noteq> None then Some (e\<lparr>fe_serve_pass := None\<rparr>) else None)"
| "issue (PacketRecv_Done n) e =
     (if fe_serve_recv e \<noteq> None \<and> 0 \<le> n then Some (e\<lparr>fe_serve_recv := None\<rparr>) else None)"
| "issue (StreamPass_Done n) e = (case fe_serve_stream_pass e of None \<Rightarrow> None
     | Some (d, k) \<Rightarrow> if 0 < n \<and> n \<le> k then Some (e\<lparr>fe_serve_stream_pass := None\<rparr>) else None)"
| "issue (StreamRecv_Done n) e = (case fe_serve_stream_recv e of None \<Rightarrow> None
     | Some (d, k) \<Rightarrow> if 0 < n \<and> n \<le> k then Some (e\<lparr>fe_serve_stream_recv := None\<rparr>) else None)"
| "issue Report_error e = Some e"
| "issue Timer_Set e = Some e"
| "issue (Timer_SetAfter t) e = Some e"
| "issue Timer_Remove e = Some e"
| "issue Call_user_handler e = Some e"

fun issues :: "flow_call list \<Rightarrow> flow_env \<Rightarrow> flow_env option" where
  "issues [] e = Some e"
| "issues (c # cs) e = (case issue c e of None \<Rightarrow> None | Some e' \<Rightarrow> issues cs e')"

section \<open>Properties\<close>

text \<open>Claim C20. Whatever its user and provider do within the documented conditions, and however the
  jobs of other objects interleave, the job handlers of a \<^verbatim>\<open>PacketPassInterface\<close> only ever run in the
  state they assert: the operation job in \<^verbatim>\<open>PPI_STATE_OPERATION_PENDING\<close>, the done job in
  \<^verbatim>\<open>PPI_STATE_DONE_PENDING\<close>, and the request-cancel job while the provider is busy, after a cancel was
  requested and with a cancel handler installed.\<close>

theorem PacketPassInterface_handler_assertions:
  assumes "if_run PPI_ops (i, js) tr (i', j # js')" "ppi_fresh i js"
  shows "(j = ppi_job_operation i' \<longrightarrow> ppi_state i' = STATE_OPERATION_PENDING) \<and>
    (j = ppi_job_done i' \<longrightarrow> ppi_state i' = STATE_DONE_PENDING) \<and>
    (j = ppi_job_requestcancel i' \<longrightarrow>
       ppi_state i' = STATE_BUSY \<and> ppi_cancel_requested i' \<and> ppi_handler_requestcancel i')"
  using ppi_run_invs [OF assms] ppi.head_state [of i' j js']
  by (auto simp: ppi_cancel_inv_def PPI_ops_def)

definition ppi_ex :: PacketPassInterface where
  "ppi_ex = PacketPassInterface_Sender_Init (PacketPassInterface_EnableCancel (PacketPassInterface_Init
     \<lparr>ppi_mtu = 0, ppi_handler_requestcancel = False, ppi_handler_done = False,
      ppi_job_operation = 1, ppi_job_operation_data = None, ppi_job_operation_len = 0,
      ppi_job_requestcancel = 2, ppi_job_done = 3, ppi_state = STATE_NONE, ppi_cancel_requested = False\<rparr> 1500))"



definition ppi_ex_busy :: PacketPassInterface where
  "ppi_ex_busy = ppi_ex\<lparr>ppi_job_operation_data := Some 64, ppi_job_operation_len := 100,
     ppi_state := STATE_BUSY\<rparr>"

lemma ppi_ex_fresh: "ppi_fresh ppi_ex []"
  by (simp add: ppi_fresh_def ppi_ex_def PacketPassInterface_Init_def PacketPassInterface_EnableCancel_def
      PacketPassInterface_Sender_Init_def)

lemmas ppi_ex_defs = ppi_ex_def PacketPassInterface_Init_def PacketPassInterface_EnableCancel_def
  PacketPassInterface_Sender_Init_def

lemma ppi_ex_run_busy:
  "if_run PPI_ops (ppi_ex, []) [Ev_start (Some 64, 100), Ev_call (Call_handler_operation (Some 64) 100)]
     (ppi_ex_busy, [])"
proof -
  have 1: "if_step PPI_ops (ppi_ex, []) (Ev_start (Some 64, 100)) (ppi_ex\<lparr>ppi_job_operation_data := Some 64,
      ppi_job_operation_len := 100, ppi_state := STATE_OPERATION_PENDING\<rparr>, [1])"
    using if_step.start [of PPI_ops ppi_ex "(Some 64, 100)" "[]"]
    by (simp add: PPI_ops_def if_op_defs ppi_ex_defs jobs_set_def)
  have 2: "if_step PPI_ops (ppi_ex\<lparr>ppi_job_operation_data := Some 64, ppi_job_operation_len := 100,
      ppi_state := STATE_OPERATION_PENDING\<rparr>, [1]) (Ev_call (Call_handler_operation (Some 64) 100)) (ppi_ex_busy, [])"
    using if_step.run_operation [of PPI_ops "ppi_ex\<lparr>ppi_job_operation_data := Some 64,
      ppi_job_operation_len := 100, ppi_state := STATE_OPERATION_PENDING\<rparr>" ppi_ex_busy _ "[]"]
    by (simp add: PPI_ops_def if_op_defs ppi_ex_defs ppi_ex_busy_def)
  show ?thesis using if_run.run_step [OF if_run.run_step [OF if_run.run_refl 1] 2] by simp
qed

lemma ppi_ex_run_cancel:
  "if_run PPI_ops (ppi_ex, []) [Ev_start (Some 64, 100), Ev_call (Call_handler_operation (Some 64) 100), Ev_cancel]
     (ppi_ex_busy\<lparr>ppi_cancel_requested := True\<rparr>, [2])"
proof -
  have "if_step PPI_ops (ppi_ex_busy, []) Ev_cancel (ppi_ex_busy\<lparr>ppi_cancel_requested := True\<rparr>, [2])"
    using if_step.cancel [of PPI_ops ppi_ex_busy "[]"]
    by (simp add: PPI_ops_def ppi_ex_defs ppi_ex_busy_def PacketPassInterface_Sender_RequestCancel_def jobs_set_def)
  then show ?thesis using if_run.run_step [OF ppi_ex_run_busy] by simp
qed

theorem PacketPassInterface_handler_assertions_witness:
  "ppi_state (ppi_ex_busy\<lparr>ppi_cancel_requested := True\<rparr>) = STATE_BUSY"
  using PacketPassInterface_handler_assertions [OF ppi_ex_run_cancel ppi_ex_fresh]
  by (simp add: ppi_ex_busy_def ppi_ex_defs)

text \<open>Every \<^verbatim>\<open>PacketPassInterface_Sender_Send\<close> is answered by exactly one \<^verbatim>\<open>handler_done\<close>, also
  when it is cancelled before or after the provider saw it: along every run the number of sends is the
  number of done calls plus one if the interface is not idle. The provider's handler is called at most
  once per send. When no job is left to execute, the interface is idle or waiting for its provider, so
  no operation and no completion is ever lost.\<close>

lemma PacketPassInterface_one_done_per_send:
  assumes "if_run PPI_ops (i, js) tr (i', js')" "ppi_fresh i js"
  shows "if_count is_start tr = if_count is_done_call tr + (if ppi_state i' = STATE_NONE then 0 else 1) \<and>
    if_count is_operation_call tr \<le> if_count is_start tr \<and>
    (js' = [] \<longrightarrow> ppi_state i' = STATE_NONE \<or> ppi_state i' = STATE_BUSY)"
proof -
  have st: "o_state PPI_ops = ppi_state" by (simp add: PPI_ops_def)
  have idle: "o_state PPI_ops (fst (i, js)) = STATE_NONE" using assms(2) by (simp add: st ppi_fresh_def)
  note c = ppi.run_counts [OF assms(1) ppi_fresh_inv [OF assms(2)] idle]
  moreover have "js' = [] \<longrightarrow> ppi_state i' = STATE_NONE \<or> ppi_state i' = STATE_BUSY"
    using ppi.quiescent [of i'] ppi_run_invs [OF assms] by (auto simp: st)
  ultimately show ?thesis by (simp add: ppi.pending_def st)
qed

definition stream_fresh :: "('i, 'r, 'd) if_ops \<Rightarrow> 'i \<Rightarrow> nat list \<Rightarrow> bool" where
  "stream_fresh ops i js \<longleftrightarrow> o_state ops i = STATE_NONE \<and> distinct js \<and> o_aux ops i = {} \<and>
     o_job_operation ops i \<noteq> o_job_done ops i \<and> o_job_operation ops i \<notin> set js \<and> o_job_done ops i \<notin> set js"

lemma stream_fresh_inv: "stream_fresh ops i js \<Longrightarrow> o_inv ops (i, js)"
  by (auto simp: stream_fresh_def o_inv_def if_inv_def)

definition sri_len_inv :: "StreamRecvInterface \<Rightarrow> bool" where
  "sri_len_inv i \<longleftrightarrow> (sri_state i = STATE_DONE_PENDING \<longrightarrow>
     0 < sri_job_done_len i \<and> sri_job_done_len i \<le> sri_job_operation_len i)"

lemma sri_len_step: "if_step SRI_ops s e s' \<Longrightarrow> sri_len_inv (fst s) \<Longrightarrow> sri_len_inv (fst s')"
  by (cases rule: if_step.cases) (auto simp: sri_len_inv_def SRI_ops_def if_op_defs)

lemma sri_len_run: "if_run SRI_ops s tr s' \<Longrightarrow> sri_len_inv (fst s) \<Longrightarrow> sri_len_inv (fst s')"
  by (induction rule: if_run.induct) (auto intro: sri_len_step)

text \<open>A \<^verbatim>\<open>StreamRecvInterface\<close> reports every receive exactly once, and whenever its done job is
  about to run, the interface is in \<^verbatim>\<open>SRI_STATE_DONE_PENDING\<close> and the length handed to the receiver is
  positive and at most the number of bytes it asked for.\<close>

lemma StreamRecvInterface_done_in_range:
  assumes "if_run SRI_ops (i, js) tr (i', js')" "stream_fresh SRI_ops i js"
  shows "if_count is_start tr = if_count is_done_call tr + (if sri_state i' = STATE_NONE then 0 else 1) \<and>
    (js' \<noteq> [] \<and> hd js' = sri_job_done i' \<longrightarrow> sri_state i' = STATE_DONE_PENDING \<and>
       0 < sri_job_done_len i' \<and> sri_job_done_len i' \<le> sri_job_operation_len i')"
proof -
  have st: "o_state SRI_ops = sri_state" "o_job_done SRI_ops = sri_job_done" by (simp_all add: SRI_ops_def)
  have idle: "sri_state i = STATE_NONE" using assms(2) by (simp add: st stream_fresh_def)
  note c = sri.run_counts(1) [OF assms(1) stream_fresh_inv [OF assms(2)]]
  have "sri_len_inv i'" using sri_len_run [OF assms(1)] idle by (simp add: sri_len_inv_def)
  moreover have "js' \<noteq> [] \<and> hd js' = sri_job_done i' \<longrightarrow> sri_state i' = STATE_DONE_PENDING"
    using sri.head_state(2) [of i' _ "tl js'"] sri.run_inv [OF assms(1) stream_fresh_inv [OF assms(2)]]
    by (cases js') (auto simp: st)
  ultimately show ?thesis using c idle by (simp add: st sri.pending_def sri_len_inv_def)
qed

definition sri_ex :: StreamRecvInterface where
  "sri_ex = StreamRecvInterface_Receiver_Init (StreamRecvInterface_Init
     \<lparr>sri_handler_done = False, sri_job_operation = 1, sri_job_operation_data = None,
      sri_job_operation_len = 0, sri_job_done = 2, sri_job_done_len = 0, sri_state = STATE_NONE\<rparr>)"

lemma sri_ex_run:
  "if_run SRI_ops (sri_ex, []) [Ev_start (Some 64, 100), Ev_call (Call_handler_operation (Some 64) 100), Ev_done 40]
     (sri_ex\<lparr>sri_job_operation_data := Some 64, sri_job_operation_len := 100, sri_job_done_len := 40,
        sri_state := STATE_DONE_PENDING\<rparr>, [2])"
proof -
  let ?a = "sri_ex\<lparr>sri_job_operation_data := Some 64, sri_job_operation_len := 100,
      sri_state := STATE_OPERATION_PENDING\<rparr>"
  have 1: "if_step SRI_ops (sri_ex, []) (Ev_start (Some 64, 100)) (?a, [1])"
    using if_step.start [of SRI_ops sri_ex "(Some 64, 100)" "[]"]
    by (simp add: SRI_ops_def if_op_defs sri_ex_def StreamRecvInterface_Init_def
        StreamRecvInterface_Receiver_Init_def jobs_set_def)
  have 2: "if_step SRI_ops (?a, [1]) (Ev_call (Call_handler_operation (Some 64) 100)) (?a\<lparr>sri_state := STATE_BUSY\<rparr>, [])"
    using if_step.run_operation [of SRI_ops ?a "?a\<lparr>sri_state := STATE_BUSY\<rparr>" _ "[]"]
    by (simp add: SRI_ops_def if_op_defs sri_ex_def StreamRecvInterface_Init_def StreamRecvInterface_Receiver_Init_def)
  have 3: "if_step SRI_ops (?a\<lparr>sri_state := STATE_BUSY\<rparr>, []) (Ev_done 40)
      (?a\<lparr>sri_job_done_len := 40, sri_state := STATE_DONE_PENDING\<rparr>, [2])"
    using if_step.fin [of SRI_ops "?a\<lparr>sri_state := STATE_BUSY\<rparr>" 40 "[]"]
    by (simp add: SRI_ops_def if_op_defs sri_ex_def StreamRecvInterface_Init_def
        StreamRecvInterface_Receiver_Init_def jobs_set_def)
  show ?thesis using if_run.run_step [OF if_run.run_step [OF if_run.run_step [OF if_run.run_refl 1] 2] 3]
    by (simp add: sri_ex_def StreamRecvInterface_Init_def StreamRecvInterface_Receiver_Init_def)
qed

end
