(* ===== verification/Packet_Buffer.thy ===== *)
theory Packet_Buffer
  imports Chunk_Buffer Flow_Interface
begin

text \<open>
  \<^verbatim>\<open>flow/PacketBuffer.c\<close> and \<^verbatim>\<open>flow/SinglePacketBuffer.c\<close>: the two objects that receive packets from a
  \<^verbatim>\<open>PacketRecvInterface\<close> into a buffer of their own and send them on through a \<^verbatim>\<open>PacketPassInterface\<close>.
  \<^verbatim>\<open>PacketBuffer\<close> keeps several packets in a \<^verbatim>\<open>ChunkBuffer2\<close>; its correctness rests on the contract
  \<open>packet_fifo\<close> of that ring, through the interpretation \<open>cbq\<close>.

  A handler returns the interface calls it makes. The environment of an object is explicit: the store,
  the operations outstanding at its two interfaces, and the packets that went in and came out. A step
  is the completion of an outstanding receive or send.
\<close>

section \<open>PacketBuffer (flow/PacketBuffer.c)\<close>

record PacketBuffer =
  pb_input_mtu :: int
  pb_buf :: ChunkBuffer2

definition PacketBuffer_input_handler_done ::
    "mem \<Rightarrow> PacketBuffer \<Rightarrow> int \<Rightarrow> mem \<times> PacketBuffer \<times> flow_call list" where
  "PacketBuffer_input_handler_done m buf in_len =
     (let was_empty = cb_output_avail (pb_buf buf) < 0;
          (m', b) = ChunkBuffer2_SubmitPacket m (pb_buf buf) in_len;
          buf' = buf\<lparr>pb_buf := b\<rparr>
      in (m', buf',
          (if cb_input_avail b \<ge> pb_input_mtu buf' then [Recv_Packet (cb_input_dest b)] else []) @
          (if was_empty then [Send_Packet (cb_output_dest b) (cb_output_avail b)] else [])))"

definition PacketBuffer_output_handler_done ::
    "mem \<Rightarrow> PacketBuffer \<Rightarrow> PacketBuffer \<times> flow_call list" where
  "PacketBuffer_output_handler_done m buf =
     (let was_full = cb_input_avail (pb_buf buf) < pb_input_mtu buf;
          b = ChunkBuffer2_ConsumePacket m (pb_buf buf);
          buf' = buf\<lparr>pb_buf := b\<rparr>
      in (buf',
          (if was_full \<and> cb_input_avail b \<ge> pb_input_mtu buf' then [Recv_Packet (cb_input_dest b)] else []) @
          (if cb_output_avail b \<ge> 0 then [Send_Packet (cb_output_dest b) (cb_output_avail b)] else [])))"

text \<open>The result is nothing when the buffer size overflows or the allocation fails.\<close>

definition PacketBuffer_Init ::
    "mem \<Rightarrow> ('w::len word \<Rightarrow> ptr option) \<Rightarrow> int \<Rightarrow> int \<Rightarrow> (PacketBuffer \<times> flow_call list) option" where
  "PacketBuffer_Init m malloc input_mtu num_packets =
     (let num_blocks = ChunkBuffer2_calc_blocks input_mtu num_packets in
      if num_blocks < 0 then None
      else case BAllocArray malloc (word_of_int num_blocks) 4 of
        None \<Rightarrow> None
      | Some buf_data \<Rightarrow>
          let b = ChunkBuffer2_Init m buf_data num_blocks input_mtu
          in Some (\<lparr>pb_input_mtu = input_mtu, pb_buf = b\<rparr>, [Recv_Packet (cb_input_dest b)]))"

section \<open>SinglePacketBuffer (flow/SinglePacketBuffer.c)\<close>

record SinglePacketBuffer =
  spb_buf :: ptr

definition SinglePacketBuffer_input_handler_done :: "SinglePacketBuffer \<Rightarrow> int \<Rightarrow> flow_call list" where
  "SinglePacketBuffer_input_handler_done b in_len = [Send_Packet (Some (spb_buf b)) in_len]"

definition SinglePacketBuffer_output_handler_done :: "SinglePacketBuffer \<Rightarrow> flow_call list" where
  "SinglePacketBuffer_output_handler_done b = [Recv_Packet (Some (spb_buf b))]"

definition SinglePacketBuffer_Init ::
    "('w::len word \<Rightarrow> ptr option) \<Rightarrow> int \<Rightarrow> (SinglePacketBuffer \<times> flow_call list) option" where
  "SinglePacketBuffer_Init malloc input_mtu =
     (case BAlloc malloc (word_of_int input_mtu) of
        None \<Rightarrow> None
      | Some p \<Rightarrow> Some (\<lparr>spb_buf = p\<rparr>, [Recv_Packet (Some p)]))"

section \<open>The environment of a buffer\<close>

record 'o pump =
  pw_mem :: mem
  pw_obj :: 'o
  pw_env :: flow_env
  pw_received :: "byte list list"
  pw_sent :: "byte list list"

text \<open>The outstanding receive completes with \<open>data\<close>; the outstanding send completes, and what its
  taker saw is read from the store. Nothing as result: no such operation is outstanding, or a call of
  the handler breaks an assertion of its interface.\<close>

definition pump_receive ::
    "(mem \<Rightarrow> 'o \<Rightarrow> int \<Rightarrow> mem \<times> 'o \<times> flow_call list) \<Rightarrow> byte list \<Rightarrow> 'o pump \<Rightarrow> 'o pump option" where
  "pump_receive handler data w =
     (case fe_recv_packet (pw_env w) of
        Some (Some d) \<Rightarrow>
          (case handler (wr (pw_mem w) d data) (pw_obj w) (int (length data)) of (m, ob, calls) \<Rightarrow>
             (case issues calls ((pw_env w)\<lparr>fe_recv_packet := None\<rparr>) of
                None \<Rightarrow> None
              | Some e \<Rightarrow> Some (w\<lparr>pw_mem := m, pw_obj := ob, pw_env := e, pw_received := pw_received w @ [data]\<rparr>)))
      | _ \<Rightarrow> None)"

definition pump_send ::
    "(mem \<Rightarrow> 'o \<Rightarrow> 'o \<times> flow_call list) \<Rightarrow> 'o pump \<Rightarrow> 'o pump option" where
  "pump_send handler w =
     (case fe_send_packet (pw_env w) of
        Some (Some q, n) \<Rightarrow>
          (case handler (pw_mem w) (pw_obj w) of (ob, calls) \<Rightarrow>
             (case issues calls ((pw_env w)\<lparr>fe_send_packet := None\<rparr>) of
                None \<Rightarrow> None
              | Some e \<Rightarrow> Some (w\<lparr>pw_obj := ob, pw_env := e, pw_sent := pw_sent w @ [rd (pw_mem w) q (nat n)]\<rparr>)))
      | _ \<Rightarrow> None)"

inductive pump_reach ::
    "(mem \<Rightarrow> 'o \<Rightarrow> int \<Rightarrow> mem \<times> 'o \<times> flow_call list) \<Rightarrow> (mem \<Rightarrow> 'o \<Rightarrow> 'o \<times> flow_call list) \<Rightarrow>
     int \<Rightarrow> 'o pump \<Rightarrow> 'o pump \<Rightarrow> bool" for hin hout mtu w0 where
  start: "pump_reach hin hout mtu w0 w0"
| receive: "pump_reach hin hout mtu w0 w \<Longrightarrow> int (length data) \<le> mtu \<Longrightarrow> pump_receive hin data w = Some w' \<Longrightarrow>
    pump_reach hin hout mtu w0 w'"
| send: "pump_reach hin hout mtu w0 w \<Longrightarrow> pump_send hout w = Some w' \<Longrightarrow> pump_reach hin hout mtu w0 w'"

text \<open>The object right after its initialisation, with the calls of the initialisation issued.\<close>

definition pump_init :: "mem \<Rightarrow> ('o \<times> flow_call list) option \<Rightarrow> 'o pump option" where
  "pump_init m r = (case r of None \<Rightarrow> None
     | Some (ob, calls) \<Rightarrow> (case issues calls fe_idle of None \<Rightarrow> None
         | Some e \<Rightarrow> Some \<lparr>pw_mem = m, pw_obj = ob, pw_env = e, pw_received = [], pw_sent = []\<rparr>))"

section \<open>The invariant of PacketBuffer\<close>

definition pb_inv :: "PacketBuffer pump \<Rightarrow> byte list list \<Rightarrow> bool" where
  "pb_inv w ps \<longleftrightarrow> (let b = pb_buf (pw_obj w); mtu = pb_input_mtu (pw_obj w); e = pw_env w in
     cb_inv (pw_mem w) b \<and> cb_rep (pw_mem w) b ps \<and> 0 \<le> mtu \<and> cb_mtu b = bdivide_up mtu 4 \<and>
     pw_received w = pw_sent w @ ps \<and> (\<forall>p \<in> set ps. int (length p) \<le> mtu) \<and>
     fe_recv_packet e = (if mtu \<le> cb_input_avail b then Some (cb_input_dest b) else None) \<and>
     fe_send_packet e = (if ps = [] then None else Some (cb_output_dest b, cb_output_avail b)))"

lemma pb_mtu_le: "bdivide_up mtu 4 = k \<Longrightarrow> mtu \<le> 4 * k"
  using bdivide_up_bounds(1) [of 4 mtu] by simp

text \<open>Both handlers end by starting the operations their buffer is ready for.\<close>

lemma pb_issue_recv_send:
  assumes "fe_recv_packet e = None" "fe_send_packet e = None" "0 \<le> n" "d \<noteq> None"
  shows "issues ((if r then [Recv_Packet a] else []) @ (if s then [Send_Packet d n] else [])) e =
    Some (e\<lparr>fe_recv_packet := if r then Some a else None, fe_send_packet := if s then Some (d, n) else None\<rparr>)"
  using assms by auto

lemma pb_receive:
  assumes inv: "pb_inv w ps" and recv: "fe_recv_packet (pw_env w) \<noteq> None"
    and len: "int (length data) \<le> pb_input_mtu (pw_obj w)"
  shows "\<exists>w'. pump_receive PacketBuffer_input_handler_done data w = Some w' \<and> pb_inv w' (ps @ [data]) \<and>
    pb_input_mtu (pw_obj w') = pb_input_mtu (pw_obj w) \<and> pw_sent w' = pw_sent w"
proof -
  let ?b = "pb_buf (pw_obj w)" and ?mtu = "pb_input_mtu (pw_obj w)" and ?m = "pw_mem w"
  have i: "cb_inv ?m ?b" "cb_rep ?m ?b ps" "0 \<le> ?mtu" "cb_mtu ?b = bdivide_up ?mtu 4"
    and av: "?mtu \<le> cb_input_avail ?b" and rd: "fe_recv_packet (pw_env w) = Some (cb_input_dest ?b)"
    and se: "fe_send_packet (pw_env w) = (if ps = [] then None else Some (cb_output_dest ?b, cb_output_avail ?b))"
    using inv recv by (auto simp: pb_inv_def Let_def split: if_splits)
  obtain d where d: "cb_input_dest ?b = Some d" using cbq.open_law [OF i(1)] i(3) av by auto
  have fit: "int (length data) \<le> cb_input_avail ?b" using len av by simp
  obtain m' b' where s: "ChunkBuffer2_SubmitPacket (wr ?m d data) ?b (int (length data)) = (m', b')"
    by (cases "ChunkBuffer2_SubmitPacket (wr ?m d data) ?b (int (length data))")
  note new = cbq.submit_law [OF i(1,2) d fit s]
  obtain q where q: "cb_output_dest b' = Some q" "0 \<le> cb_output_avail b'"
    using cbq.submit_head [OF i(1,2) d fit s] by auto
  have keep: "ps \<noteq> [] \<Longrightarrow> cb_output_dest b' = cb_output_dest ?b \<and> cb_output_avail b' = cb_output_avail ?b"
    using submit_keeps_output [OF i(1,2) d fit s] by simp
  have e: "cb_output_avail ?b < 0 \<longleftrightarrow> ps = []" by (rule cbq.empty_law [OF i(1,2)])
  let ?calls = "(if cb_input_avail b' \<ge> ?mtu then [Recv_Packet (cb_input_dest b')] else []) @
    (if cb_output_avail ?b < 0 then [Send_Packet (cb_output_dest b') (cb_output_avail b')] else [])"
  have calls: "issues ?calls ((pw_env w)\<lparr>fe_recv_packet := None\<rparr>) =
    Some ((pw_env w)\<lparr>fe_recv_packet := (if cb_input_avail b' \<ge> ?mtu then Some (cb_input_dest b') else None),
      fe_send_packet := Some (cb_output_dest b', cb_output_avail b')\<rparr>)"
    using q se keep e by (auto simp: e)
  have h: "PacketBuffer_input_handler_done (wr ?m d data) (pw_obj w) (int (length data)) =
    (m', (pw_obj w)\<lparr>pb_buf := b'\<rparr>, ?calls)"
    using s by (simp add: PacketBuffer_input_handler_done_def Let_def)
  define w' where "w' = w\<lparr>pw_mem := m', pw_obj := (pw_obj w)\<lparr>pb_buf := b'\<rparr>,
    pw_env := (pw_env w)\<lparr>fe_recv_packet := (if cb_input_avail b' \<ge> ?mtu then Some (cb_input_dest b') else None),
      fe_send_packet := Some (cb_output_dest b', cb_output_avail b')\<rparr>, pw_received := pw_received w @ [data]\<rparr>"
  have "pump_receive PacketBuffer_input_handler_done data w = Some w'"
    using rd d h calls by (simp add: pump_receive_def w'_def)
  moreover have "pb_inv w' (ps @ [data])"
    using new i len inv by (auto simp: pb_inv_def Let_def w'_def)
  ultimately show ?thesis by (auto simp: w'_def)
qed

lemma pb_send:
  assumes inv: "pb_inv w (p # ps)"
  shows "\<exists>w'. pump_send PacketBuffer_output_handler_done w = Some w' \<and> pb_inv w' ps \<and>
    pb_input_mtu (pw_obj w') = pb_input_mtu (pw_obj w) \<and> pw_sent w' = pw_sent w @ [p]"
proof -
  let ?b = "pb_buf (pw_obj w)" and ?mtu = "pb_input_mtu (pw_obj w)" and ?m = "pw_mem w"
  let ?b' = "ChunkBuffer2_ConsumePacket ?m ?b"
  have i: "cb_inv ?m ?b" "cb_rep ?m ?b (p # ps)" "0 \<le> ?mtu" "cb_mtu ?b = bdivide_up ?mtu 4"
    and re: "fe_recv_packet (pw_env w) = (if ?mtu \<le> cb_input_avail ?b then Some (cb_input_dest ?b) else None)"
    and se: "fe_send_packet (pw_env w) = Some (cb_output_dest ?b, cb_output_avail ?b)"
    using inv by (simp_all add: pb_inv_def Let_def)
  obtain q where q: "cb_output_dest ?b = Some q" "rd ?m q (length p) = p" "cb_output_avail ?b = int (length p)"
    using cbq.head_law [OF i(1,2)] by auto
  note new = cbq.consume_law [OF i(1,2)]
  have out: "0 \<le> cb_output_avail ?b' \<longleftrightarrow> ps \<noteq> []" using cbq.empty_law [of ?m ?b' ps] new by auto
  have out2: "ps \<noteq> [] \<Longrightarrow> \<exists>q'. cb_output_dest ?b' = Some q'"
    using cbq.head_law [of ?m ?b' "hd ps" "tl ps"] new by auto
  have stable: "?mtu \<le> cb_input_avail ?b \<Longrightarrow>
      cb_input_dest ?b' = cb_input_dest ?b \<and> ?mtu \<le> cb_input_avail ?b'"
    using cbq.open_law [OF i(1)] cbq.stable_law [OF i(1,2)] i(3) by force
  let ?calls = "(if cb_input_avail ?b < ?mtu \<and> cb_input_avail ?b' \<ge> ?mtu then [Recv_Packet (cb_input_dest ?b')] else []) @
    (if cb_output_avail ?b' \<ge> 0 then [Send_Packet (cb_output_dest ?b') (cb_output_avail ?b')] else [])"
  let ?e = "(pw_env w)\<lparr>fe_recv_packet := (if cb_input_avail ?b' \<ge> ?mtu then Some (cb_input_dest ?b') else None),
      fe_send_packet := (if ps = [] then None else Some (cb_output_dest ?b', cb_output_avail ?b'))\<rparr>"
  have calls: "issues ?calls ((pw_env w)\<lparr>fe_send_packet := None\<rparr>) = Some ?e"
    using re out out2 stable by auto
  have h: "PacketBuffer_output_handler_done ?m (pw_obj w) = ((pw_obj w)\<lparr>pb_buf := ?b'\<rparr>, ?calls)"
    by (simp add: PacketBuffer_output_handler_done_def Let_def)
  define w' where "w' = w\<lparr>pw_obj := (pw_obj w)\<lparr>pb_buf := ?b'\<rparr>, pw_env := ?e, pw_sent := pw_sent w @ [p]\<rparr>"
  have "pump_send PacketBuffer_output_handler_done w = Some w'"
    using se q h calls by (simp add: pump_send_def w'_def)
  moreover have "pb_inv w' ps"
    using new i inv by (auto simp: pb_inv_def Let_def w'_def)
  ultimately show ?thesis by (auto simp: w'_def)
qed

lemma pump_send_outstanding: "pump_send h w = Some w' \<Longrightarrow> fe_send_packet (pw_env w) \<noteq> None"
  by (auto simp: pump_send_def split: option.splits)

lemma pump_receive_outstanding: "pump_receive h data w = Some w' \<Longrightarrow> fe_recv_packet (pw_env w) \<noteq> None"
  by (auto simp: pump_receive_def split: option.splits)

lemma pb_inv_start:
  assumes m: "0 \<le> mtu" "0 < num" "ChunkBuffer2_calc_blocks mtu num \<le> 536870912"
    and w0: "pump_init m (PacketBuffer_Init m malloc mtu num) = Some w0"
  shows "pb_inv w0 []" "pb_input_mtu (pw_obj w0) = mtu" "pw_sent w0 = []"
    "cb_size (pb_buf (pw_obj w0)) = ChunkBuffer2_calc_blocks mtu num"
proof -
  let ?n = "ChunkBuffer2_calc_blocks mtu num"
  have n: "0 \<le> ?n" using w0 by (auto simp: pump_init_def PacketBuffer_Init_def Let_def split: if_splits)
  then have n': "?n = (1 + bdivide_up mtu 4) * (num + 1)" using calc_blocks_exact(1) [of mtu num] m by auto
  have "bdivide_up mtu 4 < ?n"
  proof -
    have "1 + bdivide_up mtu 4 \<le> (1 + bdivide_up mtu 4) * (num + 1)"
    proof -
      have "0 \<le> 1 + bdivide_up mtu 4" using bdivide_up_nonneg [of mtu 4] m(1) by linarith
      then show ?thesis using m by (simp add: mult_le_cancel_left1 not_less)
    qed
    then show ?thesis using n' by simp
  qed
  obtain p where w: "w0 = \<lparr>pw_mem = m, pw_obj = \<lparr>pb_input_mtu = mtu, pb_buf = ChunkBuffer2_Init m p ?n mtu\<rparr>,
      pw_env = fe_idle\<lparr>fe_recv_packet := Some (cb_input_dest (ChunkBuffer2_Init m p ?n mtu))\<rparr>,
      pw_received = [], pw_sent = []\<rparr>"
    using w0 by (auto simp: pump_init_def PacketBuffer_Init_def Let_def fe_idle_def split: if_splits option.splits)
  note b = init_rep_inv [OF m(1) \<open>bdivide_up mtu 4 < ?n\<close> m(3) refl, of m p]
  have "mtu \<le> cb_input_avail (ChunkBuffer2_Init m p ?n mtu)"
    using cbq.room_law [OF b(2,1)] b(3) pb_mtu_le [of mtu] by force
  with b m w show "pb_inv w0 []" "pb_input_mtu (pw_obj w0) = mtu" "pw_sent w0 = []"
    "cb_size (pb_buf (pw_obj w0)) = ?n"
    by (simp_all add: pb_inv_def Let_def fe_idle_def)
qed

definition pb_reach :: "mem \<Rightarrow> ('w::len word \<Rightarrow> ptr option) \<Rightarrow> int \<Rightarrow> int \<Rightarrow> PacketBuffer pump \<Rightarrow> bool" where
  "pb_reach m malloc mtu num w \<longleftrightarrow> (\<exists>w0. pump_init m (PacketBuffer_Init m malloc mtu num) = Some w0 \<and>
     pump_reach PacketBuffer_input_handler_done PacketBuffer_output_handler_done mtu w0 w)"

lemma pump_receive_size:
  "pump_receive PacketBuffer_input_handler_done data w = Some w' \<Longrightarrow>
   cb_size (pb_buf (pw_obj w')) = cb_size (pb_buf (pw_obj w))"
  by (auto simp: pump_receive_def PacketBuffer_input_handler_done_def Let_def split: option.splits prod.splits
      dest: submit_mtu)

lemma pump_send_size:
  "pump_send PacketBuffer_output_handler_done w = Some w' \<Longrightarrow>
   cb_size (pb_buf (pw_obj w')) = cb_size (pb_buf (pw_obj w))"
  by (auto simp: pump_send_def PacketBuffer_output_handler_done_def Let_def consume_mtu split: option.splits prod.splits)

lemma pb_reach_inv:
  assumes "pb_reach m malloc mtu num w" "0 \<le> mtu" "0 < num" "ChunkBuffer2_calc_blocks mtu num \<le> 536870912"
  shows "\<exists>ps. pb_inv w ps \<and> pb_input_mtu (pw_obj w) = mtu \<and>
    cb_size (pb_buf (pw_obj w)) = ChunkBuffer2_calc_blocks mtu num"
proof -
  obtain w0 where w0: "pump_init m (PacketBuffer_Init m malloc mtu num) = Some w0"
    and r: "pump_reach PacketBuffer_input_handler_done PacketBuffer_output_handler_done mtu w0 w"
    using assms(1) by (auto simp: pb_reach_def)
  show ?thesis using r
  proof induction
    case start
    show ?case using pb_inv_start [OF assms(2-4) w0] by blast
  next
    case (receive w data w')
    then obtain ps where "pb_inv w ps" "pb_input_mtu (pw_obj w) = mtu" by blast
    with pb_receive [of w ps data] pump_receive_outstanding pump_receive_size receive show ?case
      by fastforce
  next
    case (send w w')
    then obtain ps where ps: "pb_inv w ps" "pb_input_mtu (pw_obj w) = mtu" by blast
    have "ps \<noteq> []" using pump_send_outstanding [OF send(2)] ps by (auto simp: pb_inv_def Let_def)
    then obtain p qs where "ps = p # qs" by (cases ps) auto
    with pb_send [of w p qs] ps send pump_send_size show ?case by fastforce
  qed
qed

section \<open>The invariant of SinglePacketBuffer\<close>

definition spb_in :: "mem \<Rightarrow> SinglePacketBuffer \<Rightarrow> int \<Rightarrow> mem \<times> SinglePacketBuffer \<times> flow_call list" where
  "spb_in m b n = (m, b, SinglePacketBuffer_input_handler_done b n)"

definition spb_out :: "mem \<Rightarrow> SinglePacketBuffer \<Rightarrow> SinglePacketBuffer \<times> flow_call list" where
  "spb_out m b = (b, SinglePacketBuffer_output_handler_done b)"

lemmas spb_defs = spb_in_def spb_out_def SinglePacketBuffer_input_handler_done_def
  SinglePacketBuffer_output_handler_done_def

text \<open>Either the buffer waits for a packet, or it holds the one packet that is being sent.\<close>

definition spb_inv :: "SinglePacketBuffer pump \<Rightarrow> bool" where
  "spb_inv w \<longleftrightarrow> (let p = spb_buf (pw_obj w); e = pw_env w in
     (fe_recv_packet e = Some (Some p) \<and> fe_send_packet e = None \<and> pw_received w = pw_sent w) \<or>
     (\<exists>x. fe_recv_packet e = None \<and> fe_send_packet e = Some (Some p, int (length x)) \<and>
        rd (pw_mem w) p (length x) = x \<and> pw_received w = pw_sent w @ [x]))"

lemma spb_receive:
  assumes "spb_inv w" "fe_recv_packet (pw_env w) \<noteq> None"
  shows "\<exists>w'. pump_receive spb_in data w = Some w' \<and> spb_inv w'"
  using assms by (auto simp: spb_inv_def Let_def pump_receive_def spb_defs mem_simps)

lemma spb_send:
  assumes "spb_inv w" "fe_send_packet (pw_env w) \<noteq> None"
  shows "\<exists>w'. pump_send spb_out w = Some w' \<and> spb_inv w'"
  using assms by (auto simp: spb_inv_def Let_def pump_send_def spb_defs)

lemma spb_reach_inv:
  assumes "pump_reach spb_in spb_out mtu w0 w" "spb_inv w0"
  shows "spb_inv w"
  using assms
proof induction
  case (receive w data w')
  then show ?case using spb_receive [of w data] pump_receive_outstanding by fastforce
next
  case (send w w')
  then show ?case using spb_send [of w] pump_send_outstanding by fastforce
qed

section \<open>Properties\<close>

text \<open>A \<^verbatim>\<open>PacketBuffer\<close> never stalls and never breaks the protocol of its interfaces: in every
  reachable state a receive or a send is outstanding, every completion of an outstanding operation
  is handled, and the calls the handler makes then satisfy the assertions of the interfaces (no second
  receive or send is started while one is outstanding).\<close>

lemma PacketBuffer_never_stalls:
  assumes "pb_reach m malloc mtu num w" "0 \<le> mtu" "0 < num" "ChunkBuffer2_calc_blocks mtu num \<le> 536870912"
  shows "(fe_recv_packet (pw_env w) \<noteq> None \<or> fe_send_packet (pw_env w) \<noteq> None) \<and>
    (fe_recv_packet (pw_env w) \<noteq> None \<and> int (length data) \<le> mtu \<longrightarrow>
       pump_receive PacketBuffer_input_handler_done data w \<noteq> None) \<and>
    (fe_send_packet (pw_env w) \<noteq> None \<longrightarrow> pump_send PacketBuffer_output_handler_done w \<noteq> None)"
proof -
  let ?b = "pb_buf (pw_obj w)"
  obtain ps where ps: "pb_inv w ps" "pb_input_mtu (pw_obj w) = mtu" using pb_reach_inv [OF assms] by blast
  then have i: "cb_inv (pw_mem w) ?b" "cb_rep (pw_mem w) ?b ps" "mtu \<le> 4 * cb_mtu ?b"
    using pb_mtu_le [of mtu] by (auto simp: pb_inv_def Let_def)
  have "fe_recv_packet (pw_env w) \<noteq> None \<or> fe_send_packet (pw_env w) \<noteq> None"
    using cbq.room_or_data [OF i(1,2)] cbq.empty_law [OF i(1,2)] i(3) ps
    by (auto simp: pb_inv_def Let_def)
  moreover have "fe_send_packet (pw_env w) \<noteq> None \<longrightarrow> pump_send PacketBuffer_output_handler_done w \<noteq> None"
    using pb_send [of w "hd ps" "tl ps"] ps(1) by (cases ps) (auto simp: pb_inv_def Let_def)
  ultimately show ?thesis using pb_receive [OF ps(1), of data] ps(2) by blast
qed

text \<open>Claim C16. A \<^verbatim>\<open>PacketBuffer\<close> delivers every packet it received exactly once, unchanged and in order,
  whatever the interleaving of receive and send completions: in every reachable state the packets
  received are the packets sent followed by the contents of the ring. A send is outstanding exactly if
  the ring is not empty, and receiving pauses only while at least the configured number of packets is
  stored. Some operation is always outstanding, every completion of an outstanding operation is handled, and the calls made then keep the
  assertions of the interfaces: no receive or send is started while one is outstanding.\<close>

theorem PacketBuffer_fifo_no_loss:
  assumes "pb_reach m malloc mtu num w" "0 \<le> mtu" "0 < num" "ChunkBuffer2_calc_blocks mtu num \<le> 536870912"
  shows "(\<exists>ps. pw_received w = pw_sent w @ ps \<and> cb_rep (pw_mem w) (pb_buf (pw_obj w)) ps \<and>
      (fe_send_packet (pw_env w) \<noteq> None \<longleftrightarrow> ps \<noteq> []) \<and>
      (fe_recv_packet (pw_env w) = None \<longrightarrow> num \<le> int (length ps))) \<and>
    (fe_recv_packet (pw_env w) \<noteq> None \<or> fe_send_packet (pw_env w) \<noteq> None) \<and>
    (\<forall>data. fe_recv_packet (pw_env w) \<noteq> None \<and> int (length data) \<le> mtu \<longrightarrow>
       pump_receive PacketBuffer_input_handler_done data w \<noteq> None) \<and>
    (fe_send_packet (pw_env w) \<noteq> None \<longrightarrow> pump_send PacketBuffer_output_handler_done w \<noteq> None)"
proof -
  let ?b = "pb_buf (pw_obj w)"
  obtain ps where ps: "pb_inv w ps" "pb_input_mtu (pw_obj w) = mtu"
    "cb_size ?b = ChunkBuffer2_calc_blocks mtu num"
    using pb_reach_inv [OF assms] by blast
  then have i: "cb_inv (pw_mem w) ?b" "cb_rep (pw_mem w) ?b ps" "bdivide_up mtu 4 = cb_mtu ?b"
    "\<And>p. p \<in> set ps \<Longrightarrow> int (length p) \<le> mtu"
    "fe_recv_packet (pw_env w) = None \<Longrightarrow> cb_input_avail ?b < mtu"
    by (auto simp: pb_inv_def Let_def split: if_splits)
  have "ChunkBuffer2_calc_blocks mtu num \<noteq> - 1"
    using i(1) ps(3) by (auto simp: cb_inv_def ChunkBuffer2_assert_buffer_def)
  then have "(1 + cb_mtu ?b) * (num + 1) \<le> cb_size ?b"
    using calc_blocks_exact(1) [of mtu num] assms(2,3) i(3) ps(3) by simp
  from cb_full_count [OF i(1,2,4,3) this] i(5)
  have "fe_recv_packet (pw_env w) = None \<Longrightarrow> num \<le> int (length ps)" by blast
  with ps(1) i(2) have "\<exists>ps. pw_received w = pw_sent w @ ps \<and> cb_rep (pw_mem w) ?b ps \<and>
      (fe_send_packet (pw_env w) \<noteq> None \<longleftrightarrow> ps \<noteq> []) \<and> (fe_recv_packet (pw_env w) = None \<longrightarrow> num \<le> int (length ps))"
    by (intro exI [of _ ps]) (simp add: pb_inv_def Let_def)
  with PacketBuffer_never_stalls [OF assms] show ?thesis by blast
qed

definition pb_ex :: "PacketBuffer pump" where
  "pb_ex = \<lparr>pw_mem = (\<lambda>_. 0), pw_obj = \<lparr>pb_input_mtu = 20, pb_buf = cb_ex\<rparr>,
     pw_env = fe_idle\<lparr>fe_recv_packet := Some (Some 4)\<rparr>, pw_received = [], pw_sent = []\<rparr>"

lemma pb_ex_init:
  "pump_init (\<lambda>_. 0) (PacketBuffer_Init (\<lambda>_. 0) (\<lambda>_ :: u32. Some 0) 20 1) = Some pb_ex"
proof -
  have "ChunkBuffer2_calc_blocks 20 1 = 12" by (simp add: ChunkBuffer2_calc_blocks_def bdivide_up_def INT_MAX_def)
  moreover have "BAllocArray (\<lambda>_ :: u32. Some 0) 12 4 = Some 0" by (simp add: BAllocArray_def BAlloc_def)
  ultimately show ?thesis
    using cb_ex_input(1)
    by (simp add: pump_init_def PacketBuffer_Init_def pb_ex_def fe_idle_def cb_ex_def [symmetric])
qed

lemma pb_ex_reach: "pb_reach (\<lambda>_. 0) (\<lambda>_ :: u32. Some 0) 20 1 pb_ex"
  using pb_ex_init pump_reach.start by (auto simp: pb_reach_def)

lemma pb_ex_blocks: "ChunkBuffer2_calc_blocks 20 1 \<le> 536870912"
  by (simp add: ChunkBuffer2_calc_blocks_def bdivide_up_def INT_MAX_def)

theorem PacketBuffer_fifo_no_loss_witness:
  "\<exists>w. pb_reach (\<lambda>_. 0) (\<lambda>_ :: u32. Some 0) 20 1 w \<and> pw_received w = [[1, 2, 3]] \<and> fe_send_packet (pw_env w) \<noteq> None \<and>
     pump_send PacketBuffer_output_handler_done w \<noteq> None"
proof -
  have "pump_receive PacketBuffer_input_handler_done [1, 2, 3] pb_ex \<noteq> None"
    using PacketBuffer_fifo_no_loss [OF pb_ex_reach _ _ pb_ex_blocks] by (simp add: pb_ex_def fe_idle_def)
  then obtain w where w: "pump_receive PacketBuffer_input_handler_done [1, 2, 3] pb_ex = Some w" by auto
  have r: "pb_reach (\<lambda>_. 0) (\<lambda>_ :: u32. Some 0) 20 1 w"
    using pb_ex_init pump_reach.receive [OF pump_reach.start, of "[1, 2, 3]" 20 _ pb_ex w] w by (auto simp: pb_reach_def)
  have rec: "pw_received w = [[1, 2, 3]]" "pw_sent w = []"
    using w by (auto simp: pump_receive_def pb_ex_def split: option.splits prod.splits)
  obtain ps where ps: "pw_received w = pw_sent w @ ps" "fe_send_packet (pw_env w) \<noteq> None \<longleftrightarrow> ps \<noteq> []"
    "fe_send_packet (pw_env w) \<noteq> None \<longrightarrow> pump_send PacketBuffer_output_handler_done w \<noteq> None"
    using PacketBuffer_fifo_no_loss [OF r _ _ pb_ex_blocks] by auto
  then show ?thesis using r rec by auto
qed

text \<open>A \<^verbatim>\<open>SinglePacketBuffer\<close> alternates strictly: in every reachable state exactly one of its
  two interfaces has an operation outstanding, the packets received are those sent plus at most the one
  being sent, which lies unchanged in the buffer, and every completion is handled without breaking an
  assertion.\<close>

lemma SinglePacketBuffer_alternates:
  assumes "pump_init m (SinglePacketBuffer_Init malloc mtu) = Some w0" "pump_reach spb_in spb_out mtu w0 w"
  shows "(fe_recv_packet (pw_env w) \<noteq> None \<longleftrightarrow> fe_send_packet (pw_env w) = None) \<and>
    (\<exists>ps. length ps \<le> 1 \<and> pw_received w = pw_sent w @ ps) \<and>
    (fe_recv_packet (pw_env w) \<noteq> None \<longrightarrow> pump_receive spb_in data w \<noteq> None) \<and>
    (fe_send_packet (pw_env w) \<noteq> None \<longrightarrow> pump_send spb_out w \<noteq> None)"
proof -
  have "spb_inv w0" using assms(1)
    by (auto simp: pump_init_def SinglePacketBuffer_Init_def fe_idle_def spb_inv_def Let_def split: option.splits)
  then have i: "spb_inv w" by (rule spb_reach_inv [OF assms(2)])
  then have "(fe_recv_packet (pw_env w) \<noteq> None \<longleftrightarrow> fe_send_packet (pw_env w) = None) \<and>
    (\<exists>ps. length ps \<le> 1 \<and> pw_received w = pw_sent w @ ps)"
    by (auto simp: spb_inv_def Let_def)
  with spb_receive [OF i, of data] spb_send [OF i] show ?thesis by blast
qed

end
