(* ===== verification/Packet_Proto.thy ===== *)
theory Packet_Proto
  imports Flow_Interface Misc_Size "HOL-Library.Sublist"
begin

text \<open>
  \<^verbatim>\<open>flow/PacketProtoEncoder.c\<close> and \<^verbatim>\<open>flow/PacketProtoDecoder.c\<close>: packets over a byte stream, each one
  preceded by its length as a 16-bit little-endian number (\<^verbatim>\<open>protocol/packetproto.h\<close>). The decoder works
  in place in one buffer of the size of the largest encoded packet and hands out pointers into it.

  The reference is the pure function \<open>pp_decode\<close> on the bytes of the stream. The theorems say that the
  decoder computes it under every division of the stream into chunks and every timing of its output,
  and that it inverts the encoder.
\<close>

section \<open>The format (protocol/packetproto.h)\<close>

definition PACKETPROTO_MAXPAYLOAD :: int where
  "PACKETPROTO_MAXPAYLOAD = 65535"

definition PACKETPROTO_ENCLEN :: "int \<Rightarrow> int" where
  "PACKETPROTO_ENCLEN len = 2 + len"

definition pp_encode :: "byte list \<Rightarrow> byte list" where
  "pp_encode p = le16 (of_nat (length p)) @ p"

definition pp_stream :: "byte list list \<Rightarrow> byte list" where
  "pp_stream ps = concat (map pp_encode ps)"

text \<open>The packets a stream starts with, and what follows them: an incomplete packet, or nothing when
  a length exceeds the limit.\<close>

function pp_decode :: "int \<Rightarrow> byte list \<Rightarrow> byte list list \<times> byte list option" where
  "pp_decode mtu bs =
     (if length bs < 2 then ([], Some bs)
      else let n = unat (of_le16 bs) in
        if int n > mtu then ([], None)
        else if length bs < 2 + n then ([], Some bs)
        else let r = pp_decode mtu (drop (2 + n) bs) in (take n (drop 2 bs) # fst r, snd r))"
  by auto
termination by (relation "measure (\<lambda>(_, bs). length bs)") auto

declare pp_decode.simps [simp del]

section \<open>PacketProtoEncoder (flow/PacketProtoEncoder.c)\<close>

record PacketProtoEncoder =
  ppe_output_packet :: "ptr option"

definition PacketProtoEncoder_output_handler_recv ::
    "PacketProtoEncoder \<Rightarrow> ptr \<Rightarrow> PacketProtoEncoder \<times> flow_call list" where
  "PacketProtoEncoder_output_handler_recv enc data =
     (let enc' = enc\<lparr>ppe_output_packet := Some data\<rparr> in (enc', [Recv_Packet (Some (data + 2))]))"

text \<open>The code asserts that there is an output packet; without one it would write through a null
  pointer, and the model does nothing.\<close>

definition PacketProtoEncoder_input_handler_done ::
    "mem \<Rightarrow> PacketProtoEncoder \<Rightarrow> int \<Rightarrow> mem \<times> PacketProtoEncoder \<times> flow_call list" where
  "PacketProtoEncoder_input_handler_done m enc in_len =
     (case ppe_output_packet enc of
        None \<Rightarrow> (m, enc, [])
      | Some p \<Rightarrow> (wr m p (le16 (word_of_int in_len)), enc\<lparr>ppe_output_packet := None\<rparr>,
                   [PacketRecv_Done (PACKETPROTO_ENCLEN in_len)]))"

text \<open>The object and the MTU of its output interface.\<close>

definition PacketProtoEncoder_Init :: "int \<Rightarrow> PacketProtoEncoder \<times> int" where
  "PacketProtoEncoder_Init input_mtu = (\<lparr>ppe_output_packet = None\<rparr>, PACKETPROTO_ENCLEN input_mtu)"

section \<open>PacketProtoDecoder (flow/PacketProtoDecoder.c)\<close>

record PacketProtoDecoder =
  ppd_output_mtu :: int
  ppd_buf_size :: int
  ppd_buf_start :: int
  ppd_buf_used :: int
  ppd_buf :: ptr

definition memmove :: "mem \<Rightarrow> ptr \<Rightarrow> ptr \<Rightarrow> nat \<Rightarrow> mem" where
  "memmove m dst src n = wr m dst (rd m src n)"

text \<open>The part behind the loop that is run at most once: make room and receive.\<close>

definition PacketProtoDecoder_receive_more ::
    "mem \<Rightarrow> PacketProtoDecoder \<Rightarrow> bool \<Rightarrow> mem \<times> PacketProtoDecoder \<times> flow_call list" where
  "PacketProtoDecoder_receive_more m enc was_error =
     (let (m', enc') =
        (if was_error then (m, enc\<lparr>ppd_buf_start := 0, ppd_buf_used := 0\<rparr>)
         else if ppd_buf_start enc + ppd_buf_used enc = ppd_buf_size enc then
           (memmove m (ppd_buf enc) (ppd_buf enc + nat (ppd_buf_start enc)) (nat (ppd_buf_used enc)),
            enc\<lparr>ppd_buf_start := 0\<rparr>)
         else (m, enc));
        off = ppd_buf_start enc' + ppd_buf_used enc'
      in (m', enc',
          [Recv_Stream (Some (ppd_buf enc' + nat off)) (ppd_buf_size enc' - off)] @
          (if was_error then [Report_error] else [])))"

definition PacketProtoDecoder_process_data ::
    "mem \<Rightarrow> PacketProtoDecoder \<Rightarrow> mem \<times> PacketProtoDecoder \<times> flow_call list" where
  "PacketProtoDecoder_process_data m enc =
     (let data = ppd_buf enc + nat (ppd_buf_start enc); left = ppd_buf_used enc in
      if left < 2 then PacketProtoDecoder_receive_more m enc False
      else
        (let header = rd m data 2; data = data + 2; left = left - 2; data_len = uint (of_le16 header) in
         if data_len > ppd_output_mtu enc then PacketProtoDecoder_receive_more m enc True
         else if left < data_len then PacketProtoDecoder_receive_more m enc False
         else (m, enc\<lparr>ppd_buf_start := ppd_buf_start enc + (2 + data_len),
                     ppd_buf_used := ppd_buf_used enc - (2 + data_len)\<rparr>,
               [Send_Packet (Some data) data_len])))"

definition PacketProtoDecoder_input_handler_done ::
    "mem \<Rightarrow> PacketProtoDecoder \<Rightarrow> int \<Rightarrow> mem \<times> PacketProtoDecoder \<times> flow_call list" where
  "PacketProtoDecoder_input_handler_done m enc data_len =
     PacketProtoDecoder_process_data m (enc\<lparr>ppd_buf_used := ppd_buf_used enc + data_len\<rparr>)"

definition PacketProtoDecoder_output_handler_done ::
    "mem \<Rightarrow> PacketProtoDecoder \<Rightarrow> mem \<times> PacketProtoDecoder \<times> flow_call list" where
  "PacketProtoDecoder_output_handler_done m enc = PacketProtoDecoder_process_data m enc"

definition PacketProtoDecoder_Init ::
    "(int \<Rightarrow> ptr option) \<Rightarrow> int \<Rightarrow> (PacketProtoDecoder \<times> flow_call list) option" where
  "PacketProtoDecoder_Init malloc output_mtu =
     (let mtu = min output_mtu PACKETPROTO_MAXPAYLOAD; size = PACKETPROTO_ENCLEN mtu in
      case malloc size of
        None \<Rightarrow> None
      | Some p \<Rightarrow> Some (\<lparr>ppd_output_mtu = mtu, ppd_buf_size = size, ppd_buf_start = 0, ppd_buf_used = 0,
          ppd_buf = p\<rparr>, [Recv_Stream (Some p) size]))"

definition PacketProtoDecoder_Reset :: "PacketProtoDecoder \<Rightarrow> PacketProtoDecoder" where
  "PacketProtoDecoder_Reset enc =
     enc\<lparr>ppd_buf_start := ppd_buf_start enc + ppd_buf_used enc, ppd_buf_used := 0\<rparr>"

section \<open>The reference decoder\<close>

lemma unat_of_nat_16: "n \<le> 65535 \<Longrightarrow> unat (of_nat n :: u16) = n"
  by (simp add: unsigned_of_nat take_bit_nat_eq_self)

lemma length_pp_encode [simp]: "length (pp_encode p) = 2 + length p"
  by (simp add: pp_encode_def)

lemma pp_stream_simps [simp]:
  "pp_stream [] = []" "pp_stream (p # ps) = pp_encode p @ pp_stream ps"
  "pp_stream (ps @ qs) = pp_stream ps @ pp_stream qs"
  by (simp_all add: pp_stream_def)

lemma pp_decode_encode:
  assumes "int (length p) \<le> mtu" "mtu \<le> 65535"
  shows "pp_decode mtu (pp_encode p @ bs) = (p # fst (pp_decode mtu bs), snd (pp_decode mtu bs))"
proof -
  have "unat (of_le16 (pp_encode p @ bs)) = length p"
    using assms by (simp add: pp_encode_def unat_of_nat_16)
  moreover have "drop (2 + length p) (pp_encode p @ bs) = bs" "take (length p) (drop 2 (pp_encode p @ bs)) = p"
    by (simp_all add: pp_encode_def)
  ultimately show ?thesis
    using assms(1) by (subst pp_decode.simps) (simp add: Let_def)
qed

lemma pp_decode_stream:
  assumes "\<forall>p \<in> set ps. int (length p) \<le> mtu" "mtu \<le> 65535"
  shows "pp_decode mtu (pp_stream ps @ bs) = (ps @ fst (pp_decode mtu bs), snd (pp_decode mtu bs))"
  using assms by (induction ps) (simp_all add: pp_decode_encode)

text \<open>A packet that was read off the stream is encoded by the bytes it was read from.\<close>

lemma pp_encode_parsed:
  assumes "2 + unat (of_le16 bs) \<le> length bs"
  shows "pp_encode (take (unat (of_le16 bs)) (drop 2 bs)) @ drop (2 + unat (of_le16 bs)) bs = bs"
proof -
  let ?n = "unat (of_le16 bs)"
  have len: "length (take ?n (drop 2 bs)) = ?n" using assms by simp
  have "of_le16 bs = of_le16 (take 2 bs)"
    using assms of_le16_append [of "take 2 bs" "drop 2 bs"] by simp
  moreover have "le16 (of_le16 (take 2 bs)) = take 2 bs" using assms by (intro le16_of_le16) simp
  ultimately have e: "le16 (of_nat ?n) = take 2 bs" by simp
  have "pp_encode (take ?n (drop 2 bs)) = take 2 bs @ take ?n (drop 2 bs)"
    unfolding pp_encode_def len e ..
  also have "\<dots> = take (2 + ?n) bs" by (simp only: take_add)
  finally show ?thesis by simp
qed

text \<open>The decoder waits: the buffered bytes do not start with a complete packet, nor with a length
  that is too large.\<close>

definition pp_incomplete :: "int \<Rightarrow> byte list \<Rightarrow> bool" where
  "pp_incomplete mtu bs \<longleftrightarrow> pp_decode mtu bs = ([], Some bs)"

lemma pp_incomplete_iff:
  "pp_incomplete mtu bs \<longleftrightarrow> length bs < 2 \<or>
     (int (unat (of_le16 bs)) \<le> mtu \<and> length bs < 2 + unat (of_le16 bs))"
  unfolding pp_incomplete_def by (subst pp_decode.simps) (auto simp: Let_def)

lemma pp_incomplete_int:
  "pp_incomplete mtu bs \<longleftrightarrow> int (length bs) < 2 \<or>
     (uint (of_le16 bs) \<le> mtu \<and> int (length bs) < 2 + uint (of_le16 bs))"
proof -
  have "uint (of_le16 bs) = int (unat (of_le16 bs))" by simp
  then show ?thesis unfolding pp_incomplete_iff by linarith
qed

lemma pp_incomplete_length: "pp_incomplete mtu bs \<Longrightarrow> 0 \<le> mtu \<Longrightarrow> int (length bs) < 2 + mtu"
  unfolding pp_incomplete_iff by linarith

lemma pp_too_large:
  "2 \<le> length bs \<Longrightarrow> int (unat (of_le16 bs)) > mtu \<Longrightarrow> pp_decode mtu bs = ([], None)"
  by (subst pp_decode.simps) (simp add: Let_def)

text \<open>Cutting a stream of valid packets anywhere never yields an error or a packet that was not sent.\<close>

lemma pp_decode_prefix_stream:
  assumes "prefix bs (pp_stream ps)" "\<forall>p \<in> set ps. int (length p) \<le> mtu" "mtu \<le> 65535"
  shows "prefix (fst (pp_decode mtu bs)) ps \<and> snd (pp_decode mtu bs) \<noteq> None"
  using assms
proof (induction ps arbitrary: bs)
  case Nil
  then show ?case by (simp add: pp_decode.simps)
next
  case (Cons p ps)
  show ?case
  proof (cases "prefix (pp_encode p) bs")
    case True
    then obtain cs where bs: "bs = pp_encode p @ cs" by (auto simp: prefix_def)
    with Cons.prems have "prefix cs (pp_stream ps)" by simp
    with Cons bs show ?thesis by (simp add: pp_decode_encode)
  next
    case False
    obtain zs where z: "pp_encode p @ pp_stream ps = bs @ zs" using Cons.prems(1) by (auto simp: prefix_def)
    then have short: "length bs < 2 + length p" using False
      by (metis append_eq_append_conv_if append_take_drop_id length_pp_encode not_less prefixI)
    have "pp_incomplete mtu bs"
    proof (cases "length bs < 2")
      case False
      then have "of_le16 bs = of_le16 (pp_encode p @ pp_stream ps)" unfolding z by simp
      then have "unat (of_le16 bs) = length p"
        using Cons.prems by (simp add: pp_encode_def unat_of_nat_16)
      with short Cons.prems show ?thesis unfolding pp_incomplete_iff by simp
    qed (simp add: pp_incomplete_iff)
    then show ?thesis by (simp add: pp_incomplete_def)
  qed
qed

lemma pp_decode_prefix:
  "prefix bs (pp_stream ps) \<Longrightarrow> \<forall>p \<in> set ps. int (length p) \<le> mtu \<Longrightarrow> mtu \<le> 65535 \<Longrightarrow>
   prefix (fst (pp_decode mtu bs)) ps"
  using pp_decode_prefix_stream by blast

section \<open>The decoder in its environment\<close>

text \<open>Besides the store, the object and the outstanding operations, the bytes fed to the decoder and
  the packets it delivered since its last error, and the number of errors it reported.\<close>

record dec_world =
  dw_mem :: mem
  dw_dec :: PacketProtoDecoder
  dw_env :: flow_env
  dw_fed :: "byte list"
  dw_delivered :: "byte list list"
  dw_errors :: nat

definition dec_apply :: "dec_world \<Rightarrow> flow_env \<Rightarrow> mem \<times> PacketProtoDecoder \<times> flow_call list \<Rightarrow> dec_world option" where
  "dec_apply w e r = (case r of (m, dec, calls) \<Rightarrow>
     (case issues calls e of
        None \<Rightarrow> None
      | Some e' \<Rightarrow>
          (let w' = w\<lparr>dw_mem := m, dw_dec := dec, dw_env := e'\<rparr> in
           Some (if Report_error \<in> set calls
                 then w'\<lparr>dw_fed := [], dw_delivered := [], dw_errors := Suc (dw_errors w)\<rparr> else w'))))"

text \<open>The outstanding receive completes with a non-empty chunk of the stream.\<close>

definition dec_feed :: "byte list \<Rightarrow> dec_world \<Rightarrow> dec_world option" where
  "dec_feed chunk w =
     (case fe_recv_stream (dw_env w) of
        Some (Some d, n) \<Rightarrow>
          if chunk = [] \<or> int (length chunk) > n then None
          else dec_apply (w\<lparr>dw_fed := dw_fed w @ chunk\<rparr>) ((dw_env w)\<lparr>fe_recv_stream := None\<rparr>)
                 (PacketProtoDecoder_input_handler_done (wr (dw_mem w) d chunk) (dw_dec w) (int (length chunk)))
      | _ \<Rightarrow> None)"

text \<open>The outstanding send completes; the packet its receiver saw is read from the store.\<close>

definition dec_output :: "dec_world \<Rightarrow> dec_world option" where
  "dec_output w =
     (case fe_send_packet (dw_env w) of
        Some (Some q, n) \<Rightarrow>
          dec_apply (w\<lparr>dw_delivered := dw_delivered w @ [rd (dw_mem w) q (nat n)]\<rparr>)
            ((dw_env w)\<lparr>fe_send_packet := None\<rparr>) (PacketProtoDecoder_output_handler_done (dw_mem w) (dw_dec w))
      | _ \<Rightarrow> None)"

inductive dec_reach :: "dec_world \<Rightarrow> dec_world \<Rightarrow> bool" for w0 where
  dec_start: "dec_reach w0 w0"
| dec_fed: "dec_reach w0 w \<Longrightarrow> dec_feed chunk w = Some w' \<Longrightarrow> dec_reach w0 w'"
| dec_sent: "dec_reach w0 w \<Longrightarrow> dec_output w = Some w' \<Longrightarrow> dec_reach w0 w'"

definition dec_init :: "mem \<Rightarrow> (int \<Rightarrow> ptr option) \<Rightarrow> int \<Rightarrow> dec_world option" where
  "dec_init m malloc mtu =
     (case PacketProtoDecoder_Init malloc mtu of None \<Rightarrow> None
      | Some (dec, calls) \<Rightarrow> (case issues calls fe_idle of None \<Rightarrow> None
          | Some e \<Rightarrow> Some \<lparr>dw_mem = m, dw_dec = dec, dw_env = e, dw_fed = [], dw_delivered = [], dw_errors = 0\<rparr>))"

definition ppd_buffered :: "mem \<Rightarrow> PacketProtoDecoder \<Rightarrow> byte list" where
  "ppd_buffered m dec = rd m (ppd_buf dec + nat (ppd_buf_start dec)) (nat (ppd_buf_used dec))"

definition ppd_ok :: "PacketProtoDecoder \<Rightarrow> bool" where
  "ppd_ok dec \<longleftrightarrow> 0 \<le> ppd_output_mtu dec \<and> ppd_output_mtu dec \<le> 65535 \<and> ppd_buf_size dec = 2 + ppd_output_mtu dec \<and>
     0 \<le> ppd_buf_start dec \<and> 0 \<le> ppd_buf_used dec \<and> ppd_buf_start dec + ppd_buf_used dec \<le> ppd_buf_size dec"

text \<open>Waiting for more bytes, or for the output to take the packet \<open>p\<close>.\<close>

definition dec_waiting :: "mem \<Rightarrow> PacketProtoDecoder \<Rightarrow> flow_env \<Rightarrow> bool" where
  "dec_waiting m dec e \<longleftrightarrow> (let off = ppd_buf_start dec + ppd_buf_used dec in
     fe_send_packet e = None \<and> off < ppd_buf_size dec \<and>
     fe_recv_stream e = Some (Some (ppd_buf dec + nat off), ppd_buf_size dec - off) \<and>
     pp_incomplete (ppd_output_mtu dec) (ppd_buffered m dec))"

definition dec_sending :: "mem \<Rightarrow> PacketProtoDecoder \<Rightarrow> flow_env \<Rightarrow> byte list \<Rightarrow> bool" where
  "dec_sending m dec e p \<longleftrightarrow> fe_recv_stream e = None \<and> int (length p) \<le> ppd_output_mtu dec \<and>
     (\<exists>q. fe_send_packet e = Some (Some q, int (length p)) \<and> rd m q (length p) = p)"

definition dec_inv :: "dec_world \<Rightarrow> bool" where
  "dec_inv w \<longleftrightarrow> (let m = dw_mem w; dec = dw_dec w; e = dw_env w in
     ppd_ok dec \<and> (\<forall>p \<in> set (dw_delivered w). int (length p) \<le> ppd_output_mtu dec) \<and>
     ((dec_waiting m dec e \<and> dw_fed w = pp_stream (dw_delivered w) @ ppd_buffered m dec) \<or>
      (\<exists>p. dec_sending m dec e p \<and> dw_fed w = pp_stream (dw_delivered w @ [p]) @ ppd_buffered m dec)))"

text \<open>\<^verbatim>\<open>process_data\<close> with no operation outstanding: the three ways it ends.\<close>

lemma receive_more_waits:
  assumes ok: "ppd_ok dec" and e: "fe_recv_stream e = None" "fe_send_packet e = None"
    and inc: "pp_incomplete (ppd_output_mtu dec) (ppd_buffered m dec)"
  shows "\<exists>m' dec' e'. PacketProtoDecoder_receive_more m dec False = (m', dec', [Recv_Stream
      (Some (ppd_buf dec' + nat (ppd_buf_start dec' + ppd_buf_used dec')))
      (ppd_buf_size dec' - (ppd_buf_start dec' + ppd_buf_used dec'))]) \<and>
    issues [Recv_Stream (Some (ppd_buf dec' + nat (ppd_buf_start dec' + ppd_buf_used dec')))
      (ppd_buf_size dec' - (ppd_buf_start dec' + ppd_buf_used dec'))] e = Some e' \<and>
    ppd_ok dec' \<and> ppd_output_mtu dec' = ppd_output_mtu dec \<and> ppd_buffered m' dec' = ppd_buffered m dec \<and>
    dec_waiting m' dec' e'"
proof (cases "ppd_buf_start dec + ppd_buf_used dec = ppd_buf_size dec")
  case False
  then have "ppd_buf_start dec + ppd_buf_used dec < ppd_buf_size dec" using ok by (simp add: ppd_ok_def)
  with False ok e inc show ?thesis
    by (simp add: PacketProtoDecoder_receive_more_def dec_waiting_def Let_def)
next
  case True
  let ?m = "memmove m (ppd_buf dec) (ppd_buf dec + nat (ppd_buf_start dec)) (nat (ppd_buf_used dec))"
  let ?d = "dec\<lparr>ppd_buf_start := 0\<rparr>"
  have b: "ppd_buffered ?m ?d = ppd_buffered m dec"
    by (simp add: ppd_buffered_def memmove_def mem_simps)
  have "ppd_buf_used dec < ppd_buf_size dec"
    using pp_incomplete_length [OF inc] ok by (auto simp: ppd_buffered_def ppd_ok_def)
  with True ok e inc b show ?thesis
    by (simp add: PacketProtoDecoder_receive_more_def dec_waiting_def Let_def ppd_ok_def)
qed

lemma buffered_header:
  assumes "ppd_ok dec" "2 \<le> ppd_buf_used dec"
  shows "of_le16 (rd m (ppd_buf dec + nat (ppd_buf_start dec)) 2) = of_le16 (ppd_buffered m dec)"
proof -
  have "2 \<le> nat (ppd_buf_used dec)" using assms(2) by linarith
  then obtain k where k: "nat (ppd_buf_used dec) = 2 + k" using le_Suc_ex by blast
  show ?thesis unfolding ppd_buffered_def k rd_split by simp
qed

lemma process_data_cases:
  fixes m :: mem and dec :: PacketProtoDecoder and e :: flow_env
  assumes ok: "ppd_ok dec" and e: "fe_recv_stream e = None" "fe_send_packet e = None"
  defines "bs \<equiv> ppd_buffered m dec" and "mtu \<equiv> ppd_output_mtu dec"
  obtains (wait) m' dec' calls e' where "PacketProtoDecoder_process_data m dec = (m', dec', calls)"
      "issues calls e = Some e'" "Report_error \<notin> set calls" "ppd_ok dec'" "ppd_output_mtu dec' = mtu"
      "ppd_buffered m' dec' = bs" "dec_waiting m' dec' e'" "pp_incomplete mtu bs"
  | (send) dec' calls e' p where "PacketProtoDecoder_process_data m dec = (m, dec', calls)"
      "issues calls e = Some e'" "Report_error \<notin> set calls" "ppd_ok dec'" "ppd_output_mtu dec' = mtu"
      "bs = pp_encode p @ ppd_buffered m dec'" "dec_sending m dec' e' p"
  | (error) dec' calls e' where "PacketProtoDecoder_process_data m dec = (m, dec', calls)"
      "issues calls e = Some e'" "Report_error \<in> set calls" "ppd_ok dec'" "ppd_output_mtu dec' = mtu"
      "ppd_buffered m dec' = []" "dec_waiting m dec' e'" "pp_decode mtu bs = ([], None)"
proof -
  have used: "0 \<le> ppd_buf_used dec" using ok by (simp add: ppd_ok_def)
  then have len: "int (length bs) = ppd_buf_used dec" by (simp add: bs_def ppd_buffered_def)
  consider "pp_incomplete mtu bs"
    | "2 \<le> ppd_buf_used dec" "mtu < uint (of_le16 bs)"
    | "2 \<le> ppd_buf_used dec" "uint (of_le16 bs) \<le> mtu" "2 + uint (of_le16 bs) \<le> ppd_buf_used dec"
    unfolding pp_incomplete_int len by linarith
  then show ?thesis
  proof cases
    case 1
    have "PacketProtoDecoder_process_data m dec = PacketProtoDecoder_receive_more m dec False"
    proof (cases "ppd_buf_used dec < 2")
      case False
      then have "uint (of_le16 bs) \<le> mtu" "ppd_buf_used dec < 2 + uint (of_le16 bs)"
        using 1 unfolding pp_incomplete_int len by simp_all
      with False buffered_header [OF ok, of m] show ?thesis
        by (simp add: PacketProtoDecoder_process_data_def Let_def bs_def mtu_def)
    qed (simp add: PacketProtoDecoder_process_data_def Let_def)
    moreover obtain m' dec' e' a n where "PacketProtoDecoder_receive_more m dec False = (m', dec', [Recv_Stream a n])"
      "issues [Recv_Stream a n] e = Some e'" "ppd_ok dec'" "ppd_output_mtu dec' = ppd_output_mtu dec"
      "ppd_buffered m' dec' = ppd_buffered m dec" "dec_waiting m' dec' e'"
      using receive_more_waits [OF ok e 1 [unfolded bs_def mtu_def]] by blast
    ultimately show ?thesis using wait [of m' dec' "[Recv_Stream a n]" e'] 1 unfolding bs_def mtu_def by simp
  next
    case 2
    let ?d = "dec\<lparr>ppd_buf_start := 0, ppd_buf_used := 0\<rparr>"
    let ?c = "[Recv_Stream (Some (ppd_buf dec)) (ppd_buf_size dec), Report_error]"
    have "PacketProtoDecoder_process_data m dec = (m, ?d, ?c)"
      using 2 buffered_header [OF ok, of m]
      by (simp add: PacketProtoDecoder_process_data_def PacketProtoDecoder_receive_more_def Let_def bs_def mtu_def)
    moreover have "dec_waiting m ?d (e\<lparr>fe_recv_stream := Some (Some (ppd_buf dec), ppd_buf_size dec)\<rparr>)"
      using ok e by (simp add: dec_waiting_def ppd_ok_def ppd_buffered_def pp_incomplete_iff)
    moreover have "pp_decode mtu bs = ([], None)" using 2 len by (intro pp_too_large) auto
    ultimately show ?thesis using error [of ?d ?c] ok e
      by (simp add: ppd_ok_def mtu_def ppd_buffered_def)
  next
    case 3
    let ?n = "unat (of_le16 bs)"
    let ?d = "dec\<lparr>ppd_buf_start := ppd_buf_start dec + (2 + int ?n), ppd_buf_used := ppd_buf_used dec - (2 + int ?n)\<rparr>"
    let ?q = "ppd_buf dec + nat (ppd_buf_start dec) + 2"
    let ?p = "rd m ?q ?n"
    have "PacketProtoDecoder_process_data m dec = (m, ?d, [Send_Packet (Some ?q) (int ?n)])"
      using 3 buffered_header [OF ok, of m]
      by (simp add: PacketProtoDecoder_process_data_def Let_def bs_def mtu_def)
    moreover have "bs = pp_encode ?p @ ppd_buffered m ?d"
    proof -
      have u: "uint (of_le16 bs) = int ?n" by simp
      have n: "2 + ?n \<le> length bs" using 3(3) len u by linarith
      have "\<And>k. 2 + k \<le> length bs \<Longrightarrow> take k (drop 2 bs) = rd m ?q k"
        by (simp add: bs_def ppd_buffered_def min_absorb1)
      then have "take ?n (drop 2 bs) = ?p" using n by blast
      moreover have "drop (2 + ?n) bs = ppd_buffered m ?d"
      proof -
        have "nat (ppd_buf_start dec + (2 + int ?n)) = nat (ppd_buf_start dec) + (2 + ?n)"
          "nat (ppd_buf_used dec - (2 + int ?n)) = nat (ppd_buf_used dec) - (2 + ?n)"
          using ok by (simp_all add: ppd_ok_def nat_add_distrib nat_diff_distrib')
        then show ?thesis by (simp add: bs_def ppd_buffered_def add.assoc)
      qed
      ultimately show ?thesis using pp_encode_parsed [OF n] by simp
    qed
    moreover have "ppd_ok ?d" using ok 3 by (simp add: ppd_ok_def)
    moreover have "dec_sending m ?d (e\<lparr>fe_send_packet := Some (Some ?q, int ?n)\<rparr>) ?p"
      using e 3 by (simp add: dec_sending_def mtu_def)
    ultimately show ?thesis
      using send [of ?d "[Send_Packet (Some ?q) (int ?n)]" "e\<lparr>fe_send_packet := Some (Some ?q, int ?n)\<rparr>" ?p] e
      by (simp add: mtu_def)
  qed
qed

lemma dec_process_inv:
  assumes ok: "ppd_ok (dw_dec w)" and e: "fe_recv_stream e = None" "fe_send_packet e = None"
    and dl: "\<forall>p \<in> set (dw_delivered w). int (length p) \<le> ppd_output_mtu (dw_dec w)"
    and fed: "dw_fed w = pp_stream (dw_delivered w) @ ppd_buffered m (dw_dec w)"
  shows "\<exists>w'. dec_apply w e (PacketProtoDecoder_process_data m (dw_dec w)) = Some w' \<and> dec_inv w' \<and>
    (dw_errors w' \<noteq> dw_errors w \<longleftrightarrow> pp_decode (ppd_output_mtu (dw_dec w)) (dw_fed w) = (dw_delivered w, None))"
proof -
  have M: "ppd_output_mtu (dw_dec w) \<le> 65535" using ok by (simp add: ppd_ok_def)
  note ref = pp_decode_stream [OF dl M, of "ppd_buffered m (dw_dec w)", folded fed]
  show ?thesis
  proof (cases rule: process_data_cases [OF ok e, of m, case_names wait send error])
    case (wait m' dec' calls e')
    then show ?thesis using dl fed ref
      by (simp add: dec_apply_def dec_inv_def Let_def pp_incomplete_def)
  next
    case (send dec' calls e' p)
    have "fst (pp_decode (ppd_output_mtu (dw_dec w)) (ppd_buffered m (dw_dec w))) \<noteq> []"
      using send ok by (simp add: dec_sending_def pp_decode_encode ppd_ok_def)
    then show ?thesis using dl fed send ref
      by (auto simp: dec_apply_def dec_inv_def Let_def)
  next
    case (error dec' calls e')
    then show ?thesis using ref
      by (simp add: dec_apply_def dec_inv_def Let_def)
  qed
qed

lemma dec_apply_dec: "dec_apply (w\<lparr>dw_fed := f, dw_dec := d\<rparr>) e r = dec_apply (w\<lparr>dw_fed := f\<rparr>) e r"
  by (cases r) (simp add: dec_apply_def Let_def split: option.splits)

lemma ppd_buffered_feed:
  assumes "ppd_ok dec" "off = ppd_buf_start dec + ppd_buf_used dec"
  shows "ppd_buffered (wr m (ppd_buf dec + nat off) chunk)
      (dec\<lparr>ppd_buf_used := ppd_buf_used dec + int (length chunk)\<rparr>) = ppd_buffered m dec @ chunk"
proof -
  have s: "0 \<le> ppd_buf_start dec" "0 \<le> ppd_buf_used dec" using assms(1) by (simp_all add: ppd_ok_def)
  have n: "nat (ppd_buf_used dec + int (length chunk)) = nat (ppd_buf_used dec) + length chunk"
    using s by (simp add: nat_add_distrib)
  have o: "ppd_buf dec + nat off = ppd_buf dec + nat (ppd_buf_start dec) + nat (ppd_buf_used dec)"
    using assms(2) s by (simp add: nat_add_distrib)
  show ?thesis
    unfolding ppd_buffered_def o by (simp add: n rd_split mem_simps)
qed

text \<open>Feeding a chunk while the decoder waits, and completing its send, always succeed and keep the
  invariant.\<close>

lemma dec_feed_inv:
  assumes inv: "dec_inv w" and r: "fe_recv_stream (dw_env w) = Some (d, n)"
    and c: "chunk \<noteq> []" "int (length chunk) \<le> n"
  shows "\<exists>w'. dec_feed chunk w = Some w' \<and> dec_inv w' \<and> (dw_errors w' \<noteq> dw_errors w \<longleftrightarrow>
    pp_decode (ppd_output_mtu (dw_dec w)) (dw_fed w @ chunk) = (dw_delivered w, None))"
proof -
  let ?m = "dw_mem w" and ?dec = "dw_dec w" and ?off = "ppd_buf_start (dw_dec w) + ppd_buf_used (dw_dec w)"
  have ok: "ppd_ok ?dec" and dl: "\<forall>p \<in> set (dw_delivered w). int (length p) \<le> ppd_output_mtu ?dec"
    and wt: "dec_waiting ?m ?dec (dw_env w)" and fed: "dw_fed w = pp_stream (dw_delivered w) @ ppd_buffered ?m ?dec"
    using inv r by (auto simp: dec_inv_def Let_def dec_sending_def)
  have d: "d = Some (ppd_buf ?dec + nat ?off)" "n = ppd_buf_size ?dec - ?off" "fe_send_packet (dw_env w) = None"
    using wt r by (auto simp: dec_waiting_def Let_def)
  let ?dec' = "?dec\<lparr>ppd_buf_used := ppd_buf_used ?dec + int (length chunk)\<rparr>"
  let ?w = "w\<lparr>dw_fed := dw_fed w @ chunk, dw_dec := ?dec'\<rparr>"
  let ?m' = "wr ?m (ppd_buf ?dec + nat ?off) chunk"
  have b: "ppd_buffered ?m' ?dec' = ppd_buffered ?m ?dec @ chunk" by (rule ppd_buffered_feed [OF ok refl])
  have ok': "ppd_ok ?dec'" using ok c d by (simp add: ppd_ok_def)
  obtain w' where w': "dec_apply ?w ((dw_env w)\<lparr>fe_recv_stream := None\<rparr>)
      (PacketProtoDecoder_process_data ?m' ?dec') = Some w'" "dec_inv w'"
      "dw_errors w' \<noteq> dw_errors w \<longleftrightarrow> pp_decode (ppd_output_mtu ?dec) (dw_fed w @ chunk) = (dw_delivered w, None)"
    using dec_process_inv [of ?w "(dw_env w)\<lparr>fe_recv_stream := None\<rparr>" ?m'] ok' dl fed d(3) b by auto
  moreover have "dec_feed chunk w = dec_apply ?w ((dw_env w)\<lparr>fe_recv_stream := None\<rparr>)
      (PacketProtoDecoder_process_data ?m' ?dec')"
    using r c d by (simp add: dec_feed_def PacketProtoDecoder_input_handler_done_def dec_apply_dec)
  ultimately show ?thesis by (intro exI [of _ w']) simp
qed

lemma dec_output_inv:
  assumes inv: "dec_inv w" and s: "fe_send_packet (dw_env w) = Some (d, n)"
  shows "\<exists>w' p. dec_output w = Some w' \<and> dec_inv w' \<and> rd (dw_mem w) (the d) (nat n) = p \<and>
    (dw_errors w' \<noteq> dw_errors w \<longleftrightarrow>
       pp_decode (ppd_output_mtu (dw_dec w)) (dw_fed w) = (dw_delivered w @ [p], None))"
proof -
  let ?m = "dw_mem w" and ?dec = "dw_dec w"
  have ok: "ppd_ok ?dec" and dl: "\<forall>p \<in> set (dw_delivered w). int (length p) \<le> ppd_output_mtu ?dec"
    using inv by (auto simp: dec_inv_def Let_def)
  obtain p where sd: "dec_sending ?m ?dec (dw_env w) p"
    and fed: "dw_fed w = pp_stream (dw_delivered w @ [p]) @ ppd_buffered ?m ?dec"
    using inv s by (auto simp: dec_inv_def Let_def dec_waiting_def)
  then obtain q where q: "fe_send_packet (dw_env w) = Some (Some q, int (length p))" "rd ?m q (length p) = p"
    "fe_recv_stream (dw_env w) = None" "int (length p) \<le> ppd_output_mtu ?dec"
    by (auto simp: dec_sending_def)
  let ?w = "w\<lparr>dw_delivered := dw_delivered w @ [p]\<rparr>"
  have "dec_output w = dec_apply ?w ((dw_env w)\<lparr>fe_send_packet := None\<rparr>) (PacketProtoDecoder_process_data ?m (dw_dec ?w))"
    using q by (simp add: dec_output_def PacketProtoDecoder_output_handler_done_def)
  moreover obtain w' where "dec_apply ?w ((dw_env w)\<lparr>fe_send_packet := None\<rparr>)
      (PacketProtoDecoder_process_data ?m (dw_dec ?w)) = Some w'" "dec_inv w'"
    "dw_errors w' \<noteq> dw_errors w \<longleftrightarrow> pp_decode (ppd_output_mtu ?dec) (dw_fed w) = (dw_delivered w @ [p], None)"
    using dec_process_inv [of ?w "(dw_env w)\<lparr>fe_send_packet := None\<rparr>" ?m] ok dl fed q by auto
  moreover have "rd ?m (the d) (nat n) = p" using s q by auto
  ultimately show ?thesis by (intro exI [of _ w'] exI [of _ p]) simp
qed

lemma dec_feed_SomeD:
  "dec_feed chunk w = Some w' \<Longrightarrow>
   \<exists>d n. fe_recv_stream (dw_env w) = Some (d, n) \<and> chunk \<noteq> [] \<and> int (length chunk) \<le> n"
  by (auto simp: dec_feed_def split: option.splits if_splits)

lemma dec_output_SomeD: "dec_output w = Some w' \<Longrightarrow> fe_send_packet (dw_env w) \<noteq> None"
  by (auto simp: dec_output_def split: option.splits)

lemma dec_reach_inv: "dec_reach w0 w \<Longrightarrow> dec_inv w0 \<Longrightarrow> dec_inv w"
proof (induction rule: dec_reach.induct)
  case (dec_fed w chunk w')
  then obtain d n where "fe_recv_stream (dw_env w) = Some (d, n)" "chunk \<noteq> []" "int (length chunk) \<le> n"
    using dec_feed_SomeD by blast
  with dec_feed_inv [of w d n chunk] dec_fed show ?case by auto
next
  case (dec_sent w w')
  with dec_output_inv [of w] dec_output_SomeD [of w w'] show ?case by fastforce
qed

lemma dec_init_inv:
  assumes "dec_init m malloc mtu = Some w0" "0 \<le> mtu"
  shows "dec_inv w0" "ppd_output_mtu (dw_dec w0) = min mtu PACKETPROTO_MAXPAYLOAD" "dw_errors w0 = 0"
  using assms
  by (auto simp: dec_init_def PacketProtoDecoder_Init_def Let_def PACKETPROTO_ENCLEN_def PACKETPROTO_MAXPAYLOAD_def
      fe_idle_def dec_inv_def ppd_ok_def dec_waiting_def ppd_buffered_def pp_incomplete_iff split: option.splits if_splits)

lemma dec_apply_mtu:
  assumes "dec_apply w e (PacketProtoDecoder_process_data m dec) = Some w'"
  shows "ppd_output_mtu (dw_dec w') = ppd_output_mtu dec"
  using assms
  by (auto simp: dec_apply_def PacketProtoDecoder_process_data_def PacketProtoDecoder_receive_more_def Let_def
      split: option.splits if_splits)

lemma dec_reach_mtu: "dec_reach w0 w \<Longrightarrow> ppd_output_mtu (dw_dec w) = ppd_output_mtu (dw_dec w0)"
proof (induction rule: dec_reach.induct)
  case (dec_fed w chunk w')
  then show ?case using dec_apply_mtu
    by (fastforce simp: dec_feed_def PacketProtoDecoder_input_handler_done_def split: option.splits if_splits)
next
  case (dec_sent w w')
  then show ?case using dec_apply_mtu
    by (fastforce simp: dec_output_def PacketProtoDecoder_output_handler_done_def split: option.splits)
qed simp

text \<open>What the invariant says about the reference: the bytes fed so far decode to the packets delivered
  and, while a send is outstanding, to the one that is being sent.\<close>

lemma dec_inv_decode:
  assumes "dec_inv w"
  defines "mtu \<equiv> ppd_output_mtu (dw_dec w)" and "bs \<equiv> ppd_buffered (dw_mem w) (dw_dec w)"
  obtains (wait) "fe_send_packet (dw_env w) = None" "fe_recv_stream (dw_env w) \<noteq> None"
      "pp_decode mtu (dw_fed w) = (dw_delivered w, Some bs)" "pp_incomplete mtu bs"
      "dw_fed w = pp_stream (dw_delivered w) @ bs"
  | (send) p where "fe_send_packet (dw_env w) \<noteq> None" "fe_recv_stream (dw_env w) = None"
      "dec_sending (dw_mem w) (dw_dec w) (dw_env w) p"
      "pp_decode mtu (dw_fed w) = (dw_delivered w @ p # fst (pp_decode mtu bs), snd (pp_decode mtu bs))"
proof -
  have ok: "mtu \<le> 65535" and dl: "\<forall>p \<in> set (dw_delivered w). int (length p) \<le> mtu"
    using assms(1) by (auto simp: dec_inv_def Let_def ppd_ok_def mtu_def)
  consider (a) "dec_waiting (dw_mem w) (dw_dec w) (dw_env w)" "dw_fed w = pp_stream (dw_delivered w) @ bs"
    | (b) p where "dec_sending (dw_mem w) (dw_dec w) (dw_env w) p" "dw_fed w = pp_stream (dw_delivered w @ [p]) @ bs"
    using assms(1) by (auto simp: dec_inv_def Let_def bs_def)
  then show ?thesis
  proof cases
    case a
    then have "pp_incomplete mtu bs" by (simp add: dec_waiting_def Let_def mtu_def bs_def)
    then show ?thesis using a dl ok wait
      by (auto simp: pp_decode_stream pp_incomplete_def dec_waiting_def Let_def)
  next
    case b
    then have "\<forall>q \<in> set (dw_delivered w @ [p]). int (length q) \<le> mtu"
      using dl by (auto simp: dec_sending_def mtu_def)
    from pp_decode_stream [OF this ok, of bs] b show ?thesis
      using send by (auto simp: dec_sending_def)
  qed
qed

section \<open>Properties\<close>

text \<open>Claim C1. However the stream is divided into chunks and whenever its output takes a packet, the
  decoder delivers exactly what the reference decoder reads off the bytes it was fed: while it waits for
  more input, the delivered packets are the complete packets of the input and its buffer holds exactly
  the incomplete rest; while it sends, everything delivered so far and the packet being sent, which lies
  unchanged in the buffer, come first in the reference result.\<close>

theorem PacketProtoDecoder_matches_reference:
  assumes "dec_init m malloc output_mtu = Some w0" "0 \<le> output_mtu" "dec_reach w0 w"
  shows "let mtu = min output_mtu PACKETPROTO_MAXPAYLOAD; bs = ppd_buffered (dw_mem w) (dw_dec w) in
    (fe_recv_stream (dw_env w) \<noteq> None \<longrightarrow> pp_decode mtu (dw_fed w) = (dw_delivered w, Some bs)) \<and>
    (\<forall>q n. fe_send_packet (dw_env w) = Some (Some q, n) \<longrightarrow>
       pp_decode mtu (dw_fed w) =
         (dw_delivered w @ rd (dw_mem w) q (nat n) # fst (pp_decode mtu bs), snd (pp_decode mtu bs)))"
proof -
  note i = dec_init_inv [OF assms(1,2)]
  have inv: "dec_inv w" by (rule dec_reach_inv [OF assms(3) i(1)])
  have mtu: "ppd_output_mtu (dw_dec w) = min output_mtu PACKETPROTO_MAXPAYLOAD"
    using dec_reach_mtu [OF assms(3)] i(2) by simp
  show ?thesis
    by (cases rule: dec_inv_decode [OF inv]) (auto simp: Let_def mtu [symmetric] dec_sending_def)
qed

definition dec_ex0 :: dec_world where
  "dec_ex0 = the (dec_init (\<lambda>_. 0) (\<lambda>_. Some 100) 4)"

definition dec_ex1 :: dec_world where
  "dec_ex1 = the (dec_feed [2, 0, 7] dec_ex0)"

lemma dec_ex0_init: "dec_init (\<lambda>_. 0) (\<lambda>_. Some 100) 4 = Some dec_ex0"
  by (simp add: dec_ex0_def dec_init_def PacketProtoDecoder_Init_def PACKETPROTO_ENCLEN_def
      PACKETPROTO_MAXPAYLOAD_def fe_idle_def)

lemma dec_ex1_feed: "dec_feed [2, 0, 7] dec_ex0 = Some dec_ex1"
proof -
  have r: "fe_recv_stream (dw_env dec_ex0) = Some (Some 100, 6)"
    by (simp add: dec_ex0_def dec_init_def PacketProtoDecoder_Init_def PACKETPROTO_ENCLEN_def
        PACKETPROTO_MAXPAYLOAD_def fe_idle_def)
  have "dec_inv dec_ex0" by (rule dec_init_inv(1) [OF dec_ex0_init]) simp
  from dec_feed_inv [OF this r, of "[2, 0, 7]"] show ?thesis unfolding dec_ex1_def by force
qed

lemma dec_ex1_reach: "dec_reach dec_ex0 dec_ex1"
  by (rule dec_reach.dec_fed [OF dec_reach.dec_start dec_ex1_feed])

lemma dec_ex1_state:
  "dw_delivered dec_ex1 = []" "dw_fed dec_ex1 = [2, 0, 7]" "fe_recv_stream (dw_env dec_ex1) = Some (Some 103, 3)"
proof -
  have "wr (\<lambda>_. 0) 100 [2, 0, 7 :: byte] 100 = 2" "wr (\<lambda>_. 0) 100 [2, 0, 7 :: byte] 101 = 0"
    by (simp_all add: wr_def)
  then show "dw_delivered dec_ex1 = []" "dw_fed dec_ex1 = [2, 0, 7]"
    "fe_recv_stream (dw_env dec_ex1) = Some (Some 103, 3)"
    by (simp_all add: dec_ex1_def dec_ex0_def dec_init_def PacketProtoDecoder_Init_def PACKETPROTO_ENCLEN_def
        PACKETPROTO_MAXPAYLOAD_def fe_idle_def dec_feed_def PacketProtoDecoder_input_handler_done_def
        PacketProtoDecoder_process_data_def PacketProtoDecoder_receive_more_def dec_apply_def of_le16_def Let_def)
qed

theorem PacketProtoDecoder_matches_reference_witness:
  "pp_decode 4 [2, 0, 7] = ([], Some (ppd_buffered (dw_mem dec_ex1) (dw_dec dec_ex1)))"
  using PacketProtoDecoder_matches_reference [OF dec_ex0_init _ dec_ex1_reach] dec_ex1_state
  by (simp add: Let_def PACKETPROTO_MAXPAYLOAD_def)

text \<open>Claim C2. Framing round trip: when the bytes fed to the decoder come from encoded packets that fit
  its MTU, the delivered packets are a prefix of those packets, no error is reported by the next chunk of
  the stream, and once all bytes were fed and the decoder waits again, exactly those packets were
  delivered and its buffer is empty.\<close>

theorem PacketProto_roundtrip:
  assumes "dec_init m malloc output_mtu = Some w0" "0 \<le> output_mtu" "dec_reach w0 w"
    and "\<forall>p \<in> set ps. int (length p) \<le> min output_mtu PACKETPROTO_MAXPAYLOAD"
    and "prefix (dw_fed w) (pp_stream ps)"
  shows "prefix (dw_delivered w) ps \<and>
    (fe_recv_stream (dw_env w) \<noteq> None \<and> dw_fed w = pp_stream ps \<longrightarrow>
       dw_delivered w = ps \<and> ppd_buffered (dw_mem w) (dw_dec w) = []) \<and>
    (prefix (dw_fed w @ chunk) (pp_stream ps) \<and> dec_feed chunk w = Some w' \<longrightarrow> dw_errors w' = dw_errors w)"
proof -
  let ?mtu = "min output_mtu PACKETPROTO_MAXPAYLOAD"
  note i = dec_init_inv [OF assms(1,2)]
  have inv: "dec_inv w" by (rule dec_reach_inv [OF assms(3) i(1)])
  have mtu: "ppd_output_mtu (dw_dec w) = ?mtu" using dec_reach_mtu [OF assms(3)] i(2) by simp
  have M: "?mtu \<le> 65535" "0 \<le> ?mtu" using assms(2) by (auto simp: PACKETPROTO_MAXPAYLOAD_def)
  have pre: "prefix (fst (pp_decode ?mtu (dw_fed w))) ps"
    by (rule pp_decode_prefix [OF assms(5,4) M(1)])
  have full: "pp_decode ?mtu (pp_stream ps) = (ps, Some [])"
    using pp_decode_stream [OF assms(4) M(1), of "[]"] by (simp add: pp_decode.simps)
  have "prefix (dw_fed w @ chunk) (pp_stream ps) \<and> dec_feed chunk w = Some w' \<Longrightarrow> dw_errors w' = dw_errors w"
  proof (rule ccontr)
    assume a: "prefix (dw_fed w @ chunk) (pp_stream ps) \<and> dec_feed chunk w = Some w'"
      and ne: "dw_errors w' \<noteq> dw_errors w"
    obtain d n where r: "fe_recv_stream (dw_env w) = Some (d, n)" "chunk \<noteq> []" "int (length chunk) \<le> n"
      using a dec_feed_SomeD by blast
    have "pp_decode ?mtu (dw_fed w @ chunk) = (dw_delivered w, None)"
      using dec_feed_inv [OF inv r] a ne mtu by auto
    with pp_decode_prefix_stream [OF _ assms(4) M(1)] a show False by fastforce
  qed
  moreover have "prefix (dw_delivered w) ps \<and> (fe_recv_stream (dw_env w) \<noteq> None \<and> dw_fed w = pp_stream ps \<longrightarrow>
       dw_delivered w = ps \<and> ppd_buffered (dw_mem w) (dw_dec w) = [])"
    by (cases rule: dec_inv_decode [OF inv])
      (use pre full mtu in \<open>auto dest: append_prefixD\<close>)
  ultimately show ?thesis by blast
qed

lemma dec_ex_packets: "prefix (dw_fed dec_ex1) (pp_stream [[7, 8], []])"
  by (simp add: dec_ex1_state pp_encode_def le16_def prefix_def)

theorem PacketProto_roundtrip_witness: "prefix (dw_delivered dec_ex1) [[7, 8], [] :: byte list]"
  using PacketProto_roundtrip [OF dec_ex0_init _ dec_ex1_reach _ dec_ex_packets]
  by (simp add: PACKETPROTO_MAXPAYLOAD_def)

text \<open>Claim C19. The decoder reports an error exactly when the reference decoder meets a packet length above
  its MTU behind the packets delivered so far: when a chunk is fed, and when its output takes a packet and
  it goes on with the bytes it has already buffered. It is never stuck: in every reachable state either a
  receive of at least one byte or a send is outstanding, and each completion is handled without breaking an
  assertion of the interfaces.\<close>

theorem PacketProtoDecoder_error_and_progress:
  assumes "dec_init m malloc output_mtu = Some w0" "0 \<le> output_mtu" "dec_reach w0 w"
  shows "let mtu = min output_mtu PACKETPROTO_MAXPAYLOAD in
    (\<exists>d n. fe_recv_stream (dw_env w) = Some (Some d, n) \<and> 0 < n \<and> fe_send_packet (dw_env w) = None \<and>
       (\<forall>chunk. chunk \<noteq> [] \<and> int (length chunk) \<le> n \<longrightarrow>
          (\<exists>w'. dec_feed chunk w = Some w' \<and>
             (dw_errors w' \<noteq> dw_errors w \<longleftrightarrow> pp_decode mtu (dw_fed w @ chunk) = (dw_delivered w, None))))) \<or>
    (\<exists>q n. fe_send_packet (dw_env w) = Some (Some q, n) \<and> fe_recv_stream (dw_env w) = None \<and>
       (\<exists>w'. dec_output w = Some w' \<and>
          (dw_errors w' \<noteq> dw_errors w \<longleftrightarrow>
             pp_decode mtu (dw_fed w) = (dw_delivered w @ [rd (dw_mem w) q (nat n)], None))))"
proof -
  note i = dec_init_inv [OF assms(1,2)]
  have inv: "dec_inv w" by (rule dec_reach_inv [OF assms(3) i(1)])
  have mtu: "min output_mtu PACKETPROTO_MAXPAYLOAD = ppd_output_mtu (dw_dec w)"
    using dec_reach_mtu [OF assms(3)] i(2) by simp
  consider d n where "fe_recv_stream (dw_env w) = Some (Some d, n)" "0 < n" "fe_send_packet (dw_env w) = None"
    | q n where "fe_send_packet (dw_env w) = Some (Some q, n)" "fe_recv_stream (dw_env w) = None"
    using inv by (auto simp: dec_inv_def Let_def dec_waiting_def dec_sending_def)
  then show ?thesis
  proof cases
    case 1
    then show ?thesis unfolding mtu Let_def using dec_feed_inv [OF inv 1(1)] by blast
  next
    case 2
    then show ?thesis unfolding mtu Let_def using dec_output_inv [OF inv 2(1)] by fastforce
  qed
qed

theorem PacketProtoDecoder_error_and_progress_witness:
  "\<exists>w'. dec_feed [9, 9] dec_ex0 = Some w' \<and> dw_errors w' \<noteq> dw_errors dec_ex0"
proof -
  have s: "fe_recv_stream (dw_env dec_ex0) = Some (Some 100, 6)" "fe_send_packet (dw_env dec_ex0) = None"
    "dw_fed dec_ex0 = []" "dw_delivered dec_ex0 = []"
    by (simp_all add: dec_ex0_def dec_init_def PacketProtoDecoder_Init_def PACKETPROTO_ENCLEN_def
        PACKETPROTO_MAXPAYLOAD_def fe_idle_def)
  have "pp_decode 4 [9, 9] = ([], None)" by (intro pp_too_large) (simp_all add: of_le16_def)
  with s PacketProtoDecoder_error_and_progress [OF dec_ex0_init _ dec_reach.dec_start] show ?thesis
    by (auto simp: Let_def PACKETPROTO_MAXPAYLOAD_def dest!: spec [of _ "[9, 9]"])
qed

text \<open>The encoder builds the packet format in place: asked to fill the buffer at \<open>p\<close>, it
  receives the payload two bytes behind \<open>p\<close>, and when the payload \<open>data\<close> has arrived there, the buffer holds
  the encoding of \<open>data\<close>, the completed output has the length of that encoding, no other byte of the store
  changed, and the encoder is ready for the next packet.\<close>

lemma PacketProtoEncoder_encodes:
  assumes "ppe_output_packet enc = None" "int (length data) \<le> PACKETPROTO_MAXPAYLOAD"
  shows "case PacketProtoEncoder_output_handler_recv enc p of (enc1, calls1) \<Rightarrow>
    calls1 = [Recv_Packet (Some (p + 2))] \<and>
    (case PacketProtoEncoder_input_handler_done (wr m (p + 2) data) enc1 (int (length data)) of (m', enc2, calls2) \<Rightarrow>
       m' = wr m p (pp_encode data) \<and> rd m' p (length (pp_encode data)) = pp_encode data \<and>
       calls2 = [PacketRecv_Done (int (length (pp_encode data)))] \<and> enc2 = enc)"
proof -
  have "wr (wr m (p + 2) data) p (le16 (of_nat (length data))) = wr m p (pp_encode data)"
    by (rule ext) (auto simp: wr_def pp_encode_def nth_append)
  moreover have "enc\<lparr>ppe_output_packet := None\<rparr> = enc" using assms(1) by simp
  ultimately show ?thesis
    by (simp add: PacketProtoEncoder_output_handler_recv_def PacketProtoEncoder_input_handler_done_def
        PACKETPROTO_ENCLEN_def mem_simps)
qed

text \<open>\<^verbatim>\<open>PacketProtoDecoder_Reset\<close> may be called at any time: it discards exactly the buffered
  bytes, an outstanding receive still writes to the place where the decoder expects its data, a packet
  that is being sent stays untouched, and decoding goes on as if the discarded bytes had never arrived.\<close>

lemma PacketProtoDecoder_Reset_consistent:
  assumes "dec_init m malloc output_mtu = Some w0" "0 \<le> output_mtu" "dec_reach w0 w"
  shows "\<exists>fed. prefix fed (dw_fed w) \<and>
    dw_fed w = fed @ ppd_buffered (dw_mem w) (dw_dec w) \<and>
    dec_inv (w\<lparr>dw_dec := PacketProtoDecoder_Reset (dw_dec w), dw_fed := fed\<rparr>)"
proof -
  have inv: "dec_inv w" by (rule dec_reach_inv [OF assms(3) dec_init_inv(1) [OF assms(1,2)]])
  let ?d = "PacketProtoDecoder_Reset (dw_dec w)"
  have ok: "ppd_ok ?d" and b: "ppd_buffered (dw_mem w) ?d = []"
    using inv by (auto simp: dec_inv_def Let_def ppd_ok_def PacketProtoDecoder_Reset_def ppd_buffered_def)
  have wt: "dec_waiting (dw_mem w) (dw_dec w) e \<Longrightarrow> dec_waiting (dw_mem w) ?d e" for e
    using b by (auto simp: dec_waiting_def Let_def PacketProtoDecoder_Reset_def pp_incomplete_iff ppd_buffered_def)
  have sd: "dec_sending (dw_mem w) (dw_dec w) e p \<Longrightarrow> dec_sending (dw_mem w) ?d e p" for e p
    by (simp add: dec_sending_def PacketProtoDecoder_Reset_def)
  have mtu: "ppd_output_mtu ?d = ppd_output_mtu (dw_dec w)" by (simp add: PacketProtoDecoder_Reset_def)
  from inv consider
    "dec_waiting (dw_mem w) (dw_dec w) (dw_env w)" "dw_fed w = pp_stream (dw_delivered w) @ ppd_buffered (dw_mem w) (dw_dec w)"
    | p where "dec_sending (dw_mem w) (dw_dec w) (dw_env w) p"
      "dw_fed w = pp_stream (dw_delivered w @ [p]) @ ppd_buffered (dw_mem w) (dw_dec w)"
    by (auto simp: dec_inv_def Let_def)
  then show ?thesis
  proof cases
    case 1
    with inv ok b wt mtu show ?thesis
      by (intro exI [of _ "pp_stream (dw_delivered w)"]) (simp add: dec_inv_def Let_def)
  next
    case 2
    with inv ok b sd mtu show ?thesis
      by (intro exI [of _ "pp_stream (dw_delivered w @ [p])"]) (auto simp: dec_inv_def Let_def)
  qed
qed

end
