(* ===== verification/Flow_Components.thy ===== *)
theory Flow_Components
  imports Packet_Buffer Packet_Proto
begin

text \<open>
  The smaller objects of \<^verbatim>\<open>flow/\<close> and \<^verbatim>\<open>flowextra/\<close>: \<^verbatim>\<open>PacketStreamSender\<close> (packets to a byte stream),
  \<^verbatim>\<open>BufferWriter\<close>, \<^verbatim>\<open>PacketPassConnector\<close>, \<^verbatim>\<open>PacketRecvConnector\<close>, \<^verbatim>\<open>PacketCopier\<close>, \<^verbatim>\<open>LineBuffer\<close>,
  \<^verbatim>\<open>PacketPassInactivityMonitor\<close> and \<^verbatim>\<open>PacketProtoFlow\<close>, the chain of a writer, an encoder and a buffer.
  A packet pointer is optional because a packet of length 0 may be passed with a null pointer.
\<close>

definition ptr_add :: "ptr option \<Rightarrow> int \<Rightarrow> ptr option" where
  "ptr_add p n = map_option (\<lambda>a. a + nat n) p"

lemma ptr_add_simps [simp]: "ptr_add (Some a) n = Some (a + nat n)" "ptr_add None n = None"
  by (simp_all add: ptr_add_def)

section \<open>PacketStreamSender (flow/PacketStreamSender.c)\<close>

record PacketStreamSender =
  pss_in_len :: int
  pss_in :: "ptr option"
  pss_in_used :: int

definition PacketStreamSender_send_data :: "PacketStreamSender \<Rightarrow> PacketStreamSender \<times> flow_call list" where
  "PacketStreamSender_send_data s =
     (if pss_in_used s < pss_in_len s then
        (s, [Send_Stream (ptr_add (pss_in s) (pss_in_used s)) (pss_in_len s - pss_in_used s)])
      else (s\<lparr>pss_in_len := - 1\<rparr>, [PacketPass_Done]))"

definition PacketStreamSender_input_handler_send ::
    "PacketStreamSender \<Rightarrow> ptr option \<Rightarrow> int \<Rightarrow> PacketStreamSender \<times> flow_call list" where
  "PacketStreamSender_input_handler_send s data data_len =
     PacketStreamSender_send_data (s\<lparr>pss_in_len := data_len, pss_in := data, pss_in_used := 0\<rparr>)"

definition PacketStreamSender_output_handler_done ::
    "PacketStreamSender \<Rightarrow> int \<Rightarrow> PacketStreamSender \<times> flow_call list" where
  "PacketStreamSender_output_handler_done s data_len =
     PacketStreamSender_send_data (s\<lparr>pss_in_used := pss_in_used s + data_len\<rparr>)"

definition PacketStreamSender_Init :: "PacketStreamSender \<Rightarrow> PacketStreamSender" where
  "PacketStreamSender_Init s = s\<lparr>pss_in_len := - 1\<rparr>"

section \<open>BufferWriter (flow/BufferWriter.c)\<close>

record BufferWriter =
  bw_out_have :: bool
  bw_out :: "ptr option"

definition BufferWriter_output_handler_recv :: "BufferWriter \<Rightarrow> ptr option \<Rightarrow> BufferWriter" where
  "BufferWriter_output_handler_recv b data = b\<lparr>bw_out_have := True, bw_out := data\<rparr>"

definition BufferWriter_Init :: "BufferWriter \<Rightarrow> BufferWriter" where
  "BufferWriter_Init b = b\<lparr>bw_out_have := False\<rparr>"

text \<open>Nothing as result is the return value 0.\<close>

definition BufferWriter_StartPacket :: "BufferWriter \<Rightarrow> ptr option option" where
  "BufferWriter_StartPacket b = (if \<not> bw_out_have b then None else Some (bw_out b))"

definition BufferWriter_EndPacket :: "BufferWriter \<Rightarrow> int \<Rightarrow> BufferWriter \<times> flow_call list" where
  "BufferWriter_EndPacket b len = (b\<lparr>bw_out_have := False\<rparr>, [PacketRecv_Done len])"

section \<open>PacketPassConnector (flow/PacketPassConnector.c)\<close>

text \<open>\<open>ppc_output\<close> says whether an output is connected.\<close>

record PacketPassConnector =
  ppc_in_len :: int
  ppc_in :: "ptr option"
  ppc_output :: bool

definition PacketPassConnector_input_handler_send ::
    "PacketPassConnector \<Rightarrow> ptr option \<Rightarrow> int \<Rightarrow> PacketPassConnector \<times> flow_call list" where
  "PacketPassConnector_input_handler_send c data data_len =
     (let c' = c\<lparr>ppc_in_len := data_len, ppc_in := data\<rparr>
      in (c', if ppc_output c' then [Send_Packet (ppc_in c') (ppc_in_len c')] else []))"

definition PacketPassConnector_output_handler_done ::
    "PacketPassConnector \<Rightarrow> PacketPassConnector \<times> flow_call list" where
  "PacketPassConnector_output_handler_done c = (c\<lparr>ppc_in_len := - 1\<rparr>, [PacketPass_Done])"

definition PacketPassConnector_Init :: "PacketPassConnector \<Rightarrow> PacketPassConnector" where
  "PacketPassConnector_Init c = c\<lparr>ppc_in_len := - 1, ppc_output := False\<rparr>"

definition PacketPassConnector_ConnectOutput ::
    "PacketPassConnector \<Rightarrow> PacketPassConnector \<times> flow_call list" where
  "PacketPassConnector_ConnectOutput c =
     (let c' = c\<lparr>ppc_output := True\<rparr>
      in (c', if ppc_in_len c' \<ge> 0 then [Send_Packet (ppc_in c') (ppc_in_len c')] else []))"

definition PacketPassConnector_DisconnectOutput :: "PacketPassConnector \<Rightarrow> PacketPassConnector" where
  "PacketPassConnector_DisconnectOutput c = c\<lparr>ppc_output := False\<rparr>"

section \<open>PacketRecvConnector (flow/PacketRecvConnector.c)\<close>

record PacketRecvConnector =
  prc_out_have :: bool
  prc_out :: "ptr option"
  prc_input :: bool

definition PacketRecvConnector_output_handler_recv ::
    "PacketRecvConnector \<Rightarrow> ptr option \<Rightarrow> PacketRecvConnector \<times> flow_call list" where
  "PacketRecvConnector_output_handler_recv c data =
     (let c' = c\<lparr>prc_out_have := True, prc_out := data\<rparr>
      in (c', if prc_input c' then [Recv_Packet (prc_out c')] else []))"

definition PacketRecvConnector_input_handler_done ::
    "PacketRecvConnector \<Rightarrow> int \<Rightarrow> PacketRecvConnector \<times> flow_call list" where
  "PacketRecvConnector_input_handler_done c data_len =
     (c\<lparr>prc_out_have := False\<rparr>, [PacketRecv_Done data_len])"

definition PacketRecvConnector_Init :: "PacketRecvConnector \<Rightarrow> PacketRecvConnector" where
  "PacketRecvConnector_Init c = c\<lparr>prc_out_have := False, prc_input := False\<rparr>"

definition PacketRecvConnector_ConnectInput ::
    "PacketRecvConnector \<Rightarrow> PacketRecvConnector \<times> flow_call list" where
  "PacketRecvConnector_ConnectInput c =
     (let c' = c\<lparr>prc_input := True\<rparr>
      in (c', if prc_out_have c' then [Recv_Packet (prc_out c')] else []))"

definition PacketRecvConnector_DisconnectInput :: "PacketRecvConnector \<Rightarrow> PacketRecvConnector" where
  "PacketRecvConnector_DisconnectInput c = c\<lparr>prc_input := False\<rparr>"

section \<open>PacketCopier (flow/PacketCopier.c)\<close>

record PacketCopier =
  pc_in_len :: int
  pc_in :: "ptr option"
  pc_out_have :: bool
  pc_out :: "ptr option"

definition memcpy_opt :: "mem \<Rightarrow> ptr option \<Rightarrow> ptr option \<Rightarrow> int \<Rightarrow> mem" where
  "memcpy_opt m dst src n =
     (case (dst, src) of (Some d, Some s) \<Rightarrow> wr m d (rd m s (nat n)) | _ \<Rightarrow> m)"

definition PacketCopier_input_handler_send ::
    "mem \<Rightarrow> PacketCopier \<Rightarrow> ptr option \<Rightarrow> int \<Rightarrow> mem \<times> PacketCopier \<times> flow_call list" where
  "PacketCopier_input_handler_send m c data data_len =
     (if \<not> pc_out_have c then (m, c\<lparr>pc_in_len := data_len, pc_in := data\<rparr>, [])
      else (memcpy_opt m (pc_out c) data data_len, c\<lparr>pc_out_have := False\<rparr>,
            [PacketPass_Done, PacketRecv_Done data_len]))"

definition PacketCopier_input_handler_requestcancel :: "PacketCopier \<Rightarrow> PacketCopier \<times> flow_call list" where
  "PacketCopier_input_handler_requestcancel c = (c\<lparr>pc_in_len := - 1\<rparr>, [PacketPass_Done])"

definition PacketCopier_output_handler_recv ::
    "mem \<Rightarrow> PacketCopier \<Rightarrow> ptr option \<Rightarrow> mem \<times> PacketCopier \<times> flow_call list" where
  "PacketCopier_output_handler_recv m c data =
     (if pc_in_len c < 0 then (m, c\<lparr>pc_out_have := True, pc_out := data\<rparr>, [])
      else (memcpy_opt m data (pc_in c) (pc_in_len c), c\<lparr>pc_in_len := - 1\<rparr>,
            [PacketPass_Done, PacketRecv_Done (pc_in_len c)]))"

definition PacketCopier_Init :: "PacketCopier \<Rightarrow> PacketCopier" where
  "PacketCopier_Init c = c\<lparr>pc_in_len := - 1, pc_out_have := False\<rparr>"

section \<open>LineBuffer (flow/LineBuffer.c)\<close>

record LineBuffer =
  lb_buf_size :: int
  lb_nl_char :: byte
  lb_buf_used :: int
  lb_buf :: ptr
  lb_buf_consumed :: int

text \<open>The loop that looks for the newline from index \<open>i\<close> on; the index at which it stops.\<close>

function lb_find :: "mem \<Rightarrow> LineBuffer \<Rightarrow> int \<Rightarrow> int" where
  "lb_find m lb i =
     (if i < lb_buf_used lb then
        (if m (lb_buf lb + nat i) = lb_nl_char lb then i else lb_find m lb (i + 1))
      else i)"
  by auto
termination by (relation "measure (\<lambda>(m, lb, i). nat (lb_buf_used lb - i))") auto

declare lb_find.simps [simp del]

text \<open>What both handlers do after the search.\<close>

definition lb_continue :: "LineBuffer \<Rightarrow> int \<Rightarrow> LineBuffer \<times> flow_call list" where
  "lb_continue lb i =
     (if i < lb_buf_used lb \<or> lb_buf_used lb = lb_buf_size lb then
        (let c = (if i < lb_buf_used lb then i + 1 else i)
         in (lb\<lparr>lb_buf_consumed := c\<rparr>, [Send_Packet (Some (lb_buf lb)) c]))
      else (lb, [Recv_Stream (Some (lb_buf lb + nat (lb_buf_used lb))) (lb_buf_size lb - lb_buf_used lb)]))"

definition LineBuffer_input_handler_done :: "mem \<Rightarrow> LineBuffer \<Rightarrow> int \<Rightarrow> LineBuffer \<times> flow_call list" where
  "LineBuffer_input_handler_done m lb data_len =
     (let lb' = lb\<lparr>lb_buf_used := lb_buf_used lb + data_len\<rparr>
      in lb_continue lb' (lb_find m lb' (lb_buf_used lb' - data_len)))"

definition LineBuffer_output_handler_done :: "mem \<Rightarrow> LineBuffer \<Rightarrow> mem \<times> LineBuffer \<times> flow_call list" where
  "LineBuffer_output_handler_done m lb =
     (let m' = memmove m (lb_buf lb) (lb_buf lb + nat (lb_buf_consumed lb)) (nat (lb_buf_used lb - lb_buf_consumed lb));
          lb' = lb\<lparr>lb_buf_used := lb_buf_used lb - lb_buf_consumed lb\<rparr>
      in (m', lb_continue lb' (lb_find m' lb' 0)))"

definition LineBuffer_Init :: "(int \<Rightarrow> ptr option) \<Rightarrow> int \<Rightarrow> byte \<Rightarrow> (LineBuffer \<times> flow_call list) option" where
  "LineBuffer_Init malloc buf_size nl_char =
     (case malloc buf_size of None \<Rightarrow> None
      | Some p \<Rightarrow> Some (\<lparr>lb_buf_size = buf_size, lb_nl_char = nl_char, lb_buf_used = 0, lb_buf = p,
          lb_buf_consumed = 0\<rparr>, [Recv_Stream (Some p) buf_size]))"

section \<open>PacketPassInactivityMonitor (flowextra/PacketPassInactivityMonitor.c)\<close>

text \<open>The object keeps no state besides its timer and whether a handler is set.\<close>

record PacketPassInactivityMonitor =
  ppim_handler :: bool

definition PacketPassInactivityMonitor_input_handler_send :: "ptr option \<Rightarrow> int \<Rightarrow> flow_call list" where
  "PacketPassInactivityMonitor_input_handler_send data data_len = [Send_Packet data data_len, Timer_Remove]"

definition PacketPassInactivityMonitor_input_handler_requestcancel :: "flow_call list" where
  "PacketPassInactivityMonitor_input_handler_requestcancel = [Cancel_Packet]"

definition PacketPassInactivityMonitor_output_handler_done :: "flow_call list" where
  "PacketPassInactivityMonitor_output_handler_done = [Timer_Set, PacketPass_Done]"

definition PacketPassInactivityMonitor_timer_handler :: "PacketPassInactivityMonitor \<Rightarrow> flow_call list" where
  "PacketPassInactivityMonitor_timer_handler o' = [Timer_Set] @ (if ppim_handler o' then [Call_user_handler] else [])"

definition PacketPassInactivityMonitor_Init :: "bool \<Rightarrow> PacketPassInactivityMonitor \<times> flow_call list" where
  "PacketPassInactivityMonitor_Init handler = (\<lparr>ppim_handler = handler\<rparr>, [Timer_Set])"

definition PacketPassInactivityMonitor_SetHandler ::
    "PacketPassInactivityMonitor \<Rightarrow> bool \<Rightarrow> PacketPassInactivityMonitor" where
  "PacketPassInactivityMonitor_SetHandler o' handler = o'\<lparr>ppim_handler := handler\<rparr>"

definition PacketPassInactivityMonitor_Force :: "flow_call list" where
  "PacketPassInactivityMonitor_Force = [Timer_SetAfter 0]"

section \<open>PacketProtoFlow (flow/PacketProtoFlow.c)\<close>

record PacketProtoFlow =
  ppf_ainput :: BufferWriter
  ppf_encoder :: PacketProtoEncoder
  ppf_buffer :: PacketBuffer

definition PacketProtoFlow_Init ::
    "mem \<Rightarrow> ('w::len word \<Rightarrow> ptr option) \<Rightarrow> PacketProtoFlow \<Rightarrow> int \<Rightarrow> int \<Rightarrow> (PacketProtoFlow \<times> flow_call list) option" where
  "PacketProtoFlow_Init m malloc f input_mtu num_packets =
     (let ainput = BufferWriter_Init (ppf_ainput f); (encoder, enc_mtu) = PacketProtoEncoder_Init input_mtu in
      case PacketBuffer_Init m malloc enc_mtu num_packets of
        None \<Rightarrow> None
      | Some (buffer, calls) \<Rightarrow> Some (\<lparr>ppf_ainput = ainput, ppf_encoder = encoder, ppf_buffer = buffer\<rparr>, calls))"

section \<open>PacketStreamSender in its environment\<close>

text \<open>The store does not change while packets are under way: the sender of a packet keeps it in place
  until the interface is done with it.\<close>

record pss_world =
  sw_obj :: PacketStreamSender
  sw_env :: flow_env
  sw_packets :: "byte list list"
  sw_emitted :: "byte list"

definition pss_apply :: "pss_world \<Rightarrow> flow_env \<Rightarrow> PacketStreamSender \<times> flow_call list \<Rightarrow> pss_world option" where
  "pss_apply w e r = (case issues (snd r) e of None \<Rightarrow> None | Some e' \<Rightarrow> Some (w\<lparr>sw_obj := fst r, sw_env := e'\<rparr>))"

definition pss_input :: "mem \<Rightarrow> ptr \<Rightarrow> nat \<Rightarrow> pss_world \<Rightarrow> pss_world option" where
  "pss_input m p n w =
     (if fe_serve_pass (sw_env w) \<noteq> None then None
      else pss_apply (w\<lparr>sw_packets := sw_packets w @ [rd m p n]\<rparr>)
             ((sw_env w)\<lparr>fe_serve_pass := Some (Some p, int n)\<rparr>)
             (PacketStreamSender_input_handler_send (sw_obj w) (Some p) (int n)))"

text \<open>The stream takes \<open>k\<close> bytes of the outstanding send.\<close>

definition pss_output :: "mem \<Rightarrow> nat \<Rightarrow> pss_world \<Rightarrow> pss_world option" where
  "pss_output m k w =
     (case fe_send_stream (sw_env w) of
        Some (Some q, n) \<Rightarrow>
          if 0 < k \<and> int k \<le> n then
            pss_apply (w\<lparr>sw_emitted := sw_emitted w @ rd m q k\<rparr>) ((sw_env w)\<lparr>fe_send_stream := None\<rparr>)
              (PacketStreamSender_output_handler_done (sw_obj w) (int k))
          else None
      | _ \<Rightarrow> None)"

inductive pss_reach :: "mem \<Rightarrow> pss_world \<Rightarrow> pss_world \<Rightarrow> bool" for m w0 where
  pss_start: "pss_reach m w0 w0"
| pss_in: "pss_reach m w0 w \<Longrightarrow> pss_input m p n w = Some w' \<Longrightarrow> pss_reach m w0 w'"
| pss_out: "pss_reach m w0 w \<Longrightarrow> pss_output m k w = Some w' \<Longrightarrow> pss_reach m w0 w'"

definition pss_init :: "PacketStreamSender \<Rightarrow> pss_world" where
  "pss_init s = \<lparr>sw_obj = PacketStreamSender_Init s, sw_env = fe_idle, sw_packets = [], sw_emitted = []\<rparr>"

definition pss_idle :: "pss_world \<Rightarrow> bool" where
  "pss_idle w \<longleftrightarrow> fe_serve_pass (sw_env w) = None \<and> fe_send_stream (sw_env w) = None \<and>
     pss_in_len (sw_obj w) = - 1 \<and> sw_emitted w = concat (sw_packets w)"

definition pss_busy :: "mem \<Rightarrow> pss_world \<Rightarrow> bool" where
  "pss_busy m w \<longleftrightarrow> (\<exists>ps p n u. fe_serve_pass (sw_env w) \<noteq> None \<and> u < n \<and>
     sw_obj w = \<lparr>pss_in_len = int n, pss_in = Some p, pss_in_used = int u\<rparr> \<and>
     fe_send_stream (sw_env w) = Some (Some (p + u), int n - int u) \<and>
     sw_packets w = ps @ [rd m p n] \<and> sw_emitted w = concat ps @ rd m p u)"

lemma pss_send_data:
  assumes e: "fe_serve_pass e \<noteq> None" "fe_send_stream e = None" and u: "u \<le> n"
    and p: "sw_packets w = ps @ [rd m p n]" "sw_emitted w = concat ps @ rd m p u"
  shows "\<exists>w'. pss_apply w e (PacketStreamSender_send_data \<lparr>pss_in_len = int n, pss_in = Some p, pss_in_used = int u\<rparr>) =
      Some w' \<and> (if u = n then pss_idle w' else pss_busy m w')"
proof (cases "u = n")
  case True
  with e p show ?thesis by (auto simp: pss_apply_def PacketStreamSender_send_data_def pss_idle_def)
next
  case False
  let ?w = "w\<lparr>sw_obj := \<lparr>pss_in_len = int n, pss_in = Some p, pss_in_used = int u\<rparr>,
    sw_env := e\<lparr>fe_send_stream := Some (Some (p + u), int n - int u)\<rparr>\<rparr>"
  have "pss_apply w e (PacketStreamSender_send_data \<lparr>pss_in_len = int n, pss_in = Some p, pss_in_used = int u\<rparr>) = Some ?w"
    using False e u by (simp add: pss_apply_def PacketStreamSender_send_data_def)
  moreover have "pss_busy m ?w"
    unfolding pss_busy_def using False e u p by (intro exI [of _ ps] exI [of _ p] exI [of _ n] exI [of _ u]) simp
  ultimately show ?thesis using False by simp
qed

lemma pss_input_ok:
  assumes "pss_idle w"
  shows "\<exists>w'. pss_input m p n w = Some w' \<and> (pss_idle w' \<or> pss_busy m w')"
proof -
  let ?w = "w\<lparr>sw_packets := sw_packets w @ [rd m p n]\<rparr>"
  let ?e = "(sw_env w)\<lparr>fe_serve_pass := Some (Some p, int n)\<rparr>"
  have "\<exists>w'. pss_apply ?w ?e (PacketStreamSender_send_data \<lparr>pss_in_len = int n, pss_in = Some p, pss_in_used = int 0\<rparr>) =
      Some w' \<and> (if 0 = n then pss_idle w' else pss_busy m w')"
    using assms by (intro pss_send_data) (auto simp: pss_idle_def)
  moreover have "pss_input m p n w =
      pss_apply ?w ?e (PacketStreamSender_send_data \<lparr>pss_in_len = int n, pss_in = Some p, pss_in_used = int 0\<rparr>)"
    using assms by (cases "sw_obj w") (simp add: pss_input_def pss_idle_def PacketStreamSender_input_handler_send_def)
  ultimately show ?thesis by (auto split: if_splits)
qed

lemma pss_output_ok:
  assumes "pss_busy m w" "fe_send_stream (sw_env w) = Some (q, n)" "0 < k" "int k \<le> n"
  shows "\<exists>w'. pss_output m k w = Some w' \<and> (pss_idle w' \<or> pss_busy m w')"
proof -
  obtain ps p l u where s: "fe_serve_pass (sw_env w) \<noteq> None" "u < l"
    "sw_obj w = \<lparr>pss_in_len = int l, pss_in = Some p, pss_in_used = int u\<rparr>"
    "fe_send_stream (sw_env w) = Some (Some (p + u), int l - int u)"
    "sw_packets w = ps @ [rd m p l]" "sw_emitted w = concat ps @ rd m p u"
    using assms(1) unfolding pss_busy_def by blast
  let ?w = "w\<lparr>sw_emitted := sw_emitted w @ rd m (p + u) k\<rparr>" and ?e = "(sw_env w)\<lparr>fe_send_stream := None\<rparr>"
  have k: "int k \<le> int l - int u" using s(4) assms(2,4) by simp
  have "\<exists>w'. pss_apply ?w ?e (PacketStreamSender_send_data
        \<lparr>pss_in_len = int l, pss_in = Some p, pss_in_used = int (u + k)\<rparr>) =
      Some w' \<and> (if u + k = l then pss_idle w' else pss_busy m w')"
    by (rule pss_send_data) (use s k in \<open>auto simp: rd_split\<close>)
  moreover have "pss_output m k w = pss_apply ?w ?e (PacketStreamSender_send_data
        \<lparr>pss_in_len = int l, pss_in = Some p, pss_in_used = int (u + k)\<rparr>)"
    using s(3,4) k assms(3) by (simp add: pss_output_def PacketStreamSender_output_handler_done_def)
  ultimately show ?thesis by (auto split: if_splits)
qed

lemma pss_reach_inv:
  assumes "pss_reach m (pss_init s) w"
  shows "pss_idle w \<or> pss_busy m w"
  using assms
proof induction
  case pss_start
  show ?case by (simp add: pss_init_def pss_idle_def PacketStreamSender_Init_def fe_idle_def)
next
  case (pss_in w p n w')
  have "fe_serve_pass (sw_env w) = None" using pss_in(2) by (cases "fe_serve_pass (sw_env w)") (auto simp: pss_input_def)
  then have "pss_idle w" using pss_in(3) by (auto simp: pss_busy_def)
  from pss_input_ok [OF this, of m p n] pss_in(2) show ?case by auto
next
  case (pss_out w k w')
  then obtain q n where q: "fe_send_stream (sw_env w) = Some (Some q, n)" "0 < k" "int k \<le> n"
    by (auto simp: pss_output_def split: option.splits if_splits)
  then have "pss_busy m w" using pss_out(3) by (auto simp: pss_idle_def)
  from pss_output_ok [OF this q] pss_out(2) show ?case by auto
qed

section \<open>LineBuffer in its environment\<close>

text \<open>A line: it ends with the newline and contains no other one, or it has the size of the buffer and
  contains none.\<close>

definition lb_line :: "int \<Rightarrow> byte \<Rightarrow> byte list \<Rightarrow> bool" where
  "lb_line sz nl l \<longleftrightarrow> l \<noteq> [] \<and> int (length l) \<le> sz \<and> nl \<notin> set (butlast l) \<and> (last l = nl \<or> int (length l) = sz)"

record lb_world =
  lw_mem :: mem
  lw_lb :: LineBuffer
  lw_env :: flow_env
  lw_fed :: "byte list"
  lw_lines :: "byte list list"

definition lb_feed :: "byte list \<Rightarrow> lb_world \<Rightarrow> lb_world option" where
  "lb_feed chunk w =
     (case fe_recv_stream (lw_env w) of
        Some (Some d, n) \<Rightarrow>
          if chunk = [] \<or> int (length chunk) > n then None
          else let m = wr (lw_mem w) d chunk; r = LineBuffer_input_handler_done m (lw_lb w) (int (length chunk)) in
            (case issues (snd r) ((lw_env w)\<lparr>fe_recv_stream := None\<rparr>) of None \<Rightarrow> None
             | Some e \<Rightarrow> Some (w\<lparr>lw_mem := m, lw_lb := fst r, lw_env := e, lw_fed := lw_fed w @ chunk\<rparr>))
      | _ \<Rightarrow> None)"

definition lb_output :: "lb_world \<Rightarrow> lb_world option" where
  "lb_output w =
     (case fe_send_packet (lw_env w) of
        Some (Some q, n) \<Rightarrow>
          let r = LineBuffer_output_handler_done (lw_mem w) (lw_lb w) in
            (case issues (snd (snd r)) ((lw_env w)\<lparr>fe_send_packet := None\<rparr>) of None \<Rightarrow> None
             | Some e \<Rightarrow> Some (w\<lparr>lw_mem := fst r, lw_lb := fst (snd r), lw_env := e,
                 lw_lines := lw_lines w @ [rd (lw_mem w) q (nat n)]\<rparr>))
      | _ \<Rightarrow> None)"

inductive lb_reach :: "lb_world \<Rightarrow> lb_world \<Rightarrow> bool" for w0 where
  lb_start: "lb_reach w0 w0"
| lb_fed: "lb_reach w0 w \<Longrightarrow> lb_feed chunk w = Some w' \<Longrightarrow> lb_reach w0 w'"
| lb_sent: "lb_reach w0 w \<Longrightarrow> lb_output w = Some w' \<Longrightarrow> lb_reach w0 w'"

definition lb_init :: "mem \<Rightarrow> (int \<Rightarrow> ptr option) \<Rightarrow> int \<Rightarrow> byte \<Rightarrow> lb_world option" where
  "lb_init m malloc sz nl = (case LineBuffer_Init malloc sz nl of None \<Rightarrow> None
     | Some (lb, calls) \<Rightarrow> (case issues calls fe_idle of None \<Rightarrow> None
         | Some e \<Rightarrow> Some \<lparr>lw_mem = m, lw_lb = lb, lw_env = e, lw_fed = [], lw_lines = []\<rparr>))"

definition lb_held :: "mem \<Rightarrow> LineBuffer \<Rightarrow> byte list" where
  "lb_held m lb = rd m (lb_buf lb) (nat (lb_buf_used lb))"

lemma lb_find_spec:
  "0 \<le> i \<Longrightarrow> i \<le> lb_buf_used lb \<Longrightarrow>
   i \<le> lb_find m lb i \<and> lb_find m lb i \<le> lb_buf_used lb \<and>
   (\<forall>k. i \<le> k \<and> k < lb_find m lb i \<longrightarrow> m (lb_buf lb + nat k) \<noteq> lb_nl_char lb) \<and>
   (lb_find m lb i < lb_buf_used lb \<longrightarrow> m (lb_buf lb + nat (lb_find m lb i)) = lb_nl_char lb)"
proof (induction m lb i rule: lb_find.induct)
  case (1 m lb i)
  show ?case
  proof (cases "i < lb_buf_used lb \<and> m (lb_buf lb + nat i) \<noteq> lb_nl_char lb")
    case True
    then have f: "lb_find m lb i = lb_find m lb (i + 1)" by (subst lb_find.simps) simp
    have ih: "i + 1 \<le> lb_find m lb (i + 1) \<and> lb_find m lb (i + 1) \<le> lb_buf_used lb \<and>
      (\<forall>k. i + 1 \<le> k \<and> k < lb_find m lb (i + 1) \<longrightarrow> m (lb_buf lb + nat k) \<noteq> lb_nl_char lb) \<and>
      (lb_find m lb (i + 1) < lb_buf_used lb \<longrightarrow> m (lb_buf lb + nat (lb_find m lb (i + 1))) = lb_nl_char lb)"
      using 1 True by simp
    have "m (lb_buf lb + nat k) \<noteq> lb_nl_char lb" if "i \<le> k" "k < lb_find m lb (i + 1)" for k
      using that ih True by (cases "k = i") auto
    with ih f show ?thesis by auto
  next
    case False
    then have "lb_find m lb i = i" by (subst lb_find.simps) auto
    with False 1 show ?thesis by auto
  qed
qed

text \<open>The state after a search whose bytes before the starting index hold no newline.\<close>

definition lb_ok :: "mem \<Rightarrow> LineBuffer \<Rightarrow> flow_env \<Rightarrow> bool" where
  "lb_ok m lb e \<longleftrightarrow> 0 < lb_buf_size lb \<and> 0 \<le> lb_buf_used lb \<and> lb_buf_used lb \<le> lb_buf_size lb \<and>
     ((fe_send_packet e = None \<and> lb_buf_used lb < lb_buf_size lb \<and> lb_nl_char lb \<notin> set (lb_held m lb) \<and>
       fe_recv_stream e = Some (Some (lb_buf lb + nat (lb_buf_used lb)), lb_buf_size lb - lb_buf_used lb)) \<or>
      (fe_recv_stream e = None \<and> 0 < lb_buf_consumed lb \<and> lb_buf_consumed lb \<le> lb_buf_used lb \<and>
       fe_send_packet e = Some (Some (lb_buf lb), lb_buf_consumed lb) \<and>
       lb_line (lb_buf_size lb) (lb_nl_char lb) (rd m (lb_buf lb) (nat (lb_buf_consumed lb)))))"

lemma lb_no_nl:
  assumes "\<forall>k. 0 \<le> k \<and> k < int n \<longrightarrow> m (p + nat k) \<noteq> c"
  shows "c \<notin> set (rd m p n)"
proof
  assume "c \<in> set (rd m p n)"
  then obtain k where "k < n" "m (p + k) = c" by (auto simp: in_set_conv_nth)
  with assms show False by (auto dest: spec [of _ "int k"])
qed

lemma lb_continue_ok:
  assumes s: "0 < lb_buf_size lb" "0 \<le> i" "i \<le> lb_buf_used lb" "lb_buf_used lb \<le> lb_buf_size lb"
    and e: "fe_recv_stream e = None" "fe_send_packet e = None"
    and pre: "\<forall>k. 0 \<le> k \<and> k < i \<longrightarrow> m (lb_buf lb + nat k) \<noteq> lb_nl_char lb"
    and used: "0 < lb_buf_used lb \<or> i = 0"
  shows "\<exists>e'. issues (snd (lb_continue lb (lb_find m lb i))) e = Some e' \<and>
    lb_ok m (fst (lb_continue lb (lb_find m lb i))) e'"
proof -
  define f where "f = lb_find m lb i"
  have f: "i \<le> f" "f \<le> lb_buf_used lb" "\<forall>k. i \<le> k \<and> k < f \<longrightarrow> m (lb_buf lb + nat k) \<noteq> lb_nl_char lb"
    "f < lb_buf_used lb \<longrightarrow> m (lb_buf lb + nat f) = lb_nl_char lb"
    using lb_find_spec [OF s(2,3), of m] by (auto simp: f_def)
  have all: "\<forall>k. 0 \<le> k \<and> k < f \<longrightarrow> m (lb_buf lb + nat k) \<noteq> lb_nl_char lb"
    using pre f(3) by (meson not_le)
  then have nl: "lb_nl_char lb \<notin> set (rd m (lb_buf lb) (nat f))"
    using s(2) f(1) by (intro lb_no_nl) simp
  consider (found) "f < lb_buf_used lb" | (full) "f = lb_buf_used lb" "lb_buf_used lb = lb_buf_size lb"
    | (more) "f = lb_buf_used lb" "lb_buf_used lb < lb_buf_size lb" using f(2) s(4) by linarith
  then have "\<exists>e'. issues (snd (lb_continue lb f)) e = Some e' \<and> lb_ok m (fst (lb_continue lb f)) e'"
  proof cases
    case found
    have n: "nat (f + 1) = nat f + 1" using s(2) f(1) by simp
    have "lb_line (lb_buf_size lb) (lb_nl_char lb) (rd m (lb_buf lb) (nat (f + 1)))"
      unfolding n using nl found f s by (simp add: lb_line_def rd_split rd_def del: Suc_eq_plus1_left)
    with found e s f show ?thesis by (auto simp: lb_continue_def Let_def lb_ok_def)
  next
    case full
    have "lb_line (lb_buf_size lb) (lb_nl_char lb) (rd m (lb_buf lb) (nat f))"
      using nl full s by (auto simp: lb_line_def dest: in_set_butlastD simp flip: length_greater_0_conv)
    with full e s show ?thesis by (auto simp: lb_continue_def Let_def lb_ok_def)
  next
    case more
    with nl e s f show ?thesis by (auto simp: lb_continue_def Let_def lb_ok_def lb_held_def)
  qed
  then show ?thesis by (simp add: f_def)
qed

lemma lb_continue_fields [simp]:
  "lb_buf_size (fst (lb_continue lb i)) = lb_buf_size lb" "lb_nl_char (fst (lb_continue lb i)) = lb_nl_char lb"
  "lb_buf_used (fst (lb_continue lb i)) = lb_buf_used lb" "lb_buf (fst (lb_continue lb i)) = lb_buf lb"
  by (simp_all add: lb_continue_def Let_def)

definition lb_inv :: "int \<Rightarrow> byte \<Rightarrow> lb_world \<Rightarrow> bool" where
  "lb_inv sz nl w \<longleftrightarrow> lb_ok (lw_mem w) (lw_lb w) (lw_env w) \<and> lb_buf_size (lw_lb w) = sz \<and> lb_nl_char (lw_lb w) = nl \<and>
     (\<forall>l \<in> set (lw_lines w). lb_line sz nl l) \<and>
     lw_fed w = concat (lw_lines w) @ lb_held (lw_mem w) (lw_lb w)"

lemma lb_feed_ok:
  assumes inv: "lb_inv sz nl w" and r: "fe_recv_stream (lw_env w) = Some (d, n)"
    and c: "chunk \<noteq> []" "int (length chunk) \<le> n"
  shows "\<exists>w'. lb_feed chunk w = Some w' \<and> lb_inv sz nl w'"
proof -
  let ?lb = "lw_lb w" and ?m = "wr (lw_mem w) (lb_buf (lw_lb w) + nat (lb_buf_used (lw_lb w))) chunk"
  let ?lb' = "?lb\<lparr>lb_buf_used := lb_buf_used ?lb + int (length chunk)\<rparr>"
  let ?r = "lb_continue ?lb' (lb_find ?m ?lb' (lb_buf_used ?lb))"
  have s: "0 < lb_buf_size ?lb" "0 \<le> lb_buf_used ?lb" "lb_nl_char ?lb \<notin> set (lb_held (lw_mem w) ?lb)"
    "fe_send_packet (lw_env w) = None" "d = Some (lb_buf ?lb + nat (lb_buf_used ?lb))"
    "n = lb_buf_size ?lb - lb_buf_used ?lb"
    using inv r by (auto simp: lb_inv_def lb_ok_def)
  have held: "lb_held ?m ?lb' = lb_held (lw_mem w) ?lb @ chunk"
    using s(2) by (simp add: lb_held_def nat_add_distrib rd_split mem_simps)
  have pre: "\<forall>k. 0 \<le> k \<and> k < lb_buf_used ?lb \<longrightarrow> ?m (lb_buf ?lb' + nat k) \<noteq> lb_nl_char ?lb'"
  proof (intro allI impI)
    fix k assume k: "0 \<le> k \<and> k < lb_buf_used ?lb"
    then have "nat k < nat (lb_buf_used ?lb)" by simp
    then have "lw_mem w (lb_buf ?lb + nat k) \<in> set (lb_held (lw_mem w) ?lb)"
      by (auto simp: lb_held_def rd_def)
    with s(3) k show "?m (lb_buf ?lb' + nat k) \<noteq> lb_nl_char ?lb'" by (auto simp: wr_def)
  qed
  have "\<exists>e'. issues (snd ?r) ((lw_env w)\<lparr>fe_recv_stream := None\<rparr>) = Some e' \<and> lb_ok ?m (fst ?r) e'"
    by (rule lb_continue_ok) (use s c pre in \<open>simp_all add: length_greater_0_conv [symmetric] del: length_greater_0_conv\<close>)
  then obtain e' where e': "issues (snd ?r) ((lw_env w)\<lparr>fe_recv_stream := None\<rparr>) = Some e'" "lb_ok ?m (fst ?r) e'"
    by blast
  have "lb_feed chunk w = Some (w\<lparr>lw_mem := ?m, lw_lb := fst ?r, lw_env := e', lw_fed := lw_fed w @ chunk\<rparr>)"
    using r c s(5) e'(1) by (simp add: lb_feed_def LineBuffer_input_handler_done_def Let_def)
  moreover have "lb_held ?m (fst ?r) = lb_held (lw_mem w) ?lb @ chunk" using held by (simp add: lb_held_def)
  ultimately show ?thesis using inv e'(2) by (simp add: lb_inv_def)
qed

lemma lb_output_ok:
  assumes inv: "lb_inv sz nl w" and r: "fe_send_packet (lw_env w) = Some (d, n)"
  shows "\<exists>w'. lb_output w = Some w' \<and> lb_inv sz nl w'"
proof -
  let ?lb = "lw_lb w" and ?m = "lw_mem w" and ?c = "lb_buf_consumed (lw_lb w)" and ?u = "lb_buf_used (lw_lb w)"
  let ?l = "rd ?m (lb_buf ?lb) (nat ?c)"
  let ?m' = "memmove ?m (lb_buf ?lb) (lb_buf ?lb + nat ?c) (nat (?u - ?c))"
  let ?lb' = "?lb\<lparr>lb_buf_used := ?u - ?c\<rparr>"
  let ?r = "lb_continue ?lb' (lb_find ?m' ?lb' 0)"
  have s: "0 < lb_buf_size ?lb" "0 < ?c" "?c \<le> ?u" "?u \<le> lb_buf_size ?lb" "d = Some (lb_buf ?lb)" "n = ?c"
    "fe_recv_stream (lw_env w) = None" "lb_line (lb_buf_size ?lb) (lb_nl_char ?lb) ?l"
    using inv r by (auto simp: lb_inv_def lb_ok_def)
  have "\<exists>e'. issues (snd ?r) ((lw_env w)\<lparr>fe_send_packet := None\<rparr>) = Some e' \<and> lb_ok ?m' (fst ?r) e'"
    by (rule lb_continue_ok) (use s in auto)
  then obtain e' where e': "issues (snd ?r) ((lw_env w)\<lparr>fe_send_packet := None\<rparr>) = Some e'" "lb_ok ?m' (fst ?r) e'"
    by blast
  have "nat ?u = nat ?c + nat (?u - ?c)" using s(2,3) by simp
  then have "lb_held ?m ?lb = ?l @ rd ?m (lb_buf ?lb + nat ?c) (nat (?u - ?c))"
    by (simp add: lb_held_def rd_split)
  moreover have "lb_held ?m' (fst ?r) = rd ?m (lb_buf ?lb + nat ?c) (nat (?u - ?c))"
    by (simp add: lb_held_def memmove_def mem_simps)
  moreover have "lb_output w = Some (w\<lparr>lw_mem := ?m', lw_lb := fst ?r, lw_env := e', lw_lines := lw_lines w @ [?l]\<rparr>)"
    using r s(5,6) e'(1) by (simp add: lb_output_def LineBuffer_output_handler_done_def Let_def)
  ultimately show ?thesis using inv e'(2) s(8) by (auto simp: lb_inv_def)
qed

lemma lb_reach_inv:
  assumes "lb_reach w0 w" "lb_inv sz nl w0"
  shows "lb_inv sz nl w"
  using assms
proof induction
  case (lb_fed w chunk w')
  then obtain d n where "fe_recv_stream (lw_env w) = Some (d, n)" "chunk \<noteq> []" "int (length chunk) \<le> n"
    by (auto simp: lb_feed_def split: option.splits if_splits)
  with lb_feed_ok [of sz nl w d n chunk] lb_fed show ?case by auto
next
  case (lb_sent w w')
  then obtain d n where "fe_send_packet (lw_env w) = Some (d, n)"
    by (auto simp: lb_output_def split: option.splits)
  with lb_output_ok [of sz nl w d n] lb_sent show ?case by auto
qed

lemma lb_init_inv:
  assumes "lb_init m malloc sz nl = Some w0" "0 < sz"
  shows "lb_inv sz nl w0"
  using assms
  by (auto simp: lb_init_def LineBuffer_Init_def fe_idle_def lb_inv_def lb_ok_def lb_held_def split: option.splits)

section \<open>The connector across reconnections\<close>

text \<open>The environment of a connector: packets handed in by the input, packets the present or an
  earlier output reported as taken, and the packets that are on their way.\<close>

record con_world =
  cw_obj :: PacketPassConnector
  cw_env :: flow_env
  cw_accepted :: "(ptr option \<times> int) list"
  cw_taken :: "(ptr option \<times> int) list"

definition con_apply :: "con_world \<Rightarrow> flow_env \<Rightarrow> PacketPassConnector \<times> flow_call list \<Rightarrow> con_world option" where
  "con_apply w e r = (case issues (snd r) e of None \<Rightarrow> None | Some e' \<Rightarrow> Some (w\<lparr>cw_obj := fst r, cw_env := e'\<rparr>))"

definition con_input :: "ptr option \<Rightarrow> int \<Rightarrow> con_world \<Rightarrow> con_world option" where
  "con_input d n w =
     (if fe_serve_pass (cw_env w) \<noteq> None \<or> n < 0 \<or> (0 < n \<and> d = None) then None
      else con_apply (w\<lparr>cw_accepted := cw_accepted w @ [(d, n)]\<rparr>) ((cw_env w)\<lparr>fe_serve_pass := Some (d, n)\<rparr>)
             (PacketPassConnector_input_handler_send (cw_obj w) d n))"

definition con_done :: "con_world \<Rightarrow> con_world option" where
  "con_done w =
     (case fe_send_packet (cw_env w) of None \<Rightarrow> None
      | Some p \<Rightarrow> con_apply (w\<lparr>cw_taken := cw_taken w @ [p]\<rparr>) ((cw_env w)\<lparr>fe_send_packet := None\<rparr>)
                    (PacketPassConnector_output_handler_done (cw_obj w)))"

definition con_connect :: "con_world \<Rightarrow> con_world option" where
  "con_connect w = (if ppc_output (cw_obj w) then None
     else con_apply w (cw_env w) (PacketPassConnector_ConnectOutput (cw_obj w)))"

text \<open>The output goes away together with whatever was outstanding at it.\<close>

definition con_disconnect :: "con_world \<Rightarrow> con_world option" where
  "con_disconnect w = (if \<not> ppc_output (cw_obj w) then None
     else Some (w\<lparr>cw_obj := PacketPassConnector_DisconnectOutput (cw_obj w),
                  cw_env := (cw_env w)\<lparr>fe_send_packet := None\<rparr>\<rparr>))"

inductive con_reach :: "con_world \<Rightarrow> con_world \<Rightarrow> bool" for w0 where
  con_start: "con_reach w0 w0"
| con_in: "con_reach w0 w \<Longrightarrow> con_input d n w = Some w' \<Longrightarrow> con_reach w0 w'"
| con_out: "con_reach w0 w \<Longrightarrow> con_done w = Some w' \<Longrightarrow> con_reach w0 w'"
| con_on: "con_reach w0 w \<Longrightarrow> con_connect w = Some w' \<Longrightarrow> con_reach w0 w'"
| con_off: "con_reach w0 w \<Longrightarrow> con_disconnect w = Some w' \<Longrightarrow> con_reach w0 w'"

definition con_init :: "PacketPassConnector \<Rightarrow> con_world" where
  "con_init c = \<lparr>cw_obj = PacketPassConnector_Init c, cw_env = fe_idle, cw_accepted = [], cw_taken = []\<rparr>"

definition con_inv :: "con_world \<Rightarrow> bool" where
  "con_inv w \<longleftrightarrow> (let c = cw_obj w; e = cw_env w in
     (if ppc_in_len c \<ge> 0 then
        fe_serve_pass e = Some (ppc_in c, ppc_in_len c) \<and> (0 < ppc_in_len c \<longrightarrow> ppc_in c \<noteq> None) \<and>
        fe_send_packet e = (if ppc_output c then Some (ppc_in c, ppc_in_len c) else None) \<and>
        cw_accepted w = cw_taken w @ [(ppc_in c, ppc_in_len c)]
      else fe_serve_pass e = None \<and> fe_send_packet e = None \<and> cw_accepted w = cw_taken w))"

lemmas con_defs = con_apply_def con_input_def con_done_def con_connect_def con_disconnect_def con_inv_def
  PacketPassConnector_input_handler_send_def PacketPassConnector_output_handler_done_def
  PacketPassConnector_ConnectOutput_def PacketPassConnector_DisconnectOutput_def

lemma con_input_inv: "con_inv w \<Longrightarrow> con_input d n w = Some w' \<Longrightarrow> con_inv w'"
  by (auto simp: con_defs Let_def split: if_splits)

lemma con_done_inv: "con_inv w \<Longrightarrow> con_done w = Some w' \<Longrightarrow> con_inv w'"
  by (auto simp: con_defs Let_def split: if_splits)

lemma con_connect_inv: "con_inv w \<Longrightarrow> con_connect w = Some w' \<Longrightarrow> con_inv w'"
  by (auto simp: con_defs Let_def split: if_splits)

lemma con_disconnect_inv: "con_inv w \<Longrightarrow> con_disconnect w = Some w' \<Longrightarrow> con_inv w'"
  by (auto simp: con_defs Let_def split: if_splits)

lemma con_reach_inv: "con_reach (con_init c) w \<Longrightarrow> con_inv w"
proof (induction rule: con_reach.induct)
  case con_start
  show ?case by (simp add: con_init_def con_inv_def PacketPassConnector_Init_def fe_idle_def)
qed (blast intro: con_input_inv con_done_inv con_connect_inv con_disconnect_inv)+

lemma con_enabled:
  assumes "con_inv w"
  shows "fe_send_packet (cw_env w) \<noteq> None \<Longrightarrow> con_done w \<noteq> None"
    "\<not> ppc_output (cw_obj w) \<Longrightarrow> con_connect w \<noteq> None"
  using assms by (auto simp: con_defs Let_def split: if_splits)

section \<open>The writing end of PacketProtoFlow\<close>

text \<open>One packet through the three objects of a \<^verbatim>\<open>PacketProtoFlow\<close> whose buffer is waiting to receive at
  \<open>d\<close>: the encoder is asked to fill \<open>d\<close> and asks the writer to fill the place behind the header; the user
  starts a packet, writes \<open>data\<close> there and ends it; the completions travel back to the encoder and to the
  buffer. Nothing as result if some object does not make the call the next one waits for.\<close>

definition PacketProtoFlow_write ::
    "mem \<Rightarrow> PacketProtoFlow \<Rightarrow> ptr \<Rightarrow> byte list \<Rightarrow> (mem \<times> PacketProtoFlow \<times> flow_call list) option" where
  "PacketProtoFlow_write m f d data =
     (case PacketProtoEncoder_output_handler_recv (ppf_encoder f) d of (enc1, calls1) \<Rightarrow>
        (case calls1 of [Recv_Packet dst] \<Rightarrow>
           (let bw1 = BufferWriter_output_handler_recv (ppf_ainput f) dst in
            case BufferWriter_StartPacket bw1 of Some (Some q) \<Rightarrow>
              (case BufferWriter_EndPacket bw1 (int (length data)) of (bw2, calls2) \<Rightarrow>
                 (case calls2 of [PacketRecv_Done n] \<Rightarrow>
                    (case PacketProtoEncoder_input_handler_done (wr m q data) enc1 n of (m2, enc2, calls3) \<Rightarrow>
                       (case calls3 of [PacketRecv_Done n2] \<Rightarrow>
                          (case PacketBuffer_input_handler_done m2 (ppf_buffer f) n2 of (m3, buf, calls) \<Rightarrow>
                             Some (m3, \<lparr>ppf_ainput = bw2, ppf_encoder = enc2, ppf_buffer = buf\<rparr>, calls))
                        | _ \<Rightarrow> None))
                  | _ \<Rightarrow> None))
            | _ \<Rightarrow> None)
         | _ \<Rightarrow> None))"

lemma PacketProtoFlow_write_eq:
  "PacketProtoFlow_write m f d data =
     (case PacketBuffer_input_handler_done (wr m d (pp_encode data)) (ppf_buffer f) (int (length (pp_encode data))) of
        (m', buf, calls) \<Rightarrow> Some (m', \<lparr>ppf_ainput = (ppf_ainput f)\<lparr>bw_out := Some (d + 2), bw_out_have := False\<rparr>,
          ppf_encoder = (ppf_encoder f)\<lparr>ppe_output_packet := None\<rparr>, ppf_buffer = buf\<rparr>, calls))"
proof -
  have "wr (wr m (d + 2) data) d (le16 (of_nat (length data))) = wr m d (pp_encode data)"
    by (rule ext) (auto simp: wr_def pp_encode_def nth_append)
  then show ?thesis
    by (simp add: PacketProtoFlow_write_def PacketProtoEncoder_output_handler_recv_def Let_def
        BufferWriter_output_handler_recv_def BufferWriter_StartPacket_def BufferWriter_EndPacket_def
        PacketProtoEncoder_input_handler_done_def PACKETPROTO_ENCLEN_def)
qed

section \<open>Copier and inactivity monitor\<close>

text \<open>Whichever side comes first, the packet is copied once, both sides are answered once and the copier
  is back in its initial state.\<close>

lemma PacketCopier_either_order:
  assumes "pc_in_len c = - 1" "\<not> pc_out_have c" "0 \<le> n"
  shows "case PacketCopier_input_handler_send m c (Some s) n of (m1, c1, calls1) \<Rightarrow> calls1 = [] \<and> m1 = m \<and>
      (case PacketCopier_output_handler_recv m1 c1 (Some d) of (m2, c2, calls2) \<Rightarrow>
         m2 = wr m d (rd m s (nat n)) \<and> calls2 = [PacketPass_Done, PacketRecv_Done n] \<and>
         pc_in_len c2 = - 1 \<and> \<not> pc_out_have c2)"
    "case PacketCopier_output_handler_recv m c (Some d) of (m1, c1, calls1) \<Rightarrow> calls1 = [] \<and> m1 = m \<and>
      (case PacketCopier_input_handler_send m1 c1 (Some s) n of (m2, c2, calls2) \<Rightarrow>
         m2 = wr m d (rd m s (nat n)) \<and> calls2 = [PacketPass_Done, PacketRecv_Done n] \<and>
         pc_in_len c2 = - 1 \<and> \<not> pc_out_have c2)"
  using assms
  by (simp_all add: PacketCopier_input_handler_send_def PacketCopier_output_handler_recv_def memcpy_opt_def)

text \<open>The timer of the monitor runs exactly while no packet is at its output: \<open>t\<close> is whether it runs.\<close>

fun timer_after :: "flow_call list \<Rightarrow> bool \<Rightarrow> bool" where
  "timer_after [] t = t"
| "timer_after (Timer_Set # cs) t = timer_after cs True"
| "timer_after (Timer_SetAfter _ # cs) t = timer_after cs True"
| "timer_after (Timer_Remove # cs) t = timer_after cs False"
| "timer_after (_ # cs) t = timer_after cs t"

lemma PacketPassInactivityMonitor_timer:
  "timer_after (snd (PacketPassInactivityMonitor_Init h)) t"
  "\<not> timer_after (PacketPassInactivityMonitor_input_handler_send d n) t"
  "timer_after PacketPassInactivityMonitor_input_handler_requestcancel t = t"
  "timer_after PacketPassInactivityMonitor_output_handler_done t"
  "timer_after (PacketPassInactivityMonitor_timer_handler o') t"
  by (simp_all add: PacketPassInactivityMonitor_Init_def PacketPassInactivityMonitor_input_handler_send_def
      PacketPassInactivityMonitor_input_handler_requestcancel_def PacketPassInactivityMonitor_output_handler_done_def
      PacketPassInactivityMonitor_timer_handler_def)

section \<open>Properties\<close>

text \<open>A \<^verbatim>\<open>PacketStreamSender\<close> writes its packets to the stream completely and in order, however
  the stream divides its sends: the bytes emitted are always a prefix of the concatenated packets, a
  packet is reported done exactly when all its bytes were taken, packets of length 0 included, and every
  completion is handled without breaking an assertion of the interfaces.\<close>

lemma PacketStreamSender_serializes:
  assumes "pss_reach m (pss_init s) w"
  shows "prefix (sw_emitted w) (concat (sw_packets w)) \<and>
    (fe_serve_pass (sw_env w) = None \<longleftrightarrow> sw_emitted w = concat (sw_packets w)) \<and>
    (fe_serve_pass (sw_env w) = None \<longrightarrow> pss_input m p n w \<noteq> None) \<and>
    (fe_serve_pass (sw_env w) \<noteq> None \<longrightarrow>
       (\<exists>q l. fe_send_stream (sw_env w) = Some (Some q, l) \<and> 0 < l \<and>
          (\<forall>k. 0 < k \<and> int k \<le> l \<longrightarrow> pss_output m k w \<noteq> None)))"
  using pss_reach_inv [OF assms]
proof
  assume "pss_idle w"
  with pss_input_ok [OF this, of m p n] show ?thesis by (auto simp: pss_idle_def)
next
  assume b: "pss_busy m w"
  then obtain ps q l u where s: "fe_serve_pass (sw_env w) \<noteq> None" "u < l"
    "fe_send_stream (sw_env w) = Some (Some (q + u), int l - int u)"
    "sw_packets w = ps @ [rd m q l]" "sw_emitted w = concat ps @ rd m q u"
    unfolding pss_busy_def by blast
  have "rd m q l = rd m q u @ rd m (q + u) (l - u)" using s(2) rd_split [of m q u "l - u"] by simp
  then have "prefix (sw_emitted w) (concat (sw_packets w))" "sw_emitted w \<noteq> concat (sw_packets w)"
    using s by (auto simp: rd_def)
  moreover have "pss_output m k w \<noteq> None" if "0 < k \<and> int k \<le> int l - int u" for k
    using pss_output_ok [OF b s(3), of k] that by auto
  moreover have "0 < int l - int u" using s(2) by simp
  ultimately show ?thesis using s(1,3) by (intro conjI) (blast | simp)+
qed

text \<open>A \<^verbatim>\<open>LineBuffer\<close> splits its input into lines without losing or changing a byte: the lines it
  passed on and the bytes it holds are exactly the input, every line ends with the newline character and
  contains no other one, or fills the whole buffer and contains none, and the buffer is never stuck: it
  waits for at least one byte, holding no newline, or it is sending a line.\<close>

lemma LineBuffer_splits_lines:
  assumes "lb_init m malloc sz nl = Some w0" "0 < sz" "lb_reach w0 w"
  shows "lw_fed w = concat (lw_lines w) @ lb_held (lw_mem w) (lw_lb w) \<and>
    (\<forall>l \<in> set (lw_lines w). lb_line sz nl l) \<and>
    ((\<exists>d n. fe_recv_stream (lw_env w) = Some (Some d, n) \<and> 0 < n \<and> nl \<notin> set (lb_held (lw_mem w) (lw_lb w)) \<and>
        (\<forall>chunk. chunk \<noteq> [] \<and> int (length chunk) \<le> n \<longrightarrow> lb_feed chunk w \<noteq> None)) \<or>
     (fe_send_packet (lw_env w) \<noteq> None \<and> lb_output w \<noteq> None))"
proof -
  have inv: "lb_inv sz nl w" by (rule lb_reach_inv [OF assms(3) lb_init_inv [OF assms(1,2)]])
  then consider d n where "fe_recv_stream (lw_env w) = Some (Some d, n)" "0 < n"
      "nl \<notin> set (lb_held (lw_mem w) (lw_lb w))"
    | d n where "fe_send_packet (lw_env w) = Some (d, n)"
    by (auto simp: lb_inv_def lb_ok_def)
  then have "(\<exists>d n. fe_recv_stream (lw_env w) = Some (Some d, n) \<and> 0 < n \<and> nl \<notin> set (lb_held (lw_mem w) (lw_lb w)) \<and>
        (\<forall>chunk. chunk \<noteq> [] \<and> int (length chunk) \<le> n \<longrightarrow> lb_feed chunk w \<noteq> None)) \<or>
     (fe_send_packet (lw_env w) \<noteq> None \<and> lb_output w \<noteq> None)"
  proof cases
    case 1
    with lb_feed_ok [OF inv 1(1)] show ?thesis by fastforce
  next
    case 2
    with lb_output_ok [OF inv 2] show ?thesis by fastforce
  qed
  with inv show ?thesis by (simp add: lb_inv_def)
qed

text \<open>A \<^verbatim>\<open>PacketPassConnector\<close> never loses a packet across disconnections: the packets accepted
  from its input are the ones an output reported as taken, in order, followed by at most one packet that is
  still held, which is outstanding at the output whenever one is connected and is sent again when an output
  is connected later.\<close>

lemma PacketPassConnector_no_loss:
  assumes "con_reach (con_init c) w"
  shows "(\<exists>ps. cw_accepted w = cw_taken w @ ps \<and> length ps \<le> 1 \<and> (ps \<noteq> [] \<longleftrightarrow> fe_serve_pass (cw_env w) \<noteq> None) \<and>
       fe_send_packet (cw_env w) = (if ppc_output (cw_obj w) \<and> ps \<noteq> [] then Some (hd ps) else None)) \<and>
    (\<not> ppc_output (cw_obj w) \<longrightarrow> con_connect w \<noteq> None) \<and>
    (fe_send_packet (cw_env w) \<noteq> None \<longrightarrow> con_done w \<noteq> None)"
proof -
  have inv: "con_inv w" by (rule con_reach_inv [OF assms])
  let ?p = "(ppc_in (cw_obj w), ppc_in_len (cw_obj w))"
  have "\<exists>ps. cw_accepted w = cw_taken w @ ps \<and> length ps \<le> 1 \<and> (ps \<noteq> [] \<longleftrightarrow> fe_serve_pass (cw_env w) \<noteq> None) \<and>
       fe_send_packet (cw_env w) = (if ppc_output (cw_obj w) \<and> ps \<noteq> [] then Some (hd ps) else None)"
    using inv by (intro exI [of _ "if ppc_in_len (cw_obj w) \<ge> 0 then [?p] else []"])
      (auto simp: con_inv_def Let_def split: if_splits)
  with con_enabled [OF inv] show ?thesis by blast
qed

text \<open>A packet written through a \<^verbatim>\<open>PacketProtoFlow\<close> is stored in its buffer as one complete
  PacketProto frame: whenever the buffer of a reachable state waits for a packet, the writer hands out the
  place behind the header, and ending the packet appends exactly the encoding of the written bytes to the
  packets of the buffer.\<close>

lemma PacketProtoFlow_frames_packet:
  assumes "pb_reach m malloc (PACKETPROTO_ENCLEN mtu) num w" "0 \<le> mtu" "mtu \<le> PACKETPROTO_MAXPAYLOAD" "0 < num"
    and "ChunkBuffer2_calc_blocks (PACKETPROTO_ENCLEN mtu) num \<le> 536870912"
    and "fe_recv_packet (pw_env w) = Some (Some d)" "int (length data) \<le> mtu" "ppf_buffer f = pw_obj w"
    and "cb_rep (pw_mem w) (pb_buf (pw_obj w)) ps" "pw_received w = pw_sent w @ ps"
  shows "\<exists>m' f' calls. PacketProtoFlow_write (pw_mem w) f d data = Some (m', f', calls) \<and>
    cb_rep m' (pb_buf (ppf_buffer f')) (ps @ [pp_encode data]) \<and>
    ppe_output_packet (ppf_encoder f') = None \<and> \<not> bw_out_have (ppf_ainput f')"
proof -
  have M: "0 \<le> PACKETPROTO_ENCLEN mtu" using assms(2) by (simp add: PACKETPROTO_ENCLEN_def)
  obtain qs where inv: "pb_inv w qs" "pb_input_mtu (pw_obj w) = PACKETPROTO_ENCLEN mtu"
    using pb_reach_inv [OF assms(1) M assms(4,5)] by blast
  have "qs = ps" using inv(1) assms(10) by (simp add: pb_inv_def Let_def)
  have len: "int (length (pp_encode data)) \<le> pb_input_mtu (pw_obj w)"
    using assms(7) inv(2) by (simp add: PACKETPROTO_ENCLEN_def)
  obtain w' where w': "pump_receive PacketBuffer_input_handler_done (pp_encode data) w = Some w'"
    "pb_inv w' (qs @ [pp_encode data])"
    using pb_receive [OF inv(1) _ len] assms(6) by auto
  obtain m' buf calls where h: "PacketBuffer_input_handler_done (wr (pw_mem w) d (pp_encode data)) (pw_obj w)
      (int (length (pp_encode data))) = (m', buf, calls)"
    by (cases "PacketBuffer_input_handler_done (wr (pw_mem w) d (pp_encode data)) (pw_obj w)
      (int (length (pp_encode data)))")
  have "pw_mem w' = m'" "pw_obj w' = buf"
    using w'(1) h assms(6) by (auto simp: pump_receive_def split: option.splits)
  then have "cb_rep m' (pb_buf buf) (ps @ [pp_encode data])"
    using w'(2) \<open>qs = ps\<close> by (simp add: pb_inv_def Let_def)
  moreover have "PacketProtoFlow_write (pw_mem w) f d data = Some (m',
      \<lparr>ppf_ainput = (ppf_ainput f)\<lparr>bw_out := Some (d + 2), bw_out_have := False\<rparr>,
       ppf_encoder = (ppf_encoder f)\<lparr>ppe_output_packet := None\<rparr>, ppf_buffer = buf\<rparr>, calls)"
    unfolding PacketProtoFlow_write_eq assms(8) h by simp
  ultimately show ?thesis by simp
qed

end
