(* ===== verification/Fair_Queue.thy ===== *)
theory Fair_Queue
  imports Linked_Lists Misc_Size
begin

text \<open>
  \<^verbatim>\<open>flow/PacketPassFairQueue.c\<close>: several flows share one packet output; the flow that has sent least,
  measured by a 64-bit virtual time, goes first. A flow is named by its address. The list of flows
  (\<^verbatim>\<open>LinkedList1\<close>, refined in the theory of linked lists) and the search tree of queued flows
  (\<^verbatim>\<open>structure/SAvl\<close>) are represented by their sequences of elements: insertion into the tree goes in front
  of the first greater element, its first element is the head. As in the code, the tree is not reordered
  when the times of its elements change; that its order stays right is part of the invariant.
\<close>

type_synonym flow_id = nat

record PacketPassFairQueueFlow =
  fl_handler_busy :: bool
  fl_time :: u64
  fl_is_queued :: bool
  fl_queued_data :: "ptr option"
  fl_queued_data_len :: int

record PacketPassFairQueue =
  fq_use_cancel :: bool
  fq_packet_weight :: int
  fq_sending_flow :: "flow_id option"
  fq_sending_len :: int
  fq_previous_flow :: "flow_id option"
  fq_queued_tree :: "flow_id list"
  fq_flows_list :: "flow_id list"
  fq_freeing :: bool
  fq_schedule_job :: bool
  fq_flow :: "flow_id \<Rightarrow> PacketPassFairQueueFlow"

datatype fq_call =
    FQ_Sender_Send "ptr option" int
  | FQ_RequestCancel
  | FQ_Done flow_id
  | FQ_handler_busy flow_id
  | FQ_assert_failed

text \<open>An \<^verbatim>\<open>ASSERT\<close> of the code: what fails is recorded among the calls.\<close>

definition fq_assert :: "bool \<Rightarrow> fq_call list" where
  "fq_assert b = (if b then [] else [FQ_assert_failed])"

lemma fq_assert_simps [simp]: "fq_assert True = []" "fq_assert False = [FQ_assert_failed]"
  by (simp_all add: fq_assert_def)

definition FAIRQUEUE_MAX_TIME :: u64 where
  "FAIRQUEUE_MAX_TIME = - 1"

definition compare_flows :: "PacketPassFairQueue \<Rightarrow> flow_id \<Rightarrow> flow_id \<Rightarrow> int" where
  "compare_flows m f1 f2 =
     (let cmp = of_bool (fl_time (fq_flow m f1) > fl_time (fq_flow m f2)) -
                of_bool (fl_time (fq_flow m f1) < fl_time (fq_flow m f2)) in
      if cmp \<noteq> 0 then cmp else of_bool (f1 > f2) - of_bool (f1 < f2))"

text \<open>The three tree operations the queue uses.\<close>

fun fq_tree_insert :: "PacketPassFairQueue \<Rightarrow> flow_id \<Rightarrow> flow_id list \<Rightarrow> flow_id list" where
  "fq_tree_insert m f [] = [f]"
| "fq_tree_insert m f (g # gs) = (if compare_flows m f g < 0 then f # g # gs else g # fq_tree_insert m f gs)"

definition fq_tree_first :: "flow_id list \<Rightarrow> flow_id option" where
  "fq_tree_first t = (case t of [] \<Rightarrow> None | f # _ \<Rightarrow> Some f)"

definition fq_upd :: "flow_id \<Rightarrow> (PacketPassFairQueueFlow \<Rightarrow> PacketPassFairQueueFlow) \<Rightarrow> PacketPassFairQueue \<Rightarrow>
    PacketPassFairQueue" where
  "fq_upd f g m = m\<lparr>fq_flow := (fq_flow m)(f := g (fq_flow m f))\<rparr>"

definition get_current_time :: "PacketPassFairQueue \<Rightarrow> u64" where
  "get_current_time m =
     (case fq_sending_flow m of
        Some f \<Rightarrow> fl_time (fq_flow m f)
      | None \<Rightarrow>
          (let (time1, have1) = (case fq_tree_first (fq_queued_tree m) of
                  Some f \<Rightarrow> (fl_time (fq_flow m f), True) | None \<Rightarrow> (0, False));
               (time2, have2) = (case fq_previous_flow m of
                  Some p \<Rightarrow> (if \<not> have1 \<or> fl_time (fq_flow m p) < time1 then (fl_time (fq_flow m p), True)
                             else (time1, have1))
                | None \<Rightarrow> (time1, have1))
           in if have2 then time2 else 0))"

text \<open>The loop of \<^verbatim>\<open>increment_sent_flow\<close> over the list of flows.\<close>

definition fq_subtract :: "u64 \<Rightarrow> flow_id \<Rightarrow> flow_id \<Rightarrow> PacketPassFairQueue \<Rightarrow> PacketPassFairQueue" where
  "fq_subtract subtract flow someflow m =
     fq_upd someflow (\<lambda>x. if subtract > fl_time x \<and> someflow \<noteq> flow then x\<lparr>fl_time := 0\<rparr>
        else x\<lparr>fl_time := fl_time x - subtract\<rparr>) m"

definition increment_sent_flow :: "flow_id \<Rightarrow> u64 \<Rightarrow> PacketPassFairQueue \<Rightarrow> PacketPassFairQueue" where
  "increment_sent_flow flow amount m =
     (let m1 = (if amount > FAIRQUEUE_MAX_TIME - fl_time (fq_flow m flow) then
          (let subtract = (case fq_tree_first (fq_queued_tree m) of
                 None \<Rightarrow> fl_time (fq_flow m flow) | Some f \<Rightarrow> fl_time (fq_flow m f))
           in fold (fq_subtract subtract flow) (fq_flows_list m) m)
        else m)
      in fq_upd flow (\<lambda>x. x\<lparr>fl_time := fl_time x + amount\<rparr>) m1)"

text \<open>\<^verbatim>\<open>schedule\<close>; on an empty tree the code would follow a null pointer.\<close>

definition fq_schedule :: "PacketPassFairQueue \<Rightarrow> PacketPassFairQueue \<times> fq_call list" where
  "fq_schedule m =
     (case fq_tree_first (fq_queued_tree m) of
        None \<Rightarrow> (m, [FQ_assert_failed])
      | Some qflow \<Rightarrow>
          (let ok = fq_assert (fq_sending_flow m = None \<and> fq_previous_flow m = None \<and> \<not> fq_freeing m \<and> fl_is_queued (fq_flow m qflow));
               m1 = fq_upd qflow (\<lambda>x. x\<lparr>fl_is_queued := False\<rparr>) (m\<lparr>fq_queued_tree := remove1 qflow (fq_queued_tree m)\<rparr>);
               x = fq_flow m1 qflow
           in (m1\<lparr>fq_sending_flow := Some qflow, fq_sending_len := fl_queued_data_len x\<rparr>,
               ok @ [FQ_Sender_Send (fl_queued_data x) (fl_queued_data_len x)])))"

definition fq_schedule_job_handler :: "PacketPassFairQueue \<Rightarrow> PacketPassFairQueue \<times> fq_call list" where
  "fq_schedule_job_handler m =
     (let ok = fq_assert (fq_sending_flow m = None \<and> \<not> fq_freeing m);
          m1 = m\<lparr>fq_previous_flow := None\<rparr>
      in if fq_queued_tree m1 \<noteq> [] then (let (m2, cs) = fq_schedule m1 in (m2, ok @ cs)) else (m1, ok))"

definition fq_input_handler_send ::
    "flow_id \<Rightarrow> ptr option \<Rightarrow> int \<Rightarrow> PacketPassFairQueue \<Rightarrow> PacketPassFairQueue \<times> fq_call list" where
  "fq_input_handler_send flow data data_len m =
     (let ok = fq_assert (fq_sending_flow m \<noteq> Some flow \<and> \<not> fl_is_queued (fq_flow m flow) \<and> \<not> fq_freeing m);
          m1 = (if fq_previous_flow m = Some flow then m\<lparr>fq_previous_flow := None\<rparr>
                else fq_upd flow (\<lambda>x. x\<lparr>fl_time := max (fl_time x) (get_current_time m)\<rparr>) m);
          m2 = fq_upd flow (\<lambda>x. x\<lparr>fl_queued_data := data, fl_queued_data_len := data_len\<rparr>) m1;
          m3 = m2\<lparr>fq_queued_tree := fq_tree_insert m2 flow (fq_queued_tree m2)\<rparr>;
          m4 = fq_upd flow (\<lambda>x. x\<lparr>fl_is_queued := True\<rparr>) m3
      in if fq_sending_flow m4 = None \<and> \<not> fq_schedule_job m4 then (let (m5, cs) = fq_schedule m4 in (m5, ok @ cs))
         else (m4, ok))"

text \<open>Without a sending flow the code would follow a null pointer.\<close>

definition fq_output_handler_done :: "PacketPassFairQueue \<Rightarrow> PacketPassFairQueue \<times> fq_call list" where
  "fq_output_handler_done m =
     (case fq_sending_flow m of
        None \<Rightarrow> (m, [FQ_assert_failed])
      | Some flow \<Rightarrow>
          (let m1 = m\<lparr>fq_sending_flow := None, fq_previous_flow := Some flow\<rparr>;
               m2 = increment_sent_flow flow (word_of_int (fq_packet_weight m1) + word_of_int (fq_sending_len m1)) m1;
               m3 = m2\<lparr>fq_schedule_job := True\<rparr>
           in if fl_handler_busy (fq_flow m3 flow)
              then (fq_upd flow (\<lambda>x. x\<lparr>fl_handler_busy := False\<rparr>) m3, [FQ_Done flow, FQ_handler_busy flow])
              else (m3, [FQ_Done flow])))"

text \<open>Nothing as result: the output MTU is too large.\<close>

definition PacketPassFairQueue_Init ::
    "PacketPassFairQueue \<Rightarrow> int \<Rightarrow> bool \<Rightarrow> int \<Rightarrow> PacketPassFairQueue option" where
  "PacketPassFairQueue_Init m output_mtu use_cancel packet_weight =
     (if output_mtu \<le> uint FAIRQUEUE_MAX_TIME \<and> packet_weight \<le> uint FAIRQUEUE_MAX_TIME - output_mtu then
        Some (m\<lparr>fq_use_cancel := use_cancel, fq_packet_weight := packet_weight, fq_sending_flow := None,
          fq_previous_flow := None, fq_queued_tree := [], fq_flows_list := [], fq_freeing := False,
          fq_schedule_job := False\<rparr>)
      else None)"

definition PacketPassFairQueue_PrepareFree :: "PacketPassFairQueue \<Rightarrow> PacketPassFairQueue" where
  "PacketPassFairQueue_PrepareFree m = m\<lparr>fq_freeing := True\<rparr>"

definition PacketPassFairQueueFlow_Init :: "flow_id \<Rightarrow> PacketPassFairQueue \<Rightarrow> PacketPassFairQueue" where
  "PacketPassFairQueueFlow_Init flow m =
     fq_upd flow (\<lambda>x. x\<lparr>fl_handler_busy := False, fl_time := 0, fl_is_queued := False\<rparr>)
       (m\<lparr>fq_flows_list := fq_flows_list m @ [flow]\<rparr>)"

definition PacketPassFairQueueFlow_Free :: "flow_id \<Rightarrow> PacketPassFairQueue \<Rightarrow> PacketPassFairQueue" where
  "PacketPassFairQueueFlow_Free flow m =
     (let m1 = (if fq_sending_flow m = Some flow then m\<lparr>fq_sending_flow := None\<rparr> else m);
          m2 = (if fq_previous_flow m1 = Some flow then m1\<lparr>fq_previous_flow := None\<rparr> else m1);
          m3 = (if fl_is_queued (fq_flow m2 flow) then m2\<lparr>fq_queued_tree := remove1 flow (fq_queued_tree m2)\<rparr> else m2)
      in m3\<lparr>fq_flows_list := remove1 flow (fq_flows_list m3)\<rparr>)"

definition PacketPassFairQueueFlow_IsBusy :: "flow_id \<Rightarrow> PacketPassFairQueue \<Rightarrow> bool" where
  "PacketPassFairQueueFlow_IsBusy flow m \<longleftrightarrow> fq_sending_flow m = Some flow"

definition PacketPassFairQueueFlow_RequestCancel :: "flow_id \<Rightarrow> PacketPassFairQueue \<Rightarrow> fq_call list" where
  "PacketPassFairQueueFlow_RequestCancel flow m = [FQ_RequestCancel]"

definition PacketPassFairQueueFlow_SetBusyHandler ::
    "flow_id \<Rightarrow> bool \<Rightarrow> PacketPassFairQueue \<Rightarrow> PacketPassFairQueue" where
  "PacketPassFairQueueFlow_SetBusyHandler flow handler m = fq_upd flow (\<lambda>x. x\<lparr>fl_handler_busy := handler\<rparr>) m"

section \<open>Order of the tree and arithmetic of the times\<close>

abbreviation ftime :: "PacketPassFairQueue \<Rightarrow> flow_id \<Rightarrow> nat" where
  "ftime m f \<equiv> unat (fl_time (fq_flow m f))"

definition fq_less :: "PacketPassFairQueue \<Rightarrow> flow_id \<Rightarrow> flow_id \<Rightarrow> bool" where
  "fq_less m f g \<longleftrightarrow> ftime m f < ftime m g \<or> (ftime m f = ftime m g \<and> f < g)"

lemma fq_less_upd [simp]:
  "fq_less (m\<lparr>fq_schedule_job := b\<rparr>) = fq_less m" "fq_less (m\<lparr>fq_previous_flow := p\<rparr>) = fq_less m"
  "fq_less (m\<lparr>fq_sending_flow := p\<rparr>) = fq_less m" "fq_less (m\<lparr>fq_sending_len := n\<rparr>) = fq_less m"
  "fq_less (m\<lparr>fq_freeing := b\<rparr>) = fq_less m" "fq_less (m\<lparr>fq_queued_tree := t\<rparr>) = fq_less m"
  "fq_less (m\<lparr>fq_flows_list := t\<rparr>) = fq_less m"
  by (simp_all add: fq_less_def fun_eq_iff)

lemma compare_flows_less: "compare_flows m f g < 0 \<longleftrightarrow> fq_less m f g"
  by (auto simp: compare_flows_def fq_less_def word_less_nat_alt Let_def word_unat_eq_iff)

lemma fq_less_trans: "fq_less m f g \<Longrightarrow> fq_less m g h \<Longrightarrow> fq_less m f h"
  by (auto simp: fq_less_def)

lemma fq_less_total: "f \<noteq> g \<Longrightarrow> fq_less m f g \<or> fq_less m g f"
  by (auto simp: fq_less_def)

lemma fq_less_le: "fq_less m f g \<Longrightarrow> ftime m f \<le> ftime m g"
  by (auto simp: fq_less_def)

abbreviation fq_sorted :: "PacketPassFairQueue \<Rightarrow> flow_id list \<Rightarrow> bool" where
  "fq_sorted m t \<equiv> sorted_wrt (fq_less m) t"

lemma set_fq_tree_insert [simp]: "set (fq_tree_insert m f t) = insert f (set t)"
  by (induction t) auto

lemma distinct_fq_tree_insert: "f \<notin> set t \<Longrightarrow> distinct t \<Longrightarrow> distinct (fq_tree_insert m f t)"
  by (induction t) auto

lemma sorted_fq_tree_insert: "f \<notin> set t \<Longrightarrow> fq_sorted m t \<Longrightarrow> fq_sorted m (fq_tree_insert m f t)"
proof (induction t)
  case (Cons g gs)
  then show ?case
    using fq_less_total [of f g m] fq_less_trans [of m f g]
    by (auto simp: compare_flows_less)
qed simp

lemma fq_sorted_remove1: "fq_sorted m t \<Longrightarrow> fq_sorted m (remove1 f t)"
  by (induction t) (auto dest: set_remove1_subset [THEN subsetD])

lemma fq_sorted_cong:
  assumes "\<And>f g. f \<in> set t \<Longrightarrow> g \<in> set t \<Longrightarrow> fq_less m f g = fq_less m' f g"
  shows "fq_sorted m t = fq_sorted m' t"
  using assms by (induction t) auto

lemma fq_first_min:
  assumes "fq_sorted m t" "fq_tree_first t = Some f" "g \<in> set t"
  shows "ftime m f \<le> ftime m g"
  using assms by (cases t) (auto simp: fq_tree_first_def dest: fq_less_le)

lemma fq_first_in: "fq_tree_first t = Some f \<Longrightarrow> f \<in> set t"
  by (cases t) (auto simp: fq_tree_first_def)

lemma fq_first_simps [simp]: "fq_tree_first [] = None" "fq_tree_first (f # t) = Some f"
  by (simp_all add: fq_tree_first_def)

lemma unat_sub_add:
  fixes t s a :: "'w::len word"
  assumes "unat s \<le> unat t + unat a" "unat t + unat a - unat s < 2 ^ LENGTH('w)"
  shows "unat (t - s + a) = unat t + unat a - unat s"
proof -
  have "t - s + a = of_nat (unat t + unat a) - of_nat (unat s)" by simp
  also have "\<dots> = of_nat (unat t + unat a - unat s)" using assms(1) by (simp only: of_nat_diff)
  finally show ?thesis using assms(2) by (simp add: unsigned_of_nat take_bit_nat_eq_self)
qed

lemma unat_sub_le: "unat s \<le> unat t \<Longrightarrow> unat (t - s :: 'w::len word) = unat t - unat s"
  by (simp add: unat_sub word_le_nat_alt)

definition sub_flow :: "u64 \<Rightarrow> bool \<Rightarrow> PacketPassFairQueueFlow \<Rightarrow> PacketPassFairQueueFlow" where
  "sub_flow s keep x = (if s > fl_time x \<and> \<not> keep then x\<lparr>fl_time := 0\<rparr> else x\<lparr>fl_time := fl_time x - s\<rparr>)"

lemma fold_subtract:
  assumes "distinct xs"
  shows "fold (fq_subtract s f) xs m =
    m\<lparr>fq_flow := (\<lambda>g. if g \<in> set xs then sub_flow s (g = f) (fq_flow m g) else fq_flow m g)\<rparr>"
  using assms
proof (induction xs arbitrary: m)
  case (Cons x xs)
  have "fold (fq_subtract s f) (x # xs) m = fold (fq_subtract s f) xs (fq_subtract s f x m)" by simp
  also have "\<dots> = (fq_subtract s f x m)\<lparr>fq_flow :=
      (\<lambda>g. if g \<in> set xs then sub_flow s (g = f) (fq_flow (fq_subtract s f x m) g) else fq_flow (fq_subtract s f x m) g)\<rparr>"
    using Cons by simp
  also have "\<dots> = m\<lparr>fq_flow := (\<lambda>g. if g \<in> set (x # xs) then sub_flow s (g = f) (fq_flow m g) else fq_flow m g)\<rparr>"
  proof -
    have "(\<lambda>g. if g \<in> set xs then sub_flow s (g = f) (fq_flow (fq_subtract s f x m) g) else fq_flow (fq_subtract s f x m) g) =
      (\<lambda>g. if g \<in> set (x # xs) then sub_flow s (g = f) (fq_flow m g) else fq_flow m g)"
      (is "?l = ?r")
    proof
      fix g show "?l g = ?r g"
        using Cons.prems by (cases "g = x") (simp_all add: fq_subtract_def fq_upd_def sub_flow_def)
    qed
    then show ?thesis by (simp add: fq_subtract_def fq_upd_def)
  qed
  finally show ?case .
qed simp

text \<open>The amount that is subtracted from all flows, 0 when nothing overflows.\<close>

definition fq_shift :: "flow_id \<Rightarrow> u64 \<Rightarrow> PacketPassFairQueue \<Rightarrow> nat" where
  "fq_shift flow amount m =
     (if amount > FAIRQUEUE_MAX_TIME - fl_time (fq_flow m flow) then
        (case fq_tree_first (fq_queued_tree m) of None \<Rightarrow> ftime m flow | Some f \<Rightarrow> ftime m f)
      else 0)"

lemma overflow_iff: "amount > FAIRQUEUE_MAX_TIME - t \<longleftrightarrow> 2 ^ 64 \<le> unat t + unat amount"
  unfolding FAIRQUEUE_MAX_TIME_def bsize_add_overflow_iff by simp

lemma sub_flow_fields [simp]:
  "fl_is_queued (sub_flow s k x) = fl_is_queued x" "fl_handler_busy (sub_flow s k x) = fl_handler_busy x"
  "fl_queued_data (sub_flow s k x) = fl_queued_data x" "fl_queued_data_len (sub_flow s k x) = fl_queued_data_len x"
  by (simp_all add: sub_flow_def)

definition fq_shifted :: "flow_id \<Rightarrow> u64 \<Rightarrow> PacketPassFairQueue \<Rightarrow> flow_id \<Rightarrow> PacketPassFairQueueFlow" where
  "fq_shifted f a m g =
     (if a > FAIRQUEUE_MAX_TIME - fl_time (fq_flow m f) \<and> g \<in> set (fq_flows_list m)
      then sub_flow (case fq_tree_first (fq_queued_tree m) of None \<Rightarrow> fl_time (fq_flow m f)
        | Some h \<Rightarrow> fl_time (fq_flow m h)) (g = f) (fq_flow m g)
      else fq_flow m g)"

lemma increment_eq:
  assumes "distinct (fq_flows_list m)"
  shows "increment_sent_flow f a m =
    fq_upd f (\<lambda>x. x\<lparr>fl_time := fl_time x + a\<rparr>) (m\<lparr>fq_flow := fq_shifted f a m\<rparr>)"
proof (cases "a > FAIRQUEUE_MAX_TIME - fl_time (fq_flow m f)")
  case True
  then have "fq_shifted f a m = (\<lambda>g. if g \<in> set (fq_flows_list m)
      then sub_flow (case fq_tree_first (fq_queued_tree m) of None \<Rightarrow> fl_time (fq_flow m f)
        | Some h \<Rightarrow> fl_time (fq_flow m h)) (g = f) (fq_flow m g) else fq_flow m g)"
    by (simp add: fq_shifted_def fun_eq_iff)
  with True show ?thesis unfolding increment_sent_flow_def by (simp add: Let_def fold_subtract [OF assms])
next
  case False
  then have "fq_shifted f a m = fq_flow m" by (simp add: fq_shifted_def fun_eq_iff)
  with False show ?thesis by (simp add: increment_sent_flow_def)
qed

lemma fq_shifted_fields [simp]:
  "fl_is_queued (fq_shifted f a m g) = fl_is_queued (fq_flow m g)"
  "fl_handler_busy (fq_shifted f a m g) = fl_handler_busy (fq_flow m g)"
  "fl_queued_data (fq_shifted f a m g) = fl_queued_data (fq_flow m g)"
  "fl_queued_data_len (fq_shifted f a m g) = fl_queued_data_len (fq_flow m g)"
  by (simp_all add: fq_shifted_def)

lemma increment_fields [simp]:
  assumes "distinct (fq_flows_list m)"
  shows "fq_queued_tree (increment_sent_flow f a m) = fq_queued_tree m"
    "fq_flows_list (increment_sent_flow f a m) = fq_flows_list m"
    "fq_sending_flow (increment_sent_flow f a m) = fq_sending_flow m"
    "fq_previous_flow (increment_sent_flow f a m) = fq_previous_flow m"
    "fq_sending_len (increment_sent_flow f a m) = fq_sending_len m"
    "fq_packet_weight (increment_sent_flow f a m) = fq_packet_weight m"
    "fq_freeing (increment_sent_flow f a m) = fq_freeing m"
    "fq_schedule_job (increment_sent_flow f a m) = fq_schedule_job m"
    "fl_is_queued (fq_flow (increment_sent_flow f a m) g) = fl_is_queued (fq_flow m g)"
    "fl_handler_busy (fq_flow (increment_sent_flow f a m) g) = fl_handler_busy (fq_flow m g)"
    "fl_queued_data (fq_flow (increment_sent_flow f a m) g) = fl_queued_data (fq_flow m g)"
    "fl_queued_data_len (fq_flow (increment_sent_flow f a m) g) = fl_queued_data_len (fq_flow m g)"
  unfolding increment_eq [OF assms] by (simp_all add: fq_upd_def)

lemma increment_times:
  fixes a :: u64
  assumes d: "distinct (fq_flows_list m)" and f: "f \<in> set (fq_flows_list m)"
    and t: "set (fq_queued_tree m) \<subseteq> set (fq_flows_list m)" "f \<notin> set (fq_queued_tree m)" "fq_sorted m (fq_queued_tree m)"
    and min: "\<And>g. g \<in> set (fq_queued_tree m) \<Longrightarrow> ftime m f \<le> ftime m g"
  defines "s \<equiv> fq_shift f a m" and "m' \<equiv> increment_sent_flow f a m"
  shows "s \<le> ftime m f + unat a" "ftime m' f = ftime m f + unat a - s"
    "\<And>g. g \<in> set (fq_queued_tree m) \<Longrightarrow> s \<le> ftime m g \<and> ftime m' g = ftime m g - s"
    "\<And>g. g \<in> set (fq_flows_list m) \<Longrightarrow> g \<noteq> f \<Longrightarrow> ftime m' g = ftime m g - s"
proof -
  let ?t = "\<lambda>g. fl_time (fq_flow m g)"
  have "s \<le> ftime m f + unat a \<and> ftime m' f = ftime m f + unat a - s \<and>
    (\<forall>g \<in> set (fq_queued_tree m). s \<le> ftime m g) \<and>
    (\<forall>g. g \<in> set (fq_flows_list m) \<longrightarrow> g \<noteq> f \<longrightarrow> ftime m' g = ftime m g - s)"
  proof (cases "2 ^ 64 \<le> ftime m f + unat a")
    case False
    then have s: "s = 0" and no: "\<not> a > FAIRQUEUE_MAX_TIME - ?t f" by (simp_all add: s_def fq_shift_def overflow_iff)
    have "unat (?t f + a) = ftime m f + unat a" using False by (simp add: unat_word_ariths)
    with no s show ?thesis by (simp add: m'_def increment_eq [OF d] fq_upd_def fq_shifted_def)
  next
    case True
    then have ov: "a > FAIRQUEUE_MAX_TIME - ?t f" by (simp add: overflow_iff)
    define sw where "sw = (case fq_tree_first (fq_queued_tree m) of None \<Rightarrow> ?t f | Some g \<Rightarrow> ?t g)"
    have s: "s = unat sw" using ov by (cases "fq_queued_tree m") (simp_all add: s_def fq_shift_def sw_def)
    have sf: "ftime m f \<le> unat sw"
      using min by (cases "fq_queued_tree m") (simp_all add: sw_def)
    have sq: "\<forall>g \<in> set (fq_queued_tree m). unat sw \<le> ftime m g"
      using fq_first_min [OF t(3)] by (cases "fq_queued_tree m") (simp_all add: sw_def)
    have b: "unat sw < 2 ^ 64" "unat a < 2 ^ 64" using unsigned_less [of sw] unsigned_less [of a] by simp_all
    have m': "fq_flow m' g = (if g = f then (fq_flow m f)\<lparr>fl_time := ?t f - sw + a\<rparr>
        else if g \<in> set (fq_flows_list m) then sub_flow sw False (fq_flow m g) else fq_flow m g)" for g
      using ov f by (simp add: m'_def increment_eq [OF d] fq_upd_def fq_shifted_def sw_def [symmetric])
        (simp add: sub_flow_def)
    have "unat (?t f - sw + a) = ftime m f + unat a - unat sw"
      by (rule unat_sub_add) (use True b sf in \<open>simp_all\<close>)
    moreover have "unat (fl_time (sub_flow sw False x)) = unat (fl_time x) - unat sw" for x
      by (auto simp: sub_flow_def word_less_nat_alt unat_sub_le not_less)
    ultimately show ?thesis using m' s sq True b by simp
  qed
  then show "s \<le> ftime m f + unat a" "ftime m' f = ftime m f + unat a - s"
    "\<And>g. g \<in> set (fq_flows_list m) \<Longrightarrow> g \<noteq> f \<Longrightarrow> ftime m' g = ftime m g - s"
    "\<And>g. g \<in> set (fq_queued_tree m) \<Longrightarrow> s \<le> ftime m g \<and> ftime m' g = ftime m g - s"
    using t(1,2) by blast+
qed

section \<open>Steps and invariant\<close>

definition fq_inv :: "int \<Rightarrow> PacketPassFairQueue \<Rightarrow> bool" where
  "fq_inv mtu m \<longleftrightarrow>
     distinct (fq_flows_list m) \<and> distinct (fq_queued_tree m) \<and> set (fq_queued_tree m) \<subseteq> set (fq_flows_list m) \<and>
     (\<forall>f \<in> set (fq_flows_list m). fl_is_queued (fq_flow m f) \<longleftrightarrow> f \<in> set (fq_queued_tree m)) \<and>
     fq_sorted m (fq_queued_tree m) \<and>
     (\<forall>f \<in> set (fq_queued_tree m). 0 \<le> fl_queued_data_len (fq_flow m f) \<and> fl_queued_data_len (fq_flow m f) \<le> mtu) \<and>
     (\<forall>f. fq_sending_flow m = Some f \<longrightarrow> f \<in> set (fq_flows_list m) \<and> f \<notin> set (fq_queued_tree m) \<and>
        fq_previous_flow m = None \<and> \<not> fq_schedule_job m \<and> 0 \<le> fq_sending_len m \<and> fq_sending_len m \<le> mtu \<and>
        (\<forall>g \<in> set (fq_queued_tree m). ftime m f \<le> ftime m g)) \<and>
     (\<forall>f. fq_previous_flow m = Some f \<longrightarrow> f \<in> set (fq_flows_list m) \<and> f \<notin> set (fq_queued_tree m) \<and> fq_schedule_job m) \<and>
     (fq_queued_tree m \<noteq> [] \<and> \<not> fq_freeing m \<longrightarrow> fq_sending_flow m \<noteq> None \<or> fq_schedule_job m)"

text \<open>The steps of a queue whose users keep the conditions the code asserts. The schedule job is no longer
  set when its handler runs.\<close>

inductive fq_step :: "int \<Rightarrow> PacketPassFairQueue \<Rightarrow> fq_call list \<Rightarrow> PacketPassFairQueue \<Rightarrow> bool" for mtu where
  fq_new: "f \<notin> set (fq_flows_list m) \<Longrightarrow> \<not> fq_freeing m \<Longrightarrow> fq_step mtu m [] (PacketPassFairQueueFlow_Init f m)"
| fq_free: "f \<in> set (fq_flows_list m) \<Longrightarrow> fq_freeing m \<or> fq_sending_flow m \<noteq> Some f \<Longrightarrow>
    fq_step mtu m [] (PacketPassFairQueueFlow_Free f m)"
| fq_send: "f \<in> set (fq_flows_list m) \<Longrightarrow> fq_sending_flow m \<noteq> Some f \<Longrightarrow> \<not> fl_is_queued (fq_flow m f) \<Longrightarrow>
    \<not> fq_freeing m \<Longrightarrow> 0 \<le> n \<Longrightarrow> n \<le> mtu \<Longrightarrow> fq_input_handler_send f d n m = (m', cs) \<Longrightarrow> fq_step mtu m cs m'"
| fq_done: "fq_sending_flow m \<noteq> None \<Longrightarrow> \<not> fq_freeing m \<Longrightarrow> fq_output_handler_done m = (m', cs) \<Longrightarrow> fq_step mtu m cs m'"
| fq_job: "fq_schedule_job m \<Longrightarrow> \<not> fq_freeing m \<Longrightarrow>
    fq_schedule_job_handler (m\<lparr>fq_schedule_job := False\<rparr>) = (m', cs) \<Longrightarrow> fq_step mtu m cs m'"
| fq_busy: "fq_sending_flow m = Some f \<Longrightarrow> \<not> fq_freeing m \<Longrightarrow>
    fq_step mtu m [] (PacketPassFairQueueFlow_SetBusyHandler f h m)"
| fq_prepare: "fq_step mtu m [] (PacketPassFairQueue_PrepareFree m)"

inductive fq_reach :: "int \<Rightarrow> PacketPassFairQueue \<Rightarrow> PacketPassFairQueue \<Rightarrow> bool" for mtu m0 where
  fq_start: "fq_reach mtu m0 m0"
| fq_next: "fq_reach mtu m0 m \<Longrightarrow> fq_step mtu m cs m' \<Longrightarrow> fq_reach mtu m0 m'"

lemma fq_sorted_upd:
  assumes "f \<notin> set t" "fq_sorted m t" "\<And>g. g \<noteq> f \<Longrightarrow> fl_time (fq_flow m' g) = fl_time (fq_flow m g)"
  shows "fq_sorted m' t"
proof -
  have "fq_less m x y = fq_less m' x y" if "x \<in> set t" "y \<in> set t" for x y
    using assms(1,3) that by (metis fq_less_def)
  with assms(2) fq_sorted_cong show ?thesis by blast
qed

text \<open>\<^verbatim>\<open>schedule\<close> from a state with queued flows and no sending flow.\<close>

lemma fq_schedule_inv:
  assumes inv: "fq_inv mtu (m\<lparr>fq_schedule_job := True\<rparr>)" and idle: "fq_sending_flow m = None" "fq_previous_flow m = None"
    "\<not> fq_schedule_job m" "\<not> fq_freeing m" and ne: "fq_queued_tree m \<noteq> []"
  shows "fq_inv mtu (fst (fq_schedule m)) \<and>
    (\<exists>f. fq_sending_flow (fst (fq_schedule m)) = Some f \<and> f \<in> set (fq_queued_tree m) \<and>
       insert f (set (fq_queued_tree (fst (fq_schedule m)))) = set (fq_queued_tree m) \<and> fq_freeing (fst (fq_schedule m)) = fq_freeing m \<and>
       snd (fq_schedule m) = [FQ_Sender_Send (fl_queued_data (fq_flow m f)) (fl_queued_data_len (fq_flow m f))] \<and>
       (\<forall>g \<in> set (fq_queued_tree m). ftime m f \<le> ftime m g))"
proof -
  obtain f t where t: "fq_queued_tree m = f # t" using ne by (cases "fq_queued_tree m") auto
  have q: "fl_is_queued (fq_flow m f)" using inv t by (auto simp: fq_inv_def)
  let ?m = "fst (fq_schedule m)"
  have m: "?m = m\<lparr>fq_queued_tree := t, fq_flow := (fq_flow m)(f := (fq_flow m f)\<lparr>fl_is_queued := False\<rparr>),
      fq_sending_flow := Some f, fq_sending_len := fl_queued_data_len (fq_flow m f)\<rparr>"
    "snd (fq_schedule m) = [FQ_Sender_Send (fl_queued_data (fq_flow m f)) (fl_queued_data_len (fq_flow m f))]"
    using q idle by (simp_all add: fq_schedule_def t fq_tree_first_def fq_upd_def Let_def)
  have i: "distinct (fq_flows_list m)" "f \<notin> set t" "distinct t" "f \<in> set (fq_flows_list m)" "set t \<subseteq> set (fq_flows_list m)"
    "\<forall>g \<in> set (fq_flows_list m). fl_is_queued (fq_flow m g) \<longleftrightarrow> g \<in> set (f # t)"
    "fq_sorted m (f # t)"
    "\<forall>g \<in> set (f # t). 0 \<le> fl_queued_data_len (fq_flow m g) \<and> fl_queued_data_len (fq_flow m g) \<le> mtu"
    using inv t by (auto simp: fq_inv_def)
  have le: "\<forall>g \<in> set t. ftime m f \<le> ftime m g" using i(7) fq_less_le by auto
  have s: "fq_sorted ?m t" by (rule fq_sorted_upd [of f]) (use i(2,7) in \<open>simp_all add: m\<close>)
  have tm: "ftime ?m g = ftime m g" for g by (simp add: m)
  have "fq_inv mtu ?m"
    unfolding fq_inv_def using i s le tm idle by (auto simp: m)
  with m t le show ?thesis by simp
qed

lemma fq_new_inv:
  assumes "fq_inv mtu m" "f \<notin> set (fq_flows_list m)"
  shows "fq_inv mtu (PacketPassFairQueueFlow_Init f m)"
proof -
  let ?m = "PacketPassFairQueueFlow_Init f m"
  have f: "f \<notin> set (fq_queued_tree m)" using assms by (auto simp: fq_inv_def)
  have "fq_sorted ?m (fq_queued_tree m)"
    by (rule fq_sorted_upd [of f]) (use f assms(1) in \<open>simp_all add: fq_inv_def PacketPassFairQueueFlow_Init_def fq_upd_def\<close>)
  with assms f show ?thesis
    by (auto simp: fq_inv_def PacketPassFairQueueFlow_Init_def fq_upd_def)
qed

lemma fq_free_inv:
  assumes "fq_inv mtu m" "f \<in> set (fq_flows_list m)" "fq_freeing m \<or> fq_sending_flow m \<noteq> Some f"
  shows "fq_inv mtu (PacketPassFairQueueFlow_Free f m)"
proof -
  have d: "distinct (fq_flows_list m)" "distinct (fq_queued_tree m)"
    and q: "fl_is_queued (fq_flow m f) \<longleftrightarrow> f \<in> set (fq_queued_tree m)"
    and s: "fq_sorted m (fq_queued_tree m)"
    using assms by (auto simp: fq_inv_def)
  define m' where "m' = PacketPassFairQueueFlow_Free f m"
  have m': "fq_flow m' = fq_flow m" "fq_freeing m' = fq_freeing m" "fq_schedule_job m' = fq_schedule_job m"
    "fq_sending_len m' = fq_sending_len m" "fq_flows_list m' = remove1 f (fq_flows_list m)"
    "fq_queued_tree m' = remove1 f (fq_queued_tree m)"
    "fq_sending_flow m' = (if fq_sending_flow m = Some f then None else fq_sending_flow m)"
    "fq_previous_flow m' = (if fq_previous_flow m = Some f then None else fq_previous_flow m)"
    using q by (auto simp: m'_def PacketPassFairQueueFlow_Free_def Let_def remove1_idem)
  have "fq_sorted m' (remove1 f (fq_queued_tree m)) = fq_sorted m (remove1 f (fq_queued_tree m))"
    by (rule fq_sorted_cong) (simp add: fq_less_def m')
  then have "fq_sorted m' (fq_queued_tree m')" using s by (simp add: m' fq_sorted_remove1)
  moreover have "fq_queued_tree m' \<noteq> [] \<Longrightarrow> fq_queued_tree m \<noteq> []" by (auto simp: m')
  ultimately show ?thesis unfolding m'_def [symmetric]
    using assms d unfolding fq_inv_def by (auto simp: m' set_remove1_eq)
qed

lemma current_time_sending: "fq_sending_flow m = Some s \<Longrightarrow> get_current_time m = fl_time (fq_flow m s)"
  by (simp add: get_current_time_def)

text \<open>A flow that queues a packet is inserted behind the sending flow.\<close>

lemma fq_enqueue_inv:
  fixes d :: "ptr option"
  assumes inv: "fq_inv mtu m" and f: "f \<in> set (fq_flows_list m)" "fq_sending_flow m \<noteq> Some f"
    "\<not> fl_is_queued (fq_flow m f)" and n: "0 \<le> n" "n \<le> mtu"
  defines "m1 \<equiv> (if fq_previous_flow m = Some f then m\<lparr>fq_previous_flow := None\<rparr>
                else fq_upd f (\<lambda>x. x\<lparr>fl_time := max (fl_time x) (get_current_time m)\<rparr>) m)"
  defines "m2 \<equiv> fq_upd f (\<lambda>x. x\<lparr>fl_queued_data := d, fl_queued_data_len := n\<rparr>) m1"
  defines "m3 \<equiv> m2\<lparr>fq_queued_tree := fq_tree_insert m2 f (fq_queued_tree m2)\<rparr>"
  defines "m4 \<equiv> fq_upd f (\<lambda>x. x\<lparr>fl_is_queued := True\<rparr>) m3"
  shows "fq_inv mtu (m4\<lparr>fq_schedule_job := (fq_sending_flow m4 = None)\<rparr>)"
    "fq_sending_flow m4 = fq_sending_flow m" "fq_schedule_job m4 = fq_schedule_job m" "fq_freeing m4 = fq_freeing m"
    "fq_queued_tree m4 \<noteq> []" "fq_previous_flow m4 = (if fq_previous_flow m = Some f then None else fq_previous_flow m)"
    "fq_sending_flow m \<noteq> None \<Longrightarrow> \<not> fq_schedule_job m"
proof -
  let ?t = "fq_queued_tree m"
  have nq: "f \<notin> set ?t" using inv f by (auto simp: fq_inv_def)
  have other: "g \<noteq> f \<Longrightarrow> fq_flow m4 g = fq_flow m g" for g
    by (auto simp: m4_def m3_def m2_def m1_def fq_upd_def)
  have fields: "fq_flows_list m4 = fq_flows_list m" "fq_sending_flow m4 = fq_sending_flow m"
    "fq_schedule_job m4 = fq_schedule_job m" "fq_freeing m4 = fq_freeing m" "fq_sending_len m4 = fq_sending_len m"
    "fq_previous_flow m4 = (if fq_previous_flow m = Some f then None else fq_previous_flow m)"
    "fq_queued_tree m4 = fq_tree_insert m2 f ?t" "fl_is_queued (fq_flow m4 f)" "fl_queued_data_len (fq_flow m4 f) = n"
    by (auto simp: m4_def m3_def m2_def m1_def fq_upd_def)
  have tm: "fl_time (fq_flow m4 g) = fl_time (fq_flow m2 g)" for g by (simp add: m4_def m3_def fq_upd_def)
  have "fq_sorted m2 ?t"
    by (rule fq_sorted_upd [of f _ m]) (use nq inv in \<open>auto simp: m2_def m1_def fq_upd_def fq_inv_def\<close>)
  then have "fq_sorted m2 (fq_tree_insert m2 f ?t)" using nq by (rule sorted_fq_tree_insert [rotated])
  moreover have "fq_sorted (m4\<lparr>fq_schedule_job := j\<rparr>) u = fq_sorted m2 u" for j u
    by (rule fq_sorted_cong) (simp add: fq_less_def tm)
  ultimately have sorted: "fq_sorted (m4\<lparr>fq_schedule_job := j\<rparr>) (fq_tree_insert m2 f ?t)" for j by simp
  have raise: "ftime m s \<le> ftime m4 f" if "fq_sending_flow m = Some s" for s
  proof -
    have "fq_previous_flow m \<noteq> Some f" using inv that by (auto simp: fq_inv_def)
    then have "fl_time (fq_flow m4 f) = max (fl_time (fq_flow m f)) (fl_time (fq_flow m s))"
      using that by (simp add: tm m2_def m1_def fq_upd_def current_time_sending)
    then show ?thesis by (simp add: max_def word_le_nat_alt)
  qed
  have dt: "distinct (fq_tree_insert m2 f ?t)" using nq inv by (simp add: distinct_fq_tree_insert fq_inv_def)
  show "fq_inv mtu (m4\<lparr>fq_schedule_job := (fq_sending_flow m4 = None)\<rparr>)"
  proof -
    have "0 \<le> fl_queued_data_len (fq_flow m4 g) \<and> fl_queued_data_len (fq_flow m4 g) \<le> mtu" if "g \<in> insert f (set ?t)" for g
      using that inv n fields(9) other [of g] by (cases "g = f") (auto simp: fq_inv_def)
    moreover have "fl_is_queued (fq_flow m4 g) \<longleftrightarrow> g \<in> insert f (set ?t)" if "g \<in> set (fq_flows_list m)" for g
      using that inv fields(8) other [of g] by (cases "g = f") (auto simp: fq_inv_def)
    moreover have "ftime m4 s \<le> ftime m4 g" if "fq_sending_flow m = Some s" "g \<in> insert f (set ?t)" for s g
      using that inv raise [OF that(1)] other [of g] other [of s] f(2) by (cases "g = f") (auto simp: fq_inv_def)
    ultimately show ?thesis
      using inv f nq sorted dt unfolding fq_inv_def by (auto simp: fields)
  qed
  show "fq_queued_tree m4 \<noteq> []" using fields(7) by (metis insert_not_empty set_empty set_fq_tree_insert)
  show "fq_sending_flow m \<noteq> None \<Longrightarrow> \<not> fq_schedule_job m" using inv by (auto simp: fq_inv_def)
qed (simp_all add: m4_def m3_def m2_def m1_def fq_upd_def)

lemma fq_inv_job:
  assumes "fq_inv mtu m" "fq_sending_flow m = None"
  shows "fq_inv mtu (m\<lparr>fq_schedule_job := True\<rparr>)"
  using assms by (auto simp: fq_inv_def)

text \<open>What a step does to the output: nothing, or one packet is passed to an idle output.\<close>

definition fq_output :: "PacketPassFairQueue \<Rightarrow> flow_id set \<Rightarrow> PacketPassFairQueue \<times> fq_call list \<Rightarrow> bool" where
  "fq_output m waiting r \<longleftrightarrow> fq_freeing (fst r) = fq_freeing m \<and>
     (snd r = [] \<and> fq_sending_flow (fst r) = fq_sending_flow m \<and> set (fq_queued_tree (fst r)) = waiting \<or>
      (\<exists>p n f. snd r = [FQ_Sender_Send p n] \<and> fq_sending_flow m = None \<and> fq_sending_flow (fst r) = Some f \<and>
         insert f (set (fq_queued_tree (fst r))) = waiting))"

lemma fq_send_inv:
  assumes inv: "fq_inv mtu m" and f: "f \<in> set (fq_flows_list m)" "fq_sending_flow m \<noteq> Some f"
    "\<not> fl_is_queued (fq_flow m f)" "\<not> fq_freeing m" and n: "0 \<le> n" "n \<le> mtu"
  shows "fq_inv mtu (fst (fq_input_handler_send f d n m)) \<and>
    fq_output m (insert f (set (fq_queued_tree m))) (fq_input_handler_send f d n m)"
proof -
  define m1 where "m1 = (if fq_previous_flow m = Some f then m\<lparr>fq_previous_flow := None\<rparr>
                else fq_upd f (\<lambda>x. x\<lparr>fl_time := max (fl_time x) (get_current_time m)\<rparr>) m)"
  define m2 where "m2 = fq_upd f (\<lambda>x. x\<lparr>fl_queued_data := d, fl_queued_data_len := n\<rparr>) m1"
  define m3 where "m3 = m2\<lparr>fq_queued_tree := fq_tree_insert m2 f (fq_queued_tree m2)\<rparr>"
  define m4 where "m4 = fq_upd f (\<lambda>x. x\<lparr>fl_is_queued := True\<rparr>) m3"
  note e = fq_enqueue_inv(1-6) [OF inv f(1-3) n, of d, folded m1_def, folded m2_def, folded m3_def, folded m4_def]
    fq_enqueue_inv(7) [OF inv f(1-3) n]
  have h: "fq_input_handler_send f d n m =
      (if fq_sending_flow m4 = None \<and> \<not> fq_schedule_job m4 then fq_schedule m4 else (m4, []))"
    using f by (simp add: fq_input_handler_send_def Let_def m1_def m2_def m3_def m4_def case_prod_beta)
  have t: "set (fq_queued_tree m4) = insert f (set (fq_queued_tree m))"
    by (auto simp: m4_def m3_def m2_def m1_def fq_upd_def)
  show ?thesis
  proof (cases "fq_sending_flow m4 = None \<and> \<not> fq_schedule_job m4")
    case True
    have "fq_previous_flow m4 = None" using inv True e(2,3,6) by (cases "fq_previous_flow m") (auto simp: fq_inv_def)
    with fq_schedule_inv [of mtu m4] e True h f(4) t show ?thesis by (auto simp: fq_output_def)
  next
    case False
    then have "(fq_sending_flow m4 = None) = fq_schedule_job m4" using e(2,3,7) by (cases "fq_sending_flow m") auto
    then have "m4\<lparr>fq_schedule_job := (fq_sending_flow m4 = None)\<rparr> = m4" by simp
    with e(1,2,4) h False t show ?thesis by (auto simp: fq_output_def)
  qed
qed

lemma fq_job_inv:
  assumes inv: "fq_inv mtu m" and j: "fq_schedule_job m" and fr: "\<not> fq_freeing m"
  defines "m' \<equiv> m\<lparr>fq_schedule_job := False\<rparr>"
  shows "fq_inv mtu (fst (fq_schedule_job_handler m')) \<and> fq_output m (set (fq_queued_tree m)) (fq_schedule_job_handler m')"
proof -
  let ?m = "m\<lparr>fq_schedule_job := False, fq_previous_flow := None\<rparr>"
  have s: "fq_sending_flow m = None" using inv j by (auto simp: fq_inv_def)
  have i: "fq_inv mtu (?m\<lparr>fq_schedule_job := True\<rparr>)" using inv s by (auto simp: fq_inv_def)
  show ?thesis
  proof (cases "fq_queued_tree m = []")
    case True
    then have "fq_inv mtu ?m" using inv s by (auto simp: fq_inv_def)
    with True s fr show ?thesis by (simp add: fq_schedule_job_handler_def fq_output_def m'_def Let_def)
  next
    case False
    with fq_schedule_inv [OF i] s fr show ?thesis
      by (auto simp: fq_schedule_job_handler_def fq_output_def m'_def Let_def case_prod_beta)
  qed
qed

definition fq_amount :: "PacketPassFairQueue \<Rightarrow> u64" where
  "fq_amount m = word_of_int (fq_packet_weight m) + word_of_int (fq_sending_len m)"

lemma fq_done_eq:
  assumes "fq_sending_flow m = Some f"
  shows "fst (fq_output_handler_done m) =
    (let m3 = (increment_sent_flow f (fq_amount m) (m\<lparr>fq_sending_flow := None, fq_previous_flow := Some f\<rparr>))\<lparr>fq_schedule_job := True\<rparr>
     in if fl_handler_busy (fq_flow m3 f) then fq_upd f (\<lambda>x. x\<lparr>fl_handler_busy := False\<rparr>) m3 else m3)"
  using assms by (simp add: fq_output_handler_done_def fq_amount_def Let_def)

text \<open>What a completed send does to the times: the flow that sent is charged, and either nothing else
  changes or every flow is moved back by the same amount, which keeps all differences that matter.\<close>

lemma fq_done_times:
  assumes inv: "fq_inv mtu m" and f: "fq_sending_flow m = Some f"
  defines "m' \<equiv> fst (fq_output_handler_done m)"
  shows "\<exists>s. s \<le> ftime m f + unat (fq_amount m) \<and> ftime m' f = ftime m f + unat (fq_amount m) - s \<and>
    (\<forall>g \<in> set (fq_queued_tree m). s \<le> ftime m g) \<and>
    (\<forall>g \<in> set (fq_flows_list m) - {f}. ftime m' g = ftime m g - s) \<and>
    (s \<noteq> 0 \<longrightarrow> 2 ^ 64 \<le> ftime m f + unat (fq_amount m))"
proof -
  let ?m1 = "m\<lparr>fq_sending_flow := None, fq_previous_flow := Some f\<rparr>" and ?a = "fq_amount m"
  have t: "fl_time (fq_flow m' g) = fl_time (fq_flow (increment_sent_flow f ?a ?m1) g)" for g
    by (simp add: m'_def fq_done_eq [OF f] Let_def fq_upd_def)
  have i: "distinct (fq_flows_list ?m1)" "f \<in> set (fq_flows_list ?m1)"
    "set (fq_queued_tree ?m1) \<subseteq> set (fq_flows_list ?m1)" "f \<notin> set (fq_queued_tree ?m1)"
    "fq_sorted ?m1 (fq_queued_tree ?m1)" "\<And>g. g \<in> set (fq_queued_tree ?m1) \<Longrightarrow> ftime ?m1 f \<le> ftime ?m1 g"
    using inv f by (auto simp: fq_inv_def)
  note r = increment_times [OF i, where a = ?a]
  have "fq_shift f ?a ?m1 \<noteq> 0 \<longrightarrow> 2 ^ 64 \<le> ftime m f + unat ?a"
    by (simp add: fq_shift_def overflow_iff)
  with r show ?thesis by (intro exI [of _ "fq_shift f ?a ?m1"]) (simp add: t)
qed

lemma fq_done_inv:
  assumes inv: "fq_inv mtu m" and f: "fq_sending_flow m = Some f"
  shows "fq_inv mtu (fst (fq_output_handler_done m))"
proof -
  let ?m1 = "m\<lparr>fq_sending_flow := None, fq_previous_flow := Some f\<rparr>"
  define m' where "m' = fst (fq_output_handler_done m)"
  have d: "distinct (fq_flows_list ?m1)" using inv by (simp add: fq_inv_def)
  have fields: "fq_flows_list m' = fq_flows_list m" "fq_queued_tree m' = fq_queued_tree m" "fq_sending_flow m' = None"
    "fq_previous_flow m' = Some f" "fq_schedule_job m'"
    "fl_is_queued (fq_flow m' g) = fl_is_queued (fq_flow m g)"
    "fl_queued_data_len (fq_flow m' g) = fl_queued_data_len (fq_flow m g)" for g
    using increment_fields [OF d, of f "fq_amount m"]
    by (auto simp: m'_def fq_done_eq [OF f] Let_def fq_upd_def)
  obtain s where s: "\<forall>g \<in> set (fq_queued_tree m). s \<le> ftime m g" "\<forall>g \<in> set (fq_flows_list m) - {f}. ftime m' g = ftime m g - s"
    using fq_done_times [OF inv f] by (auto simp: m'_def)
  have q: "f \<notin> set (fq_queued_tree m)" "set (fq_queued_tree m) \<subseteq> set (fq_flows_list m)" "f \<in> set (fq_flows_list m)"
    using inv f by (auto simp: fq_inv_def)
  have "fq_less m x y = fq_less m' x y" if xy: "x \<in> set (fq_queued_tree m)" "y \<in> set (fq_queued_tree m)" for x y
  proof -
    have "ftime m' x = ftime m x - s" "ftime m' y = ftime m y - s" "s \<le> ftime m x" "s \<le> ftime m y"
      using xy q s by auto
    then show ?thesis by (auto simp: fq_less_def)
  qed
  then have "fq_sorted m' (fq_queued_tree m) = fq_sorted m (fq_queued_tree m)" by (intro fq_sorted_cong) auto
  then have "fq_sorted m' (fq_queued_tree m)" using inv by (simp add: fq_inv_def)
  then show ?thesis unfolding m'_def [symmetric]
    using inv q unfolding fq_inv_def by (auto simp: fields)
qed

lemma fq_step_inv: "fq_step mtu m cs m' \<Longrightarrow> fq_inv mtu m \<Longrightarrow> fq_inv mtu m'"
proof (induction rule: fq_step.induct)
  case (fq_send f m n d m' cs)
  then show ?case using fq_send_inv [of mtu m f n d] by simp
next
  case (fq_done m m' cs)
  then show ?case using fq_done_inv [of mtu m] by auto
next
  case (fq_job m m' cs)
  then show ?case using fq_job_inv [of mtu m] by simp
next
  case (fq_busy m f h)
  let ?m = "PacketPassFairQueueFlow_SetBusyHandler f h m"
  have "fq_sorted ?m t = fq_sorted m t" for t
    by (rule fq_sorted_cong) (simp add: fq_less_def PacketPassFairQueueFlow_SetBusyHandler_def fq_upd_def)
  with fq_busy show ?case by (auto simp: fq_inv_def PacketPassFairQueueFlow_SetBusyHandler_def fq_upd_def)
next
  case (fq_prepare m)
  then show ?case by (auto simp: fq_inv_def PacketPassFairQueue_PrepareFree_def)
qed (auto intro: fq_new_inv fq_free_inv)

lemma fq_reach_inv: "fq_reach mtu m0 m \<Longrightarrow> fq_inv mtu m0 \<Longrightarrow> fq_inv mtu m"
  by (induction rule: fq_reach.induct) (auto intro: fq_step_inv)

lemma fq_init_inv: "PacketPassFairQueue_Init m output_mtu c w = Some m0 \<Longrightarrow> fq_inv mtu m0"
  by (auto simp: PacketPassFairQueue_Init_def fq_inv_def split: if_splits)

section \<open>The queue between its users and its output\<close>

text \<open>The queue with what its environment knows: the packets passed to the output and not completed, and the flows whose packets are not
  completed.\<close>

record fq_world =
  fw_queue :: PacketPassFairQueue
  fw_out :: nat
  fw_busy :: "flow_id set"

datatype fq_input = Fq_new flow_id | Fq_free flow_id | Fq_send flow_id "ptr option" int | Fq_done | Fq_job
  | Fq_set_busy flow_id bool | Fq_cancel flow_id | Fq_prepare

text \<open>What the environment may do: a user sends when its last packet was completed, the output completes a packet it has.\<close>

fun fq_may :: "int \<Rightarrow> fq_input \<Rightarrow> fq_world \<Rightarrow> bool" where
  "fq_may mtu (Fq_new f) w \<longleftrightarrow> f \<notin> set (fq_flows_list (fw_queue w)) \<and> \<not> fq_freeing (fw_queue w)"
| "fq_may mtu (Fq_free f) w \<longleftrightarrow> f \<in> set (fq_flows_list (fw_queue w)) \<and>
     (fq_freeing (fw_queue w) \<or> \<not> PacketPassFairQueueFlow_IsBusy f (fw_queue w))"
| "fq_may mtu (Fq_send f d n) w \<longleftrightarrow> f \<in> set (fq_flows_list (fw_queue w)) \<and> f \<notin> fw_busy w \<and> \<not> fq_freeing (fw_queue w) \<and> 0 \<le> n \<and> n \<le> mtu"
| "fq_may mtu Fq_done w \<longleftrightarrow> 0 < fw_out w \<and> \<not> fq_freeing (fw_queue w)"
| "fq_may mtu Fq_job w \<longleftrightarrow> fq_schedule_job (fw_queue w) \<and> \<not> fq_freeing (fw_queue w)"
| "fq_may mtu (Fq_set_busy f h) w \<longleftrightarrow> PacketPassFairQueueFlow_IsBusy f (fw_queue w) \<and> \<not> fq_freeing (fw_queue w)"
| "fq_may mtu (Fq_cancel f) w \<longleftrightarrow> PacketPassFairQueueFlow_IsBusy f (fw_queue w) \<and> fq_use_cancel (fw_queue w) \<and> \<not> fq_freeing (fw_queue w)"
| "fq_may mtu Fq_prepare w \<longleftrightarrow> True"

text \<open>The schedule job is no longer set when its handler runs.\<close>

fun fq_exec :: "fq_input \<Rightarrow> PacketPassFairQueue \<Rightarrow> PacketPassFairQueue \<times> fq_call list" where
  "fq_exec (Fq_new f) m = (PacketPassFairQueueFlow_Init f m, [])"
| "fq_exec (Fq_free f) m = (PacketPassFairQueueFlow_Free f m, [])"
| "fq_exec (Fq_send f d n) m = fq_input_handler_send f d n m"
| "fq_exec Fq_done m = fq_output_handler_done m"
| "fq_exec Fq_job m = fq_schedule_job_handler (m\<lparr>fq_schedule_job := False\<rparr>)"
| "fq_exec (Fq_set_busy f h) m = (PacketPassFairQueueFlow_SetBusyHandler f h m, [])"
| "fq_exec (Fq_cancel f) m = (m, PacketPassFairQueueFlow_RequestCancel f m)"
| "fq_exec Fq_prepare m = (PacketPassFairQueue_PrepareFree m, [])"

fun fq_begins :: "fq_input \<Rightarrow> flow_id set" where
  "fq_begins (Fq_send f d n) = {f}" | "fq_begins _ = {}"

fun fq_gone :: "fq_input \<Rightarrow> flow_id set" where
  "fq_gone (Fq_free f) = {f}" | "fq_gone _ = {}"

fun is_output_send :: "fq_call \<Rightarrow> bool" where
  "is_output_send (FQ_Sender_Send p n) = True" | "is_output_send _ = False"

definition fqw_step :: "fq_input \<Rightarrow> fq_world \<Rightarrow> fq_world" where
  "fqw_step i w = (let (m, cs) = fq_exec i (fw_queue w) in
     \<lparr>fw_queue = m, fw_out = fw_out w - (if i = Fq_done then 1 else 0) + length (filter is_output_send cs),
      fw_busy = (fw_busy w \<union> fq_begins i) - fq_gone i - {f. FQ_Done f \<in> set cs}\<rparr>)"

inductive fqw_reach :: "int \<Rightarrow> PacketPassFairQueue \<Rightarrow> fq_world \<Rightarrow> bool" for mtu m0 where
  fqw_start: "fqw_reach mtu m0 \<lparr>fw_queue = m0, fw_out = 0, fw_busy = {}\<rparr>"
| fqw_next: "fqw_reach mtu m0 w \<Longrightarrow> fq_may mtu i w \<Longrightarrow> fqw_reach mtu m0 (fqw_step i w)"

definition fqw_inv :: "int \<Rightarrow> fq_world \<Rightarrow> bool" where
  "fqw_inv mtu w \<longleftrightarrow> fq_inv mtu (fw_queue w) \<and> fw_out w \<le> 1 \<and>
     (\<not> fq_freeing (fw_queue w) \<longrightarrow>
        fw_out w = (if fq_sending_flow (fw_queue w) = None then 0 else 1) \<and>
        fw_busy w = set (fq_queued_tree (fw_queue w)) \<union> set_option (fq_sending_flow (fw_queue w)))"

lemma fqw_start_inv:
  "PacketPassFairQueue_Init m mtu c w = Some m0 \<Longrightarrow> fqw_inv mtu \<lparr>fw_queue = m0, fw_out = 0, fw_busy = {}\<rparr>"
  using fq_init_inv [of m mtu c w m0 mtu] by (auto simp: fqw_inv_def PacketPassFairQueue_Init_def split: if_splits)

lemma fqw_output:
  assumes "fqw_inv mtu w" "\<not> fq_freeing (fw_queue w)" "fq_inv mtu (fst (fq_exec i (fw_queue w)))"
    "fq_output (fw_queue w) (set (fq_queued_tree (fw_queue w)) \<union> fq_begins i) (fq_exec i (fw_queue w))" "i \<noteq> Fq_done" "fq_gone i = {}"
  shows "fqw_inv mtu (fqw_step i w) \<and> FQ_assert_failed \<notin> set (snd (fq_exec i (fw_queue w)))"
  using assms by (auto simp: fqw_inv_def fqw_step_def fq_output_def case_prod_beta) (metis UnCI insertE)+

lemma fqw_done:
  assumes "fqw_inv mtu w" "fq_may mtu Fq_done w"
  shows "fqw_inv mtu (fqw_step Fq_done w) \<and> FQ_assert_failed \<notin> set (snd (fq_exec Fq_done (fw_queue w)))"
proof -
  let ?m = "fw_queue w"
  obtain f where f: "fq_sending_flow ?m = Some f" using assms by (auto simp: fqw_inv_def split: if_splits)
  have q: "f \<notin> set (fq_queued_tree ?m)" and d: "distinct (fq_flows_list (?m\<lparr>fq_sending_flow := None, fq_previous_flow := Some f\<rparr>))"
    using assms(1) f by (auto simp: fqw_inv_def fq_inv_def)
  note fl = increment_fields [OF d, of f "fq_amount ?m"]
  have m: "fq_queued_tree (fst (fq_output_handler_done ?m)) = fq_queued_tree ?m" "fq_sending_flow (fst (fq_output_handler_done ?m)) = None"
    "fq_freeing (fst (fq_output_handler_done ?m)) = fq_freeing ?m"
    using fl by (auto simp: fq_done_eq [OF f] Let_def fq_upd_def)
  have c: "snd (fq_output_handler_done ?m) = FQ_Done f # (if fl_handler_busy (fq_flow ?m f) then [FQ_handler_busy f] else [])"
    using f fl by (auto simp: fq_output_handler_done_def Let_def fq_amount_def)
  have "fq_inv mtu (fst (fq_output_handler_done ?m))" using fq_done_inv [OF _ f] assms(1) by (simp add: fqw_inv_def)
  with m c f q assms show ?thesis by (auto simp: fqw_inv_def fqw_step_def case_prod_beta)
qed

lemma fqw_step_inv:
  assumes "fqw_inv mtu w" "fq_may mtu i w"
  shows "fqw_inv mtu (fqw_step i w) \<and> FQ_assert_failed \<notin> set (snd (fq_exec i (fw_queue w)))"
proof -
  let ?m = "fw_queue w"
  have inv: "fq_inv mtu ?m" using assms(1) by (simp add: fqw_inv_def)
  show ?thesis
  proof (cases i)
    case (Fq_send f d n)
    have "fl_is_queued (fq_flow ?m f) \<longleftrightarrow> f \<in> set (fq_queued_tree ?m)" using inv assms(2) Fq_send by (auto simp: fq_inv_def)
    then have "fq_sending_flow ?m \<noteq> Some f" "\<not> fl_is_queued (fq_flow ?m f)" using assms Fq_send by (auto simp: fqw_inv_def)
    with fq_send_inv [OF inv, of f n d] assms(2) Fq_send show ?thesis by (intro fqw_output [OF assms(1)]) simp_all
  next
    case Fq_done
    with fqw_done assms show ?thesis by simp
  next
    case Fq_job
    with fq_job_inv [OF inv] assms(2) show ?thesis by (intro fqw_output [OF assms(1)]) simp_all
  next
    case (Fq_new f)
    with fq_new_inv [OF inv, of f] assms show ?thesis
      by (auto simp: fqw_inv_def fqw_step_def PacketPassFairQueueFlow_Init_def fq_upd_def)
  next
    case (Fq_free f)
    have "distinct (fq_queued_tree ?m)" "fl_is_queued (fq_flow ?m f) \<longleftrightarrow> f \<in> set (fq_queued_tree ?m)"
      using inv assms(2) Fq_free by (auto simp: fq_inv_def)
    with Fq_free fq_free_inv [OF inv, of f] assms show ?thesis
      by (auto simp: fqw_inv_def fqw_step_def PacketPassFairQueueFlow_Free_def PacketPassFairQueueFlow_IsBusy_def Let_def set_remove1_eq)
  next
    case (Fq_set_busy f h)
    then have "fq_step mtu ?m [] (PacketPassFairQueueFlow_SetBusyHandler f h ?m)"
      using assms(2) by (auto intro: fq_step.fq_busy simp: PacketPassFairQueueFlow_IsBusy_def)
    from fq_step_inv [OF this inv] Fq_set_busy assms show ?thesis
      by (auto simp: fqw_inv_def fqw_step_def PacketPassFairQueueFlow_SetBusyHandler_def fq_upd_def)
  next
    case (Fq_cancel f)
    with assms show ?thesis by (auto simp: fqw_inv_def fqw_step_def PacketPassFairQueueFlow_RequestCancel_def)
  next
    case Fq_prepare
    from fq_step_inv [OF fq_step.fq_prepare inv] Fq_prepare assms show ?thesis
      by (auto simp: fqw_inv_def fqw_step_def PacketPassFairQueue_PrepareFree_def)
  qed
qed

lemma fqw_reach_inv: "fqw_reach mtu m0 w \<Longrightarrow> fqw_inv mtu \<lparr>fw_queue = m0, fw_out = 0, fw_busy = {}\<rparr> \<Longrightarrow> fqw_inv mtu w"
  by (induction rule: fqw_reach.induct) (auto dest: fqw_step_inv)

section \<open>Properties\<close>

text \<open>Claim C14. Whatever the users of a fair queue and its output do within the contracts of their interfaces, the queue keeps them: no
  assertion of its handlers fails, a packet is passed to the output only while the output has none, and so at most one is ever on its way.
  Until the queue is being freed, a packet is on its way exactly when there is a sending flow, and the flows that wait for a completion are exactly
  the sending flow and the queued flows; the sending flow has the smallest virtual time of all flows with a packet waiting; and no packet waits while
  the output is idle, unless the job that schedules it is pending.\<close>

theorem PacketPassFairQueue_serves_least:
  assumes "PacketPassFairQueue_Init mem_m mtu use_cancel weight = Some m0" "fqw_reach mtu m0 w" "m = fw_queue w"
  shows "fw_out w \<le> 1 \<and> (\<forall>i m' cs. fq_may mtu i w \<and> fq_exec i m = (m', cs) \<longrightarrow> FQ_assert_failed \<notin> set cs) \<and>
    (\<not> fq_freeing m \<longrightarrow>
       (0 < fw_out w \<longleftrightarrow> fq_sending_flow m \<noteq> None) \<and> fw_busy w = set (fq_queued_tree m) \<union> set_option (fq_sending_flow m) \<and>
       (fq_queued_tree m \<noteq> [] \<longrightarrow> 0 < fw_out w \<or> fq_schedule_job m)) \<and>
    (\<forall>f. fq_sending_flow m = Some f \<longrightarrow> f \<notin> set (fq_queued_tree m) \<and> fq_previous_flow m = None \<and> \<not> fq_schedule_job m \<and>
       (\<forall>g \<in> set (fq_queued_tree m). fl_time (fq_flow m f) \<le> fl_time (fq_flow m g)))"
proof -
  have i: "fqw_inv mtu w" by (rule fqw_reach_inv [OF assms(2) fqw_start_inv [OF assms(1)]])
  then have q: "fq_inv mtu m" by (simp add: fqw_inv_def assms(3))
  have "FQ_assert_failed \<notin> set cs" if "fq_may mtu i w" "fq_exec i m = (m', cs)" for i m' cs
    using fqw_step_inv [OF i that(1)] that(2) by (simp add: assms(3))
  then show ?thesis using i q unfolding fqw_inv_def fq_inv_def assms(3) [symmetric]
    by (auto simp: word_le_nat_alt)
qed

definition fq_ex :: PacketPassFairQueue where
  "fq_ex = \<lparr>fq_use_cancel = False, fq_packet_weight = 1, fq_sending_flow = None, fq_sending_len = 0,
     fq_previous_flow = None, fq_queued_tree = [], fq_flows_list = [], fq_freeing = False, fq_schedule_job = False,
     fq_flow = (\<lambda>_. \<lparr>fl_handler_busy = False, fl_time = 0, fl_is_queued = False, fl_queued_data = None,
       fl_queued_data_len = 0\<rparr>)\<rparr>"

lemma fq_ex_init: "PacketPassFairQueue_Init fq_ex 1500 False 1 = Some fq_ex"
  by (simp add: PacketPassFairQueue_Init_def fq_ex_def FAIRQUEUE_MAX_TIME_def unsigned_minus_1_eq_mask
      mask_eq_exp_minus_1)

definition fq_ex1 :: PacketPassFairQueue where
  "fq_ex1 = fst (fq_input_handler_send 7 (Some 64) 100 (PacketPassFairQueueFlow_Init 7 fq_ex))"

lemma fq_ex1_state: "fq_sending_flow fq_ex1 = Some 7" "fq_freeing fq_ex1 = False"
  by (simp_all add: fq_ex1_def fq_ex_def PacketPassFairQueueFlow_Init_def fq_upd_def fq_input_handler_send_def
      get_current_time_def fq_schedule_def Let_def)

lemma fq_ex1_reach: "fq_reach 1500 fq_ex fq_ex1"
proof -
  let ?m = "PacketPassFairQueueFlow_Init 7 fq_ex"
  have "fq_reach 1500 fq_ex ?m"
    by (rule fq_reach.fq_next [OF fq_reach.fq_start], rule fq_step.fq_new) (simp_all add: fq_ex_def)
  moreover have "fq_step 1500 ?m (snd (fq_input_handler_send 7 (Some 64) 100 ?m)) fq_ex1"
    by (rule fq_step.fq_send [of 7 _ 100 _ "Some 64"])
      (simp_all add: fq_ex1_def fq_ex_def PacketPassFairQueueFlow_Init_def fq_upd_def)
  ultimately show ?thesis by (rule fq_reach.fq_next)
qed

text \<open>Two flows send: the first packet is passed to the output, the second waits.\<close>

definition fq_ex_world :: fq_world where
  "fq_ex_world = foldl (\<lambda>w i. fqw_step i w) \<lparr>fw_queue = fq_ex, fw_out = 0, fw_busy = {}\<rparr>
     [Fq_new 7, Fq_new 8, Fq_send 7 (Some 64) 100, Fq_send 8 (Some 65) 200]"

lemma fq_ex_world_reach: "fqw_reach 1500 fq_ex fq_ex_world"
  unfolding fq_ex_world_def foldl.simps
  by (rule fqw_next, rule fqw_next, rule fqw_next, rule fqw_next, rule fqw_start)
    (simp_all add: fqw_step_def fq_ex_def PacketPassFairQueueFlow_Init_def fq_upd_def fq_input_handler_send_def get_current_time_def fq_schedule_def Let_def)

lemma fq_ex_world_state:
  "fq_sending_flow (fw_queue fq_ex_world) = Some 7" "fq_queued_tree (fw_queue fq_ex_world) = [8]" "\<not> fq_freeing (fw_queue fq_ex_world)"
  by (simp_all add: fq_ex_world_def fqw_step_def fq_ex_def PacketPassFairQueueFlow_Init_def fq_upd_def fq_input_handler_send_def
      get_current_time_def fq_schedule_def Let_def)

theorem PacketPassFairQueue_serves_least_witness:
  "fw_out fq_ex_world = 1 \<and> fw_busy fq_ex_world = {7, 8} \<and>
     fl_time (fq_flow (fw_queue fq_ex_world) 7) \<le> fl_time (fq_flow (fw_queue fq_ex_world) 8)"
  using PacketPassFairQueue_serves_least [OF fq_ex_init fq_ex_world_reach refl] fq_ex_world_state by auto

text \<open>Claim C15. Virtual time never wraps around: when a packet of the sending flow completes, the flow is
  charged exactly its packet length plus the packet weight, up to a common amount \<open>s\<close> by which all flows are
  moved back, and \<open>s\<close> is not 0 only if the charged time would not fit 64 bits. No waiting flow has less time
  than \<open>s\<close>, so the differences between the flow that sent and all waiting flows, and with them the order of
  service, are kept exactly; the time of an idle flow is moved back to at least 0. The completed packet is
  reported to its flow, the next one is scheduled, and the busy handler is called at most once.\<close>

theorem PacketPassFairQueue_time_exact:
  assumes "PacketPassFairQueue_Init mem_m mtu use_cancel weight = Some m0" "fq_reach mtu m0 m"
    and "fq_sending_flow m = Some f" "fq_output_handler_done m = (m', calls)"
  shows "(\<exists>s. (s \<noteq> 0 \<longrightarrow> 2 ^ 64 \<le> ftime m f + unat (fq_amount m)) \<and> s \<le> ftime m f + unat (fq_amount m) \<and>
      ftime m' f = ftime m f + unat (fq_amount m) - s \<and>
      (\<forall>g \<in> set (fq_queued_tree m). s \<le> ftime m g) \<and>
      (\<forall>g \<in> set (fq_flows_list m) - {f}. ftime m' g = ftime m g - s)) \<and>
    fq_queued_tree m' = fq_queued_tree m \<and> fq_schedule_job m' \<and> fq_previous_flow m' = Some f \<and>
    calls = FQ_Done f # (if fl_handler_busy (fq_flow m f) then [FQ_handler_busy f] else []) \<and>
    \<not> fl_handler_busy (fq_flow m' f)"
proof -
  have inv: "fq_inv mtu m" by (rule fq_reach_inv [OF assms(2) fq_init_inv [OF assms(1)]])
  then have d: "distinct (fq_flows_list (m\<lparr>fq_sending_flow := None, fq_previous_flow := Some f\<rparr>))"
    by (simp add: fq_inv_def)
  note fl = increment_fields [OF d, of f "fq_amount m"]
  have m': "m' = fst (fq_output_handler_done m)" using assms(4) by simp
  have "fq_queued_tree m' = fq_queued_tree m" "fq_schedule_job m'" "fq_previous_flow m' = Some f"
    "\<not> fl_handler_busy (fq_flow m' f)"
    using fl by (auto simp: m' fq_done_eq [OF assms(3)] Let_def fq_upd_def)
  moreover have "calls = FQ_Done f # (if fl_handler_busy (fq_flow m f) then [FQ_handler_busy f] else [])"
    using assms(3,4) fl by (auto simp: fq_output_handler_done_def Let_def fq_amount_def split: if_splits)
  ultimately show ?thesis using fq_done_times [OF inv assms(3)] unfolding m' by blast
qed

theorem PacketPassFairQueue_time_exact_witness:
  "snd (fq_output_handler_done fq_ex1) = [FQ_Done 7]"
proof -
  have "\<not> fl_handler_busy (fq_flow fq_ex1 7)"
    by (simp add: fq_ex1_def fq_ex_def PacketPassFairQueueFlow_Init_def fq_upd_def fq_input_handler_send_def
        get_current_time_def fq_schedule_def Let_def)
  then show ?thesis
    using PacketPassFairQueue_time_exact [OF fq_ex_init fq_ex1_reach fq_ex1_state(1) surjective_pairing] by simp
qed

end
