(* ===== verification/Net_Addr.thy ===== *)
theory Net_Addr
  imports C_Prelude
begin

text \<open>
  Byte order and addresses: \<^verbatim>\<open>misc/byteorder.h\<close>, \<^verbatim>\<open>misc/read_write_int.h\<close> and the part of \<^verbatim>\<open>system/BAddr.h\<close> that
  tun2socks uses to build, take apart and compare addresses.

  A field in network byte order is the list of the bytes it occupies in memory; \<open>hton16\<close>, \<open>hton32\<close> build such
  a field from a value and \<open>ntoh16\<close>, \<open>ntoh32\<close> read its value. So nothing here depends on the byte order of the
  machine. Link-layer addresses (\<^verbatim>\<open>BADDR_TYPE_PACKET\<close>) are never built by tun2socks and are left out.
\<close>

section \<open>Network byte order\<close>

definition badvpn_read_be16 :: "byte list \<Rightarrow> u16" where
  "badvpn_read_be16 bs = push_bit 8 (ucast (bs ! 0)) OR ucast (bs ! 1)"

definition badvpn_read_be32 :: "byte list \<Rightarrow> u32" where
  "badvpn_read_be32 bs = push_bit 24 (ucast (bs ! 0)) OR push_bit 16 (ucast (bs ! 1))
     OR push_bit 8 (ucast (bs ! 2)) OR ucast (bs ! 3)"

definition hton16 :: "u16 \<Rightarrow> byte list" where
  "hton16 x = rev (le16 x)"

definition hton32 :: "u32 \<Rightarrow> byte list" where
  "hton32 x = rev (le32 x)"

definition ntoh16 :: "byte list \<Rightarrow> u16" where
  "ntoh16 bs = of_le16 (rev bs)"

definition ntoh32 :: "byte list \<Rightarrow> u32" where
  "ntoh32 bs = of_le32 (rev bs)"

lemma length_hton [simp]: "length (hton16 x) = 2" "length (hton32 y) = 4"
  by (simp_all add: hton16_def hton32_def)

lemma ntoh_hton [simp]: "ntoh16 (hton16 x) = x" "ntoh32 (hton32 y) = y"
  by (simp_all add: ntoh16_def hton16_def ntoh32_def hton32_def)

lemma hton16_ntoh16 [simp]: "length bs = 2 \<Longrightarrow> hton16 (ntoh16 bs) = bs"
  using le16_of_le16 [of "rev bs"] by (simp add: ntoh16_def hton16_def)

lemma read_be16_ntoh16: "length bs = 2 \<Longrightarrow> badvpn_read_be16 bs = ntoh16 bs"
  by (cases bs; cases "tl bs") (auto simp: badvpn_read_be16_def ntoh16_def of_le16_def or.commute)

lemma ntoh16_inj: "length a = 2 \<Longrightarrow> length b = 2 \<Longrightarrow> ntoh16 a = ntoh16 b \<Longrightarrow> a = b"
  using hton16_ntoh16 by metis

lemma le32_of_le32:
  assumes "length bs = 4"
  shows "le32 (of_le32 bs) = bs"
proof -
  obtain a b c d where bs: "bs = [a, b, c, d]"
    using assms by (auto simp: length_Suc_conv eval_nat_numeral)
  show ?thesis unfolding bs le32_def of_le32_def
    by (auto simp: bit_simps impossible_bit intro!: bit_word_eqI)
qed

lemma hton32_ntoh32 [simp]: "length bs = 4 \<Longrightarrow> hton32 (ntoh32 bs) = bs"
  using le32_of_le32 [of "rev bs"] by (simp add: ntoh32_def hton32_def)

lemma ntoh32_inj: "length a = 4 \<Longrightarrow> length b = 4 \<Longrightarrow> ntoh32 a = ntoh32 b \<Longrightarrow> a = b"
  using hton32_ntoh32 by metis

lemma unat_read_be16: "unat (badvpn_read_be16 [a, b]) = 256 * unat a + unat b"
proof -
  have l: "unat a < 256" "unat b < 256" using unsigned_less [of a] unsigned_less [of b] by simp_all
  have "badvpn_read_be16 [a, b] = push_bit 8 (ucast a) + ucast b"
    unfolding badvpn_read_be16_def
    by (subst disjunctive_add) (auto simp: bit_simps dest: bit_imp_le_length)
  also have "\<dots> = (of_nat (256 * unat a + unat b) :: u16)"
    by (simp add: push_bit_eq_mult mult.commute)
  finally have "unat (badvpn_read_be16 [a, b]) = unat (of_nat (256 * unat a + unat b) :: u16)" by (rule arg_cong)
  then show ?thesis using l by (simp only: unsigned_of_nat) (simp add: take_bit_nat_eq_self)
qed

section \<open>Addresses\<close>

datatype BAddr = BADDR_TYPE_NONE | BADDR_TYPE_IPV4 "byte list" "byte list" | BADDR_TYPE_IPV6 "byte list" "byte list"

datatype BIPAddr = BIPADDR_NONE | BIPADDR_IPV4 "byte list" | BIPADDR_IPV6 "byte list"

definition B_COMPARE :: "'a::linorder \<Rightarrow> 'a \<Rightarrow> int" where
  "B_COMPARE a b = of_bool (a > b) - of_bool (a < b)"

text \<open>The numbers of the address types.\<close>

definition baddr_type :: "BAddr \<Rightarrow> int" where
  "baddr_type a = (case a of BADDR_TYPE_NONE \<Rightarrow> 0 | BADDR_TYPE_IPV4 _ _ \<Rightarrow> 1 | BADDR_TYPE_IPV6 _ _ \<Rightarrow> 2)"

text \<open>\<^verbatim>\<open>memcmp\<close> on two arrays of the same length: the sign of its result is that of the first difference.\<close>

fun memcmp :: "byte list \<Rightarrow> byte list \<Rightarrow> int" where
  "memcmp (x # xs) (y # ys) = (if x = y then memcmp xs ys else if x < y then - 1 else 1)"
| "memcmp _ _ = 0"

definition BAddr_MakeNone :: BAddr where
  "BAddr_MakeNone = BADDR_TYPE_NONE"

definition BAddr_MakeIPv4 :: "byte list \<Rightarrow> byte list \<Rightarrow> BAddr" where
  "BAddr_MakeIPv4 ip port = BADDR_TYPE_IPV4 ip port"

definition BAddr_MakeIPv6 :: "byte list \<Rightarrow> byte list \<Rightarrow> BAddr" where
  "BAddr_MakeIPv6 ip port = BADDR_TYPE_IPV6 (take 16 ip) port"

definition BAddr_MakeFromIpaddrAndPort :: "BIPAddr \<Rightarrow> byte list \<Rightarrow> BAddr" where
  "BAddr_MakeFromIpaddrAndPort ipaddr port = (case ipaddr of
     BIPADDR_NONE \<Rightarrow> BAddr_MakeNone
   | BIPADDR_IPV4 ip \<Rightarrow> BAddr_MakeIPv4 ip port
   | BIPADDR_IPV6 ip \<Rightarrow> BAddr_MakeIPv6 ip port)"

definition BAddr_InitIPv4 :: "byte list \<Rightarrow> byte list \<Rightarrow> BAddr" where
  "BAddr_InitIPv4 ip port = BAddr_MakeIPv4 ip port"

definition BAddr_InitIPv6 :: "byte list \<Rightarrow> byte list \<Rightarrow> BAddr" where
  "BAddr_InitIPv6 ip port = BAddr_MakeIPv6 ip port"

definition BAddr_IsInvalid :: "BAddr \<Rightarrow> bool" where
  "BAddr_IsInvalid addr \<longleftrightarrow> addr = BADDR_TYPE_NONE"

definition BAddr_GetPort :: "BAddr \<Rightarrow> byte list" where
  "BAddr_GetPort addr = (case addr of
     BADDR_TYPE_IPV4 _ port \<Rightarrow> port | BADDR_TYPE_IPV6 _ port \<Rightarrow> port | BADDR_TYPE_NONE \<Rightarrow> [0, 0])"

definition BAddr_GetIPAddr :: "BAddr \<Rightarrow> BIPAddr" where
  "BAddr_GetIPAddr addr = (case addr of
     BADDR_TYPE_IPV4 ip _ \<Rightarrow> BIPADDR_IPV4 ip | BADDR_TYPE_IPV6 ip _ \<Rightarrow> BIPADDR_IPV6 ip | BADDR_TYPE_NONE \<Rightarrow> BIPADDR_NONE)"

definition BAddr_SetPort :: "BAddr \<Rightarrow> byte list \<Rightarrow> BAddr" where
  "BAddr_SetPort addr port = (case addr of
     BADDR_TYPE_IPV4 ip _ \<Rightarrow> BADDR_TYPE_IPV4 ip port | BADDR_TYPE_IPV6 ip _ \<Rightarrow> BADDR_TYPE_IPV6 ip port
   | BADDR_TYPE_NONE \<Rightarrow> addr)"

definition BIPAddr_Compare :: "BIPAddr \<Rightarrow> BIPAddr \<Rightarrow> bool" where
  "BIPAddr_Compare a b = (case (a, b) of
     (BIPADDR_IPV4 x, BIPADDR_IPV4 y) \<Rightarrow> x = y
   | (BIPADDR_IPV6 x, BIPADDR_IPV6 y) \<Rightarrow> memcmp x y = 0
   | _ \<Rightarrow> False)"

definition BAddr_Compare :: "BAddr \<Rightarrow> BAddr \<Rightarrow> bool" where
  "BAddr_Compare a b = (case (a, b) of
     (BADDR_TYPE_IPV4 ip1 port1, BADDR_TYPE_IPV4 ip2 port2) \<Rightarrow> ip1 = ip2 \<and> port1 = port2
   | (BADDR_TYPE_IPV6 ip1 port1, BADDR_TYPE_IPV6 ip2 port2) \<Rightarrow> memcmp ip1 ip2 = 0 \<and> port1 = port2
   | _ \<Rightarrow> False)"

definition BAddr_CompareOrder :: "BAddr \<Rightarrow> BAddr \<Rightarrow> int" where
  "BAddr_CompareOrder a b =
     (let cmp = B_COMPARE (baddr_type a) (baddr_type b) in
      if cmp \<noteq> 0 then cmp
      else case (a, b) of
        (BADDR_TYPE_IPV4 ip1 port1, BADDR_TYPE_IPV4 ip2 port2) \<Rightarrow>
          (let cmp = B_COMPARE (ntoh32 ip1) (ntoh32 ip2) in
           if cmp \<noteq> 0 then cmp else B_COMPARE (ntoh16 port1) (ntoh16 port2))
      | (BADDR_TYPE_IPV6 ip1 port1, BADDR_TYPE_IPV6 ip2 port2) \<Rightarrow>
          (let cmp = memcmp ip1 ip2 in
           if cmp \<noteq> 0 then B_COMPARE cmp 0 else B_COMPARE (ntoh16 port1) (ntoh16 port2))
      | _ \<Rightarrow> 0)"

text \<open>The sizes the C types guarantee.\<close>

definition baddr_sized :: "BAddr \<Rightarrow> bool" where
  "baddr_sized d = (case d of
     BADDR_TYPE_NONE \<Rightarrow> True
   | BADDR_TYPE_IPV4 ip port \<Rightarrow> length ip = 4 \<and> length port = 2
   | BADDR_TYPE_IPV6 ip port \<Rightarrow> length ip = 16 \<and> length port = 2)"

definition baddr_ok :: "BAddr \<Rightarrow> bool" where
  "baddr_ok d \<longleftrightarrow> d \<noteq> BADDR_TYPE_NONE \<and> baddr_sized d"

section \<open>The order of addresses\<close>

text \<open>What a balanced tree needs of the comparator of its keys: it is the sign of a strict linear order on the
  valid keys.\<close>

locale key_order =
  fixes valid :: "'k \<Rightarrow> bool" and cmp :: "'k \<Rightarrow> 'k \<Rightarrow> int"
  assumes cmp_eq: "valid a \<Longrightarrow> valid b \<Longrightarrow> cmp a b = 0 \<longleftrightarrow> a = b"
    and cmp_swap: "valid a \<Longrightarrow> valid b \<Longrightarrow> cmp b a = - cmp a b"
    and cmp_trans: "valid a \<Longrightarrow> valid b \<Longrightarrow> valid c \<Longrightarrow> cmp a b < 0 \<Longrightarrow> cmp b c < 0 \<Longrightarrow> cmp a c < 0"
begin

text \<open>A sequence of keys in increasing order, the contents of a search tree.\<close>

definition key_sorted :: "'k list \<Rightarrow> bool" where
  "key_sorted ks \<longleftrightarrow> sorted_wrt (\<lambda>a b. cmp a b < 0) ks"

lemma trichotomy:
  assumes "valid a" "valid b"
  shows "cmp a b < 0 \<or> a = b \<or> cmp b a < 0"
  using cmp_eq [OF assms] cmp_swap [OF assms] by linarith

lemma sorted_distinct:
  assumes "key_sorted ks" "\<forall>k \<in> set ks. valid k"
  shows "distinct ks"
  using assms unfolding key_sorted_def
  by (induction ks) (auto, use cmp_eq in force)

text \<open>At most one element of a collection whose keys are distinct answers an exact lookup.\<close>

lemma lookup_unique:
  assumes "distinct (map key xs)" "\<forall>x \<in> set xs. valid (key x)" "valid k" "x \<in> set xs" "cmp k (key x) = 0"
  shows "List.find (\<lambda>y. cmp k (key y) = 0) xs = Some x"
  using assms
proof (induction xs)
  case (Cons y ys)
  show ?case
  proof (cases "cmp k (key y) = 0")
    case True
    then have "key y = k" "key x = k" using Cons.prems cmp_eq [of k] by auto
    then have "x = y" using Cons.prems(1,4) by (auto simp: image_iff)
    with True show ?thesis by simp
  next
    case False
    then show ?thesis using Cons by auto
  qed
qed simp

end

lemma memcmp_eq: "length xs = length ys \<Longrightarrow> memcmp xs ys = 0 \<longleftrightarrow> xs = ys"
  by (induction xs ys rule: memcmp.induct) auto

lemma memcmp_swap: "memcmp ys xs = - memcmp xs ys"
  by (induction xs ys rule: memcmp.induct) auto

lemma memcmp_trans:
  "length xs = length ys \<Longrightarrow> length ys = length zs \<Longrightarrow> memcmp xs ys < 0 \<Longrightarrow> memcmp ys zs < 0 \<Longrightarrow> memcmp xs zs < 0"
proof (induction xs ys arbitrary: zs rule: memcmp.induct)
  case (1 x xs y ys)
  then obtain z zs' where "zs = z # zs'" by (cases zs) auto
  with 1 show ?case by (auto split: if_splits)
qed auto

lemma B_COMPARE_iff:
  "B_COMPARE a b = 0 \<longleftrightarrow> a = b" "B_COMPARE a b < 0 \<longleftrightarrow> a < b"
  by (auto simp: B_COMPARE_def)

lemma B_COMPARE_swap: "B_COMPARE b a = - B_COMPARE a b"
  by (simp add: B_COMPARE_def)

lemma CompareOrder_4:
  "BAddr_CompareOrder (BADDR_TYPE_IPV4 i p) (BADDR_TYPE_IPV4 j q) < 0 \<longleftrightarrow>
     ntoh32 i < ntoh32 j \<or> ntoh32 i = ntoh32 j \<and> ntoh16 p < ntoh16 q"
  by (auto simp: BAddr_CompareOrder_def baddr_type_def Let_def B_COMPARE_iff)

lemma CompareOrder_6:
  "BAddr_CompareOrder (BADDR_TYPE_IPV6 i p) (BADDR_TYPE_IPV6 j q) < 0 \<longleftrightarrow>
     memcmp i j < 0 \<or> memcmp i j = 0 \<and> ntoh16 p < ntoh16 q"
  by (auto simp: BAddr_CompareOrder_def baddr_type_def Let_def B_COMPARE_iff)

lemma CompareOrder_types:
  "baddr_type a \<noteq> baddr_type b \<Longrightarrow> BAddr_CompareOrder a b < 0 \<longleftrightarrow> baddr_type a < baddr_type b"
  by (auto simp: BAddr_CompareOrder_def Let_def B_COMPARE_iff)

lemma CompareOrder_eq:
  assumes "baddr_sized a" "baddr_sized b"
  shows "BAddr_CompareOrder a b = 0 \<longleftrightarrow> a = b"
  using assms ntoh32_inj ntoh16_inj
  by (auto simp: BAddr_CompareOrder_def Let_def B_COMPARE_iff baddr_type_def baddr_sized_def memcmp_eq split: BAddr.splits)

lemma CompareOrder_swap: "BAddr_CompareOrder b a = - BAddr_CompareOrder a b"
proof -
  have s: "B_COMPARE (memcmp ys xs) 0 = - B_COMPARE (memcmp xs ys) 0" "memcmp ys xs = 0 \<longleftrightarrow> memcmp xs ys = 0" for xs ys
    unfolding memcmp_swap [of ys xs] by (simp_all add: B_COMPARE_def)
  show ?thesis
  proof (cases "\<exists>i p j q. a = BADDR_TYPE_IPV6 i p \<and> b = BADDR_TYPE_IPV6 j q")
    case True
    then obtain i p j q where ab: "a = BADDR_TYPE_IPV6 i p" "b = BADDR_TYPE_IPV6 j q" by blast
    show ?thesis unfolding ab BAddr_CompareOrder_def using s [of i j]
      by (auto simp: Let_def baddr_type_def B_COMPARE_def)
  qed (auto simp: BAddr_CompareOrder_def Let_def baddr_type_def B_COMPARE_def split: BAddr.splits)
qed

lemma CompareOrder_trans:
  assumes "baddr_sized a" "baddr_sized b" "baddr_sized c" "BAddr_CompareOrder a b < 0" "BAddr_CompareOrder b c < 0"
  shows "BAddr_CompareOrder a c < 0"
proof (cases "baddr_type a = baddr_type b \<and> baddr_type b = baddr_type c")
  case False
  have le: "BAddr_CompareOrder x y < 0 \<Longrightarrow> baddr_type x \<le> baddr_type y" for x y
    using CompareOrder_types [of x y] by fastforce
  have "baddr_type a < baddr_type c" using le [OF assms(4)] le [OF assms(5)] False by linarith
  then show ?thesis using CompareOrder_types [of a c] by simp
next
  case True
  then consider "a = BADDR_TYPE_NONE" "b = BADDR_TYPE_NONE"
    | i p j q k r where "a = BADDR_TYPE_IPV4 i p" "b = BADDR_TYPE_IPV4 j q" "c = BADDR_TYPE_IPV4 k r"
    | i p j q k r where "a = BADDR_TYPE_IPV6 i p" "b = BADDR_TYPE_IPV6 j q" "c = BADDR_TYPE_IPV6 k r"
    by (cases a; cases b; cases c) (auto simp: baddr_type_def)
  then show ?thesis
  proof cases
    case 3
    then have l: "length i = length j" "length j = length k" using assms(1-3) by (simp_all add: baddr_sized_def)
    show ?thesis using assms(4,5) memcmp_trans [OF l] unfolding 3 CompareOrder_6
      by (auto simp: memcmp_eq l)
  next
    case 1
    then show ?thesis using assms(4) by (simp add: BAddr_CompareOrder_def B_COMPARE_def)
  next
    case 2
    then show ?thesis using assms(4,5) by (auto simp: CompareOrder_4)
  qed
qed

interpretation baddr: key_order baddr_sized BAddr_CompareOrder
  by unfold_locales (rule CompareOrder_eq, assumption+, rule CompareOrder_swap, rule CompareOrder_trans, assumption+)

text \<open>\<^verbatim>\<open>BAddr_CompareOrder\<close> is the comparator of a strict linear order: exactly one of less, equal and
  greater holds for any two addresses, equality is equality of type, IP address and port, and the order is
  transitive. \<^verbatim>\<open>BAddr_Compare\<close> agrees with it except on two invalid addresses, which it calls different.\<close>

lemma BAddr_CompareOrder_linear:
  assumes "baddr_sized a" "baddr_sized b" "baddr_sized c"
  shows "(BAddr_CompareOrder a b = 0 \<longleftrightarrow> a = b) \<and>
    (BAddr_CompareOrder a b < 0 \<longleftrightarrow> 0 < BAddr_CompareOrder b a) \<and>
    (BAddr_CompareOrder a b \<le> 0 \<and> BAddr_CompareOrder b c \<le> 0 \<longrightarrow> BAddr_CompareOrder a c \<le> 0) \<and>
    (BAddr_Compare a b \<longleftrightarrow> BAddr_CompareOrder a b = 0 \<and> \<not> BAddr_IsInvalid a)"
proof (intro conjI)
  show "BAddr_CompareOrder a b = 0 \<longleftrightarrow> a = b" by (rule baddr.cmp_eq [OF assms(1,2)])
  show "BAddr_CompareOrder a b < 0 \<longleftrightarrow> 0 < BAddr_CompareOrder b a" using baddr.cmp_swap [OF assms(1,2)] by simp
  show "BAddr_CompareOrder a b \<le> 0 \<and> BAddr_CompareOrder b c \<le> 0 \<longrightarrow> BAddr_CompareOrder a c \<le> 0"
    using baddr.cmp_trans [OF assms] baddr.cmp_eq [OF assms(1,2)] baddr.cmp_eq [OF assms(2,3)] by fastforce
  show "BAddr_Compare a b \<longleftrightarrow> BAddr_CompareOrder a b = 0 \<and> \<not> BAddr_IsInvalid a"
    unfolding baddr.cmp_eq [OF assms(1,2)] using assms(1,2)
    by (auto simp: BAddr_Compare_def BAddr_IsInvalid_def baddr_sized_def memcmp_eq split: BAddr.splits)
qed

end
