(* ===== verification/Socks_Client.thy ===== *)
theory Socks_Client
  imports Misc_Size Net_Addr
begin

text \<open>
  \<^verbatim>\<open>socksclient/BSocksClient.c\<close>: the SOCKS5 client that negotiates authentication, requests a connection and
  then hands the stream to its user. The object is a state machine driven by three kinds of completion: the
  connector, the send of a message and the receive of a part of a reply.

  The heap buffer of the object is the list of its bytes. A handler gets as arguments what the objects below
  it answered: whether \<^verbatim>\<open>BRealloc\<close> and \<^verbatim>\<open>BConnection_Init\<close> succeeded and the bytes the connection wrote
  into the buffer; it returns the calls it makes. \<open>SC_Send\<close> carries the bytes of the buffer that are sent: the
  buffer is not touched until the send is done. Addresses and ports are in network byte order. \<^verbatim>\<open>size_t\<close> is 64 bits wide.
\<close>

section \<open>Protocol constants (misc/socks\_proto.h)\<close>

definition SOCKS_VERSION :: byte where "SOCKS_VERSION = 5"
definition SOCKS_METHOD_NO_AUTHENTICATION_REQUIRED :: int where "SOCKS_METHOD_NO_AUTHENTICATION_REQUIRED = 0"
definition SOCKS_METHOD_USERNAME_PASSWORD :: int where "SOCKS_METHOD_USERNAME_PASSWORD = 2"
definition SOCKS_CMD_CONNECT :: byte where "SOCKS_CMD_CONNECT = 1"
definition SOCKS_ATYP_IPV4 :: byte where "SOCKS_ATYP_IPV4 = 1"
definition SOCKS_ATYP_IPV6 :: byte where "SOCKS_ATYP_IPV6 = 4"
definition SOCKS_REP_SUCCEEDED :: byte where "SOCKS_REP_SUCCEEDED = 0"

lemmas socks_consts = SOCKS_VERSION_def SOCKS_METHOD_NO_AUTHENTICATION_REQUIRED_def
  SOCKS_METHOD_USERNAME_PASSWORD_def SOCKS_CMD_CONNECT_def SOCKS_ATYP_IPV4_def SOCKS_ATYP_IPV6_def
  SOCKS_REP_SUCCEEDED_def

section \<open>The object\<close>

datatype sc_state = STATE_CONNECTING | STATE_SENDING_HELLO | STATE_SENT_HELLO | STATE_SENDING_PASSWORD
  | STATE_SENT_PASSWORD | STATE_SENDING_REQUEST | STATE_SENT_REQUEST | STATE_RECEIVED_REPLY_HEADER | STATE_UP

datatype sc_event = BSOCKSCLIENT_EVENT_ERROR | BSOCKSCLIENT_EVENT_UP | BSOCKSCLIENT_EVENT_ERROR_CLOSED

record BSocksClient_auth_info =
  ai_auth_type :: int
  ai_username :: "byte list"
  ai_password :: "byte list"

record BSocksClient =
  sc_auth_info :: "BSocksClient_auth_info list"
  sc_dest_addr :: BAddr
  sc_state :: sc_state
  sc_buffer :: "byte list option"
  sc_recv_dest :: int
  sc_recv_len :: int
  sc_recv_total :: int

datatype sc_call =
    SC_Send "byte list"
  | SC_Recv int int
  | SC_handler sc_event
  | SC_init_control_io | SC_free_control_io | SC_init_up_io | SC_free_up_io
  | SC_BConnection_Free | SC_BConnector_Free | SC_BFree

section \<open>Operations (socksclient/BSocksClient.c)\<close>

definition sc_report_error :: "BSocksClient \<Rightarrow> sc_event \<Rightarrow> BSocksClient \<times> sc_call list" where
  "sc_report_error c error = (c, [SC_handler error])"

text \<open>\<^verbatim>\<open>BRealloc\<close> keeps the common prefix; the bytes behind it are indeterminate and are 0 here. Every
  handler writes the bytes it uses.\<close>

definition brealloc :: "byte list option \<Rightarrow> nat \<Rightarrow> byte list" where
  "brealloc b n = (let xs = (case b of None \<Rightarrow> [] | Some xs \<Rightarrow> xs) in take n xs @ replicate (n - length xs) 0)"

definition reserve_buffer :: "bool \<Rightarrow> BSocksClient \<Rightarrow> u64 bsize_t \<Rightarrow> BSocksClient option" where
  "reserve_buffer alloc c sz =
     (if bs_is_overflow sz then None
      else if \<not> alloc then None
      else Some (c\<lparr>sc_buffer := Some (brealloc (sc_buffer c) (unat (bs_value sz)))\<rparr>))"

definition buf_write :: "byte list option \<Rightarrow> nat \<Rightarrow> byte list \<Rightarrow> byte list option" where
  "buf_write b off xs = map_option (\<lambda>bs. take off bs @ xs @ drop (off + length xs) bs) b"

definition do_receive :: "BSocksClient \<Rightarrow> sc_call list" where
  "do_receive c = [SC_Recv (sc_recv_dest c + sc_recv_len c) (sc_recv_total c - sc_recv_len c)]"

text \<open>The destination is an offset into the buffer.\<close>

definition start_receive :: "BSocksClient \<Rightarrow> int \<Rightarrow> int \<Rightarrow> BSocksClient \<times> sc_call list" where
  "start_receive c dest tot =
     (let c' = c\<lparr>sc_recv_dest := dest, sc_recv_len := 0, sc_recv_total := tot\<rparr> in (c', do_receive c'))"

definition sc_connector_handler :: "bool \<Rightarrow> bool \<Rightarrow> BSocksClient \<Rightarrow> bool \<Rightarrow> BSocksClient \<times> sc_call list" where
  "sc_connector_handler con_init alloc c is_error =
     (if is_error then sc_report_error c BSOCKSCLIENT_EVENT_ERROR
      else if \<not> con_init then sc_report_error c BSOCKSCLIENT_EVENT_ERROR
      else if length (sc_auth_info c) = 0 \<or> length (sc_auth_info c) > 255 then
        (c, [SC_init_control_io, SC_free_control_io, SC_BConnection_Free, SC_handler BSOCKSCLIENT_EVENT_ERROR])
      else
        (let sz = bsize_add (bsize_fromsize 2) (bsize_mul (bsize_fromsize (of_nat (length (sc_auth_info c)))) (bsize_fromsize 1)) in
         case reserve_buffer alloc c sz of
           None \<Rightarrow> (c, [SC_init_control_io, SC_free_control_io, SC_BConnection_Free, SC_handler BSOCKSCLIENT_EVENT_ERROR])
         | Some c1 \<Rightarrow>
             (let header = [SOCKS_VERSION, of_nat (length (sc_auth_info c1))];
                  methods = map (\<lambda>ai. word_of_int (ai_auth_type ai)) (sc_auth_info c1);
                  c2 = c1\<lparr>sc_buffer := buf_write (buf_write (sc_buffer c1) 0 header) 2 methods\<rparr>
              in (c2\<lparr>sc_state := STATE_SENDING_HELLO\<rparr>,
                  [SC_init_control_io, SC_Send (take (unat (bs_value sz)) (the (sc_buffer c2)))]))))"

definition sc_connection_handler :: "BSocksClient \<Rightarrow> bool \<Rightarrow> BSocksClient \<times> sc_call list" where
  "sc_connection_handler c recvclosed =
     (if sc_state c = STATE_UP \<and> recvclosed then sc_report_error c BSOCKSCLIENT_EVENT_ERROR_CLOSED
      else sc_report_error c BSOCKSCLIENT_EVENT_ERROR)"

text \<open>With any other address type the code asserts; the request is then not specified, and the model makes
  no call.\<close>

definition auth_finished :: "bool \<Rightarrow> BSocksClient \<Rightarrow> BSocksClient \<times> sc_call list" where
  "auth_finished alloc c =
     (let sz = (case sc_dest_addr c of
          BADDR_TYPE_IPV4 _ _ \<Rightarrow> bsize_add (bsize_fromsize 4) (bsize_fromsize 6)
        | BADDR_TYPE_IPV6 _ _ \<Rightarrow> bsize_add (bsize_fromsize 4) (bsize_fromsize 18)
        | BADDR_TYPE_NONE \<Rightarrow> bsize_fromsize 4) in
      case reserve_buffer alloc c sz of
        None \<Rightarrow> sc_report_error c BSOCKSCLIENT_EVENT_ERROR
      | Some c1 \<Rightarrow>
          (case sc_dest_addr c1 of
             BADDR_TYPE_NONE \<Rightarrow> (c1, [])
           | BADDR_TYPE_IPV4 ip port \<Rightarrow>
               (let b = buf_write (buf_write (sc_buffer c1) 4 (ip @ port)) 0
                      [SOCKS_VERSION, SOCKS_CMD_CONNECT, 0, SOCKS_ATYP_IPV4]
                in (c1\<lparr>sc_buffer := b, sc_state := STATE_SENDING_REQUEST\<rparr>, [SC_Send (take (unat (bs_value sz)) (the b))]))
           | BADDR_TYPE_IPV6 ip port \<Rightarrow>
               (let b = buf_write (buf_write (sc_buffer c1) 4 (ip @ port)) 0
                      [SOCKS_VERSION, SOCKS_CMD_CONNECT, 0, SOCKS_ATYP_IPV6]
                in (c1\<lparr>sc_buffer := b, sc_state := STATE_SENDING_REQUEST\<rparr>, [SC_Send (take (unat (bs_value sz)) (the b))]))))"

text \<open>The first authentication method of the given type.\<close>

fun sc_find_auth :: "BSocksClient_auth_info list \<Rightarrow> int \<Rightarrow> BSocksClient_auth_info option" where
  "sc_find_auth [] t = None"
| "sc_find_auth (ai # ais) t = (if ai_auth_type ai = t then Some ai else sc_find_auth ais t)"

definition sc_received_hello :: "bool \<Rightarrow> BSocksClient \<Rightarrow> byte list \<Rightarrow> BSocksClient \<times> sc_call list" where
  "sc_received_hello alloc c bs =
     (if bs ! 0 \<noteq> SOCKS_VERSION then sc_report_error c BSOCKSCLIENT_EVENT_ERROR
      else case sc_find_auth (sc_auth_info c) (uint (bs ! 1)) of
        None \<Rightarrow> sc_report_error c BSOCKSCLIENT_EVENT_ERROR
      | Some ai \<Rightarrow>
          if ai_auth_type ai = SOCKS_METHOD_NO_AUTHENTICATION_REQUIRED then auth_finished alloc c
          else if ai_auth_type ai = SOCKS_METHOD_USERNAME_PASSWORD then
            (let ulen = length (ai_username ai); plen = length (ai_password ai) in
             if ulen = 0 \<or> ulen > 255 \<or> plen = 0 \<or> plen > 255 then sc_report_error c BSOCKSCLIENT_EVENT_ERROR
             else
               (let sz = bsize_fromsize (of_nat (1 + 1 + ulen + 1 + plen)) in
                case reserve_buffer alloc c sz of
                  None \<Rightarrow> sc_report_error c BSOCKSCLIENT_EVENT_ERROR
                | Some c1 \<Rightarrow>
                    (let b = buf_write (sc_buffer c1) 0
                           ([1, of_nat ulen] @ ai_username ai @ [of_nat plen] @ ai_password ai)
                     in (c1\<lparr>sc_buffer := b, sc_state := STATE_SENDING_PASSWORD\<rparr>,
                         [SC_Send (take (unat (bs_value sz)) (the b))]))))
          else (c, []))"

definition sc_received_reply_header :: "BSocksClient \<Rightarrow> byte list \<Rightarrow> BSocksClient \<times> sc_call list" where
  "sc_received_reply_header c bs =
     (if bs ! 0 \<noteq> SOCKS_VERSION then sc_report_error c BSOCKSCLIENT_EVENT_ERROR
      else if bs ! 1 \<noteq> SOCKS_REP_SUCCEEDED then sc_report_error c BSOCKSCLIENT_EVENT_ERROR
      else if bs ! 3 = SOCKS_ATYP_IPV4 then
        (case start_receive c 4 6 of (c', cs) \<Rightarrow> (c'\<lparr>sc_state := STATE_RECEIVED_REPLY_HEADER\<rparr>, cs))
      else if bs ! 3 = SOCKS_ATYP_IPV6 then
        (case start_receive c 4 18 of (c', cs) \<Rightarrow> (c'\<lparr>sc_state := STATE_RECEIVED_REPLY_HEADER\<rparr>, cs))
      else sc_report_error c BSOCKSCLIENT_EVENT_ERROR)"

text \<open>The \<^verbatim>\<open>switch\<close> of \<^verbatim>\<open>recv_handler_done\<close>, once all requested bytes are in the buffer.\<close>

definition sc_recv_complete :: "bool \<Rightarrow> BSocksClient \<Rightarrow> byte list \<Rightarrow> BSocksClient \<times> sc_call list" where
  "sc_recv_complete alloc c bs =
     (case sc_state c of
           STATE_SENT_HELLO \<Rightarrow> sc_received_hello alloc c bs
         | STATE_SENT_REQUEST \<Rightarrow> sc_received_reply_header c bs
         | STATE_SENT_PASSWORD \<Rightarrow>
             (if bs ! 0 \<noteq> 1 then sc_report_error c BSOCKSCLIENT_EVENT_ERROR
              else if bs ! 1 \<noteq> 0 then sc_report_error c BSOCKSCLIENT_EVENT_ERROR
              else auth_finished alloc c)
         | STATE_RECEIVED_REPLY_HEADER \<Rightarrow>
             (c\<lparr>sc_buffer := None, sc_state := STATE_UP\<rparr>,
              [SC_BFree, SC_free_control_io, SC_init_up_io, SC_handler BSOCKSCLIENT_EVENT_UP])
         | _ \<Rightarrow> (c, []))"

text \<open>\<open>data\<close> is what the connection wrote at the place of the outstanding receive.\<close>

definition sc_recv_handler_done :: "bool \<Rightarrow> BSocksClient \<Rightarrow> byte list \<Rightarrow> BSocksClient \<times> sc_call list" where
  "sc_recv_handler_done alloc c0 data =
     (let c1 = c0\<lparr>sc_buffer := buf_write (sc_buffer c0) (nat (sc_recv_dest c0 + sc_recv_len c0)) data\<rparr>;
          c = c1\<lparr>sc_recv_len := sc_recv_len c1 + int (length data)\<rparr>;
          bs = (case sc_buffer c of None \<Rightarrow> [] | Some xs \<Rightarrow> xs)
      in if sc_recv_len c < sc_recv_total c then (c, do_receive c)
         else sc_recv_complete alloc c bs)"

definition sc_send_handler_done :: "bool \<Rightarrow> BSocksClient \<Rightarrow> BSocksClient \<times> sc_call list" where
  "sc_send_handler_done alloc c =
     (case sc_state c of
        STATE_SENDING_HELLO \<Rightarrow>
          (let sz = bsize_fromsize 2 in
           case reserve_buffer alloc c sz of
             None \<Rightarrow> sc_report_error c BSOCKSCLIENT_EVENT_ERROR
           | Some c1 \<Rightarrow> (case start_receive c1 0 (uint (bs_value sz)) of (c2, cs) \<Rightarrow> (c2\<lparr>sc_state := STATE_SENT_HELLO\<rparr>, cs)))
      | STATE_SENDING_REQUEST \<Rightarrow>
          (let sz = bsize_add (bsize_fromsize 4) (bsize_max (bsize_fromsize 6) (bsize_fromsize 18)) in
           case reserve_buffer alloc c sz of
             None \<Rightarrow> sc_report_error c BSOCKSCLIENT_EVENT_ERROR
           | Some c1 \<Rightarrow> (case start_receive c1 0 4 of (c2, cs) \<Rightarrow> (c2\<lparr>sc_state := STATE_SENT_REQUEST\<rparr>, cs)))
      | STATE_SENDING_PASSWORD \<Rightarrow>
          (let sz = bsize_fromsize 2 in
           case reserve_buffer alloc c sz of
             None \<Rightarrow> sc_report_error c BSOCKSCLIENT_EVENT_ERROR
           | Some c1 \<Rightarrow> (case start_receive c1 0 (uint (bs_value sz)) of (c2, cs) \<Rightarrow> (c2\<lparr>sc_state := STATE_SENT_PASSWORD\<rparr>, cs)))
      | _ \<Rightarrow> (c, []))"

definition BSocksClient_auth_none :: BSocksClient_auth_info where
  "BSocksClient_auth_none =
     \<lparr>ai_auth_type = SOCKS_METHOD_NO_AUTHENTICATION_REQUIRED, ai_username = [], ai_password = []\<rparr>"

definition BSocksClient_auth_password :: "byte list \<Rightarrow> byte list \<Rightarrow> BSocksClient_auth_info" where
  "BSocksClient_auth_password username password =
     \<lparr>ai_auth_type = SOCKS_METHOD_USERNAME_PASSWORD, ai_username = username, ai_password = password\<rparr>"

text \<open>\<open>connector_init\<close> is the result of \<^verbatim>\<open>BConnector_Init\<close>.\<close>

definition BSocksClient_Init :: "bool \<Rightarrow> BSocksClient_auth_info list \<Rightarrow> BAddr \<Rightarrow> BSocksClient option" where
  "BSocksClient_Init connector_init auth_info dest_addr =
     (if \<not> connector_init then None
      else Some \<lparr>sc_auth_info = auth_info, sc_dest_addr = dest_addr, sc_state = STATE_CONNECTING, sc_buffer = None,
        sc_recv_dest = 0, sc_recv_len = 0, sc_recv_total = 0\<rparr>)"

definition BSocksClient_Free :: "BSocksClient \<Rightarrow> sc_call list" where
  "BSocksClient_Free c =
     (if sc_state c \<noteq> STATE_CONNECTING then
        (if sc_state c = STATE_UP then [SC_free_up_io] else [SC_free_control_io]) @ [SC_BConnection_Free]
      else []) @ [SC_BConnector_Free] @ (if sc_buffer c \<noteq> None then [SC_BFree] else [])"

section \<open>The messages of the client and the replies it accepts\<close>

definition sc_hello :: "BSocksClient_auth_info list \<Rightarrow> byte list" where
  "sc_hello ais = [SOCKS_VERSION, of_nat (length ais)] @ map (\<lambda>ai. word_of_int (ai_auth_type ai)) ais"

definition sc_password :: "BSocksClient_auth_info \<Rightarrow> byte list" where
  "sc_password ai = [1, of_nat (length (ai_username ai))] @ ai_username ai @
     [of_nat (length (ai_password ai))] @ ai_password ai"

definition sc_request :: "BAddr \<Rightarrow> byte list" where
  "sc_request d = (case d of
     BADDR_TYPE_NONE \<Rightarrow> []
   | BADDR_TYPE_IPV4 ip port \<Rightarrow> [SOCKS_VERSION, SOCKS_CMD_CONNECT, 0, SOCKS_ATYP_IPV4] @ ip @ port
   | BADDR_TYPE_IPV6 ip port \<Rightarrow> [SOCKS_VERSION, SOCKS_CMD_CONNECT, 0, SOCKS_ATYP_IPV6] @ ip @ port)"

definition ai_ok :: "BSocksClient_auth_info \<Rightarrow> bool" where
  "ai_ok ai \<longleftrightarrow> ai_auth_type ai = SOCKS_METHOD_NO_AUTHENTICATION_REQUIRED \<or>
     ai_auth_type ai = SOCKS_METHOD_USERNAME_PASSWORD"

definition cred_ok :: "BSocksClient_auth_info \<Rightarrow> bool" where
  "cred_ok ai \<longleftrightarrow> 0 < length (ai_username ai) \<and> length (ai_username ai) \<le> 255 \<and>
     0 < length (ai_password ai) \<and> length (ai_password ai) \<le> 255"

text \<open>A successful authentication: the bytes the server sent, and the messages the client sent before its
  request.\<close>

inductive sc_auth :: "BSocksClient_auth_info list \<Rightarrow> byte list \<Rightarrow> byte list list \<Rightarrow> bool" for ais where
  auth_none: "sc_find_auth ais 0 = Some ai \<Longrightarrow> sc_auth ais [SOCKS_VERSION, 0] [sc_hello ais]"
| auth_pass: "sc_find_auth ais 2 = Some ai \<Longrightarrow> cred_ok ai \<Longrightarrow>
    sc_auth ais [SOCKS_VERSION, 2, 1, 0] [sc_hello ais, sc_password ai]"

text \<open>A successful reply: version, status, a reserved byte, the address type and an address of its length.\<close>

definition sc_addr_len :: "byte \<Rightarrow> nat option" where
  "sc_addr_len atyp = (if atyp = SOCKS_ATYP_IPV4 then Some 6 else if atyp = SOCKS_ATYP_IPV6 then Some 18 else None)"

definition sc_reply :: "byte list \<Rightarrow> bool" where
  "sc_reply rs \<longleftrightarrow> (\<exists>r atyp addr. rs = [SOCKS_VERSION, SOCKS_REP_SUCCEEDED, r, atyp] @ addr \<and>
     sc_addr_len atyp = Some (length addr))"

section \<open>The client in its environment\<close>

text \<open>The operation outstanding at the control connection, the messages sent and the bytes received so far,
  and the events reported to the user.\<close>

datatype sc_pending = Idle | Sending | Receiving int int

record sc_world =
  cl_sc :: BSocksClient
  cl_pending :: sc_pending
  cl_sent :: "byte list list"
  cl_rcvd :: "byte list"
  cl_events :: "sc_event list"

text \<open>The calls of a handler, in order. A send or receive while another one is outstanding would break an
  assertion of the interfaces.\<close>

fun sc_issue :: "sc_call \<Rightarrow> sc_world \<Rightarrow> sc_world option" where
  "sc_issue (SC_Send bs) w =
     (if cl_pending w = Idle then Some (w\<lparr>cl_pending := Sending, cl_sent := cl_sent w @ [bs]\<rparr>) else None)"
| "sc_issue (SC_Recv off n) w =
     (if cl_pending w = Idle \<and> 0 < n then Some (w\<lparr>cl_pending := Receiving off n\<rparr>) else None)"
| "sc_issue (SC_handler e) w = Some (w\<lparr>cl_events := cl_events w @ [e]\<rparr>)"
| "sc_issue _ w = Some w"

fun sc_issues :: "sc_call list \<Rightarrow> sc_world \<Rightarrow> sc_world option" where
  "sc_issues [] w = Some w"
| "sc_issues (c # cs) w = (case sc_issue c w of None \<Rightarrow> None | Some w' \<Rightarrow> sc_issues cs w')"

definition sc_apply :: "sc_world \<Rightarrow> BSocksClient \<times> sc_call list \<Rightarrow> sc_world option" where
  "sc_apply w r = sc_issues (snd r) (w\<lparr>cl_sc := fst r\<rparr>)"

definition sc_alive :: "sc_world \<Rightarrow> bool" where
  "sc_alive w \<longleftrightarrow> cl_events w = [] \<or> cl_events w = [BSOCKSCLIENT_EVENT_UP]"

definition sc_connected :: "bool \<Rightarrow> bool \<Rightarrow> sc_world \<Rightarrow> sc_world option" where
  "sc_connected con_init alloc w =
     (if sc_alive w \<and> sc_state (cl_sc w) = STATE_CONNECTING
      then sc_apply w (sc_connector_handler con_init alloc (cl_sc w) False) else None)"

definition sc_sent_done :: "bool \<Rightarrow> sc_world \<Rightarrow> sc_world option" where
  "sc_sent_done alloc w =
     (if sc_alive w \<and> cl_pending w = Sending
      then sc_apply (w\<lparr>cl_pending := Idle\<rparr>) (sc_send_handler_done alloc (cl_sc w)) else None)"

definition sc_feed :: "bool \<Rightarrow> byte list \<Rightarrow> sc_world \<Rightarrow> sc_world option" where
  "sc_feed alloc data w =
     (case cl_pending w of
        Receiving off n \<Rightarrow>
          if sc_alive w \<and> data \<noteq> [] \<and> int (length data) \<le> n
          then sc_apply (w\<lparr>cl_pending := Idle, cl_rcvd := cl_rcvd w @ data\<rparr>) (sc_recv_handler_done alloc (cl_sc w) data)
          else None
      | _ \<Rightarrow> None)"

text \<open>The connection fails or is closed at any time after it was established.\<close>

definition sc_broken :: "bool \<Rightarrow> sc_world \<Rightarrow> sc_world option" where
  "sc_broken recvclosed w =
     (if sc_alive w \<and> sc_state (cl_sc w) \<noteq> STATE_CONNECTING
      then sc_apply w (sc_connection_handler (cl_sc w) recvclosed) else None)"

inductive sc_reach :: "sc_world \<Rightarrow> sc_world \<Rightarrow> bool" for w0 where
  sc_start: "sc_reach w0 w0"
| sc_con: "sc_reach w0 w \<Longrightarrow> sc_connected ci al w = Some w' \<Longrightarrow> sc_reach w0 w'"
| sc_snt: "sc_reach w0 w \<Longrightarrow> sc_sent_done al w = Some w' \<Longrightarrow> sc_reach w0 w'"
| sc_rcv: "sc_reach w0 w \<Longrightarrow> sc_feed al data w = Some w' \<Longrightarrow> sc_reach w0 w'"
| sc_brk: "sc_reach w0 w \<Longrightarrow> sc_broken rc w = Some w' \<Longrightarrow> sc_reach w0 w'"

definition sc_init :: "BSocksClient_auth_info list \<Rightarrow> BAddr \<Rightarrow> sc_world" where
  "sc_init ais d = \<lparr>cl_sc = the (BSocksClient_Init True ais d), cl_pending = Idle, cl_sent = [], cl_rcvd = [], cl_events = []\<rparr>"

text \<open>What each state means for the conversation so far. \<open>got\<close> are the bytes of the reply part that is being
  received.\<close>

definition sc_receiving :: "sc_world \<Rightarrow> nat \<Rightarrow> nat \<Rightarrow> byte list \<Rightarrow> bool" where
  "sc_receiving w off tot got \<longleftrightarrow> (\<exists>bs. sc_buffer (cl_sc w) = Some bs \<and> off + tot \<le> length bs \<and>
     length got < tot \<and> take (length got) (drop off bs) = got \<and>
     sc_recv_dest (cl_sc w) = int off \<and> sc_recv_len (cl_sc w) = int (length got) \<and> sc_recv_total (cl_sc w) = int tot \<and>
     cl_pending w = Receiving (int off + int (length got)) (int tot - int (length got)))"

definition sc_conv :: "BSocksClient_auth_info list \<Rightarrow> BAddr \<Rightarrow> sc_world \<Rightarrow> bool" where
  "sc_conv ais d w = (case sc_state (cl_sc w) of
     STATE_CONNECTING \<Rightarrow> cl_pending w = Idle \<and> cl_sent w = [] \<and> cl_rcvd w = []
   | STATE_SENDING_HELLO \<Rightarrow> cl_pending w = Sending \<and> cl_sent w = [sc_hello ais] \<and> cl_rcvd w = [] \<and> sc_buffer (cl_sc w) \<noteq> None
   | STATE_SENT_HELLO \<Rightarrow> cl_sent w = [sc_hello ais] \<and> sc_receiving w 0 2 (cl_rcvd w)
   | STATE_SENDING_PASSWORD \<Rightarrow> cl_pending w = Sending \<and> sc_buffer (cl_sc w) \<noteq> None \<and> cl_rcvd w = [SOCKS_VERSION, 2] \<and>
       (\<exists>ai. sc_find_auth ais 2 = Some ai \<and> cred_ok ai \<and> cl_sent w = [sc_hello ais, sc_password ai])
   | STATE_SENT_PASSWORD \<Rightarrow> (\<exists>ai got. sc_find_auth ais 2 = Some ai \<and> cred_ok ai \<and> cl_sent w = [sc_hello ais, sc_password ai] \<and>
       cl_rcvd w = [SOCKS_VERSION, 2] @ got \<and> sc_receiving w 0 2 got)
   | STATE_SENDING_REQUEST \<Rightarrow> cl_pending w = Sending \<and> sc_buffer (cl_sc w) \<noteq> None \<and>
       (\<exists>ms. sc_auth ais (cl_rcvd w) ms \<and> cl_sent w = ms @ [sc_request d])
   | STATE_SENT_REQUEST \<Rightarrow> (\<exists>auth ms got. sc_auth ais auth ms \<and> cl_sent w = ms @ [sc_request d] \<and>
       cl_rcvd w = auth @ got \<and> sc_receiving w 0 4 got \<and> (\<exists>bs. sc_buffer (cl_sc w) = Some bs \<and> length bs = 22))
   | STATE_RECEIVED_REPLY_HEADER \<Rightarrow> (\<exists>auth ms r atyp got tot. sc_auth ais auth ms \<and> cl_sent w = ms @ [sc_request d] \<and>
       cl_rcvd w = auth @ [SOCKS_VERSION, SOCKS_REP_SUCCEEDED, r, atyp] @ got \<and> sc_addr_len atyp = Some tot \<and> sc_receiving w 4 tot got)
   | STATE_UP \<Rightarrow> cl_pending w = Idle \<and> (\<exists>auth ms rep. sc_auth ais auth ms \<and> cl_sent w = ms @ [sc_request d] \<and>
       cl_rcvd w = auth @ rep \<and> sc_reply rep))"

definition sc_inv :: "BSocksClient_auth_info list \<Rightarrow> BAddr \<Rightarrow> sc_world \<Rightarrow> bool" where
  "sc_inv ais d w \<longleftrightarrow> sc_auth_info (cl_sc w) = ais \<and> sc_dest_addr (cl_sc w) = d \<and>
     (case cl_events w of
        [] \<Rightarrow> sc_conv ais d w \<and> sc_state (cl_sc w) \<noteq> STATE_UP
      | [BSOCKSCLIENT_EVENT_UP] \<Rightarrow> sc_conv ais d w \<and> sc_state (cl_sc w) = STATE_UP
      | es \<Rightarrow> es \<in> {[BSOCKSCLIENT_EVENT_ERROR], [BSOCKSCLIENT_EVENT_UP, BSOCKSCLIENT_EVENT_ERROR],
          [BSOCKSCLIENT_EVENT_UP, BSOCKSCLIENT_EVENT_ERROR_CLOSED]})"

section \<open>Buffers\<close>

lemma length_brealloc [simp]: "length (brealloc b n) = n"
  by (simp add: brealloc_def Let_def)

lemma bsize_absD:
  assumes "bsize_abs s = Some n"
  shows "\<not> bs_is_overflow s" "unat (bs_value s) = n"
  using assms by (auto simp: bsize_abs_def split: if_splits)

lemma reserve_ok:
  assumes "bsize_abs sz = Some n"
  shows "reserve_buffer al c sz = (if al then Some (c\<lparr>sc_buffer := Some (brealloc (sc_buffer c) n)\<rparr>) else None)"
  using bsize_absD [OF assms] by (simp add: reserve_buffer_def)

lemma size_fromsize: "n < 2 ^ 64 \<Longrightarrow> bsize_abs (bsize_fromsize (of_nat n) :: u64 bsize_t) = Some n"
  by (simp add: unsigned_of_nat take_bit_nat_eq_self)

lemma size_hello:
  assumes "n \<le> 255"
  shows "bsize_abs (bsize_add (bsize_fromsize 2) (bsize_mul (bsize_fromsize (of_nat n)) (bsize_fromsize 1)) :: u64 bsize_t) = Some (2 + n)"
  using assms by (simp add: bsize_abs_add bsize_abs_mul fits_def unsigned_of_nat take_bit_nat_eq_self)

lemma size_consts:
  "bsize_abs (bsize_fromsize 2 :: u64 bsize_t) = Some 2"
  "bsize_abs (bsize_add (bsize_fromsize 4) (bsize_fromsize 6) :: u64 bsize_t) = Some 10"
  "bsize_abs (bsize_add (bsize_fromsize 4) (bsize_fromsize 18) :: u64 bsize_t) = Some 22"
  "bsize_abs (bsize_add (bsize_fromsize 4) (bsize_max (bsize_fromsize 6) (bsize_fromsize 18)) :: u64 bsize_t) = Some 22"
  by (simp_all add: bsize_abs_add bsize_abs_max fits_def)

lemma buf_write_Some: "buf_write (Some bs) off xs = Some (take off bs @ xs @ drop (off + length xs) bs)"
  by (simp add: buf_write_def)

lemma buf_write_None [simp]: "buf_write b off xs = None \<longleftrightarrow> b = None"
  by (simp add: buf_write_def)

lemma buf_write_header:
  assumes "length bs = length h + length xs" "n = length h"
  shows "buf_write (buf_write (Some bs) 0 h) n xs = Some (h @ xs)"
    "buf_write (buf_write (Some bs) n xs) 0 h = Some (h @ xs)"
  using assms by (simp_all add: buf_write_Some)

text \<open>Writing received data behind the data received before.\<close>

lemma buf_feed:
  assumes "off + length got + length data \<le> length bs" "take (length got) (drop off bs) = got"
  obtains bs' where "buf_write (Some bs) (off + length got) data = Some bs'" "length bs' = length bs"
    "take (length (got @ data)) (drop off bs') = got @ data" "take off bs' = take off bs"
proof
  let ?bs = "take (off + length got) bs @ data @ drop (off + length got + length data) bs"
  show "buf_write (Some bs) (off + length got) data = Some ?bs" by (simp add: buf_write_Some add.assoc)
  show "length ?bs = length bs" using assms(1) by simp
  have "take (off + length got) bs = take off bs @ got" using assms(2) by (simp add: take_add)
  then show "take (length (got @ data)) (drop off ?bs) = got @ data" "take off ?bs = take off bs"
    using assms(1) by simp_all
qed

section \<open>The invariant\<close>

lemma sc_init_inv: "sc_inv ais d (sc_init ais d)"
  by (simp add: sc_inv_def sc_init_def BSocksClient_Init_def sc_conv_def)

lemma sc_connected_inv:
  assumes inv: "sc_inv ais d w" and step: "sc_connected ci al w = Some w'"
  shows "sc_inv ais d w'"
proof -
  let ?c = "cl_sc w"
  have s: "sc_alive w" "sc_state ?c = STATE_CONNECTING" "sc_auth_info ?c = ais" "sc_dest_addr ?c = d"
    using inv step by (auto simp: sc_connected_def sc_inv_def split: if_splits)
  then have ev: "cl_events w = []" and conv: "cl_pending w = Idle" "cl_sent w = []" "cl_rcvd w = []"
    using inv by (auto simp: sc_inv_def sc_alive_def sc_conv_def)
  show ?thesis
  proof (cases "\<not> ci \<or> length ais = 0 \<or> length ais > 255 \<or> \<not> al")
    case True
    have "\<not> length ais > 255 \<Longrightarrow> \<not> al \<Longrightarrow> reserve_buffer al ?c (bsize_add (bsize_fromsize 2)
        (bsize_mul (bsize_fromsize (of_nat (length ais))) (bsize_fromsize 1))) = None"
      by (simp add: reserve_ok size_hello)
    then have "\<exists>pre. sc_connector_handler ci al ?c False = (?c, pre @ [SC_handler BSOCKSCLIENT_EVENT_ERROR]) \<and>
        set pre \<subseteq> {SC_init_control_io, SC_free_control_io, SC_BConnection_Free}"
      using True s(3) by (auto simp: sc_connector_handler_def sc_report_error_def Let_def)
    then have "w' = w\<lparr>cl_events := [BSOCKSCLIENT_EVENT_ERROR]\<rparr>"
      using step s ev by (auto simp: sc_connected_def sc_apply_def sc_connector_handler_def sc_report_error_def Let_def
          split: if_splits option.splits)
    then show ?thesis using inv by (simp add: sc_inv_def)
  next
    case False
    let ?sz = "bsize_add (bsize_fromsize 2) (bsize_mul (bsize_fromsize (of_nat (length ais))) (bsize_fromsize 1)) :: u64 bsize_t"
    have sz: "bsize_abs ?sz = Some (2 + length ais)" using False by (simp add: size_hello)
    have b: "buf_write (buf_write (Some (brealloc (sc_buffer ?c) (2 + length ais))) 0 [SOCKS_VERSION, of_nat (length ais)]) 2
        (map (\<lambda>ai. word_of_int (ai_auth_type ai)) ais) = Some (sc_hello ais)"
      using buf_write_header(1) [of "brealloc (sc_buffer ?c) (2 + length ais)" "[SOCKS_VERSION, of_nat (length ais)]"
          "map (\<lambda>ai. word_of_int (ai_auth_type ai)) ais" 2] by (simp add: sc_hello_def)
    have "length (sc_hello ais) = 2 + length ais" by (simp add: sc_hello_def)
    then have "sc_connector_handler ci al ?c False =
        (?c\<lparr>sc_buffer := Some (sc_hello ais), sc_state := STATE_SENDING_HELLO\<rparr>, [SC_init_control_io, SC_Send (sc_hello ais)])"
      using False s(3) b bsize_absD(2) [OF sz] by (simp add: sc_connector_handler_def reserve_ok [OF sz])
    then have "w' = w\<lparr>cl_sc := ?c\<lparr>sc_buffer := Some (sc_hello ais), sc_state := STATE_SENDING_HELLO\<rparr>,
        cl_pending := Sending, cl_sent := [sc_hello ais]\<rparr>"
      using step s conv by (simp add: sc_connected_def sc_apply_def)
    then show ?thesis using s conv ev by (simp add: sc_inv_def sc_conv_def)
  qed
qed

lemma sc_sent_done_inv:
  assumes inv: "sc_inv ais d w" and step: "sc_sent_done al w = Some w'"
  shows "sc_inv ais d w'" "al \<Longrightarrow> cl_events w' = cl_events w"
proof -
  let ?c = "cl_sc w"
  have s: "sc_alive w" "cl_pending w = Sending" "sc_auth_info ?c = ais" "sc_dest_addr ?c = d"
    and ap: "sc_apply (w\<lparr>cl_pending := Idle\<rparr>) (sc_send_handler_done al ?c) = Some w'"
    using inv step by (auto simp: sc_sent_done_def sc_inv_def split: if_splits)
  have "cl_events w = []" and conv: "sc_conv ais d w" "sc_state ?c \<noteq> STATE_UP"
    using inv s(1,2) by (auto simp: sc_inv_def sc_alive_def sc_conv_def)
  note ev = this(1)
  have u2: "uint (bs_value (bsize_fromsize 2 :: u64 bsize_t)) = 2" by (simp add: bsize_fromsize_def)
  consider (h) "sc_state ?c = STATE_SENDING_HELLO" | (p) "sc_state ?c = STATE_SENDING_PASSWORD"
    | (r) "sc_state ?c = STATE_SENDING_REQUEST"
    using conv s(2) by (cases "sc_state ?c") (auto simp: sc_conv_def sc_receiving_def)
  then have "sc_inv ais d w' \<and> (al \<longrightarrow> cl_events w' = cl_events w)"
  proof cases
    case h
    show ?thesis
      using h ap ev s conv u2
      by (cases al) (auto simp: sc_send_handler_done_def reserve_ok [OF size_consts(1)] sc_apply_def sc_report_error_def
          start_receive_def do_receive_def Let_def sc_inv_def sc_conv_def sc_receiving_def)
  next
    case p
    show ?thesis
      using p ap ev s conv u2
      by (cases al) (auto simp: sc_send_handler_done_def reserve_ok [OF size_consts(1)] sc_apply_def sc_report_error_def
          start_receive_def do_receive_def Let_def sc_inv_def sc_conv_def sc_receiving_def)
  next
    case r
    show ?thesis
      using r ap ev s conv
      by (cases al) (auto simp: sc_send_handler_done_def reserve_ok [OF size_consts(4)] sc_apply_def sc_report_error_def
          start_receive_def do_receive_def Let_def sc_inv_def sc_conv_def sc_receiving_def)
  qed
  then show "sc_inv ais d w'" "al \<Longrightarrow> cl_events w' = cl_events w" by simp_all
qed

text \<open>The request goes out once the server accepted the authentication.\<close>

lemma auth_finished_eq:
  assumes "baddr_ok d" "sc_dest_addr c = d"
  shows "auth_finished al c = (if al then
    (c\<lparr>sc_buffer := Some (sc_request d), sc_state := STATE_SENDING_REQUEST\<rparr>, [SC_Send (sc_request d)])
    else (c, [SC_handler BSOCKSCLIENT_EVENT_ERROR]))"
proof (cases d)
  case (BADDR_TYPE_IPV4 ip port)
  let ?sz = "bsize_add (bsize_fromsize 4) (bsize_fromsize 6) :: u64 bsize_t"
  have l: "length (sc_request d) = 10" using assms BADDR_TYPE_IPV4 by (simp add: sc_request_def baddr_ok_def baddr_sized_def)
  have "buf_write (buf_write (Some (brealloc (sc_buffer c) 10)) 4 (ip @ port)) 0
      [SOCKS_VERSION, SOCKS_CMD_CONNECT, 0, SOCKS_ATYP_IPV4] = Some (sc_request d)"
    using buf_write_header(2) [of "brealloc (sc_buffer c) 10" "[SOCKS_VERSION, SOCKS_CMD_CONNECT, 0, SOCKS_ATYP_IPV4]" "ip @ port" 4]
      assms BADDR_TYPE_IPV4 by (simp add: sc_request_def baddr_ok_def baddr_sized_def)
  with l assms(2) BADDR_TYPE_IPV4 bsize_absD(2) [OF size_consts(2)] show ?thesis
    by (simp add: auth_finished_def reserve_ok [OF size_consts(2)] sc_report_error_def)
next
  case (BADDR_TYPE_IPV6 ip port)
  let ?sz = "bsize_add (bsize_fromsize 4) (bsize_fromsize 18) :: u64 bsize_t"
  have l: "length (sc_request d) = 22" using assms BADDR_TYPE_IPV6 by (simp add: sc_request_def baddr_ok_def baddr_sized_def)
  have "buf_write (buf_write (Some (brealloc (sc_buffer c) 22)) 4 (ip @ port)) 0
      [SOCKS_VERSION, SOCKS_CMD_CONNECT, 0, SOCKS_ATYP_IPV6] = Some (sc_request d)"
    using buf_write_header(2) [of "brealloc (sc_buffer c) 22" "[SOCKS_VERSION, SOCKS_CMD_CONNECT, 0, SOCKS_ATYP_IPV6]" "ip @ port" 4]
      assms BADDR_TYPE_IPV6 by (simp add: sc_request_def baddr_ok_def baddr_sized_def)
  with l assms(2) BADDR_TYPE_IPV6 bsize_absD(2) [OF size_consts(3)] show ?thesis
    by (simp add: auth_finished_def reserve_ok [OF size_consts(3)] sc_report_error_def)
qed (use assms in \<open>simp add: baddr_ok_def baddr_sized_def\<close>)

lemma received_hello_eq:
  assumes "baddr_ok d" "sc_dest_addr c = d" "sc_auth_info c = ais" "\<forall>ai \<in> set ais. ai_ok ai"
  shows "sc_received_hello al c bs =
    (if bs ! 0 = SOCKS_VERSION \<and> bs ! 1 = 0 \<and> sc_find_auth ais 0 \<noteq> None then auth_finished al c
     else case sc_find_auth ais 2 of
       Some ai \<Rightarrow> if bs ! 0 = SOCKS_VERSION \<and> bs ! 1 = 2 \<and> cred_ok ai \<and> al then
           (c\<lparr>sc_buffer := Some (sc_password ai), sc_state := STATE_SENDING_PASSWORD\<rparr>, [SC_Send (sc_password ai)])
         else (c, [SC_handler BSOCKSCLIENT_EVENT_ERROR])
     | None \<Rightarrow> (c, [SC_handler BSOCKSCLIENT_EVENT_ERROR]))"
proof -
  have find: "sc_find_auth ais t = Some ai \<Longrightarrow> ai_auth_type ai = t \<and> ai \<in> set ais" for t ai
    by (induction ais) (auto split: if_splits)
  have b: "uint (bs ! 1) = 0 \<longleftrightarrow> bs ! 1 = 0" "uint (bs ! 1) = 2 \<longleftrightarrow> bs ! 1 = 2"
    by (simp_all add: word_uint_eq_iff)
  show ?thesis
  proof (cases "bs ! 0 = SOCKS_VERSION")
    case True
    show ?thesis
    proof (cases "sc_find_auth ais (uint (bs ! 1))")
      case None
      then have "bs ! 1 = 0 \<Longrightarrow> sc_find_auth ais 0 = None" "bs ! 1 = 2 \<Longrightarrow> sc_find_auth ais 2 = None" by auto
      with True None assms(3) show ?thesis
        by (auto simp: sc_received_hello_def sc_report_error_def split: option.splits)
    next
      case (Some ai)
      have t: "ai_auth_type ai = uint (bs ! 1)" "ai_auth_type ai = 0 \<or> ai_auth_type ai = 2"
        using find [OF Some] assms(4) by (auto simp: ai_ok_def socks_consts)
      show ?thesis
      proof (cases "bs ! 1 = 0")
        case True
        with Some t \<open>bs ! 0 = SOCKS_VERSION\<close> assms(3) show ?thesis
          by (simp add: sc_received_hello_def socks_consts)
      next
        case False
        then have 2: "bs ! 1 = 2" "ai_auth_type ai = 2" using t b by auto
        then have f: "sc_find_auth ais 2 = Some ai" using Some t by simp
        let ?n = "1 + 1 + length (ai_username ai) + 1 + length (ai_password ai)"
        have sz: "cred_ok ai \<Longrightarrow> bsize_abs (bsize_fromsize (of_nat ?n) :: u64 bsize_t) = Some ?n"
          by (rule size_fromsize) (simp add: cred_ok_def)
        have l: "length (sc_password ai) = ?n" by (simp add: sc_password_def)
        have w: "buf_write (Some (brealloc (sc_buffer c) ?n)) 0 (sc_password ai) = Some (sc_password ai)"
          using l by (simp add: buf_write_Some)
        have c: "cred_ok ai \<longleftrightarrow> \<not> (length (ai_username ai) = 0 \<or> length (ai_username ai) > 255 \<or>
            length (ai_password ai) = 0 \<or> length (ai_password ai) > 255)" by (auto simp: cred_ok_def)
        have h: "sc_received_hello al c bs = (if \<not> cred_ok ai then (c, [SC_handler BSOCKSCLIENT_EVENT_ERROR])
          else case reserve_buffer al c (bsize_fromsize (of_nat ?n)) of
              None \<Rightarrow> (c, [SC_handler BSOCKSCLIENT_EVENT_ERROR])
            | Some c1 \<Rightarrow> let b = buf_write (sc_buffer c1) 0 (sc_password ai) in
                (c1\<lparr>sc_buffer := b, sc_state := STATE_SENDING_PASSWORD\<rparr>,
                 [SC_Send (take (unat (bs_value (bsize_fromsize (of_nat ?n) :: u64 bsize_t))) (the b))]))"
          using f 2 \<open>bs ! 0 = SOCKS_VERSION\<close> assms(3)
          by (simp add: sc_received_hello_def sc_report_error_def Let_def sc_password_def c socks_consts
              cong: option.case_cong)
        have g: "sc_received_hello al c bs = (if cred_ok ai \<and> al then
            (c\<lparr>sc_buffer := Some (sc_password ai), sc_state := STATE_SENDING_PASSWORD\<rparr>, [SC_Send (sc_password ai)])
          else (c, [SC_handler BSOCKSCLIENT_EVENT_ERROR]))"
        proof (cases "cred_ok ai")
          case True
          from sz [OF True] have r: "reserve_buffer al c (bsize_fromsize (of_nat ?n)) =
              (if al then Some (c\<lparr>sc_buffer := Some (brealloc (sc_buffer c) ?n)\<rparr>) else None)" by (rule reserve_ok)
          show ?thesis unfolding h r bsize_absD(2) [OF sz [OF True]] using True w l by (simp add: Let_def)
        qed (simp add: h)
        show ?thesis unfolding g using f 2 \<open>bs ! 0 = SOCKS_VERSION\<close> by simp
      qed
    qed
  qed (simp add: sc_received_hello_def sc_report_error_def split: option.splits)
qed

text \<open>The byte sequences of the server that lead to the up state.\<close>

definition sc_accept :: "BSocksClient_auth_info list \<Rightarrow> byte list \<Rightarrow> bool" where
  "sc_accept ais rs \<longleftrightarrow> (\<exists>auth ms rep. sc_auth ais auth ms \<and> sc_reply rep \<and> rs = auth @ rep)"

lemma sc_auth_cases:
  assumes "sc_auth ais auth ms"
  obtains (none) ai where "auth = [5, 0]" "sc_find_auth ais 0 = Some ai" "ms = [sc_hello ais]"
  | (pass) ai where "auth = [5, 2, 1, 0]" "sc_find_auth ais 2 = Some ai" "cred_ok ai" "ms = [sc_hello ais, sc_password ai]"
  using assms by cases (auto simp: SOCKS_VERSION_def)

lemma accept_hello: "sc_accept ais ([a, b] @ rest) \<Longrightarrow>
    a = 5 \<and> (b = 0 \<and> sc_find_auth ais 0 \<noteq> None \<or> b = 2 \<and> (\<exists>ai. sc_find_auth ais 2 = Some ai \<and> cred_ok ai))"
  by (auto simp: sc_accept_def elim!: sc_auth_cases)

lemma accept_password: "sc_accept ais ([5, 2, a, b] @ rest) \<Longrightarrow> a = 1 \<and> b = 0"
  by (auto simp: sc_accept_def elim!: sc_auth_cases)

lemma accept_reply:
  assumes "sc_auth ais auth ms" "sc_accept ais (auth @ rest)"
  shows "sc_reply rest"
  using assms by (auto simp: sc_accept_def elim!: sc_auth_cases)

lemma feed_cases:
  assumes r: "sc_receiving w off tot got" and n: "length got + length data \<le> tot"
  obtains bs bs' c' where "sc_buffer (cl_sc w) = Some bs" "length bs' = length bs" "off + tot \<le> length bs"
    "take (length (got @ data)) (drop off bs') = got @ data"
    "c' = (cl_sc w)\<lparr>sc_buffer := Some bs', sc_recv_len := int (length (got @ data))\<rparr>"
    "sc_recv_handler_done al (cl_sc w) data =
      (if length (got @ data) < tot then
         (c', [SC_Recv (int off + int (length (got @ data))) (int tot - int (length (got @ data)))])
       else sc_recv_complete al c' bs')"
proof -
  obtain bs where b: "sc_buffer (cl_sc w) = Some bs" "off + tot \<le> length bs" "take (length got) (drop off bs) = got"
    "sc_recv_dest (cl_sc w) = int off" "sc_recv_len (cl_sc w) = int (length got)" "sc_recv_total (cl_sc w) = int tot"
    using r by (auto simp: sc_receiving_def)
  obtain bs' where b': "buf_write (Some bs) (off + length got) data = Some bs'" "length bs' = length bs"
    "take (length (got @ data)) (drop off bs') = got @ data"
    using buf_feed [of off got data bs] b(2,3) n by auto
  let ?c = "(cl_sc w)\<lparr>sc_buffer := Some bs', sc_recv_len := int (length (got @ data))\<rparr>"
  have o: "nat (int off + int (length got)) = off + length got" by simp
  have "sc_recv_handler_done al (cl_sc w) data =
      (if length (got @ data) < tot then
         (?c, [SC_Recv (int off + int (length (got @ data))) (int tot - int (length (got @ data)))])
       else sc_recv_complete al ?c bs')"
    using b'(1)
    by (simp add: sc_recv_handler_done_def Let_def do_receive_def b(1,4,5,6) o)
  with that [OF b(1) b'(2) b(2) b'(3) refl] show ?thesis by blast
qed

text \<open>A part of a reply that is not complete yet.\<close>

lemma sc_receiving_more:
  assumes r: "sc_receiving w off tot got" and n: "length got + length data < tot" "data \<noteq> []" and al: "sc_alive w"
  shows "\<exists>w' bs'. sc_feed a data w = Some w' \<and> sc_receiving w' off tot (got @ data) \<and> cl_sent w' = cl_sent w \<and>
    cl_rcvd w' = cl_rcvd w @ data \<and> cl_events w' = cl_events w \<and> sc_buffer (cl_sc w') = Some bs' \<and>
    length bs' = length (the (sc_buffer (cl_sc w))) \<and>
    cl_sc w' = (cl_sc w)\<lparr>sc_buffer := Some bs', sc_recv_len := int (length (got @ data))\<rparr>"
proof -
  have n': "length got + length data \<le> tot" using n by simp
  obtain bs bs' c' where b: "sc_buffer (cl_sc w) = Some bs" "length bs' = length bs" "off + tot \<le> length bs"
    "take (length (got @ data)) (drop off bs') = got @ data"
    "c' = (cl_sc w)\<lparr>sc_buffer := Some bs', sc_recv_len := int (length (got @ data))\<rparr>"
    "sc_recv_handler_done a (cl_sc w) data =
      (if length (got @ data) < tot then
         (c', [SC_Recv (int off + int (length (got @ data))) (int tot - int (length (got @ data)))])
       else sc_recv_complete a c' bs')"
    by (rule feed_cases [OF r n'])
  have p: "cl_pending w = Receiving (int off + int (length got)) (int tot - int (length got))"
    "sc_recv_dest (cl_sc w) = int off" "sc_recv_total (cl_sc w) = int tot"
    using r by (auto simp: sc_receiving_def)
  let ?w = "w\<lparr>cl_pending := Receiving (int off + int (length (got @ data))) (int tot - int (length (got @ data))),
    cl_rcvd := cl_rcvd w @ data, cl_sc := c'\<rparr>"
  have "sc_feed a data w = Some ?w"
    using p(1) al n b(6) by (simp add: sc_feed_def sc_apply_def)
  moreover have "sc_receiving ?w off tot (got @ data)"
    using b n p by (auto simp: sc_receiving_def)
  ultimately show ?thesis using b by auto
qed

lemma sc_receiving_complete:
  assumes r: "sc_receiving w off tot got" and n: "length got + length data = tot" "data \<noteq> []" and al: "sc_alive w"
  obtains bs bs' c' where "sc_buffer (cl_sc w) = Some bs" "length bs' = length bs" "off + tot \<le> length bs"
    "take tot (drop off bs') = got @ data"
    "c' = (cl_sc w)\<lparr>sc_buffer := Some bs', sc_recv_len := int tot\<rparr>"
    "sc_feed a data w = sc_apply (w\<lparr>cl_pending := Idle, cl_rcvd := cl_rcvd w @ data\<rparr>) (sc_recv_complete a c' bs')"
proof -
  have n': "length got + length data \<le> tot" using n by simp
  obtain bs bs' c' where b: "sc_buffer (cl_sc w) = Some bs" "length bs' = length bs" "off + tot \<le> length bs"
    "take (length (got @ data)) (drop off bs') = got @ data"
    "c' = (cl_sc w)\<lparr>sc_buffer := Some bs', sc_recv_len := int (length (got @ data))\<rparr>"
    "sc_recv_handler_done a (cl_sc w) data =
      (if length (got @ data) < tot then
         (c', [SC_Recv (int off + int (length (got @ data))) (int tot - int (length (got @ data)))])
       else sc_recv_complete a c' bs')"
    by (rule feed_cases [OF r n'])
  have "cl_pending w = Receiving (int off + int (length got)) (int tot - int (length got))"
    using r by (auto simp: sc_receiving_def)
  then have "sc_feed a data w = sc_apply (w\<lparr>cl_pending := Idle, cl_rcvd := cl_rcvd w @ data\<rparr>) (sc_recv_complete a c' bs')"
    using al n b(6) by (simp add: sc_feed_def)
  with that b n show ?thesis by simp
qed

text \<open>What a step owes: the invariant and, unless memory runs out, no error while the bytes received can still be
  completed to an acceptable conversation.\<close>

definition sc_good :: "bool \<Rightarrow> BSocksClient_auth_info list \<Rightarrow> BAddr \<Rightarrow> sc_world \<Rightarrow> bool" where
  "sc_good al ais d w \<longleftrightarrow> sc_inv ais d w \<and> (al \<longrightarrow> (\<exists>rest. sc_accept ais (cl_rcvd w @ rest)) \<longrightarrow> sc_alive w)"

lemma sc_good_error:
  assumes "sc_apply (w\<lparr>cl_pending := p, cl_rcvd := r\<rparr>) (c, [SC_handler BSOCKSCLIENT_EVENT_ERROR]) = Some w'"
    "cl_events w = []" "sc_auth_info c = ais" "sc_dest_addr c = d" "\<And>rest. al \<Longrightarrow> \<not> sc_accept ais (r @ rest)"
  shows "sc_good al ais d w'"
  using assms by (auto simp: sc_good_def sc_apply_def sc_inv_def)

lemma sc_good_send:
  assumes "sc_apply (w\<lparr>cl_pending := Idle, cl_rcvd := r\<rparr>) (c, [SC_Send m]) = Some w'"
    "cl_events w = []" "sc_auth_info c = ais" "sc_dest_addr c = d" "sc_state c \<noteq> STATE_UP"
    "sc_conv ais d (w\<lparr>cl_rcvd := r, cl_sc := c, cl_pending := Sending, cl_sent := cl_sent w @ [m]\<rparr>)"
  shows "sc_good al ais d w'"
  using assms by (auto simp: sc_good_def sc_apply_def sc_inv_def sc_alive_def)

lemma two_bytes: "take 2 bs = g \<Longrightarrow> length g = 2 \<Longrightarrow> g = [bs ! 0, bs ! 1]"
  by (cases bs; cases "tl bs") auto

lemma four_bytes: "take 4 bs = g \<Longrightarrow> length g = 4 \<Longrightarrow> g = [bs ! 0, bs ! 1, bs ! 2, bs ! 3]"
  by (cases bs; cases "tl bs"; cases "tl (tl bs)"; cases "tl (tl (tl bs))") auto

lemma auth_finished_good:
  assumes ap: "sc_apply (w\<lparr>cl_pending := Idle, cl_rcvd := r\<rparr>) (auth_finished al c) = Some w'"
    and c: "cl_events w = []" "sc_auth_info c = ais" "sc_dest_addr c = d" "baddr_ok d"
    and auth: "sc_auth ais r (cl_sent w)"
  shows "sc_good al ais d w'"
proof (cases al)
  case True
  with ap auth_finished_eq [OF c(4,3)] have "sc_apply (w\<lparr>cl_pending := Idle, cl_rcvd := r\<rparr>)
      (c\<lparr>sc_buffer := Some (sc_request d), sc_state := STATE_SENDING_REQUEST\<rparr>, [SC_Send (sc_request d)]) = Some w'" by simp
  then show ?thesis by (rule sc_good_send) (use c auth in \<open>auto simp: sc_conv_def\<close>)
next
  case False
  with ap auth_finished_eq [OF c(4,3)] have "sc_apply (w\<lparr>cl_pending := Idle, cl_rcvd := r\<rparr>)
      (c, [SC_handler BSOCKSCLIENT_EVENT_ERROR]) = Some w'" by simp
  then show ?thesis by (rule sc_good_error) (use c False in auto)
qed

lemma hello_good:
  assumes ap: "sc_apply (w\<lparr>cl_pending := Idle, cl_rcvd := [bs ! 0, bs ! 1]\<rparr>) (sc_received_hello al c bs) = Some w'"
    and c: "cl_events w = []" "sc_auth_info c = ais" "sc_dest_addr c = d" "baddr_ok d" "\<forall>ai \<in> set ais. ai_ok ai"
    and sent: "cl_sent w = [sc_hello ais]"
  shows "sc_good al ais d w'"
proof -
  note eq = received_hello_eq [OF c(4,3,2,5)]
  consider (none) ai where "bs ! 0 = 5" "bs ! 1 = 0" "sc_find_auth ais 0 = Some ai"
    | (pass) ai where "bs ! 0 = 5" "bs ! 1 = 2" "sc_find_auth ais 2 = Some ai" "cred_ok ai" al
    | (err) "\<And>rest. al \<Longrightarrow> \<not> sc_accept ais ([bs ! 0, bs ! 1] @ rest)"
      "sc_received_hello al c bs = (c, [SC_handler BSOCKSCLIENT_EVENT_ERROR])"
  proof -
    assume n: "\<And>ai. bs ! 0 = 5 \<Longrightarrow> bs ! 1 = 0 \<Longrightarrow> sc_find_auth ais 0 = Some ai \<Longrightarrow> thesis"
      and p: "\<And>ai. bs ! 0 = 5 \<Longrightarrow> bs ! 1 = 2 \<Longrightarrow> sc_find_auth ais 2 = Some ai \<Longrightarrow> cred_ok ai \<Longrightarrow> al \<Longrightarrow> thesis"
      and e: "(\<And>rest. al \<Longrightarrow> \<not> sc_accept ais ([bs ! 0, bs ! 1] @ rest)) \<Longrightarrow>
        sc_received_hello al c bs = (c, [SC_handler BSOCKSCLIENT_EVENT_ERROR]) \<Longrightarrow> thesis"
    show thesis
    proof (cases "(bs ! 0 = 5 \<and> bs ! 1 = 0 \<and> sc_find_auth ais 0 \<noteq> None) \<or>
        (bs ! 0 = 5 \<and> bs ! 1 = 2 \<and> (\<exists>ai. sc_find_auth ais 2 = Some ai \<and> cred_ok ai) \<and> al)")
      case True
      then show thesis using n p by auto
    next
      case False
      show thesis
      proof (rule e)
        show "\<not> sc_accept ais ([bs ! 0, bs ! 1] @ rest)" if al for rest
          using False that accept_hello [of ais "bs ! 0" "bs ! 1" rest] by blast
        show "sc_received_hello al c bs = (c, [SC_handler BSOCKSCLIENT_EVENT_ERROR])"
          using False unfolding eq by (auto simp: SOCKS_VERSION_def split: option.splits)
      qed
    qed
  qed
  then show ?thesis
  proof cases
    case none
    then have "sc_received_hello al c bs = auth_finished al c" unfolding eq by (simp add: SOCKS_VERSION_def)
    with ap have "sc_apply (w\<lparr>cl_pending := Idle, cl_rcvd := [bs ! 0, bs ! 1]\<rparr>) (auth_finished al c) = Some w'" by simp
    then show ?thesis
      by (rule auth_finished_good) (use c none sent auth_none [OF none(3)] in \<open>simp_all add: SOCKS_VERSION_def\<close>)
  next
    case pass
    then have "sc_received_hello al c bs = (c\<lparr>sc_buffer := Some (sc_password ai), sc_state := STATE_SENDING_PASSWORD\<rparr>,
        [SC_Send (sc_password ai)])" unfolding eq by (simp add: SOCKS_VERSION_def)
    with ap have "sc_apply (w\<lparr>cl_pending := Idle, cl_rcvd := [bs ! 0, bs ! 1]\<rparr>)
        (c\<lparr>sc_buffer := Some (sc_password ai), sc_state := STATE_SENDING_PASSWORD\<rparr>, [SC_Send (sc_password ai)]) = Some w'" by simp
    then show ?thesis
      by (rule sc_good_send) (use c pass sent in \<open>auto simp: sc_conv_def SOCKS_VERSION_def\<close>)
  next
    case err
    with ap have "sc_apply (w\<lparr>cl_pending := Idle, cl_rcvd := [bs ! 0, bs ! 1]\<rparr>)
        (c, [SC_handler BSOCKSCLIENT_EVENT_ERROR]) = Some w'" by simp
    then show ?thesis by (rule sc_good_error) (use c err in auto)
  qed
qed

lemma reply_header_good:
  assumes ap: "sc_apply (w\<lparr>cl_pending := Idle, cl_rcvd := auth @ [bs ! 0, bs ! 1, bs ! 2, bs ! 3]\<rparr>)
      (sc_received_reply_header c bs) = Some w'"
    and c: "cl_events w = []" "sc_auth_info c = ais" "sc_dest_addr c = d" "sc_buffer c = Some bs" "length bs = 22"
    and auth: "sc_auth ais auth ms" "cl_sent w = ms @ [sc_request d]"
  shows "sc_good al ais d w'"
proof (cases "bs ! 0 = SOCKS_VERSION \<and> bs ! 1 = SOCKS_REP_SUCCEEDED \<and> sc_addr_len (bs ! 3) \<noteq> None")
  case True
  then obtain n where n: "sc_addr_len (bs ! 3) = Some n" "4 + n \<le> length bs" "0 < n"
    using c(5) by (auto simp: sc_addr_len_def split: if_splits)
  let ?c = "c\<lparr>sc_recv_dest := 4, sc_recv_len := 0, sc_recv_total := int n, sc_state := STATE_RECEIVED_REPLY_HEADER\<rparr>"
  have "sc_received_reply_header c bs = (?c, [SC_Recv 4 (int n)])"
    using True n by (auto simp: sc_received_reply_header_def sc_addr_len_def start_receive_def do_receive_def Let_def
        split: if_splits)
  with ap n(3) have w': "w' = w\<lparr>cl_rcvd := auth @ [bs ! 0, bs ! 1, bs ! 2, bs ! 3], cl_sc := ?c,
      cl_pending := Receiving 4 (int n)\<rparr>" by (simp add: sc_apply_def)
  have "sc_receiving w' 4 n []" using n c(4) w' by (simp add: sc_receiving_def)
  moreover have "cl_rcvd w' = auth @ [SOCKS_VERSION, SOCKS_REP_SUCCEEDED, bs ! 2, bs ! 3] @ []" using w' True by simp
  moreover have "sc_state (cl_sc w') = STATE_RECEIVED_REPLY_HEADER" "cl_sent w' = ms @ [sc_request d]"
    "cl_events w' = []" "sc_auth_info (cl_sc w') = ais" "sc_dest_addr (cl_sc w') = d"
    using w' auth(2) c by simp_all
  ultimately have "sc_conv ais d w' \<and> cl_events w' = [] \<and> sc_state (cl_sc w') \<noteq> STATE_UP \<and>
    sc_auth_info (cl_sc w') = ais \<and> sc_dest_addr (cl_sc w') = d"
    using auth(1) n(1) unfolding sc_conv_def by auto
  then show ?thesis by (simp add: sc_good_def sc_inv_def sc_alive_def)
next
  case False
  then have "sc_received_reply_header c bs = (c, [SC_handler BSOCKSCLIENT_EVENT_ERROR])"
    by (auto simp: sc_received_reply_header_def sc_addr_len_def sc_report_error_def)
  with ap have "sc_apply (w\<lparr>cl_pending := Idle, cl_rcvd := auth @ [bs ! 0, bs ! 1, bs ! 2, bs ! 3]\<rparr>)
      (c, [SC_handler BSOCKSCLIENT_EVENT_ERROR]) = Some w'" by simp
  then show ?thesis
  proof (rule sc_good_error)
    show "\<not> sc_accept ais ((auth @ [bs ! 0, bs ! 1, bs ! 2, bs ! 3]) @ rest)" for rest
      using accept_reply [OF auth(1), of "[bs ! 0, bs ! 1, bs ! 2, bs ! 3] @ rest"] False by (auto simp: sc_reply_def)
  qed (use c in auto)
qed

lemma password_good:
  assumes ap: "sc_apply (w\<lparr>cl_pending := Idle, cl_rcvd := [SOCKS_VERSION, 2] @ [bs ! 0, bs ! 1]\<rparr>) (sc_recv_complete al c bs) = Some w'"
    and c: "cl_events w = []" "sc_auth_info c = ais" "sc_dest_addr c = d" "baddr_ok d" "sc_state c = STATE_SENT_PASSWORD"
    and sent: "sc_find_auth ais 2 = Some ai" "cred_ok ai" "cl_sent w = [sc_hello ais, sc_password ai]"
  shows "sc_good al ais d w'"
proof (cases "bs ! 0 = 1 \<and> bs ! 1 = 0")
  case True
  then have "sc_recv_complete al c bs = auth_finished al c" using c(5) by (simp add: sc_recv_complete_def)
  with ap have "sc_apply (w\<lparr>cl_pending := Idle, cl_rcvd := [SOCKS_VERSION, 2, 1, 0]\<rparr>) (auth_finished al c) = Some w'"
    using True by simp
  then show ?thesis by (rule auth_finished_good) (use c sent auth_pass [OF sent(1,2)] in simp_all)
next
  case False
  then have "sc_recv_complete al c bs = (c, [SC_handler BSOCKSCLIENT_EVENT_ERROR])"
    using c(5) by (auto simp: sc_recv_complete_def sc_report_error_def)
  with ap have "sc_apply (w\<lparr>cl_pending := Idle, cl_rcvd := [SOCKS_VERSION, 2] @ [bs ! 0, bs ! 1]\<rparr>)
      (c, [SC_handler BSOCKSCLIENT_EVENT_ERROR]) = Some w'" by simp
  then show ?thesis
  proof (rule sc_good_error)
    show "\<not> sc_accept ais (([SOCKS_VERSION, 2] @ [bs ! 0, bs ! 1]) @ rest)" for rest
      using accept_password [of ais "bs ! 0" "bs ! 1" rest] False by (auto simp: SOCKS_VERSION_def)
  qed (use c in auto)
qed

lemma up_good:
  assumes ap: "sc_apply (w\<lparr>cl_pending := Idle, cl_rcvd := r\<rparr>) (sc_recv_complete al c bs) = Some w'"
    and c: "cl_events w = []" "sc_auth_info c = ais" "sc_dest_addr c = d" "sc_state c = STATE_RECEIVED_REPLY_HEADER"
    and auth: "sc_auth ais auth ms" "cl_sent w = ms @ [sc_request d]" "r = auth @ rep" "sc_reply rep"
  shows "sc_good al ais d w'"
proof -
  have w': "w' = w\<lparr>cl_pending := Idle, cl_rcvd := r, cl_sc := c\<lparr>sc_buffer := None, sc_state := STATE_UP\<rparr>,
      cl_events := [BSOCKSCLIENT_EVENT_UP]\<rparr>"
    using ap c by (simp add: sc_recv_complete_def sc_apply_def)
  show ?thesis using c auth unfolding w' by (auto simp: sc_good_def sc_inv_def sc_alive_def sc_conv_def)
qed

text \<open>A receive that is done: the part is still incomplete, or it is complete and the handler of the state runs.\<close>

lemma sc_feed_split:
  assumes inv: "sc_inv ais d w" "cl_events w = []" and step: "sc_feed al data w = Some w'" and r: "sc_receiving w off tot got"
  obtains (more) "sc_conv ais d w' \<Longrightarrow> sc_good al ais d w'" "sc_receiving w' off tot (got @ data)" "cl_sent w' = cl_sent w"
    "cl_rcvd w' = cl_rcvd w @ data" "sc_state (cl_sc w') = sc_state (cl_sc w)"
    "length (the (sc_buffer (cl_sc w'))) = length (the (sc_buffer (cl_sc w)))"
  | (complete) bs c' where "c' = (cl_sc w)\<lparr>sc_buffer := Some bs, sc_recv_len := int tot\<rparr>" "take tot (drop off bs) = got @ data"
    "length (got @ data) = tot" "length bs = length (the (sc_buffer (cl_sc w)))"
    "sc_apply (w\<lparr>cl_pending := Idle, cl_rcvd := cl_rcvd w @ data\<rparr>) (sc_recv_complete al c' bs) = Some w'"
proof (cases "length got + length data < tot")
  case True
  have s: "sc_alive w" "data \<noteq> []" using step by (auto simp: sc_feed_def split: sc_pending.splits if_splits)
  obtain bs' where w': "sc_receiving w' off tot (got @ data)" "cl_sent w' = cl_sent w" "cl_rcvd w' = cl_rcvd w @ data"
    "cl_events w' = cl_events w" "sc_buffer (cl_sc w') = Some bs'" "length bs' = length (the (sc_buffer (cl_sc w)))"
    "cl_sc w' = (cl_sc w)\<lparr>sc_buffer := Some bs', sc_recv_len := int (length (got @ data))\<rparr>"
    using sc_receiving_more [OF r True s(2,1), of al] step by auto
  have c: "sc_state (cl_sc w') = sc_state (cl_sc w)" "sc_auth_info (cl_sc w') = ais" "sc_dest_addr (cl_sc w') = d"
    using w'(7) inv(1) by (simp_all add: sc_inv_def)
  then have "sc_conv ais d w' \<Longrightarrow> sc_good al ais d w'" using inv w'(4) by (simp add: sc_good_def sc_inv_def sc_alive_def)
  from more [OF this w'(1,2,3) c(1)] w'(5,6) show thesis by simp
next
  case False
  have s: "sc_alive w" "data \<noteq> []" "length got + length data = tot"
    using step r False by (auto simp: sc_feed_def sc_receiving_def split: sc_pending.splits if_splits)
  show thesis
    by (rule sc_receiving_complete [OF r s(3,2,1), of al]) (use step s(3) in \<open>auto intro!: complete\<close>)
qed

lemma sc_feed_hello:
  assumes inv: "sc_inv ais d w" "cl_events w = []" "sc_conv ais d w" and step: "sc_feed al data w = Some w'"
    and ok: "baddr_ok d" "\<forall>ai \<in> set ais. ai_ok ai" and st: "sc_state (cl_sc w) = STATE_SENT_HELLO"
  shows "sc_good al ais d w'"
proof -
  have r: "cl_sent w = [sc_hello ais]" "sc_receiving w 0 2 (cl_rcvd w)" using inv(3) st by (simp_all add: sc_conv_def)
  have c: "sc_auth_info (cl_sc w) = ais" "sc_dest_addr (cl_sc w) = d" using inv(1) by (simp_all add: sc_inv_def)
  show ?thesis using inv(1,2) step r(2)
  proof (cases rule: sc_feed_split)
    case more
    then show ?thesis using st r by (simp add: sc_conv_def)
  next
    case (complete bs c')
    have "cl_rcvd w @ data = [bs ! 0, bs ! 1]" using two_bytes [of bs "cl_rcvd w @ data"] complete(2,3) by simp
    with complete(5) have "sc_apply (w\<lparr>cl_pending := Idle, cl_rcvd := [bs ! 0, bs ! 1]\<rparr>) (sc_received_hello al c' bs) = Some w'"
      using complete(1) st by (simp add: sc_recv_complete_def)
    then show ?thesis by (rule hello_good [OF _ inv(2) _ _ ok r(1)]) (use complete(1) c in simp_all)
  qed
qed

lemma sc_feed_password:
  assumes inv: "sc_inv ais d w" "cl_events w = []" "sc_conv ais d w" and step: "sc_feed al data w = Some w'"
    and ok: "baddr_ok d" and st: "sc_state (cl_sc w) = STATE_SENT_PASSWORD"
  shows "sc_good al ais d w'"
proof -
  obtain ai got where r: "sc_find_auth ais 2 = Some ai" "cred_ok ai" "cl_sent w = [sc_hello ais, sc_password ai]"
    "cl_rcvd w = [SOCKS_VERSION, 2] @ got" "sc_receiving w 0 2 got" using inv(3) st by (auto simp: sc_conv_def)
  have c: "sc_auth_info (cl_sc w) = ais" "sc_dest_addr (cl_sc w) = d" using inv(1) by (simp_all add: sc_inv_def)
  show ?thesis using inv(1,2) step r(5)
  proof (cases rule: sc_feed_split)
    case more
    then show ?thesis using st r by (simp add: sc_conv_def)
  next
    case (complete bs c')
    have "got @ data = [bs ! 0, bs ! 1]" using two_bytes [of bs "got @ data"] complete(2,3) by simp
    with complete(5) r(4) have "sc_apply (w\<lparr>cl_pending := Idle, cl_rcvd := [SOCKS_VERSION, 2] @ [bs ! 0, bs ! 1]\<rparr>)
        (sc_recv_complete al c' bs) = Some w'" by simp
    then show ?thesis by (rule password_good [OF _ inv(2) _ _ ok _ r(1,2,3)]) (use complete(1) c st in simp_all)
  qed
qed

lemma sc_feed_request:
  assumes inv: "sc_inv ais d w" "cl_events w = []" "sc_conv ais d w" and step: "sc_feed al data w = Some w'"
    and st: "sc_state (cl_sc w) = STATE_SENT_REQUEST"
  shows "sc_good al ais d w'"
proof -
  obtain auth ms got bs0 where r: "sc_auth ais auth ms" "cl_sent w = ms @ [sc_request d]"
    "cl_rcvd w = auth @ got" "sc_receiving w 0 4 got" "sc_buffer (cl_sc w) = Some bs0" "length bs0 = 22"
    using inv(3) st by (auto simp: sc_conv_def)
  have c: "sc_auth_info (cl_sc w) = ais" "sc_dest_addr (cl_sc w) = d" using inv(1) by (simp_all add: sc_inv_def)
  show ?thesis using inv(1,2) step r(4)
  proof (cases rule: sc_feed_split)
    case more
    obtain bs1 where "sc_buffer (cl_sc w') = Some bs1" using more(2) by (auto simp: sc_receiving_def)
    then show ?thesis using more st r by (auto simp: sc_conv_def)
  next
    case (complete bs c')
    have "got @ data = [bs ! 0, bs ! 1, bs ! 2, bs ! 3]" using four_bytes [of bs "got @ data"] complete(2,3) by simp
    with complete(5) r(3) have "sc_apply (w\<lparr>cl_pending := Idle, cl_rcvd := auth @ [bs ! 0, bs ! 1, bs ! 2, bs ! 3]\<rparr>)
        (sc_received_reply_header c' bs) = Some w'" using complete(1) st by (simp add: sc_recv_complete_def)
    then show ?thesis by (rule reply_header_good [OF _ inv(2) _ _ _ _ r(1,2)]) (use complete(1,4) c r in simp_all)
  qed
qed

lemma sc_feed_reply:
  assumes inv: "sc_inv ais d w" "cl_events w = []" "sc_conv ais d w" and step: "sc_feed al data w = Some w'"
    and st: "sc_state (cl_sc w) = STATE_RECEIVED_REPLY_HEADER"
  shows "sc_good al ais d w'"
proof -
  obtain auth ms x atyp got tot where r: "sc_auth ais auth ms" "cl_sent w = ms @ [sc_request d]"
    "cl_rcvd w = auth @ [SOCKS_VERSION, SOCKS_REP_SUCCEEDED, x, atyp] @ got" "sc_addr_len atyp = Some tot"
    "sc_receiving w 4 tot got" using inv(3) st by (auto simp: sc_conv_def)
  have c: "sc_auth_info (cl_sc w) = ais" "sc_dest_addr (cl_sc w) = d" using inv(1) by (simp_all add: sc_inv_def)
  show ?thesis using inv(1,2) step r(5)
  proof (cases rule: sc_feed_split)
    case more
    then have "cl_rcvd w' = auth @ [SOCKS_VERSION, SOCKS_REP_SUCCEEDED, x, atyp] @ (got @ data)" using r(3) by simp
    then have "sc_conv ais d w'" using more(2,3,5) st r(1,2,4) unfolding sc_conv_def by auto
    then show ?thesis by (rule more(1))
  next
    case (complete bs c')
    have "sc_reply ([SOCKS_VERSION, SOCKS_REP_SUCCEEDED, x, atyp] @ got @ data)"
      unfolding sc_reply_def using r(4) complete(3) by auto
    with up_good [OF complete(5) inv(2) _ _ _ r(1,2)] show ?thesis using r(3) complete(1) c st by simp
  qed
qed

lemma sc_feed_good:
  assumes inv: "sc_inv ais d w" and step: "sc_feed al data w = Some w'"
    and ok: "baddr_ok d" "\<forall>ai \<in> set ais. ai_ok ai"
  shows "sc_good al ais d w'"
proof -
  obtain o' n where s: "sc_alive w" "cl_pending w = Receiving o' n"
    using step by (auto simp: sc_feed_def split: sc_pending.splits if_splits)
  have ev: "cl_events w = []" and conv: "sc_conv ais d w"
    using inv s by (auto simp: sc_inv_def sc_alive_def sc_conv_def)
  show ?thesis
    using conv s(2) sc_feed_hello [OF inv ev conv step ok] sc_feed_password [OF inv ev conv step ok(1)]
      sc_feed_request [OF inv ev conv step] sc_feed_reply [OF inv ev conv step]
    by (cases "sc_state (cl_sc w)") (auto simp: sc_conv_def)
qed

lemma sc_broken_inv:
  assumes "sc_inv ais d w" "sc_broken rc w = Some w'"
  shows "sc_inv ais d w'"
  using assms by (auto simp: sc_broken_def sc_connection_handler_def sc_report_error_def sc_apply_def sc_inv_def sc_alive_def
      split: if_splits)

lemma sc_reach_inv:
  assumes "sc_reach (sc_init ais d) w" "baddr_ok d" "\<forall>ai \<in> set ais. ai_ok ai"
  shows "sc_inv ais d w"
  using assms(1)
proof induction
  case (sc_rcv w al data w')
  then show ?case using sc_feed_good [of ais d w al data w'] assms(2,3) by (simp add: sc_good_def)
qed (auto intro: sc_init_inv sc_connected_inv sc_sent_done_inv sc_broken_inv)

section \<open>Progress\<close>

text \<open>The runs in which memory does not run out and the connection does not fail, with the number of their steps.\<close>

inductive sc_run :: "sc_world \<Rightarrow> nat \<Rightarrow> sc_world \<Rightarrow> bool" for w0 where
  run_start: "sc_run w0 0 w0"
| run_con: "sc_run w0 n w \<Longrightarrow> sc_connected True True w = Some w' \<Longrightarrow> sc_run w0 (Suc n) w'"
| run_snt: "sc_run w0 n w \<Longrightarrow> sc_sent_done True w = Some w' \<Longrightarrow> sc_run w0 (Suc n) w'"
| run_rcv: "sc_run w0 n w \<Longrightarrow> sc_feed True data w = Some w' \<Longrightarrow> sc_run w0 (Suc n) w'"

fun sc_phase :: "sc_state \<Rightarrow> nat" where
  "sc_phase STATE_CONNECTING = 0"
| "sc_phase STATE_SENDING_HELLO = 1"
| "sc_phase STATE_SENT_HELLO = 2"
| "sc_phase STATE_SENDING_PASSWORD = 2"
| "sc_phase STATE_SENT_PASSWORD = 3"
| "sc_phase STATE_SENDING_REQUEST = 3"
| "sc_phase STATE_SENT_REQUEST = 4"
| "sc_phase STATE_RECEIVED_REPLY_HEADER = 4"
| "sc_phase STATE_UP = 4"

lemma sc_run_reach: "sc_run w0 n w \<Longrightarrow> sc_reach w0 w"
  by (induction rule: sc_run.induct) (auto intro: sc_reach.intros)

lemma sc_issues_sc: "sc_issues cs w = Some w' \<Longrightarrow> cl_sc w' = cl_sc w \<and> cl_rcvd w' = cl_rcvd w"
proof (induction cs arbitrary: w)
  case (Cons c cs)
  then obtain w1 where w1: "sc_issue c w = Some w1" "sc_issues cs w1 = Some w'" by (auto split: option.splits)
  then have "cl_sc w1 = cl_sc w \<and> cl_rcvd w1 = cl_rcvd w" by (cases c) (auto split: if_splits)
  with Cons.IH [OF w1(2)] show ?case by simp
qed simp

lemma sc_apply_sc: "sc_apply w r = Some w' \<Longrightarrow> cl_sc w' = fst r \<and> cl_rcvd w' = cl_rcvd w"
  unfolding sc_apply_def by (drule sc_issues_sc) simp

lemma reserve_state: "reserve_buffer al c sz = Some c' \<Longrightarrow> sc_state c' = sc_state c \<and> sc_dest_addr c' = sc_dest_addr c"
  by (auto simp: reserve_buffer_def split: if_splits)

text \<open>Every call of a handler finds the control connection free.\<close>

lemma auth_finished_total:
  "cl_pending w = Idle \<Longrightarrow> sc_apply w (auth_finished al c) \<noteq> None"
  by (auto simp: auth_finished_def Let_def sc_apply_def sc_report_error_def split: option.splits BAddr.splits)

lemma hello_total:
  "cl_pending w = Idle \<Longrightarrow> sc_apply w (sc_received_hello al c bs) \<noteq> None"
  using auth_finished_total [of w al c]
  by (auto simp: sc_received_hello_def Let_def sc_apply_def sc_report_error_def split: option.splits)

lemma reply_header_total:
  "cl_pending w = Idle \<Longrightarrow> sc_apply w (sc_received_reply_header c bs) \<noteq> None"
  by (auto simp: sc_received_reply_header_def start_receive_def do_receive_def Let_def sc_apply_def sc_report_error_def)

lemma sc_recv_complete_total:
  assumes "cl_pending w = Idle"
  shows "sc_apply w (sc_recv_complete al c bs) \<noteq> None"
  using hello_total [OF assms, of al c bs] auth_finished_total [OF assms, of al c] reply_header_total [OF assms, of c bs]
  by (cases "sc_state c") (auto simp: sc_recv_complete_def sc_report_error_def sc_apply_def)

lemma sc_feed_total:
  assumes r: "sc_receiving w off tot got" and n: "length got + length data \<le> tot" "data \<noteq> []" and al: "sc_alive w"
  shows "sc_feed a data w \<noteq> None"
proof (cases "length got + length data < tot")
  case True
  then show ?thesis using sc_receiving_more [OF r True n(2) al, of a] by auto
next
  case False
  then have n': "length got + length data = tot" using n by simp
  show ?thesis
  proof (rule sc_receiving_complete [OF r n' n(2) al, of a])
    fix bs bs' c' assume "sc_feed a data w = sc_apply (w\<lparr>cl_pending := Idle, cl_rcvd := cl_rcvd w @ data\<rparr>) (sc_recv_complete a c' bs')"
    then show ?thesis using sc_recv_complete_total [of "w\<lparr>cl_pending := Idle, cl_rcvd := cl_rcvd w @ data\<rparr>" a c' bs'] by simp
  qed
qed

lemma auth_finished_phase: "sc_phase (sc_state c) \<le> 3 \<Longrightarrow> sc_phase (sc_state c) \<le> sc_phase (sc_state (fst (auth_finished al c)))"
  by (auto simp: auth_finished_def Let_def sc_report_error_def dest: reserve_state split: option.splits BAddr.splits)

lemma hello_phase:
  "sc_phase (sc_state c) \<le> 2 \<Longrightarrow> sc_phase (sc_state c) \<le> sc_phase (sc_state (fst (sc_received_hello al c bs)))"
  using auth_finished_phase [of c al]
  by (auto simp: sc_received_hello_def Let_def sc_report_error_def dest: reserve_state split: option.splits)

lemma reply_header_phase:
  "sc_phase (sc_state c) \<le> 4 \<Longrightarrow> sc_phase (sc_state c) \<le> sc_phase (sc_state (fst (sc_received_reply_header c bs)))"
  by (auto simp: sc_received_reply_header_def start_receive_def Let_def sc_report_error_def)

lemma recv_complete_phase: "sc_phase (sc_state c) \<le> sc_phase (sc_state (fst (sc_recv_complete al c bs)))"
  using hello_phase [of c al bs] auth_finished_phase [of c al] reply_header_phase [of c bs]
  by (cases "sc_state c") (simp_all add: sc_recv_complete_def sc_report_error_def)

lemma feed_phase:
  assumes "sc_feed al data w = Some w'"
  shows "sc_phase (sc_state (cl_sc w)) \<le> sc_phase (sc_state (cl_sc w'))" "cl_rcvd w' = cl_rcvd w @ data" "data \<noteq> []"
proof -
  have a: "sc_apply (w\<lparr>cl_pending := Idle, cl_rcvd := cl_rcvd w @ data\<rparr>) (sc_recv_handler_done al (cl_sc w) data) = Some w'"
    "data \<noteq> []" using assms by (auto simp: sc_feed_def split: sc_pending.splits if_splits)
  show "cl_rcvd w' = cl_rcvd w @ data" "data \<noteq> []" using sc_apply_sc [OF a(1)] a(2) by simp_all
  have "sc_phase (sc_state (cl_sc w)) \<le> sc_phase (sc_state (fst (sc_recv_handler_done al (cl_sc w) data)))"
    unfolding sc_recv_handler_done_def Let_def by (auto intro: order_trans [OF _ recv_complete_phase])
  then show "sc_phase (sc_state (cl_sc w)) \<le> sc_phase (sc_state (cl_sc w'))" using sc_apply_sc [OF a(1)] by simp
qed

lemma sent_phase:
  assumes inv: "sc_inv ais d w" and step: "sc_sent_done True w = Some w'"
  shows "sc_phase (sc_state (cl_sc w')) = Suc (sc_phase (sc_state (cl_sc w)))" "cl_rcvd w' = cl_rcvd w"
proof -
  let ?c = "cl_sc w"
  have s: "sc_alive w" "cl_pending w = Sending"
    and ap: "sc_apply (w\<lparr>cl_pending := Idle\<rparr>) (sc_send_handler_done True ?c) = Some w'"
    using step by (auto simp: sc_sent_done_def split: if_splits)
  have conv: "sc_conv ais d w" using inv s(1) by (auto simp: sc_inv_def sc_alive_def)
  have c: "cl_sc w' = fst (sc_send_handler_done True ?c)" and r: "cl_rcvd w' = cl_rcvd w" using sc_apply_sc [OF ap] by simp_all
  have "sc_state ?c = STATE_SENDING_HELLO \<or> sc_state ?c = STATE_SENDING_PASSWORD \<or> sc_state ?c = STATE_SENDING_REQUEST"
    using conv s(2) by (cases "sc_state ?c") (auto simp: sc_conv_def sc_receiving_def)
  then show "sc_phase (sc_state (cl_sc w')) = Suc (sc_phase (sc_state ?c))" unfolding c
    by (auto simp: sc_send_handler_done_def reserve_ok [OF size_consts(1)] reserve_ok [OF size_consts(4)] start_receive_def Let_def)
  show "cl_rcvd w' = cl_rcvd w" by (rule r)
qed

lemma connected_ok:
  assumes inv: "sc_inv ais d w" and s: "sc_alive w" "sc_state (cl_sc w) = STATE_CONNECTING"
    and ais: "0 < length ais" "length ais \<le> 255"
  obtains w' where "sc_connected True True w = Some w'" "cl_rcvd w' = cl_rcvd w" "cl_events w' = []"
    "sc_phase (sc_state (cl_sc w')) = 1"
proof -
  have ev: "cl_events w = []" "cl_pending w = Idle" "sc_auth_info (cl_sc w) = ais"
    using inv s by (auto simp: sc_inv_def sc_alive_def sc_conv_def)
  have "\<exists>w'. sc_connected True True w = Some w' \<and> cl_rcvd w' = cl_rcvd w \<and> cl_events w' = [] \<and>
      sc_phase (sc_state (cl_sc w')) = 1"
    using s ev ais
    by (simp add: sc_connected_def sc_connector_handler_def reserve_ok [OF size_hello [OF ais(2)]] Let_def sc_apply_def)
  then show thesis using that by blast
qed

lemma sc_run_inv:
  assumes "sc_run (sc_init ais d) n w" "baddr_ok d" "\<forall>ai \<in> set ais. ai_ok ai" "0 < length ais" "length ais \<le> 255"
    "sc_accept ais (cl_rcvd w @ rest)"
  shows "sc_alive w \<and> n \<le> sc_phase (sc_state (cl_sc w)) + length (cl_rcvd w)"
  using assms(1,6)
proof (induction arbitrary: rest)
  case run_start
  then show ?case by (simp add: sc_alive_def sc_init_def)
next
  case (run_con n w w')
  have inv: "sc_inv ais d w" using sc_reach_inv [OF sc_run_reach [OF run_con.hyps(1)] assms(2,3)] .
  have s: "sc_alive w" "sc_state (cl_sc w) = STATE_CONNECTING"
    using run_con.hyps(2) by (auto simp: sc_connected_def split: if_splits)
  obtain w1 where w1: "sc_connected True True w = Some w1" "cl_rcvd w1 = cl_rcvd w" "cl_events w1 = []"
    "sc_phase (sc_state (cl_sc w1)) = 1" by (rule connected_ok [OF inv s assms(4,5)])
  have "w1 = w'" using w1(1) run_con.hyps(2) by simp
  with w1 have w': "cl_rcvd w' = cl_rcvd w" "cl_events w' = []" "sc_phase (sc_state (cl_sc w')) = 1" by simp_all
  have "n \<le> length (cl_rcvd w)" using run_con.IH [of rest] run_con.prems w'(1) s(2) by simp
  then show ?case using w' by (simp add: sc_alive_def)
next
  case (run_snt n w w')
  have inv: "sc_inv ais d w" using sc_reach_inv [OF sc_run_reach [OF run_snt.hyps(1)] assms(2,3)] .
  have "cl_events w' = cl_events w" using sc_sent_done_inv(2) [OF inv run_snt.hyps(2)] by simp
  then show ?case using sent_phase [OF inv run_snt.hyps(2)] run_snt.IH [of rest] run_snt.prems by (simp add: sc_alive_def)
next
  case (run_rcv n w data w')
  have inv: "sc_inv ais d w" using sc_reach_inv [OF sc_run_reach [OF run_rcv.hyps(1)] assms(2,3)] .
  note f = feed_phase [OF run_rcv.hyps(2)]
  have "sc_accept ais (cl_rcvd w @ data @ rest)" using run_rcv.prems f(2) by simp
  then have "n \<le> sc_phase (sc_state (cl_sc w)) + length (cl_rcvd w)" using run_rcv.IH [of "data @ rest"] by simp
  moreover have "0 < length data" using f(3) by simp
  moreover have "length (cl_rcvd w') = length (cl_rcvd w) + length data" using f(2) by simp
  ultimately have "Suc n \<le> sc_phase (sc_state (cl_sc w')) + length (cl_rcvd w')" using f(1) by linarith
  moreover have "sc_alive w'" using sc_feed_good [OF inv run_rcv.hyps(2) assms(2,3)] run_rcv.prems by (auto simp: sc_good_def)
  ultimately show ?case by simp
qed

lemma sc_phase_le: "sc_phase s \<le> 4" by (cases s) simp_all

lemma reply_prefix_free: "sc_reply a \<Longrightarrow> sc_reply (a @ b) \<Longrightarrow> b = []"
  by (auto simp: sc_reply_def)

lemma reply_length: "sc_reply a \<Longrightarrow> 4 < length a"
  by (auto simp: sc_reply_def sc_addr_len_def split: if_splits)

lemma accept_length: "sc_accept ais rs \<Longrightarrow> 6 < length rs \<and> (rs ! 1 = 2 \<longrightarrow> 8 < length rs)"
  by (auto simp: sc_accept_def elim!: sc_auth_cases dest!: reply_length)

text \<open>While the conversation is not finished the client waits for something that can happen.\<close>

definition sc_can_step :: "sc_world \<Rightarrow> byte list \<Rightarrow> bool" where
  "sc_can_step w rest \<longleftrightarrow> sc_connected True True w \<noteq> None \<or> sc_sent_done True w \<noteq> None \<or>
     rest \<noteq> [] \<and> (\<exists>k>0. \<forall>data. data \<noteq> [] \<and> length data \<le> k \<longrightarrow> sc_feed True data w \<noteq> None)"

lemma receiving_can_step:
  assumes "sc_receiving w off tot got" "sc_alive w" "rest \<noteq> []"
  shows "sc_can_step w rest"
proof -
  have "0 < tot - length got" using assms(1) by (auto simp: sc_receiving_def)
  then show ?thesis using sc_feed_total [OF assms(1) _ _ assms(2), of _ True] assms(3)
    unfolding sc_can_step_def by (metis add_le_cancel_left le_add_diff_inverse less_imp_le_nat zero_less_diff)
qed

lemma sending_can_step:
  assumes inv: "sc_inv ais d w" "sc_alive w" and p: "cl_pending w = Sending"
  shows "sc_can_step w rest"
proof -
  have conv: "sc_conv ais d w" using inv by (auto simp: sc_inv_def sc_alive_def)
  have "sc_state (cl_sc w) = STATE_SENDING_HELLO \<or> sc_state (cl_sc w) = STATE_SENDING_PASSWORD \<or>
      sc_state (cl_sc w) = STATE_SENDING_REQUEST"
    using conv p by (cases "sc_state (cl_sc w)") (auto simp: sc_conv_def sc_receiving_def)
  moreover have "uint (bs_value (bsize_fromsize 2 :: u64 bsize_t)) = 2" by (simp add: bsize_fromsize_def)
  ultimately have "sc_sent_done True w \<noteq> None" using inv(2) p
    by (auto simp: sc_sent_done_def sc_send_handler_done_def reserve_ok [OF size_consts(1)] reserve_ok [OF size_consts(4)]
        start_receive_def do_receive_def Let_def sc_apply_def)
  then show ?thesis by (simp add: sc_can_step_def)
qed

lemma sc_progress:
  assumes inv: "sc_inv ais d w" "sc_alive w" and ais: "0 < length ais" "length ais \<le> 255"
    and acc: "sc_accept ais (cl_rcvd w @ rest)"
  shows "cl_events w = [BSOCKSCLIENT_EVENT_UP] \<and> rest = [] \<or> sc_can_step w rest"
proof -
  have conv: "sc_conv ais d w" using inv by (auto simp: sc_inv_def sc_alive_def)
  note al = inv(2) and rs = receiving_can_step [OF _ inv(2)]
  show ?thesis
  proof (cases "sc_state (cl_sc w)")
    case STATE_CONNECTING
    show ?thesis by (rule connected_ok [OF inv STATE_CONNECTING ais]) (simp add: sc_can_step_def)
  next
    case STATE_SENT_HELLO
    then have "sc_receiving w 0 2 (cl_rcvd w)" "length (cl_rcvd w) < 2" using conv by (auto simp: sc_conv_def sc_receiving_def)
    then have "rest \<noteq> []" using accept_length [OF acc] by (auto simp del: length_greater_0_conv)
    then show ?thesis using rs \<open>sc_receiving w 0 2 (cl_rcvd w)\<close> by blast
  next
    case STATE_SENT_PASSWORD
    then obtain got where r: "cl_rcvd w = [SOCKS_VERSION, 2] @ got" "sc_receiving w 0 2 got" "length got < 2"
      using conv by (auto simp: sc_conv_def sc_receiving_def)
    then have "rest \<noteq> []" using accept_length [OF acc] by auto
    then show ?thesis using rs r(2) by blast
  next
    case STATE_SENT_REQUEST
    then obtain auth ms got where r: "sc_auth ais auth ms" "cl_rcvd w = auth @ got" "sc_receiving w 0 4 got" "length got < 4"
      using conv by (auto simp: sc_conv_def sc_receiving_def)
    have "sc_reply (got @ rest)" using accept_reply [OF r(1), of "got @ rest"] acc r(2) by simp
    then have "rest \<noteq> []" using reply_length [of "got @ rest"] r(4) by auto
    then show ?thesis using rs r(3) by blast
  next
    case STATE_RECEIVED_REPLY_HEADER
    then obtain auth ms x atyp got tot where r: "sc_auth ais auth ms" "sc_addr_len atyp = Some tot"
      "cl_rcvd w = auth @ [SOCKS_VERSION, SOCKS_REP_SUCCEEDED, x, atyp] @ got" "sc_receiving w 4 tot got" "length got < tot"
      using conv by (auto simp: sc_conv_def sc_receiving_def)
    have "sc_reply ([SOCKS_VERSION, SOCKS_REP_SUCCEEDED, x, atyp] @ got @ rest)"
      using accept_reply [OF r(1), of "[SOCKS_VERSION, SOCKS_REP_SUCCEEDED, x, atyp] @ got @ rest"] acc r(3) by simp
    then have "rest \<noteq> []" using r(2,5) by (auto simp: sc_reply_def)
    then show ?thesis using rs r(4) by blast
  next
    case STATE_UP
    then obtain auth ms rep where r: "sc_auth ais auth ms" "cl_rcvd w = auth @ rep" "sc_reply rep" "cl_events w = [BSOCKSCLIENT_EVENT_UP]"
      using conv inv by (auto simp: sc_conv_def sc_inv_def sc_alive_def)
    then show ?thesis using accept_reply [OF r(1), of "rep @ rest"] reply_prefix_free [OF r(3), of rest] acc by simp
  qed (use conv sending_can_step [OF inv] in \<open>auto simp: sc_conv_def\<close>)
qed

section \<open>Correctness of the client\<close>

text \<open>Claim C3. \<^verbatim>\<open>BSocksClient.c\<close>: the user is told that the client is up at most once, and only when the
  conversation was a complete and successful SOCKS5 negotiation: the client sent exactly its hello, its
  credentials if and only if the server chose that method, and the CONNECT request for the destination; and it
  consumed exactly the bytes of the method choice, the authentication status and the reply, however they were
  cut into receives, so the first byte of the user's data is not lost. An error is reported at most once and is
  final.\<close>

theorem BSocksClient_up_means_negotiated:
  assumes "sc_reach (sc_init ais d) w" "baddr_ok d" "\<forall>ai \<in> set ais. ai_ok ai"
  shows "cl_events w \<in> {[], [BSOCKSCLIENT_EVENT_ERROR], [BSOCKSCLIENT_EVENT_UP], [BSOCKSCLIENT_EVENT_UP, BSOCKSCLIENT_EVENT_ERROR],
      [BSOCKSCLIENT_EVENT_UP, BSOCKSCLIENT_EVENT_ERROR_CLOSED]} \<and>
    (cl_events w = [BSOCKSCLIENT_EVENT_UP] \<longleftrightarrow> sc_alive w \<and> sc_state (cl_sc w) = STATE_UP) \<and>
    (cl_events w = [BSOCKSCLIENT_EVENT_UP] \<longrightarrow> (\<exists>auth ms rep. sc_auth ais auth ms \<and> sc_reply rep \<and>
      cl_sent w = ms @ [sc_request d] \<and> cl_rcvd w = auth @ rep \<and> cl_pending w = Idle))"
proof (intro conjI)
  have inv: "sc_inv ais d w" by (rule sc_reach_inv [OF assms])
  show "cl_events w \<in> {[], [BSOCKSCLIENT_EVENT_ERROR], [BSOCKSCLIENT_EVENT_UP], [BSOCKSCLIENT_EVENT_UP, BSOCKSCLIENT_EVENT_ERROR],
      [BSOCKSCLIENT_EVENT_UP, BSOCKSCLIENT_EVENT_ERROR_CLOSED]}"
    using inv by (auto simp: sc_inv_def split: list.splits sc_event.splits)
  show "cl_events w = [BSOCKSCLIENT_EVENT_UP] \<longleftrightarrow> sc_alive w \<and> sc_state (cl_sc w) = STATE_UP"
    using inv by (auto simp: sc_inv_def sc_alive_def)
  show "cl_events w = [BSOCKSCLIENT_EVENT_UP] \<longrightarrow> (\<exists>auth ms rep. sc_auth ais auth ms \<and> sc_reply rep \<and>
      cl_sent w = ms @ [sc_request d] \<and> cl_rcvd w = auth @ rep \<and> cl_pending w = Idle)"
  proof
    assume "cl_events w = [BSOCKSCLIENT_EVENT_UP]"
    then have "sc_conv ais d w" "sc_state (cl_sc w) = STATE_UP" using inv by (simp_all add: sc_inv_def)
    then show "\<exists>auth ms rep. sc_auth ais auth ms \<and> sc_reply rep \<and>
      cl_sent w = ms @ [sc_request d] \<and> cl_rcvd w = auth @ rep \<and> cl_pending w = Idle" unfolding sc_conv_def by auto
  qed
qed

text \<open>Claim C4. \<^verbatim>\<open>BSocksClient.c\<close>: when memory does not run out and the connection holds, a server that
  answers with an acceptable byte stream brings the client up: as long as what was received is a prefix of such
  a stream no error is reported, the client is up or some step is possible (the connector, the send or a
  receive of any size up to some positive bound), a run has at most four steps more than bytes, and when the
  client is up nothing of the stream is left.\<close>

theorem BSocksClient_accepts_good_server:
  assumes "sc_run (sc_init ais d) n w" "baddr_ok d" "\<forall>ai \<in> set ais. ai_ok ai" "0 < length ais" "length ais \<le> 255"
    "sc_accept ais (cl_rcvd w @ rest)"
  shows "sc_alive w \<and> (cl_events w = [BSOCKSCLIENT_EVENT_UP] \<and> rest = [] \<or> sc_can_step w rest) \<and> n \<le> 4 + length (cl_rcvd w)"
proof (intro conjI)
  have r: "sc_alive w" "n \<le> sc_phase (sc_state (cl_sc w)) + length (cl_rcvd w)" using sc_run_inv [OF assms] by simp_all
  show "sc_alive w" "n \<le> 4 + length (cl_rcvd w)" using r sc_phase_le [of "sc_state (cl_sc w)"] by simp_all
  show "cl_events w = [BSOCKSCLIENT_EVENT_UP] \<and> rest = [] \<or> sc_can_step w rest"
    by (rule sc_progress [OF sc_reach_inv [OF sc_run_reach [OF assms(1)] assms(2,3)] r(1) assms(4,5,6)])
qed

text \<open>A conversation with a server that wants no authentication; its answers arrive in four pieces.\<close>

definition sc_demo_auth :: "BSocksClient_auth_info list" where "sc_demo_auth = [BSocksClient_auth_none]"
definition sc_demo_dest :: BAddr where "sc_demo_dest = BADDR_TYPE_IPV4 [10, 0, 0, 1] [0, 80]"
definition sc_demo :: "sc_state \<Rightarrow> byte list option \<Rightarrow> int \<Rightarrow> int \<Rightarrow> int \<Rightarrow> sc_pending \<Rightarrow> byte list list \<Rightarrow> byte list \<Rightarrow>
    sc_event list \<Rightarrow> sc_world" where
  "sc_demo st b dest n tot p snt rcv ev = \<lparr>cl_sc = \<lparr>sc_auth_info = sc_demo_auth, sc_dest_addr = sc_demo_dest, sc_state = st,
     sc_buffer = b, sc_recv_dest = dest, sc_recv_len = n, sc_recv_total = tot\<rparr>,
     cl_pending = p, cl_sent = snt, cl_rcvd = rcv, cl_events = ev\<rparr>"

definition sc_demo_up :: sc_world where
  "sc_demo_up = sc_demo STATE_UP None 4 6 6 Idle [[5, 1, 0], [5, 1, 0, 1, 10, 0, 0, 1, 0, 80]]
     [5, 0, 5, 0, 0, 1, 10, 0, 0, 2, 4, 56] [BSOCKSCLIENT_EVENT_UP]"

lemmas sc_demo_eval = sc_demo_def sc_alive_def sc_apply_def sc_report_error_def brealloc_def buf_write_def
  do_receive_def start_receive_def Let_def reserve_ok [OF size_consts(1)] reserve_ok [OF size_consts(2)]
  reserve_ok [OF size_consts(4)] bsize_absD(2) [OF size_consts(2)] sc_demo_auth_def sc_demo_dest_def
  BSocksClient_auth_none_def socks_consts sc_sent_done_def sc_send_handler_done_def sc_feed_def sc_recv_handler_done_def
  sc_recv_complete_def sc_received_hello_def sc_received_reply_header_def auth_finished_def

lemma uint_size2: "uint (bs_value (bsize_fromsize 2 :: u64 bsize_t)) = 2" by (simp add: bsize_fromsize_def)

lemma sc_demo_connect: "sc_connected True True (sc_init sc_demo_auth sc_demo_dest) =
    Some (sc_demo STATE_SENDING_HELLO (Some [5, 1, 0]) 0 0 0 Sending [[5, 1, 0]] [] [])"
  using bsize_absD(2) [OF size_hello [of 1]]
  by (simp add: sc_connected_def sc_connector_handler_def sc_init_def BSocksClient_Init_def sc_demo_eval
      reserve_ok [OF size_hello [of 1, simplified]] eval_nat_numeral)

lemma sc_demo_steps:
  "sc_sent_done True (sc_demo STATE_SENDING_HELLO (Some [5, 1, 0]) 0 0 0 Sending [[5, 1, 0]] [] []) =
    Some (sc_demo STATE_SENT_HELLO (Some [5, 1]) 0 0 2 (Receiving 0 2) [[5, 1, 0]] [] [])"
  "sc_feed True [5] (sc_demo STATE_SENT_HELLO (Some [5, 1]) 0 0 2 (Receiving 0 2) [[5, 1, 0]] [] []) =
    Some (sc_demo STATE_SENT_HELLO (Some [5, 1]) 0 1 2 (Receiving 1 1) [[5, 1, 0]] [5] [])"
  "sc_feed True [0] (sc_demo STATE_SENT_HELLO (Some [5, 1]) 0 1 2 (Receiving 1 1) [[5, 1, 0]] [5] []) =
    Some (sc_demo STATE_SENDING_REQUEST (Some [5, 1, 0, 1, 10, 0, 0, 1, 0, 80]) 0 2 2 Sending
      [[5, 1, 0], [5, 1, 0, 1, 10, 0, 0, 1, 0, 80]] [5, 0] [])"
  "sc_sent_done True (sc_demo STATE_SENDING_REQUEST (Some [5, 1, 0, 1, 10, 0, 0, 1, 0, 80]) 0 2 2 Sending
      [[5, 1, 0], [5, 1, 0, 1, 10, 0, 0, 1, 0, 80]] [5, 0] []) =
    Some (sc_demo STATE_SENT_REQUEST (Some ([5, 1, 0, 1, 10, 0, 0, 1, 0, 80] @ replicate 12 0)) 0 0 4 (Receiving 0 4)
      [[5, 1, 0], [5, 1, 0, 1, 10, 0, 0, 1, 0, 80]] [5, 0] [])"
  "sc_feed True [5, 0, 0, 1] (sc_demo STATE_SENT_REQUEST (Some ([5, 1, 0, 1, 10, 0, 0, 1, 0, 80] @ replicate 12 0)) 0 0 4
      (Receiving 0 4) [[5, 1, 0], [5, 1, 0, 1, 10, 0, 0, 1, 0, 80]] [5, 0] []) =
    Some (sc_demo STATE_RECEIVED_REPLY_HEADER (Some ([5, 0, 0, 1, 10, 0, 0, 1, 0, 80] @ replicate 12 0)) 4 0 6 (Receiving 4 6)
      [[5, 1, 0], [5, 1, 0, 1, 10, 0, 0, 1, 0, 80]] [5, 0, 5, 0, 0, 1] [])"
  "sc_feed True [10, 0, 0, 2, 4, 56] (sc_demo STATE_RECEIVED_REPLY_HEADER (Some ([5, 0, 0, 1, 10, 0, 0, 1, 0, 80] @ replicate 12 0))
      4 0 6 (Receiving 4 6) [[5, 1, 0], [5, 1, 0, 1, 10, 0, 0, 1, 0, 80]] [5, 0, 5, 0, 0, 1] []) = Some sc_demo_up"
  by (simp_all add: sc_demo_eval uint_size2 sc_demo_up_def eval_nat_numeral)

lemma sc_demo_run: "sc_run (sc_init sc_demo_auth sc_demo_dest) 7 sc_demo_up"
proof -
  have "sc_run (sc_init sc_demo_auth sc_demo_dest) (Suc (Suc (Suc (Suc (Suc (Suc (Suc 0))))))) sc_demo_up"
    by (rule sc_run.intros sc_demo_connect sc_demo_steps)+
  then show ?thesis by (simp add: eval_nat_numeral)
qed

lemma sc_demo_ok: "baddr_ok sc_demo_dest" "\<forall>ai \<in> set sc_demo_auth. ai_ok ai" "0 < length sc_demo_auth" "length sc_demo_auth \<le> 255"
  by (simp_all add: sc_demo_dest_def sc_demo_auth_def baddr_ok_def baddr_sized_def ai_ok_def BSocksClient_auth_none_def)

theorem BSocksClient_up_means_negotiated_witness:
  "sc_alive sc_demo_up \<and> sc_state (cl_sc sc_demo_up) = STATE_UP \<and>
   (\<exists>auth ms rep. sc_auth sc_demo_auth auth ms \<and> sc_reply rep \<and> cl_sent sc_demo_up = ms @ [sc_request sc_demo_dest] \<and>
      cl_rcvd sc_demo_up = auth @ rep \<and> cl_pending sc_demo_up = Idle)"
  using BSocksClient_up_means_negotiated [OF sc_run_reach [OF sc_demo_run] sc_demo_ok(1,2)]
  by (simp add: sc_demo_up_def sc_demo_def)

theorem BSocksClient_accepts_good_server_witness: "sc_alive sc_demo_up \<and> (7::nat) \<le> 4 + length (cl_rcvd sc_demo_up)"
proof -
  have "sc_auth sc_demo_auth [5, 0] [sc_hello sc_demo_auth]"
    using auth_none [of sc_demo_auth BSocksClient_auth_none]
    by (simp add: sc_demo_auth_def BSocksClient_auth_none_def SOCKS_VERSION_def SOCKS_METHOD_NO_AUTHENTICATION_REQUIRED_def)
  moreover have "sc_reply [5, 0, 0, 1, 10, 0, 0, 2, 4, 56]"
    by (simp add: sc_reply_def sc_addr_len_def socks_consts)
  ultimately have "sc_accept sc_demo_auth (cl_rcvd sc_demo_up @ [])"
    unfolding sc_accept_def by (intro exI conjI) (auto simp: sc_demo_up_def sc_demo_def)
  from BSocksClient_accepts_good_server [OF sc_demo_run sc_demo_ok this] show ?thesis by blast
qed

end
