(* ===== verification/Tcp_Relay.thy ===== *)
theory Tcp_Relay
  imports Socks_Client "HOL-Library.Sublist"
begin

text \<open>
  The TCP side of \<^verbatim>\<open>tun2socks/tun2socks.c\<close>: a \<^verbatim>\<open>tcp_client\<close> joins a connection that lwIP accepted from the device with
  a SOCKS connection and relays data in both directions, with half-closed states while buffered data drains.

  The handlers take a client to a client and the calls they make, to lwIP, to the SOCKS client and its interfaces
  and for the end of the object; \<open>None\<close> is a failed \<^verbatim>\<open>ASSERT\<close>. What lwIP answers is an argument: \<open>close_ok\<close> whether
  \<^verbatim>\<open>tcp_close\<close> succeeds, \<open>output_ok\<close> for \<^verbatim>\<open>tcp_output\<close>, and for each round of the loop that queues data the free send
  buffer with the result of \<^verbatim>\<open>tcp_write\<close>. The array \<^verbatim>\<open>buf\<close> with \<^verbatim>\<open>buf_used\<close> is the list \<open>tc_buf\<close> of the bytes in use and
  \<open>tc_socks_recv_buf\<close> are the bytes of the last receive. The jobs that \<^verbatim>\<open>BReactor_Synchronize\<close> runs at the end of some
  callbacks are steps of their own.
\<close>

section \<open>The object\<close>

record tcp_client =
  tc_aborted :: bool
  tc_dead :: int
  tc_local_addr :: BAddr
  tc_remote_addr :: BAddr
  tc_client_closed :: bool
  tc_buf :: "byte list"
  tc_socks_up :: bool
  tc_socks_closed :: bool
  tc_socks_recv_buf :: "byte list"
  tc_socks_recv_buf_used :: int
  tc_socks_recv_buf_sent :: int
  tc_socks_recv_waiting :: bool
  tc_socks_recv_tcp_pending :: int

datatype err_t = ERR_OK | ERR_MEM | ERR_ABRT | ERR_OTHER

text \<open>\<open>TC_register\<close> appends the client to the list \<^verbatim>\<open>tcp_clients\<close> and increments \<^verbatim>\<open>num_clients\<close>, \<open>TC_unregister\<close>
  undoes both, \<open>TC_dealloc\<close> frees the user name and the object.\<close>

datatype tc_call =
    TC_unset_callbacks | TC_tcp_recv_NULL | TC_tcp_sent_func
  | TC_tcp_close bool | TC_tcp_abort | TC_tcp_recved int | TC_tcp_write "byte list" | TC_tcp_output
  | TC_BSocksClient_Free | TC_Send "byte list" | TC_Recv int
  | TC_register | TC_unregister | TC_tcp_nagle_disable | TC_tcp_arg | TC_tcp_err_func | TC_tcp_recv_func
  | TC_dealloc

type_synonym tc_result = "(tcp_client \<times> tc_call list) option"

text \<open>Calls made before the rest of a function.\<close>

definition tc_pre :: "tc_call list \<Rightarrow> tc_result \<Rightarrow> tc_result" where
  "tc_pre xs r = map_option (\<lambda>(c, ys). (c, xs @ ys)) r"

lemma tc_pre_simps [simp]: "tc_pre xs None = None" "tc_pre xs (Some (c, ys)) = Some (c, xs @ ys)"
  by (simp_all add: tc_pre_def)

definition CLIENT_SOCKS_RECV_BUF_SIZE :: int where "CLIENT_SOCKS_RECV_BUF_SIZE = 8192"

section \<open>Closing (tun2socks/tun2socks.c)\<close>

definition client_dealloc :: "tcp_client \<Rightarrow> tc_result" where
  "client_dealloc c =
     (if \<not> tc_client_closed c \<or> \<not> tc_socks_closed c then None
      else Some (if \<not> tc_aborted c then c\<lparr>tc_dead := - 1\<rparr> else c, [TC_unregister, TC_dealloc]))"

definition client_abort_pcb :: "tcp_client \<Rightarrow> tc_result" where
  "client_abort_pcb c = (if tc_aborted c then None else Some (c\<lparr>tc_aborted := True, tc_dead := 1\<rparr>, [TC_tcp_abort]))"

function (sequential)
  client_handle_freed_client :: "bool \<Rightarrow> tcp_client \<Rightarrow> tc_result" and
  client_free_client :: "bool \<Rightarrow> tcp_client \<Rightarrow> tc_result" and
  client_free_socks :: "bool \<Rightarrow> tcp_client \<Rightarrow> tc_result"
where
  "client_handle_freed_client close_ok c =
     (if tc_client_closed c then None
      else
        (let c1 = c\<lparr>tc_client_closed := True\<rparr> in
         if tc_buf c1 \<noteq> [] \<and> \<not> tc_socks_closed c1 then Some (c1, [])
         else if \<not> tc_socks_closed c1 then client_free_socks close_ok c1
         else client_dealloc c1))"
| "client_free_client close_ok c =
     (if tc_client_closed c then None
      else if close_ok then tc_pre [TC_unset_callbacks, TC_tcp_close True] (client_handle_freed_client close_ok c)
      else case client_abort_pcb c of
        None \<Rightarrow> None
      | Some (c1, xs) \<Rightarrow> tc_pre ([TC_unset_callbacks, TC_tcp_close False] @ xs) (client_handle_freed_client close_ok c1))"
| "client_free_socks close_ok c =
     (if tc_socks_closed c then None
      else
        (let xs = (if tc_socks_up c \<and> \<not> tc_client_closed c then [TC_tcp_recv_NULL] else []) @ [TC_BSocksClient_Free];
             c1 = c\<lparr>tc_socks_closed := True\<rparr> in
         if tc_socks_up c1 \<and> (tc_socks_recv_buf_used c1 \<ge> 0 \<or> tc_socks_recv_tcp_pending c1 > 0) \<and> \<not> tc_client_closed c1
         then Some (c1, xs)
         else if \<not> tc_client_closed c1 then tc_pre xs (client_free_client close_ok c1)
         else tc_pre xs (client_dealloc c1)))"
  by pat_completeness auto
termination
  by (relation "measure (\<lambda>x. case x of
        Inl (ok, c) \<Rightarrow> 2 * (of_bool (\<not> tc_client_closed c) + of_bool (\<not> tc_socks_closed c))
      | Inr (Inl (ok, c)) \<Rightarrow> 2 * (of_bool (\<not> tc_client_closed c) + of_bool (\<not> tc_socks_closed c)) + 1
      | Inr (Inr (ok, c)) \<Rightarrow> 2 * (of_bool (\<not> tc_client_closed c) + of_bool (\<not> tc_socks_closed c)) + 1)")
    (auto simp: client_abort_pcb_def split: if_splits)

declare client_handle_freed_client.simps [simp del] client_free_client.simps [simp del] client_free_socks.simps [simp del]

definition client_abort_client :: "bool \<Rightarrow> tcp_client \<Rightarrow> tc_result" where
  "client_abort_client close_ok c =
     (if tc_client_closed c then None
      else case client_abort_pcb c of
        None \<Rightarrow> None
      | Some (c1, xs) \<Rightarrow> tc_pre ([TC_unset_callbacks] @ xs) (client_handle_freed_client close_ok c1))"

definition client_murder :: "tcp_client \<Rightarrow> tc_result" where
  "client_murder c =
     (let pcb = (if tc_client_closed c then Some (c, [])
          else case client_abort_pcb c of None \<Rightarrow> None
            | Some (c1, xs) \<Rightarrow> Some (c1\<lparr>tc_client_closed := True\<rparr>, [TC_unset_callbacks] @ xs)) in
      case pcb of
        None \<Rightarrow> None
      | Some (c1, xs) \<Rightarrow>
          if tc_socks_closed c1 then tc_pre xs (client_dealloc c1)
          else tc_pre (xs @ [TC_BSocksClient_Free]) (client_dealloc (c1\<lparr>tc_socks_closed := True\<rparr>)))"

section \<open>Data from the device to SOCKS\<close>

definition client_send_to_socks :: "tcp_client \<Rightarrow> tc_result" where
  "client_send_to_socks c =
     (if tc_socks_closed c \<or> \<not> tc_socks_up c \<or> tc_buf c = [] then None else Some (c, [TC_Send (tc_buf c)]))"

text \<open>What a callback returns to lwIP: whether \<^verbatim>\<open>tcp_abort\<close> was called in it.\<close>

definition dead_result :: "tcp_client \<Rightarrow> err_t" where
  "dead_result c = (if tc_dead c > 0 then ERR_ABRT else ERR_OK)"

text \<open>\<open>TCP_WND\<close> is the size of the buffer; \<open>p\<close> is the data of the \<^verbatim>\<open>pbuf\<close>, or nothing when the client closed.\<close>

definition client_recv_func ::
    "int \<Rightarrow> bool \<Rightarrow> tcp_client \<Rightarrow> byte list option \<Rightarrow> (tcp_client \<times> tc_call list \<times> err_t) option" where
  "client_recv_func TCP_WND close_ok c0 p =
     (if tc_client_closed c0 then None
      else
        (let c = c0\<lparr>tc_dead := 0\<rparr>;
             finish = map_option (\<lambda>(c', xs). (c', xs, dead_result c')) in
         case p of
           None \<Rightarrow> finish (client_free_client close_ok c)
         | Some data \<Rightarrow>
             if int (length data) > TCP_WND - int (length (tc_buf c)) then Some (c, [], ERR_MEM)
             else
               (let c1 = c\<lparr>tc_buf := tc_buf c @ data\<rparr> in
                if length (tc_buf c1) = length data \<and> tc_socks_up c1 then
                  (if tc_socks_closed c1 then None else finish (client_send_to_socks c1))
                else finish (Some (c1, [])))))"

definition client_socks_send_handler_done :: "bool \<Rightarrow> tcp_client \<Rightarrow> int \<Rightarrow> tc_result" where
  "client_socks_send_handler_done close_ok c data_len =
     (if tc_socks_closed c \<or> \<not> tc_socks_up c \<or> tc_buf c = [] \<or> \<not> data_len > 0 \<or> \<not> data_len \<le> int (length (tc_buf c)) then None
      else
        (let c1 = c\<lparr>tc_buf := drop (nat data_len) (tc_buf c)\<rparr>;
             xs = (if \<not> tc_client_closed c1 then [TC_tcp_recved data_len] else []) in
         if tc_buf c1 \<noteq> [] then Some (c1, xs @ [TC_Send (tc_buf c1)])
         else if tc_client_closed c1 then tc_pre xs (client_free_socks close_ok c1)
         else Some (c1, xs)))"

section \<open>Data from SOCKS to the device\<close>

definition client_socks_recv_initiate :: "tcp_client \<Rightarrow> tc_result" where
  "client_socks_recv_initiate c =
     (if tc_client_closed c \<or> tc_socks_closed c \<or> \<not> tc_socks_up c \<or> tc_socks_recv_buf_used c \<noteq> - 1 then None
      else Some (c, [TC_Recv CLIENT_SOCKS_RECV_BUF_SIZE]))"

text \<open>The loop of \<^verbatim>\<open>client_socks_recv_send_out\<close>: the client, the writes and whether a write failed for good. Without
  further answers the send buffer of lwIP is full.\<close>

fun send_out_loop :: "(nat \<times> err_t) list \<Rightarrow> tcp_client \<Rightarrow> tcp_client \<times> tc_call list \<times> bool" where
  "send_out_loop [] c = (c, [], False)"
| "send_out_loop ((tcp_sndbuf, err) # rs) c =
     (let to_write = min (tc_socks_recv_buf_used c - tc_socks_recv_buf_sent c) (int tcp_sndbuf) in
      if to_write = 0 then (c, [], False)
      else if err \<noteq> ERR_OK then (c, [], err \<noteq> ERR_MEM)
      else
        (let w = TC_tcp_write (take (nat to_write) (drop (nat (tc_socks_recv_buf_sent c)) (tc_socks_recv_buf c)));
             c1 = c\<lparr>tc_socks_recv_buf_sent := tc_socks_recv_buf_sent c + to_write,
               tc_socks_recv_tcp_pending := tc_socks_recv_tcp_pending c + to_write\<rparr> in
         if tc_socks_recv_buf_sent c1 < tc_socks_recv_buf_used c1 then
           (case send_out_loop rs c1 of (c2, ws, fatal) \<Rightarrow> (c2, w # ws, fatal))
         else (c1, [w], False)))"

text \<open>With the value the function returns.\<close>

definition client_socks_recv_send_out ::
    "(nat \<times> err_t) list \<Rightarrow> bool \<Rightarrow> bool \<Rightarrow> tcp_client \<Rightarrow> (tcp_client \<times> tc_call list \<times> int) option" where
  "client_socks_recv_send_out writes output_ok close_ok c =
     (if tc_client_closed c \<or> \<not> tc_socks_up c \<or> \<not> tc_socks_recv_buf_used c > 0 \<or>
         \<not> tc_socks_recv_buf_sent c < tc_socks_recv_buf_used c \<or> tc_socks_recv_waiting c then None
      else
        (case send_out_loop writes c of (c1, ws, fatal) \<Rightarrow>
           let abort = (\<lambda>xs. map_option (\<lambda>(c', ys). (c', xs @ ys, - 1)) (client_abort_client close_ok c1)) in
           if fatal then abort ws
           else if \<not> output_ok then abort (ws @ [TC_tcp_output])
           else if tc_socks_recv_buf_sent c1 < tc_socks_recv_buf_used c1 then
             (if tc_socks_recv_tcp_pending c1 = 0 then abort (ws @ [TC_tcp_output])
              else Some (c1\<lparr>tc_socks_recv_waiting := True\<rparr>, ws @ [TC_tcp_output], 0))
           else Some (c1\<lparr>tc_socks_recv_buf_used := - 1\<rparr>, ws @ [TC_tcp_output], 0)))"

definition client_socks_recv_handler_done ::
    "(nat \<times> err_t) list \<Rightarrow> bool \<Rightarrow> bool \<Rightarrow> tcp_client \<Rightarrow> byte list \<Rightarrow> tc_result" where
  "client_socks_recv_handler_done writes output_ok close_ok c data =
     (if data = [] \<or> int (length data) > CLIENT_SOCKS_RECV_BUF_SIZE \<or> tc_socks_closed c \<or> \<not> tc_socks_up c \<or>
         tc_socks_recv_buf_used c \<noteq> - 1 then None
      else if tc_client_closed c then Some (c, [])
      else
        (case client_socks_recv_send_out writes output_ok close_ok
            (c\<lparr>tc_socks_recv_buf := data, tc_socks_recv_buf_used := int (length data), tc_socks_recv_buf_sent := 0,
               tc_socks_recv_waiting := False\<rparr>) of
           None \<Rightarrow> None
         | Some (c1, xs, ret) \<Rightarrow>
             if ret < 0 then Some (c1, xs)
             else if tc_socks_recv_buf_used c1 = - 1 then tc_pre xs (client_socks_recv_initiate c1)
             else Some (c1, xs)))"

definition client_sent_func ::
    "(nat \<times> err_t) list \<Rightarrow> bool \<Rightarrow> bool \<Rightarrow> tcp_client \<Rightarrow> int \<Rightarrow> (tcp_client \<times> tc_call list \<times> err_t) option" where
  "client_sent_func writes output_ok close_ok c0 len =
     (if tc_client_closed c0 \<or> \<not> tc_socks_up c0 \<or> \<not> len > 0 \<or> \<not> len \<le> tc_socks_recv_tcp_pending c0 then None
      else
        (let finish = map_option (\<lambda>(c', xs). (c', xs, dead_result c'));
             c = c0\<lparr>tc_dead := 0, tc_socks_recv_tcp_pending := tc_socks_recv_tcp_pending c0 - len\<rparr> in
         if tc_socks_recv_buf_used c > 0 then
           (if \<not> tc_socks_recv_waiting c \<or> \<not> tc_socks_recv_buf_sent c < tc_socks_recv_buf_used c then None
            else case client_socks_recv_send_out writes output_ok close_ok (c\<lparr>tc_socks_recv_waiting := False\<rparr>) of
              None \<Rightarrow> None
            | Some (c1, xs, ret) \<Rightarrow>
                if ret < 0 then finish (Some (c1, xs))
                else if \<not> tc_socks_recv_tcp_pending c1 > 0 then None
                else if tc_socks_recv_buf_used c1 = - 1 \<and> \<not> tc_socks_closed c1
                then finish (tc_pre xs (client_socks_recv_initiate c1))
                else finish (Some (c1, xs)))
         else if tc_socks_closed c \<and> tc_socks_recv_tcp_pending c = 0 then finish (client_free_client close_ok c)
         else finish (Some (c, []))))"

section \<open>Events of the connections\<close>

definition client_err_func :: "bool \<Rightarrow> tcp_client \<Rightarrow> tc_result" where
  "client_err_func close_ok c = (if tc_client_closed c then None else client_handle_freed_client close_ok c)"

definition client_socks_handler :: "bool \<Rightarrow> tcp_client \<Rightarrow> sc_event \<Rightarrow> tc_result" where
  "client_socks_handler close_ok c event =
     (if tc_socks_closed c then None
      else case event of
        BSOCKSCLIENT_EVENT_ERROR \<Rightarrow> client_free_socks close_ok c
      | BSOCKSCLIENT_EVENT_UP \<Rightarrow>
          (if tc_socks_up c then None
           else
             (let c1 = c\<lparr>tc_socks_recv_buf_used := - 1, tc_socks_recv_tcp_pending := 0, tc_socks_up := True\<rparr>;
                  xs = (if \<not> tc_client_closed c then [TC_tcp_sent_func] else []);
                  send = (if tc_buf c1 \<noteq> [] then client_send_to_socks c1 else Some (c1, [])) in
              case send of
                None \<Rightarrow> None
              | Some (c2, ys) \<Rightarrow>
                  if \<not> tc_client_closed c2 then tc_pre (xs @ ys) (client_socks_recv_initiate c2) else Some (c2, xs @ ys)))
      | BSOCKSCLIENT_EVENT_ERROR_CLOSED \<Rightarrow> (if \<not> tc_socks_up c then None else client_free_socks close_ok c))"

text \<open>The fields a new client starts with; the SOCKS receive fields are set when SOCKS comes up.\<close>

definition client_new :: "BAddr \<Rightarrow> BAddr \<Rightarrow> tcp_client" where
  "client_new local_addr remote_addr = \<lparr>tc_aborted = False, tc_dead = 0, tc_local_addr = local_addr, tc_remote_addr = remote_addr,
     tc_client_closed = False, tc_buf = [], tc_socks_up = False, tc_socks_closed = False, tc_socks_recv_buf = [],
     tc_socks_recv_buf_used = 0, tc_socks_recv_buf_sent = 0, tc_socks_recv_waiting = False, tc_socks_recv_tcp_pending = 0\<rparr>"

text \<open>\<open>username\<close> is the configured user name when the source address is to be appended to it, \<open>concat_strings\<close> the result of
  \<^verbatim>\<open>concat_strings\<close> (the name, an at sign and the printed address). The result is the new client with its SOCKS client
  for the destination and the calls made for it, the authentication data the SOCKS client was started with, and the value returned to lwIP.\<close>

definition listener_accept_func ::
    "bool \<Rightarrow> bool \<Rightarrow> bool \<Rightarrow> (byte list \<Rightarrow> BAddr \<Rightarrow> byte list option) \<Rightarrow> byte list option \<Rightarrow> BSocksClient_auth_info list \<Rightarrow>
      BAddr \<Rightarrow> BAddr \<Rightarrow> (tcp_client \<times> BSocksClient \<times> tc_call list) option \<times> BSocksClient_auth_info list \<times> err_t" where
  "listener_accept_func malloc_ok connector_ok append_source concat_strings username socks_auth_info pcb_local pcb_remote =
     (if \<not> malloc_ok then (None, socks_auth_info, ERR_MEM)
      else
        (let auth = (case username of
               Some name \<Rightarrow>
                 if append_source then map_option (\<lambda>u. socks_auth_info[1 := (socks_auth_info ! 1)\<lparr>ai_username := u\<rparr>]) (concat_strings name pcb_remote)
                 else Some socks_auth_info
             | None \<Rightarrow> Some socks_auth_info) in
         case auth of
           None \<Rightarrow> (None, socks_auth_info, ERR_MEM)
         | Some ais \<Rightarrow>
             (case BSocksClient_Init connector_ok ais pcb_local of
                None \<Rightarrow> (None, ais, ERR_MEM)
              | Some sc \<Rightarrow> (Some (client_new pcb_local pcb_remote, sc,
                  [TC_register, TC_tcp_nagle_disable, TC_tcp_arg, TC_tcp_err_func, TC_tcp_recv_func]), ais, dead_result (client_new pcb_local pcb_remote)))))"

section \<open>The client between its two connections\<close>

text \<open>What the environment keeps: whether the protocol control block and the SOCKS client exist, which callbacks are
  set, whether the client is in the list of clients, the operations outstanding at the SOCKS streams, whether the object was freed, and the data: what came from
  the device and what SOCKS took of it, what came from SOCKS and what was queued at lwIP, and the number of bytes
  by which the receive window was opened again and of bytes acknowledged by the device.\<close>

record tc_world =
  tw_c :: tcp_client
  tw_pcb :: bool
  tw_cb_err :: bool
  tw_cb_recv :: bool
  tw_cb_sent :: bool
  tw_socks :: bool
  tw_sending :: "byte list option"
  tw_receiving :: bool
  tw_registered :: bool
  tw_freed :: bool
  tw_from_client :: "byte list"
  tw_to_socks :: "byte list"
  tw_recved :: int
  tw_from_socks :: "byte list"
  tw_to_client :: "byte list"
  tw_acked :: int

text \<open>A call on an object that no longer exists, a second send or receive, or freeing the client twice is an error.\<close>

fun tc_issue :: "tc_call \<Rightarrow> tc_world \<Rightarrow> tc_world option" where
  "tc_issue TC_unset_callbacks w =
     (if tw_pcb w then Some (w\<lparr>tw_cb_err := False, tw_cb_recv := False, tw_cb_sent := False\<rparr>) else None)"
| "tc_issue TC_tcp_recv_NULL w = (if tw_pcb w then Some (w\<lparr>tw_cb_recv := False\<rparr>) else None)"
| "tc_issue TC_tcp_sent_func w = (if tw_pcb w then Some (w\<lparr>tw_cb_sent := True\<rparr>) else None)"
| "tc_issue (TC_tcp_close ok) w = (if tw_pcb w then Some (w\<lparr>tw_pcb := \<not> ok\<rparr>) else None)"
| "tc_issue TC_tcp_abort w = (if tw_pcb w then Some (w\<lparr>tw_pcb := False\<rparr>) else None)"
| "tc_issue (TC_tcp_recved n) w = (if tw_pcb w then Some (w\<lparr>tw_recved := tw_recved w + n\<rparr>) else None)"
| "tc_issue (TC_tcp_write bs) w = (if tw_pcb w then Some (w\<lparr>tw_to_client := tw_to_client w @ bs\<rparr>) else None)"
| "tc_issue TC_tcp_output w = (if tw_pcb w then Some w else None)"
| "tc_issue TC_BSocksClient_Free w =
     (if tw_socks w then Some (w\<lparr>tw_socks := False, tw_sending := None, tw_receiving := False\<rparr>) else None)"
| "tc_issue (TC_Send bs) w =
     (if tw_socks w \<and> tw_sending w = None \<and> bs \<noteq> [] then Some (w\<lparr>tw_sending := Some bs\<rparr>) else None)"
| "tc_issue (TC_Recv n) w = (if tw_socks w \<and> \<not> tw_receiving w \<and> 0 < n then Some (w\<lparr>tw_receiving := True\<rparr>) else None)"
| "tc_issue TC_register w = (if tw_registered w then None else Some (w\<lparr>tw_registered := True\<rparr>))"
| "tc_issue TC_unregister w = (if tw_registered w then Some (w\<lparr>tw_registered := False\<rparr>) else None)"
| "tc_issue TC_tcp_nagle_disable w = (if tw_pcb w then Some w else None)"
| "tc_issue TC_tcp_arg w = (if tw_pcb w then Some w else None)"
| "tc_issue TC_tcp_err_func w = (if tw_pcb w then Some (w\<lparr>tw_cb_err := True\<rparr>) else None)"
| "tc_issue TC_tcp_recv_func w = (if tw_pcb w then Some (w\<lparr>tw_cb_recv := True\<rparr>) else None)"
| "tc_issue TC_dealloc w = (if tw_freed w \<or> tw_registered w then None else Some (w\<lparr>tw_freed := True\<rparr>))"

fun tc_issues :: "tc_call list \<Rightarrow> tc_world \<Rightarrow> tc_world option" where
  "tc_issues [] w = Some w"
| "tc_issues (x # xs) w = (case tc_issue x w of None \<Rightarrow> None | Some w' \<Rightarrow> tc_issues xs w')"

lemma tc_issues_append: "tc_issues (xs @ ys) w = Option.bind (tc_issues xs w) (tc_issues ys)"
  by (induction xs arbitrary: w) (auto split: option.splits)

text \<open>The result of a handler: the client is stored and its calls are made.\<close>

definition tc_apply :: "tc_world \<Rightarrow> tc_result \<Rightarrow> tc_world option" where
  "tc_apply w r = (case r of None \<Rightarrow> None | Some (c, xs) \<Rightarrow> tc_issues xs (w\<lparr>tw_c := c\<rparr>))"

abbreviation drop_err :: "(tcp_client \<times> tc_call list \<times> err_t) option \<Rightarrow> tc_result" where
  "drop_err r \<equiv> map_option (\<lambda>(c, xs, _). (c, xs)) r"

text \<open>The events. lwIP calls a callback only while it is set, delivers no more data than the window it was given
  allows, and frees the control block before it reports an error; the streams complete what is outstanding. An
  event is enabled (the first component) or not, and has a result.\<close>

datatype tc_event =
    EV_recv "byte list" | EV_recv_close bool | EV_err bool | EV_sent "(nat \<times> err_t) list" bool bool int
  | EV_socks sc_event bool | EV_send_done nat bool | EV_recv_done "byte list" "(nat \<times> err_t) list" bool bool

fun tc_enabled :: "int \<Rightarrow> tc_event \<Rightarrow> tc_world \<Rightarrow> bool" where
  "tc_enabled wnd (EV_recv p) w \<longleftrightarrow> tw_cb_recv w \<and> p \<noteq> [] \<and> int (length (tw_from_client w @ p)) \<le> wnd + tw_recved w"
| "tc_enabled wnd (EV_recv_close ok) w \<longleftrightarrow> tw_cb_recv w"
| "tc_enabled wnd (EV_err ok) w \<longleftrightarrow> tw_cb_err w"
| "tc_enabled wnd (EV_sent ws out_ok ok n) w \<longleftrightarrow> tw_cb_sent w \<and> 0 < n \<and> n \<le> 65535 \<and> tw_acked w + n \<le> int (length (tw_to_client w))"
| "tc_enabled wnd (EV_socks e ok) w \<longleftrightarrow> tw_socks w \<and> (e = BSOCKSCLIENT_EVENT_UP \<longrightarrow> \<not> tc_socks_up (tw_c w)) \<and>
     (e = BSOCKSCLIENT_EVENT_ERROR_CLOSED \<longrightarrow> tc_socks_up (tw_c w))"
| "tc_enabled wnd (EV_send_done n ok) w \<longleftrightarrow> (\<exists>bs. tw_sending w = Some bs \<and> 0 < n \<and> n \<le> length bs)"
| "tc_enabled wnd (EV_recv_done d ws out_ok ok) w \<longleftrightarrow> tw_receiving w \<and> d \<noteq> [] \<and> int (length d) \<le> CLIENT_SOCKS_RECV_BUF_SIZE"

fun tc_step :: "int \<Rightarrow> tc_event \<Rightarrow> tc_world \<Rightarrow> tc_world option" where
  "tc_step wnd (EV_recv p) w =
     tc_apply (w\<lparr>tw_from_client := tw_from_client w @ p\<rparr>) (drop_err (client_recv_func wnd True (tw_c w) (Some p)))"
| "tc_step wnd (EV_recv_close ok) w = tc_apply w (drop_err (client_recv_func wnd ok (tw_c w) None))"
| "tc_step wnd (EV_err ok) w = tc_apply (w\<lparr>tw_pcb := False, tw_cb_err := False, tw_cb_recv := False, tw_cb_sent := False\<rparr>)
     (client_err_func ok (tw_c w))"
| "tc_step wnd (EV_sent ws out_ok ok n) w =
     tc_apply (w\<lparr>tw_acked := tw_acked w + n\<rparr>) (drop_err (client_sent_func ws out_ok ok (tw_c w) n))"
| "tc_step wnd (EV_socks e ok) w = tc_apply w (client_socks_handler ok (tw_c w) e)"
| "tc_step wnd (EV_send_done n ok) w =
     tc_apply (w\<lparr>tw_to_socks := tw_to_socks w @ take n (the (tw_sending w)), tw_sending := None\<rparr>)
       (client_socks_send_handler_done ok (tw_c w) (int n))"
| "tc_step wnd (EV_recv_done d ws out_ok ok) w =
     tc_apply (w\<lparr>tw_from_socks := tw_from_socks w @ d, tw_receiving := False\<rparr>)
       (client_socks_recv_handler_done ws out_ok ok (tw_c w) d)"

inductive tc_reach :: "int \<Rightarrow> tc_world \<Rightarrow> tc_world \<Rightarrow> bool" for wnd w0 where
  tc_start: "tc_reach wnd w0 w0"
| tc_next: "tc_reach wnd w0 w \<Longrightarrow> tc_enabled wnd e w \<Longrightarrow> tc_step wnd e w = Some w' \<Longrightarrow> tc_reach wnd w0 w'"

text \<open>The environment of a new client when lwIP reports the connection, with the SOCKS client initialized, and after the calls of
  \<^verbatim>\<open>listener_accept_func\<close>.\<close>

definition tc_fresh :: "tcp_client \<Rightarrow> tc_world" where
  "tc_fresh c = \<lparr>tw_c = c, tw_pcb = True, tw_cb_err = False, tw_cb_recv = False, tw_cb_sent = False, tw_socks = True,
     tw_sending = None, tw_receiving = False, tw_registered = False, tw_freed = False, tw_from_client = [], tw_to_socks = [],
     tw_recved = 0, tw_from_socks = [], tw_to_client = [], tw_acked = 0\<rparr>"

definition tc_accepted :: "tcp_client \<Rightarrow> tc_world" where
  "tc_accepted c = (tc_fresh c)\<lparr>tw_registered := True, tw_cb_err := True, tw_cb_recv := True\<rparr>"

lemma listener_accept_func_accepts:
  "listener_accept_func m k a cs u ai l r = (Some (c, sc, xs), ais, e) \<Longrightarrow>
    c = client_new l r \<and> tc_issues xs (tc_fresh c) = Some (tc_accepted c) \<and> e = ERR_OK"
  by (auto simp: listener_accept_func_def Let_def tc_fresh_def tc_accepted_def client_new_def dead_result_def
      split: if_splits option.splits)

text \<open>The invariant, in parts: the life of the objects, the direction to SOCKS and the direction to the device.\<close>

definition tc_life :: "tc_world \<Rightarrow> bool" where
  "tc_life w \<longleftrightarrow> (let c = tw_c w in
     (tw_pcb w \<longleftrightarrow> \<not> tc_client_closed c) \<and> (tw_socks w \<longleftrightarrow> \<not> tc_socks_closed c) \<and>
     (tw_registered w \<longleftrightarrow> \<not> tw_freed w) \<and> (tw_freed w \<longleftrightarrow> tc_client_closed c \<and> tc_socks_closed c) \<and> (tc_aborted c \<longrightarrow> tc_client_closed c) \<and>
     (tw_cb_err w \<longleftrightarrow> tw_pcb w) \<and> (tw_cb_sent w \<longleftrightarrow> tw_pcb w \<and> tc_socks_up c) \<and>
     (tw_cb_recv w \<longleftrightarrow> tw_pcb w \<and> tw_socks w))"

definition tc_send_ok :: "bool \<Rightarrow> byte list \<Rightarrow> byte list option \<Rightarrow> bool" where
  "tc_send_ok up buf s = (case s of None \<Rightarrow> \<not> (up \<and> buf \<noteq> []) | Some bs \<Rightarrow> up \<and> bs \<noteq> [] \<and> prefix bs buf)"

lemma tc_send_ok_simps [simp]:
  "tc_send_ok up buf None \<longleftrightarrow> \<not> (up \<and> buf \<noteq> [])" "tc_send_ok up buf (Some bs) \<longleftrightarrow> up \<and> bs \<noteq> [] \<and> prefix bs buf"
  by (simp_all add: tc_send_ok_def)

definition tc_to_socks :: "int \<Rightarrow> tc_world \<Rightarrow> bool" where
  "tc_to_socks wnd w \<longleftrightarrow> (let c = tw_c w in
     tw_from_client w = tw_to_socks w @ tc_buf c \<and> int (length (tc_buf c)) \<le> wnd \<and>
     (\<not> tc_client_closed c \<longrightarrow> tw_recved w = int (length (tw_to_socks w))) \<and>
     (tc_client_closed c \<and> \<not> tc_socks_closed c \<longrightarrow> tc_buf c \<noteq> []) \<and>
     tc_send_ok (tw_socks w \<and> tc_socks_up c) (tc_buf c) (tw_sending w))"

definition tc_to_client :: "tc_world \<Rightarrow> bool" where
  "tc_to_client w \<longleftrightarrow> (let c = tw_c w in
     (tw_receiving w \<longrightarrow> tw_socks w \<and> tc_socks_up c \<and> tc_socks_recv_buf_used c = - 1) \<and>
     prefix (tw_to_client w) (tw_from_socks w) \<and>
     (\<not> tc_socks_up c \<longrightarrow> tw_from_socks w = [] \<and> tw_acked w = 0) \<and>
     (\<not> tc_client_closed c \<and> tc_socks_up c \<longrightarrow>
        tc_socks_recv_tcp_pending c = int (length (tw_to_client w)) - tw_acked w \<and> 0 \<le> tc_socks_recv_tcp_pending c \<and>
        (if tc_socks_recv_buf_used c = - 1
         then tw_from_socks w = tw_to_client w \<and> (\<not> tc_socks_closed c \<longrightarrow> tw_receiving w)
         else tc_socks_recv_buf_used c = int (length (tc_socks_recv_buf c)) \<and> 0 \<le> tc_socks_recv_buf_sent c \<and>
           tc_socks_recv_buf_sent c < tc_socks_recv_buf_used c \<and> tc_socks_recv_waiting c \<and> 0 < tc_socks_recv_tcp_pending c \<and>
           tw_from_socks w = tw_to_client w @ drop (nat (tc_socks_recv_buf_sent c)) (tc_socks_recv_buf c))) \<and>
     (\<not> tc_client_closed c \<and> tc_socks_closed c \<longrightarrow> tc_socks_up c \<and> 0 < tc_socks_recv_tcp_pending c))"

definition tc_inv :: "int \<Rightarrow> tc_world \<Rightarrow> bool" where
  "tc_inv wnd w \<longleftrightarrow> tc_life w \<and> tc_to_socks wnd w \<and> tc_to_client w"

lemma tc_accepted_inv: "0 \<le> wnd \<Longrightarrow> tc_inv wnd (tc_accepted (client_new l r))"
  by (simp add: tc_inv_def tc_life_def tc_to_socks_def tc_to_client_def tc_accepted_def tc_fresh_def client_new_def)

section \<open>Closing keeps the invariant\<close>

lemma tc_issue_client: "tc_issue x (w\<lparr>tw_c := c\<rparr>) = map_option (tw_c_update (\<lambda>_. c)) (tc_issue x w)"
  by (cases x) auto

lemma tc_issues_client: "tc_issues xs (w\<lparr>tw_c := c\<rparr>) = map_option (tw_c_update (\<lambda>_. c)) (tc_issues xs w)"
proof (induction xs arbitrary: w)
  case (Cons x xs)
  show ?case by (cases "tc_issue x w") (simp_all add: tc_issue_client Cons.IH)
qed simp

lemma tc_apply_pre: "tc_apply w (tc_pre xs r) = Option.bind (tc_issues xs w) (\<lambda>w'. tc_apply w' r)"
proof (cases r)
  case (Some a)
  obtain c ys where "a = (c, ys)" by fastforce
  then show ?thesis using Some
    by (cases "tc_issues xs w") (simp_all add: tc_apply_def tc_issues_append tc_issues_client)
qed (cases "tc_issues xs w"; simp add: tc_apply_def)

text \<open>What holds of the data while connections are being closed.\<close>

definition tc_mid :: "int \<Rightarrow> tc_world \<Rightarrow> tcp_client \<Rightarrow> bool" where
  "tc_mid wnd w c \<longleftrightarrow> (tw_socks w \<longleftrightarrow> \<not> tc_socks_closed c) \<and> \<not> tw_freed w \<and> tw_registered w \<and>
     tw_from_client w = tw_to_socks w @ tc_buf c \<and> int (length (tc_buf c)) \<le> wnd \<and>
     tc_send_ok (tw_socks w \<and> tc_socks_up c) (tc_buf c) (tw_sending w) \<and>
     (tw_receiving w \<longrightarrow> tw_socks w \<and> tc_socks_up c \<and> tc_socks_recv_buf_used c = - 1) \<and>
     prefix (tw_to_client w) (tw_from_socks w) \<and>
     (\<not> tc_socks_up c \<longrightarrow> tw_from_socks w = [] \<and> tw_acked w = 0)"

lemma tc_inv_mid: "tc_inv wnd w \<Longrightarrow> \<not> tw_freed w \<Longrightarrow> tc_mid wnd w (tw_c w)"
  unfolding tc_inv_def tc_life_def tc_to_socks_def tc_to_client_def tc_mid_def Let_def by blast

definition tc_kill :: "tcp_client \<Rightarrow> tcp_client" where
  "tc_kill c = (if \<not> tc_aborted c then c\<lparr>tc_dead := - 1\<rparr> else c)"

lemma tc_kill_fields [simp]:
  "tc_client_closed (tc_kill c) = tc_client_closed c" "tc_socks_closed (tc_kill c) = tc_socks_closed c"
  "tc_buf (tc_kill c) = tc_buf c" "tc_socks_up (tc_kill c) = tc_socks_up c"
  "tc_socks_recv_buf_used (tc_kill c) = tc_socks_recv_buf_used c" "tc_aborted (tc_kill c) = tc_aborted c"
  by (simp_all add: tc_kill_def)

lemma client_dealloc_eq: "tc_client_closed c \<Longrightarrow> tc_socks_closed c \<Longrightarrow> client_dealloc c = Some (tc_kill c, [TC_unregister, TC_dealloc])"
  by (simp add: client_dealloc_def tc_kill_def)

lemma handle_freed_eq:
  assumes "\<not> tc_client_closed c"
  shows "client_handle_freed_client ok c =
    (if tc_buf c \<noteq> [] \<and> \<not> tc_socks_closed c then Some (c\<lparr>tc_client_closed := True\<rparr>, [])
     else if tc_socks_closed c then Some (tc_kill (c\<lparr>tc_client_closed := True\<rparr>), [TC_unregister, TC_dealloc])
     else Some (tc_kill (c\<lparr>tc_client_closed := True, tc_socks_closed := True\<rparr>), [TC_BSocksClient_Free, TC_unregister, TC_dealloc]))"
  using assms
  by (simp add: client_handle_freed_client.simps client_free_socks.simps client_dealloc_eq Let_def)

lemma freed_client_step:
  assumes m: "tc_mid wnd w c" and c: "\<not> tc_client_closed c"
    and w: "\<not> tw_pcb w" "\<not> tw_cb_err w" "\<not> tw_cb_recv w" "\<not> tw_cb_sent w"
  shows "\<exists>w'. tc_apply w (client_handle_freed_client ok c) = Some w' \<and> tc_inv wnd w'"
proof -
  consider "tc_buf c \<noteq> []" "\<not> tc_socks_closed c" | "tc_socks_closed c" | "tc_buf c = []" "\<not> tc_socks_closed c" by blast
  then show ?thesis
  proof cases
    case 1
    then show ?thesis using m c w
      by (auto simp: handle_freed_eq tc_apply_def tc_mid_def tc_inv_def tc_life_def tc_to_socks_def tc_to_client_def
          split: option.splits)
  next
    case 2
    then show ?thesis using m c w
      by (auto simp: handle_freed_eq tc_apply_def tc_mid_def tc_inv_def tc_life_def tc_to_socks_def tc_to_client_def
          split: option.splits)
  next
    case 3
    then show ?thesis using m c w
      by (auto simp: handle_freed_eq tc_apply_def tc_mid_def tc_inv_def tc_life_def tc_to_socks_def tc_to_client_def
          split: option.splits)
  qed
qed

lemma tc_mid_pcb [simp]:
  "tc_mid wnd (w\<lparr>tw_pcb := a\<rparr>) c = tc_mid wnd w c" "tc_mid wnd (w\<lparr>tw_cb_err := a\<rparr>) c = tc_mid wnd w c"
  "tc_mid wnd (w\<lparr>tw_cb_recv := a\<rparr>) c = tc_mid wnd w c" "tc_mid wnd (w\<lparr>tw_cb_sent := a\<rparr>) c = tc_mid wnd w c"
  "tc_mid wnd w (c\<lparr>tc_aborted := a\<rparr>) = tc_mid wnd w c" "tc_mid wnd w (c\<lparr>tc_dead := d\<rparr>) = tc_mid wnd w c"
  by (simp_all add: tc_mid_def)

lemma free_client_step:
  assumes m: "tc_mid wnd w c" and c: "\<not> tc_client_closed c" "\<not> tc_aborted c" and w: "tw_pcb w"
  shows "\<exists>w'. tc_apply w (client_free_client ok c) = Some w' \<and> tc_inv wnd w'"
proof (cases ok)
  case True
  then show ?thesis using freed_client_step [of wnd
      "w\<lparr>tw_cb_err := False, tw_cb_recv := False, tw_cb_sent := False, tw_pcb := False\<rparr>" c ok] m c w
    by (simp add: client_free_client.simps tc_apply_pre)
next
  case False
  then show ?thesis using freed_client_step [of wnd
      "w\<lparr>tw_cb_err := False, tw_cb_recv := False, tw_cb_sent := False, tw_pcb := False\<rparr>" "c\<lparr>tc_aborted := True, tc_dead := 1\<rparr>" ok] m c w
    by (simp add: client_free_client.simps tc_apply_pre client_abort_pcb_def)
qed

lemma abort_client_step:
  assumes m: "tc_mid wnd w c" and c: "\<not> tc_client_closed c" "\<not> tc_aborted c" and w: "tw_pcb w"
  shows "\<exists>w'. tc_apply w (client_abort_client ok c) = Some w' \<and> tc_inv wnd w'"
  using freed_client_step [of wnd
      "w\<lparr>tw_cb_err := False, tw_cb_recv := False, tw_cb_sent := False, tw_pcb := False\<rparr>" "c\<lparr>tc_aborted := True, tc_dead := 1\<rparr>" ok] m c w
  by (simp add: client_abort_client_def tc_apply_pre client_abort_pcb_def)

text \<open>Closing the SOCKS side, from a state in which the device side is consistent.\<close>

definition tc_drain :: "tc_world \<Rightarrow> tcp_client \<Rightarrow> bool" where
  "tc_drain w c \<longleftrightarrow> tc_socks_recv_tcp_pending c = int (length (tw_to_client w)) - tw_acked w \<and> 0 \<le> tc_socks_recv_tcp_pending c \<and>
     (if tc_socks_recv_buf_used c = - 1 then tw_from_socks w = tw_to_client w
      else tc_socks_recv_buf_used c = int (length (tc_socks_recv_buf c)) \<and> 0 \<le> tc_socks_recv_buf_sent c \<and>
        tc_socks_recv_buf_sent c < tc_socks_recv_buf_used c \<and> tc_socks_recv_waiting c \<and> 0 < tc_socks_recv_tcp_pending c \<and>
        tw_from_socks w = tw_to_client w @ drop (nat (tc_socks_recv_buf_sent c)) (tc_socks_recv_buf c))"

lemma tc_inv_drain: "tc_inv wnd w \<Longrightarrow> \<not> tc_client_closed (tw_c w) \<Longrightarrow> tc_socks_up (tw_c w) \<Longrightarrow> tc_drain w (tw_c w)"
  unfolding tc_inv_def tc_to_client_def tc_drain_def Let_def by auto

lemma free_socks_step:
  assumes m: "tc_mid wnd w c" and s: "\<not> tc_socks_closed c"
    and w: "tw_pcb w \<longleftrightarrow> \<not> tc_client_closed c" "tc_aborted c \<longrightarrow> tc_client_closed c" "tw_cb_err w \<longleftrightarrow> tw_pcb w"
      "tw_cb_sent w \<longleftrightarrow> tw_pcb w \<and> tc_socks_up c" "tw_cb_recv w \<longleftrightarrow> tw_pcb w"
    and d: "\<not> tc_client_closed c \<Longrightarrow> tw_recved w = int (length (tw_to_socks w)) \<and> (tc_socks_up c \<longrightarrow> tc_drain w c)"
  shows "\<exists>w'. tc_apply w (client_free_socks ok c) = Some w' \<and> tc_inv wnd w'"
proof -
  let ?c = "c\<lparr>tc_socks_closed := True\<rparr>"
  let ?w = "w\<lparr>tw_socks := False, tw_sending := None, tw_receiving := False\<rparr>"
  have soc: "tw_socks w" "\<not> tw_freed w" using m s by (simp_all add: tc_mid_def)
  have m': "tc_mid wnd (w\<lparr>tw_cb_recv := b, tw_socks := False, tw_sending := None, tw_receiving := False\<rparr>) ?c" "tc_mid wnd ?w ?c" for b
    using m s by (simp_all add: tc_mid_def)
  show ?thesis
  proof (cases "tc_client_closed c")
    case True
    then have "client_free_socks ok c = Some (tc_kill ?c, [TC_BSocksClient_Free, TC_unregister, TC_dealloc])"
      using s by (simp add: client_free_socks.simps Let_def client_dealloc_eq)
    then show ?thesis using m s w soc True
      by (auto simp: tc_apply_def tc_mid_def tc_inv_def tc_life_def tc_to_socks_def tc_to_client_def)
  next
    case False
    note f = False w False d [OF False]
    show ?thesis
    proof (cases "tc_socks_up c")
      case up: True
      show ?thesis
      proof (cases "tc_socks_recv_buf_used c \<ge> 0 \<or> tc_socks_recv_tcp_pending c > 0")
        case True
        then have "client_free_socks ok c = Some (?c, [TC_tcp_recv_NULL, TC_BSocksClient_Free])"
          using s up False by (simp add: client_free_socks.simps Let_def)
        moreover have "0 < tc_socks_recv_tcp_pending c" using True f up by (auto simp: tc_drain_def split: if_splits)
        ultimately show ?thesis using m s w soc f up
          by (auto simp: tc_apply_def tc_mid_def tc_inv_def tc_life_def tc_to_socks_def tc_to_client_def tc_drain_def split: if_splits)
      next
        case F: False
        then have "client_free_socks ok c = tc_pre [TC_tcp_recv_NULL, TC_BSocksClient_Free] (client_free_client ok ?c)"
          using s up False by (simp add: client_free_socks.simps Let_def)
        then show ?thesis using free_client_step [OF m'(1) [of False], of ok] f soc
          by (simp add: tc_apply_pre)
      qed
    next
      case up: False
      then have "client_free_socks ok c = tc_pre [TC_BSocksClient_Free] (client_free_client ok ?c)"
        using s False by (simp add: client_free_socks.simps Let_def)
      then show ?thesis using free_client_step [OF m'(2), of ok] f soc by (simp add: tc_apply_pre)
    qed
  qed
qed

section \<open>Queueing data for the device\<close>

lemma send_out_loop_spec:
  assumes "tc_socks_recv_buf_used c = int (length (tc_socks_recv_buf c))" "0 \<le> tc_socks_recv_buf_sent c"
    "tc_socks_recv_buf_sent c < tc_socks_recv_buf_used c" "send_out_loop ws c = (c1, xs, fatal)" "tw_pcb w"
  shows "\<exists>n. c1 = c\<lparr>tc_socks_recv_buf_sent := tc_socks_recv_buf_sent c + int n,
      tc_socks_recv_tcp_pending := tc_socks_recv_tcp_pending c + int n\<rparr> \<and>
    tc_socks_recv_buf_sent c + int n \<le> tc_socks_recv_buf_used c \<and>
    tc_issues xs w = Some (w\<lparr>tw_to_client := tw_to_client w @ take n (drop (nat (tc_socks_recv_buf_sent c)) (tc_socks_recv_buf c))\<rparr>)"
  using assms
proof (induction ws c arbitrary: c1 xs fatal w rule: send_out_loop.induct)
  case (1 c)
  then show ?case by (intro exI [of _ 0]) simp
next
  case (2 tcp_sndbuf err rs c)
  let ?sent = "tc_socks_recv_buf_sent c" and ?used = "tc_socks_recv_buf_used c"
  let ?n = "min (?used - ?sent) (int tcp_sndbuf)"
  have stop: ?case if "c1 = c" "xs = []" using that "2.prems"(3) by (intro exI [of _ 0]) simp
  show ?case
  proof (cases "?n = 0 \<or> err \<noteq> ERR_OK")
    case True
    then have "c1 = c \<and> xs = []"
    proof (cases "?n = 0")
      case False
      then show ?thesis using True "2.prems"(4) by (simp add: Let_def)
    qed (use "2.prems"(4) in \<open>simp add: Let_def\<close>)
    then show ?thesis using stop by blast
  next
    case False
    then have n: "0 < ?n" "err = ERR_OK" "?n \<le> ?used - ?sent" using "2.prems"(3) by auto
    let ?d = "take (nat ?n) (drop (nat ?sent) (tc_socks_recv_buf c))"
    let ?c = "c\<lparr>tc_socks_recv_buf_sent := ?sent + ?n, tc_socks_recv_tcp_pending := tc_socks_recv_tcp_pending c + ?n\<rparr>"
    let ?w = "w\<lparr>tw_to_client := tw_to_client w @ ?d\<rparr>"
    show ?thesis
    proof (cases "?sent + ?n < ?used")
      case False
      then have "c1 = ?c" "xs = [TC_tcp_write ?d]" using "2.prems"(4) n by (simp_all add: Let_def)
      then show ?thesis using n "2.prems"(5) by (intro exI [of _ "nat ?n"]) simp
    next
      case True
      obtain c2 ws2 f2 where r: "send_out_loop rs ?c = (c2, ws2, f2)" by (cases "send_out_loop rs ?c")
      have c1: "c1 = c2" "xs = TC_tcp_write ?d # ws2" using "2.prems"(4) n True r by (simp_all add: Let_def)
      obtain k where k: "c2 = ?c\<lparr>tc_socks_recv_buf_sent := ?sent + ?n + int k,
          tc_socks_recv_tcp_pending := tc_socks_recv_tcp_pending c + ?n + int k\<rparr>"
        "?sent + ?n + int k \<le> ?used"
        "tc_issues ws2 ?w = Some (?w\<lparr>tw_to_client := tw_to_client ?w @ take k (drop (nat (?sent + ?n)) (tc_socks_recv_buf c))\<rparr>)"
        using "2.IH" [of ?n "TC_tcp_write ?d" ?c c2 ws2 f2 ?w] "2.prems"(1,2,5) n True r by auto
      have "nat (?sent + ?n) = nat ?sent + nat ?n" using n(1) "2.prems"(2) by (simp add: nat_add_distrib)
      then have "?d @ take k (drop (nat (?sent + ?n)) (tc_socks_recv_buf c)) =
          take (nat ?n + k) (drop (nat ?sent) (tc_socks_recv_buf c))" by (simp only: take_add drop_drop add.commute [of "nat ?sent"])
      then show ?thesis using k c1 n "2.prems"(5)
        by (intro exI [of _ "nat ?n + k"]) (simp add: add.assoc)
    qed
  qed
qed

text \<open>An open device side, with SOCKS up.\<close>

definition tc_open :: "tc_world \<Rightarrow> tcp_client \<Rightarrow> bool" where
  "tc_open w c \<longleftrightarrow> tw_pcb w \<and> tw_cb_err w \<and> tw_cb_sent w \<and> (tw_cb_recv w \<longleftrightarrow> tw_socks w) \<and>
     \<not> tc_client_closed c \<and> \<not> tc_aborted c \<and> tc_socks_up c \<and> tw_recved w = int (length (tw_to_socks w))"

lemma tc_inv_open:
  "tc_inv wnd w \<Longrightarrow> \<not> tc_client_closed (tw_c w) \<Longrightarrow> tc_socks_up (tw_c w) \<Longrightarrow> tc_open w (tw_c w)"
  unfolding tc_inv_def tc_life_def tc_to_socks_def tc_open_def Let_def by blast

lemma tc_open_inv:
  assumes "tc_mid wnd w c" "tc_open w c" "tc_drain w c"
    "\<not> tc_socks_closed c \<Longrightarrow> tc_socks_recv_buf_used c = - 1 \<Longrightarrow> tw_receiving w"
    "tc_socks_closed c \<Longrightarrow> 0 < tc_socks_recv_tcp_pending c"
  shows "tc_inv wnd (w\<lparr>tw_c := c\<rparr>)"
proof -
  have "tc_life (w\<lparr>tw_c := c\<rparr>)" using assms(1,2) unfolding tc_life_def tc_mid_def tc_open_def Let_def by auto
  moreover have "tc_to_socks wnd (w\<lparr>tw_c := c\<rparr>)" using assms(1,2) unfolding tc_to_socks_def tc_mid_def tc_open_def Let_def by auto
  moreover have "tc_to_client (w\<lparr>tw_c := c\<rparr>)"
    using assms unfolding tc_to_client_def tc_mid_def tc_open_def tc_drain_def Let_def by auto
  ultimately show ?thesis unfolding tc_inv_def by blast
qed

text \<open>The state in which \<^verbatim>\<open>client_socks_recv_send_out\<close> is called.\<close>

definition tc_flush :: "tc_world \<Rightarrow> tcp_client \<Rightarrow> bool" where
  "tc_flush w c \<longleftrightarrow> tc_socks_recv_buf_used c = int (length (tc_socks_recv_buf c)) \<and> 0 \<le> tc_socks_recv_buf_sent c \<and>
     tc_socks_recv_buf_sent c < tc_socks_recv_buf_used c \<and> \<not> tc_socks_recv_waiting c \<and>
     tc_socks_recv_tcp_pending c = int (length (tw_to_client w)) - tw_acked w \<and> 0 \<le> tc_socks_recv_tcp_pending c \<and>
     tw_from_socks w = tw_to_client w @ drop (nat (tc_socks_recv_buf_sent c)) (tc_socks_recv_buf c)"

lemma tc_issues_output: "tc_issues xs w = Some w1 \<Longrightarrow> tw_pcb w1 \<Longrightarrow> tc_issues (xs @ [TC_tcp_output]) w = Some w1"
  by (simp add: tc_issues_append)

lemma tc_apply_before:
  "tc_issues xs w = Some w1 \<Longrightarrow>
    tc_apply w (map_option (\<lambda>(c', ys). (c', xs @ ys)) r) = tc_apply w1 r"
  using tc_apply_pre [of w xs r] by (simp add: tc_pre_def)

lemma send_out_step:
  assumes m: "tc_mid wnd w c" and o: "tc_open w c" and f: "tc_flush w c"
  obtains (aborted) c1 xs w' where "client_socks_recv_send_out writes out_ok ok c = Some (c1, xs, - 1)"
      "tc_apply w (Some (c1, xs)) = Some w'" "tc_inv wnd w'"
  | (queued) c1 xs w1 where "client_socks_recv_send_out writes out_ok ok c = Some (c1, xs, 0)"
      "tc_issues xs w = Some w1" "tc_mid wnd w1 c1" "tc_open w1 c1" "tc_drain w1 c1" "0 < tc_socks_recv_tcp_pending c1"
      "tw_receiving w1 = tw_receiving w" "tc_socks_closed c1 = tc_socks_closed c" "tw_socks w1 = tw_socks w"
proof -
  obtain c1 ws fatal where l: "send_out_loop writes c = (c1, ws, fatal)" by (cases "send_out_loop writes c")
  let ?sent = "tc_socks_recv_buf_sent c" and ?buf = "tc_socks_recv_buf c"
  have pcb: "tw_pcb w" using o by (simp add: tc_open_def)
  note fl = f [unfolded tc_flush_def]
  have used: "0 < tc_socks_recv_buf_used c" using fl by linarith
  obtain n where n: "c1 = c\<lparr>tc_socks_recv_buf_sent := ?sent + int n, tc_socks_recv_tcp_pending := tc_socks_recv_tcp_pending c + int n\<rparr>"
      "?sent + int n \<le> tc_socks_recv_buf_used c"
      "tc_issues ws w = Some (w\<lparr>tw_to_client := tw_to_client w @ take n (drop (nat ?sent) ?buf)\<rparr>)"
    using send_out_loop_spec [OF _ _ _ l pcb] fl by blast
  let ?w = "w\<lparr>tw_to_client := tw_to_client w @ take n (drop (nat ?sent) ?buf)\<rparr>"
  have w1: "tc_issues (ws @ [TC_tcp_output]) w = Some ?w" using tc_issues_output [OF n(3)] pcb by simp
  have rest: "take n (drop (nat ?sent) ?buf) @ drop (nat (?sent + int n)) ?buf = drop (nat ?sent) ?buf"
  proof -
    have "nat (?sent + int n) = n + nat ?sent" using fl by (simp add: nat_add_distrib)
    then show ?thesis using append_take_drop_id [of n "drop (nat ?sent) ?buf"] by (simp add: drop_drop)
  qed
  have len: "length (take n (drop (nat ?sent) ?buf)) = n" using n(2) fl by (simp add: min_def) linarith
  have mid: "tc_mid wnd ?w c1"
    using m fl n(1) unfolding tc_mid_def by (auto simp: take_is_prefix)
  show thesis
  proof (cases "fatal \<or> \<not> out_ok \<or> (tc_socks_recv_buf_sent c1 < tc_socks_recv_buf_used c1 \<and> tc_socks_recv_tcp_pending c1 = 0)")
    case True
    have "\<not> tc_client_closed c1" "\<not> tc_aborted c1" "tw_pcb ?w" using o n(1) by (simp_all add: tc_open_def)
    then obtain w' where w': "tc_apply ?w (client_abort_client ok c1) = Some w'" "tc_inv wnd w'"
      using abort_client_step [OF mid] by blast
    then obtain c2 ys where a: "client_abort_client ok c1 = Some (c2, ys)" by (cases "client_abort_client ok c1") (auto simp: tc_apply_def)
    have s: "client_socks_recv_send_out writes out_ok ok c =
        Some (c2, (if fatal then ws else ws @ [TC_tcp_output]) @ ys, - 1)"
      using l a True o fl by (auto simp: client_socks_recv_send_out_def tc_open_def)
    have "tc_issues (if fatal then ws else ws @ [TC_tcp_output]) w = Some ?w" using n(3) w1 by simp
    from tc_apply_before [OF this, of "Some (c2, ys)"] show ?thesis using aborted [OF s] w' a by simp
  next
    case False
    let ?c = "if tc_socks_recv_buf_sent c1 < tc_socks_recv_buf_used c1 then c1\<lparr>tc_socks_recv_waiting := True\<rparr>
      else c1\<lparr>tc_socks_recv_buf_used := - 1\<rparr>"
    have s: "client_socks_recv_send_out writes out_ok ok c = Some (?c, ws @ [TC_tcp_output], 0)"
      using l False o fl used by (simp add: client_socks_recv_send_out_def tc_open_def)
    have "tc_mid wnd ?w ?c" using mid fl n(1) unfolding tc_mid_def by auto
    moreover have "tc_open ?w ?c" using o n(1) unfolding tc_open_def by simp
    moreover have pend: "0 < tc_socks_recv_tcp_pending ?c" using False fl n(1,2) by auto
    moreover have "tc_drain ?w ?c"
    proof (cases "tc_socks_recv_buf_sent c1 < tc_socks_recv_buf_used c1")
      case True
      then show ?thesis using pend fl n(1) len rest unfolding tc_drain_def by simp
    next
      case F: False
      then have "nat (?sent + int n) \<ge> length ?buf" using fl n(1) by simp
      then show ?thesis using F pend fl n(1) len rest unfolding tc_drain_def by simp
    qed
    ultimately show ?thesis using queued [OF s w1] n(1) by simp
  qed
qed

section \<open>Every event keeps the invariant\<close>

lemma tc_inv_life:
  assumes "tc_inv wnd w"
  shows "tw_pcb w \<longleftrightarrow> \<not> tc_client_closed (tw_c w)" "tw_socks w \<longleftrightarrow> \<not> tc_socks_closed (tw_c w)"
    "tw_freed w \<longleftrightarrow> tc_client_closed (tw_c w) \<and> tc_socks_closed (tw_c w)" "tc_aborted (tw_c w) \<longrightarrow> tc_client_closed (tw_c w)"
    "tw_cb_err w \<longleftrightarrow> tw_pcb w" "tw_cb_sent w \<longleftrightarrow> tw_pcb w \<and> tc_socks_up (tw_c w)" "tw_cb_recv w \<longleftrightarrow> tw_pcb w \<and> tw_socks w"
    "tw_registered w \<longleftrightarrow> \<not> tw_freed w"
  using assms unfolding tc_inv_def tc_life_def Let_def by blast+

lemma tc_apply_finish: "tc_apply w (drop_err (map_option (\<lambda>(c', xs). (c', xs, dead_result c')) r)) = tc_apply w r"
  by (cases r) (auto simp: tc_apply_def)

lemma tc_send_ok_append: "tc_send_ok up buf s \<Longrightarrow> \<not> (buf = [] \<and> up) \<Longrightarrow> tc_send_ok up (buf @ p) s"
  by (cases s) (auto simp only: tc_send_ok_simps intro: prefix_prefix)

lemma step_recv:
  assumes i: "tc_inv wnd w" and e: "tc_enabled wnd (EV_recv p) w"
  shows "\<exists>w'. tc_step wnd (EV_recv p) w = Some w' \<and> tc_inv wnd w'"
    "\<exists>c xs. client_recv_func wnd True (tw_c w) (Some p) = Some (c, xs, ERR_OK)"
proof -
  let ?c = "tw_c w"
  let ?c1 = "?c\<lparr>tc_dead := 0, tc_buf := tc_buf ?c @ p\<rparr>"
  let ?w = "w\<lparr>tw_from_client := tw_from_client w @ p\<rparr>"
  have o: "\<not> tc_client_closed ?c" "\<not> tc_socks_closed ?c" "tw_socks w" "\<not> tw_freed w"
    using tc_inv_life [OF i] e by auto
  have fit: "int (length p) \<le> wnd - int (length (tc_buf ?c))"
    using i e o by (simp add: tc_inv_def tc_to_socks_def Let_def)
  have "tc_life (?w\<lparr>tw_c := ?c1, tw_sending := s\<rparr>) = tc_life w"
    "tc_to_client (?w\<lparr>tw_c := ?c1, tw_sending := s\<rparr>) = tc_to_client w" for s
    by (simp_all add: tc_life_def tc_to_client_def Let_def)
  then have other: "tc_life (?w\<lparr>tw_c := ?c1, tw_sending := s\<rparr>)" "tc_to_client (?w\<lparr>tw_c := ?c1, tw_sending := s\<rparr>)" for s
    using i unfolding tc_inv_def by blast+
  have ts: "tc_to_socks wnd w" using i by (simp add: tc_inv_def)
  have inv: "tc_inv wnd (?w\<lparr>tw_c := ?c1, tw_sending := s\<rparr>)"
    if "tc_send_ok (tw_socks w \<and> tc_socks_up ?c) (tc_buf ?c @ p) s" for s
    unfolding tc_inv_def using other [of s] ts fit o that by (simp add: tc_to_socks_def Let_def)
  have sending: "tc_send_ok (tw_socks w \<and> tc_socks_up ?c) (tc_buf ?c) (tw_sending w)" using ts by (simp add: tc_to_socks_def Let_def)
  show "\<exists>w'. tc_step wnd (EV_recv p) w = Some w' \<and> tc_inv wnd w'"
  proof (cases "tc_buf ?c = [] \<and> tc_socks_up ?c")
    case True
    then have "tw_sending w = None" using sending by (cases "tw_sending w") simp_all
    then show ?thesis using True o fit e inv [of "Some p"]
      by (simp add: client_recv_func_def Let_def client_send_to_socks_def tc_apply_def)
  next
    case False
    then have "tc_send_ok (tw_socks w \<and> tc_socks_up ?c) (tc_buf ?c @ p) (tw_sending w)"
      using tc_send_ok_append [OF sending] o(3) by blast
    then have "tc_inv wnd (?w\<lparr>tw_c := ?c1\<rparr>)" using inv [of "tw_sending w"] by simp
    then show ?thesis using False o fit e by (auto simp: client_recv_func_def Let_def tc_apply_def)
  qed
  show "\<exists>c xs. client_recv_func wnd True (tw_c w) (Some p) = Some (c, xs, ERR_OK)"
    using o fit e by (simp add: client_recv_func_def Let_def client_send_to_socks_def dead_result_def)
qed

lemma step_recv_close:
  assumes i: "tc_inv wnd w" and e: "tc_enabled wnd (EV_recv_close ok) w"
  shows "\<exists>w'. tc_step wnd (EV_recv_close ok) w = Some w' \<and> tc_inv wnd w'"
proof -
  have o: "\<not> tc_client_closed (tw_c w)" "\<not> tc_aborted (tw_c w)" "tw_pcb w" "\<not> tw_freed w"
    using tc_inv_life [OF i] e by auto
  show ?thesis using free_client_step [of wnd w "(tw_c w)\<lparr>tc_dead := 0\<rparr>" ok] tc_inv_mid [OF i] o
    by (simp add: client_recv_func_def tc_apply_finish)
qed

lemma step_err:
  assumes i: "tc_inv wnd w" and e: "tc_enabled wnd (EV_err ok) w"
  shows "\<exists>w'. tc_step wnd (EV_err ok) w = Some w' \<and> tc_inv wnd w'"
proof -
  have o: "\<not> tc_client_closed (tw_c w)" "\<not> tw_freed w" using tc_inv_life [OF i] e by auto
  show ?thesis using freed_client_step [of wnd
      "w\<lparr>tw_pcb := False, tw_cb_err := False, tw_cb_recv := False, tw_cb_sent := False\<rparr>" "tw_c w" ok] tc_inv_mid [OF i] o
    by (simp add: client_err_func_def)
qed

lemma step_socks_closed:
  assumes i: "tc_inv wnd w" and s: "tw_socks w"
  shows "\<exists>w'. tc_apply w (client_free_socks ok (tw_c w)) = Some w' \<and> tc_inv wnd w'"
proof (rule free_socks_step)
  note l = tc_inv_life [OF i]
  show "tc_mid wnd w (tw_c w)" using tc_inv_mid [OF i] l s by simp
  show "tw_recved w = int (length (tw_to_socks w)) \<and> (tc_socks_up (tw_c w) \<longrightarrow> tc_drain w (tw_c w))" if "\<not> tc_client_closed (tw_c w)"
    using i that tc_inv_drain [OF i that] unfolding tc_inv_def tc_to_socks_def Let_def by blast
qed (use tc_inv_life [OF i] s in blast)+

lemma step_socks_up:
  assumes i: "tc_inv wnd w" and s: "tw_socks w" and u: "\<not> tc_socks_up (tw_c w)"
  shows "\<exists>w'. tc_apply w (client_socks_handler ok (tw_c w) BSOCKSCLIENT_EVENT_UP) = Some w' \<and> tc_inv wnd w'"
proof -
  let ?c = "tw_c w"
  let ?c1 = "?c\<lparr>tc_socks_recv_buf_used := - 1, tc_socks_recv_tcp_pending := 0, tc_socks_up := True\<rparr>"
  let ?snd = "if tc_buf ?c = [] then None else Some (tc_buf ?c)"
  note l = tc_inv_life [OF i]
  have ts: "tw_from_client w = tw_to_socks w @ tc_buf ?c \<and> int (length (tc_buf ?c)) \<le> wnd \<and>
      (\<not> tc_client_closed ?c \<longrightarrow> tw_recved w = int (length (tw_to_socks w))) \<and> (tc_client_closed ?c \<longrightarrow> tc_buf ?c \<noteq> [])"
    "tw_sending w = None"
    using i l(2) s u unfolding tc_inv_def tc_to_socks_def Let_def by (auto simp: tc_send_ok_def split: option.splits)
  have tc: "\<not> tw_receiving w" "tw_from_socks w = []" "tw_to_client w = []" "tw_acked w = 0"
    using i u unfolding tc_inv_def tc_to_client_def Let_def by auto
  have inv: "tc_inv wnd (w\<lparr>tw_c := ?c1, tw_cb_sent := tw_pcb w, tw_sending := ?snd, tw_receiving := tw_pcb w\<rparr>)"
    using ts tc l s unfolding tc_inv_def tc_life_def tc_to_socks_def tc_to_client_def Let_def by simp
  have "tc_apply w (client_socks_handler ok ?c BSOCKSCLIENT_EVENT_UP) =
      Some (w\<lparr>tw_c := ?c1, tw_cb_sent := tw_pcb w, tw_sending := ?snd, tw_receiving := tw_pcb w\<rparr>)"
    using u l s ts(2) tc(1)
    by (auto simp: client_socks_handler_def Let_def client_send_to_socks_def client_socks_recv_initiate_def tc_apply_def
        CLIENT_SOCKS_RECV_BUF_SIZE_def)
  then show ?thesis using inv by simp
qed

lemma step_socks:
  assumes i: "tc_inv wnd w" and e: "tc_enabled wnd (EV_socks ev ok) w"
  shows "\<exists>w'. tc_step wnd (EV_socks ev ok) w = Some w' \<and> tc_inv wnd w'"
proof (cases ev)
  case BSOCKSCLIENT_EVENT_UP
  then show ?thesis using step_socks_up [OF i] e by simp
qed (use step_socks_closed [OF i, of ok] e tc_inv_life(2) [OF i] in \<open>simp_all add: client_socks_handler_def\<close>)

lemma step_send_done:
  assumes i: "tc_inv wnd w" and e: "tc_enabled wnd (EV_send_done n ok) w"
  shows "\<exists>w'. tc_step wnd (EV_send_done n ok) w = Some w' \<and> tc_inv wnd w'"
proof -
  let ?c = "tw_c w"
  let ?c1 = "?c\<lparr>tc_buf := drop n (tc_buf ?c)\<rparr>"
  obtain bs where bs: "tw_sending w = Some bs" "0 < n" "n \<le> length bs" using e by auto
  note l = tc_inv_life [OF i]
  have ts: "tw_from_client w = tw_to_socks w @ tc_buf ?c" "int (length (tc_buf ?c)) \<le> wnd"
      "\<not> tc_client_closed ?c \<longrightarrow> tw_recved w = int (length (tw_to_socks w))" "tw_socks w \<and> tc_socks_up ?c" "prefix bs (tc_buf ?c)"
    using i bs(1) by (simp_all add: tc_inv_def tc_to_socks_def Let_def)
  obtain zs where zs: "tc_buf ?c = bs @ zs" using ts(5) by (auto simp: prefix_def)
  have tk: "take n bs = take n (tc_buf ?c)" "n \<le> length (tc_buf ?c)" "tc_buf ?c \<noteq> []" using zs bs by auto
  let ?w = "w\<lparr>tw_to_socks := tw_to_socks w @ take n (tc_buf ?c), tw_sending := None\<rparr>"
  have step: "tc_step wnd (EV_send_done n ok) w = tc_apply ?w (client_socks_send_handler_done ok ?c (int n))"
    using bs(1) tk(1) by simp
  have mid: "tc_mid wnd w ?c" using tc_inv_mid [OF i] l ts(4) by simp
  have frame: "tc_life (?w\<lparr>tw_c := ?c1, tw_recved := r, tw_sending := s\<rparr>) = tc_life w"
      "tc_to_client (?w\<lparr>tw_c := ?c1, tw_recved := r, tw_sending := s\<rparr>) = tc_to_client w" for r s
    by (simp_all add: tc_life_def tc_to_client_def Let_def)
  have inv: "tc_inv wnd (?w\<lparr>tw_c := ?c1, tw_recved := r, tw_sending := s\<rparr>)"
    if "tc_send_ok True (drop n (tc_buf ?c)) s" "\<not> tc_client_closed ?c \<longrightarrow> r = tw_recved w + int n"
      "tc_client_closed ?c \<longrightarrow> drop n (tc_buf ?c) \<noteq> []" for r s
  proof -
    have "tc_to_socks wnd (?w\<lparr>tw_c := ?c1, tw_recved := r, tw_sending := s\<rparr>)"
      using ts that tk(2) by (simp add: tc_to_socks_def Let_def)
    then show ?thesis using i frame unfolding tc_inv_def by blast
  qed
  show ?thesis
  proof (cases "drop n (tc_buf ?c) = []")
    case False
    then have "client_socks_send_handler_done ok ?c (int n) =
        Some (?c1, (if \<not> tc_client_closed ?c then [TC_tcp_recved (int n)] else []) @ [TC_Send (drop n (tc_buf ?c))])"
      using ts(4) tk bs(2) l(2) by (simp add: client_socks_send_handler_done_def Let_def)
    then show ?thesis using step False ts(4) l(1)
        inv [of "Some (drop n (tc_buf ?c))" "if tc_client_closed ?c then tw_recved w else tw_recved w + int n"]
      by (simp add: tc_apply_def split: if_splits)
  next
    case True
    show ?thesis
    proof (cases "tc_client_closed ?c")
      case False
      then have "client_socks_send_handler_done ok ?c (int n) = Some (?c1, [TC_tcp_recved (int n)])"
        using True ts(4) tk bs(2) l(2) by (simp add: client_socks_send_handler_done_def Let_def)
      moreover have eq: "?w\<lparr>tw_c := ?c1, tw_recved := tw_recved w + int n\<rparr> =
          ?w\<lparr>tw_c := ?c1, tw_recved := tw_recved w + int n, tw_sending := None\<rparr>" by (rule tc_world.equality) simp_all
      have "tc_inv wnd (?w\<lparr>tw_c := ?c1, tw_recved := tw_recved w + int n\<rparr>)"
        by (subst eq, rule inv) (use True False in simp_all)
      ultimately show ?thesis using step l(1) False by (simp add: tc_apply_def)
    next
      case cc: True
      have "tc_mid wnd ?w ?c1" using mid ts True tk by (simp add: tc_mid_def)
      then have "\<exists>w'. tc_apply ?w (client_free_socks ok ?c1) = Some w' \<and> tc_inv wnd w'"
        by (rule free_socks_step) (use ts(4) l cc in simp_all)
      moreover have "client_socks_send_handler_done ok ?c (int n) = client_free_socks ok ?c1"
        using True ts(4) tk bs(2) l(2) cc by (cases "client_free_socks ok ?c1") (auto simp: client_socks_send_handler_done_def Let_def)
      ultimately show ?thesis using step by simp
    qed
  qed
qed

text \<open>The end of the two handlers that queue data: receiving goes on once everything is queued.\<close>

lemma after_send_out:
  assumes m: "tc_mid wnd w c" and o: "tc_open w c" and f: "tc_flush w c"
  obtains (aborted) c1 xs w' where "client_socks_recv_send_out writes out_ok ok c = Some (c1, xs, - 1)"
      "tc_apply w (Some (c1, xs)) = Some w'" "tc_inv wnd w'"
  | (more) c1 xs w' where "client_socks_recv_send_out writes out_ok ok c = Some (c1, xs, 0)" "0 < tc_socks_recv_tcp_pending c1"
      "\<not> (tc_socks_recv_buf_used c1 = - 1 \<and> \<not> tc_socks_closed c1)"  "tc_apply w (Some (c1, xs)) = Some w'" "tc_inv wnd w'"
      "tc_socks_closed c1 = tc_socks_closed c"
  | (receive) c1 xs w' where "client_socks_recv_send_out writes out_ok ok c = Some (c1, xs, 0)" "0 < tc_socks_recv_tcp_pending c1"
      "tc_socks_recv_buf_used c1 = - 1 \<and> \<not> tc_socks_closed c1"
      "tc_apply w (tc_pre xs (client_socks_recv_initiate c1)) = Some w'" "tc_inv wnd w'" "tc_socks_closed c1 = tc_socks_closed c"
  using m o f
proof (cases rule: send_out_step [of wnd w c writes out_ok ok, case_names a b])
  case (a c1 xs w')
  then show ?thesis by (rule aborted)
next
  case (b c1 xs w1)
  note pend = b(6) and same = b(8)
  have nr: "\<not> tw_receiving w1" using b(7) m f unfolding tc_mid_def tc_flush_def by auto
  show ?thesis
  proof (cases "tc_socks_recv_buf_used c1 = - 1 \<and> \<not> tc_socks_closed c1")
    case False
    have "tc_inv wnd (w1\<lparr>tw_c := c1\<rparr>)" using b(3,4,5) by (rule tc_open_inv) (use False pend in auto)
    moreover have "tc_apply w (Some (c1, xs)) = Some (w1\<lparr>tw_c := c1\<rparr>)" using b(2) by (simp add: tc_apply_def tc_issues_client)
    ultimately show ?thesis using more [OF b(1) pend False] same by blast
  next
    case True
    have so: "tw_socks w1" "tc_socks_up c1" "\<not> tc_client_closed c1" using b(3,4) True by (auto simp: tc_mid_def tc_open_def)
    let ?w = "w1\<lparr>tw_receiving := True\<rparr>"
    have "tc_mid wnd ?w c1" "tc_open ?w c1" "tc_drain ?w c1" using b(3,4,5) True so by (simp_all add: tc_mid_def tc_open_def tc_drain_def)
    then have "tc_inv wnd (?w\<lparr>tw_c := c1\<rparr>)" by (rule tc_open_inv) (use True in auto)
    moreover have "tc_apply w (tc_pre xs (client_socks_recv_initiate c1)) = Some (w1\<lparr>tw_c := c1, tw_receiving := True\<rparr>)"
      using b(2) True so nr
      by (simp add: client_socks_recv_initiate_def tc_apply_def tc_issues_append tc_issues_client CLIENT_SOCKS_RECV_BUF_SIZE_def)
    moreover have "w1\<lparr>tw_c := c1, tw_receiving := True\<rparr> = ?w\<lparr>tw_c := c1\<rparr>" by (rule tc_world.equality) simp_all
    ultimately show ?thesis using receive [OF b(1) pend True] same by metis
  qed
qed

lemma step_recv_done:
  assumes i: "tc_inv wnd w" and e: "tc_enabled wnd (EV_recv_done d writes out_ok ok) w"
  shows "\<exists>w'. tc_step wnd (EV_recv_done d writes out_ok ok) w = Some w' \<and> tc_inv wnd w'"
proof -
  let ?c = "tw_c w" and ?w = "w\<lparr>tw_from_socks := tw_from_socks w @ d, tw_receiving := False\<rparr>"
  have r: "tw_socks w" "tc_socks_up ?c" "tc_socks_recv_buf_used ?c = - 1"
    using i e unfolding tc_inv_def tc_to_client_def Let_def by auto
  note l = tc_inv_life [OF i]
  note mid = tc_inv_mid [OF i]
  show ?thesis
  proof (cases "tc_client_closed ?c")
    case True
    then have "client_socks_recv_handler_done writes out_ok ok ?c d = Some (?c, [])"
      using r l e by (simp add: client_socks_recv_handler_done_def)
    moreover have "tc_inv wnd (?w\<lparr>tw_c := ?c\<rparr>)"
      using i True r l(2) unfolding tc_inv_def tc_life_def tc_to_socks_def tc_to_client_def Let_def by simp
    ultimately show ?thesis by (simp add: tc_apply_def)
  next
    case False
    let ?c1 = "?c\<lparr>tc_socks_recv_buf := d, tc_socks_recv_buf_used := int (length d), tc_socks_recv_buf_sent := 0, tc_socks_recv_waiting := False\<rparr>"
    have dr: "tc_drain w ?c" using tc_inv_drain [OF i False r(2)] .
    have s: "\<not> tc_socks_closed ?c" using l(2) r(1) by simp
    have m: "tc_mid wnd ?w ?c1" using mid l r unfolding tc_mid_def by simp
    have o: "tc_open ?w ?c1" using tc_inv_open [OF i False r(2)] by (simp add: tc_open_def)
    have f: "tc_flush ?w ?c1" using dr r e by (simp add: tc_drain_def tc_flush_def)
    from m o f show ?thesis
      by (cases rule: after_send_out [of wnd ?w ?c1 writes out_ok ok])
        (use e False s r in \<open>auto simp: client_socks_recv_handler_done_def\<close>)
  qed
qed

lemma step_sent:
  assumes i: "tc_inv wnd w" and e: "tc_enabled wnd (EV_sent writes out_ok ok n) w"
  shows "\<exists>w'. tc_step wnd (EV_sent writes out_ok ok n) w = Some w' \<and> tc_inv wnd w'"
proof -
  let ?c = "tw_c w" and ?w = "w\<lparr>tw_acked := tw_acked w + n\<rparr>"
  let ?c1 = "?c\<lparr>tc_dead := 0, tc_socks_recv_tcp_pending := tc_socks_recv_tcp_pending ?c - n\<rparr>"
  note l = tc_inv_life [OF i]
  have o: "\<not> tc_client_closed ?c" "tc_socks_up ?c" "\<not> tc_aborted ?c" "\<not> tw_freed w" "tw_pcb w" using e l by auto
  have dr: "tc_drain w ?c" using tc_inv_drain [OF i o(1,2)] .
  have op: "tc_open w ?c" using tc_inv_open [OF i o(1,2)] .
  have mid: "tc_mid wnd ?w ?c1" using tc_inv_mid [OF i o(4)] o unfolding tc_mid_def by auto
  have n: "0 < n" "n \<le> tc_socks_recv_tcp_pending ?c" using e dr by (simp_all add: tc_drain_def)
  show ?thesis
  proof (cases "tc_socks_recv_buf_used ?c > 0")
    case True
    let ?c2 = "?c1\<lparr>tc_socks_recv_waiting := False\<rparr>"
    have f: "tc_flush ?w ?c2" using dr True n by (simp add: tc_drain_def tc_flush_def)
    have m: "tc_mid wnd ?w ?c2" using mid unfolding tc_mid_def by auto
    have op2: "tc_open ?w ?c2" using op by (simp add: tc_open_def)
    have w: "tc_socks_recv_waiting ?c" "tc_socks_recv_buf_sent ?c < tc_socks_recv_buf_used ?c" using dr True by (simp_all add: tc_drain_def)
    from m op2 f show ?thesis
      by (cases rule: after_send_out [of wnd ?w ?c2 writes out_ok ok])
        (use True o n w in \<open>auto simp: client_sent_func_def Let_def tc_apply_finish\<close>)
  next
    case False
    then have u: "tc_socks_recv_buf_used ?c = - 1" using dr unfolding tc_drain_def by (auto split: if_splits)
    show ?thesis
    proof (cases "tc_socks_closed ?c \<and> tc_socks_recv_tcp_pending ?c = n")
      case True
      then show ?thesis using free_client_step [OF mid, of ok] o n u
        by (simp add: client_sent_func_def Let_def tc_apply_finish)
    next
      case F: False
      have "tc_inv wnd (?w\<lparr>tw_c := ?c1\<rparr>)"
      proof (rule tc_open_inv [OF mid])
        show "tc_open ?w ?c1" using op by (simp add: tc_open_def)
        show "tc_drain ?w ?c1" using dr n u by (simp add: tc_drain_def)
        show "tw_receiving ?w" if "\<not> tc_socks_closed ?c1"
          using i that o u unfolding tc_inv_def tc_to_client_def Let_def by simp
      qed (use F n in simp)
      moreover have "client_sent_func writes out_ok ok ?c n = Some (?c1, [], dead_result ?c1)"
        using F o n u by (auto simp: client_sent_func_def Let_def)
      ultimately show ?thesis by (simp add: tc_apply_def)
    qed
  qed
qed

lemma tc_step_inv:
  assumes "tc_inv wnd w" "tc_enabled wnd e w"
  shows "\<exists>w'. tc_step wnd e w = Some w' \<and> tc_inv wnd w'"
proof (cases e)
  case (EV_recv p)
  then show ?thesis using step_recv(1) assms by blast
next
  case (EV_recv_close ok)
  then show ?thesis using step_recv_close assms by blast
next
  case (EV_err ok)
  then show ?thesis using step_err assms by blast
next
  case (EV_sent ws out_ok ok n)
  then show ?thesis using step_sent assms by blast
next
  case (EV_socks ev ok)
  then show ?thesis using step_socks assms by blast
next
  case (EV_send_done n ok)
  then show ?thesis using step_send_done assms by blast
next
  case (EV_recv_done d ws out_ok ok)
  then show ?thesis using step_recv_done assms by blast
qed

lemma tc_reach_inv: "tc_reach wnd (tc_accepted (client_new l r)) w \<Longrightarrow> 0 \<le> wnd \<Longrightarrow> tc_inv wnd w"
proof (induction rule: tc_reach.induct)
  case tc_start
  then show ?case by (rule tc_accepted_inv)
next
  case (tc_next w e w')
  then show ?case using tc_step_inv by fastforce
qed

section \<open>Properties\<close>

text \<open>Claim C5: in every state that the events of lwIP and of the SOCKS connection can lead to, every enabled event is
  handled: no assertion of the handlers fails, no call is made on a control block, SOCKS client or client that was
  already freed, and no second send or receive is started. The control block lives until the device side is closed and the SOCKS client
  until the SOCKS side is closed; the client is freed exactly when both sides are, it is listed and counted exactly until then, and after that no event reaches it.\<close>

theorem tcp_client_lifetime:
  assumes "tc_reach wnd (tc_accepted (client_new l r)) w" "0 \<le> wnd"
  shows "(\<forall>e. tc_enabled wnd e w \<longrightarrow> tc_step wnd e w \<noteq> None) \<and>
    (tw_pcb w \<longleftrightarrow> \<not> tc_client_closed (tw_c w)) \<and> (tw_socks w \<longleftrightarrow> \<not> tc_socks_closed (tw_c w)) \<and>
    (tw_freed w \<longleftrightarrow> tc_client_closed (tw_c w) \<and> tc_socks_closed (tw_c w)) \<and> (tw_registered w \<longleftrightarrow> \<not> tw_freed w) \<and> (tw_freed w \<longrightarrow> (\<forall>e. \<not> tc_enabled wnd e w))"
proof -
  have i: "tc_inv wnd w" using tc_reach_inv assms by blast
  have "\<not> tc_enabled wnd e w" if "tw_freed w" for e
  proof -
    have s: "\<not> tw_socks w" using that tc_inv_life [OF i] by blast
    then have "\<not> tw_receiving w" using i unfolding tc_inv_def tc_to_client_def Let_def by blast
    moreover have "tc_send_ok (tw_socks w \<and> tc_socks_up (tw_c w)) (tc_buf (tw_c w)) (tw_sending w)"
      using i unfolding tc_inv_def tc_to_socks_def Let_def by blast
    then have "tw_sending w = None" using s by (cases "tw_sending w") simp_all
    ultimately show ?thesis using that s tc_inv_life [OF i] by (cases e) simp_all
  qed
  moreover have "\<forall>e. tc_enabled wnd e w \<longrightarrow> tc_step wnd e w \<noteq> None" using tc_step_inv [OF i] by fastforce
  ultimately show ?thesis using tc_inv_life [OF i] by blast
qed

text \<open>Claim C6: in every reachable state, what came from the device is what SOCKS took
  followed by the buffer, which never exceeds the window, so that \<^verbatim>\<open>client_recv_func\<close> never refuses data that
  lwIP may deliver; the window is opened by exactly what SOCKS took. In the other direction nothing is duplicated or reordered: what was queued at
  lwIP is a prefix of what came from SOCKS, and as long as the device side is open nothing is lost, the rest is what is still in the
  receive buffer. Once the device side is closed, what SOCKS still sends is discarded.\<close>

theorem tcp_relay_no_loss:
  assumes "tc_reach wnd (tc_accepted (client_new l r)) w" "0 \<le> wnd"
  shows "tw_from_client w = tw_to_socks w @ tc_buf (tw_c w) \<and> int (length (tc_buf (tw_c w))) \<le> wnd \<and>
    (\<not> tc_client_closed (tw_c w) \<longrightarrow> tw_recved w = int (length (tw_to_socks w))) \<and>
    (\<forall>p. tc_enabled wnd (EV_recv p) w \<longrightarrow> (\<exists>c xs. client_recv_func wnd True (tw_c w) (Some p) = Some (c, xs, ERR_OK))) \<and>
    prefix (tw_to_client w) (tw_from_socks w) \<and>
    (\<not> tc_client_closed (tw_c w) \<and> tc_socks_up (tw_c w) \<longrightarrow> tw_from_socks w = tw_to_client w @
       (if tc_socks_recv_buf_used (tw_c w) = - 1 then []
        else drop (nat (tc_socks_recv_buf_sent (tw_c w))) (tc_socks_recv_buf (tw_c w))))"
proof -
  have i: "tc_inv wnd w" using tc_reach_inv assms by blast
  have "tw_from_client w = tw_to_socks w @ tc_buf (tw_c w) \<and> int (length (tc_buf (tw_c w))) \<le> wnd \<and>
    (\<not> tc_client_closed (tw_c w) \<longrightarrow> tw_recved w = int (length (tw_to_socks w)))"
    using i unfolding tc_inv_def tc_to_socks_def Let_def by blast
  moreover have "prefix (tw_to_client w) (tw_from_socks w)" using i unfolding tc_inv_def tc_to_client_def Let_def by blast
  moreover have "tw_from_socks w = tw_to_client w @ (if tc_socks_recv_buf_used (tw_c w) = - 1 then []
        else drop (nat (tc_socks_recv_buf_sent (tw_c w))) (tc_socks_recv_buf (tw_c w)))"
    if "\<not> tc_client_closed (tw_c w)" "tc_socks_up (tw_c w)" using tc_inv_drain [OF i that] by (simp add: tc_drain_def split: if_splits)
  ultimately show ?thesis using step_recv(2) [OF i] by blast
qed

text \<open>Claim C7: a half-closed client drains and ends. When the device closed first, data is being sent to SOCKS whenever SOCKS is up, every completed send
  shortens the buffer and the last one frees the client with all data delivered. When SOCKS closed first, queued data is still unacknowledged and
  the sent callback is set; once everything that came from SOCKS is queued, its last acknowledgement frees the client.\<close>

theorem tcp_half_closed_drains:
  assumes "tc_reach wnd (tc_accepted (client_new l r)) w" "0 \<le> wnd"
  shows "(tc_client_closed (tw_c w) \<and> \<not> tc_socks_closed (tw_c w) \<and> tc_socks_up (tw_c w) \<longrightarrow> tw_sending w \<noteq> None \<and>
      (\<forall>n ok. tc_enabled wnd (EV_send_done n ok) w \<longrightarrow> (\<exists>w'. tc_step wnd (EV_send_done n ok) w = Some w' \<and>
         tc_buf (tw_c w') = drop n (tc_buf (tw_c w)) \<and>
         (tw_freed w' \<longleftrightarrow> n = length (tc_buf (tw_c w))) \<and> (tw_freed w' \<longrightarrow> tw_to_socks w' = tw_from_client w)))) \<and>
    (tc_socks_closed (tw_c w) \<and> \<not> tc_client_closed (tw_c w) \<longrightarrow> tw_cb_sent w \<and> tw_acked w < int (length (tw_to_client w)) \<and>
      (\<forall>ws out_ok ok n. 0 < n \<and> tw_acked w + n = int (length (tw_to_client w)) \<and> tc_socks_recv_buf_used (tw_c w) = - 1 \<longrightarrow>
         (\<exists>w'. tc_step wnd (EV_sent ws out_ok ok n) w = Some w' \<and> tw_freed w' \<and> tw_to_client w' = tw_from_socks w)))"
proof -
  let ?c = "tw_c w"
  have i: "tc_inv wnd w" using tc_reach_inv assms by blast
  note l = tc_inv_life [OF i]
  have ts: "tc_send_ok (tw_socks w \<and> tc_socks_up ?c) (tc_buf ?c) (tw_sending w)" "tw_from_client w = tw_to_socks w @ tc_buf ?c"
      "tc_client_closed ?c \<and> \<not> tc_socks_closed ?c \<longrightarrow> tc_buf ?c \<noteq> []"
    using i unfolding tc_inv_def tc_to_socks_def Let_def by blast+
  have "tw_sending w \<noteq> None \<and> (\<forall>n ok. tc_enabled wnd (EV_send_done n ok) w \<longrightarrow> (\<exists>w'. tc_step wnd (EV_send_done n ok) w = Some w' \<and>
         tc_buf (tw_c w') = drop n (tc_buf ?c) \<and> (tw_freed w' \<longleftrightarrow> n = length (tc_buf ?c)) \<and> (tw_freed w' \<longrightarrow> tw_to_socks w' = tw_from_client w)))"
    if h: "tc_client_closed ?c" "\<not> tc_socks_closed ?c" "tc_socks_up ?c"
  proof -
    have s: "tw_socks w" "\<not> tw_freed w" "tw_registered w" using l h by simp_all
    then obtain bs where bs: "tw_sending w = Some bs" using ts h by (cases "tw_sending w") simp_all
    then obtain zs where zs: "tc_buf ?c = bs @ zs" using ts(1) by (auto simp: prefix_def)
    have "\<exists>w'. tc_step wnd (EV_send_done n ok) w = Some w' \<and> tc_buf (tw_c w') = drop n (tc_buf ?c) \<and>
         (tw_freed w' \<longleftrightarrow> n = length (tc_buf ?c)) \<and> (tw_freed w' \<longrightarrow> tw_to_socks w' = tw_from_client w)" if n: "0 < n" "n \<le> length bs" for n ok
      using bs zs h s n ts(2)
      by (cases "n = length (tc_buf ?c)")
        (auto simp: tc_apply_def client_socks_send_handler_done_def Let_def client_free_socks.simps client_dealloc_eq)
    then show ?thesis using bs by auto
  qed
  moreover have "tw_cb_sent w \<and> tw_acked w < int (length (tw_to_client w)) \<and>
      (\<forall>ws out_ok ok n. 0 < n \<and> tw_acked w + n = int (length (tw_to_client w)) \<and> tc_socks_recv_buf_used ?c = - 1 \<longrightarrow>
         (\<exists>w'. tc_step wnd (EV_sent ws out_ok ok n) w = Some w' \<and> tw_freed w' \<and> tw_to_client w' = tw_from_socks w))"
    if h: "tc_socks_closed ?c" "\<not> tc_client_closed ?c"
  proof -
    have u: "tc_socks_up ?c" "0 < tc_socks_recv_tcp_pending ?c" using i h unfolding tc_inv_def tc_to_client_def Let_def by blast+
    have dr: "tc_drain w ?c" using tc_inv_drain [OF i h(2) u(1)] .
    have s: "tw_pcb w" "\<not> tw_freed w" "\<not> tc_aborted ?c" "tw_cb_sent w" "tw_registered w" using l h u by simp_all
    have "\<exists>w'. tc_step wnd (EV_sent ws out_ok ok n) w = Some w' \<and> tw_freed w' \<and> tw_to_client w' = tw_from_socks w"
      if n: "0 < n" "tw_acked w + n = int (length (tw_to_client w))" "tc_socks_recv_buf_used ?c = - 1" for ws out_ok ok n
    proof -
      have p: "tc_socks_recv_tcp_pending ?c = n" "tw_from_socks w = tw_to_client w" using dr n unfolding tc_drain_def by simp_all
      show ?thesis using n p h u s
        by (simp add: client_sent_func_def Let_def tc_apply_finish client_free_client.simps client_abort_pcb_def handle_freed_eq tc_apply_def)
    qed
    then show ?thesis using dr u s unfolding tc_drain_def by auto
  qed
  ultimately show ?thesis by blast
qed

section \<open>Examples\<close>

fun tc_run :: "int \<Rightarrow> tc_event list \<Rightarrow> tc_world \<Rightarrow> tc_world option" where
  "tc_run wnd [] w = Some w"
| "tc_run wnd (e # es) w = (if tc_enabled wnd e w then Option.bind (tc_step wnd e w) (tc_run wnd es) else None)"

lemma tc_run_reach: "tc_run wnd es w = Some w' \<Longrightarrow> tc_reach wnd w0 w \<Longrightarrow> tc_reach wnd w0 w'"
proof (induction es arbitrary: w)
  case (Cons e es)
  then obtain w1 where "tc_enabled wnd e w" "tc_step wnd e w = Some w1" "tc_run wnd es w1 = Some w'"
    by (auto split: if_splits simp: Option.bind_eq_Some_conv)
  then show ?case using Cons tc_next by blast
qed simp

definition tc_ex :: tc_world where "tc_ex = tc_accepted (client_new BADDR_TYPE_NONE BADDR_TYPE_NONE)"

lemmas tc_eval = tc_ex_def tc_accepted_def tc_fresh_def client_new_def client_recv_func_def client_socks_handler_def client_send_to_socks_def
  client_socks_recv_initiate_def client_free_client.simps handle_freed_eq client_socks_recv_handler_done_def client_socks_recv_send_out_def
  client_free_socks.simps CLIENT_SOCKS_RECV_BUF_SIZE_def tc_apply_def dead_result_def

text \<open>Data from the device, SOCKS up, data from SOCKS of which lwIP takes one byte, and SOCKS closed.\<close>

definition tc_ex_events :: "tc_event list" where
  "tc_ex_events = [EV_recv [1, 2], EV_socks BSOCKSCLIENT_EVENT_UP True, EV_recv_done [7, 8] [(1, ERR_OK), (0, ERR_OK)] True True,
     EV_socks BSOCKSCLIENT_EVENT_ERROR_CLOSED True]"

lemma tc_ex_run:
  "\<exists>w. tc_run 10 tc_ex_events tc_ex = Some w \<and> tc_socks_closed (tw_c w) \<and> \<not> tc_client_closed (tw_c w) \<and> tw_from_socks w = [7, 8] \<and>
    tw_to_client w = [7] \<and> tw_from_client w = [1, 2]"
  by (simp add: tc_ex_events_def tc_eval Let_def)

lemma tc_ex_reach: "tc_run 10 es tc_ex = Some w \<Longrightarrow> tc_reach 10 (tc_accepted (client_new BADDR_TYPE_NONE BADDR_TYPE_NONE)) w"
  using tc_run_reach [OF _ tc_start] by (simp add: tc_ex_def)

theorem tcp_client_lifetime_witness:
  "\<exists>w. tc_run 10 tc_ex_events tc_ex = Some w \<and> \<not> tw_socks w \<and> tw_pcb w \<and> \<not> tw_freed w \<and> tc_step 10 (EV_err True) w \<noteq> None"
proof -
  obtain w where w: "tc_run 10 tc_ex_events tc_ex = Some w" "tc_socks_closed (tw_c w)" "\<not> tc_client_closed (tw_c w)"
    using tc_ex_run by blast
  have r: "tw_cb_err w" using tc_inv_life(1,5) [OF tc_reach_inv [OF tc_ex_reach [OF w(1)]]] w by simp
  show ?thesis using tcp_client_lifetime [OF tc_ex_reach [OF w(1)]] w r
    by (intro exI [of _ w]) (auto simp del: tc_step.simps)
qed

theorem tcp_relay_no_loss_witness:
  "\<exists>w. tc_run 10 tc_ex_events tc_ex = Some w \<and> [1, 2] = tw_to_socks w @ tc_buf (tw_c w) \<and> prefix (tw_to_client w) [7, 8]"
proof -
  obtain w where w: "tc_run 10 tc_ex_events tc_ex = Some w" "tw_from_socks w = [7, 8]" "tw_from_client w = [1, 2]"
    using tc_ex_run by blast
  show ?thesis using tcp_relay_no_loss [OF tc_ex_reach [OF w(1)]] w by (intro exI [of _ w]) simp
qed

theorem tcp_half_closed_drains_witness:
  "(\<exists>w. tc_run 10 tc_ex_events tc_ex = Some w \<and> tw_cb_sent w \<and> tw_acked w < int (length (tw_to_client w))) \<and>
   (\<exists>w. tc_run 10 [EV_recv [1, 2], EV_socks BSOCKSCLIENT_EVENT_UP True, EV_recv_close True] tc_ex = Some w \<and>
      (\<exists>w'. tc_step 10 (EV_send_done 2 True) w = Some w' \<and> tw_freed w' \<and> tw_to_socks w' = [1, 2]))"
proof -
  obtain w where w: "tc_run 10 tc_ex_events tc_ex = Some w" "tc_socks_closed (tw_c w)" "\<not> tc_client_closed (tw_c w)"
    using tc_ex_run by blast
  obtain v where v: "tc_run 10 [EV_recv [1, 2], EV_socks BSOCKSCLIENT_EVENT_UP True, EV_recv_close True] tc_ex = Some v"
      "tc_client_closed (tw_c v)" "\<not> tc_socks_closed (tw_c v)" "tc_socks_up (tw_c v)" "tc_enabled 10 (EV_send_done 2 True) v"
      "tc_buf (tw_c v) = [1, 2]" "tw_from_client v = [1, 2]"
    by (simp add: tc_eval Let_def)
  have ten: "(0 :: int) \<le> 10" by simp
  have "\<exists>w'. tc_step 10 (EV_send_done 2 True) v = Some w' \<and> (tw_freed w' \<longleftrightarrow> 2 = length (tc_buf (tw_c v))) \<and>
      (tw_freed w' \<longrightarrow> tw_to_socks w' = tw_from_client v)"
    using tcp_half_closed_drains [OF tc_ex_reach [OF v(1)] ten, THEN conjunct1] v(2,3,4,5) by blast
  then have "\<exists>w'. tc_step 10 (EV_send_done 2 True) v = Some w' \<and> tw_freed w' \<and> tw_to_socks w' = [1, 2]" using v(6,7) by auto
  moreover have "tw_cb_sent w \<and> tw_acked w < int (length (tw_to_client w))"
    using tcp_half_closed_drains [OF tc_ex_reach [OF w(1)]] w(2,3) by (simp del: tc_step.simps tc_enabled.simps)
  ultimately show ?thesis using v(1) w(1) by blast
qed

end
