(* ===== verification/Udp_Packets.thy ===== *)
theory Udp_Packets
  imports Net_Addr
begin

text \<open>
  UDP between the TUN device and the relay: the headers and checksums of \<^verbatim>\<open>misc/ipv4_proto.h\<close>,
  \<^verbatim>\<open>misc/ipv6_proto.h\<close> and \<^verbatim>\<open>misc/udp_proto.h\<close>, and the two functions of \<^verbatim>\<open>tun2socks/tun2socks.c\<close> that take UDP
  packets from the device (\<open>process_device_udp_packet\<close>) and build packets for it
  (\<open>udpgw_client_handler_received\<close>).

  A packet is the list of its bytes, a pointer into it is an offset. What the code reads, it reads with \<open>mem_read\<close>, which fails outside of the
  packet: the result \<open>None\<close> of a parsing function is such a read. A packed C header is a record; the
  \<^verbatim>\<open>memcpy\<close> between a header and the packet is \<open>ipv4_of_bytes\<close> and \<open>ipv4_bytes\<close> (and so on). Multi-byte fields are
  in network byte order and are kept as their bytes. The checksum accumulator is the 32-bit word of the code.
\<close>

section \<open>Reading a packet\<close>

definition mem_read :: "byte list \<Rightarrow> nat \<Rightarrow> nat \<Rightarrow> byte list option" where
  "mem_read pkt off n = (if off + n \<le> length pkt then Some (take n (drop off pkt)) else None)"

section \<open>IPv4 (misc/ipv4\_proto.h)\<close>

definition IPV4_PROTOCOL_UDP :: byte where "IPV4_PROTOCOL_UDP = 17"

record ipv4_header =
  ip4_version4_ihl4 :: byte
  ip4_ds :: byte
  ip4_total_length :: "byte list"
  ip4_identification :: "byte list"
  ip4_flags3_fragmentoffset13 :: "byte list"
  ip4_ttl :: byte
  ip4_protocol :: byte
  ip4_checksum :: "byte list"
  ip4_source_address :: "byte list"
  ip4_destination_address :: "byte list"

text \<open>\<^verbatim>\<open>sizeof\<close> is 20.\<close>

definition ipv4_of_bytes :: "byte list \<Rightarrow> ipv4_header" where
  "ipv4_of_bytes d = \<lparr>ip4_version4_ihl4 = d ! 0, ip4_ds = d ! 1, ip4_total_length = take 2 (drop 2 d),
     ip4_identification = take 2 (drop 4 d), ip4_flags3_fragmentoffset13 = take 2 (drop 6 d),
     ip4_ttl = d ! 8, ip4_protocol = d ! 9, ip4_checksum = take 2 (drop 10 d),
     ip4_source_address = take 4 (drop 12 d), ip4_destination_address = take 4 (drop 16 d)\<rparr>"

definition ipv4_bytes :: "ipv4_header \<Rightarrow> byte list" where
  "ipv4_bytes h = [ip4_version4_ihl4 h, ip4_ds h] @ ip4_total_length h @ ip4_identification h @
     ip4_flags3_fragmentoffset13 h @ [ip4_ttl h, ip4_protocol h] @ ip4_checksum h @
     ip4_source_address h @ ip4_destination_address h"

definition IPV4_GET_VERSION :: "ipv4_header \<Rightarrow> byte" where
  "IPV4_GET_VERSION h = drop_bit 4 (ip4_version4_ihl4 h AND 0xF0)"

definition IPV4_GET_IHL :: "ipv4_header \<Rightarrow> byte" where
  "IPV4_GET_IHL h = drop_bit 0 (ip4_version4_ihl4 h AND 0x0F)"

definition IPV4_MAKE_VERSION_IHL :: "nat \<Rightarrow> byte" where
  "IPV4_MAKE_VERSION_IHL sz = of_nat (sz div 4) + push_bit 4 4"

text \<open>The loops that add the 16-bit words of an array; a last odd byte is not read.\<close>

fun be16_sum :: "u32 \<Rightarrow> byte list \<Rightarrow> u32" where
  "be16_sum t (a # b # bs) = be16_sum (t + ucast (badvpn_read_be16 [a, b])) bs"
| "be16_sum t _ = t"

text \<open>The loop that folds the carries back in.\<close>

lemma fold_value: "unat ((t AND 0xFFFF) + drop_bit 16 t) = unat (t :: u32) mod 65536 + unat t div 65536"
proof -
  have l: "unat t < 4294967296" using unsigned_less [of t] by simp
  have "(0xFFFF :: u32) = mask 16" by (simp add: mask_eq_exp_minus_1)
  then have "t AND 0xFFFF = take_bit 16 t" by (simp only: take_bit_eq_mask)
  then have a: "unat (t AND 0xFFFF) = unat t mod 65536" by (simp only: unsigned_take_bit_eq) (simp add: take_bit_eq_mod)
  have b: "unat (drop_bit 16 t) = unat t div 65536"
    by (simp only: unat_drop_bit_eq) (simp add: drop_bit_eq_div)
  have "unat t div 65536 < 65536" using l by (simp add: less_mult_imp_div_less)
  then show ?thesis by (subst unat_plus_if') (simp add: a b)
qed

lemma drop_bit_16_iff: "drop_bit 16 (t :: u32) = 0 \<longleftrightarrow> unat t < 65536"
proof -
  have "drop_bit 16 t = 0 \<longleftrightarrow> unat (drop_bit 16 t) = 0" by (simp add: unat_eq_zero)
  also have "unat (drop_bit 16 t) = unat t div 65536"
    by (simp only: unat_drop_bit_eq) (simp add: drop_bit_eq_div)
  finally show ?thesis by (simp add: div_eq_0_iff)
qed

function ones_fold :: "u32 \<Rightarrow> u32" where
  "ones_fold t = (if drop_bit 16 t \<noteq> 0 then ones_fold ((t AND 0xFFFF) + drop_bit 16 t) else t)"
  by auto
termination
proof (relation "measure unat")
  fix t :: u32 assume "drop_bit 16 t \<noteq> 0"
  then have "65536 \<le> unat t" by (simp add: drop_bit_16_iff)
  moreover have "unat t mod 65536 + 65536 * (unat t div 65536) = unat t" by simp
  moreover have "0 < unat t div 65536" using \<open>65536 \<le> unat t\<close> by (simp add: div_greater_zero_iff)
  ultimately have "unat t mod 65536 + unat t div 65536 < unat t" by linarith
  then show "((t AND 0xFFFF) + drop_bit 16 t, t) \<in> measure unat" by (simp add: fold_value)
qed simp

declare ones_fold.simps [simp del]

definition ipv4_checksum :: "ipv4_header \<Rightarrow> byte list \<Rightarrow> byte list" where
  "ipv4_checksum header extra =
     (let t = ones_fold (be16_sum (be16_sum 0 (ipv4_bytes header)) extra) in hton16 (ucast (NOT t)))"

text \<open>\<^verbatim>\<open>data_len\<close> bytes at the offset \<^verbatim>\<open>data\<close> of the packet: the header, the offset of the payload and its length, or nothing when the function
  returns 0.\<close>

definition ipv4_check :: "byte list \<Rightarrow> nat \<Rightarrow> nat \<Rightarrow> (ipv4_header \<times> nat \<times> nat) option option" where
  "ipv4_check pkt data data_len =
     (if data_len < 20 then Some None
      else case mem_read pkt data 20 of
        None \<Rightarrow> None
      | Some hd_bytes \<Rightarrow>
        (let h = ipv4_of_bytes hd_bytes;
             header_len = 4 * unat (IPV4_GET_IHL h);
             total_length = unat (ntoh16 (ip4_total_length h)) in
         if IPV4_GET_VERSION h \<noteq> 4 then Some None
         else if header_len < 20 then Some None
         else if header_len > data_len then Some None
         else if total_length < header_len then Some None
         else if total_length > data_len then Some None
         else case mem_read pkt (data + 20) (header_len - 20) of
           None \<Rightarrow> None
         | Some extra \<Rightarrow>
           if ip4_checksum h \<noteq> ipv4_checksum (h\<lparr>ip4_checksum := hton16 0\<rparr>) extra then Some None
           else Some (Some (h, data + header_len, total_length - header_len))))"

section \<open>IPv6 (misc/ipv6\_proto.h)\<close>

definition IPV6_NEXT_UDP :: byte where "IPV6_NEXT_UDP = 17"

record ipv6_header =
  ip6_version4_tc4 :: byte
  ip6_tc4_fl4 :: byte
  ip6_fl :: "byte list"
  ip6_payload_length :: "byte list"
  ip6_next_header :: byte
  ip6_hop_limit :: byte
  ip6_source_address :: "byte list"
  ip6_destination_address :: "byte list"

text \<open>\<^verbatim>\<open>sizeof\<close> is 40.\<close>

definition ipv6_of_bytes :: "byte list \<Rightarrow> ipv6_header" where
  "ipv6_of_bytes d = \<lparr>ip6_version4_tc4 = d ! 0, ip6_tc4_fl4 = d ! 1, ip6_fl = take 2 (drop 2 d),
     ip6_payload_length = take 2 (drop 4 d), ip6_next_header = d ! 6, ip6_hop_limit = d ! 7,
     ip6_source_address = take 16 (drop 8 d), ip6_destination_address = take 16 (drop 24 d)\<rparr>"

definition ipv6_bytes :: "ipv6_header \<Rightarrow> byte list" where
  "ipv6_bytes h = [ip6_version4_tc4 h, ip6_tc4_fl4 h] @ ip6_fl h @ ip6_payload_length h @
     [ip6_next_header h, ip6_hop_limit h] @ ip6_source_address h @ ip6_destination_address h"

definition ipv6_check :: "byte list \<Rightarrow> nat \<Rightarrow> nat \<Rightarrow> (ipv6_header \<times> nat \<times> nat) option option" where
  "ipv6_check pkt data data_len =
     (if data_len < 40 then Some None
      else case mem_read pkt data 40 of
        None \<Rightarrow> None
      | Some hd_bytes \<Rightarrow>
        (let h = ipv6_of_bytes hd_bytes; payload_length = unat (ntoh16 (ip6_payload_length h)) in
         if drop_bit 4 (ip6_version4_tc4 h) \<noteq> 6 then Some None
         else if payload_length > data_len - 40 then Some None
         else Some (Some (h, data + 40, payload_length))))"

section \<open>UDP (misc/udp\_proto.h)\<close>

record udp_header =
  udp_source_port :: "byte list"
  udp_dest_port :: "byte list"
  udp_length :: "byte list"
  udp_cksum :: "byte list"

text \<open>\<^verbatim>\<open>sizeof\<close> is 8.\<close>

definition udp_of_bytes :: "byte list \<Rightarrow> udp_header" where
  "udp_of_bytes d = \<lparr>udp_source_port = take 2 d, udp_dest_port = take 2 (drop 2 d),
     udp_length = take 2 (drop 4 d), udp_cksum = take 2 (drop 6 d)\<rparr>"

definition udp_bytes :: "udp_header \<Rightarrow> byte list" where
  "udp_bytes h = udp_source_port h @ udp_dest_port h @ udp_length h @ udp_cksum h"

definition udp_checksum_summer :: "byte list \<Rightarrow> u32" where
  "udp_checksum_summer data = be16_sum 0 data"

text \<open>The payload and its last byte, which is padded when the length is odd.\<close>

definition udp_payload_sum :: "byte list \<Rightarrow> u32" where
  "udp_payload_sum payload =
     (if even (length payload) then udp_checksum_summer payload
      else udp_checksum_summer (take (length payload - 1) payload) +
        udp_checksum_summer (hton16 (push_bit 8 (ucast (payload ! (length payload - 1))))))"

text \<open>The end of both functions. The accumulator has 32 bits when it is complemented and compared with 0.\<close>

definition udp_checksum_finish :: "u32 \<Rightarrow> byte list" where
  "udp_checksum_finish t =
     (let t1 = NOT (ones_fold t); t2 = (if t1 = 0 then 0xFFFF else t1) in hton16 (ucast t2))"

definition udp_checksum :: "udp_header \<Rightarrow> byte list \<Rightarrow> byte list \<Rightarrow> byte list \<Rightarrow> byte list" where
  "udp_checksum header payload source_addr dest_addr =
     udp_checksum_finish (udp_checksum_summer source_addr + udp_checksum_summer dest_addr +
       udp_checksum_summer (hton16 (ucast IPV4_PROTOCOL_UDP)) +
       udp_checksum_summer (hton16 (of_nat (8 + length payload))) +
       udp_checksum_summer (udp_bytes header) + udp_payload_sum payload)"

definition udp_ip6_checksum :: "udp_header \<Rightarrow> byte list \<Rightarrow> byte list \<Rightarrow> byte list \<Rightarrow> byte list" where
  "udp_ip6_checksum header payload source_addr dest_addr =
     udp_checksum_finish (udp_checksum_summer source_addr + udp_checksum_summer dest_addr +
       udp_checksum_summer (hton32 (of_nat (8 + length payload))) +
       udp_checksum_summer (hton32 (ucast IPV6_NEXT_UDP)) +
       udp_checksum_summer (udp_bytes header) + udp_payload_sum payload)"

definition udp_check :: "byte list \<Rightarrow> nat \<Rightarrow> nat \<Rightarrow> (udp_header \<times> nat \<times> nat) option option" where
  "udp_check pkt data data_len =
     (if data_len < 8 then Some None
      else case mem_read pkt data 8 of
        None \<Rightarrow> None
      | Some hd_bytes \<Rightarrow>
        (let h = udp_of_bytes hd_bytes; rest_len = data_len - 8; len = unat (ntoh16 (udp_length h)) in
         if len < 8 then Some None
         else if len > 8 + rest_len then Some None
         else Some (Some (h, data + 8, len - 8))))"

section \<open>Packets from and to the device (tun2socks/tun2socks.c)\<close>

text \<open>The options these functions read: whether a relay, a DNS gateway and an IPv6 address of the interface
  are configured.\<close>

record udp_options =
  opt_udpgw_remote_server_addr :: bool
  opt_dnsgw :: bool
  opt_netif_ip6addr :: bool

text \<open>A DNS query: \<^verbatim>\<open>qr\<close> is bit 7 of the third byte of \<^verbatim>\<open>DnsHeader\<close>, \<^verbatim>\<open>rcode\<close> the low half of the fourth.\<close>

definition dns_header_query :: "byte list \<Rightarrow> bool" where
  "dns_header_query h \<longleftrightarrow> \<not> bit (h ! 2) 7 \<and> h ! 3 AND 0x0F = 0 \<and> take 2 (drop 6 h) = [0, 0] \<and> take 2 (drop 8 h) = [0, 0]"

definition dns_query :: "byte list \<Rightarrow> bool" where
  "dns_query data \<longleftrightarrow> \<not> length data < 12 \<and> dns_header_query (take 12 data)"

definition dns_check :: "byte list \<Rightarrow> nat \<Rightarrow> nat \<Rightarrow> bool option" where
  "dns_check pkt data data_len = (if data_len < 12 then Some False else map_option dns_header_query (mem_read pkt data 12))"

text \<open>The two protocols: addresses, whether it is a DNS query, and offset and length of the payload. The checksum reads all of the payload.\<close>

definition process_ipv4_udp :: "udp_options \<Rightarrow> byte list \<Rightarrow> (BAddr \<times> BAddr \<times> bool \<times> nat \<times> nat) option option" where
  "process_ipv4_udp options pkt =
     (if length pkt < 20 then Some None
      else case mem_read pkt 9 1 of
        None \<Rightarrow> None
      | Some proto \<Rightarrow>
        if proto \<noteq> [IPV4_PROTOCOL_UDP] then Some None
        else case ipv4_check pkt 0 (length pkt) of
          None \<Rightarrow> None
        | Some None \<Rightarrow> Some None
        | Some (Some (iph, data1, data_len1)) \<Rightarrow>
          (case udp_check pkt data1 data_len1 of
             None \<Rightarrow> None
           | Some None \<Rightarrow> Some None
           | Some (Some (udph, data2, data_len2)) \<Rightarrow>
             (case mem_read pkt data2 data_len2 of
                None \<Rightarrow> None
              | Some payload \<Rightarrow>
                if udp_cksum udph \<noteq> udp_checksum (udph\<lparr>udp_cksum := [0, 0]\<rparr>) payload (ip4_source_address iph) (ip4_destination_address iph)
                then Some None
                else map_option (\<lambda>is_dns. Some (BAddr_InitIPv4 (ip4_source_address iph) (udp_source_port udph),
                    BAddr_InitIPv4 (ip4_destination_address iph) (udp_dest_port udph), is_dns, data2, data_len2))
                  (if opt_dnsgw options \<and> udp_dest_port udph = hton16 53 then dns_check pkt data2 data_len2 else Some False))))"

definition process_ipv6_udp :: "udp_options \<Rightarrow> byte list \<Rightarrow> (BAddr \<times> BAddr \<times> bool \<times> nat \<times> nat) option option" where
  "process_ipv6_udp options pkt =
     (if \<not> opt_netif_ip6addr options then Some None
      else if length pkt < 40 then Some None
      else case mem_read pkt 6 1 of
        None \<Rightarrow> None
      | Some proto \<Rightarrow>
        if proto \<noteq> [IPV6_NEXT_UDP] then Some None
        else case ipv6_check pkt 0 (length pkt) of
          None \<Rightarrow> None
        | Some None \<Rightarrow> Some None
        | Some (Some (iph, data1, data_len1)) \<Rightarrow>
          (case udp_check pkt data1 data_len1 of
             None \<Rightarrow> None
           | Some None \<Rightarrow> Some None
           | Some (Some (udph, data2, data_len2)) \<Rightarrow>
             (case mem_read pkt data2 data_len2 of
                None \<Rightarrow> None
              | Some payload \<Rightarrow>
                if udp_cksum udph \<noteq> udp_ip6_checksum (udph\<lparr>udp_cksum := [0, 0]\<rparr>) payload (ip6_source_address iph) (ip6_destination_address iph)
                then Some None
                else Some (Some (BAddr_InitIPv6 (ip6_source_address iph) (udp_source_port udph),
                    BAddr_InitIPv6 (ip6_destination_address iph) (udp_dest_port udph), False, data2, data_len2)))))"

text \<open>The arguments of \<^verbatim>\<open>SocksUdpGwClient_SubmitPacket\<close> with the bytes of the payload, or \<open>Some None\<close> when the function returns 0 and the
  packet goes to lwIP; \<open>None\<close> when a byte outside of the packet is read.\<close>

definition process_device_udp_packet ::
    "udp_options \<Rightarrow> int \<Rightarrow> byte list \<Rightarrow> (BAddr \<times> BAddr \<times> bool \<times> byte list) option option" where
  "process_device_udp_packet options udp_mtu pkt =
     (if \<not> opt_udpgw_remote_server_addr options then Some None
      else case (if length pkt > 0 then map_option (\<lambda>b. drop_bit 4 (hd b)) (mem_read pkt 0 1) else Some 0) of
        None \<Rightarrow> None
      | Some ip_version \<Rightarrow>
        (case (if ip_version = 4 then process_ipv4_udp options pkt
               else if ip_version = 6 then process_ipv6_udp options pkt else Some None) of
           None \<Rightarrow> None
         | Some None \<Rightarrow> Some None
         | Some (Some (local_addr, remote_addr, is_dns, data, data_len)) \<Rightarrow>
             if int data_len > udp_mtu then Some None
             else map_option (\<lambda>payload. Some (local_addr, remote_addr, is_dns, payload)) (mem_read pkt data data_len)))"

text \<open>The union of \<^verbatim>\<open>BAddr\<close>: the bytes behind the type. \<open>junk\<close> are the indeterminate bytes that the shorter
  variants leave.\<close>

definition baddr_union :: "byte list \<Rightarrow> BAddr \<Rightarrow> byte list" where
  "baddr_union junk a = (case a of
     BADDR_TYPE_NONE \<Rightarrow> junk | BADDR_TYPE_IPV4 ip port \<Rightarrow> ip @ port @ junk | BADDR_TYPE_IPV6 ip port \<Rightarrow> ip @ port)"

text \<open>The packet given to \<^verbatim>\<open>BTap_Send\<close>, or nothing when the data is dropped.\<close>

definition udpgw_client_handler_received ::
    "byte list \<Rightarrow> udp_options \<Rightarrow> int \<Rightarrow> BAddr \<Rightarrow> BAddr \<Rightarrow> byte list \<Rightarrow> byte list option" where
  "udpgw_client_handler_received junk options device_mtu local_addr remote_addr data =
     (case local_addr of
        BADDR_TYPE_IPV4 local_ip local_port \<Rightarrow>
          (let data_len = int (length data); r = baddr_union junk remote_addr in
           if data_len > 65535 - (20 + 8) \<or> data_len > device_mtu - (20 + 8) then None
           else
             (let iph0 = \<lparr>ip4_version4_ihl4 = IPV4_MAKE_VERSION_IHL 20, ip4_ds = 0,
                    ip4_total_length = hton16 (of_int (20 + 8 + data_len)), ip4_identification = hton16 0,
                    ip4_flags3_fragmentoffset13 = hton16 0, ip4_ttl = 64, ip4_protocol = IPV4_PROTOCOL_UDP,
                    ip4_checksum = hton16 0, ip4_source_address = take 4 r, ip4_destination_address = local_ip\<rparr>;
                  iph = iph0\<lparr>ip4_checksum := ipv4_checksum iph0 []\<rparr>;
                  udph0 = \<lparr>udp_source_port = take 2 (drop 4 r), udp_dest_port = local_port,
                    udp_length = hton16 (of_int (8 + data_len)), udp_cksum = hton16 0\<rparr>;
                  udph = udph0\<lparr>udp_cksum := udp_checksum udph0 data (ip4_source_address iph) (ip4_destination_address iph)\<rparr>
              in Some (ipv4_bytes iph @ udp_bytes udph @ data)))
      | BADDR_TYPE_IPV6 local_ip local_port \<Rightarrow>
          (let data_len = int (length data); r = baddr_union junk remote_addr in
           if \<not> opt_netif_ip6addr options then None
           else if data_len > 65535 - 8 \<or> data_len > device_mtu - (40 + 8) then None
           else
             (let iph = \<lparr>ip6_version4_tc4 = push_bit 4 6, ip6_tc4_fl4 = 0, ip6_fl = hton16 0,
                    ip6_payload_length = hton16 (of_int (8 + data_len)), ip6_next_header = IPV6_NEXT_UDP, ip6_hop_limit = 64,
                    ip6_source_address = take 16 r, ip6_destination_address = local_ip\<rparr>;
                  udph0 = \<lparr>udp_source_port = take 2 (drop 16 r), udp_dest_port = local_port,
                    udp_length = hton16 (of_int (8 + data_len)), udp_cksum = hton16 0\<rparr>;
                  udph = udph0\<lparr>udp_cksum := udp_ip6_checksum udph0 data (ip6_source_address iph) (ip6_destination_address iph)\<rparr>
              in Some (ipv6_bytes iph @ udp_bytes udph @ data)))
      | BADDR_TYPE_NONE \<Rightarrow> Some [])"

section \<open>Headers and their bytes\<close>

definition ip4_sized :: "ipv4_header \<Rightarrow> bool" where
  "ip4_sized h \<longleftrightarrow> length (ip4_total_length h) = 2 \<and> length (ip4_identification h) = 2 \<and>
     length (ip4_flags3_fragmentoffset13 h) = 2 \<and> length (ip4_checksum h) = 2 \<and>
     length (ip4_source_address h) = 4 \<and> length (ip4_destination_address h) = 4"

definition ip6_sized :: "ipv6_header \<Rightarrow> bool" where
  "ip6_sized h \<longleftrightarrow> length (ip6_fl h) = 2 \<and> length (ip6_payload_length h) = 2 \<and>
     length (ip6_source_address h) = 16 \<and> length (ip6_destination_address h) = 16"

definition udp_sized :: "udp_header \<Rightarrow> bool" where
  "udp_sized h \<longleftrightarrow> length (udp_source_port h) = 2 \<and> length (udp_dest_port h) = 2 \<and>
     length (udp_length h) = 2 \<and> length (udp_cksum h) = 2"

lemma ipv4_bytes_inverse: "ip4_sized h \<Longrightarrow> ipv4_of_bytes (ipv4_bytes h @ r) = h"
  by (simp add: ip4_sized_def ipv4_of_bytes_def ipv4_bytes_def nth_append drop_Cons' take_Cons' nth_Cons')

lemma ipv6_bytes_inverse: "ip6_sized h \<Longrightarrow> ipv6_of_bytes (ipv6_bytes h @ r) = h"
  by (simp add: ip6_sized_def ipv6_of_bytes_def ipv6_bytes_def nth_append drop_Cons' take_Cons' nth_Cons')

lemma udp_bytes_inverse: "udp_sized h \<Longrightarrow> udp_of_bytes (udp_bytes h @ r) = h"
  by (simp add: udp_sized_def udp_of_bytes_def udp_bytes_def)

lemma length_header_bytes [simp]:
  "ip4_sized h4 \<Longrightarrow> length (ipv4_bytes h4) = 20" "ip6_sized h6 \<Longrightarrow> length (ipv6_bytes h6) = 40"
  "udp_sized hu \<Longrightarrow> length (udp_bytes hu) = 8"
  by (simp_all add: ip4_sized_def ipv4_bytes_def ip6_sized_def ipv6_bytes_def udp_sized_def udp_bytes_def)

lemma length_checksums [simp]:
  "length (ipv4_checksum h e) = 2" "length (udp_checksum u p s d) = 2" "length (udp_ip6_checksum u p s d) = 2"
  by (simp_all add: ipv4_checksum_def udp_checksum_def udp_ip6_checksum_def udp_checksum_finish_def Let_def)

lemma unat_of_int_u16: "0 \<le> x \<Longrightarrow> x < 65536 \<Longrightarrow> unat (of_int x :: u16) = nat x"
  by (simp add: unsigned_of_int take_bit_int_eq_self)

section \<open>Packets built for the device parse back\<close>

text \<open>Reading what stands between two other parts of a packet.\<close>

lemma mem_read_mid: "off = length xs \<Longrightarrow> n = length ys \<Longrightarrow> mem_read (xs @ ys @ zs) off n = Some ys"
  by (simp add: mem_read_def)

lemma udp_check_built:
  assumes "udp_sized h" "udp_length h = hton16 (of_int (8 + int (length data)))" "length data < 65528"
  shows "udp_check (xs @ udp_bytes h @ data) (length xs) (8 + length data) = Some (Some (h, length xs + 8, length data))"
proof -
  have "unat (of_int (8 + int (length data)) :: u16) = 8 + length data"
    using assms(3) by (subst unat_of_int_u16) auto
  then show ?thesis using assms(1,2) udp_bytes_inverse [OF assms(1), of "[]"]
    by (simp add: udp_check_def mem_read_mid Let_def)
qed

lemma ipv4_check_built:
  assumes "ip4_sized h" "ip4_version4_ihl4 h = IPV4_MAKE_VERSION_IHL 20"
    "ip4_total_length h = hton16 (of_int (20 + int (length rest)))" "length rest < 65516"
    "ip4_checksum h = ipv4_checksum (h\<lparr>ip4_checksum := hton16 0\<rparr>) []"
  shows "ipv4_check (ipv4_bytes h @ rest) 0 (20 + length rest) = Some (Some (h, 20, length rest))"
proof -
  have t: "unat (of_int (20 + int (length rest)) :: u16) = 20 + length rest"
    using assms(4) by (subst unat_of_int_u16) auto
  have v: "IPV4_GET_VERSION h = 4" "unat (IPV4_GET_IHL h) = 5"
    using assms(2) by (simp_all add: IPV4_GET_VERSION_def IPV4_GET_IHL_def IPV4_MAKE_VERSION_IHL_def)
  have "mem_read (ipv4_bytes h @ rest) 0 20 = Some (ipv4_bytes h)" using mem_read_mid [of 0 "[]" 20 "ipv4_bytes h" rest] assms(1) by simp
  moreover have "mem_read (ipv4_bytes h @ rest) 20 0 = Some []" using assms(1) by (simp add: mem_read_def)
  ultimately show ?thesis using assms(1,3) t v assms(5) ipv4_bytes_inverse [OF assms(1), of "[]"] by (simp add: ipv4_check_def Let_def)
qed

lemma ipv6_check_built:
  assumes "ip6_sized h" "ip6_version4_tc4 h = push_bit 4 6"
    "ip6_payload_length h = hton16 (of_int (int (length rest)))" "length rest < 65536"
  shows "ipv6_check (ipv6_bytes h @ rest) 0 (40 + length rest) = Some (Some (h, 40, length rest))"
proof -
  have t: "unat (of_int (int (length rest)) :: u16) = length rest"
    using assms(4) by (subst unat_of_int_u16) auto
  have "drop_bit 4 (ip6_version4_tc4 h) = 6" unfolding assms(2) by simp
  moreover have "mem_read (ipv6_bytes h @ rest) 0 40 = Some (ipv6_bytes h)" using mem_read_mid [of 0 "[]" 40 "ipv6_bytes h" rest] assms(1) by simp
  ultimately show ?thesis using assms(1,3) t ipv6_bytes_inverse [OF assms(1), of "[]"] by (simp add: ipv6_check_def Let_def)
qed

lemma header_fields:
  "d ! 9 = ip4_protocol (ipv4_of_bytes d)" "d ! 0 = ip4_version4_ihl4 (ipv4_of_bytes d)"
  "d ! 6 = ip6_next_header (ipv6_of_bytes d)" "d ! 0 = ip6_version4_tc4 (ipv6_of_bytes d)"
  by (simp_all add: ipv4_of_bytes_def ipv6_of_bytes_def)

lemma mem_read_byte: "i < length d \<Longrightarrow> mem_read d i 1 = Some [d ! i]"
  by (simp add: mem_read_def take_Suc_conv_app_nth hd_drop_conv_nth take_Suc)

lemma dns_check_query: "dns_check (xs @ data) (length xs) (length data) = Some (dns_query data)"
  by (simp add: dns_check_def dns_query_def mem_read_def)

lemma process_ipv4:
  assumes h: "ip4_sized iph" "ip4_version4_ihl4 iph = IPV4_MAKE_VERSION_IHL 20" "ip4_protocol iph = IPV4_PROTOCOL_UDP"
      "ip4_total_length iph = hton16 (of_int (20 + 8 + int (length data)))"
      "ip4_checksum iph = ipv4_checksum (iph\<lparr>ip4_checksum := hton16 0\<rparr>) []"
    and u: "udp_sized udph" "udp_length udph = hton16 (of_int (8 + int (length data)))" "length data < 65508"
      "udp_cksum udph = udp_checksum (udph\<lparr>udp_cksum := [0, 0]\<rparr>) data (ip4_source_address iph) (ip4_destination_address iph)"
    and opt: "opt_udpgw_remote_server_addr options" "int (length data) \<le> udp_mtu"
  shows "process_device_udp_packet options udp_mtu (ipv4_bytes iph @ udp_bytes udph @ data) =
    Some (Some (BADDR_TYPE_IPV4 (ip4_source_address iph) (udp_source_port udph),
      BADDR_TYPE_IPV4 (ip4_destination_address iph) (udp_dest_port udph),
      opt_dnsgw options \<and> udp_dest_port udph = hton16 53 \<and> dns_query data, data))"
proof -
  let ?d = "ipv4_bytes iph @ udp_bytes udph @ data"
  have l: "length ?d = 28 + length data" using h(1) u(1) by simp
  have "length (udp_bytes udph @ data) < 65516" "ip4_total_length iph = hton16 (of_int (20 + int (length (udp_bytes udph @ data))))"
    using u h(4) by (simp_all add: algebra_simps)
  from ipv4_check_built [OF h(1,2) this(2,1) h(5)]
  have c: "ipv4_check ?d 0 (28 + length data) = Some (Some (iph, 20, 8 + length data))" using u(1) by simp
  have uc: "udp_check ?d 20 (8 + length data) = Some (Some (udph, 28, length data))"
    using udp_check_built [OF u(1,2), of "ipv4_bytes iph"] u(3) h(1) by simp
  have d: "?d ! 9 = IPV4_PROTOCOL_UDP" "drop_bit 4 (?d ! 0) = 4"
    using h(2,3) by (simp_all only: header_fields(1,2) ipv4_bytes_inverse [OF h(1)]) (simp add: IPV4_MAKE_VERSION_IHL_def)
  have b: "mem_read ?d 9 1 = Some [IPV4_PROTOCOL_UDP]" "mem_read ?d 0 1 = Some [?d ! 0]"
    using mem_read_byte [of 9 ?d, unfolded l] mem_read_byte [of 0 ?d, unfolded l] d(1) by simp_all
  have p: "mem_read ?d 28 (length data) = Some data"
    using mem_read_mid [of 28 "ipv4_bytes iph @ udp_bytes udph" "length data" data "[]"] h(1) u(1) by simp
  have dn: "dns_check ?d 28 (length data) = Some (dns_query data)"
    using dns_check_query [of "ipv4_bytes iph @ udp_bytes udph" data] h(1) u(1) by simp
  have "process_ipv4_udp options ?d = Some (Some (BADDR_TYPE_IPV4 (ip4_source_address iph) (udp_source_port udph),
      BADDR_TYPE_IPV4 (ip4_destination_address iph) (udp_dest_port udph),
      opt_dnsgw options \<and> udp_dest_port udph = hton16 53 \<and> dns_query data, 28, length data))"
    unfolding process_ipv4_udp_def l using b(1) c uc p dn u(4)
    by (auto simp: BAddr_InitIPv4_def BAddr_MakeIPv4_def)
  then show ?thesis
    unfolding process_device_udp_packet_def l using b(2) d(2) p opt by simp
qed

lemma process_ipv6:
  assumes h: "ip6_sized iph" "ip6_version4_tc4 iph = push_bit 4 6" "ip6_next_header iph = IPV6_NEXT_UDP"
      "ip6_payload_length iph = hton16 (of_int (8 + int (length data)))"
    and u: "udp_sized udph" "udp_length udph = hton16 (of_int (8 + int (length data)))" "length data < 65528"
      "udp_cksum udph = udp_ip6_checksum (udph\<lparr>udp_cksum := [0, 0]\<rparr>) data (ip6_source_address iph) (ip6_destination_address iph)"
    and opt: "opt_udpgw_remote_server_addr options" "opt_netif_ip6addr options" "int (length data) \<le> udp_mtu"
  shows "process_device_udp_packet options udp_mtu (ipv6_bytes iph @ udp_bytes udph @ data) =
    Some (Some (BADDR_TYPE_IPV6 (ip6_source_address iph) (udp_source_port udph),
      BADDR_TYPE_IPV6 (ip6_destination_address iph) (udp_dest_port udph), False, data))"
proof -
  let ?d = "ipv6_bytes iph @ udp_bytes udph @ data"
  have l: "length ?d = 48 + length data" using h(1) u(1) by simp
  have "length (udp_bytes udph @ data) < 65536" "ip6_payload_length iph = hton16 (of_int (int (length (udp_bytes udph @ data))))"
    using u h(4) by (simp_all add: algebra_simps)
  from ipv6_check_built [OF h(1,2) this(2,1)]
  have c: "ipv6_check ?d 0 (48 + length data) = Some (Some (iph, 40, 8 + length data))" using u(1) by simp
  have uc: "udp_check ?d 40 (8 + length data) = Some (Some (udph, 48, length data))"
    using udp_check_built [OF u(1,2,3), of "ipv6_bytes iph"] h(1) by simp
  have d: "?d ! 6 = IPV6_NEXT_UDP" "drop_bit 4 (?d ! 0) = 6"
    using h(2,3) by (simp_all only: header_fields(3,4) ipv6_bytes_inverse [OF h(1)]) simp
  have b: "mem_read ?d 6 1 = Some [IPV6_NEXT_UDP]" "mem_read ?d 0 1 = Some [?d ! 0]"
    using mem_read_byte [of 6 ?d, unfolded l] mem_read_byte [of 0 ?d, unfolded l] d(1) by simp_all
  have p: "mem_read ?d 48 (length data) = Some data"
    using mem_read_mid [of 48 "ipv6_bytes iph @ udp_bytes udph" "length data" data "[]"] h(1) u(1) by simp
  have s: "length (ip6_source_address iph) = 16" "length (ip6_destination_address iph) = 16" using h(1) by (simp_all add: ip6_sized_def)
  have "process_ipv6_udp options ?d = Some (Some (BADDR_TYPE_IPV6 (ip6_source_address iph) (udp_source_port udph),
      BADDR_TYPE_IPV6 (ip6_destination_address iph) (udp_dest_port udph), False, 48, length data))"
    unfolding process_ipv6_udp_def l using b(1) c uc p u(4) opt(2) s
    by (simp add: BAddr_InitIPv6_def BAddr_MakeIPv6_def)
  then show ?thesis
    unfolding process_device_udp_packet_def l using b(2) d(2) p opt by simp
qed

lemma hton16_zero: "hton16 0 = [0, 0]"
  by (simp add: hton16_def le16_def)

lemma roundtrip_ipv4:
  assumes built: "udpgw_client_handler_received junk options device_mtu local_addr remote_addr data = Some pkt"
    and ok: "baddr_ok local_addr" "baddr_ok remote_addr" "baddr_type local_addr = baddr_type remote_addr"
    and lo: "local_addr = BADDR_TYPE_IPV4 lip lport"
    and opt: "opt_udpgw_remote_server_addr options" "int (length data) \<le> udp_mtu"
  shows "int (length pkt) \<le> device_mtu \<and>
    (\<exists>is_dns. process_device_udp_packet options udp_mtu pkt = Some (Some (remote_addr, local_addr, is_dns, data)) \<and>
      (is_dns \<longrightarrow> opt_dnsgw options \<and> BAddr_GetPort local_addr = hton16 53 \<and> dns_query data))"
proof -
  obtain rip rport where r: "remote_addr = BADDR_TYPE_IPV4 rip rport"
    using lo ok(2,3) by (cases remote_addr) (auto simp: baddr_type_def baddr_ok_def)
  have len: "length lip = 4" "length lport = 2" "length rip = 4" "length rport = 2"
    using ok r lo by (auto simp: baddr_ok_def baddr_sized_def)
  have b: "length data < 65508" "int (length data) \<le> device_mtu - 28"
    using built lo by (auto simp: udpgw_client_handler_received_def Let_def split: if_splits)
  define iph0 where "iph0 = \<lparr>ip4_version4_ihl4 = IPV4_MAKE_VERSION_IHL 20, ip4_ds = 0,
      ip4_total_length = hton16 (of_int (20 + 8 + int (length data))), ip4_identification = hton16 0,
      ip4_flags3_fragmentoffset13 = hton16 0, ip4_ttl = 64, ip4_protocol = IPV4_PROTOCOL_UDP,
      ip4_checksum = hton16 0, ip4_source_address = rip, ip4_destination_address = lip\<rparr>"
  define udph0 where "udph0 = \<lparr>udp_source_port = rport, udp_dest_port = lport,
      udp_length = hton16 (of_int (8 + int (length data))), udp_cksum = hton16 0\<rparr>"
  let ?iph = "iph0\<lparr>ip4_checksum := ipv4_checksum iph0 []\<rparr>"
  let ?udph = "udph0\<lparr>udp_cksum := udp_checksum udph0 data rip lip\<rparr>"
  have pkt: "pkt = ipv4_bytes ?iph @ udp_bytes ?udph @ data"
    using built b lo len unfolding r
    by (simp add: udpgw_client_handler_received_def Let_def baddr_union_def iph0_def udph0_def)
  have s: "ip4_sized ?iph" "udp_sized ?udph" using len by (simp_all add: ip4_sized_def udp_sized_def iph0_def udph0_def)
  have "process_device_udp_packet options udp_mtu pkt =
    Some (Some (BADDR_TYPE_IPV4 (ip4_source_address ?iph) (udp_source_port ?udph),
      BADDR_TYPE_IPV4 (ip4_destination_address ?iph) (udp_dest_port ?udph),
      opt_dnsgw options \<and> udp_dest_port ?udph = hton16 53 \<and> dns_query data, data))"
    unfolding pkt by (rule process_ipv4 [OF s(1) _ _ _ _ s(2) _ b(1) _ opt]) (simp_all add: iph0_def udph0_def hton16_zero)
  moreover have "int (length pkt) \<le> device_mtu" using b(2) s unfolding pkt by simp
  ultimately show ?thesis using lo r by (simp add: iph0_def udph0_def BAddr_GetPort_def)
qed

lemma roundtrip_ipv6:
  assumes built: "udpgw_client_handler_received junk options device_mtu local_addr remote_addr data = Some pkt"
    and ok: "baddr_ok local_addr" "baddr_ok remote_addr" "baddr_type local_addr = baddr_type remote_addr"
    and lo: "local_addr = BADDR_TYPE_IPV6 lip lport"
    and opt: "opt_udpgw_remote_server_addr options" "int (length data) \<le> udp_mtu"
  shows "int (length pkt) \<le> device_mtu \<and>
    (\<exists>is_dns. process_device_udp_packet options udp_mtu pkt = Some (Some (remote_addr, local_addr, is_dns, data)) \<and>
      (is_dns \<longrightarrow> opt_dnsgw options \<and> BAddr_GetPort local_addr = hton16 53 \<and> dns_query data))"
proof -
  obtain rip rport where r: "remote_addr = BADDR_TYPE_IPV6 rip rport"
    using lo ok(2,3) by (cases remote_addr) (auto simp: baddr_type_def baddr_ok_def)
  have len: "length lip = 16" "length lport = 2" "length rip = 16" "length rport = 2"
    using ok r lo by (auto simp: baddr_ok_def baddr_sized_def)
  have b: "length data < 65528" "int (length data) \<le> device_mtu - 48" "opt_netif_ip6addr options"
    using built lo by (auto simp: udpgw_client_handler_received_def Let_def split: if_splits)
  define iph where "iph = \<lparr>ip6_version4_tc4 = push_bit 4 6, ip6_tc4_fl4 = 0, ip6_fl = hton16 0,
      ip6_payload_length = hton16 (of_int (8 + int (length data))), ip6_next_header = IPV6_NEXT_UDP, ip6_hop_limit = 64,
      ip6_source_address = rip, ip6_destination_address = lip\<rparr>"
  define udph0 where "udph0 = \<lparr>udp_source_port = rport, udp_dest_port = lport,
      udp_length = hton16 (of_int (8 + int (length data))), udp_cksum = hton16 0\<rparr>"
  let ?udph = "udph0\<lparr>udp_cksum := udp_ip6_checksum udph0 data rip lip\<rparr>"
  have pkt: "pkt = ipv6_bytes iph @ udp_bytes ?udph @ data"
    using built b lo len unfolding r
    by (simp add: udpgw_client_handler_received_def Let_def baddr_union_def iph_def udph0_def)
  have s: "ip6_sized iph" "udp_sized ?udph" using len by (simp_all add: ip6_sized_def udp_sized_def iph_def udph0_def)
  have "process_device_udp_packet options udp_mtu pkt =
    Some (Some (BADDR_TYPE_IPV6 (ip6_source_address iph) (udp_source_port ?udph),
      BADDR_TYPE_IPV6 (ip6_destination_address iph) (udp_dest_port ?udph), False, data))"
    unfolding pkt by (rule process_ipv6 [OF s(1) _ _ _ s(2) _ b(1) _ opt(1) b(3) opt(2)]) (simp_all add: iph_def udph0_def hton16_zero)
  moreover have "int (length pkt) \<le> device_mtu" using b(2) s unfolding pkt by simp
  ultimately show ?thesis using lo r by (auto simp: iph_def udph0_def)
qed

text \<open>Claim C8. UDP round trip: a packet that \<^verbatim>\<open>udpgw_client_handler_received\<close> builds for the device, for an IPv4 or
  an IPv6 peer, fits the MTU of the device and is a well-formed UDP packet with correct lengths and checksums:
  read back by \<^verbatim>\<open>process_device_udp_packet\<close> it gives exactly the payload and the two addresses with their ports,
  from the peer to the local side. It counts as DNS only if it is a DNS query to port 53 and a gateway is set.\<close>

theorem udp_device_roundtrip:
  assumes built: "udpgw_client_handler_received junk options device_mtu local_addr remote_addr data = Some pkt"
    and ok: "baddr_ok local_addr" "baddr_ok remote_addr" "baddr_type local_addr = baddr_type remote_addr"
    and opt: "opt_udpgw_remote_server_addr options" "int (length data) \<le> udp_mtu"
  shows "int (length pkt) \<le> device_mtu \<and>
    (\<exists>is_dns. process_device_udp_packet options udp_mtu pkt = Some (Some (remote_addr, local_addr, is_dns, data)) \<and>
      (is_dns \<longrightarrow> opt_dnsgw options \<and> BAddr_GetPort local_addr = hton16 53 \<and> dns_query data))"
  using roundtrip_ipv4 [OF built ok _ opt] roundtrip_ipv6 [OF built ok _ opt] ok(1)
  by (cases local_addr) (simp_all add: baddr_ok_def)

theorem udp_device_roundtrip_witness:
  "\<exists>pkt is_dns. process_device_udp_packet \<lparr>opt_udpgw_remote_server_addr = True, opt_dnsgw = True, opt_netif_ip6addr = False\<rparr> 1472 pkt =
     Some (Some (BADDR_TYPE_IPV4 [8, 8, 8, 8] [0, 53], BADDR_TYPE_IPV4 [172, 19, 0, 1] [200, 1], is_dns, [1, 2, 3]))"
proof -
  let ?o = "\<lparr>opt_udpgw_remote_server_addr = True, opt_dnsgw = True, opt_netif_ip6addr = False\<rparr>"
  obtain pkt where "udpgw_client_handler_received [] ?o 1500 (BADDR_TYPE_IPV4 [172, 19, 0, 1] [200, 1])
      (BADDR_TYPE_IPV4 [8, 8, 8, 8] [0, 53]) [1, 2, 3] = Some pkt"
    by (simp add: udpgw_client_handler_received_def Let_def)
  from udp_device_roundtrip [OF this, of 1472] show ?thesis
    by (auto simp: baddr_ok_def baddr_sized_def baddr_type_def)
qed

section \<open>Checksums\<close>

text \<open>The reference: the sum of the big-endian 16-bit words of a byte sequence, an odd last byte padded with 0.
  A sequence that contains its own checksum passes the test of RFC 1071 when the sum is a multiple of 65535.\<close>

fun ones_sum :: "byte list \<Rightarrow> nat" where
  "ones_sum (a # b # bs) = 256 * unat a + unat b + ones_sum bs"
| "ones_sum [a] = 256 * unat a"
| "ones_sum [] = 0"

lemma ones_sum_append: "even (length xs) \<Longrightarrow> ones_sum (xs @ ys) = ones_sum xs + ones_sum ys"
  by (induction xs rule: ones_sum.induct) auto

lemma ones_sum_le: "ones_sum bs \<le> 32768 * length bs + 65535"
proof (induction bs rule: ones_sum.induct)
  case (1 a b bs)
  have "unat a < 256" "unat b < 256" using unsigned_less [of a] unsigned_less [of b] by simp_all
  with 1 show ?case by simp
next
  case (2 a)
  have "unat a < 256" using unsigned_less [of a] by simp
  then show ?case by simp
qed simp

lemma unat_ucast_u16: "unat (ucast (w :: u16) :: u32) = unat w"
proof -
  have "unat w < 65536" using unsigned_less [of w, where ?'a = nat] by simp
  then show ?thesis by (simp add: unsigned_ucast_eq take_bit_nat_eq_self_iff)
qed

lemma be16_sum_value:
  "even (length bs) \<Longrightarrow> unat t + ones_sum bs < 4294967296 \<Longrightarrow> unat (be16_sum t bs) = unat t + ones_sum bs"
proof (induction t bs rule: be16_sum.induct)
  case (1 t a b bs)
  have v: "unat (ucast (badvpn_read_be16 [a, b]) :: u32) = 256 * unat a + unat b"
    by (simp add: unat_ucast_u16 unat_read_be16)
  then have "unat (t + ucast (badvpn_read_be16 [a, b])) = unat t + (256 * unat a + unat b)"
    using 1(3) by (simp add: unat_plus_if' v)
  with 1 show ?case by simp
qed auto

lemma ones_fold_value: "unat (ones_fold t) < 65536 \<and> unat (ones_fold t) mod 65535 = unat t mod 65535"
proof (induction t rule: ones_fold.induct)
  case (1 t)
  show ?case
  proof (cases "drop_bit 16 t = 0")
    case True
    then have "ones_fold t = t" by (subst ones_fold.simps) simp
    then show ?thesis using True by (simp add: drop_bit_16_iff)
  next
    case False
    have "unat t = 65535 * (unat t div 65536) + (unat t mod 65536 + unat t div 65536)"
      using div_mult_mod_eq [of "unat t" 65536] by linarith
    then have "unat ((t AND 0xFFFF) + drop_bit 16 t) mod 65535 = unat t mod 65535"
      unfolding fold_value by (metis mod_mult_self4)
    moreover have "ones_fold t = ones_fold ((t AND 0xFFFF) + drop_bit 16 t)" using False by (subst ones_fold.simps) simp
    ultimately show ?thesis using 1 [OF False] by simp
  qed
qed

lemma ones_sum_hton16: "ones_sum (hton16 w) = unat w"
proof -
  obtain a b where ab: "hton16 w = [a, b]" by (simp add: hton16_def le16_def)
  have "w = ntoh16 [a, b]" using ntoh_hton(1) [of w] ab by simp
  then show ?thesis using unat_read_be16 [of a b] read_be16_ntoh16 [of "[a, b]"] by (simp add: ab)
qed

lemma ones_complement: "unat (t :: u32) < 65536 \<Longrightarrow> unat (ucast (NOT t) :: u16) = 65535 - unat t"
proof -
  assume l: "unat t < 65536"
  have "(ucast (NOT t) :: u16) = NOT (ucast t)" by (rule bit_word_eqI) (simp add: bit_simps)
  also have "\<dots> = - 1 - ucast t" by (simp add: not_eq_complement)
  finally have "unat (ucast (NOT t) :: u16) = unat (- 1 - ucast t :: u16)" by simp
  also have "\<dots> = unat (- 1 :: u16) - unat (ucast t :: u16)" by (rule unat_sub) (simp add: word_order.extremum)
  also have "unat (ucast t :: u16) = unat t" using l by (simp add: unsigned_ucast_eq take_bit_nat_eq_self_iff)
  also have "unat (- 1 :: u16) = 65535" by (simp add: unsigned_minus_1_eq_mask mask_eq_exp_minus_1)
  finally show ?thesis .
qed

text \<open>The complement of the folded sum completes the sum to a multiple of 65535.\<close>

lemma ones_finish: "(unat t + ones_sum (hton16 (ucast (NOT (ones_fold t))))) mod 65535 = 0"
proof -
  have f: "unat (ones_fold t) < 65536" "unat (ones_fold t) mod 65535 = unat t mod 65535" using ones_fold_value by simp_all
  have "(unat t + (65535 - unat (ones_fold t))) mod 65535 = (unat (ones_fold t) + (65535 - unat (ones_fold t))) mod 65535"
    using f(2) by (metis mod_add_left_eq)
  then show ?thesis using f(1) by (simp add: ones_sum_hton16 ones_complement)
qed

text \<open>The comparison with 0 happens on 32 bits, where the complement of a folded sum is never 0.\<close>

lemma udp_finish_eq: "udp_checksum_finish t = hton16 (ucast (NOT (ones_fold t)))"
proof -
  have "NOT (ones_fold t) \<noteq> 0"
  proof
    assume "NOT (ones_fold t) = 0"
    then have "NOT (NOT (ones_fold t)) = NOT 0" by (rule arg_cong)
    then have "ones_fold t = - 1" by simp
    then have "unat (ones_fold t) = 4294967295" by (simp add: unsigned_minus_1_eq_mask mask_eq_exp_minus_1)
    then show False using ones_fold_value [of t] by simp
  qed
  then show ?thesis by (simp add: udp_checksum_finish_def Let_def)
qed

lemma summer_value:
  assumes "even (length d)" "length d \<le> 65536"
  shows "unat (udp_checksum_summer d) = ones_sum d"
proof -
  have "ones_sum d < 4294967296" using ones_sum_le [of d] assms(2) by linarith
  then show ?thesis using be16_sum_value [OF assms(1), of 0] by (simp add: udp_checksum_summer_def)
qed

lemma hton16_pad: "hton16 (push_bit 8 (ucast (x :: byte))) = [x, 0]"
  by (auto simp: hton16_def le16_def bit_simps impossible_bit intro!: bit_word_eqI)

lemma payload_sum_value:
  assumes "length p \<le> 65527"
  shows "unat (udp_payload_sum p) = ones_sum p"
proof (cases "even (length p)")
  case True
  then show ?thesis using summer_value [of p] assms by (simp add: udp_payload_sum_def)
next
  case False
  then obtain q x where p: "p = q @ [x]" by (cases p rule: rev_cases) auto
  then have q: "even (length q)" "length q \<le> 65527" using False assms by auto
  have "ones_sum q + 256 * unat x < 4294967296"
    using ones_sum_le [of q] q(2) unsigned_less [of x, where ?'a = nat] by simp
  then have "unat (udp_checksum_summer q + udp_checksum_summer [x, 0]) = ones_sum q + 256 * unat x"
    using summer_value [of q] summer_value [of "[x, 0]"] q by (simp add: unat_plus_if')
  then show ?thesis using False p q(1) by (simp add: udp_payload_sum_def hton16_pad ones_sum_append)
qed

lemma unat_sum:
  "sum_list (map unat ts) < 4294967296 \<Longrightarrow> unat (sum_list (ts :: u32 list)) = sum_list (map unat ts)"
  by (induction ts) (auto simp: unat_plus_if')

text \<open>A checksum over a pseudo header, the header without checksum and the payload, put into the header.\<close>

lemma udp_checksum_completes:
  assumes even: "\<forall>d \<in> set ps. even (length d) \<and> length d \<le> 16" "length ps \<le> 5" and p: "length p \<le> 65527"
    and t: "t = sum_list (map udp_checksum_summer ps @ [udp_payload_sum p])"
  shows "(sum_list (map ones_sum ps) + ones_sum p + ones_sum (udp_checksum_finish t)) mod 65535 = 0"
proof -
  have v: "map unat (map udp_checksum_summer ps) = map ones_sum ps"
    using even(1) by (auto simp: summer_value)
  have "ones_sum d \<le> 589823" if "d \<in> set ps" for d using even(1) that ones_sum_le [of d] by fastforce
  then have "sum_list (map ones_sum ps) \<le> sum_list (map (\<lambda>_. 589823) ps)" by (intro sum_list_mono) auto
  also have "\<dots> \<le> 2949115" using even(2) by (simp add: sum_list_triv)
  finally have "sum_list (map ones_sum ps) + ones_sum p < 4294967296" using ones_sum_le [of p] p by linarith
  moreover have "sum_list (map unat (map udp_checksum_summer ps @ [udp_payload_sum p])) = sum_list (map ones_sum ps) + ones_sum p"
    unfolding map_append v by (simp add: payload_sum_value [OF p])
  ultimately have "unat t = sum_list (map ones_sum ps) + ones_sum p"
    unfolding t using unat_sum [of "map udp_checksum_summer ps @ [udp_payload_sum p]"] by simp
  then show ?thesis using ones_finish [of t] by (simp add: udp_finish_eq)
qed

lemma udp_bytes_with_checksum:
  "udp_sized h \<Longrightarrow> length c = 2 \<Longrightarrow> ones_sum (udp_bytes (h\<lparr>udp_cksum := c\<rparr>)) =
    ones_sum (udp_bytes (h\<lparr>udp_cksum := [0, 0]\<rparr>)) + ones_sum c"
  by (simp add: udp_bytes_def udp_sized_def ones_sum_append)

lemma ipv4_bytes_with_checksum:
  assumes "ip4_sized h" "length c = 2"
  shows "ones_sum (ipv4_bytes (h\<lparr>ip4_checksum := c\<rparr>)) = ones_sum (ipv4_bytes (h\<lparr>ip4_checksum := [0, 0]\<rparr>)) + ones_sum c"
proof -
  let ?a = "[ip4_version4_ihl4 h, ip4_ds h] @ ip4_total_length h @ ip4_identification h @
    ip4_flags3_fragmentoffset13 h @ [ip4_ttl h, ip4_protocol h]"
  let ?b = "ip4_source_address h @ ip4_destination_address h"
  have b: "ipv4_bytes (h\<lparr>ip4_checksum := x\<rparr>) = ?a @ x @ ?b" for x by (simp add: ipv4_bytes_def)
  have e: "even (length ?a)" using assms(1) by (simp add: ip4_sized_def)
  show ?thesis unfolding b ones_sum_append [OF e] using assms(2) by (simp add: ones_sum_append)
qed

lemma ipv4_checksum_completes:
  assumes "ip4_sized h" "even (length extra)" "length extra \<le> 40"
  shows "ones_sum (ipv4_bytes (h\<lparr>ip4_checksum := ipv4_checksum (h\<lparr>ip4_checksum := hton16 0\<rparr>) extra\<rparr>) @ extra) mod 65535 = 0"
proof -
  let ?h = "h\<lparr>ip4_checksum := [0, 0]\<rparr>"
  have s: "ip4_sized ?h" using assms(1) by (simp add: ip4_sized_def)
  then have l: "length (ipv4_bytes ?h) = 20" by simp
  have b: "ones_sum (ipv4_bytes ?h) \<le> 720895" "ones_sum extra \<le> 1376255"
    using ones_sum_le [of "ipv4_bytes ?h"] ones_sum_le [of extra] l assms(3) by simp_all
  let ?t = "be16_sum (be16_sum 0 (ipv4_bytes ?h)) extra"
  have t1: "unat (be16_sum 0 (ipv4_bytes ?h)) = ones_sum (ipv4_bytes ?h)"
    using be16_sum_value [of "ipv4_bytes ?h" 0] l b(1) by simp
  have "unat ?t = ones_sum (ipv4_bytes ?h) + ones_sum extra"
    using be16_sum_value [OF assms(2), of "be16_sum 0 (ipv4_bytes ?h)"] t1 b by simp
  then have "(ones_sum (ipv4_bytes ?h) + ones_sum extra + ones_sum (ipv4_checksum ?h extra)) mod 65535 = 0"
    using ones_finish [of ?t] by (simp add: ipv4_checksum_def Let_def)
  moreover have "even (length (ipv4_bytes (h\<lparr>ip4_checksum := ipv4_checksum ?h extra\<rparr>)))"
    using assms(1) by (subst length_header_bytes) (simp_all add: ip4_sized_def)
  ultimately show ?thesis
    using ipv4_bytes_with_checksum [OF assms(1), of "ipv4_checksum ?h extra"] by (simp add: hton16_zero ones_sum_append ac_simps)
qed

lemma udp4_checksum_completes:
  assumes "udp_sized u" "length payload \<le> 65527" "length src = 4" "length dst = 4"
  shows "ones_sum (src @ dst @ [0, 17] @ hton16 (of_nat (8 + length payload)) @
      udp_bytes (u\<lparr>udp_cksum := udp_checksum (u\<lparr>udp_cksum := [0, 0]\<rparr>) payload src dst\<rparr>) @ payload) mod 65535 = 0"
proof -
  let ?u = "u\<lparr>udp_cksum := [0, 0]\<rparr>" and ?l = "hton16 (of_nat (8 + length payload))"
  let ?c = "udp_checksum ?u payload src dst"
  have s: "udp_sized ?u" "udp_sized (u\<lparr>udp_cksum := ?c\<rparr>)" using assms(1) by (simp_all add: udp_sized_def)
  have p: "hton16 (ucast IPV4_PROTOCOL_UDP) = [0, 17]" by (simp add: hton16_def le16_def IPV4_PROTOCOL_UDP_def)
  have "(sum_list (map ones_sum [src, dst, [0, 17], ?l, udp_bytes ?u]) + ones_sum payload + ones_sum ?c) mod 65535 = 0"
    unfolding udp_checksum_def p
    by (rule udp_checksum_completes) (use assms s in \<open>auto simp: add.assoc\<close>)
  moreover have "even (length (udp_bytes (u\<lparr>udp_cksum := ?c\<rparr>)))" using s(2) by simp
  ultimately show ?thesis using udp_bytes_with_checksum [OF assms(1), of ?c] assms(3,4)
    by (simp add: ones_sum_append ac_simps)
qed

lemma udp6_checksum_completes:
  assumes "udp_sized u" "length payload \<le> 65527" "length src = 16" "length dst = 16"
  shows "ones_sum (src @ dst @ hton32 (of_nat (8 + length payload)) @ [0, 0, 0, 17] @
      udp_bytes (u\<lparr>udp_cksum := udp_ip6_checksum (u\<lparr>udp_cksum := [0, 0]\<rparr>) payload src dst\<rparr>) @ payload) mod 65535 = 0"
proof -
  let ?u = "u\<lparr>udp_cksum := [0, 0]\<rparr>" and ?l = "hton32 (of_nat (8 + length payload))"
  let ?c = "udp_ip6_checksum ?u payload src dst"
  have s: "udp_sized ?u" "udp_sized (u\<lparr>udp_cksum := ?c\<rparr>)" using assms(1) by (simp_all add: udp_sized_def)
  have p: "hton32 (ucast IPV6_NEXT_UDP) = [0, 0, 0, 17]" by (simp add: hton32_def le32_def IPV6_NEXT_UDP_def)
  have "(sum_list (map ones_sum [src, dst, ?l, [0, 0, 0, 17], udp_bytes ?u]) + ones_sum payload + ones_sum ?c) mod 65535 = 0"
    unfolding udp_ip6_checksum_def p
    by (rule udp_checksum_completes) (use assms s in \<open>auto simp: add.assoc\<close>)
  moreover have "even (length (udp_bytes (u\<lparr>udp_cksum := ?c\<rparr>)))" using s(2) by simp
  ultimately show ?thesis using udp_bytes_with_checksum [OF assms(1), of ?c] assms(3,4)
    by (simp add: ones_sum_append ac_simps)
qed

text \<open>Claim C22. The three checksum functions compute Internet checksums (RFC 1071): put into its header, the IPv4
  header checksum completes the one's complement sum of the header with its options, and the UDP checksums that
  of the IPv4 or IPv6 pseudo header, the UDP header and the payload, also for payloads of odd length, and the
  32-bit accumulator never overflows.\<close>

theorem internet_checksums_complete:
  assumes "ip4_sized h" "even (length extra)" "length extra \<le> 40"
    and "udp_sized u" "length payload \<le> 65527" "length src4 = 4" "length dst4 = 4" "length src6 = 16" "length dst6 = 16"
  shows "ones_sum (ipv4_bytes (h\<lparr>ip4_checksum := ipv4_checksum (h\<lparr>ip4_checksum := hton16 0\<rparr>) extra\<rparr>) @ extra) mod 65535 = 0 \<and>
    ones_sum (src4 @ dst4 @ [0, 17] @ hton16 (of_nat (8 + length payload)) @
      udp_bytes (u\<lparr>udp_cksum := udp_checksum (u\<lparr>udp_cksum := [0, 0]\<rparr>) payload src4 dst4\<rparr>) @ payload) mod 65535 = 0 \<and>
    ones_sum (src6 @ dst6 @ hton32 (of_nat (8 + length payload)) @ [0, 0, 0, 17] @
      udp_bytes (u\<lparr>udp_cksum := udp_ip6_checksum (u\<lparr>udp_cksum := [0, 0]\<rparr>) payload src6 dst6\<rparr>) @ payload) mod 65535 = 0"
  using ipv4_checksum_completes [OF assms(1-3)] udp4_checksum_completes [OF assms(4-7)]
    udp6_checksum_completes [OF assms(4,5,8,9)] by blast

definition udp_ex :: udp_header where
  "udp_ex = \<lparr>udp_source_port = hton16 40000, udp_dest_port = hton16 53, udp_length = hton16 10, udp_cksum = [0, 0]\<rparr>"

theorem internet_checksums_complete_witness:
  "ones_sum ([10, 0, 0, 1] @ [8, 8, 8, 8] @ [0, 17] @ hton16 (of_nat 9) @
      udp_bytes (udp_ex\<lparr>udp_cksum := udp_checksum (udp_ex\<lparr>udp_cksum := [0, 0]\<rparr>) [1] [10, 0, 0, 1] [8, 8, 8, 8]\<rparr>) @ [1]) mod 65535 = 0"
  using internet_checksums_complete [of "ipv4_of_bytes (replicate 20 0)" "[]" udp_ex "[1]" "[10, 0, 0, 1]" "[8, 8, 8, 8]"
      "replicate 16 0" "replicate 16 0"]
  by (simp add: ip4_sized_def ipv4_of_bytes_def udp_sized_def udp_ex_def)

definition udp_ex_options :: udp_options where
  "udp_ex_options = \<lparr>opt_udpgw_remote_server_addr = True, opt_dnsgw = True, opt_netif_ip6addr = False\<rparr>"

text \<open>The packet with this UDP header, two bytes of payload and the given UDP checksum.\<close>

definition udp_ex_packet :: "byte list \<Rightarrow> byte list" where
  "udp_ex_packet c =
     (let iph = \<lparr>ip4_version4_ihl4 = 0x45, ip4_ds = 0, ip4_total_length = hton16 30, ip4_identification = [0, 0],
            ip4_flags3_fragmentoffset13 = [0, 0], ip4_ttl = 64, ip4_protocol = IPV4_PROTOCOL_UDP, ip4_checksum = [0, 0],
            ip4_source_address = [10, 0, 0, 1], ip4_destination_address = [8, 8, 8, 8]\<rparr>
      in ipv4_bytes (iph\<lparr>ip4_checksum := ipv4_checksum iph []\<rparr>) @ udp_bytes (udp_ex\<lparr>udp_cksum := c\<rparr>) @ [0x49, 0x54])"

text \<open>RFC 768 sends a computed UDP checksum of 0 as 0xFFFF, because 0 means that there is no checksum. The
  code tests for 0 after complementing the 32-bit accumulator, which is then never 0: the replacement never
  happens, a packet to the device can carry the checksum 0, and the packet of a conforming host whose checksum was
  replaced is not taken from the device.\<close>

lemma udp_checksum_zero_not_replaced:
  "(\<forall>t. udp_checksum_finish t = hton16 (ucast (NOT (ones_fold t)))) \<and>
   udp_checksum udp_ex [0x49, 0x54] [10, 0, 0, 1] [8, 8, 8, 8] = [0, 0] \<and>
   process_device_udp_packet udp_ex_options 1472 (udp_ex_packet [0, 0]) =
     Some (Some (BADDR_TYPE_IPV4 [10, 0, 0, 1] (hton16 40000), BADDR_TYPE_IPV4 [8, 8, 8, 8] (hton16 53), False, [0x49, 0x54])) \<and>
   process_device_udp_packet udp_ex_options 1472 (udp_ex_packet [0xFF, 0xFF]) = Some None"
proof (intro conjI)
  show "\<forall>t. udp_checksum_finish t = hton16 (ucast (NOT (ones_fold t)))" by (simp add: udp_finish_eq)
  show "udp_checksum udp_ex [0x49, 0x54] [10, 0, 0, 1] [8, 8, 8, 8] = [0, 0]" by code_simp
  show "process_device_udp_packet udp_ex_options 1472 (udp_ex_packet [0, 0]) =
     Some (Some (BADDR_TYPE_IPV4 [10, 0, 0, 1] (hton16 40000), BADDR_TYPE_IPV4 [8, 8, 8, 8] (hton16 53), False, [0x49, 0x54]))"
    by code_simp
  show "process_device_udp_packet udp_ex_options 1472 (udp_ex_packet [0xFF, 0xFF]) = Some None" by code_simp
qed

section \<open>What is taken from the device\<close>

text \<open>A part of a packet: inside the packet, it is read without a fault.\<close>

lemma mem_read_inside: "off + n \<le> length pkt \<Longrightarrow> \<exists>bs. mem_read pkt off n = Some bs \<and> length bs = n"
  by (simp add: mem_read_def)

lemma udp_check_slice:
  assumes "off + len \<le> length pkt"
  shows "udp_check pkt off len \<noteq> None \<and> (\<forall>h data n. udp_check pkt off len = Some (Some (h, data, n)) \<longrightarrow>
    udp_sized h \<and> data = off + 8 \<and> data + n \<le> off + len)"
  using assms by (auto simp: udp_check_def udp_of_bytes_def udp_sized_def mem_read_def Let_def split: if_splits)

lemma ipv4_check_slice:
  assumes "off + len \<le> length pkt"
  shows "ipv4_check pkt off len \<noteq> None \<and> (\<forall>h data n. ipv4_check pkt off len = Some (Some (h, data, n)) \<longrightarrow>
    ip4_sized h \<and> off + 20 \<le> data \<and> data + n \<le> off + len)"
proof (cases "len < 20")
  case False
  then obtain bs where bs: "mem_read pkt off 20 = Some bs" "length bs = 20" using mem_read_inside [of off 20 pkt] assms by auto
  let ?h = "ipv4_of_bytes bs"
  let ?hl = "4 * unat (IPV4_GET_IHL ?h)" and ?tl = "unat (ntoh16 (ip4_total_length ?h))"
  have s: "ip4_sized ?h" using bs(2) by (simp add: ip4_sized_def ipv4_of_bytes_def)
  have e: "mem_read pkt (off + 20) (?hl - 20) \<noteq> None" if "20 \<le> ?hl" "?hl \<le> len"
    using mem_read_inside [of "off + 20" "?hl - 20" pkt] assms that by auto
  show ?thesis using False bs(1) s e assms
    by (auto simp: ipv4_check_def Let_def split: if_splits option.splits)
qed (simp add: ipv4_check_def)

lemma ipv6_check_slice:
  assumes "off + len \<le> length pkt"
  shows "ipv6_check pkt off len \<noteq> None \<and> (\<forall>h data n. ipv6_check pkt off len = Some (Some (h, data, n)) \<longrightarrow>
    ip6_sized h \<and> data = off + 40 \<and> data + n \<le> off + len)"
  using assms by (auto simp: ipv6_check_def ipv6_of_bytes_def ip6_sized_def mem_read_def Let_def split: if_splits)

lemma dns_check_inside: "off + n \<le> length pkt \<Longrightarrow> \<exists>b. dns_check pkt off n = Some b"
  by (cases "n < 12") (auto simp: dns_check_def mem_read_def)

definition udp_parsed :: "byte list \<Rightarrow> int \<Rightarrow> (BAddr \<times> BAddr \<times> bool \<times> nat \<times> nat) option option \<Rightarrow> bool" where
  "udp_parsed pkt ty r \<longleftrightarrow> r \<noteq> None \<and> (\<forall>l rm is_dns data n. r = Some (Some (l, rm, is_dns, data, n)) \<longrightarrow>
     28 \<le> data \<and> data + n \<le> length pkt \<and> baddr_ok l \<and> baddr_ok rm \<and> baddr_type l = ty \<and> baddr_type rm = ty)"

lemma process_ipv4_udp_parsed: "udp_parsed pkt 1 (process_ipv4_udp options pkt)"
proof (cases "length pkt < 20 \<or> mem_read pkt 9 1 \<noteq> Some [IPV4_PROTOCOL_UDP]")
  case True
  moreover have "\<not> length pkt < 20 \<Longrightarrow> \<exists>b. mem_read pkt 9 1 = Some b" by (simp add: mem_read_def)
  ultimately show ?thesis by (cases "length pkt < 20") (auto simp: process_ipv4_udp_def udp_parsed_def)
next
  case False
  note i = ipv4_check_slice [of 0 "length pkt" pkt]
  show ?thesis
  proof (cases "ipv4_check pkt 0 (length pkt)")
    case (Some r)
    show ?thesis
    proof (cases r)
      case (Some x)
      obtain iph d1 n1 where x: "x = (iph, d1, n1)" by (cases x)
      then have ip: "ip4_sized iph" "20 \<le> d1" "d1 + n1 \<le> length pkt" using i \<open>ipv4_check pkt 0 (length pkt) = Some r\<close> Some by auto
      show ?thesis
      proof (cases "udp_check pkt d1 n1")
        case (Some u)
        show ?thesis
        proof (cases u)
          case (Some y)
          obtain h d n where y: "y = (h, d, n)" by (cases y)
          then have ud: "udp_sized h" "28 \<le> d" "d + n \<le> length pkt"
            using udp_check_slice [OF ip(3)] \<open>udp_check pkt d1 n1 = Some u\<close> Some ip by auto
          obtain payload b where "mem_read pkt d n = Some payload" "dns_check pkt d n = Some b"
            using mem_read_inside [OF ud(3)] dns_check_inside [OF ud(3)] by blast
          then show ?thesis using False \<open>ipv4_check pkt 0 (length pkt) = Some r\<close> \<open>r = Some x\<close> x \<open>udp_check pkt d1 n1 = Some u\<close> Some y ud ip(1)
            by (auto simp: process_ipv4_udp_def udp_parsed_def BAddr_InitIPv4_def BAddr_MakeIPv4_def baddr_ok_def baddr_sized_def baddr_type_def
                ip4_sized_def udp_sized_def split: if_splits)
        qed (use False \<open>ipv4_check pkt 0 (length pkt) = Some r\<close> \<open>r = Some x\<close> x Some in \<open>simp add: process_ipv4_udp_def udp_parsed_def\<close>)
      qed (use udp_check_slice [OF ip(3)] in simp)
    qed (use False Some in \<open>simp add: process_ipv4_udp_def udp_parsed_def\<close>)
  qed (use i in simp)
qed

lemma process_ipv6_udp_parsed:
  "udp_parsed pkt 2 (process_ipv6_udp options pkt) \<and>
   (\<forall>l r is_dns x. process_ipv6_udp options pkt = Some (Some (l, r, is_dns, x)) \<longrightarrow> opt_netif_ip6addr options \<and> \<not> is_dns)"
proof (cases "\<not> opt_netif_ip6addr options \<or> length pkt < 40 \<or> mem_read pkt 6 1 \<noteq> Some [IPV6_NEXT_UDP]")
  case True
  moreover have "\<not> length pkt < 40 \<Longrightarrow> \<exists>b. mem_read pkt 6 1 = Some b" by (simp add: mem_read_def)
  ultimately show ?thesis by (cases "length pkt < 40") (auto simp: process_ipv6_udp_def udp_parsed_def)
next
  case False
  note i = ipv6_check_slice [of 0 "length pkt" pkt]
  show ?thesis
  proof (cases "ipv6_check pkt 0 (length pkt)")
    case (Some r)
    show ?thesis
    proof (cases r)
      case (Some x)
      obtain iph d1 n1 where x: "x = (iph, d1, n1)" by (cases x)
      then have ip: "ip6_sized iph" "40 \<le> d1" "d1 + n1 \<le> length pkt" using i \<open>ipv6_check pkt 0 (length pkt) = Some r\<close> Some by auto
      show ?thesis
      proof (cases "udp_check pkt d1 n1")
        case (Some u)
        show ?thesis
        proof (cases u)
          case (Some y)
          obtain h d n where y: "y = (h, d, n)" by (cases y)
          then have ud: "udp_sized h" "28 \<le> d" "d + n \<le> length pkt"
            using udp_check_slice [OF ip(3)] \<open>udp_check pkt d1 n1 = Some u\<close> Some ip by auto
          obtain payload where "mem_read pkt d n = Some payload" using mem_read_inside [OF ud(3)] by blast
          then show ?thesis using False \<open>ipv6_check pkt 0 (length pkt) = Some r\<close> \<open>r = Some x\<close> x \<open>udp_check pkt d1 n1 = Some u\<close> Some y ud ip(1)
            by (auto simp: process_ipv6_udp_def udp_parsed_def BAddr_InitIPv6_def BAddr_MakeIPv6_def baddr_ok_def baddr_sized_def baddr_type_def
                ip6_sized_def udp_sized_def split: if_splits)
        qed (use False \<open>ipv6_check pkt 0 (length pkt) = Some r\<close> \<open>r = Some x\<close> x Some in \<open>simp add: process_ipv6_udp_def udp_parsed_def\<close>)
      qed (use udp_check_slice [OF ip(3)] in simp)
    qed (use False Some in \<open>simp add: process_ipv6_udp_def udp_parsed_def\<close>)
  qed (use i in simp)
qed

text \<open>Claim C23. Whatever bytes arrive from the device, \<^verbatim>\<open>process_device_udp_packet\<close> reads no byte outside of them: no length field of the packet
  is believed beyond the data. What it passes on lies completely inside the data, behind an IP and a UDP header. The two addresses are of the same,
  valid type and the payload is within the MTU of the relay, as \<^verbatim>\<open>SocksUdpGwClient_SubmitPacket\<close> asserts. Without a configured relay
  nothing is passed on, and IPv6 packets only with an IPv6 interface address.\<close>

theorem process_device_udp_packet_in_bounds:
  "process_device_udp_packet options udp_mtu data \<noteq> None \<and>
   (\<forall>local_addr remote_addr is_dns payload.
      process_device_udp_packet options udp_mtu data = Some (Some (local_addr, remote_addr, is_dns, payload)) \<longrightarrow>
      (\<exists>off\<ge>28. off + length payload \<le> length data \<and> payload = take (length payload) (drop off data)) \<and>
      int (length payload) \<le> udp_mtu \<and> baddr_ok local_addr \<and> baddr_ok remote_addr \<and>
      baddr_type local_addr = baddr_type remote_addr \<and> opt_udpgw_remote_server_addr options \<and>
      (baddr_type local_addr = 2 \<longrightarrow> opt_netif_ip6addr options \<and> \<not> is_dns))"
proof (cases "opt_udpgw_remote_server_addr options")
  case True
  define v where "v = (if length data > 0 then map_option (\<lambda>b. drop_bit 4 (hd b)) (mem_read data 0 1) else Some 0)"
  obtain ver where v: "v = Some ver" using mem_read_byte [of 0 data] by (cases "data = []") (auto simp: v_def)
  define p where "p = (if ver = 4 then process_ipv4_udp options data else if ver = 6 then process_ipv6_udp options data else Some None)"
  have rd: "mem_read data d n = Some (take n (drop d data))" if "d + n \<le> length data" for d n using that by (simp add: mem_read_def)
  have f: "process_device_udp_packet options udp_mtu data = (case p of None \<Rightarrow> None | Some None \<Rightarrow> Some None
      | Some (Some (l, r, is_dns, d, n)) \<Rightarrow> if int n > udp_mtu then Some None else map_option (\<lambda>payload. Some (l, r, is_dns, payload)) (mem_read data d n))"
    unfolding process_device_udp_packet_def v_def [symmetric] v p_def using True by simp
  have "udp_parsed data 1 p \<or> udp_parsed data 2 p \<and> (\<forall>l r is_dns x. p = Some (Some (l, r, is_dns, x)) \<longrightarrow> opt_netif_ip6addr options \<and> \<not> is_dns)"
  proof (cases "ver = 4")
    case True
    then have "p = process_ipv4_udp options data" by (simp add: p_def)
    then show ?thesis using process_ipv4_udp_parsed [of data options] by simp
  next
    case n4: False
    show ?thesis
    proof (cases "ver = 6")
      case True
      then have "p = process_ipv6_udp options data" using n4 by (simp add: p_def)
      then show ?thesis using process_ipv6_udp_parsed [of data options] by (simp only:) blast
    next
      case False
      then have "p = Some None" using n4 by (simp add: p_def)
      then show ?thesis by (simp add: udp_parsed_def)
    qed
  qed
  then show ?thesis
  proof
    assume "udp_parsed data 1 p"
    then show ?thesis unfolding f using True rd by (fastforce simp: udp_parsed_def split: option.splits if_splits)
  next
    assume "udp_parsed data 2 p \<and> (\<forall>l r is_dns x. p = Some (Some (l, r, is_dns, x)) \<longrightarrow> opt_netif_ip6addr options \<and> \<not> is_dns)"
    then show ?thesis unfolding f using True rd by (fastforce simp: udp_parsed_def split: option.splits if_splits)
  qed
qed (simp add: process_device_udp_packet_def)

theorem process_device_udp_packet_in_bounds_witness:
  "int (length [0x49, 0x54 :: byte]) \<le> 1472 \<and> baddr_ok (BADDR_TYPE_IPV4 [10, 0, 0, 1] (hton16 40000))"
proof -
  have "process_device_udp_packet udp_ex_options 1472 (udp_ex_packet [0, 0]) =
     Some (Some (BADDR_TYPE_IPV4 [10, 0, 0, 1] (hton16 40000), BADDR_TYPE_IPV4 [8, 8, 8, 8] (hton16 53), False, [0x49, 0x54]))"
    by code_simp
  with process_device_udp_packet_in_bounds [of udp_ex_options 1472 "udp_ex_packet [0, 0]"] show ?thesis by blast
qed

end
