(* ===== verification/Socks_Udp.thy ===== *)
theory Socks_Udp
  imports Misc_Size Net_Addr
begin

text \<open>
  \<^verbatim>\<open>tun2socks/SocksUdpGwClient.c\<close> as it is built for Android: UDP packets of the device are relayed through SOCKS5
  UDP datagrams, one local socket (\<^verbatim>\<open>BDatagram\<close>) per local address, at most \<^verbatim>\<open>max_connections\<close> of them, of which
  the least recently used one is given up for a new address. DNS queries go to the DNS gateway without header.

  Connections are named by numbers. The tree of connections is the list of the connections in it and a lookup
  searches the one whose key compares equal; the list of connections has the least recently used one in front.
  The datagram socket of a connection is the address it sends to. Arguments stand for what the objects below
  answer: \<open>ready\<close> whether \<^verbatim>\<open>BufferWriter_StartPacket\<close> has a buffer, \<open>new\<close> the fresh connection if all its
  initialisations succeed. Results are what is handed to the writer of a connection.
\<close>

section \<open>Formats (protocol/udpgw\_proto.h)\<close>

text \<open>The sizes of \<^verbatim>\<open>socks_udp_header\<close>, \<^verbatim>\<open>udpgw_addr_ipv4\<close> and \<^verbatim>\<open>udpgw_addr_ipv6\<close>.\<close>

definition udpgw_compute_mtu :: "int \<Rightarrow> int" where
  "udpgw_compute_mtu dgram_mtu =
     (let bs = bsize_add (bsize_fromsize (4 :: u64))
          (bsize_add (bsize_max (bsize_fromsize 6) (bsize_fromsize 18)) (bsize_fromint dgram_mtu))
      in case bsize_toint bs of None \<Rightarrow> - 1 | Some s \<Rightarrow> s)"

record socks_udp_header =
  suh_rsv :: "byte list"
  suh_frag :: byte
  suh_atyp :: byte

definition socks_udp_header_bytes :: "socks_udp_header \<Rightarrow> byte list" where
  "socks_udp_header_bytes h = suh_rsv h @ [suh_frag h, suh_atyp h]"

section \<open>The object\<close>

type_synonym con_id = nat

record SocksUdpGwClient_conaddr =
  ca_local_addr :: BAddr
  ca_remote_addr :: BAddr

record SocksUdpGwClient_connection =
  con_conaddr :: SocksUdpGwClient_conaddr
  con_first_data :: "byte list"
  con_is_dns :: bool
  con_send_addr :: BAddr

record SocksUdpGwClient =
  ug_udp_mtu :: int
  ug_udpgw_mtu :: int
  ug_socks_server_addr :: BAddr
  ug_dnsgw :: BAddr
  ug_num_connections :: int
  ug_max_connections :: int
  ug_connections_tree :: "con_id list"
  ug_connections_list :: "con_id list"
  ug_con :: "con_id \<Rightarrow> SocksUdpGwClient_connection"
  ug_first_jobs :: "con_id list"

section \<open>Operations (tun2socks/SocksUdpGwClient.c)\<close>

text \<open>What \<^verbatim>\<open>dgram_handler_received\<close> passes to the user: the local and remote address and the data. The
  connection keeps the remote address of the last packet.\<close>

definition dgram_handler_received ::
    "SocksUdpGwClient \<Rightarrow> SocksUdpGwClient_connection \<Rightarrow> byte list \<Rightarrow>
      SocksUdpGwClient_connection \<times> (BAddr \<times> BAddr \<times> byte list) option" where
  "dgram_handler_received client o' data =
     (let deliver = (\<lambda>c d. if int (length d) > ug_udp_mtu client then (c, None)
          else (c, Some (ca_local_addr (con_conaddr c), ca_remote_addr (con_conaddr c), d))) in
      if con_is_dns o' then deliver o' data
      else if length data < 4 then (o', None)
      else
        (let frag = data ! 2; atyp = data ! 3; d1 = drop 4 data in
         if frag \<noteq> 0 then (o', None)
         else if atyp = 4 then
           (if length d1 < 18 then (o', None)
            else deliver (o'\<lparr>con_conaddr := (con_conaddr o')\<lparr>ca_remote_addr :=
                BAddr_InitIPv6 (take 16 d1) (take 2 (drop 16 d1))\<rparr>\<rparr>) (drop 18 d1))
         else
           (if length d1 < 6 then (o', None)
            else deliver (o'\<lparr>con_conaddr := (con_conaddr o')\<lparr>ca_remote_addr :=
                BAddr_InitIPv4 (take 4 d1) (take 2 (drop 4 d1))\<rparr>\<rparr>) (drop 6 d1))))"

definition conaddr_comparator :: "SocksUdpGwClient_conaddr \<Rightarrow> SocksUdpGwClient_conaddr \<Rightarrow> int" where
  "conaddr_comparator v1 v2 = BAddr_CompareOrder (ca_local_addr v1) (ca_local_addr v2)"

text \<open>The test for the DNS flag behind the lookup starts with \<^verbatim>\<open>!con\<close> and never succeeds.\<close>

definition find_connection :: "SocksUdpGwClient \<Rightarrow> SocksUdpGwClient_conaddr \<Rightarrow> bool \<Rightarrow> con_id option" where
  "find_connection o' conaddr is_dns =
     List.find (\<lambda>c. conaddr_comparator conaddr (con_conaddr (ug_con o' c)) = 0) (ug_connections_tree o')"

definition connection_free :: "SocksUdpGwClient \<Rightarrow> con_id \<Rightarrow> SocksUdpGwClient" where
  "connection_free client c = client\<lparr>ug_num_connections := ug_num_connections client - 1,
     ug_connections_list := remove1 c (ug_connections_list client),
     ug_connections_tree := remove1 c (ug_connections_tree client)\<rparr>"

definition remove_lru_connection :: "SocksUdpGwClient \<Rightarrow> SocksUdpGwClient" where
  "remove_lru_connection o' = connection_free o' (hd (ug_connections_list o'))"

definition reset_connection ::
    "SocksUdpGwClient \<Rightarrow> con_id \<Rightarrow> SocksUdpGwClient_conaddr \<Rightarrow> bool \<Rightarrow> SocksUdpGwClient" where
  "reset_connection o' con conaddr is_dns =
     o'\<lparr>ug_con := (ug_con o')(con := (ug_con o' con)\<lparr>con_conaddr := conaddr, con_is_dns := is_dns\<rparr>)\<rparr>"

text \<open>What comes of a packet: the function returns 1 because there is no buffer, the packet is written and ended, or it is written beyond the buffer,
  whose size is the MTU of the writer (\<^verbatim>\<open>BufferWriter_EndPacket\<close> asserts that it is not exceeded).\<close>

datatype written = No_buffer | Written "byte list" | Buffer_overrun "byte list"

definition connection_send :: "bool \<Rightarrow> SocksUdpGwClient \<Rightarrow> SocksUdpGwClient_connection \<Rightarrow> byte list \<Rightarrow> written" where
  "connection_send ready client o' data =
     (if \<not> ready then No_buffer
      else
        (let remote_addr = ca_remote_addr (con_conaddr o');
             header = socks_udp_header_bytes \<lparr>suh_rsv = [0, 0], suh_frag = 0,
               suh_atyp = (case remote_addr of BADDR_TYPE_IPV4 _ _ \<Rightarrow> 1 | _ \<Rightarrow> 4)\<rparr>;
             addr = (case remote_addr of
               BADDR_TYPE_IPV4 ip port \<Rightarrow> ip @ port | BADDR_TYPE_IPV6 ip port \<Rightarrow> ip @ port | BADDR_TYPE_NONE \<Rightarrow> []);
             pkt = (if con_is_dns o' then data else header @ addr @ data)
         in if int (length pkt) > ug_udp_mtu client then Buffer_overrun pkt else Written pkt))"

definition connection_first_job_handler :: "bool \<Rightarrow> SocksUdpGwClient \<Rightarrow> con_id \<Rightarrow> SocksUdpGwClient \<times> (con_id \<times> written) option" where
  "connection_first_job_handler ready o' con =
     (o'\<lparr>ug_first_jobs := remove1 con (ug_first_jobs o')\<rparr>,
      Some (con, connection_send ready o' (ug_con o' con) (con_first_data (ug_con o' con))))"

text \<open>\<^verbatim>\<open>BAVL_Insert\<close> leaves the tree alone when an equal key is in it.\<close>

definition connection_init ::
    "con_id option \<Rightarrow> SocksUdpGwClient \<Rightarrow> SocksUdpGwClient_conaddr \<Rightarrow> byte list \<Rightarrow> bool \<Rightarrow> SocksUdpGwClient" where
  "connection_init new client conaddr data is_dns =
     (case new of
        None \<Rightarrow> client
      | Some c \<Rightarrow>
          (let con = \<lparr>con_conaddr = conaddr, con_first_data = data, con_is_dns = is_dns,
                 con_send_addr = (if is_dns then ug_dnsgw client else ug_socks_server_addr client)\<rparr>;
               tree = (if find_connection client conaddr is_dns = None then c # ug_connections_tree client
                 else ug_connections_tree client)
           in client\<lparr>ug_con := (ug_con client)(c := con), ug_first_jobs := c # ug_first_jobs client,
                ug_connections_tree := tree, ug_connections_list := ug_connections_list client @ [c],
                ug_num_connections := ug_num_connections client + 1\<rparr>))"

text \<open>\<open>init_udpgw\<close> is the static object before the call, whose counter of connections is 0 and is not set here.\<close>

definition SocksUdpGwClient_Init ::
    "SocksUdpGwClient \<Rightarrow> int \<Rightarrow> int \<Rightarrow> BAddr \<Rightarrow> BAddr \<Rightarrow> SocksUdpGwClient" where
  "SocksUdpGwClient_Init init_udpgw udp_mtu max_connections socks_server_addr dnsgw =
     init_udpgw\<lparr>ug_udp_mtu := udp_mtu, ug_socks_server_addr := socks_server_addr, ug_dnsgw := dnsgw,
       ug_udpgw_mtu := udpgw_compute_mtu udp_mtu,
       ug_max_connections := (if max_connections > 65536 then 65536 else max_connections),
       ug_connections_tree := [], ug_connections_list := []\<rparr>"

text \<open>The loop frees the first connection until the list is empty.\<close>

function SocksUdpGwClient_Free :: "SocksUdpGwClient \<Rightarrow> SocksUdpGwClient" where
  "SocksUdpGwClient_Free o' =
     (case ug_connections_list o' of [] \<Rightarrow> o' | c # _ \<Rightarrow> SocksUdpGwClient_Free (connection_free o' c))"
  by auto
termination
  by (relation "measure (\<lambda>o'. length (ug_connections_list o'))") (auto simp: connection_free_def)

text \<open>The new state and the packet handed to an existing connection.\<close>

definition SocksUdpGwClient_SubmitPacket ::
    "con_id option \<Rightarrow> bool \<Rightarrow> SocksUdpGwClient \<Rightarrow> BAddr \<Rightarrow> BAddr \<Rightarrow> bool \<Rightarrow> byte list \<Rightarrow>
      SocksUdpGwClient \<times> (con_id \<times> written) option" where
  "SocksUdpGwClient_SubmitPacket new ready o' local_addr remote_addr is_dns data =
     (let conaddr = \<lparr>ca_local_addr = local_addr, ca_remote_addr = remote_addr\<rparr> in
      case find_connection o' conaddr is_dns of
        None \<Rightarrow>
          (let o1 = (if ug_num_connections o' = ug_max_connections o' then remove_lru_connection o' else o')
           in (connection_init new o1 conaddr data is_dns, None))
      | Some con \<Rightarrow>
          (let o1 = reset_connection o' con conaddr is_dns in
           case connection_send ready o1 (ug_con o1 con) data of
             No_buffer \<Rightarrow> (o1, None)
           | res \<Rightarrow>
               (o1\<lparr>ug_connections_list := remove1 con (ug_connections_list o1) @ [con]\<rparr>, Some (con, res))))"

section \<open>The invariant\<close>

abbreviation con_local :: "SocksUdpGwClient \<Rightarrow> con_id \<Rightarrow> BAddr" where
  "con_local o' c \<equiv> ca_local_addr (con_conaddr (ug_con o' c))"

definition ug_inv :: "SocksUdpGwClient \<Rightarrow> bool" where
  "ug_inv o' \<longleftrightarrow> distinct (ug_connections_list o') \<and> distinct (ug_connections_tree o') \<and>
     set (ug_connections_tree o') = set (ug_connections_list o') \<and>
     ug_num_connections o' = int (length (ug_connections_list o')) \<and>
     0 < ug_max_connections o' \<and> ug_num_connections o' \<le> ug_max_connections o' \<and>
     inj_on (con_local o') (set (ug_connections_list o')) \<and>
     (\<forall>c \<in> set (ug_connections_list o'). baddr_sized (con_local o' c))"

lemma find_connection_Some:
  assumes "ug_inv o'" "baddr_sized (ca_local_addr k)"
  shows "find_connection o' k d = Some c \<longleftrightarrow> c \<in> set (ug_connections_list o') \<and> con_local o' c = ca_local_addr k"
proof
  assume "find_connection o' k d = Some c"
  then have "c \<in> set (ug_connections_tree o')" "conaddr_comparator k (con_conaddr (ug_con o' c)) = 0"
    by (auto simp: find_connection_def find_Some_iff)
  then show "c \<in> set (ug_connections_list o') \<and> con_local o' c = ca_local_addr k"
    using assms CompareOrder_eq [of "ca_local_addr k" "con_local o' c"]
    by (auto simp: ug_inv_def conaddr_comparator_def)
next
  assume c: "c \<in> set (ug_connections_list o') \<and> con_local o' c = ca_local_addr k"
  have d: "distinct (map (con_local o') (ug_connections_tree o'))" "\<forall>x \<in> set (ug_connections_tree o'). baddr_sized (con_local o' x)"
    "c \<in> set (ug_connections_tree o')" using assms(1) c by (auto simp: ug_inv_def distinct_map)
  have "BAddr_CompareOrder (ca_local_addr k) (con_local o' c) = 0" using c assms(2) by (simp add: CompareOrder_eq)
  from baddr.lookup_unique [OF d(1,2) assms(2) d(3) this] show "find_connection o' k d = Some c"
    by (simp add: find_connection_def conaddr_comparator_def)
qed

lemma find_connection_None:
  assumes "ug_inv o'" "baddr_sized (ca_local_addr k)"
  shows "find_connection o' k d = None \<longleftrightarrow> (\<forall>c \<in> set (ug_connections_list o'). con_local o' c \<noteq> ca_local_addr k)"
  using find_connection_Some [OF assms] by (metis not_Some_eq)

lemma connection_free_inv:
  assumes "ug_inv o'" "c \<in> set (ug_connections_list o')"
  shows "ug_inv (connection_free o' c)"
  using assms by (auto simp: ug_inv_def connection_free_def length_remove1 set_remove1_eq inj_on_diff
      dest: length_pos_if_in_set simp: of_nat_diff Suc_leI)

lemma connection_init_inv:
  assumes inv: "ug_inv o'" and k: "baddr_sized (ca_local_addr k)" "find_connection o' k d = None"
    and n: "c \<notin> set (ug_connections_list o')" "ug_num_connections o' < ug_max_connections o'"
  shows "ug_inv (connection_init (Some c) o' k data d)"
proof -
  have "\<forall>x \<in> set (ug_connections_list o'). con_local o' x \<noteq> ca_local_addr k"
    using find_connection_None [OF inv k(1)] k(2) by simp
  then show ?thesis using inv k n
    by (auto simp: ug_inv_def connection_init_def Let_def inj_on_def)
qed

lemma reset_connection_inv:
  assumes "ug_inv o'" "con_local o' c = ca_local_addr k"
  shows "ug_inv (reset_connection o' c k d)"
proof -
  have l: "con_local (reset_connection o' c k d) x = con_local o' x" for x
    using assms(2) by (simp add: reset_connection_def)
  have "ug_inv o' = ug_inv (reset_connection o' c k d)"
    unfolding ug_inv_def inj_on_def l by (simp add: reset_connection_def)
  then show ?thesis using assms(1) by simp
qed

lemma touch_inv:
  assumes "ug_inv o'" "c \<in> set (ug_connections_list o')"
  shows "ug_inv (o'\<lparr>ug_connections_list := remove1 c (ug_connections_list o') @ [c]\<rparr>)"
proof -
  have d: "distinct (ug_connections_list o')" using assms(1) by (simp add: ug_inv_def)
  have "set (remove1 c (ug_connections_list o') @ [c]) = set (ug_connections_list o')"
    "length (remove1 c (ug_connections_list o') @ [c]) = length (ug_connections_list o')"
    "distinct (remove1 c (ug_connections_list o') @ [c])"
    using d assms(2) length_pos_if_in_set [OF assms(2)] by (auto simp: length_remove1)
  then show ?thesis using assms(1) unfolding ug_inv_def by simp
qed

section \<open>The least recently used cache it implements\<close>

text \<open>The abstract state: the local addresses with their connections, least recently used first.\<close>

definition ug_abs :: "SocksUdpGwClient \<Rightarrow> (BAddr \<times> con_id) list" where
  "ug_abs o' = map (\<lambda>c. (con_local o' c, c)) (ug_connections_list o')"

definition lru_access :: "nat \<Rightarrow> 'k \<Rightarrow> 'v \<Rightarrow> ('k \<times> 'v) list \<Rightarrow> ('k \<times> 'v) list" where
  "lru_access cap k new al = (case map_of al k of
     Some v \<Rightarrow> remove1 (k, v) al @ [(k, v)]
   | None \<Rightarrow> (if length al = cap then tl al else al) @ [(k, new)])"

lemma ug_abs_lookup:
  assumes "ug_inv o'" "baddr_sized (ca_local_addr k)"
  shows "map_of (ug_abs o') (ca_local_addr k) = find_connection o' k d"
proof -
  have dk: "distinct (map fst (ug_abs o'))"
    using assms(1) by (simp add: ug_inv_def ug_abs_def comp_def distinct_map)
  show ?thesis
  proof (cases "find_connection o' k d")
    case None
    then show ?thesis using find_connection_None [OF assms] by (auto simp: map_of_eq_None_iff ug_abs_def)
  next
    case (Some c)
    then have "c \<in> set (ug_connections_list o')" "con_local o' c = ca_local_addr k"
      using find_connection_Some [OF assms] by auto
    then have "(ca_local_addr k, c) \<in> set (ug_abs o')" by (force simp: ug_abs_def)
    then show ?thesis using Some map_of_eq_Some_iff [OF dk] by simp
  qed
qed

lemma remove1_map_inj: "inj_on f (insert x (set xs)) \<Longrightarrow> map f (remove1 x xs) = remove1 (f x) (map f xs)"
  by (induction xs) (auto simp: inj_on_def)

lemma hd_not_in_tl: "distinct xs \<Longrightarrow> xs \<noteq> [] \<Longrightarrow> remove1 (hd xs) xs = tl xs"
  by (cases xs) auto

lemma submit_new:
  assumes inv: "ug_inv o'" and k: "baddr_sized l" "find_connection o' \<lparr>ca_local_addr = l, ca_remote_addr = r\<rparr> d = None"
    and n: "c \<notin> set (ug_connections_list o')"
    and s: "SocksUdpGwClient_SubmitPacket (Some c) ready o' l r d data = (o2, out)"
  shows "ug_inv o2 \<and> ug_abs o2 = lru_access (nat (ug_max_connections o')) l c (ug_abs o') \<and> out = None \<and>
    ug_con o2 c = \<lparr>con_conaddr = \<lparr>ca_local_addr = l, ca_remote_addr = r\<rparr>, con_first_data = data, con_is_dns = d,
      con_send_addr = (if d then ug_dnsgw o' else ug_socks_server_addr o')\<rparr> \<and> hd (ug_first_jobs o2) = c"
proof -
  let ?k = "\<lparr>ca_local_addr = l, ca_remote_addr = r\<rparr>"
  let ?full = "ug_num_connections o' = ug_max_connections o'"
  define o1 where "o1 = (if ?full then remove_lru_connection o' else o')"
  have ne: "?full \<Longrightarrow> ug_connections_list o' \<noteq> []" using inv by (auto simp: ug_inv_def)
  have l1: "ug_connections_list o1 = (if ?full then tl (ug_connections_list o') else ug_connections_list o')"
    using inv ne by (auto simp: o1_def remove_lru_connection_def connection_free_def hd_not_in_tl ug_inv_def)
  have i1: "ug_inv o1" using connection_free_inv [OF inv, of "hd (ug_connections_list o')"] inv ne
    by (auto simp: o1_def remove_lru_connection_def)
  have f: "ug_con o1 = ug_con o'" "ug_max_connections o1 = ug_max_connections o'" "ug_dnsgw o1 = ug_dnsgw o'"
    "ug_socks_server_addr o1 = ug_socks_server_addr o'"
    by (simp_all add: o1_def remove_lru_connection_def connection_free_def)
  have sub: "set (ug_connections_list o1) \<subseteq> set (ug_connections_list o')"
    using l1 by (cases "ug_connections_list o'") (auto split: if_splits)
  have none: "find_connection o1 ?k d = None"
    using find_connection_None [OF i1, of ?k d] find_connection_None [OF inv, of ?k d] k sub f(1) by auto
  have lt: "ug_num_connections o1 < ug_max_connections o1"
    using inv ne by (auto simp: o1_def remove_lru_connection_def connection_free_def ug_inv_def)
  have s': "o2 = connection_init (Some c) o1 ?k data d" "out = None"
    using s k(2) by (auto simp: SocksUdpGwClient_SubmitPacket_def Let_def o1_def)
  have i2: "ug_inv o2" unfolding s'(1) by (rule connection_init_inv [OF i1 _ none _ lt]) (use k(1) n sub in auto)
  have "map_of (ug_abs o') l = None" using ug_abs_lookup [OF inv, of ?k d] k by simp
  then have "lru_access (nat (ug_max_connections o')) l c (ug_abs o') =
      (if length (ug_abs o') = nat (ug_max_connections o') then tl (ug_abs o') else ug_abs o') @ [(l, c)]"
    by (simp add: lru_access_def)
  moreover have "length (ug_abs o') = nat (ug_max_connections o') \<longleftrightarrow> ?full"
    using inv by (auto simp: ug_inv_def ug_abs_def)
  moreover have "ug_abs o2 = (if ?full then tl (ug_abs o') else ug_abs o') @ [(l, c)]"
    using n sub unfolding s'(1) by (auto simp: ug_abs_def connection_init_def Let_def l1 f map_tl [symmetric])
  ultimately show ?thesis using i2 s'(2) f unfolding s'(1) by (auto simp: connection_init_def Let_def)
qed

lemma submit_existing:
  assumes inv: "ug_inv o'" and k: "baddr_sized l" "find_connection o' \<lparr>ca_local_addr = l, ca_remote_addr = r\<rparr> d = Some con"
    and s: "SocksUdpGwClient_SubmitPacket new ready o' l r d data = (o2, out)"
  shows "ug_inv o2 \<and> ug_con o2 con = (ug_con o' con)\<lparr>con_conaddr := \<lparr>ca_local_addr = l, ca_remote_addr = r\<rparr>, con_is_dns := d\<rparr> \<and>
    ug_abs o2 = (if ready then lru_access cap l c (ug_abs o') else ug_abs o') \<and>
    (ready \<longrightarrow> out = Some (con, connection_send True o' (ug_con o2 con) data)) \<and>
    (\<not> ready \<longrightarrow> out = None)"
proof -
  let ?k = "\<lparr>ca_local_addr = l, ca_remote_addr = r\<rparr>"
  have c: "con \<in> set (ug_connections_list o')" "con_local o' con = l"
    using find_connection_Some [OF inv, of ?k d con] k by auto
  define o1 where "o1 = reset_connection o' con ?k d"
  have i1: "ug_inv o1" unfolding o1_def by (rule reset_connection_inv [OF inv]) (simp add: c)
  have f: "ug_connections_list o1 = ug_connections_list o'" and lo: "con_local o1 x = con_local o' x" for x
    using c(2) by (auto simp: o1_def reset_connection_def)
  have ready: "connection_send ready o1 (ug_con o1 con) data = No_buffer \<longleftrightarrow> \<not> ready" by (simp add: connection_send_def Let_def)
  have "map_of (ug_abs o') l = Some con" using ug_abs_lookup [OF inv, of ?k d] k by simp
  then have lru: "lru_access cap l c (ug_abs o') = remove1 (l, con) (ug_abs o') @ [(l, con)]"
    by (simp add: lru_access_def)
  have rm: "map (\<lambda>c. (con_local o' c, c)) (remove1 con (ug_connections_list o')) = remove1 (l, con) (ug_abs o')"
    unfolding ug_abs_def c(2) [symmetric] by (rule remove1_map_inj) (simp add: inj_on_def)
  show ?thesis
  proof (cases ready)
    case True
    have o2: "o2 = o1\<lparr>ug_connections_list := remove1 con (ug_connections_list o1) @ [con]\<rparr>"
      "out = Some (con, connection_send True o1 (ug_con o1 con) data)"
      using s k(2) ready True by (auto simp: SocksUdpGwClient_SubmitPacket_def Let_def o1_def split: written.splits)
    have p: "connection_send True o1 (ug_con o1 con) data = connection_send True o' (ug_con o1 con) data"
      by (simp add: connection_send_def o1_def reset_connection_def)
    have "ug_inv o2" unfolding o2(1) by (rule touch_inv [OF i1]) (simp add: c f)
    moreover have "ug_abs o2 = lru_access cap l c (ug_abs o')"
      unfolding lru o2(1) using rm f c(2) lo by (simp add: ug_abs_def)
    ultimately show ?thesis using True o2 p by (simp add: o1_def reset_connection_def)
  next
    case False
    then have o2: "o2 = o1" "out = None" using s k(2) ready by (auto simp: SocksUdpGwClient_SubmitPacket_def Let_def o1_def)
    then show ?thesis using False i1 f lo unfolding o1_def by (auto simp: ug_abs_def reset_connection_def)
  qed
qed

section \<open>Reachable states\<close>

text \<open>Packets of the device, with any outcome of the allocations and of the buffers, datagrams from the network on
  any connection, and the job of a new connection.\<close>

inductive ug_reach :: "SocksUdpGwClient \<Rightarrow> SocksUdpGwClient \<Rightarrow> bool" for o0 where
  ug_start: "ug_reach o0 o0"
| ug_submit: "ug_reach o0 o' \<Longrightarrow> baddr_ok l \<Longrightarrow> (\<forall>c. new = Some c \<longrightarrow> c \<notin> set (ug_connections_list o')) \<Longrightarrow>
    ug_reach o0 (fst (SocksUdpGwClient_SubmitPacket new ready o' l r d data))"
| ug_received: "ug_reach o0 o' \<Longrightarrow> c \<in> set (ug_connections_list o') \<Longrightarrow>
    ug_reach o0 (o'\<lparr>ug_con := (ug_con o')(c := fst (dgram_handler_received o' (ug_con o' c) data))\<rparr>)"
| ug_first: "ug_reach o0 o' \<Longrightarrow> ug_reach o0 (fst (connection_first_job_handler ready o' c))"

lemma received_local: "ca_local_addr (con_conaddr (fst (dgram_handler_received o' c data))) = ca_local_addr (con_conaddr c)"
  by (auto simp: dgram_handler_received_def Let_def)

lemma received_inv:
  assumes "ug_inv o'"
  shows "ug_inv (o'\<lparr>ug_con := (ug_con o')(c := fst (dgram_handler_received o' (ug_con o' c) data))\<rparr>)" (is "ug_inv ?o")
proof -
  have l: "con_local ?o x = con_local o' x" for x by (simp add: received_local)
  have "ug_inv o' = ug_inv ?o" unfolding ug_inv_def inj_on_def l by simp
  then show ?thesis using assms by simp
qed

lemma submit_failed_init_inv:
  assumes inv: "ug_inv o'" and k: "find_connection o' \<lparr>ca_local_addr = l, ca_remote_addr = r\<rparr> d = None"
  shows "ug_inv (fst (SocksUdpGwClient_SubmitPacket None ready o' l r d data))"
proof (cases "ug_num_connections o' = ug_max_connections o'")
  case True
  then have "ug_connections_list o' \<noteq> []" using inv by (auto simp: ug_inv_def)
  then have "ug_inv (remove_lru_connection o')" using connection_free_inv [OF inv] by (simp add: remove_lru_connection_def)
  then show ?thesis using k by (simp add: SocksUdpGwClient_SubmitPacket_def connection_init_def Let_def inv)
qed (use k inv in \<open>simp add: SocksUdpGwClient_SubmitPacket_def connection_init_def Let_def\<close>)

lemma submit_inv:
  assumes inv: "ug_inv o'" and l: "baddr_ok l" and new: "\<forall>c. new = Some c \<longrightarrow> c \<notin> set (ug_connections_list o')"
  shows "ug_inv (fst (SocksUdpGwClient_SubmitPacket new ready o' l r d data))"
proof -
  obtain o2 out where s: "SocksUdpGwClient_SubmitPacket new ready o' l r d data = (o2, out)" by fastforce
  have sz: "baddr_sized l" using l by (simp add: baddr_ok_def)
  show ?thesis
  proof (cases "find_connection o' \<lparr>ca_local_addr = l, ca_remote_addr = r\<rparr> d")
    case None
    show ?thesis
    proof (cases new)
      case (Some c)
      then show ?thesis using submit_new [OF inv sz None, of c ready data o2 out] new s by simp
    qed (use submit_failed_init_inv [OF inv None] in simp)
  next
    case (Some con)
    show ?thesis using submit_existing [OF inv sz Some s] s by simp
  qed
qed

lemma ug_reach_inv:
  assumes "ug_reach o0 o'" "ug_inv o0"
  shows "ug_inv o'"
  using assms
proof induction
  case (ug_first o' ready c)
  then show ?case by (simp add: connection_first_job_handler_def ug_inv_def)
qed (auto intro: submit_inv received_inv)

definition ug_static :: SocksUdpGwClient where
  "ug_static = \<lparr>ug_udp_mtu = 0, ug_udpgw_mtu = 0, ug_socks_server_addr = BADDR_TYPE_NONE, ug_dnsgw = BADDR_TYPE_NONE,
     ug_num_connections = 0, ug_max_connections = 0, ug_connections_tree = [], ug_connections_list = [],
     ug_con = (\<lambda>_. \<lparr>con_conaddr = \<lparr>ca_local_addr = BADDR_TYPE_NONE, ca_remote_addr = BADDR_TYPE_NONE\<rparr>, con_first_data = [],
       con_is_dns = False, con_send_addr = BADDR_TYPE_NONE\<rparr>), ug_first_jobs = []\<rparr>"

lemma ug_init_inv: "0 < max_connections \<Longrightarrow> ug_inv (SocksUdpGwClient_Init ug_static udp_mtu max_connections srv dns)"
  by (simp add: SocksUdpGwClient_Init_def ug_static_def ug_inv_def)

text \<open>Claim C9. The table of UDP connections is a least recently used cache keyed by the local address: in every
  reachable state the counter, the tree and the list agree and there are never more connections than allowed, a
  lookup finds exactly the connection of that local address, and a packet that is accepted (the connection is
  created, or its buffer has room) makes its connection the most recently used one; when the table is full a new
  address evicts exactly the least recently used connection and no other.\<close>

theorem SocksUdpGwClient_refines_lru:
  assumes reach: "ug_reach (SocksUdpGwClient_Init ug_static udp_mtu max_connections srv dns) o'" "0 < max_connections"
    and l: "baddr_ok l" and c: "c \<notin> set (ug_connections_list o')"
    and s: "SocksUdpGwClient_SubmitPacket (Some c) True o' l r d data = (o2, out)"
  shows "ug_inv o' \<and> int (length (ug_abs o')) \<le> ug_max_connections o' \<and> distinct (map fst (ug_abs o')) \<and>
    find_connection o' \<lparr>ca_local_addr = l, ca_remote_addr = r\<rparr> d = map_of (ug_abs o') l \<and>
    ug_abs o2 = lru_access (nat (ug_max_connections o')) l c (ug_abs o')"
proof -
  have inv: "ug_inv o'" by (rule ug_reach_inv [OF reach(1) ug_init_inv [OF reach(2)]])
  have sz: "baddr_sized l" using l by (simp add: baddr_ok_def)
  have f: "find_connection o' \<lparr>ca_local_addr = l, ca_remote_addr = r\<rparr> d = map_of (ug_abs o') l"
    using ug_abs_lookup [OF inv, of "\<lparr>ca_local_addr = l, ca_remote_addr = r\<rparr>" d] sz by simp
  have "ug_abs o2 = lru_access (nat (ug_max_connections o')) l c (ug_abs o')"
  proof (cases "find_connection o' \<lparr>ca_local_addr = l, ca_remote_addr = r\<rparr> d")
    case None
    then show ?thesis using submit_new [OF inv sz None c s] by blast
  next
    case (Some con)
    then show ?thesis using submit_existing [OF inv sz Some s] by simp
  qed
  then show ?thesis using f inv by (auto simp: ug_inv_def ug_abs_def comp_def distinct_map)
qed

definition ug_ex0 :: SocksUdpGwClient where
  "ug_ex0 = SocksUdpGwClient_Init ug_static 1472 256 (BADDR_TYPE_IPV4 [127, 0, 0, 1] [4, 56]) (BADDR_TYPE_IPV4 [127, 0, 0, 1] [21, 66])"

definition ug_ex_local :: BAddr where "ug_ex_local = BADDR_TYPE_IPV4 [172, 19, 0, 1] [200, 1]"
definition ug_ex_remote :: BAddr where "ug_ex_remote = BADDR_TYPE_IPV4 [1, 2, 3, 4] [1, 187]"

theorem SocksUdpGwClient_refines_lru_witness:
  "ug_abs (fst (SocksUdpGwClient_SubmitPacket (Some 7) True ug_ex0 ug_ex_local ug_ex_remote False [1])) = [(ug_ex_local, 7)]"
proof -
  have e: "ug_connections_list ug_ex0 = []" by (simp add: ug_ex0_def SocksUdpGwClient_Init_def)
  have s: "SocksUdpGwClient_SubmitPacket (Some 7) True ug_ex0 ug_ex_local ug_ex_remote False [1] =
    (fst (SocksUdpGwClient_SubmitPacket (Some 7) True ug_ex0 ug_ex_local ug_ex_remote False [1]),
     snd (SocksUdpGwClient_SubmitPacket (Some 7) True ug_ex0 ug_ex_local ug_ex_remote False [1]))" by simp
  show ?thesis
    using SocksUdpGwClient_refines_lru [OF ug_start [of "SocksUdpGwClient_Init ug_static 1472 256 (BADDR_TYPE_IPV4 [127, 0, 0, 1] [4, 56])
        (BADDR_TYPE_IPV4 [127, 0, 0, 1] [21, 66])", folded ug_ex0_def, unfolded ug_ex0_def] _ _ _ s [unfolded ug_ex0_def]] e
    by (simp add: ug_ex0_def [symmetric] ug_ex_local_def baddr_ok_def baddr_sized_def lru_access_def ug_abs_def)
qed

section \<open>Datagrams\<close>

text \<open>The bytes that the SOCKS header takes.\<close>

definition socks_udp_overhead :: "SocksUdpGwClient_connection \<Rightarrow> int" where
  "socks_udp_overhead c = (if con_is_dns c then 0 else if baddr_type (ca_remote_addr (con_conaddr c)) = 1 then 10 else 22)"

lemma connection_send_cases:
  assumes "baddr_ok (ca_remote_addr (con_conaddr c))"
  shows "\<exists>pkt. int (length pkt) = int (length data) + socks_udp_overhead c \<and>
    connection_send True client c data = (if int (length pkt) > ug_udp_mtu client then Buffer_overrun pkt else Written pkt) \<and>
    (con_is_dns c \<longrightarrow> pkt = data) \<and>
    (\<not> con_is_dns c \<longrightarrow> (\<exists>ip port. length port = 2 \<and>
       (ca_remote_addr (con_conaddr c) = BADDR_TYPE_IPV4 ip port \<and> length ip = 4 \<and> pkt = [0, 0, 0, 1] @ ip @ port @ data \<or>
        ca_remote_addr (con_conaddr c) = BADDR_TYPE_IPV6 ip port \<and> length ip = 16 \<and> pkt = [0, 0, 0, 4] @ ip @ port @ data)))"
  using assms
  by (cases "ca_remote_addr (con_conaddr c)"; cases "con_is_dns c")
    (auto simp: connection_send_def socks_udp_overhead_def socks_udp_header_bytes_def baddr_ok_def baddr_sized_def baddr_type_def Let_def)

text \<open>Claim C10. The SOCKS5 UDP encapsulation round trip: data that fits the MTU of the writer together with its SOCKS header (of 10 bytes for an
  IPv4 and 22 for an IPv6 destination, none on a DNS connection) is written by \<^verbatim>\<open>connection_send\<close> as one datagram, and
  \<^verbatim>\<open>dgram_handler_received\<close> takes such a datagram apart into exactly that address, port and payload and delivers it to the local address of the
  receiving connection. On a DNS connection the payload is passed unchanged in both directions.\<close>

theorem SocksUdp_datagram_roundtrip:
  assumes r: "baddr_ok (ca_remote_addr (con_conaddr o1))" and same: "con_is_dns o2 = con_is_dns o1"
    and mtu: "int (length data) + socks_udp_overhead o1 \<le> ug_udp_mtu client"
  shows "\<exists>pkt. connection_send True client o1 data = Written pkt \<and>
    (if con_is_dns o1 then pkt = data \<and>
      dgram_handler_received client o2 pkt = (o2, Some (ca_local_addr (con_conaddr o2), ca_remote_addr (con_conaddr o2), data))
    else dgram_handler_received client o2 pkt =
      (o2\<lparr>con_conaddr := (con_conaddr o2)\<lparr>ca_remote_addr := ca_remote_addr (con_conaddr o1)\<rparr>\<rparr>,
       Some (ca_local_addr (con_conaddr o2), ca_remote_addr (con_conaddr o1), data)))"
proof -
  obtain pkt where p: "connection_send True client o1 data = Written pkt" "con_is_dns o1 \<Longrightarrow> pkt = data"
    "\<not> con_is_dns o1 \<Longrightarrow> \<exists>ip port. length port = 2 \<and>
       (ca_remote_addr (con_conaddr o1) = BADDR_TYPE_IPV4 ip port \<and> length ip = 4 \<and> pkt = [0, 0, 0, 1] @ ip @ port @ data \<or>
        ca_remote_addr (con_conaddr o1) = BADDR_TYPE_IPV6 ip port \<and> length ip = 16 \<and> pkt = [0, 0, 0, 4] @ ip @ port @ data)"
    using connection_send_cases [OF r, of data client] mtu by auto
  have l: "int (length data) \<le> ug_udp_mtu client" using mtu by (simp add: socks_udp_overhead_def split: if_splits)
  show ?thesis
  proof (cases "con_is_dns o1")
    case True
    then show ?thesis using p(1,2) same l by (simp add: dgram_handler_received_def Let_def)
  next
    case False
    with p(3) show ?thesis using p(1) same l
      by (auto simp: dgram_handler_received_def Let_def BAddr_InitIPv4_def BAddr_MakeIPv4_def BAddr_InitIPv6_def BAddr_MakeIPv6_def)
  qed
qed

definition ug_ex_con :: SocksUdpGwClient_connection where
  "ug_ex_con = \<lparr>con_conaddr = \<lparr>ca_local_addr = ug_ex_local, ca_remote_addr = ug_ex_remote\<rparr>, con_first_data = [],
     con_is_dns = False, con_send_addr = ug_socks_server_addr ug_ex0\<rparr>"

lemma ug_ex_send: "connection_send True ug_ex0 ug_ex_con [42] = Written [0, 0, 0, 1, 1, 2, 3, 4, 1, 187, 42]"
  by (simp add: ug_ex_con_def ug_ex_remote_def connection_send_def socks_udp_header_bytes_def ug_ex0_def SocksUdpGwClient_Init_def Let_def)

theorem SocksUdp_datagram_roundtrip_witness:
  "snd (dgram_handler_received ug_ex0 ug_ex_con [0, 0, 0, 1, 1, 2, 3, 4, 1, 187, 42]) = Some (ug_ex_local, ug_ex_remote, [42])"
  using SocksUdp_datagram_roundtrip [of ug_ex_con ug_ex_con "[42]" ug_ex0] ug_ex_send
  by (auto simp: ug_ex_con_def ug_ex_remote_def baddr_ok_def baddr_sized_def baddr_type_def socks_udp_overhead_def ug_ex0_def SocksUdpGwClient_Init_def)

section \<open>Two defects\<close>

lemma udpgw_compute_mtu_eq:
  assumes "0 \<le> m" "m \<le> 2147483625"
  shows "udpgw_compute_mtu m = m + 22"
proof -
  let ?m = "bsize_fromint m :: u64 bsize_t"
  have m: "bsize_abs ?m = Some (nat m)"
    using assms by (simp add: bsize_fromint_def bsize_abs_def unsigned_of_int take_bit_int_eq_self)
  have "bsize_abs (bsize_add (bsize_fromsize (4 :: u64)) (bsize_add (bsize_max (bsize_fromsize 6) (bsize_fromsize 18)) ?m)) =
      Some (22 + nat m)"
    using assms by (simp add: bsize_abs_add bsize_abs_max m fits_def)
  then have "\<not> bs_is_overflow (bsize_add (bsize_fromsize (4 :: u64)) (bsize_add (bsize_max (bsize_fromsize 6) (bsize_fromsize 18)) ?m))"
    "unat (bs_value (bsize_add (bsize_fromsize (4 :: u64)) (bsize_add (bsize_max (bsize_fromsize 6) (bsize_fromsize 18)) ?m))) = 22 + nat m"
    by (auto simp: bsize_abs_def split: if_splits)
  moreover have u: "uint w = int (unat w)" for w :: u64 by simp
  ultimately show ?thesis using assms
    unfolding udpgw_compute_mtu_def bsize_toint_def Let_def INT_MAX_def u by (simp only:) simp
qed

text \<open>The packets written to the send buffer of a connection always fit \<^verbatim>\<open>udpgw_mtu\<close>, the size computed for
  the purpose, but not the MTU \<^verbatim>\<open>udp_mtu\<close> that \<^verbatim>\<open>connection_init\<close> gives to the writer and its buffer: the SOCKS header
  makes a packet of an ordinary connection 10 or 22 bytes longer than its payload, so a payload of nearly the
  maximal size is written beyond the space of the buffer.\<close>

lemma connection_send_exceeds_writer_mtu:
  assumes "\<not> con_is_dns con" "baddr_ok (ca_remote_addr (con_conaddr con))"
    and "0 \<le> ug_udp_mtu client" "ug_udp_mtu client \<le> 65535" "int (length data) \<le> ug_udp_mtu client"
    and "ug_udp_mtu client - 9 \<le> int (length data)"
  shows "\<exists>pkt. connection_send True client con data = Buffer_overrun pkt \<and> int (length pkt) \<le> udpgw_compute_mtu (ug_udp_mtu client)"
proof -
  obtain pkt where p: "int (length pkt) = int (length data) + socks_udp_overhead con"
    "connection_send True client con data = (if int (length pkt) > ug_udp_mtu client then Buffer_overrun pkt else Written pkt)"
    using connection_send_cases [OF assms(2), of data client] by blast
  have "10 \<le> socks_udp_overhead con" "socks_udp_overhead con \<le> 22" using assms(1) by (simp_all add: socks_udp_overhead_def)
  then have "ug_udp_mtu client < int (length pkt)" "int (length pkt) \<le> ug_udp_mtu client + 22" using p(1) assms(5,6) by linarith+
  then show ?thesis using p(2) udpgw_compute_mtu_eq [of "ug_udp_mtu client"] assms(3,4) by simp
qed

text \<open>A DNS query from a local address that already has an ordinary connection does not get a connection
  of its own, because the comparison of the DNS flag in \<^verbatim>\<open>find_connection\<close> never takes effect: it is written without
  SOCKS header to the socket that sends to the SOCKS server and never reaches the DNS gateway.\<close>

lemma dns_query_on_relay_connection:
  assumes reach: "ug_reach (SocksUdpGwClient_Init ug_static udp_mtu max_connections srv dns) o'" "0 < max_connections"
    and l: "baddr_ok l" and c: "c \<notin> set (ug_connections_list o')"
    and new: "map_of (ug_abs o') l = None"
    and s1: "SocksUdpGwClient_SubmitPacket (Some c) True o' l r1 False data1 = (o1, out1)"
    and s2: "SocksUdpGwClient_SubmitPacket x True o1 l r2 True query = (o2, out2)" and q: "int (length query) \<le> ug_udp_mtu o1"
  shows "out2 = Some (c, Written query) \<and> con_send_addr (ug_con o2 c) = ug_socks_server_addr o'"
proof -
  have inv: "ug_inv o'" by (rule ug_reach_inv [OF reach(1) ug_init_inv [OF reach(2)]])
  have sz: "baddr_sized l" using l by (simp add: baddr_ok_def)
  have "find_connection o' \<lparr>ca_local_addr = l, ca_remote_addr = r1\<rparr> False = None"
    using ug_abs_lookup [OF inv, of "\<lparr>ca_local_addr = l, ca_remote_addr = r1\<rparr>" False] sz new by simp
  note n = submit_new [OF inv sz this c s1]
  have "map_of (ug_abs o1) l = Some c"
  proof -
    have "(l, c) \<in> set (ug_abs o1)" using n new by (simp add: lru_access_def)
    moreover have "ug_inv o1" using n by blast
    then have "distinct (map fst (ug_abs o1))" by (simp add: ug_inv_def ug_abs_def comp_def distinct_map)
    ultimately show ?thesis by simp
  qed
  then have "find_connection o1 \<lparr>ca_local_addr = l, ca_remote_addr = r2\<rparr> True = Some c"
    using ug_abs_lookup [of o1 "\<lparr>ca_local_addr = l, ca_remote_addr = r2\<rparr>" True] n sz by simp
  from submit_existing [OF _ sz this s2, of 0 c] n q show ?thesis by (auto simp: connection_send_def)
qed

end
