(* ===== verification/Red_Base64.thy ===== *)
theory Red_Base64
  imports C_Prelude
begin

text \<open>
  \<^verbatim>\<open>redsocks/base64.c\<close>: Base64 encoding and decoding, as used for HTTP Basic authentication. C strings are lists of bytes
  without their terminator. The accumulators have 32 bits and wrap around, as they do for long inputs.
\<close>

unbundle bit_operations_syntax

definition c_str :: "string \<Rightarrow> byte list" where
  "c_str s = map of_char s"

section \<open>The code\<close>

definition BASE64_SIZE :: "int \<Rightarrow> int" where
  "BASE64_SIZE x = (x + 2) div 3 * 4 + 1"

definition base64_map2 :: "byte list" where
  "base64_map2 =
    [0x3e, 0xff, 0xff, 0xff, 0x3f, 0x34, 0x35, 0x36,
     0x37, 0x38, 0x39, 0x3a, 0x3b, 0x3c, 0x3d, 0xff,
     0xff, 0xff, 0xff, 0xff, 0xff, 0xff, 0x00, 0x01,
     0x02, 0x03, 0x04, 0x05, 0x06, 0x07, 0x08, 0x09,
     0x0a, 0x0b, 0x0c, 0x0d, 0x0e, 0x0f, 0x10, 0x11,
     0x12, 0x13, 0x14, 0x15, 0x16, 0x17, 0x18, 0x19,
     0xff, 0xff, 0xff, 0xff, 0xff, 0xff, 0x1a, 0x1b,
     0x1c, 0x1d, 0x1e, 0x1f, 0x20, 0x21, 0x22, 0x23,
     0x24, 0x25, 0x26, 0x27, 0x28, 0x29, 0x2a, 0x2b,
     0x2c, 0x2d, 0x2e, 0x2f, 0x30, 0x31, 0x32, 0x33]"

text \<open>The loop of \<^verbatim>\<open>base64_decode\<close>: position, accumulator, what was written to \<^verbatim>\<open>out\<close>, and the rest of the input.
  Bytes above 127 are rejected whether \<^verbatim>\<open>char\<close> is signed or not.\<close>

fun base64_decode_loop :: "int \<Rightarrow> nat \<Rightarrow> u32 \<Rightarrow> byte list \<Rightarrow> byte list \<Rightarrow> byte list option" where
  "base64_decode_loop out_size i v out [] = Some out"
| "base64_decode_loop out_size i v out (c # cs) =
     (if c = 0 \<or> c = of_char (CHR ''='') then Some out
      else
        (let index = (ucast c :: u32) - 43 in
         if unat index \<ge> length base64_map2 \<or> base64_map2 ! unat index = 0xff then None
         else
           (let v1 = push_bit 6 v + ucast (base64_map2 ! unat index);
                out1 = (if i mod 4 \<noteq> 0 \<and> int (length out) < out_size
                  then out @ [ucast (drop_bit (6 - 2 * (i mod 4)) v1)] else out)
            in base64_decode_loop out_size (Suc i) v1 out1 cs)))"

text \<open>The bytes written, whose number the function returns, or nothing for invalid input.\<close>

definition base64_decode :: "byte list \<Rightarrow> int \<Rightarrow> byte list option" where
  "base64_decode s out_size = base64_decode_loop out_size 0 0 [] s"

definition b64 :: "byte list" where
  "b64 = c_str ''ABCDEFGHIJKLMNOPQRSTUVWXYZabcdefghijklmnopqrstuvwxyz0123456789+/''"

text \<open>The inner \<^verbatim>\<open>do\<close> loop: the characters and the new \<^verbatim>\<open>i_shift\<close>; \<open>last\<close> is \<^verbatim>\<open>bytes_remaining == 0\<close>.\<close>

function base64_encode_emit :: "u32 \<Rightarrow> int \<Rightarrow> bool \<Rightarrow> byte list \<times> int" where
  "base64_encode_emit i_bits i_shift is_last =
     (let c = b64 ! unat (drop_bit (nat i_shift) (push_bit 6 i_bits) AND 0x3f);
          i_shift1 = i_shift - 6 in
      if i_shift1 > 6 \<or> (is_last \<and> i_shift1 > 0)
      then (case base64_encode_emit i_bits i_shift1 is_last of (cs, s) \<Rightarrow> (c # cs, s))
      else ([c], i_shift1))"
  by pat_completeness auto
termination
  by (relation "measure (\<lambda>(_, s, _). nat s)") auto

declare base64_encode_emit.simps [simp del]

fun base64_encode_loop :: "u32 \<Rightarrow> int \<Rightarrow> byte list \<Rightarrow> byte list" where
  "base64_encode_loop i_bits i_shift [] = []"
| "base64_encode_loop i_bits i_shift (x # xs) =
     (let i_bits1 = push_bit 8 i_bits + ucast x in
      case base64_encode_emit i_bits1 (i_shift + 8) (xs = []) of (cs, s) \<Rightarrow> cs @ base64_encode_loop i_bits1 s xs)"

function base64_encode_pad :: "byte list \<Rightarrow> byte list" where
  "base64_encode_pad out = (if length out mod 4 \<noteq> 0 then base64_encode_pad (out @ [of_char (CHR ''='')]) else out)"
  by pat_completeness auto
termination
  by (relation "measure (\<lambda>out. (4 - length out mod 4) mod 4)") (auto simp: mod_Suc)

declare base64_encode_pad.simps [simp del]

definition base64_encode :: "int \<Rightarrow> byte list \<Rightarrow> byte list option" where
  "base64_encode out_size bs =
     (let in_size = int (length bs) in
      if in_size \<ge> 4294967295 div 4 \<or> out_size < BASE64_SIZE in_size then None
      else Some (base64_encode_pad (base64_encode_loop 0 0 bs)))"

section \<open>Sextets\<close>

lemma mod_of_u32: "unat (w :: u32) = n mod 4294967296 \<Longrightarrow> k dvd 4294967296 \<Longrightarrow> unat w mod k = n mod k"
  by (simp add: mod_mod_cancel)

lemma push_6_mod: "unat (m :: byte) < 64 \<Longrightarrow> unat (push_bit 6 v + ucast m :: u32) mod 4096 = unat v mod 64 * 64 + unat m"
proof -
  assume m: "unat m < 64"
  have "(push_bit 6 v + ucast m :: u32) = of_nat (unat v * 64 + unat m)" by (simp add: push_bit_eq_mult mult.commute)
  then have "unat (push_bit 6 v + ucast m :: u32) = (unat v * 64 + unat m) mod 4294967296" by (simp only: unat_of_nat) simp
  then have "unat (push_bit 6 v + ucast m :: u32) mod 4096 = (unat v * 64 + unat m) mod 4096" by (rule mod_of_u32) simp
  then show ?thesis using m mod_mult2_eq [of "unat v * 64 + unat m" 64 64] by simp
qed

lemma push_8_mod: "unat (push_bit 8 v + ucast (x :: byte) :: u32) mod 16384 = unat v mod 64 * 256 + unat x"
proof -
  have x: "unat x < 256" using unsigned_less [of x] by simp
  have "(push_bit 8 v + ucast x :: u32) = of_nat (unat v * 256 + unat x)" by (simp add: push_bit_eq_mult mult.commute)
  then have "unat (push_bit 8 v + ucast x :: u32) = (unat v * 256 + unat x) mod 4294967296" by (simp only: unat_of_nat) simp
  then have "unat (push_bit 8 v + ucast x :: u32) mod 16384 = (unat v * 256 + unat x) mod 16384" by (rule mod_of_u32) simp
  then show ?thesis using x mod_mult2_eq [of "unat v * 256 + unat x" 256 64] by simp
qed

lemma sextet_value: "unat (drop_bit k (push_bit 6 w) AND 0x3f :: u32) = unat w * 64 mod 4294967296 div 2 ^ k mod 64"
proof -
  have "(0x3f :: u32) = mask 6" by (simp add: mask_eq_exp_minus_1)
  then have "drop_bit k (push_bit 6 w) AND 0x3f = take_bit 6 (drop_bit k (push_bit 6 w))" by (simp only: take_bit_eq_mask)
  then have "unat (drop_bit k (push_bit 6 w) AND 0x3f :: u32) = take_bit 6 (drop_bit k (unat (push_bit 6 w)))"
    by (simp only: unsigned_take_bit_eq unsigned_drop_bit_eq)
      (simp only: take_bit_nat_eq_self [OF unsigned_less])
  then show ?thesis
    by (simp add: take_bit_eq_mod drop_bit_eq_div push_bit_eq_mult unat_word_ariths mult.commute)
qed

lemma div_mod_64: "0 < d \<Longrightarrow> d * 64 dvd m \<Longrightarrow> z div d mod 64 = z mod m div d mod (64 :: nat)"
proof -
  assume d: "0 < d" "d * 64 dvd m"
  have *: "y div d mod 64 = y mod (d * 64) div d" for y using d(1) by (simp add: mod_mult2_eq)
  have "z mod m mod (d * 64) = z mod (d * 64)" using d(2) by (simp add: mod_mod_cancel)
  then show ?thesis using * [of z] * [of "z mod m"] by simp
qed

lemma sextet_reduce: "unat (drop_bit k (push_bit 6 w) AND 0x3f :: u32) = 64 * (unat w mod 67108864) div 2 ^ k mod 64"
  unfolding sextet_value using mult_mod_right [of 64 "unat w" 67108864] by (simp add: mult.commute)

lemma sextets:
  fixes w :: u32
  assumes "unat w mod 16384 = r"
  shows "unat (drop_bit 14 (push_bit 6 w) AND 0x3f) = r div 256 mod 64" "unat (drop_bit 12 (push_bit 6 w) AND 0x3f) = r div 64 mod 64"
    "unat (drop_bit 10 (push_bit 6 w) AND 0x3f) = r div 16 mod 64" "unat (drop_bit 8 (push_bit 6 w) AND 0x3f) = r div 4 mod 64"
    "unat (drop_bit 6 (push_bit 6 w) AND 0x3f) = r mod 64"
    "unat (drop_bit 4 (push_bit 6 w) AND 0x3f) = r mod 16 * 4" "unat (drop_bit 2 (push_bit 6 w) AND 0x3f) = r mod 4 * 16"
proof -
  define z where "z = unat w mod 67108864"
  have r: "z mod 16384 = r" using assms by (simp add: z_def mod_mod_cancel)
  have s: "unat (drop_bit k (push_bit 6 w) AND 0x3f) = 64 * z div 2 ^ k mod 64" for k unfolding z_def by (rule sextet_reduce)
  have e: "64 * z div (64 * d) = z div d" for d by simp
  have m: "z mod 16 = r mod 16" "z mod 4 = r mod 4" using r by (auto simp: mod_mod_cancel)
  show "unat (drop_bit 14 (push_bit 6 w) AND 0x3f) = r div 256 mod 64"
    using s [of 14] e [of 256] div_mod_64 [of 256 16384 z] r by simp
  show "unat (drop_bit 12 (push_bit 6 w) AND 0x3f) = r div 64 mod 64" using s [of 12] e [of 64] div_mod_64 [of 64 16384 z] r by simp
  show "unat (drop_bit 10 (push_bit 6 w) AND 0x3f) = r div 16 mod 64" using s [of 10] e [of 16] div_mod_64 [of 16 16384 z] r by simp
  show "unat (drop_bit 8 (push_bit 6 w) AND 0x3f) = r div 4 mod 64" using s [of 8] e [of 4] div_mod_64 [of 4 16384 z] r by simp
  show "unat (drop_bit 6 (push_bit 6 w) AND 0x3f) = r mod 64" using s [of 6] e [of 1] div_mod_64 [of 1 16384 z] r by simp
  have "4 * z mod (4 * 16) = 4 * (z mod 16)" "16 * z mod (16 * 4) = 16 * (z mod 4)" by (simp_all only: mult_mod_right)
  moreover have "64 * z div 16 = 4 * z" "64 * z div 4 = 16 * z" by simp_all
  ultimately show "unat (drop_bit 4 (push_bit 6 w) AND 0x3f) = r mod 16 * 4" "unat (drop_bit 2 (push_bit 6 w) AND 0x3f) = r mod 4 * 16"
    using s [of 4] s [of 2] m by simp_all
qed

text \<open>The encoding of the standard: three bytes are four characters, one or two bytes at the end are two or three.\<close>

fun b64_ref :: "byte list \<Rightarrow> nat list" where
  "b64_ref [] = []"
| "b64_ref [a] = [unat a div 4, unat a mod 4 * 16]"
| "b64_ref [a, b] = [unat a div 4, unat a mod 4 * 16 + unat b div 16, unat b mod 16 * 4]"
| "b64_ref (a # b # c # xs) =
     [unat a div 4, unat a mod 4 * 16 + unat b div 16, unat b mod 16 * 4 + unat c div 64, unat c mod 64] @ b64_ref xs"

lemma b64_ref_bound: "k \<in> set (b64_ref xs) \<Longrightarrow> k < 64"
proof (induction xs rule: b64_ref.induct)
  case (4 a b c xs)
  have "unat a < 256" "unat b < 256" "unat c < 256" using unsigned_less [of a] unsigned_less [of b] unsigned_less [of c] by simp_all
  then have "unat a div 4 < 64" "unat b div 16 < 16" "unat c div 64 < 4" by (simp_all add: less_mult_imp_div_less)
  moreover have "unat a mod 4 < 4" "unat b mod 16 < 16" "unat c mod 64 < 64" by simp_all
  ultimately have "unat a div 4 < 64" "unat a mod 4 * 16 + unat b div 16 < 64" "unat b mod 16 * 4 + unat c div 64 < 64" "unat c mod 64 < 64"
    by linarith+
  then show ?case using 4 by auto
next
  case (3 a b)
  have "unat a < 256" "unat b < 256" using unsigned_less [of a] unsigned_less [of b] by simp_all
  then have "unat a div 4 < 64" "unat b div 16 < 16" by (simp_all add: less_mult_imp_div_less)
  moreover have "unat a mod 4 < 4" "unat b mod 16 < 16" by simp_all
  ultimately have "unat a div 4 < 64" "unat a mod 4 * 16 + unat b div 16 < 64" "unat b mod 16 * 4 < 64" by linarith+
  then show ?case using 3 by auto
next
  case (2 a)
  have "unat a < 256" using unsigned_less [of a] by simp
  then have "unat a div 4 < 64" by (simp add: less_mult_imp_div_less)
  moreover have "unat a mod 4 < 4" by simp
  ultimately have "unat a div 4 < 64" "unat a mod 4 * 16 < 64" by linarith+
  then show ?case using 2 by auto
qed simp

section \<open>The encoder\<close>

definition b64_char :: "nat \<Rightarrow> u32 \<Rightarrow> byte" where
  "b64_char k w = b64 ! unat (drop_bit k (push_bit 6 w) AND 0x3f)"

lemma emit_step:
  "base64_encode_emit w s l =
    (if s - 6 > 6 \<or> (l \<and> s - 6 > 0) then (case base64_encode_emit w (s - 6) l of (cs, s') \<Rightarrow> (b64_char (nat s) w # cs, s'))
     else ([b64_char (nat s) w], s - 6))"
  by (subst base64_encode_emit.simps) (simp only: b64_char_def Let_def)

lemma emit_simps:
  "base64_encode_emit w 8 l = (if l then ([b64_char 8 w, b64_char 2 w], - 4) else ([b64_char 8 w], 2))"
  "base64_encode_emit w 10 l = (if l then ([b64_char 10 w, b64_char 4 w], - 2) else ([b64_char 10 w], 4))"
  "base64_encode_emit w 12 l = (if l then ([b64_char 12 w, b64_char 6 w], 0) else ([b64_char 12 w], 6))"
  "base64_encode_emit w 14 l = (case base64_encode_emit w 8 l of (cs, s) \<Rightarrow> (b64_char 14 w # cs, s))"
  by (simp_all add: emit_step [of w 8] emit_step [of w 10] emit_step [of w 12] emit_step [of w 14] emit_step [of w 2]
      emit_step [of w 4] emit_step [of w 6])

lemma loop_pending:
  assumes "xs \<noteq> []"
  shows "base64_encode_loop v 6 xs = b64 ! (unat v mod 64) # base64_encode_loop v 0 xs"
proof -
  obtain x ys where xs: "xs = x # ys" using assms by (cases xs) auto
  let ?w = "push_bit 8 v + ucast x :: u32"
  have "unat x < 256" using unsigned_less [of x] by simp
  then have "unat (drop_bit 14 (push_bit 6 ?w) AND 0x3f) = unat v mod 64" using sextets(1) [OF push_8_mod [of v x]] by simp
  then show ?thesis unfolding xs by (simp add: emit_simps(4) b64_char_def Let_def split: prod.split)
qed

lemma group_arith:
  fixes a b c :: nat
  assumes "a < 256" "b < 256" "c < 256"
  shows "(p * 256 + a) div 4 mod 64 = a div 4" "(p * 256 + a) mod 4 = a mod 4"
    "(a mod 64 * 256 + b) div 16 mod 64 = a mod 4 * 16 + b div 16" "(a mod 64 * 256 + b) mod 16 = b mod 16"
    "(b mod 64 * 256 + c) div 64 mod 64 = b mod 16 * 4 + c div 64" "(b mod 64 * 256 + c) mod 64 = c mod 64"
proof -
  have d: "d dvd 256 \<Longrightarrow> (q * 256 + x) mod d = x mod d" for d q x :: nat
    using mod_add_left_eq [of "q * 256" d x] by simp
  have a: "(p * 256 + a) div 4 = p * 64 + a div 4" by (simp add: div_add1_eq)
  show "(p * 256 + a) div 4 mod 64 = a div 4" unfolding a using assms(1) by (simp add: less_mult_imp_div_less)
  show "(p * 256 + a) mod 4 = a mod 4" "(a mod 64 * 256 + b) mod 16 = b mod 16" "(b mod 64 * 256 + c) mod 64 = c mod 64"
    using d [of 4 p a] d [of 16 "a mod 64" b] d [of 64 "b mod 64" c] by simp_all
  have m: "a mod 64 = a mod 4 + 4 * (a div 4 mod 16)" "b mod 64 = b mod 16 + 16 * (b div 16 mod 4)"
    using mod_mult2_eq [of a 4 16] mod_mult2_eq [of b 16 4] by simp_all
  have "(a mod 64 * 256 + b) div 16 = a mod 64 * 16 + b div 16" by (simp add: div_add1_eq)
  then have "(a mod 64 * 256 + b) div 16 mod 64 = (a mod 4 * 16 + b div 16 + 64 * (a div 4 mod 16)) mod 64" unfolding m(1) by (simp add: algebra_simps)
  moreover have "a mod 4 * 16 + b div 16 < 64"
  proof -
    have "a mod 4 < 4" "b div 16 < 16" using assms(2) by (simp_all add: less_mult_imp_div_less)
    then show ?thesis by linarith
  qed
  ultimately show "(a mod 64 * 256 + b) div 16 mod 64 = a mod 4 * 16 + b div 16" by simp
  have "(b mod 64 * 256 + c) div 64 = b mod 64 * 4 + c div 64" by (simp add: div_add1_eq)
  then have "(b mod 64 * 256 + c) div 64 mod 64 = (b mod 16 * 4 + c div 64 + 64 * (b div 16 mod 4)) mod 64" unfolding m(2) by (simp add: algebra_simps)
  moreover have "b mod 16 * 4 + c div 64 < 64"
  proof -
    have "b mod 16 < 16" "c div 64 < 4" using assms(3) by (simp_all add: less_mult_imp_div_less)
    then show ?thesis by linarith
  qed
  ultimately show "(b mod 64 * 256 + c) div 64 mod 64 = b mod 16 * 4 + c div 64" by simp
qed

lemma push_8_mod_64: "unat (push_bit 8 v + ucast (x :: byte) :: u32) mod 64 = unat x mod 64"
proof -
  have "unat (push_bit 8 v + ucast x :: u32) mod 64 = (unat v mod 64 * 256 + unat x) mod 64"
    using push_8_mod [of v x] mod_mod_cancel [of 64 16384 "unat (push_bit 8 v + ucast x :: u32)"] by simp
  also have "\<dots> = unat x mod 64" using mod_add_left_eq [of "unat v mod 64 * 256" 64 "unat x"] by simp
  finally show ?thesis .
qed

lemma encode_loop_ref: "base64_encode_loop v 0 xs = map ((!) b64) (b64_ref xs)"
proof (induction xs arbitrary: v rule: b64_ref.induct)
  case 1
  then show ?case by simp
next
  case (2 a)
  have a: "unat a < 256" using unsigned_less [of a] by simp
  show ?case by (simp add: emit_simps b64_char_def Let_def sextets [OF push_8_mod] group_arith [OF a a a])
next
  case (3 a b)
  let ?v = "push_bit 8 v + ucast a :: u32"
  have ab: "unat a < 256" "unat b < 256" using unsigned_less [of a] unsigned_less [of b] by simp_all
  have m: "unat ?v mod 64 = unat a mod 64" by (rule push_8_mod_64)
  show ?case by (simp add: emit_simps b64_char_def Let_def sextets [OF push_8_mod] group_arith(1) [OF ab(1) ab(1) ab(1)]
        m group_arith(3,4) [OF ab ab(1)])
next
  case (4 a b c xs)
  let ?v = "push_bit 8 v + ucast a :: u32" and ?u = "push_bit 8 (push_bit 8 v + ucast a) + ucast b :: u32"
  let ?w = "push_bit 8 ?u + ucast c :: u32"
  have abc: "unat a < 256" "unat b < 256" "unat c < 256" using unsigned_less [of a] unsigned_less [of b] unsigned_less [of c] by simp_all
  have m: "unat ?v mod 64 = unat a mod 64" "unat ?u mod 64 = unat b mod 64" "unat ?w mod 64 = unat c mod 64"
    by (rule push_8_mod_64)+
  have "base64_encode_loop v 0 (a # b # c # xs) = map ((!) b64) [unat a div 4, unat a mod 4 * 16 + unat b div 16,
      unat b mod 16 * 4 + unat c div 64] @ (if xs = [] then [b64 ! (unat c mod 64)] else base64_encode_loop ?w 6 xs)"
    by (simp add: emit_simps b64_char_def Let_def sextets [OF push_8_mod] group_arith(1) [OF abc(1) abc(1) abc(1)] m
        group_arith(3,4) [OF abc(1,2) abc(1)] group_arith(5,6) [OF abc])
  also have "(if xs = [] then [b64 ! (unat c mod 64)] else base64_encode_loop ?w 6 xs) = b64 ! (unat c mod 64) # map ((!) b64) (b64_ref xs)"
    using loop_pending [of xs ?w] m(3) "4.IH" by simp
  finally show ?case by simp
qed

section \<open>The decoder\<close>

text \<open>Each character of the alphabet stands for its position.\<close>

lemma b64_map2: "\<forall>k \<in> set [0..<64]. b64 ! k \<noteq> 0 \<and> b64 ! k \<noteq> of_char (CHR ''='') \<and>
    unat ((ucast (b64 ! k) :: u32) - 43) < length base64_map2 \<and> unat (base64_map2 ! unat ((ucast (b64 ! k) :: u32) - 43)) = k"
  unfolding b64_def c_str_def base64_map2_def by (simp add: upt_rec)

lemma decode_step:
  assumes "k < 64"
  shows "base64_decode_loop n i v out (b64 ! k # cs) = base64_decode_loop n (Suc i) (push_bit 6 v + ucast (of_nat k :: byte))
    (if i mod 4 \<noteq> 0 \<and> int (length out) < n
     then out @ [ucast (drop_bit (6 - 2 * (i mod 4)) (push_bit 6 v + ucast (of_nat k :: byte) :: u32))] else out) cs"
proof -
  have k: "b64 ! k \<noteq> 0" "b64 ! k \<noteq> of_char (CHR ''='')" "unat ((ucast (b64 ! k) :: u32) - 43) < length base64_map2"
    "unat (base64_map2 ! unat ((ucast (b64 ! k) :: u32) - 43)) = k" using b64_map2 assms by auto
  have m: "base64_map2 ! unat ((ucast (b64 ! k) :: u32) - 43) = of_nat k" using k(4) by (metis of_nat_unat ucast_id)
  moreover have "(of_nat k :: byte) \<noteq> 0xff"
  proof
    assume "(of_nat k :: byte) = 0xff"
    then have "unat (of_nat k :: byte) = 255" by simp
    then show False using assms by (simp add: unat_of_nat)
  qed
  ultimately show ?thesis using k by (simp add: Let_def)
qed

definition sx :: "u32 \<Rightarrow> nat \<Rightarrow> u32" where "sx v k = push_bit 6 v + ucast (of_nat k :: byte)"

lemma sx_mod: "k < 64 \<Longrightarrow> unat (sx v k) mod 4096 = unat v mod 64 * 64 + k"
  unfolding sx_def using push_6_mod [of "of_nat k" v] by (simp add: unat_of_nat)

lemma sx_mod_64: "k < 64 \<Longrightarrow> unat (sx v k) mod 64 = k"
  using sx_mod [of k v] mod_mod_cancel [of 64 4096 "unat (sx v k)"] by simp

lemma out_byte: "unat (ucast (drop_bit d w :: u32) :: byte) = unat w div 2 ^ d mod 256"
proof -
  have "unat (drop_bit d w) = unat w div 2 ^ d"
    by (subst unsigned_drop_bit_eq) (simp only: take_bit_nat_eq_self [OF unsigned_less] drop_bit_eq_div)
  then show ?thesis by (simp add: unsigned_ucast_eq take_bit_eq_mod)
qed

lemma decoded_bytes:
  assumes "k0 < 64" "k1 < 64" "k2 < 64" "k3 < 64"
  shows "unat (ucast (drop_bit 4 (sx (sx v k0) k1)) :: byte) = (k0 * 64 + k1) div 16"
    "unat (ucast (drop_bit 2 (sx (sx v k1) k2)) :: byte) = (k1 mod 16 * 64 + k2) div 4"
    "unat (ucast (drop_bit 0 (sx (sx v k2) k3)) :: byte) = k2 mod 4 * 64 + k3"
proof -
  have m: "unat (sx (sx v j) k) mod 4096 = j * 64 + k" if "j < 64" "k < 64" for j k
    using sx_mod [OF that(2), of "sx v j"] sx_mod_64 [OF that(1), of v] by simp
  have "(k0 * 64 + k1) div 16 < 256" using assms by (simp add: less_mult_imp_div_less)
  moreover have "unat (sx (sx v k0) k1) div 16 mod 256 = unat (sx (sx v k0) k1) mod 4096 div 16 mod 256"
    using mod_mult2_eq [of "unat (sx (sx v k0) k1)" 16 256] by simp
  ultimately show "unat (ucast (drop_bit 4 (sx (sx v k0) k1)) :: byte) = (k0 * 64 + k1) div 16"
    using m [OF assms(1,2)] by (simp add: out_byte)
  have "unat (sx (sx v k1) k2) mod 1024 = (k1 * 64 + k2) mod 1024"
    using m [OF assms(2,3)] mod_mod_cancel [of 1024 4096 "unat (sx (sx v k1) k2)"] by simp
  also have "\<dots> = k1 mod 16 * 64 + k2" using mod_mult2_eq [of "k1 * 64 + k2" 64 16] assms by simp
  finally have "unat (sx (sx v k1) k2) mod 1024 = k1 mod 16 * 64 + k2" .
  moreover have "unat (sx (sx v k1) k2) div 4 mod 256 = unat (sx (sx v k1) k2) mod 1024 div 4"
    using mod_mult2_eq [of "unat (sx (sx v k1) k2)" 4 256] by simp
  ultimately show "unat (ucast (drop_bit 2 (sx (sx v k1) k2)) :: byte) = (k1 mod 16 * 64 + k2) div 4" by (simp add: out_byte)
  have "unat (sx (sx v k2) k3) mod 256 = (k2 * 64 + k3) mod 256"
    using m [OF assms(3,4)] mod_mod_cancel [of 256 4096 "unat (sx (sx v k2) k3)"] by simp
  also have "\<dots> = k2 mod 4 * 64 + k3" using mod_mult2_eq [of "k2 * 64 + k3" 64 4] assms by simp
  finally show "unat (ucast (drop_bit 0 (sx (sx v k2) k3)) :: byte) = k2 mod 4 * 64 + k3" by (simp add: unsigned_ucast_eq take_bit_eq_mod)
qed

lemma decode_stop: "cs = [] \<or> hd cs = of_char (CHR ''='') \<Longrightarrow> base64_decode_loop n i v out cs = Some out"
  by (cases cs) auto

declare base64_decode_loop.simps(2) [simp del]

lemma b64_ref_bounds: "list_all (\<lambda>k. k < 64) (b64_ref xs)"
  by (simp add: list_all_iff b64_ref_bound)

lemma unat_byte: "unat (x :: byte) < 256"
  using unsigned_less [of x] by simp

lemma byte_eqI: "unat x = n \<Longrightarrow> n = unat y \<Longrightarrow> x = (y :: byte)"
  by (rule unsigned_word_eqI) simp

lemma byte_from_parts: "(unat a div 4 * 64 + (unat a mod 4 * 16 + r)) div 16 = unat (a :: byte)" if "r < 16"
proof -
  have "unat a div 4 * 64 + (unat a mod 4 * 16 + r) = 16 * unat a + r" using div_mult_mod_eq [of "unat a" 4] by linarith
  then show ?thesis using that by simp
qed

lemma byte_from_parts2: "((p * 16 + unat b div 16) mod 16 * 64 + (unat b mod 16 * 4 + r)) div 4 = unat (b :: byte)" if "r < 4"
proof -
  have "unat b < 256" using unsigned_less [of b] by simp
  then have "(p * 16 + unat b div 16) mod 16 = unat b div 16" by (simp add: less_mult_imp_div_less)
  moreover have "unat b div 16 * 64 + (unat b mod 16 * 4 + r) = 4 * unat b + r" using div_mult_mod_eq [of "unat b" 16] by linarith
  ultimately show ?thesis using that by simp
qed

lemma byte_from_parts': "(unat a div 4 * 64 + unat a mod 4 * 16) div 16 = unat (a :: byte)"
    and byte_from_parts2': "((p * 16 + unat b div 16) mod 16 * 64 + unat b mod 16 * 4) div 4 = unat (b :: byte)"
  using byte_from_parts [of 0 a] byte_from_parts2 [of 0 p b] by (simp_all only: add_0_right zero_less_numeral)

lemma byte_from_parts3: "(p * 4 + unat c div 64) mod 4 * 64 + unat c mod 64 = unat (c :: byte)"
proof -
  have "unat c < 256" using unsigned_less [of c] by simp
  then have "(p * 4 + unat c div 64) mod 4 = unat c div 64" by (simp add: less_mult_imp_div_less)
  then show ?thesis by (simp add: mult.commute)
qed

lemma decode_first:
  assumes "k < 64" "i mod 4 = 0"
  shows "base64_decode_loop n i v out (b64 ! k # cs) = base64_decode_loop n (Suc i) (sx v k) out cs"
  unfolding decode_step [OF assms(1)] sx_def using assms(2) by simp

lemma decode_next:
  assumes "k < 64" "i mod 4 = j" "j \<noteq> 0" "int (length out) < n" "ucast (drop_bit (6 - 2 * j) (sx v k)) = x"
  shows "base64_decode_loop n i v out (b64 ! k # cs) = base64_decode_loop n (Suc i) (sx v k) (out @ [x]) cs"
  unfolding decode_step [OF assms(1)] using assms(2-) unfolding sx_def by simp

lemma decode_ref:
  assumes "i mod 4 = 0" "int (length out + length xs) \<le> n" "rest = [] \<or> hd rest = of_char (CHR ''='')"
  shows "base64_decode_loop n i v out (map ((!) b64) (b64_ref xs) @ rest) = Some (out @ xs)"
  using assms
proof (induction xs arbitrary: i v out rule: b64_ref.induct)
  case (4 a b c xs)
  let ?k0 = "unat a div 4" and ?k1 = "unat a mod 4 * 16 + unat b div 16" and ?k2 = "unat b mod 16 * 4 + unat c div 64" and ?k3 = "unat c mod 64"
  have k: "?k0 < 64" "?k1 < 64" "?k2 < 64" "?k3 < 64" using b64_ref_bounds [of "[a, b, c]"] by simp_all
  have i: "Suc i mod 4 = 1" "Suc (Suc i) mod 4 = 2" "Suc (Suc (Suc i)) mod 4 = 3" "Suc (Suc (Suc (Suc i))) mod 4 = 0" using "4.prems"(1) by presburger+
  have s: "unat b div 16 < 16" "unat c div 64 < 4"
    using unat_byte [of b] unat_byte [of c] by (simp_all add: less_mult_imp_div_less)
  note d = decoded_bytes [OF k]
  have o: "(ucast (drop_bit 4 (sx (sx v ?k0) ?k1)) :: byte) = a" "(ucast (drop_bit 2 (sx (sx w ?k1) ?k2)) :: byte) = b"
      "(ucast (drop_bit 0 (sx (sx w ?k2) ?k3)) :: byte) = c" for w
    using byte_eqI [OF d(1) byte_from_parts [OF s(1)]] byte_eqI [OF d(2) byte_from_parts2 [OF s(2)]] byte_eqI [OF d(3) byte_from_parts3] by blast+
  have "base64_decode_loop n i v out (map ((!) b64) (b64_ref (a # b # c # xs)) @ rest) =
      base64_decode_loop n (Suc (Suc (Suc (Suc i)))) (sx (sx (sx (sx v ?k0) ?k1) ?k2) ?k3) (out @ [a, b, c]) (map ((!) b64) (b64_ref xs) @ rest)"
    using decode_first [OF k(1) "4.prems"(1)] decode_next [OF k(2) i(1), of out n "sx v ?k0" a]
      decode_next [OF k(3) i(2), of "out @ [a]" n "sx (sx v ?k0) ?k1" b]
      decode_next [OF k(4) i(3), of "out @ [a, b]" n "sx (sx (sx v ?k0) ?k1) ?k2" c] "4.prems"(2) o by simp
  then show ?case using "4.IH" [of "Suc (Suc (Suc (Suc i)))" "out @ [a, b, c]"] "4.prems" i(4) by simp
next
  case (3 a b)
  let ?k0 = "unat a div 4" and ?k1 = "unat a mod 4 * 16 + unat b div 16" and ?k2 = "unat b mod 16 * 4"
  have k: "?k0 < 64" "?k1 < 64" "?k2 < 64" using b64_ref_bounds [of "[a, b]"] by simp_all
  have i: "Suc i mod 4 = 1" "Suc (Suc i) mod 4 = 2" using "3.prems"(1) by presburger+
  have s: "unat b div 16 < 16" using unat_byte [of b] by (simp add: less_mult_imp_div_less)
  note d = decoded_bytes [OF k k(1)]
  have o: "(ucast (drop_bit 4 (sx (sx v ?k0) ?k1)) :: byte) = a" "(ucast (drop_bit 2 (sx (sx w ?k1) ?k2)) :: byte) = b" for w
    using byte_eqI [OF d(1) byte_from_parts [OF s(1)]] byte_eqI [OF d(2) byte_from_parts2'] by blast+
  show ?case
    using decode_first [OF k(1) "3.prems"(1)] decode_next [OF k(2) i(1), of out n "sx v ?k0" a]
      decode_next [OF k(3) i(2), of "out @ [a]" n "sx (sx v ?k0) ?k1" b] "3.prems"(2,3) o by (simp add: decode_stop)
next
  case (2 a)
  let ?k0 = "unat a div 4" and ?k1 = "unat a mod 4 * 16"
  have k: "?k0 < 64" "?k1 < 64" using b64_ref_bounds [of "[a]"] by simp_all
  have i: "Suc i mod 4 = 1" using "2.prems"(1) by presburger
  note d = decoded_bytes [OF k k]
  have o: "(ucast (drop_bit 4 (sx (sx v ?k0) ?k1)) :: byte) = a"
    using byte_eqI [OF d(1) byte_from_parts'] by blast
  show ?case
    using decode_first [OF k(1) "2.prems"(1)] decode_next [OF k(2) i(1), of out n "sx v ?k0" a] "2.prems"(2,3) o by (simp add: decode_stop)
qed (simp add: decode_stop)

section \<open>Encoding and decoding together\<close>

lemma encode_pad: "base64_encode_pad out = out @ replicate ((4 - length out mod 4) mod 4) (of_char (CHR ''=''))"
proof (induction out rule: base64_encode_pad.induct)
  case (1 out)
  show ?case
  proof (cases "length out mod 4 = 0")
    case True
    then show ?thesis by (subst base64_encode_pad.simps) simp
  next
    case False
    then have "(4 - length out mod 4) mod 4 = Suc ((4 - length (out @ [of_char (CHR ''='')]) mod 4) mod 4)" by (auto simp: mod_Suc)
    moreover have "base64_encode_pad out = base64_encode_pad (out @ [of_char (CHR ''='')])"
      using False by (subst base64_encode_pad.simps) simp
    ultimately show ?thesis using 1 False by simp
  qed
qed

lemma b64_ref_length: "length (b64_ref xs) + (4 - length (b64_ref xs) mod 4) mod 4 = (length xs + 2) div 3 * 4"
proof (induction xs rule: b64_ref.induct)
  case (4 a b c xs)
  let ?l = "length (b64_ref xs)"
  have "length (b64_ref (a # b # c # xs)) mod 4 = ?l mod 4" by simp
  moreover have "(length (a # b # c # xs) + 2) div 3 = Suc ((length xs + 2) div 3)" by simp
  ultimately show ?case using 4 by simp
qed simp_all

lemma b64_not_stop: "k < 64 \<Longrightarrow> b64 ! k \<noteq> 0 \<and> b64 ! k \<noteq> of_char (CHR ''='')"
  using b64_map2 by auto

lemma base64_encode_eq:
  "base64_encode out_size bs = (if int (length bs) < 1073741823 \<and> BASE64_SIZE (int (length bs)) \<le> out_size
     then Some (map ((!) b64) (b64_ref bs) @ replicate ((4 - length (b64_ref bs) mod 4) mod 4) (of_char (CHR ''=''))) else None)"
  unfolding base64_encode_def Let_def encode_loop_ref encode_pad by auto

lemma base64_encode_total: "int (length bs) < 1073741823 \<Longrightarrow> \<exists>s. base64_encode (BASE64_SIZE (int (length bs))) bs = Some s"
  by (simp add: base64_encode_eq)

lemma base64_decode_encode:
  assumes "base64_encode out_size bs = Some s" "int (length bs) \<le> n"
  shows "base64_decode s n = Some bs"
proof -
  let ?pad = "replicate ((4 - length (b64_ref bs) mod 4) mod 4) (of_char (CHR ''='') :: byte)"
  have "?pad = [] \<or> hd ?pad = of_char (CHR ''='')" by (cases "(4 - length (b64_ref bs) mod 4) mod 4") simp_all
  moreover have "s = map ((!) b64) (b64_ref bs) @ ?pad" using assms(1) by (simp add: base64_encode_eq split: if_splits)
  ultimately show ?thesis unfolding base64_decode_def using decode_ref [of 0 "[]" bs n ?pad 0] assms(2) by simp
qed

lemma base64_encode_size:
  assumes "base64_encode out_size bs = Some s"
  shows "int (length s) + 1 = BASE64_SIZE (int (length bs)) \<and> 0 \<notin> set s"
proof -
  let ?s = "map ((!) b64) (b64_ref bs) @ replicate ((4 - length (b64_ref bs) mod 4) mod 4) (of_char (CHR ''='') :: byte)"
  have "length ?s = (length bs + 2) div 3 * 4" using b64_ref_length [of bs] by simp
  then have "int (length ?s) + 1 = BASE64_SIZE (int (length bs))" by (simp add: BASE64_SIZE_def zdiv_int)
  moreover have "0 \<notin> set ?s" using b64_not_stop b64_ref_bound by fastforce
  moreover have "s = ?s" using assms by (simp add: base64_encode_eq split: if_splits)
  ultimately show ?thesis by blast
qed

text \<open>Claim C11: \<^verbatim>\<open>base64_encode\<close> succeeds exactly when the input is not too long and the buffer has the size that \<^verbatim>\<open>BASE64_SIZE\<close> gives; then the result
  fills it exactly, with its terminator, contains no zero byte, and \<^verbatim>\<open>base64_decode\<close> into a buffer that is large enough gives the input
  back, for every input and although the accumulators of both functions overflow.\<close>

theorem base64_roundtrip:
  "(base64_encode out_size bs \<noteq> None \<longleftrightarrow> int (length bs) < 1073741823 \<and> BASE64_SIZE (int (length bs)) \<le> out_size) \<and>
   (\<forall>s n. base64_encode out_size bs = Some s \<and> int (length bs) \<le> n \<longrightarrow>
      int (length s) + 1 = BASE64_SIZE (int (length bs)) \<and> 0 \<notin> set s \<and> base64_decode s n = Some bs)"
proof -
  have "base64_encode out_size bs \<noteq> None \<longleftrightarrow> int (length bs) < 1073741823 \<and> BASE64_SIZE (int (length bs)) \<le> out_size"
    by (simp add: base64_encode_eq)
  then show ?thesis using base64_decode_encode base64_encode_size by blast
qed

theorem base64_roundtrip_witness:
  "base64_encode 9 (c_str ''user'') = Some (c_str ''dXNlcg=='') \<and> base64_decode (c_str ''dXNlcg=='') 4 = Some (c_str ''user'')"
proof -
  have enc: "base64_encode 9 (c_str ''user'') = Some (c_str ''dXNlcg=='')"
    unfolding base64_encode_def encode_loop_ref encode_pad by (simp add: c_str_def b64_def BASE64_SIZE_def Let_def) (simp add: numeral_2_eq_2)
  moreover have "int (length (c_str ''user'')) \<le> 4" by (simp add: c_str_def)
  ultimately show ?thesis using base64_roundtrip [of 9 "c_str ''user''"] by blast
qed

end
