(* ===== verification/Red_Md5.thy ===== *)
theory Red_Md5
  imports C_Prelude
begin

text \<open>
  \<^verbatim>\<open>redsocks/md5.c\<close>: the MD5 digest, computed piece by piece. The block function works on 32-bit words that wrap around; a block is
  read as little-endian words, which is what both variants of the code for the two byte orders do. The state keeps the
  message length in bits as two words and the bytes of an incomplete block in a buffer of 64 bytes.
\<close>

unbundle bit_operations_syntax

section \<open>The block function\<close>

definition T_MASK :: u32 where "T_MASK = NOT 0"

definition md5_T :: "u32 list" where
  "md5_T = [
     T_MASK XOR 0x28955b87, T_MASK XOR 0x173848a9, 0x242070db, T_MASK XOR 0x3e423111,
     T_MASK XOR 0x0a83f050, 0x4787c62a, T_MASK XOR 0x57cfb9ec, T_MASK XOR 0x02b96afe,
     0x698098d8, T_MASK XOR 0x74bb0850, T_MASK XOR 0x0000a44e, T_MASK XOR 0x76a32841,
     0x6b901122, T_MASK XOR 0x02678e6c, T_MASK XOR 0x5986bc71, 0x49b40821,
     T_MASK XOR 0x09e1da9d, T_MASK XOR 0x3fbf4cbf, 0x265e5a51, T_MASK XOR 0x16493855,
     T_MASK XOR 0x29d0efa2, 0x02441453, T_MASK XOR 0x275e197e, T_MASK XOR 0x182c0437,
     0x21e1cde6, T_MASK XOR 0x3cc8f829, T_MASK XOR 0x0b2af278, 0x455a14ed,
     T_MASK XOR 0x561c16fa, T_MASK XOR 0x03105c07, 0x676f02d9, T_MASK XOR 0x72d5b375,
     T_MASK XOR 0x0005c6bd, T_MASK XOR 0x788e097e, 0x6d9d6122, T_MASK XOR 0x021ac7f3,
     T_MASK XOR 0x5b4115bb, 0x4bdecfa9, T_MASK XOR 0x0944b49f, T_MASK XOR 0x4140438f,
     0x289b7ec6, T_MASK XOR 0x155ed805, T_MASK XOR 0x2b10cf7a, 0x04881d05,
     T_MASK XOR 0x262b2fc6, T_MASK XOR 0x1924661a, 0x1fa27cf8, T_MASK XOR 0x3b53a99a,
     T_MASK XOR 0x0bd6ddbb, 0x432aff97, T_MASK XOR 0x546bdc58, T_MASK XOR 0x036c5fc6,
     0x655b59c3, T_MASK XOR 0x70f3336d, T_MASK XOR 0x00100b82, T_MASK XOR 0x7a7ba22e,
     0x6fa87e4f, T_MASK XOR 0x01d3191f, T_MASK XOR 0x5cfebceb, 0x4e0811a1,
     T_MASK XOR 0x08ac817d, T_MASK XOR 0x42c50dca, 0x2ad7d2bb, T_MASK XOR 0x14792c6e]"

definition ROTATE_LEFT :: "u32 \<Rightarrow> nat \<Rightarrow> u32" where
  "ROTATE_LEFT x n = (push_bit n x OR drop_bit (32 - n) x)"

definition md5_F :: "u32 \<Rightarrow> u32 \<Rightarrow> u32 \<Rightarrow> u32" where "md5_F x y z = ((x AND y) OR (NOT x AND z))"
definition md5_G :: "u32 \<Rightarrow> u32 \<Rightarrow> u32 \<Rightarrow> u32" where "md5_G x y z = ((x AND z) OR (y AND NOT z))"
definition md5_H :: "u32 \<Rightarrow> u32 \<Rightarrow> u32 \<Rightarrow> u32" where "md5_H x y z = (x XOR y XOR z)"
definition md5_I :: "u32 \<Rightarrow> u32 \<Rightarrow> u32 \<Rightarrow> u32" where "md5_I x y z = (y XOR (x OR NOT z))"

type_synonym md5_abcd = "u32 \<times> u32 \<times> u32 \<times> u32"

text \<open>One operation, on the registers in the order in which the macro gets them. The next operation gets them rotated
  by one place, so that it assigns the register before.\<close>

definition md5_SET :: "(u32 \<Rightarrow> u32 \<Rightarrow> u32 \<Rightarrow> u32) \<Rightarrow> u32 list \<Rightarrow> nat \<times> nat \<times> u32 \<Rightarrow> md5_abcd \<Rightarrow> md5_abcd" where
  "md5_SET f X op r = (case op of (k, s, Ti) \<Rightarrow> case r of (a, b, c, d) \<Rightarrow>
     let t = a + f b c d + X ! k + Ti in (d, ROTATE_LEFT t s + b, b, c))"

text \<open>The index of the word and the shift of each operation, in the order of the code.\<close>

definition md5_round1 :: "(nat \<times> nat) list" where
  "md5_round1 = [
     (0, 7), (1, 12), (2, 17), (3, 22),
     (4, 7), (5, 12), (6, 17), (7, 22),
     (8, 7), (9, 12), (10, 17), (11, 22),
     (12, 7), (13, 12), (14, 17), (15, 22)]"

definition md5_round2 :: "(nat \<times> nat) list" where
  "md5_round2 = [
     (1, 5), (6, 9), (11, 14), (0, 20),
     (5, 5), (10, 9), (15, 14), (4, 20),
     (9, 5), (14, 9), (3, 14), (8, 20),
     (13, 5), (2, 9), (7, 14), (12, 20)]"

definition md5_round3 :: "(nat \<times> nat) list" where
  "md5_round3 = [
     (5, 4), (8, 11), (11, 16), (14, 23),
     (1, 4), (4, 11), (7, 16), (10, 23),
     (13, 4), (0, 11), (3, 16), (6, 23),
     (9, 4), (12, 11), (15, 16), (2, 23)]"

definition md5_round4 :: "(nat \<times> nat) list" where
  "md5_round4 = [
     (0, 6), (7, 10), (14, 15), (5, 21),
     (12, 6), (3, 10), (10, 15), (1, 21),
     (8, 6), (15, 10), (6, 15), (13, 21),
     (4, 6), (11, 10), (2, 15), (9, 21)]"

definition md5_round :: "(u32 \<Rightarrow> u32 \<Rightarrow> u32 \<Rightarrow> u32) \<Rightarrow> u32 list \<Rightarrow> (nat \<times> nat) list \<Rightarrow> u32 list \<Rightarrow> md5_abcd \<Rightarrow> md5_abcd" where
  "md5_round f X ops Ts r = fold (md5_SET f X) (map2 (\<lambda>(k, s) t. (k, s, t)) ops Ts) r"

text \<open>The words of a block.\<close>

definition md5_X :: "byte list \<Rightarrow> u32 list" where
  "md5_X data = map (\<lambda>i. of_le32 (take 4 (drop (4 * i) data))) [0..<16]"

text \<open>After 16 operations the registers are in their places again.\<close>

definition md5_process :: "md5_abcd \<Rightarrow> byte list \<Rightarrow> md5_abcd" where
  "md5_process abcd data =
     (let X = md5_X data;
          r1 = md5_round md5_F X md5_round1 (take 16 md5_T) abcd;
          r2 = md5_round md5_G X md5_round2 (take 16 (drop 16 md5_T)) r1;
          r3 = md5_round md5_H X md5_round3 (take 16 (drop 32 md5_T)) r2;
          r4 = md5_round md5_I X md5_round4 (drop 48 md5_T) r3 in
      case abcd of (a0, b0, c0, d0) \<Rightarrow> case r4 of (a, b, c, d) \<Rightarrow> (a0 + a, b0 + b, c0 + c, d0 + d))"

section \<open>The incremental interface\<close>

record md5_state_t =
  md5_count0 :: u32
  md5_count1 :: u32
  md5_abcd :: md5_abcd
  md5_buf :: "byte list"

text \<open>The buffer is not initialized; its bytes are an argument.\<close>

definition md5_init :: "byte list \<Rightarrow> md5_state_t" where
  "md5_init junk = \<lparr>md5_count0 = 0, md5_count1 = 0,
     md5_abcd = (0x67452301, T_MASK XOR 0x10325476, T_MASK XOR 0x67452301, 0x10325476), md5_buf = junk\<rparr>"

definition buf_put :: "byte list \<Rightarrow> nat \<Rightarrow> byte list \<Rightarrow> byte list" where
  "buf_put buf off bs = take off buf @ bs @ drop (off + length bs) buf"

text \<open>The loop over the full blocks, with the bytes that are left.\<close>

function md5_blocks :: "md5_abcd \<Rightarrow> byte list \<Rightarrow> md5_abcd \<times> byte list" where
  "md5_blocks abcd p = (if length p \<ge> 64 then md5_blocks (md5_process abcd (take 64 p)) (drop 64 p) else (abcd, p))"
  by pat_completeness auto
termination
  by (relation "measure (\<lambda>(_, p). length p)") auto

declare md5_blocks.simps [simp del]

text \<open>The end of \<^verbatim>\<open>md5_append\<close>: the full blocks and the final partial block.\<close>

definition md5_append_full :: "md5_state_t \<Rightarrow> byte list \<Rightarrow> md5_state_t" where
  "md5_append_full pms p = (case md5_blocks (md5_abcd pms) p of (abcd, left) \<Rightarrow>
     if left \<noteq> [] then pms\<lparr>md5_abcd := abcd, md5_buf := buf_put (md5_buf pms) 0 left\<rparr> else pms\<lparr>md5_abcd := abcd\<rparr>)"

text \<open>The message length; \<open>nbytes\<close> is an \<^verbatim>\<open>int\<close> that is shifted left by 3, so it has to be less than \<open>2 ^ 28\<close>.\<close>

definition md5_append_count :: "md5_state_t \<Rightarrow> nat \<Rightarrow> md5_state_t" where
  "md5_append_count pms nbytes =
     (let nbits = push_bit 3 (of_nat nbytes);
          count1 = md5_count1 pms + of_nat (nbytes div 2 ^ 29);
          count0 = md5_count0 pms + nbits
      in pms\<lparr>md5_count0 := count0, md5_count1 := count1 + (if count0 < nbits then 1 else 0)\<rparr>)"

definition md5_append :: "md5_state_t \<Rightarrow> byte list \<Rightarrow> md5_state_t" where
  "md5_append pms data =
     (let nbytes = length data; offset = unat (drop_bit 3 (md5_count0 pms) AND 63) in
      if nbytes = 0 then pms
      else
        (let pms2 = md5_append_count pms nbytes in
         if offset \<noteq> 0 then
           (let copy = (if offset + nbytes > 64 then 64 - offset else nbytes);
                pms3 = pms2\<lparr>md5_buf := buf_put (md5_buf pms2) offset (take copy data)\<rparr> in
            if offset + copy < 64 then pms3
            else md5_append_full (pms3\<lparr>md5_abcd := md5_process (md5_abcd pms3) (md5_buf pms3)\<rparr>) (drop copy data))
         else md5_append_full pms2 data))"

definition md5_pad :: "byte list" where
  "md5_pad = 0x80 # replicate 63 0"

definition md5_digest :: "md5_abcd \<Rightarrow> byte list" where
  "md5_digest abcd = (case abcd of (a, b, c, d) \<Rightarrow> le32 a @ le32 b @ le32 c @ le32 d)"

definition md5_finish :: "md5_state_t \<Rightarrow> byte list" where
  "md5_finish pms =
     (let data = le32 (md5_count0 pms) @ le32 (md5_count1 pms);
          pms1 = md5_append pms (take (unat ((55 - drop_bit 3 (md5_count0 pms)) AND 63) + 1) md5_pad);
          pms2 = md5_append pms1 data
      in md5_digest (md5_abcd pms2))"

section \<open>The message in blocks\<close>

lemma md5_blocks_append:
  "md5_blocks abcd (xs @ ys) = (case md5_blocks abcd xs of (abcd', r) \<Rightarrow> md5_blocks abcd' (r @ ys))"
proof (induction abcd xs rule: md5_blocks.induct)
  case (1 abcd p)
  show ?case
  proof (cases "length p \<ge> 64")
    case True
    then have "md5_blocks abcd (p @ ys) = md5_blocks (md5_process abcd (take 64 p)) (drop 64 p @ ys)"
      by (subst md5_blocks.simps) simp
    moreover have "md5_blocks abcd p = md5_blocks (md5_process abcd (take 64 p)) (drop 64 p)" using True by (subst md5_blocks.simps) simp
    ultimately show ?thesis using 1 True by simp
  next
    case False
    then show ?thesis by (simp add: md5_blocks.simps [of abcd p])
  qed
qed

lemma md5_blocks_rest: "md5_blocks abcd xs = (abcd', r) \<Longrightarrow> length r = length xs mod 64"
proof (induction abcd xs rule: md5_blocks.induct)
  case (1 abcd p)
  show ?case
  proof (cases "length p \<ge> 64")
    case True
    then have "md5_blocks (md5_process abcd (take 64 p)) (drop 64 p) = (abcd', r)" using "1.prems" by (subst (asm) md5_blocks.simps) simp
    then show ?thesis using "1.IH" True by (simp add: mod_if [of "length p"])
  next
    case False
    then show ?thesis using "1.prems" by (subst (asm) md5_blocks.simps) simp
  qed
qed

lemma md5_blocks_short: "length p < 64 \<Longrightarrow> md5_blocks abcd p = (abcd, p)"
  by (subst md5_blocks.simps) simp

lemma md5_blocks_one: "length p = 64 \<Longrightarrow> md5_blocks abcd p = (md5_process abcd p, [])"
  by (subst md5_blocks.simps) (simp add: md5_blocks_short)

text \<open>A state that has taken in the message \<open>m\<close>.\<close>

definition md5_abcd0 :: md5_abcd where
  "md5_abcd0 = (0x67452301, T_MASK XOR 0x10325476, T_MASK XOR 0x67452301, 0x10325476)"

definition md5_rep :: "md5_state_t \<Rightarrow> byte list \<Rightarrow> bool" where
  "md5_rep pms m \<longleftrightarrow> md5_count0 pms = of_nat (8 * length m) \<and> md5_count1 pms = of_nat (8 * length m div 2 ^ 32) \<and>
     length (md5_buf pms) = 64 \<and>
     md5_blocks md5_abcd0 m = (md5_abcd pms, take (length m mod 64) (md5_buf pms))"

lemma md5_init_rep: "length junk = 64 \<Longrightarrow> md5_rep (md5_init junk) []"
  by (simp add: md5_rep_def md5_init_def md5_abcd0_def md5_blocks_short)

section \<open>The length counter\<close>

lemma offset_value: "unat (drop_bit 3 (of_nat (8 * n) :: u32) AND 63) = n mod 64"
proof -
  have "(63 :: u32) = mask 6" by (simp add: mask_eq_exp_minus_1)
  then have "unat (drop_bit 3 (of_nat (8 * n) :: u32) AND 63) = unat (take_bit 6 (drop_bit 3 (of_nat (8 * n) :: u32)))"
    by (simp only: take_bit_eq_mask)
  also have "\<dots> = take_bit 6 (unat (drop_bit 3 (of_nat (8 * n) :: u32)))" by (rule unsigned_take_bit_eq)
  also have "unat (drop_bit 3 (of_nat (8 * n) :: u32)) = 8 * n mod 4294967296 div 8"
    by (subst unsigned_drop_bit_eq) (simp only: take_bit_nat_eq_self [OF unsigned_less] unat_of_nat drop_bit_eq_div, simp add: take_bit_eq_mod)
  also have "8 * n mod 4294967296 div 8 = n mod 536870912" using mult_mod_right [of 8 n 536870912] by simp
  finally show ?thesis by (simp add: take_bit_eq_mod mod_mod_cancel)
qed

lemma counter_carry:
  fixes a b :: nat
  defines "s \<equiv> of_nat a + of_nat b :: u32"
  shows "(of_nat (a div 2 ^ 32) + of_nat (b div 2 ^ 32) + (if s < of_nat b then 1 else 0) :: u32) = of_nat ((a + b) div 2 ^ 32)"
proof -
  let ?M = "4294967296 :: nat"
  have u: "unat s = (a mod ?M + b mod ?M) mod ?M" unfolding s_def
    by (simp only: of_nat_add [symmetric] unat_of_nat) (simp add: mod_add_eq)
  have lt: "a mod ?M < ?M" "b mod ?M < ?M" by simp_all
  have "s < of_nat b \<longleftrightarrow> unat s < b mod ?M" by (simp add: word_less_nat_alt unat_of_nat)
  also have "\<dots> \<longleftrightarrow> ?M \<le> a mod ?M + b mod ?M"
  proof (cases "?M \<le> a mod ?M + b mod ?M")
    case True
    then have "unat s = a mod ?M + b mod ?M - ?M" unfolding u using lt by (simp add: le_mod_geq)
    then show ?thesis using True lt by linarith
  next
    case False
    then show ?thesis unfolding u by simp
  qed
  finally have carry: "s < of_nat b \<longleftrightarrow> ?M \<le> a mod ?M + b mod ?M" .
  have "(a mod ?M + b mod ?M) div ?M = (if ?M \<le> a mod ?M + b mod ?M then 1 else 0)"
    using lt by (auto simp: div_if)
  then have "(a + b) div ?M = a div ?M + b div ?M + (if s < of_nat b then 1 else 0)" using div_add1_eq [of a b ?M] carry by simp
  then show ?thesis by simp
qed

section \<open>Appending\<close>

lemma buf_put_length: "off + length bs \<le> length buf \<Longrightarrow> length (buf_put buf off bs) = length buf"
  by (simp add: buf_put_def)

lemma buf_put_take: "off \<le> length buf \<Longrightarrow> take (off + length bs) (buf_put buf off bs) = take off buf @ bs"
  by (simp add: buf_put_def)

text \<open>The counters after appending \<open>data\<close> to \<open>m\<close>.\<close>

lemma append_counts:
  fixes data :: "byte list"
  assumes "md5_rep pms m"
  shows "md5_append_count pms (length data) =
    pms\<lparr>md5_count0 := of_nat (8 * length (m @ data)), md5_count1 := of_nat (8 * length (m @ data) div 2 ^ 32)\<rparr>"
proof -
  have c: "md5_count0 pms = of_nat (8 * length m)" "md5_count1 pms = of_nat (8 * length m div 2 ^ 32)" using assms by (simp_all add: md5_rep_def)
  have n: "(push_bit 3 (of_nat (length data)) :: u32) = of_nat (8 * length data)" by (simp add: push_bit_eq_mult mult.commute)
  have d: "length data div 2 ^ 29 = 8 * length data div 2 ^ 32" by simp
  have l: "8 * length (m @ data) = 8 * length m + 8 * length data" by simp
  show ?thesis
    unfolding md5_append_count_def Let_def n c d l counter_carry [of "8 * length m" "8 * length data"] of_nat_add ..
qed

lemma append_full_rep:
  assumes "md5_count0 st = of_nat (8 * length m)" "md5_count1 st = of_nat (8 * length m div 2 ^ 32)" "length (md5_buf st) = 64"
    "md5_blocks (md5_abcd st) p = md5_blocks md5_abcd0 m"
  shows "md5_rep (md5_append_full st p) m"
proof -
  obtain abcd left where l: "md5_blocks md5_abcd0 m = (abcd, left)" by (cases "md5_blocks md5_abcd0 m")
  then have len: "length left = length m mod 64" by (rule md5_blocks_rest)
  then have "length left \<le> 64" by simp
  then have b: "length (buf_put (md5_buf st) 0 left) = 64" "take (length m mod 64) (buf_put (md5_buf st) 0 left) = left"
    using assms(3) buf_put_take [of 0 "md5_buf st" left] len by (simp_all add: buf_put_length)
  show ?thesis
  proof (cases "left = []")
    case True
    then show ?thesis using assms l len by (simp add: md5_rep_def md5_append_full_def)
  next
    case False
    then show ?thesis using assms l b by (simp add: md5_rep_def md5_append_full_def)
  qed
qed

lemma append_partial_rep:
  assumes r: "md5_rep pms m" and k: "length m mod 64 = k" and d: "k + length data < 64"
  shows "md5_rep ((md5_append_count pms (length data))\<lparr>md5_buf := buf_put (md5_buf pms) k data\<rparr>) (m @ data)"
proof -
  have rep: "length (md5_buf pms) = 64" "md5_blocks md5_abcd0 m = (md5_abcd pms, take k (md5_buf pms))" using r by (simp_all add: md5_rep_def k)
  then have b: "length (buf_put (md5_buf pms) k data) = 64" "take (k + length data) (buf_put (md5_buf pms) k data) = take k (md5_buf pms) @ data"
    using d buf_put_take [of k "md5_buf pms" data] by (simp_all add: buf_put_length)
  have "md5_blocks md5_abcd0 (m @ data) = (md5_abcd pms, take k (md5_buf pms) @ data)"
    using rep d by (simp add: md5_blocks_append [of _ m] md5_blocks_short)
  moreover have "length (m @ data) mod 64 = k + length data"
    using mod_add_left_eq [of "length m" 64 "length data"] d by (simp add: k)
  ultimately show ?thesis unfolding append_counts [OF r] md5_rep_def using b by simp
qed

lemma append_complete_rep:
  assumes r: "md5_rep pms m" and k: "length m mod 64 = k" and c: "k + copy = 64" "copy \<le> length data"
  shows "md5_rep (md5_append_full ((md5_append_count pms (length data))\<lparr>md5_buf := buf_put (md5_buf pms) k (take copy data),
    md5_abcd := md5_process (md5_abcd pms) (buf_put (md5_buf pms) k (take copy data))\<rparr>) (drop copy data)) (m @ data)"
proof -
  let ?buf = "buf_put (md5_buf pms) k (take copy data)"
  have rep: "length (md5_buf pms) = 64" "md5_blocks md5_abcd0 m = (md5_abcd pms, take k (md5_buf pms))" using r by (simp_all add: md5_rep_def k)
  have len: "length (take copy data) = copy" using c by simp
  have b: "length ?buf = 64" using rep(1) len c buf_put_length [of k "take copy data" "md5_buf pms"] by linarith
  have "take (k + length (take copy data)) ?buf = take k (md5_buf pms) @ take copy data" by (rule buf_put_take) (use rep(1) c in simp)
  then have e: "take k (md5_buf pms) @ take copy data = ?buf" using b unfolding len c(1) by simp
  have "md5_blocks md5_abcd0 (m @ data) = md5_blocks (md5_abcd pms) ((take k (md5_buf pms) @ take copy data) @ drop copy data)"
    using rep(2) by (simp add: md5_blocks_append [of _ m])
  also have "\<dots> = md5_blocks (md5_process (md5_abcd pms) ?buf) (drop copy data)"
    using md5_blocks_append [of "md5_abcd pms" ?buf "drop copy data"] unfolding e md5_blocks_one [OF b] by simp
  finally have "md5_blocks (md5_process (md5_abcd pms) ?buf) (drop copy data) = md5_blocks md5_abcd0 (m @ data)" ..
  then show ?thesis by (intro append_full_rep) (simp_all add: append_counts [OF r] b)
qed

lemma md5_append_rep:
  assumes r: "md5_rep pms m"
  shows "md5_rep (md5_append pms data) (m @ data)"
proof (cases "data = []")
  case True
  then show ?thesis using r by (simp add: md5_append_def)
next
  case False
  obtain k where k: "length m mod 64 = k" "k < 64" by simp
  have off: "unat (drop_bit 3 (md5_count0 pms) AND 63) = k" using r offset_value k(1) by (simp add: md5_rep_def)
  have buf: "md5_buf (md5_append_count pms n) = md5_buf pms" "md5_abcd (md5_append_count pms n) = md5_abcd pms" for n
    by (simp_all add: md5_append_count_def Let_def)
  consider "k = 0" | "k \<noteq> 0" "k + length data < 64" | "k \<noteq> 0" "k + length data \<ge> 64" by linarith
  then show ?thesis
  proof cases
    case 1
    have "md5_blocks md5_abcd0 m = (md5_abcd pms, [])" "length (md5_buf pms) = 64" using r k(1) 1 by (simp_all add: md5_rep_def)
    then have "md5_rep (md5_append_full (md5_append_count pms (length data)) data) (m @ data)"
      by (intro append_full_rep) (simp_all add: append_counts [OF r] md5_blocks_append [of _ m])
    then show ?thesis using False 1 by (simp add: md5_append_def off Let_def)
  next
    case 2
    then show ?thesis using False append_partial_rep [OF r k(1) 2(2)] by (simp add: md5_append_def off Let_def buf)
  next
    case 3
    have c: "(if k + length data > 64 then 64 - k else length data) = 64 - k" "k + (64 - k) = 64" "64 - k \<le> length data"
      using 3(2) k(2) by auto
    show ?thesis using False 3(1) append_complete_rep [OF r k(1) c(2,3)] unfolding md5_append_def off Let_def c(1,2) by (simp add: buf)
  qed
qed

section \<open>The digest of the standard\<close>

text \<open>RFC 1321: the function, the word and the shift of operation \<open>i\<close> by formula, the padding of the message and the blocks of 64 bytes.\<close>

definition rfc_f :: "nat \<Rightarrow> u32 \<Rightarrow> u32 \<Rightarrow> u32 \<Rightarrow> u32" where
  "rfc_f i = (if i < 16 then md5_F else if i < 32 then md5_G else if i < 48 then md5_H else md5_I)"

definition rfc_k :: "nat \<Rightarrow> nat" where
  "rfc_k i = (if i < 16 then i else if i < 32 then (5 * i + 1) mod 16 else if i < 48 then (3 * i + 5) mod 16 else 7 * i mod 16)"

definition rfc_s :: "nat \<Rightarrow> nat" where
  "rfc_s i = [[7, 12, 17, 22], [5, 9, 14, 20], [4, 11, 16, 23], [6, 10, 15, 21]] ! (i div 16) ! (i mod 4)"

definition rfc_block :: "byte list \<Rightarrow> md5_abcd \<Rightarrow> md5_abcd" where
  "rfc_block data abcd =
     (case abcd of (a0, b0, c0, d0) \<Rightarrow>
      case fold (\<lambda>i (a, b, c, d).
          (d, b + ROTATE_LEFT (a + rfc_f i b c d + of_le32 (take 4 (drop (4 * rfc_k i) data)) + md5_T ! i) (rfc_s i), b, c)) [0..<64] abcd of
        (a, b, c, d) \<Rightarrow> (a0 + a, b0 + b, c0 + c, d0 + d))"

definition rfc_pad :: "byte list \<Rightarrow> byte list" where
  "rfc_pad m = m @ 0x80 # replicate ((119 - length m mod 64) mod 64) 0 @
     le32 (of_nat (8 * length m)) @ le32 (of_nat (8 * length m div 2 ^ 32))"

definition rfc_md5 :: "byte list \<Rightarrow> byte list" where
  "rfc_md5 m = md5_digest (fold rfc_block (map (\<lambda>i. take 64 (drop (64 * i) (rfc_pad m))) [0..<length (rfc_pad m) div 64]) md5_abcd0)"

lemma md5_round_seq:
  assumes "length ops = n" "length Ts = n"
    and "\<And>i. i < n \<Longrightarrow> ops ! i = (rfc_k (j + i), rfc_s (j + i))" "\<And>i. i < n \<Longrightarrow> Ts ! i = md5_T ! (j + i)"
    and "\<And>i. i < n \<Longrightarrow> rfc_f (j + i) = f" "\<And>i. i < n \<Longrightarrow> rfc_k (j + i) < 16"
  shows "md5_round f (md5_X data) ops Ts r = fold (\<lambda>i (a, b, c, d).
          (d, b + ROTATE_LEFT (a + rfc_f i b c d + of_le32 (take 4 (drop (4 * rfc_k i) data)) + md5_T ! i) (rfc_s i), b, c)) [j..<j + n] r"
proof -
  let ?g = "\<lambda>i (a, b, c, d). (d, b + ROTATE_LEFT (a + rfc_f i b c d + of_le32 (take 4 (drop (4 * rfc_k i) data)) + md5_T ! i) (rfc_s i), b, c)"
  have ops: "map2 (\<lambda>(k, s) t. (k, s, t)) ops Ts = map (\<lambda>i. (rfc_k i, rfc_s i, md5_T ! i)) [j..<j + n]"
    by (rule nth_equalityI) (use assms in \<open>simp_all add: case_prod_beta\<close>)
  have x: "md5_X data ! k = of_le32 (take 4 (drop (4 * k) data))" if "k < 16" for k using that by (simp add: md5_X_def)
  have "md5_SET f (md5_X data) (rfc_k i, rfc_s i, md5_T ! i) = ?g i" if "i \<in> set [j..<j + n]" for i
  proof -
    have "rfc_f i = f" "rfc_k i < 16" using that assms(5,6) [of "i - j"] by auto
    then show ?thesis by (auto simp: md5_SET_def x Let_def fun_eq_iff add.commute)
  qed
  then have "fold (\<lambda>i. md5_SET f (md5_X data) (rfc_k i, rfc_s i, md5_T ! i)) [j..<j + n] r = fold ?g [j..<j + n] r" by (intro fold_cong) auto
  then show ?thesis unfolding md5_round_def ops by (simp add: fold_map comp_def)
qed

lemma rfc_tables:
  "\<forall>i \<in> set [0..<16]. md5_round1 ! i = (rfc_k i, rfc_s i) \<and> md5_round2 ! i = (rfc_k (16 + i), rfc_s (16 + i)) \<and>
    md5_round3 ! i = (rfc_k (32 + i), rfc_s (32 + i)) \<and> md5_round4 ! i = (rfc_k (48 + i), rfc_s (48 + i)) \<and>
    rfc_k i < 16 \<and> rfc_k (16 + i) < 16 \<and> rfc_k (32 + i) < 16 \<and> rfc_k (48 + i) < 16"
  by (simp add: upt_rec md5_round1_def md5_round2_def md5_round3_def md5_round4_def rfc_k_def rfc_s_def)

lemma rfc_lengths: "length md5_round1 = 16" "length md5_round2 = 16" "length md5_round3 = 16" "length md5_round4 = 16" "length md5_T = 64"
  by (simp_all add: md5_round1_def md5_round2_def md5_round3_def md5_round4_def md5_T_def)

lemma md5_process_rfc: "md5_process abcd data = rfc_block data abcd"
proof -
  let ?g = "\<lambda>i (a, b, c, d). (d, b + ROTATE_LEFT (a + rfc_f i b c d + of_le32 (take 4 (drop (4 * rfc_k i) data)) + md5_T ! i) (rfc_s i), b, c)"
  have t: "i < 16 \<Longrightarrow> md5_round1 ! i = (rfc_k i, rfc_s i) \<and> md5_round2 ! i = (rfc_k (16 + i), rfc_s (16 + i)) \<and>
    md5_round3 ! i = (rfc_k (32 + i), rfc_s (32 + i)) \<and> md5_round4 ! i = (rfc_k (48 + i), rfc_s (48 + i)) \<and>
    rfc_k i < 16 \<and> rfc_k (16 + i) < 16 \<and> rfc_k (32 + i) < 16 \<and> rfc_k (48 + i) < 16" for i using rfc_tables by auto
  have "md5_round md5_F (md5_X data) md5_round1 (take 16 md5_T) r = fold ?g [0..<0 + 16] r" for r
    by (rule md5_round_seq) (use t in \<open>simp_all add: rfc_lengths rfc_f_def\<close>)
  moreover have "md5_round md5_G (md5_X data) md5_round2 (take 16 (drop 16 md5_T)) r = fold ?g [16..<16 + 16] r" for r
    by (rule md5_round_seq) (use t in \<open>simp_all add: rfc_lengths rfc_f_def\<close>)
  moreover have "md5_round md5_H (md5_X data) md5_round3 (take 16 (drop 32 md5_T)) r = fold ?g [32..<32 + 16] r" for r
    by (rule md5_round_seq) (use t in \<open>simp_all add: rfc_lengths rfc_f_def\<close>)
  moreover have "md5_round md5_I (md5_X data) md5_round4 (drop 48 md5_T) r = fold ?g [48..<48 + 16] r" for r
    by (rule md5_round_seq) (use t in \<open>simp_all add: rfc_lengths rfc_f_def\<close>)
  moreover have "[0..<64] = [0..<0 + 16] @ [16..<16 + 16] @ [32..<32 + 16] @ [48..<48 + 16]"
    using upt_add_eq_append [of 0 16 16] upt_add_eq_append [of 0 32 16] upt_add_eq_append [of 0 48 16] by simp
  ultimately show ?thesis unfolding md5_process_def rfc_block_def Let_def by simp
qed

lemma md5_blocks_rfc:
  "length p = 64 * n \<Longrightarrow> fst (md5_blocks abcd p) = fold rfc_block (map (\<lambda>i. take 64 (drop (64 * i) p)) [0..<n]) abcd"
proof (induction n arbitrary: abcd p)
  case 0
  then show ?case by (simp add: md5_blocks_short)
next
  case (Suc n)
  then have "md5_blocks abcd p = md5_blocks (rfc_block (take 64 p) abcd) (drop 64 p)"
    by (subst md5_blocks.simps) (simp add: md5_process_rfc)
  moreover have "map (\<lambda>i. take 64 (drop (64 * i) p)) [0..<Suc n] = take 64 p # map (\<lambda>i. take 64 (drop (64 * i) (drop 64 p))) [0..<n]"
    by (simp add: upt_conv_Cons map_Suc_upt [symmetric] add.commute del: upt_Suc)
  ultimately show ?case using Suc.IH [of "drop 64 p" "rfc_block (take 64 p) abcd"] Suc.prems by simp
qed

lemma pad_length: "unat ((55 - drop_bit 3 (of_nat (8 * n) :: u32)) AND 63) = (119 - n mod 64) mod 64"
proof -
  let ?w = "drop_bit 3 (of_nat (8 * n) :: u32)"
  have m: "(63 :: u32) = mask 6" by (simp add: mask_eq_exp_minus_1)
  have w: "uint ?w mod 64 = int (n mod 64)"
  proof -
    have "unat (?w AND 63) = unat ?w mod 64"
      unfolding m take_bit_eq_mask [symmetric] by (subst unsigned_take_bit_eq) (simp add: take_bit_eq_mod)
    then have "unat ?w mod 64 = n mod 64" using offset_value [of n] by simp
    then show ?thesis by (metis int_ops(3) of_nat_mod of_nat_numeral uint_nat)
  qed
  have "uint ((55 - ?w) AND 63) = uint (55 - ?w) mod 64"
    unfolding m take_bit_eq_mask [symmetric] by (subst unsigned_take_bit_eq) (simp add: take_bit_eq_mod)
  also have "uint (55 - ?w) = (55 - uint ?w) mod 4294967296" by (simp add: uint_word_ariths)
  also have "(55 - uint ?w) mod 4294967296 mod 64 = (55 - uint ?w) mod 64" by (rule mod_mod_cancel) simp
  also have "\<dots> = (55 - int (n mod 64)) mod 64" using w mod_diff_right_eq [of 55 "uint ?w" 64] by simp
  also have "\<dots> = (119 - int (n mod 64)) mod 64" using mod_add_self2 [of "55 - int (n mod 64)" 64] by (simp add: algebra_simps)
  also have "119 - int (n mod 64) = int (119 - n mod 64)"
  proof -
    have "n mod 64 < 64" by simp
    then show ?thesis by linarith
  qed
  finally have "uint ((55 - ?w) AND 63) = int ((119 - n mod 64) mod 64)" by (simp add: zmod_int)
  then show ?thesis using uint_nat [of "(55 - ?w) AND 63"] by linarith
qed

lemma rfc_pad_length: "length (rfc_pad m) mod 64 = 0"
proof -
  obtain q r where m: "length m = 64 * q + r" "r < 64" by (metis mod_less_divisor mult_div_mod_eq zero_less_numeral)
  then have r: "length m mod 64 = r" by simp
  have "(119 - r) mod 64 = (if r < 56 then 55 - r else 119 - r)" using m(2) by (auto simp: mod_if)
  then have "length (rfc_pad m) = (if r < 56 then 64 * (q + 1) else 64 * (q + 2))" using m r by (simp add: rfc_pad_def)
  then show ?thesis by simp
qed

section \<open>Properties\<close>

text \<open>Claim C12: however a message is cut into pieces (each shorter than \<open>2 ^ 28\<close> bytes, for which the arithmetic on \<^verbatim>\<open>int\<close> is defined),
  initializing, appending the pieces and finishing gives the MD5 digest of the whole message: the message padded as RFC 1321 says, with its length in bits
  modulo \<open>2 ^ 64\<close>, and each block of 64 bytes folded in by the 64 operations whose word and shift are given by the formulas of the standard.\<close>

theorem md5_matches_rfc:
  assumes "length junk = 64" "\<forall>c \<in> set chunks. length c < 2 ^ 28"
  shows "md5_finish (fold (\<lambda>c pms. md5_append pms c) chunks (md5_init junk)) = rfc_md5 (concat chunks)"
proof -
  let ?m = "concat chunks"
  have "md5_rep (fold (\<lambda>c pms. md5_append pms c) cs pms) (m @ concat cs)" if "md5_rep pms m" for cs pms m
    using that by (induction cs arbitrary: pms m) (simp_all, metis append_assoc md5_append_rep)
  from this [OF md5_init_rep [OF assms(1)]] obtain pms where pms: "pms = fold (\<lambda>c pms. md5_append pms c) chunks (md5_init junk)" "md5_rep pms ?m"
    by fastforce
  have c: "md5_count0 pms = of_nat (8 * length ?m)" "md5_count1 pms = of_nat (8 * length ?m div 2 ^ 32)" using pms(2) by (simp_all add: md5_rep_def)
  let ?z = "(119 - length ?m mod 64) mod 64"
  have "?z \<le> 63" using mod_less_divisor [of 64 "119 - length ?m mod 64"] by linarith
  then have pad: "take (?z + 1) md5_pad = 0x80 # replicate ?z 0" by (simp add: md5_pad_def min_def)
  obtain pms2 where fin: "pms2 = md5_append (md5_append pms (0x80 # replicate ?z 0)) (le32 (md5_count0 pms) @ le32 (md5_count1 pms))" by blast
  have "md5_rep pms2 (rfc_pad ?m)"
    using md5_append_rep [OF md5_append_rep [OF pms(2), of "0x80 # replicate ?z 0"], of "le32 (md5_count0 pms) @ le32 (md5_count1 pms)"]
    unfolding fin rfc_pad_def c by simp
  then have "fst (md5_blocks md5_abcd0 (rfc_pad ?m)) = md5_abcd pms2" by (simp add: md5_rep_def)
  moreover have "fst (md5_blocks md5_abcd0 (rfc_pad ?m)) =
      fold rfc_block (map (\<lambda>i. take 64 (drop (64 * i) (rfc_pad ?m))) [0..<length (rfc_pad ?m) div 64]) md5_abcd0"
    by (rule md5_blocks_rfc) (use rfc_pad_length [of ?m] in auto)
  moreover have "md5_finish pms = md5_digest (md5_abcd pms2)"
    unfolding md5_finish_def Let_def fin c pad_length pad ..
  ultimately show ?thesis using pms(1) by (simp add: rfc_md5_def)
qed

section \<open>A test vector\<close>

text \<open>The four rounds on the block of the message \<open>abc\<close>.\<close>

lemma abc_round1: "md5_round md5_F [0x80636261, 0, 0, 0, 0, 0, 0, 0, 0, 0, 0, 0, 0, 0, 24, 0] md5_round1 (take 16 md5_T)
    (0x67452301, 0xefcdab89, 0x98badcfe, 0x10325476) = (0xdda9b9a6, 0x72aff2e0, 0xe396856b, 0xa1051895)"
  by (simp add: md5_round_def md5_round1_def md5_T_def md5_SET_def md5_F_def T_MASK_def ROTATE_LEFT_def)

lemma abc_round2: "md5_round md5_G [0x80636261, 0, 0, 0, 0, 0, 0, 0, 0, 0, 0, 0, 0, 0, 24, 0] md5_round2 (take 16 (drop 16 md5_T))
    (0xdda9b9a6, 0x72aff2e0, 0xe396856b, 0xa1051895) = (0x790a77fb, 0x726342d3, 0xa62884aa, 0x9f47e4f8)"
  by (simp add: md5_round_def md5_round2_def md5_T_def md5_SET_def md5_G_def T_MASK_def ROTATE_LEFT_def)

lemma abc_round3: "md5_round md5_H [0x80636261, 0, 0, 0, 0, 0, 0, 0, 0, 0, 0, 0, 0, 0, 24, 0] md5_round3 (take 16 (drop 32 md5_T))
    (0x790a77fb, 0x726342d3, 0xa62884aa, 0x9f47e4f8) = (0x7f2e507b, 0x7beb9700, 0x8fae6399, 0x99d9679d)"
  by (simp add: md5_round_def md5_round3_def md5_T_def md5_SET_def md5_H_def T_MASK_def ROTATE_LEFT_def)

lemma abc_round4: "md5_round md5_I [0x80636261, 0, 0, 0, 0, 0, 0, 0, 0, 0, 0, 0, 0, 0, 24, 0] md5_round4 (drop 48 md5_T)
    (0x7f2e507b, 0x7beb9700, 0x8fae6399, 0x99d9679d) = (0x310ade8f, 0xc08226b3, 0xe484b9d8, 0x624d8cb2)"
  by (simp add: md5_round_def md5_round4_def md5_T_def md5_SET_def md5_I_def T_MASK_def ROTATE_LEFT_def)

definition abc_block :: "byte list" where
  "abc_block = [97, 98, 99, 0x80] @ replicate 52 0 @ [24, 0, 0, 0, 0, 0, 0, 0]"

lemma abc_zeros: "replicate 52 (0 :: byte) = [0, 0, 0, 0, 0, 0, 0, 0, 0, 0, 0, 0, 0, 0, 0, 0, 0, 0, 0, 0, 0, 0, 0, 0, 0, 0,
    0, 0, 0, 0, 0, 0, 0, 0, 0, 0, 0, 0, 0, 0, 0, 0, 0, 0, 0, 0, 0, 0, 0, 0, 0, 0]"
  by (simp add: numeral_eq_Suc)

lemma abc_words: "md5_X abc_block = [0x80636261, 0, 0, 0, 0, 0, 0, 0, 0, 0, 0, 0, 0, 0, 24, 0]"
  by (simp add: md5_X_def abc_block_def abc_zeros of_le32_def upt_rec)

lemma abc_process: "md5_process md5_abcd0 abc_block = (0x98500190, 0xb04fd23c, 0x7d3f96d6, 0x727fe128)"
proof -
  have i: "md5_abcd0 = (0x67452301, 0xefcdab89, 0x98badcfe, 0x10325476)" by (simp add: md5_abcd0_def T_MASK_def)
  show ?thesis unfolding md5_process_def abc_words Let_def i abc_round1 abc_round2 abc_round3 abc_round4 by simp
qed

lemma abc_digest: "rfc_md5 [97, 98, 99] = [0x90, 0x1, 0x50, 0x98, 0x3c, 0xd2, 0x4f, 0xb0, 0xd6, 0x96, 0x3f, 0x7d, 0x28, 0xe1, 0x7f, 0x72]"
proof -
  have "rfc_pad [97, 98, 99] = abc_block" by (simp add: rfc_pad_def abc_block_def le32_def)
  moreover have "length abc_block = 64" by (simp add: abc_block_def)
  ultimately show ?thesis using abc_process by (simp add: rfc_md5_def md5_process_rfc md5_digest_def le32_def)
qed

theorem md5_matches_rfc_witness:
  "md5_finish (md5_append (md5_append (md5_init (replicate 64 0)) [97]) [98, 99]) =
    [0x90, 0x1, 0x50, 0x98, 0x3c, 0xd2, 0x4f, 0xb0, 0xd6, 0x96, 0x3f, 0x7d, 0x28, 0xe1, 0x7f, 0x72]"
  using md5_matches_rfc [of "replicate 64 0" "[[97], [98, 99]]"] abc_digest by simp

end
