(* ===== verification/Red_Http_Auth.thy ===== *)
theory Red_Http_Auth
  imports Red_Base64 Red_Md5
begin

text \<open>
  \<^verbatim>\<open>redsocks/http-auth.c\<close>: the Basic and Digest schemes of HTTP authentication (RFC 2617) with which \<^verbatim>\<open>redsocks\<close> logs in at a proxy.
  A C string is the list of its bytes without the terminator, so a pointer into a string is the rest of the list and
  reading the terminator is the end of the list. A null pointer is \<open>None\<close>.
\<close>

section \<open>Library functions\<close>

text \<open>\<^verbatim>\<open>isspace\<close> and \<^verbatim>\<open>tolower\<close> of the C locale, and \<^verbatim>\<open>strncasecmp\<close> as far as it is used: whether the first \<open>n\<close>
  characters agree, where strings that end before agree only if both do.\<close>

definition c_isspace :: "byte \<Rightarrow> bool" where
  "c_isspace c \<longleftrightarrow> c = 32 \<or> (9 \<le> c \<and> c \<le> 13)"

definition c_tolower :: "byte \<Rightarrow> byte" where
  "c_tolower c = (if 65 \<le> c \<and> c \<le> 90 then c + 32 else c)"

definition strncaseeq :: "byte list \<Rightarrow> byte list \<Rightarrow> nat \<Rightarrow> bool" where
  "strncaseeq a b n \<longleftrightarrow> map c_tolower (take n a) = map c_tolower (take n b)"

section \<open>Basic\<close>

definition basic_authentication_encode :: "byte list \<Rightarrow> byte list \<Rightarrow> byte list option" where
  "basic_authentication_encode user passwd =
     (let pair_len = int (length user) + 1 + int (length passwd);
          pair = user @ c_str '':'' @ passwd;
          basic_len = BASE64_SIZE pair_len
      in base64_encode basic_len pair)"

section \<open>The parameters of a challenge\<close>

text \<open>The name and the value of the next parameter and the string behind it, or nothing.\<close>

definition extract_param :: "byte list \<Rightarrow> byte \<Rightarrow> (byte list \<times> byte list \<times> byte list) option" where
  "extract_param source separator =
     (let p = dropWhile c_isspace source in
      if p = [] then None
      else
        (let name = takeWhile (\<lambda>c. \<not> c_isspace c \<and> c \<noteq> of_char (CHR ''='') \<and> c \<noteq> separator) p;
             p1 = drop (length name) p in
         if name = [] then None
         else
           (let p2 = dropWhile c_isspace p1 in
            if p2 = [] \<or> hd p2 = separator then Some (name, [], if p2 \<noteq> [] then tl p2 else p2)
            else if hd p2 \<noteq> of_char (CHR ''='') then None
            else
              (let p3 = dropWhile c_isspace (tl p2) in
               if p3 \<noteq> [] \<and> hd p3 = 34 then
                 (let vb = tl p3; v = takeWhile (\<lambda>c. c \<noteq> 34) vb; p4 = drop (length v) vb in
                  if p4 = [] then None
                  else
                    (let p5 = dropWhile (\<lambda>c. c \<noteq> separator) (dropWhile c_isspace (tl p4)) in
                     Some (name, v, if p5 \<noteq> [] then tl p5 else p5)))
               else
                 (let v0 = takeWhile (\<lambda>c. c \<noteq> separator) p3; p4 = drop (length v0) p3;
                      v = rev (dropWhile c_isspace (rev v0)) in
                  Some (name, v, if p4 \<noteq> [] then tl p4 else p4))))))"

lemma extract_param_shorter: "extract_param s sep = Some (name, v, rest) \<Longrightarrow> length rest < length s \<and> name \<noteq> []"
proof -
  assume e: "extract_param s sep = Some (name, v, rest)"
  define p where "p = dropWhile c_isspace s"
  define q where "q = drop (length (takeWhile (\<lambda>c. \<not> c_isspace c \<and> c \<noteq> of_char (CHR ''='') \<and> c \<noteq> sep) p)) p"
  have d: "length (dropWhile P xs) \<le> length xs" for P and xs :: "byte list" by (rule length_dropWhile_le)
  have t: "length (tl xs) \<le> length xs" for xs :: "byte list" by simp
  have n: "name = takeWhile (\<lambda>c. \<not> c_isspace c \<and> c \<noteq> of_char (CHR ''='') \<and> c \<noteq> sep) p" "name \<noteq> []"
    using e unfolding extract_param_def Let_def p_def [symmetric] by (auto split: if_splits)
  have "length name \<le> length p" unfolding n(1) by (rule length_takeWhile_le)
  then have q: "length q < length s"
    using n(2) d [of c_isspace s] unfolding q_def n(1) [symmetric] p_def [symmetric] by (cases name) auto
  have "length rest \<le> length q"
    using e unfolding extract_param_def Let_def p_def [symmetric] q_def [symmetric]
    by (auto split: if_splits intro!: le_trans [OF d] le_trans [OF t] le_trans [OF diff_le_self] simp: drop_eq_Nil)
  then show ?thesis using q n(2) by simp
qed

section \<open>Digest\<close>

definition hex_digit :: "nat \<Rightarrow> byte" where
  "hex_digit n = c_str ''0123456789abcdef'' ! n"

text \<open>\<^verbatim>\<open>sprintf\<close> with \<^verbatim>\<open>%02x\<close> and \<^verbatim>\<open>%08x\<close>.\<close>

definition hex2 :: "byte \<Rightarrow> byte list" where
  "hex2 b = [hex_digit (unat b div 16), hex_digit (unat b mod 16)]"

definition hex8 :: "u32 \<Rightarrow> byte list" where
  "hex8 w = concat (map hex2 (rev (le32 w)))"

definition dump_hash :: "byte list \<Rightarrow> byte list" where
  "dump_hash hash = concat (map hex2 (take 16 hash))"

record digest_params =
  dp_realm :: "byte list option"
  dp_opaque :: "byte list option"
  dp_nonce :: "byte list option"
  dp_qop :: "byte list option"

text \<open>The loop over the parameters. Each name is compared only up to its own length.\<close>

definition digest_param :: "byte list \<times> byte list \<Rightarrow> digest_params \<Rightarrow> digest_params" where
  "digest_param nv d = (case nv of (name, value) \<Rightarrow>
     if strncaseeq name (c_str ''realm'') (length name) then d\<lparr>dp_realm := Some value\<rparr>
     else if strncaseeq name (c_str ''opaque'') (length name) then d\<lparr>dp_opaque := Some value\<rparr>
     else if strncaseeq name (c_str ''nonce'') (length name) then d\<lparr>dp_nonce := Some value\<rparr>
     else if strncaseeq name (c_str ''qop'') (length name) then d\<lparr>dp_qop := Some value\<rparr>
     else d)"

function digest_params_loop :: "byte list \<Rightarrow> digest_params \<Rightarrow> digest_params" where
  "digest_params_loop ptr d = (case extract_param ptr (of_char (CHR '','')) of
     None \<Rightarrow> d | Some (name, value, rest) \<Rightarrow> digest_params_loop rest (digest_param (name, value) d))"
  by pat_completeness auto
termination
  by (relation "measure (\<lambda>(ptr, _). length ptr)") (auto dest: extract_param_shorter)

declare digest_params_loop.simps [simp del]

definition no_params :: digest_params where
  "no_params = \<lparr>dp_realm = None, dp_opaque = None, dp_nonce = None, dp_qop = None\<rparr>"

text \<open>Initializing, appending the strings in turn and finishing; \<open>junk\<close> is what the buffer of the context holds.\<close>

definition md5_of :: "byte list \<Rightarrow> byte list list \<Rightarrow> byte list" where
  "md5_of junk parts = dump_hash (md5_finish (fold (\<lambda>s ctx. md5_append ctx s) parts (md5_init junk)))"

text \<open>The size of the allocated result and the string written to it. The size is an \<^verbatim>\<open>int\<close>: adding the lengths one by one, each with a
  conversion back to \<^verbatim>\<open>int\<close>, is one conversion of their sum.\<close>

definition digest_authentication_encode ::
    "byte list \<Rightarrow> byte list \<Rightarrow> byte list option \<Rightarrow> byte list option \<Rightarrow> byte list option \<Rightarrow> byte list option \<Rightarrow> u32 \<Rightarrow> byte list \<Rightarrow>
      (int \<times> byte list) option" where
  "digest_authentication_encode junk line user0 passwd0 method0 path0 count cnonce =
     (let nc = hex8 count; d = digest_params_loop line no_params in
      case (dp_realm d, dp_nonce d, user0, passwd0, path0, method0) of
        (Some realm, Some nonce, Some user, Some passwd, Some path, Some method) \<Rightarrow>
          (if (case dp_qop d of Some qop \<Rightarrow> \<not> strncaseeq qop (c_str ''auth'') 5 | None \<Rightarrow> False) then None
           else
             (let colon = c_str '':'';
                  a1buf = md5_of junk [user, colon, realm, colon, passwd];
                  a2buf = md5_of junk [method, colon, path];
                  response = md5_of junk ([a1buf, colon, nonce, colon] @
                    (case dp_qop d of Some qop \<Rightarrow> [nc, colon, cnonce, colon, qop, colon] | None \<Rightarrow> []) @ [a2buf]);
                  len = to_c_int (int (256 + length user + length realm + length nonce + length path + length response +
                    (case dp_qop d of Some qop \<Rightarrow> length qop + length nc + length cnonce | None \<Rightarrow> 0) +
                    (case dp_opaque d of Some opaque \<Rightarrow> length opaque | None \<Rightarrow> 0)));
                  res = c_str ''username='' @ [34] @ user @ [34] @ c_str '', realm='' @ [34] @ realm @ [34] @ c_str '', nonce='' @ [34] @ nonce @ [34] @
                    c_str '', uri='' @ [34] @ path @ [34] @ c_str '', response='' @ [34] @ response @ [34] @
                    (case dp_qop d of Some qop \<Rightarrow> c_str '', qop='' @ qop @ c_str '', nc='' @ nc @ c_str '', cnonce='' @ [34] @ cnonce @ [34] | None \<Rightarrow> []) @
                    (case dp_opaque d of Some opaque \<Rightarrow> c_str '', opaque='' @ [34] @ opaque @ [34] | None \<Rightarrow> [])
              in Some (len, res)))
      | _ \<Rightarrow> None)"

section \<open>Finding the challenge\<close>

definition auth_request_header :: "byte list" where
  "auth_request_header = c_str ''Proxy-Authenticate:''"

text \<open>The complete lines in the buffer, as reading lines from it returns them; \<open>add_ok\<close> says whether a line can be
  added to \<open>tee\<close>. The result is the line with the challenge, the lines left in the buffer and what was copied to \<open>tee\<close>.\<close>

fun http_auth_request_header ::
    "(byte list \<Rightarrow> bool) \<Rightarrow> byte list list \<Rightarrow> byte list option \<Rightarrow> byte list option \<times> byte list list \<times> byte list option" where
  "http_auth_request_header add_ok [] tee = (None, [], tee)"
| "http_auth_request_header add_ok (line # src) tee =
     (if tee \<noteq> None \<and> \<not> add_ok line then (None, src, tee)
      else
        (let tee1 = map_option (\<lambda>t. t @ line @ [13, 10]) tee in
         if line = [] \<or> of_char (CHR '':'') \<notin> set line then (None, src, tee1)
         else if strncaseeq line auth_request_header (length auth_request_header) then (Some line, src, tee1)
         else http_auth_request_header add_ok src tee1))"

section \<open>Printing and parsing a challenge\<close>

text \<open>A parameter as a proxy may write it: the value quoted or as a token, and white space between the parts.\<close>

datatype auth_value = Quoted "byte list" | Token "byte list"

fun value_of :: "auth_value \<Rightarrow> byte list" where
  "value_of (Quoted v) = v"
| "value_of (Token v) = v"

record auth_item =
  ai_before :: "byte list"
  ai_name :: "byte list"
  ai_eq1 :: "byte list"
  ai_eq2 :: "byte list"
  ai_value :: auth_value
  ai_after :: "byte list"

fun print_value :: "auth_value \<Rightarrow> byte list" where
  "print_value (Quoted v) = [34] @ v @ [34]"
| "print_value (Token v) = v"

definition print_item :: "auth_item \<Rightarrow> byte list" where
  "print_item i = ai_before i @ ai_name i @ ai_eq1 i @ c_str ''='' @ ai_eq2 i @ print_value (ai_value i) @ ai_after i"

fun print_challenge :: "auth_item list \<Rightarrow> byte list" where
  "print_challenge [] = []"
| "print_challenge (i # is) = print_item i @ (if is = [] then [] else c_str '','' @ print_challenge is)"

fun value_ok :: "auth_value \<Rightarrow> bool" where
  "value_ok (Quoted v) \<longleftrightarrow> 34 \<notin> set v"
| "value_ok (Token v) \<longleftrightarrow> v \<noteq> [] \<and> hd v \<noteq> 34 \<and> \<not> c_isspace (hd v) \<and> \<not> c_isspace (last v) \<and> of_char (CHR '','') \<notin> set v"

definition item_ok :: "auth_item \<Rightarrow> bool" where
  "item_ok i \<longleftrightarrow> list_all c_isspace (ai_before i @ ai_eq1 i @ ai_eq2 i @ ai_after i) \<and> value_ok (ai_value i) \<and> ai_name i \<noteq> [] \<and>
     list_all (\<lambda>c. \<not> c_isspace c \<and> c \<noteq> of_char (CHR ''='') \<and> c \<noteq> of_char (CHR '','')) (ai_name i)"

type_synonym auth_param = "byte list \<times> byte list"

definition item_param :: "auth_item \<Rightarrow> auth_param" where
  "item_param i = (ai_name i, value_of (ai_value i))"

function params_of :: "byte list \<Rightarrow> auth_param list" where
  "params_of s = (case extract_param s (of_char (CHR '','')) of None \<Rightarrow> [] | Some (n, v, rest) \<Rightarrow> (n, v) # params_of rest)"
  by pat_completeness auto
termination
  by (relation "measure length") (auto dest: extract_param_shorter)

declare params_of.simps [simp del]

lemma digest_params_loop_fold: "digest_params_loop ptr d = fold digest_param (params_of ptr) d"
proof (induction ptr d rule: digest_params_loop.induct)
  case (1 ptr d)
  show ?case
  proof (cases "extract_param ptr (of_char (CHR '',''))")
    case None
    then show ?thesis by (simp add: digest_params_loop.simps [of ptr] params_of.simps [of ptr])
  next
    case (Some r)
    then obtain n v rest where "extract_param ptr (of_char (CHR '','')) = Some (n, v, rest)" by (cases r) auto
    then show ?thesis using 1 by (simp add: digest_params_loop.simps [of ptr] params_of.simps [of ptr])
  qed
qed

lemma takeWhile_stop: "(\<forall>c \<in> set xs. P c) \<Longrightarrow> \<not> P y \<Longrightarrow> takeWhile P (xs @ y # ys) = xs"
  by (induction xs) auto

lemma dropWhile_stop: "list_all P xs \<Longrightarrow> ys = [] \<or> \<not> P (hd ys) \<Longrightarrow> dropWhile P (xs @ ys) = ys"
  by (induction xs) (cases ys; simp)+

lemma extract_print:
  assumes ok: "item_ok i" and rest: "rest = [] \<or> (\<exists>r. rest = of_char (CHR '','') # r)"
  shows "extract_param (print_item i @ rest) (of_char (CHR '','')) = Some (ai_name i, value_of (ai_value i), tl rest)"
proof -
  let ?n = "ai_name i" and ?v = "ai_value i" and ?N = "\<lambda>c. \<not> c_isspace c \<and> c \<noteq> 61 \<and> c \<noteq> (44 :: byte)"
  have sp: "list_all c_isspace (ai_before i)" "list_all c_isspace (ai_eq1 i)" "list_all c_isspace (ai_eq2 i)" "list_all c_isspace (ai_after i)"
    and n: "?n \<noteq> []" "list_all ?N ?n" and v: "value_ok ?v" using ok by (simp_all add: item_ok_def)
  have e: "\<not> c_isspace 61" "\<not> c_isspace 34" "\<not> c_isspace 44" by (simp_all add: c_isspace_def)
  let ?t3 = "print_value ?v @ ai_after i @ rest"
  let ?t2 = "61 # ai_eq2 i @ ?t3" and ?t = "ai_eq1 i @ 61 # ai_eq2 i @ ?t3"
  have src: "print_item i @ rest = ai_before i @ ?n @ ?t" by (simp add: print_item_def c_str_def)
  have hd: "hd (?n @ ?t) = hd ?n" "?N (hd ?n)" using n by (simp_all add: list_all_iff)
  have p: "dropWhile c_isspace (ai_before i @ ?n @ ?t) = ?n @ ?t" by (rule dropWhile_stop [OF sp(1)]) (use hd in simp)
  obtain y ys where y: "?t = y # ys" "\<not> ?N y" using sp(2) by (cases "ai_eq1 i") auto
  have nm: "takeWhile ?N (?n @ ?t) = ?n" unfolding y(1) by (rule takeWhile_stop) (use n(2) y(2) in \<open>simp_all add: list_all_iff\<close>)
  have p2: "dropWhile c_isspace ?t = ?t2" using dropWhile_stop [OF sp(2), of ?t2] e by simp
  have rs: "dropWhile (\<lambda>c. c \<noteq> 44) rest = rest" "dropWhile c_isspace rest = rest" using rest e by auto
  show ?thesis
  proof (cases ?v)
    case (Quoted u)
    have p3: "dropWhile c_isspace (ai_eq2 i @ ?t3) = ?t3" by (rule dropWhile_stop [OF sp(3)]) (simp add: Quoted e)
    have u: "takeWhile (\<lambda>c. c \<noteq> 34) (u @ 34 # ai_after i @ rest) = u" by (rule takeWhile_stop) (use v Quoted in auto)
    have "dropWhile c_isspace (ai_after i @ rest) = rest" by (rule dropWhile_stop [OF sp(4)]) (use rest e in auto)
    then show ?thesis using p nm p2 p3 u rs n(1) unfolding src by (simp add: extract_param_def Let_def Quoted)
  next
    case (Token u)
    have u: "u \<noteq> []" "hd u \<noteq> 34" "\<not> c_isspace (hd u)" "\<not> c_isspace (last u)" "44 \<notin> set u" using v Token by simp_all
    have p3: "dropWhile c_isspace (ai_eq2 i @ ?t3) = ?t3" by (rule dropWhile_stop [OF sp(3)]) (use u in \<open>simp add: Token\<close>)
    have "44 \<notin> set (ai_after i)" using sp(4) e by (auto simp: list_all_iff)
    then have tw: "takeWhile (\<lambda>c. c \<noteq> 44) ?t3 = u @ ai_after i" using rest u by (auto simp: Token takeWhile_append)
    have "list_all c_isspace (rev (ai_after i))" using sp(4) by (simp add: list_all_iff)
    then have "rev (dropWhile c_isspace (rev (u @ ai_after i))) = u"
      using dropWhile_stop [of c_isspace "rev (ai_after i)" "rev u"] u by (simp add: hd_rev)
    moreover have "?t3 \<noteq> [] \<and> hd ?t3 \<noteq> 34" using u by (simp add: Token)
    ultimately show ?thesis using p nm p2 p3 tw rs n(1) unfolding src by (auto simp: extract_param_def Let_def Token)
  qed
qed

lemma params_print: "list_all item_ok is \<Longrightarrow> params_of (print_challenge is) = map item_param is"
proof (induction "is")
  case Nil
  then show ?case by (simp add: params_of.simps extract_param_def)
next
  case (Cons i "is")
  let ?r = "if is = [] then [] else c_str '','' @ print_challenge is"
  have "extract_param (print_item i @ ?r) (of_char (CHR '','')) = Some (ai_name i, value_of (ai_value i), tl ?r)"
    by (rule extract_print) (use Cons.prems in \<open>auto simp: c_str_def\<close>)
  moreover have "tl ?r = print_challenge is" by (simp add: c_str_def)
  ultimately show ?case using Cons by (simp add: params_of.simps [of "_ @ _"] item_param_def)
qed

text \<open>The value of a parameter of a challenge: names are compared without case, and the last of several counts. A name is full if it is
  not the beginning of one of the names the code knows.\<close>

definition param_value :: "auth_item list \<Rightarrow> string \<Rightarrow> byte list option" where
  "param_value is k = map_of (rev (map (\<lambda>i. (map c_tolower (ai_name i), value_of (ai_value i))) is)) (c_str k)"

definition full_name :: "auth_item \<Rightarrow> bool" where
  "full_name i \<longleftrightarrow> list_all (\<lambda>k. take (length (ai_name i)) (c_str k) = map c_tolower (ai_name i) \<longrightarrow> c_str k = map c_tolower (ai_name i))
     [''realm'', ''opaque'', ''nonce'', ''qop'']"

lemma strncaseeq_full:
  assumes "full_name i" "k \<in> {''realm'', ''opaque'', ''nonce'', ''qop''}"
  shows "strncaseeq (ai_name i) (c_str k) (length (ai_name i)) \<longleftrightarrow> map c_tolower (ai_name i) = c_str k"
proof -
  have "map c_tolower (c_str k) = c_str k" using assms(2) by (auto simp: c_str_def c_tolower_def)
  then have "strncaseeq (ai_name i) (c_str k) (length (ai_name i)) \<longleftrightarrow> map c_tolower (ai_name i) = take (length (ai_name i)) (c_str k)"
    by (simp add: strncaseeq_def take_map [symmetric])
  also have "\<dots> \<longleftrightarrow> map c_tolower (ai_name i) = c_str k"
  proof
    assume "map c_tolower (ai_name i) = c_str k"
    then show "map c_tolower (ai_name i) = take (length (ai_name i)) (c_str k)" by (metis length_map take_all order_refl)
  next
    have "take (length (ai_name i)) (c_str k) = map c_tolower (ai_name i) \<longrightarrow> c_str k = map c_tolower (ai_name i)"
      by (rule bspec [OF assms(1) [unfolded full_name_def list_all_iff]]) (use assms(2) in auto)
    moreover assume "map c_tolower (ai_name i) = take (length (ai_name i)) (c_str k)"
    ultimately show "map c_tolower (ai_name i) = c_str k" by metis
  qed
  finally show ?thesis .
qed

lemma challenge_params:
  assumes "list_all full_name is"
  shows "fold digest_param (map item_param is) no_params =
    \<lparr>dp_realm = param_value is ''realm'', dp_opaque = param_value is ''opaque'', dp_nonce = param_value is ''nonce'', dp_qop = param_value is ''qop''\<rparr>"
  using assms
proof (induction "is" rule: rev_induct)
  case Nil
  then show ?case by (simp add: no_params_def param_value_def)
next
  case (snoc i "is")
  have "c_str ''realm'' \<noteq> c_str ''opaque''" "c_str ''realm'' \<noteq> c_str ''nonce''" "c_str ''realm'' \<noteq> c_str ''qop''" "c_str ''opaque'' \<noteq> c_str ''nonce''"
    "c_str ''opaque'' \<noteq> c_str ''qop''" "c_str ''nonce'' \<noteq> c_str ''qop''" by (simp_all add: c_str_def)
  moreover have "full_name i" using snoc.prems by simp
  ultimately show ?case using snoc
    by (auto simp: digest_param_def item_param_def strncaseeq_full param_value_def)
qed

text \<open>No value is longer than the line it comes from.\<close>

lemma extract_param_length:
  assumes "extract_param s sep = Some (name, v, rest)"
  shows "length v \<le> length s"
proof -
  have d: "length (dropWhile P xs) \<le> length xs" for P and xs :: "byte list" by (rule length_dropWhile_le)
  have k: "length (takeWhile P xs) \<le> length xs" for P and xs :: "byte list" by (rule length_takeWhile_le)
  have t: "length (tl xs) \<le> length xs" for xs :: "byte list" by simp
  have f: "length (drop n xs) \<le> length xs" for n and xs :: "byte list" by simp
  define p where "p = dropWhile c_isspace s"
  define p2 where "p2 = dropWhile c_isspace (drop (length (takeWhile (\<lambda>c. \<not> c_isspace c \<and> c \<noteq> of_char (CHR ''='') \<and> c \<noteq> sep) p)) p)"
  define p3 where "p3 = dropWhile c_isspace (tl p2)"
  have "length p2 \<le> length s" unfolding p2_def p_def using d f le_trans by meson
  then have l: "length p3 \<le> length s" unfolding p3_def using d t le_trans by meson
  have w: "length (rev (dropWhile c_isspace (rev (takeWhile P xs)))) \<le> length xs" for P and xs :: "byte list"
    using d [of c_isspace "rev (takeWhile P xs)"] k [of P xs] by simp
  have q: "length (takeWhile P (tl xs)) \<le> length xs" for P and xs :: "byte list" using k [of P "tl xs"] by simp
  have "v = [] \<or> v = takeWhile (\<lambda>c. c \<noteq> 34) (tl p3) \<or> v = rev (dropWhile c_isspace (rev (takeWhile (\<lambda>c. c \<noteq> sep) p3)))"
    using assms unfolding extract_param_def Let_def p_def [symmetric] p2_def [symmetric] p3_def [symmetric]
    by (auto split: if_splits)
  then show ?thesis using l w [of "\<lambda>c. c \<noteq> sep" p3] q [of "\<lambda>c. c \<noteq> 34" p3] by (elim disjE) simp_all
qed

definition params_within :: "nat \<Rightarrow> digest_params \<Rightarrow> bool" where
  "params_within n d \<longleftrightarrow> (\<forall>v. Some v \<in> {dp_realm d, dp_opaque d, dp_nonce d, dp_qop d} \<longrightarrow> length v \<le> n)"

lemma digest_params_within: "params_within n d \<Longrightarrow> length line \<le> n \<Longrightarrow> params_within n (digest_params_loop line d)"
proof (induction line d rule: digest_params_loop.induct)
  case (1 ptr d)
  show ?case
  proof (cases "extract_param ptr (of_char (CHR '',''))")
    case None
    then show ?thesis using 1 by (simp add: digest_params_loop.simps [of ptr])
  next
    case (Some r)
    then obtain nm v rest where r: "extract_param ptr (of_char (CHR '','')) = Some (nm, v, rest)" by (cases r) auto
    have "length v \<le> n" "length rest \<le> n" using extract_param_length [OF r] extract_param_shorter [OF r] 1(3) by simp_all
    moreover then have "params_within n (digest_param (nm, v) d)" using 1(2) by (auto simp: params_within_def digest_param_def)
    ultimately show ?thesis using 1(1) [OF r refl refl] r by (simp add: digest_params_loop.simps [of ptr])
  qed
qed

section \<open>The response of the standard\<close>

definition rfc_H :: "byte list \<Rightarrow> byte list" where
  "rfc_H s = concat (map hex2 (rfc_md5 s))"

definition rfc_response ::
    "byte list \<Rightarrow> byte list \<Rightarrow> byte list \<Rightarrow> byte list \<Rightarrow> byte list \<Rightarrow> byte list \<Rightarrow> (byte list \<times> byte list \<times> byte list) option \<Rightarrow> byte list" where
  "rfc_response user realm passwd method uri nonce qop =
     (let colon = c_str '':''; A1 = user @ colon @ realm @ colon @ passwd; A2 = method @ colon @ uri in
      rfc_H (rfc_H A1 @ colon @ nonce @ colon @
        (case qop of None \<Rightarrow> [] | Some (nc, cnonce, q) \<Rightarrow> nc @ colon @ cnonce @ colon @ q @ colon) @ rfc_H A2))"

lemma length_hash: "length (rfc_md5 m) = 16"
  by (simp add: rfc_md5_def md5_digest_def split: prod.split)

lemma md5_of_rfc:
  assumes "length junk = 64" "\<forall>c \<in> set parts. length c < 2 ^ 28"
  shows "md5_of junk parts = rfc_H (concat parts)"
  unfolding md5_of_def md5_matches_rfc [OF assms] dump_hash_def rfc_H_def by (simp add: length_hash)

lemma length_rfc_H: "length (rfc_H m) = 32"
proof -
  have "length (concat (map hex2 bs)) = 2 * length bs" for bs by (induction bs) (simp_all add: hex2_def)
  then show ?thesis unfolding rfc_H_def by (simp add: length_hash)
qed

lemma length_hex8: "length (hex8 w) = 8"
  by (simp add: hex8_def le32_def hex2_def)

lemma c_str_length: "length (c_str s) = length s"
  by (simp add: c_str_def)

text \<open>The header value for a challenge.\<close>

definition rfc_answer ::
    "byte list \<Rightarrow> byte list \<Rightarrow> byte list \<Rightarrow> byte list \<Rightarrow> byte list \<Rightarrow> byte list \<Rightarrow> byte list option \<Rightarrow> byte list option \<Rightarrow> u32 \<Rightarrow> byte list \<Rightarrow> byte list" where
  "rfc_answer user realm passwd method uri nonce qop opaque count cnonce =
     (let quoted = (\<lambda>key v. c_str key @ c_str ''='' @ [34] @ v @ [34]);
          response = rfc_response user realm passwd method uri nonce (map_option (\<lambda>q. (hex8 count, cnonce, q)) qop) in
      quoted ''username'' user @ quoted '', realm'' realm @ quoted '', nonce'' nonce @ quoted '', uri'' uri @ quoted '', response'' response @
      (case qop of None \<Rightarrow> [] | Some q \<Rightarrow> c_str '', qop='' @ q @ c_str '', nc='' @ hex8 count @ quoted '', cnonce'' cnonce) @
      (case opaque of None \<Rightarrow> [] | Some x \<Rightarrow> quoted '', opaque'' x))"

lemma auth_length: "strncaseeq q (c_str ''auth'') 5 \<Longrightarrow> length q = 4"
proof -
  assume "strncaseeq q (c_str ''auth'') 5"
  then have "length (map c_tolower (take 5 q)) = length (map c_tolower (take 5 (c_str ''auth'')))" unfolding strncaseeq_def by (rule arg_cong)
  then show ?thesis by (simp add: c_str_length min_def split: if_splits)
qed

lemma key_strings:
  "c_str ''username='' = c_str ''username'' @ c_str ''=''" "c_str '', realm='' = c_str '', realm'' @ c_str ''=''"
  "c_str '', nonce='' = c_str '', nonce'' @ c_str ''=''" "c_str '', uri='' = c_str '', uri'' @ c_str ''=''"
  "c_str '', response='' = c_str '', response'' @ c_str ''=''" "c_str '', cnonce='' = c_str '', cnonce'' @ c_str ''=''"
  "c_str '', opaque='' = c_str '', opaque'' @ c_str ''=''"
  by (simp_all add: c_str_def)

text \<open>With acceptable parameters the code writes this header.\<close>

lemma digest_response:
  assumes "length junk = 64" "digest_params_loop line no_params = \<lparr>dp_realm = Some realm, dp_opaque = opaque, dp_nonce = Some nonce, dp_qop = qop\<rparr>"
    and ok: "qop = None \<or> strncaseeq (the qop) (c_str ''auth'') 5"
    and L: "\<forall>s \<in> {user, realm, passwd, method, path, nonce, cnonce}. length s < 2 ^ 28"
  shows "\<exists>len. digest_authentication_encode junk line (Some user) (Some passwd) (Some method) (Some path) count cnonce =
    Some (len, rfc_answer user realm passwd method path nonce qop opaque count cnonce)"
proof -
  let ?colon = "c_str '':''"
  have short: "length ?colon < 2 ^ 28" "length (hex8 count) < 2 ^ 28" "length (rfc_H m) < 2 ^ 28" for m by (simp_all add: c_str_def length_hex8 length_rfc_H)
  let ?A1 = "user @ ?colon @ realm @ ?colon @ passwd" and ?A2 = "method @ ?colon @ path"
  have a1: "md5_of junk [user, ?colon, realm, ?colon, passwd] = rfc_H ?A1"
    using md5_of_rfc [OF assms(1), of "[user, ?colon, realm, ?colon, passwd]"] L short(1) by simp
  have a2: "md5_of junk [method, ?colon, path] = rfc_H ?A2"
    using md5_of_rfc [OF assms(1), of "[method, ?colon, path]"] L short(1) by simp
  have r: "md5_of junk ([rfc_H ?A1, ?colon, nonce, ?colon] @
      (case qop of Some q \<Rightarrow> [hex8 count, ?colon, cnonce, ?colon, q, ?colon] | None \<Rightarrow> []) @ [rfc_H ?A2]) =
      rfc_response user realm passwd method path nonce (map_option (\<lambda>q. (hex8 count, cnonce, q)) qop)"
  proof (cases qop)
    case None
    then show ?thesis using md5_of_rfc [OF assms(1), of "[rfc_H ?A1, ?colon, nonce, ?colon, rfc_H ?A2]"] L short
      by (simp add: rfc_response_def Let_def)
  next
    case (Some q)
    then have "length q < 2 ^ 28" using ok auth_length by simp
    then show ?thesis using Some md5_of_rfc [OF assms(1), of "[rfc_H ?A1, ?colon, nonce, ?colon, hex8 count, ?colon, cnonce, ?colon, q, ?colon, rfc_H ?A2]"] L short
      by (simp add: rfc_response_def Let_def)
  qed
  show ?thesis unfolding digest_authentication_encode_def Let_def assms(2) using ok r
    by (cases qop; cases opaque) (simp_all add: a1 a2 rfc_answer_def Let_def key_strings)
qed

text \<open>The memory suffices for any line, as long as none of the strings is so long that the size wraps around.\<close>

lemma length_md5_of: "length (md5_of junk parts) \<le> 32"
proof -
  have "length (concat (map hex2 bs)) = 2 * length bs" for bs by (induction bs) (simp_all add: hex2_def)
  then show ?thesis by (simp add: md5_of_def dump_hash_def)
qed

lemma sizes_fit:
  assumes "user < 2 ^ 28" "realm < 2 ^ 28" "nonce < 2 ^ 28" "path < 2 ^ 28" "response \<le> 32" "qop \<le> 12 + cnonce" "cnonce < 2 ^ 28" "opaque < (2 :: nat) ^ 28"
  shows "to_c_int (int (256 + user + realm + nonce + path + response + qop + opaque)) = int (256 + user + realm + nonce + path + response + qop + opaque)"
  using assms by (intro to_c_int_id) simp_all

lemma digest_fits:
  assumes "digest_authentication_encode junk line (Some user) passwd method path count cnonce = Some (len, res)"
    "length user < 2 ^ 28" "length line < 2 ^ 28" "\<forall>p. path = Some p \<longrightarrow> length p < 2 ^ 28" "length cnonce < 2 ^ 28"
  shows "int (length res) < len"
proof -
  define d where "d = digest_params_loop line no_params"
  have "params_within (length line) d" unfolding d_def by (rule digest_params_within) (simp_all add: no_params_def params_within_def)
  then have L: "length v < 2 ^ 28" if "Some v \<in> {dp_realm d, dp_opaque d, dp_nonce d, dp_qop d}" for v
    using that assms(3) unfolding params_within_def by fastforce
  obtain realm nonce pw pt me where d: "dp_realm d = Some realm" "dp_nonce d = Some nonce" "passwd = Some pw" "path = Some pt" "method = Some me"
    using assms(1) unfolding digest_authentication_encode_def Let_def d_def [symmetric] by (auto split: option.splits)
  have n: "length realm < 2 ^ 28" "length nonce < 2 ^ 28" "length pt < 2 ^ 28" "\<And>x. dp_opaque d = Some x \<Longrightarrow> length x < 2 ^ 28"
    using L d assms(4) by auto
  let ?a = "md5_of junk [user, c_str '':'', realm, c_str '':'', pw]"
  let ?b = "md5_of junk [me, c_str '':'', pt]"
  show ?thesis
  proof (cases "dp_qop d")
    case None
    let ?m = "md5_of junk [?a, c_str '':'', nonce, c_str '':'', ?b]"
    have "to_c_int (int (256 + length user + length realm + length nonce + length pt + length ?m + 0 + (case dp_opaque d of None \<Rightarrow> 0 | Some x \<Rightarrow> length x))) =
        int (256 + length user + length realm + length nonce + length pt + length ?m + 0 + (case dp_opaque d of None \<Rightarrow> 0 | Some x \<Rightarrow> length x))"
      by (rule sizes_fit [where cnonce = 0]) (use n assms(2) length_md5_of in \<open>simp_all split: option.split\<close>)
    then show ?thesis using assms(1) d None unfolding digest_authentication_encode_def Let_def d_def [symmetric]
      by (cases "dp_opaque d") (auto simp: c_str_length)
  next
    case (Some q)
    then have q: "strncaseeq q (c_str ''auth'') 5" using assms(1) d unfolding digest_authentication_encode_def Let_def d_def [symmetric]
      by (auto split: if_splits)
    let ?m = "md5_of junk [?a, c_str '':'', nonce, c_str '':'', hex8 count, c_str '':'', cnonce, c_str '':'', q, c_str '':'', ?b]"
    let ?k = "length q + length (hex8 count) + length cnonce"
    have "to_c_int (int (256 + length user + length realm + length nonce + length pt + length ?m + ?k + (case dp_opaque d of None \<Rightarrow> 0 | Some x \<Rightarrow> length x))) =
        int (256 + length user + length realm + length nonce + length pt + length ?m + ?k + (case dp_opaque d of None \<Rightarrow> 0 | Some x \<Rightarrow> length x))"
      by (rule sizes_fit [where cnonce = "length cnonce"])
        (use n assms(2,5) length_md5_of auth_length [OF q] length_hex8 in \<open>simp_all split: option.split\<close>)
    then show ?thesis using assms(1) d Some q unfolding digest_authentication_encode_def Let_def d_def [symmetric]
      by (cases "dp_opaque d") (auto simp: c_str_length)
  qed
qed

section \<open>Properties\<close>


definition da_item :: "string \<Rightarrow> auth_value \<Rightarrow> auth_item" where
  "da_item k v = \<lparr>ai_before = c_str '' '', ai_name = c_str k, ai_eq1 = [], ai_eq2 = c_str '' '', ai_value = v, ai_after = []\<rparr>"

definition da_ex :: "auth_item list" where
  "da_ex = [da_item ''algorithm'' (Token (c_str ''MD5'')), da_item ''Nonce'' (Quoted (c_str ''7a'')), da_item ''qop'' (Token (c_str ''auth'')),
     da_item ''realm'' (Quoted (c_str ''a, b''))]"


text \<open>Decoding what Basic authentication sends gives the user and the password.\<close>

lemma basic_decodes:
  assumes "int (length user + length passwd) < 1073741822"
  shows "\<exists>s. basic_authentication_encode user passwd = Some s \<and>
    base64_decode s (int (length user + length passwd) + 1) = Some (user @ c_str '':'' @ passwd)"
proof -
  let ?pair = "user @ c_str '':'' @ passwd"
  have len: "int (length ?pair) = int (length user) + 1 + int (length passwd)" by (simp add: c_str_length)
  then have "basic_authentication_encode user passwd = base64_encode (BASE64_SIZE (int (length ?pair))) ?pair"
    unfolding basic_authentication_encode_def Let_def len by simp
  moreover obtain s where s: "base64_encode (BASE64_SIZE (int (length ?pair))) ?pair = Some s"
    using base64_encode_total [of ?pair] assms len by auto
  moreover have "base64_decode s (int (length user + length passwd) + 1) = Some ?pair"
    by (rule base64_decode_encode [OF s]) (simp add: c_str_length)
  ultimately show ?thesis by (intro exI [of _ s]) simp
qed

text \<open>A parameter whose name is only the beginning of a known name is taken for it, and characters between the closing quote and the
  separator are skipped.\<close>

lemma short_name_taken: "digest_param (c_str ''n'', v) d = d\<lparr>dp_nonce := Some v\<rparr>"
  by (simp add: digest_param_def strncaseeq_def c_str_def c_tolower_def)

lemma garbage_skipped:
  "extract_param (c_str ''a='' @ [34] @ c_str ''b'' @ [34] @ c_str ''c,d'') (of_char (CHR '','')) = Some (c_str ''a'', c_str ''b'', c_str ''d'')"
  by (simp add: extract_param_def Let_def c_str_def c_isspace_def)

end
