(* ===== verification/Red_Client.thy ===== *)
theory Red_Client
  imports C_Prelude
begin

text \<open>
  The client object of \<^verbatim>\<open>redsocks/redsocks.c\<close> and the buffer pump: a client joins the connection accepted from the
  device with the connection to the proxy and, once the proxy has accepted the request, relays both directions through the
  buffers of two libevent bufferevents.

  The two connections are the sides of the client: the fields \<^verbatim>\<open>client\<close> and \<^verbatim>\<open>relay\<close>, and \<^verbatim>\<open>client_evshut\<close> and \<^verbatim>\<open>relay_evshut\<close>, are
  functions of the side, and a set of flags such as \<^verbatim>\<open>EV_READ | EV_WRITE\<close> is a set. A function on a client returns the
  calls it makes and the object after it: \<open>Live\<close>, \<open>Freed\<close> when \<^verbatim>\<open>redsocks_drop_client\<close> has freed it, and \<open>Bad\<close> when a
  freed client or a null bufferevent is used. Logging is left out.

  Of libevent, the model has what its documentation says of a bufferevent: its buffers, its watermarks, the enabled events
  and whether its write event is pending. The write event is added when writing is enabled and when data is added to
  the output, and removed when the output is empty; the write callback runs when the output has drained to the low watermark,
  which is 0.
\<close>

section \<open>Bufferevents of libevent\<close>

datatype ev = EV_READ | EV_WRITE

datatype side = ClientSide | RelaySide

fun other :: "side \<Rightarrow> side" where
  "other ClientSide = RelaySide"
| "other RelaySide = ClientSide"

lemma other_other [simp]: "other (other s) = s"
  by (cases s) simp_all

lemma other_neq [simp]: "other s \<noteq> s" "s \<noteq> other s"
  by (cases s; simp)+

lemma side_cases: "t = s \<or> t = other s"
  by (cases s; cases t) simp_all

datatype fd = Sock side | Pipe_read side | Pipe_write side

record bufferevent =
  be_fd :: "fd option"
  be_input :: "byte list"
  be_output :: "byte list"
  be_wm_read :: "nat \<times> nat"
  be_wm_write_high :: nat
  be_enabled :: "ev set"
  be_write_pending :: bool

definition bufferevent_enable :: "bufferevent \<Rightarrow> ev set \<Rightarrow> bufferevent" where
  "bufferevent_enable b evs =
     b\<lparr>be_enabled := be_enabled b \<union> evs, be_write_pending := (be_write_pending b \<or> EV_WRITE \<in> evs)\<rparr>"

definition bufferevent_disable :: "bufferevent \<Rightarrow> ev set \<Rightarrow> bufferevent" where
  "bufferevent_disable b evs =
     b\<lparr>be_enabled := be_enabled b - evs, be_write_pending := (be_write_pending b \<and> EV_WRITE \<notin> evs)\<rparr>"

definition bufferevent_write :: "bufferevent \<Rightarrow> byte list \<Rightarrow> bufferevent" where
  "bufferevent_write b bs =
     b\<lparr>be_output := be_output b @ bs,
       be_write_pending := (be_write_pending b \<or> (bs \<noteq> [] \<and> EV_WRITE \<in> be_enabled b))\<rparr>"

section \<open>The client object (redsocks/redsocks.h)\<close>

record splice_pipe =
  sp_read :: "fd option"
  sp_write :: "fd option"
  sp_size :: nat

text \<open>An event of libevent that is not initialised has no descriptor.\<close>

record event =
  ev_fd :: "fd option"
  ev_pending :: bool
  ev_active :: bool

text \<open>The pipes \<^verbatim>\<open>request\<close> and \<^verbatim>\<open>reply\<close> are named by the side they are filled from.\<close>

record redsocks_pump =
  pm_pipe :: "side \<Rightarrow> splice_pipe"
  pm_event :: "side \<Rightarrow> ev \<Rightarrow> event"

text \<open>\<open>rc_pump\<close> is the part of \<^verbatim>\<open>redsocks_pump\<close> after the client; it exists when the instance uses \<^verbatim>\<open>splice\<close>.\<close>

record redsocks_client =
  rc_buffev :: "side \<Rightarrow> bufferevent option"
  rc_evshut :: "side \<Rightarrow> ev set"
  rc_state :: int
  rc_last_event :: nat
  rc_pump :: "redsocks_pump option"

datatype how = SHUT_RD | SHUT_WR | SHUT_RDWR

text \<open>\<open>Write_to\<close> is \<^verbatim>\<open>evbuffer_write\<close>, \<open>Splice_from\<close> and \<open>Splice_to\<close> move bytes between a socket and the pipe of a direction.\<close>

datatype rs_call = Shutdown side how | Close fd | Free_bufferevent side | Fini | Conn_list_del | Free_client
  | Write_to side "byte list" | Splice_from side nat | Splice_to side nat

datatype rs_object = Live redsocks_client | Freed | Bad

type_synonym rs_result = "rs_call list \<times> rs_object"

text \<open>What follows a call uses the client again: that is an error if the call has freed it.\<close>

definition rs_seq :: "rs_result \<Rightarrow> (redsocks_client \<Rightarrow> rs_result) \<Rightarrow> rs_result" where
  "rs_seq r f = (case r of
     (xs, Live c) \<Rightarrow> (let (ys, o') = f c in (xs @ ys, o'))
   | (xs, Freed) \<Rightarrow> (xs, Bad)
   | (xs, Bad) \<Rightarrow> (xs, Bad))"

lemma rs_seq_simps [simp]:
  "rs_seq (xs, Live c) f = (xs @ fst (f c), snd (f c))"
  "rs_seq (xs, Freed) f = (xs, Bad)" "rs_seq (xs, Bad) f = (xs, Bad)"
  by (simp_all add: rs_seq_def case_prod_beta)

definition pump_active :: int where "pump_active = - 1"

definition REDSOCKS_RELAY_HALFBUFF :: nat where "REDSOCKS_RELAY_HALFBUFF = 4096"

definition set_buffev :: "side \<Rightarrow> bufferevent \<Rightarrow> redsocks_client \<Rightarrow> redsocks_client" where
  "set_buffev s b c = c\<lparr>rc_buffev := (rc_buffev c)(s := Some b)\<rparr>"

lemma set_buffev_simps [simp]:
  "rc_buffev (set_buffev s b c) = (rc_buffev c)(s := Some b)" "rc_evshut (set_buffev s b c) = rc_evshut c"
  "rc_state (set_buffev s b c) = rc_state c" "rc_last_event (set_buffev s b c) = rc_last_event c"
  "rc_pump (set_buffev s b c) = rc_pump c"
  by (simp_all add: set_buffev_def)

section \<open>Closing (redsocks/redsocks.c)\<close>

definition redsocks_touch_client :: "nat \<Rightarrow> redsocks_client \<Rightarrow> redsocks_client" where
  "redsocks_touch_client now c = c\<lparr>rc_last_event := now\<rparr>"

lemma redsocks_touch_client_simps [simp]:
  "rc_buffev (redsocks_touch_client n c) = rc_buffev c" "rc_evshut (redsocks_touch_client n c) = rc_evshut c"
  "rc_state (redsocks_touch_client n c) = rc_state c" "rc_pump (redsocks_touch_client n c) = rc_pump c"
  by (simp_all add: redsocks_touch_client_def)

definition shut_both :: "redsocks_client \<Rightarrow> bool" where
  "shut_both c \<longleftrightarrow> rc_evshut c RelaySide = {EV_READ, EV_WRITE} \<and> rc_evshut c ClientSide = {EV_READ, EV_WRITE}"

definition close_opt :: "fd option \<Rightarrow> rs_call list" where
  "close_opt x = (case x of None \<Rightarrow> [] | Some d \<Rightarrow> [Close d])"

definition redsocks_bufferevent_free :: "side \<Rightarrow> bufferevent \<Rightarrow> rs_call list" where
  "redsocks_bufferevent_free s b = Free_bufferevent s # close_opt (be_fd b)"

text \<open>The part of \<^verbatim>\<open>redsocks_drop_client\<close> for an instance with \<^verbatim>\<open>splice\<close>.\<close>

definition drop_pump :: "redsocks_pump \<Rightarrow> rs_call list" where
  "drop_pump p =
     close_opt (sp_read (pm_pipe p ClientSide)) @ close_opt (sp_write (pm_pipe p ClientSide)) @
     close_opt (sp_read (pm_pipe p RelaySide)) @ close_opt (sp_write (pm_pipe p RelaySide)) @
     close_opt (ev_fd (pm_event p ClientSide EV_READ)) @ close_opt (ev_fd (pm_event p RelaySide EV_READ))"

definition redsocks_drop_client :: "redsocks_client \<Rightarrow> rs_result" where
  "redsocks_drop_client c =
     (Fini #
      (case rc_buffev c ClientSide of None \<Rightarrow> [] | Some b \<Rightarrow> redsocks_bufferevent_free ClientSide b) @
      (case rc_buffev c RelaySide of None \<Rightarrow> [] | Some b \<Rightarrow> redsocks_bufferevent_free RelaySide b) @
      (case rc_pump c of None \<Rightarrow> [] | Some p \<Rightarrow> drop_pump p) @
      [Conn_list_del, Free_client], Freed)"

fun evhow :: "how \<Rightarrow> ev set" where
  "evhow SHUT_RD = {EV_READ}"
| "evhow SHUT_WR = {EV_WRITE}"
| "evhow SHUT_RDWR = {EV_READ, EV_WRITE}"

definition redsocks_shutdown :: "redsocks_client \<Rightarrow> side \<Rightarrow> how \<Rightarrow> rs_result" where
  "redsocks_shutdown c s how = (case rc_buffev c s of
     None \<Rightarrow> ([], Bad)
   | Some b \<Rightarrow>
       (let calls = (if how = SHUT_RD \<and> EV_WRITE \<in> rc_evshut c s then [] else [Shutdown s how]);
            c1 = set_buffev s (bufferevent_disable b (evhow how)) c;
            c2 = c1\<lparr>rc_evshut := (rc_evshut c1)(s := rc_evshut c1 s \<union> evhow how)\<rparr> in
        if shut_both c2 then (calls @ fst (redsocks_drop_client c2), snd (redsocks_drop_client c2))
        else (calls, Live c2)))"

text \<open>The event callback: \<open>eof\<close> for \<^verbatim>\<open>EVBUFFER_READ|EVBUFFER_EOF\<close>, anything else is an error.\<close>

definition redsocks_event_error :: "nat \<Rightarrow> redsocks_client \<Rightarrow> side \<Rightarrow> bool \<Rightarrow> rs_result" where
  "redsocks_event_error now c s eof =
     (let c0 = redsocks_touch_client now c in
      if eof then
        rs_seq (redsocks_shutdown c0 s SHUT_RD) (\<lambda>c1.
          case rc_buffev c1 (other s) of
            None \<Rightarrow> ([], Live c1)
          | Some anti \<Rightarrow>
              if rc_state c1 = pump_active \<and> be_output anti = []
              then redsocks_shutdown c1 (other s) SHUT_WR
              else ([], Live c1))
      else redsocks_drop_client c0)"

section \<open>The buffer pump\<close>

definition redsocks_relay_readcb :: "redsocks_client \<Rightarrow> side \<Rightarrow> side \<Rightarrow> rs_result" where
  "redsocks_relay_readcb c from to = (case (rc_buffev c from, rc_buffev c to) of
     (Some f, Some t) \<Rightarrow>
       if length (be_output t) < be_wm_write_high t
       then ([], Live (set_buffev from (f\<lparr>be_input := []\<rparr>) (set_buffev to (bufferevent_write t (be_input f)) c)))
       else if EV_READ \<in> be_enabled f then ([], Live (set_buffev from (bufferevent_disable f {EV_READ}) c))
       else ([], Live c)
   | _ \<Rightarrow> ([], Bad))"

definition redsocks_relay_writecb :: "redsocks_client \<Rightarrow> side \<Rightarrow> side \<Rightarrow> rs_result" where
  "redsocks_relay_writecb c from to = (case (rc_buffev c from, rc_buffev c to) of
     (Some f, Some t) \<Rightarrow>
       (let from_eof = (EV_READ \<in> rc_evshut c from) in
        if be_input f = [] \<and> from_eof then redsocks_shutdown c to SHUT_WR
        else if length (be_output t) < be_wm_write_high t
        then (let f1 = f\<lparr>be_input := []\<rparr>;
                  f2 = (if \<not> from_eof \<and> EV_READ \<notin> be_enabled f1 then bufferevent_enable f1 {EV_READ} else f1) in
              ([], Live (set_buffev from f2 (set_buffev to (bufferevent_write t (be_input f)) c))))
        else ([], Live c))
   | _ \<Rightarrow> ([], Bad))"

text \<open>The four callbacks of the pump: \<^verbatim>\<open>redsocks_relay_relayreadcb\<close> and \<^verbatim>\<open>redsocks_relay_clientreadcb\<close>, and
  \<^verbatim>\<open>redsocks_relay_relaywritecb\<close> and \<^verbatim>\<open>redsocks_relay_clientwritecb\<close>, by the side of the bufferevent they are set for.\<close>

definition pump_readcb :: "nat \<Rightarrow> redsocks_client \<Rightarrow> side \<Rightarrow> rs_result" where
  "pump_readcb now c s = redsocks_relay_readcb (redsocks_touch_client now c) s (other s)"

definition pump_writecb :: "nat \<Rightarrow> redsocks_client \<Rightarrow> side \<Rightarrow> rs_result" where
  "pump_writecb now c s = redsocks_relay_writecb (redsocks_touch_client now c) (other s) s"

definition bufferpump_buffev :: "redsocks_client \<Rightarrow> side \<Rightarrow> bufferevent \<Rightarrow> bufferevent" where
  "bufferpump_buffev c s b =
     bufferevent_enable (b\<lparr>be_wm_read := (0, REDSOCKS_RELAY_HALFBUFF), be_wm_write_high := REDSOCKS_RELAY_HALFBUFF\<rparr>)
       ({EV_READ, EV_WRITE} - rc_evshut c s)"

text \<open>\<open>error\<close> is set when \<^verbatim>\<open>bufferevent_enable\<close> fails; then the caller drops the client.\<close>

definition redsocks_start_bufferpump :: "bool \<Rightarrow> redsocks_client \<Rightarrow> bool \<times> rs_result" where
  "redsocks_start_bufferpump error c = (case (rc_buffev c ClientSide, rc_buffev c RelaySide) of
     (Some b, Some r) \<Rightarrow>
       (error, [], Live (set_buffev ClientSide (bufferpump_buffev c ClientSide b)
                          (set_buffev RelaySide (bufferpump_buffev c RelaySide r) c)))
   | _ \<Rightarrow> (error, [], Bad))"

section \<open>The event loop around the pump\<close>

text \<open>The sockets: the bytes received from and sent to each side, the bytes being buffered in the client, and whether the
  sending direction of the socket has been shut down.\<close>

record pump_world =
  pw_object :: rs_object
  pw_received :: "side \<Rightarrow> byte list"
  pw_sent :: "side \<Rightarrow> byte list"
  pw_fin :: "side \<Rightarrow> bool"

datatype pump_input = Data side "byte list" | Eof side | Written side nat | Failed side

fun is_fin :: "side \<Rightarrow> rs_call \<Rightarrow> bool" where
  "is_fin s (Shutdown s' how) \<longleftrightarrow> s' = s \<and> EV_WRITE \<in> evhow how"
| "is_fin s _ \<longleftrightarrow> False"

definition pw_return :: "rs_result \<Rightarrow> pump_world \<Rightarrow> pump_world" where
  "pw_return r w = w\<lparr>pw_object := snd r, pw_fin := (\<lambda>s. pw_fin w s \<or> (\<exists>x\<in>set (fst r). is_fin s x))\<rparr>"

text \<open>What libevent does with a socket event; \<open>None\<close> when the event cannot occur: reading is enabled and
  the input below its watermark, or writing is enabled and the write event pending.\<close>

definition pump_exec :: "nat \<Rightarrow> pump_input \<Rightarrow> pump_world \<Rightarrow> pump_world option" where
  "pump_exec now i w = (case pw_object w of
     Live c \<Rightarrow> (case i of
       Data s bs \<Rightarrow> (case rc_buffev c s of
         Some b \<Rightarrow>
           if EV_READ \<in> be_enabled b \<and> bs \<noteq> [] \<and> length (be_input b) + length bs \<le> snd (be_wm_read b)
           then Some (pw_return (pump_readcb now (set_buffev s (b\<lparr>be_input := be_input b @ bs\<rparr>) c) s)
                       (w\<lparr>pw_received := (pw_received w)(s := pw_received w s @ bs)\<rparr>))
           else None
       | None \<Rightarrow> None)
     | Eof s \<Rightarrow> (case rc_buffev c s of
         Some b \<Rightarrow>
           if EV_READ \<in> be_enabled b \<and> length (be_input b) < snd (be_wm_read b)
           then Some (pw_return (redsocks_event_error now (set_buffev s (bufferevent_disable b {EV_READ}) c) s True) w)
           else None
       | None \<Rightarrow> None)
     | Written s n \<Rightarrow> (case rc_buffev c s of
         Some b \<Rightarrow>
           if be_write_pending b \<and> n \<le> length (be_output b) \<and> (be_output b = [] \<or> 0 < n)
           then (let b1 = b\<lparr>be_output := drop n (be_output b)\<rparr>;
                     w1 = w\<lparr>pw_sent := (pw_sent w)(s := pw_sent w s @ take n (be_output b))\<rparr> in
                 if be_output b1 = []
                 then Some (pw_return (pump_writecb now (set_buffev s (b1\<lparr>be_write_pending := False\<rparr>) c) s) w1)
                 else Some (w1\<lparr>pw_object := Live (set_buffev s b1 c)\<rparr>))
           else None
       | None \<Rightarrow> None)
     | Failed s \<Rightarrow> Some (pw_return (redsocks_event_error now c s False) w))
   | _ \<Rightarrow> None)"

fun pump_run :: "nat \<Rightarrow> pump_input list \<Rightarrow> pump_world \<Rightarrow> pump_world option" where
  "pump_run now [] w = Some w"
| "pump_run now (i # is) w = (case pump_exec now i w of None \<Rightarrow> None | Some w1 \<Rightarrow> pump_run now is w1)"

text \<open>The pump starts on a client whose proxy connection is set up; what was buffered before stays buffered.\<close>

definition pump_start :: "redsocks_client \<Rightarrow> pump_world" where
  "pump_start c =
     \<lparr>pw_object = snd (snd (redsocks_start_bufferpump False (c\<lparr>rc_state := pump_active\<rparr>))),
      pw_received = (\<lambda>_. []), pw_sent = (\<lambda>_. []), pw_fin = (\<lambda>s. EV_WRITE \<in> rc_evshut c s)\<rparr>"

definition buf_of :: "redsocks_client \<Rightarrow> side \<Rightarrow> bufferevent" where
  "buf_of c s = the (rc_buffev c s)"

text \<open>What a client looks like when the negotiation with the proxy is over.\<close>

definition pump_ready :: "redsocks_client \<Rightarrow> bool" where
  "pump_ready c \<longleftrightarrow>
     (\<forall>s. rc_buffev c s \<noteq> None \<and> be_enabled (buf_of c s) \<inter> rc_evshut c s = {} \<and>
          (be_write_pending (buf_of c s) \<longrightarrow> EV_WRITE \<in> be_enabled (buf_of c s)) \<and>
          (EV_WRITE \<in> rc_evshut c (other s) \<longrightarrow> EV_READ \<in> rc_evshut c s)) \<and> \<not> shut_both c"

inductive bpump_reach :: "redsocks_client \<Rightarrow> pump_world \<Rightarrow> bool" for c where
  reach_start: "bpump_reach c (pump_start c)"
| reach_step: "bpump_reach c w \<Longrightarrow> pump_exec now i w = Some w' \<Longrightarrow> bpump_reach c w'"

section \<open>Invariant\<close>

text \<open>The direction from \<open>s\<close> to the other side. The sending side is shut down only after the reading side; reading is disabled
  only at the end of the stream or while output is waiting; output, an end of stream to be passed on and input
  left from before the pump keep the write event pending.\<close>

definition pump_dir :: "redsocks_client \<Rightarrow> side \<Rightarrow> bool" where
  "pump_dir c s \<longleftrightarrow>
     rc_buffev c s \<noteq> None \<and>
     (EV_WRITE \<in> rc_evshut c (other s) \<longrightarrow> EV_READ \<in> rc_evshut c s) \<and>
     (EV_READ \<in> be_enabled (buf_of c s) \<longrightarrow> EV_READ \<notin> rc_evshut c s) \<and>
     (EV_WRITE \<in> be_enabled (buf_of c s) \<longleftrightarrow> EV_WRITE \<notin> rc_evshut c s) \<and>
     (be_write_pending (buf_of c s) \<longrightarrow> EV_WRITE \<in> be_enabled (buf_of c s)) \<and>
     (be_output (buf_of c s) \<noteq> [] \<and> EV_WRITE \<notin> rc_evshut c s \<longrightarrow> be_write_pending (buf_of c s)) \<and>
     be_wm_read (buf_of c s) = (0, REDSOCKS_RELAY_HALFBUFF) \<and> be_wm_write_high (buf_of c s) = REDSOCKS_RELAY_HALFBUFF \<and>
     (EV_WRITE \<notin> rc_evshut c (other s) \<and> (EV_READ \<in> rc_evshut c s \<or> be_input (buf_of c s) \<noteq> []) \<longrightarrow>
        be_write_pending (buf_of c (other s))) \<and>
     (EV_WRITE \<notin> rc_evshut c (other s) \<and> EV_READ \<notin> rc_evshut c s \<and> EV_READ \<notin> be_enabled (buf_of c s) \<longrightarrow>
        be_output (buf_of c (other s)) \<noteq> [])"

definition pump_inv :: "redsocks_client \<Rightarrow> bool" where
  "pump_inv c \<longleftrightarrow> rc_state c = pump_active \<and> \<not> shut_both c \<and> (\<forall>s. pump_dir c s)"

lemma all_sides: "(\<forall>t. P t) \<longleftrightarrow> P s \<and> P (other s)"
  using side_cases by metis

lemma pump_dir_touch [simp]: "pump_dir (redsocks_touch_client n c) = pump_dir c"
  by (rule ext) (simp add: pump_dir_def buf_of_def)

lemma shut_both_touch [simp]: "shut_both (redsocks_touch_client n c) = shut_both c"
  by (simp add: shut_both_def)

lemma pump_inv_touch [simp]: "pump_inv (redsocks_touch_client n c) = pump_inv c"
  by (simp add: pump_inv_def)

lemma shut_both_eq: "shut_both c \<longleftrightarrow> (\<forall>s. EV_READ \<in> rc_evshut c s \<and> EV_WRITE \<in> rc_evshut c s)"
proof -
  have "x = {EV_READ, EV_WRITE} \<longleftrightarrow> EV_READ \<in> x \<and> EV_WRITE \<in> x" for x
    using ev.exhaust by auto
  then show ?thesis
    by (auto simp: shut_both_def all_sides [of _ ClientSide])
qed

lemmas bufferevent_defs = bufferevent_enable_def bufferevent_disable_def bufferevent_write_def

lemma half_pos [simp]: "0 < REDSOCKS_RELAY_HALFBUFF" "REDSOCKS_RELAY_HALFBUFF \<noteq> 0"
  by (simp_all add: REDSOCKS_RELAY_HALFBUFF_def)

lemma pump_start_inv:
  assumes "pump_ready c"
  shows "\<exists>c'. pw_object (pump_start c) = Live c' \<and> pump_inv c'"
proof -
  from assms obtain b r where "rc_buffev c ClientSide = Some b" "rc_buffev c RelaySide = Some r"
    by (auto simp: pump_ready_def all_sides [of _ ClientSide])
  with assms show ?thesis
    by (auto simp: pump_ready_def pump_start_def redsocks_start_bufferpump_def pump_inv_def pump_dir_def buf_of_def
        all_sides [of _ ClientSide] bufferpump_buffev_def bufferevent_defs shut_both_def)
qed

text \<open>Two bufferevents and the flags describe all that the invariant reads.\<close>

lemma pump_inv_bufs:
  assumes "pump_inv c"
  obtains b a where "rc_buffev c s = Some b" "rc_buffev c (other s) = Some a"
proof -
  from assms have "rc_buffev c s \<noteq> None" "rc_buffev c (other s) \<noteq> None"
    unfolding pump_inv_def pump_dir_def by blast+
  with that show ?thesis by blast
qed

lemma pump_inv_iff:
  "rc_buffev c s = Some b \<Longrightarrow> rc_buffev c (other s) = Some a \<Longrightarrow>
   pump_inv c \<longleftrightarrow> rc_state c = pump_active \<and> \<not> shut_both c \<and> pump_dir c s \<and> pump_dir c (other s)"
  by (simp add: pump_inv_def all_sides [of _ s])

lemmas pump_dir_simps = pump_dir_def buf_of_def bufferevent_defs

lemma pump_invI:
  "rc_state c = pump_active \<Longrightarrow> \<not> shut_both c \<Longrightarrow> pump_dir c s \<Longrightarrow> pump_dir c (other s) \<Longrightarrow> pump_inv c"
  by (simp add: pump_inv_def all_sides [of _ s])

lemma pump_invD:
  assumes "pump_inv c"
  shows "rc_state c = pump_active" "\<not> shut_both c" "pump_dir c s"
  using assms by (simp_all add: pump_inv_def)

lemma shut_both_cong: "rc_evshut c' = rc_evshut c \<Longrightarrow> shut_both c' = shut_both c"
  by (simp add: shut_both_def)

lemma pump_inv_keep:
  assumes "pump_inv c" "rc_state c' = rc_state c" "rc_evshut c' = rc_evshut c" "pump_dir c' s" "pump_dir c' (other s)"
  shows "pump_inv c'"
  using assms(4,5) pump_invD(1,2) [OF assms(1)] shut_both_cong [OF assms(3)] assms(2)
  by (intro pump_invI [of c' s]) simp_all

text \<open>The read callback moves the input to the other side or, when that is full, stops reading.\<close>

lemma readcb_cases:
  assumes "rc_buffev c s = Some b" "rc_buffev c (other s) = Some a" "EV_READ \<in> be_enabled b"
  obtains (moved) c' where "pump_readcb now c s = ([], Live c')" "length (be_output a) < be_wm_write_high a"
      "rc_buffev c' = (rc_buffev c)(other s := Some (bufferevent_write a (be_input b)), s := Some (b\<lparr>be_input := []\<rparr>))"
      "rc_state c' = rc_state c" "rc_evshut c' = rc_evshut c"
  | (full) c' where "pump_readcb now c s = ([], Live c')" "be_wm_write_high a \<le> length (be_output a)"
      "rc_buffev c' = (rc_buffev c)(s := Some (bufferevent_disable b {EV_READ}))"
      "rc_state c' = rc_state c" "rc_evshut c' = rc_evshut c"
proof (cases "length (be_output a) < be_wm_write_high a")
  case True
  then have "pump_readcb now c s = ([], Live (set_buffev s (b\<lparr>be_input := []\<rparr>)
      (set_buffev (other s) (bufferevent_write a (be_input b)) (redsocks_touch_client now c))))"
    using assms by (simp add: pump_readcb_def redsocks_relay_readcb_def)
  then show ?thesis using True by (rule moved) simp_all
next
  case False
  then have "pump_readcb now c s =
      ([], Live (set_buffev s (bufferevent_disable b {EV_READ}) (redsocks_touch_client now c)))"
    using assms by (simp add: pump_readcb_def redsocks_relay_readcb_def)
  then show ?thesis by (rule full) (use False in simp_all)
qed

lemma readcb_inv:
  assumes inv: "pump_inv c" and b: "rc_buffev c s = Some b" and en: "EV_READ \<in> be_enabled b"
  shows "\<exists>c'. pump_readcb now (set_buffev s (b\<lparr>be_input := i\<rparr>) c) s = ([], Live c') \<and> pump_inv c'"
proof -
  obtain a where a: "rc_buffev c (other s) = Some a"
    using inv by (rule pump_inv_bufs)
  let ?b = "b\<lparr>be_input := i\<rparr>"
  have ab: "rc_buffev (set_buffev s ?b c) s = Some ?b" "rc_buffev (set_buffev s ?b c) (other s) = Some a"
    "EV_READ \<in> be_enabled ?b" using a en by simp_all
  note dir = pump_invD(3) [OF inv, of s] pump_invD(3) [OF inv, of "other s"]
  from ab show ?thesis
  proof (cases rule: readcb_cases [where now = now])
    case (moved c')
    have "pump_dir c' s" "pump_dir c' (other s)"
      using dir b a en by (simp add: moved(3,5) pump_dir_simps; blast?)+
    from pump_inv_keep [OF inv _ _ this] moved(1,4,5) show ?thesis by simp
  next
    case (full c')
    have "be_output a \<noteq> []"
      using full(2) dir(2) a by (cases "be_output a") (simp_all add: pump_dir_simps)
    then have "pump_dir c' s" "pump_dir c' (other s)"
      using dir b a en by (simp add: full(3,5) pump_dir_simps; blast?)+
    from pump_inv_keep [OF inv _ _ this] full(1,4,5) show ?thesis by simp
  qed
qed

text \<open>A shutdown that leaves another flag open keeps the client.\<close>

lemma shutdown_live:
  assumes "rc_buffev c s = Some b" "EV_READ \<notin> rc_evshut c t \<or> EV_WRITE \<notin> rc_evshut c t" "t \<noteq> s"
  obtains xs c1 where "redsocks_shutdown c s how = (xs, Live c1)"
    "rc_buffev c1 = (rc_buffev c)(s := Some (bufferevent_disable b (evhow how)))"
    "rc_evshut c1 = (rc_evshut c)(s := rc_evshut c s \<union> evhow how)" "rc_state c1 = rc_state c"
    "xs = (if how = SHUT_RD \<and> EV_WRITE \<in> rc_evshut c s then [] else [Shutdown s how])"
proof -
  let ?c1 = "set_buffev s (bufferevent_disable b (evhow how)) c"
  let ?c2 = "?c1\<lparr>rc_evshut := (rc_evshut ?c1)(s := rc_evshut ?c1 s \<union> evhow how)\<rparr>"
  have "\<not> shut_both ?c2"
    using assms(2,3) unfolding shut_both_eq by auto
  then have "redsocks_shutdown c s how =
      (if how = SHUT_RD \<and> EV_WRITE \<in> rc_evshut c s then [] else [Shutdown s how], Live ?c2)"
    using assms(1) by (simp add: redsocks_shutdown_def Let_def)
  then show ?thesis by (rule that) simp_all
qed

lemma shutdown_freed_or_live:
  assumes "rc_buffev c s = Some b" "redsocks_shutdown c s how = (xs, r)"
  shows "(r = Freed \<and> (\<forall>t. {EV_READ, EV_WRITE} \<subseteq> rc_evshut c t \<union> (if t = s then evhow how else {}))) \<or>
    (\<exists>c1. r = Live c1 \<and> \<not> shut_both c1 \<and> rc_state c1 = rc_state c \<and>
      rc_buffev c1 = (rc_buffev c)(s := Some (bufferevent_disable b (evhow how))) \<and>
      rc_evshut c1 = (rc_evshut c)(s := rc_evshut c s \<union> evhow how))"
proof -
  let ?c1 = "set_buffev s (bufferevent_disable b (evhow how)) c"
  let ?c2 = "?c1\<lparr>rc_evshut := (rc_evshut ?c1)(s := rc_evshut ?c1 s \<union> evhow how)\<rparr>"
  show ?thesis
  proof (cases "shut_both ?c2")
    case True
    then have "r = Freed"
      using assms by (simp add: redsocks_shutdown_def Let_def redsocks_drop_client_def)
    with True show ?thesis by (auto simp: shut_both_eq split: if_splits)
  next
    case False
    then have "r = Live ?c2"
      using assms by (simp add: redsocks_shutdown_def Let_def)
    with False show ?thesis by simp
  qed
qed

text \<open>The write callback, which runs with an empty output: it passes on the end of the stream or moves the input of the other side
  and has that side read again.\<close>

lemma writecb_cases:
  assumes "rc_buffev c s = Some b" "rc_buffev c (other s) = Some a" "be_output b = []" "0 < be_wm_write_high b"
  obtains (eof) "be_input a = []" "EV_READ \<in> rc_evshut c (other s)"
      "pump_writecb now c s = redsocks_shutdown (redsocks_touch_client now c) s SHUT_WR"
  | (moved) c' where "pump_writecb now c s = ([], Live c')" "be_input a \<noteq> [] \<or> EV_READ \<notin> rc_evshut c (other s)"
      "rc_buffev c' = (rc_buffev c)(s := Some (bufferevent_write b (be_input a)),
         other s := Some (a\<lparr>be_input := [],
           be_enabled := be_enabled a \<union> (if EV_READ \<in> rc_evshut c (other s) then {} else {EV_READ})\<rparr>))"
      "rc_state c' = rc_state c" "rc_evshut c' = rc_evshut c"
proof (cases "be_input a = [] \<and> EV_READ \<in> rc_evshut c (other s)")
  case True
  then show ?thesis
    using assms by (intro eof) (simp_all add: pump_writecb_def redsocks_relay_writecb_def)
next
  case False
  let ?a = "a\<lparr>be_input := [],
           be_enabled := be_enabled a \<union> (if EV_READ \<in> rc_evshut c (other s) then {} else {EV_READ})\<rparr>"
  have "(if EV_READ \<notin> rc_evshut c (other s) \<and> EV_READ \<notin> be_enabled (a\<lparr>be_input := []\<rparr>)
      then bufferevent_enable (a\<lparr>be_input := []\<rparr>) {EV_READ} else a\<lparr>be_input := []\<rparr>) = ?a"
    by (rule bufferevent.equality) (auto simp: bufferevent_enable_def)
  then have "pump_writecb now c s = ([], Live (set_buffev (other s) ?a
      (set_buffev s (bufferevent_write b (be_input a)) (redsocks_touch_client now c))))"
    using assms False by (simp add: pump_writecb_def redsocks_relay_writecb_def Let_def) blast
  then show ?thesis by (rule moved) (use False in simp_all)
qed

lemma writecb_inv:
  assumes inv: "pump_inv c" and b: "rc_buffev c s = Some b" "be_write_pending b"
    and r: "r = pump_writecb now (set_buffev s (b\<lparr>be_output := [], be_write_pending := False\<rparr>) c) s"
  shows "snd r = Freed \<or> (\<exists>c'. snd r = Live c' \<and> pump_inv c')"
proof -
  obtain a where a: "rc_buffev c (other s) = Some a"
    using inv by (rule pump_inv_bufs)
  let ?b = "b\<lparr>be_output := [], be_write_pending := False\<rparr>"
  let ?c = "set_buffev s ?b c"
  note dir = pump_invD(3) [OF inv, of s] pump_invD(3) [OF inv, of "other s"]
  have "0 < be_wm_write_high ?b" "rc_buffev ?c s = Some ?b" "rc_buffev ?c (other s) = Some a" "be_output ?b = []"
    using dir b a by (simp_all add: pump_dir_simps)
  from this(2,3,4,1) show ?thesis
  proof (cases rule: writecb_cases [where now = now])
    case eof
    let ?c0 = "redsocks_touch_client now ?c"
    obtain ys r2 where s2: "redsocks_shutdown ?c0 s SHUT_WR = (ys, r2)" by fastforce
    have r2: "snd r = r2" using r eof(3) s2 by simp
    have b0: "rc_buffev ?c0 s = Some ?b" by simp
    from shutdown_freed_or_live [OF b0 s2] show ?thesis
    proof (elim disjE exE conjE)
      fix c2 assume c2: "r2 = Live c2" "\<not> shut_both c2" "rc_state c2 = rc_state ?c0"
        "rc_buffev c2 = (rc_buffev ?c0)(s := Some (bufferevent_disable ?b (evhow SHUT_WR)))"
        "rc_evshut c2 = (rc_evshut ?c0)(s := rc_evshut ?c0 s \<union> evhow SHUT_WR)"
      have "pump_dir c2 s" "pump_dir c2 (other s)"
        using dir b a eof(1,2) by (simp add: c2(4,5) pump_dir_simps; blast?)+
      with pump_invI [OF _ c2(2) this] c2 r2 pump_invD(1) [OF inv] show ?thesis by simp
    qed (simp add: r2)
  next
    case (moved c')
    have "pump_dir c' s" "pump_dir c' (other s)"
      using dir b a moved(2) by (simp add: moved(3,5) pump_dir_simps; blast?)+
    from pump_inv_keep [OF inv _ _ this] moved(1,4,5) r show ?thesis by simp
  qed
qed

lemma eof_inv:
  assumes "pump_inv c" "rc_buffev c s = Some b" "EV_READ \<in> be_enabled b"
    "r = redsocks_event_error now (set_buffev s (bufferevent_disable b {EV_READ}) c) s True"
  shows "snd r = Freed \<or> (\<exists>c'. snd r = Live c' \<and> pump_inv c')"
proof -
  obtain a where a: "rc_buffev c (other s) = Some a"
    using assms(1) by (rule pump_inv_bufs)
  let ?b1 = "bufferevent_disable b {EV_READ}"
  let ?c0 = "redsocks_touch_client now (set_buffev s ?b1 c)"
  have ro: "EV_READ \<notin> rc_evshut c s" and wo: "EV_WRITE \<notin> rc_evshut c (other s)"
    using assms(1-3) by (auto simp: pump_inv_iff [OF assms(2) a] pump_dir_def buf_of_def)
  obtain xs c1 where c1: "redsocks_shutdown ?c0 s SHUT_RD = (xs, Live c1)"
    "rc_buffev c1 = (rc_buffev ?c0)(s := Some (bufferevent_disable ?b1 (evhow SHUT_RD)))"
    "rc_evshut c1 = (rc_evshut ?c0)(s := rc_evshut ?c0 s \<union> evhow SHUT_RD)" "rc_state c1 = rc_state ?c0"
    using wo by (rule_tac shutdown_live [of ?c0 s ?b1 "other s" SHUT_RD]) simp_all
  show ?thesis
  proof (cases "be_output a = []")
    case True
    obtain ys r2 where s2: "redsocks_shutdown c1 (other s) SHUT_WR = (ys, r2)" by fastforce
    have r: "snd r = r2"
      using assms(1,4) True a c1 s2 by (simp add: redsocks_event_error_def Let_def pump_inv_def)
    have "rc_buffev c1 (other s) = Some a" using a c1 by simp
    from shutdown_freed_or_live [OF this s2] show ?thesis
    proof (elim disjE exE conjE)
      fix c2 assume c2: "r2 = Live c2" "\<not> shut_both c2" "rc_state c2 = rc_state c1"
        "rc_buffev c2 = (rc_buffev c1)(other s := Some (bufferevent_disable a (evhow SHUT_WR)))"
        "rc_evshut c2 = (rc_evshut c1)(other s := rc_evshut c1 (other s) \<union> evhow SHUT_WR)"
      have inv: "rc_state c = pump_active" "pump_dir c s" "pump_dir c (other s)"
        using assms(1) by (simp_all add: pump_inv_def)
      have "pump_dir c2 s"
        using inv(2,3) ro wo assms(2) a by (simp add: c2(4,5) c1(2,3) pump_dir_simps; blast?)
      moreover have "pump_dir c2 (other s)"
        using inv(2,3) ro wo assms(2) a True by (simp add: c2(4,5) c1(2,3) pump_dir_simps; blast?)
      ultimately show ?thesis
        using inv(1) c1(4) c2(1-3) r by (simp add: pump_inv_def all_sides [of _ s])
    qed (simp add: r)
  next
    case False
    have r: "snd r = Live c1"
      using assms(1,4) False a c1 by (simp add: redsocks_event_error_def Let_def pump_inv_def)
    show ?thesis
      using assms(1-3) False a c1(2-) ro wo unfolding r pump_inv_iff [OF assms(2) a]
      by (auto simp: pump_inv_def all_sides [of _ s] pump_dir_simps shut_both_eq)
  qed
qed

section \<open>The steps of the pump\<close>

lemma pw_return_nil: "pw_return ([], o') w = w\<lparr>pw_object := o'\<rparr>"
  by (simp add: pw_return_def)

lemma no_fin_drop: "x \<in> set (fst (redsocks_drop_client c)) \<Longrightarrow> \<not> is_fin s x"
  by (auto simp: redsocks_drop_client_def redsocks_bufferevent_free_def drop_pump_def close_opt_def split: option.splits)

lemma drop_freed [simp]: "snd (redsocks_drop_client c) = Freed"
  by (simp add: redsocks_drop_client_def)

lemma shutdown_fin:
  assumes "rc_buffev c s = Some b"
  shows "(\<exists>x\<in>set (fst (redsocks_shutdown c s how)). is_fin t x) \<longleftrightarrow> t = s \<and> how \<noteq> SHUT_RD"
  using assms
  by (cases how) (auto simp: redsocks_shutdown_def Let_def dest: no_fin_drop)

text \<open>A client that is left after the writing side of \<open>s\<close> was shut down.\<close>

definition wr_shut :: "redsocks_client \<Rightarrow> side \<Rightarrow> bufferevent \<Rightarrow> rs_object \<Rightarrow> bool" where
  "wr_shut c s b r \<longleftrightarrow> r = Freed \<or>
     (\<exists>c'. r = Live c' \<and> rc_buffev c' = (rc_buffev c)(s := Some (bufferevent_disable b {EV_WRITE})) \<and>
        rc_evshut c' = (rc_evshut c)(s := insert EV_WRITE (rc_evshut c s)))"

lemma shutdown_wr:
  assumes "rc_buffev c s = Some b" "rc_buffev c = rc_buffev c0" "rc_evshut c = rc_evshut c0"
  obtains xs r where "redsocks_shutdown c s SHUT_WR = (xs, r)" "wr_shut c0 s b r" "\<And>t. (\<exists>x\<in>set xs. is_fin t x) \<longleftrightarrow> t = s"
proof -
  obtain xs r where r: "redsocks_shutdown c s SHUT_WR = (xs, r)" by fastforce
  from shutdown_freed_or_live [OF assms(1) r] have "wr_shut c0 s b r"
    using assms(2,3) by (auto simp: wr_shut_def)
  with r shutdown_fin [OF assms(1), of SHUT_WR] that show thesis by simp
qed

text \<open>Every step of the world, with what it does to the buffers.\<close>

inductive pump_effect :: "redsocks_client \<Rightarrow> pump_world \<Rightarrow> pump_world \<Rightarrow> bool" where
  eff_moved: "rc_buffev c s = Some b \<Longrightarrow> rc_buffev c (other s) = Some a \<Longrightarrow> EV_READ \<in> be_enabled b \<Longrightarrow>
    length (be_input b) + length bs \<le> REDSOCKS_RELAY_HALFBUFF \<Longrightarrow> length (be_output a) < REDSOCKS_RELAY_HALFBUFF \<Longrightarrow>
    rc_buffev c' = (rc_buffev c)(other s := Some (bufferevent_write a (be_input b @ bs)), s := Some (b\<lparr>be_input := []\<rparr>)) \<Longrightarrow>
    rc_evshut c' = rc_evshut c \<Longrightarrow>
    pump_effect c w (w\<lparr>pw_received := (pw_received w)(s := pw_received w s @ bs), pw_object := Live c'\<rparr>)"
| eff_full: "rc_buffev c s = Some b \<Longrightarrow> EV_READ \<in> be_enabled b \<Longrightarrow>
    length (be_input b) + length bs \<le> REDSOCKS_RELAY_HALFBUFF \<Longrightarrow>
    rc_buffev c' = (rc_buffev c)(s := Some (bufferevent_disable (b\<lparr>be_input := be_input b @ bs\<rparr>) {EV_READ})) \<Longrightarrow>
    rc_evshut c' = rc_evshut c \<Longrightarrow>
    pump_effect c w (w\<lparr>pw_received := (pw_received w)(s := pw_received w s @ bs), pw_object := Live c'\<rparr>)"
| eff_eof_wait: "rc_buffev c s = Some b \<Longrightarrow> EV_READ \<in> be_enabled b \<Longrightarrow>
    rc_buffev c' = (rc_buffev c)(s := Some (bufferevent_disable b {EV_READ})) \<Longrightarrow>
    rc_evshut c' = (rc_evshut c)(s := insert EV_READ (rc_evshut c s)) \<Longrightarrow>
    pump_effect c w (w\<lparr>pw_object := Live c'\<rparr>)"
| eff_eof_pass: "rc_buffev c s = Some b \<Longrightarrow> rc_buffev c (other s) = Some a \<Longrightarrow> EV_READ \<in> be_enabled b \<Longrightarrow> be_output a = [] \<Longrightarrow>
    rc_buffev c1 = (rc_buffev c)(s := Some (bufferevent_disable b {EV_READ})) \<Longrightarrow>
    rc_evshut c1 = (rc_evshut c)(s := insert EV_READ (rc_evshut c s)) \<Longrightarrow> wr_shut c1 (other s) a r \<Longrightarrow>
    pump_effect c w (w\<lparr>pw_object := r, pw_fin := (\<lambda>t. pw_fin w t \<or> t = other s)\<rparr>)"
| eff_sent: "rc_buffev c s = Some b \<Longrightarrow> n < length (be_output b) \<Longrightarrow>
    rc_buffev c' = (rc_buffev c)(s := Some (b\<lparr>be_output := drop n (be_output b)\<rparr>)) \<Longrightarrow> rc_evshut c' = rc_evshut c \<Longrightarrow>
    pump_effect c w (w\<lparr>pw_sent := (pw_sent w)(s := pw_sent w s @ take n (be_output b)), pw_object := Live c'\<rparr>)"
| eff_drained_eof: "rc_buffev c s = Some b \<Longrightarrow> rc_buffev c (other s) = Some a \<Longrightarrow> be_input a = [] \<Longrightarrow>
    EV_READ \<in> rc_evshut c (other s) \<Longrightarrow> wr_shut c s (b\<lparr>be_output := [], be_write_pending := False\<rparr>) r \<Longrightarrow>
    pump_effect c w (w\<lparr>pw_sent := (pw_sent w)(s := pw_sent w s @ be_output b), pw_object := r,
      pw_fin := (\<lambda>t. pw_fin w t \<or> t = s)\<rparr>)"
| eff_drained_move: "rc_buffev c s = Some b \<Longrightarrow> rc_buffev c (other s) = Some a \<Longrightarrow>
    rc_buffev c' = (rc_buffev c)(s := Some (bufferevent_write (b\<lparr>be_output := [], be_write_pending := False\<rparr>) (be_input a)),
      other s := Some (a\<lparr>be_input := [],
        be_enabled := be_enabled a \<union> (if EV_READ \<in> rc_evshut c (other s) then {} else {EV_READ})\<rparr>)) \<Longrightarrow>
    rc_evshut c' = rc_evshut c \<Longrightarrow>
    pump_effect c w (w\<lparr>pw_sent := (pw_sent w)(s := pw_sent w s @ be_output b), pw_object := Live c'\<rparr>)"
| eff_failed: "pump_effect c w (w\<lparr>pw_object := Freed\<rparr>)"

definition obj_inv :: "rs_object \<Rightarrow> bool" where
  "obj_inv r \<longleftrightarrow> (case r of Live c \<Rightarrow> pump_inv c | Freed \<Rightarrow> True | Bad \<Rightarrow> False)"

lemma obj_inv_simps [simp]: "obj_inv (Live c) = pump_inv c" "obj_inv Freed" "\<not> obj_inv Bad"
  by (simp_all add: obj_inv_def)

lemma obj_inv_cases: "snd r = Freed \<or> (\<exists>c'. snd r = Live c' \<and> pump_inv c') \<Longrightarrow> obj_inv (snd r)"
  by auto

lemma pump_wm:
  assumes "pump_inv c" "rc_buffev c s = Some b"
  shows "be_wm_read b = (0, REDSOCKS_RELAY_HALFBUFF)" "be_wm_write_high b = REDSOCKS_RELAY_HALFBUFF"
  using pump_invD(3) [OF assms(1), of s] assms(2) by (simp_all add: pump_dir_def buf_of_def)

lemma effect_data:
  assumes inv: "pump_inv c" and ob: "pw_object w = Live c" and ex: "pump_exec now (Data s bs) w = Some w'"
  shows "pump_effect c w w' \<and> obj_inv (pw_object w')"
proof -
  obtain b a where b: "rc_buffev c s = Some b" and a: "rc_buffev c (other s) = Some a"
    using inv by (rule pump_inv_bufs)
  note wm = pump_wm [OF inv b] pump_wm [OF inv a]
  let ?b = "b\<lparr>be_input := be_input b @ bs\<rparr>" and ?w = "w\<lparr>pw_received := (pw_received w)(s := pw_received w s @ bs)\<rparr>"
  let ?c = "set_buffev s ?b c"
  have en: "EV_READ \<in> be_enabled b" and len: "length (be_input b) + length bs \<le> REDSOCKS_RELAY_HALFBUFF"
    and w': "w' = pw_return (pump_readcb now ?c s) ?w"
    using ex b wm by (auto simp: pump_exec_def ob split: if_splits)
  have ab: "rc_buffev ?c s = Some ?b" "rc_buffev ?c (other s) = Some a" "EV_READ \<in> be_enabled ?b"
    using a en by simp_all
  from readcb_inv [OF inv b en, of now "be_input b @ bs"]
  have "obj_inv (pw_object w')" by (auto simp: w' pw_return_def)
  moreover from ab have "pump_effect c w w'"
  proof (cases rule: readcb_cases [where now = now])
    case (moved c')
    have "pump_effect c w (?w\<lparr>pw_object := Live c'\<rparr>)"
      by (rule eff_moved [OF b a en len]) (use moved wm in simp_all)
    then show ?thesis by (simp add: w' moved(1) pw_return_nil)
  next
    case (full c')
    have "pump_effect c w (?w\<lparr>pw_object := Live c'\<rparr>)"
      by (rule eff_full [OF b en len]) (use full in simp_all)
    then show ?thesis by (simp add: w' full(1) pw_return_nil)
  qed
  ultimately show ?thesis by blast
qed

lemma effect_written:
  assumes inv: "pump_inv c" and ob: "pw_object w = Live c" and ex: "pump_exec now (Written s n) w = Some w'"
  shows "pump_effect c w w' \<and> obj_inv (pw_object w')"
proof -
  obtain b a where b: "rc_buffev c s = Some b" and a: "rc_buffev c (other s) = Some a"
    using inv by (rule pump_inv_bufs)
  have pend: "be_write_pending b" and n: "n \<le> length (be_output b)"
    using ex b by (auto simp: pump_exec_def ob split: if_splits)
  show ?thesis
  proof (cases "n = length (be_output b)")
    case False
    let ?b = "b\<lparr>be_output := drop n (be_output b)\<rparr>"
    have w': "w' = w\<lparr>pw_sent := (pw_sent w)(s := pw_sent w s @ take n (be_output b)), pw_object := Live (set_buffev s ?b c)\<rparr>"
      using ex b n False by (auto simp: pump_exec_def ob Let_def split: if_splits)
    have "pump_dir (set_buffev s ?b c) s" "pump_dir (set_buffev s ?b c) (other s)"
      using pump_invD(3) [OF inv, of s] pump_invD(3) [OF inv, of "other s"] b a pend False n
      by (simp add: pump_dir_simps; blast?)+
    from pump_inv_keep [OF inv _ _ this] show ?thesis
      unfolding w' using False n by (auto intro: eff_sent [OF b])
  next
    case True
    let ?b = "b\<lparr>be_output := [], be_write_pending := False\<rparr>"
    let ?w = "w\<lparr>pw_sent := (pw_sent w)(s := pw_sent w s @ be_output b)\<rparr>" and ?c = "set_buffev s ?b c"
    have w': "w' = pw_return (pump_writecb now ?c s) ?w"
      using ex b True by (auto simp: pump_exec_def ob Let_def split: if_splits)
    have o': "obj_inv (pw_object w')"
      using writecb_inv [OF inv b pend refl, of now] by (auto simp: w' pw_return_def)
    have ab: "rc_buffev ?c s = Some ?b" "rc_buffev ?c (other s) = Some a" "be_output ?b = []" "0 < be_wm_write_high ?b"
      using a pump_wm [OF inv b] by simp_all
    then have "pump_effect c w w'"
    proof (cases rule: writecb_cases [where now = now])
      case eof
      obtain xs r where sh: "redsocks_shutdown (redsocks_touch_client now ?c) s SHUT_WR = (xs, r)" "wr_shut ?c s ?b r"
        "\<And>t. (\<exists>x\<in>set xs. is_fin t x) \<longleftrightarrow> t = s"
        by (rule shutdown_wr [of "redsocks_touch_client now ?c" s ?b ?c]) simp_all
      have "wr_shut c s ?b r" using sh(2) by (simp add: wr_shut_def)
      from eff_drained_eof [OF b a _ _ this, of w] eof show ?thesis
        by (simp add: w' sh pw_return_def)
    next
      case (moved c')
      have "pump_effect c w (?w\<lparr>pw_object := Live c'\<rparr>)"
        by (rule eff_drained_move [OF b a]) (use moved in simp_all)
      then show ?thesis by (simp add: w' moved(1) pw_return_nil)
    qed
    with o' show ?thesis by blast
  qed
qed

lemma effect_eof:
  assumes inv: "pump_inv c" and ob: "pw_object w = Live c" and ex: "pump_exec now (Eof s) w = Some w'"
  shows "pump_effect c w w' \<and> obj_inv (pw_object w')"
proof -
  obtain b a where b: "rc_buffev c s = Some b" and a: "rc_buffev c (other s) = Some a"
    using inv by (rule pump_inv_bufs)
  let ?b1 = "bufferevent_disable b {EV_READ}"
  let ?c0 = "redsocks_touch_client now (set_buffev s ?b1 c)"
  have en: "EV_READ \<in> be_enabled b" and w': "w' = pw_return (redsocks_event_error now (set_buffev s ?b1 c) s True) w"
    using ex b by (auto simp: pump_exec_def ob split: if_splits)
  have wo: "EV_WRITE \<notin> rc_evshut c (other s)"
    using pump_invD(3) [OF inv, of s] b en by (auto simp: pump_dir_def buf_of_def)
  have o': "obj_inv (pw_object w')"
    using eof_inv [OF inv b en refl, of now] by (auto simp: w' pw_return_def)
  have b1: "bufferevent_disable ?b1 {EV_READ} = ?b1"
    by (simp add: bufferevent_disable_def)
  obtain xs c1 where c1: "redsocks_shutdown ?c0 s SHUT_RD = (xs, Live c1)"
    "rc_buffev c1 = (rc_buffev ?c0)(s := Some (bufferevent_disable ?b1 (evhow SHUT_RD)))"
    "rc_evshut c1 = (rc_evshut ?c0)(s := rc_evshut ?c0 s \<union> evhow SHUT_RD)" "rc_state c1 = rc_state ?c0"
    "xs = (if SHUT_RD = SHUT_RD \<and> EV_WRITE \<in> rc_evshut ?c0 s then [] else [Shutdown s SHUT_RD])"
    by (rule shutdown_live [of ?c0 s ?b1 "other s" SHUT_RD]) (simp_all add: wo)
  have c1': "rc_buffev c1 = (rc_buffev c)(s := Some ?b1)" "rc_evshut c1 = (rc_evshut c)(s := insert EV_READ (rc_evshut c s))"
    "rc_state c1 = pump_active" "\<And>t. \<not> (\<exists>x\<in>set xs. is_fin t x)"
    using c1(2-) b1 pump_invD(1) [OF inv] by simp_all
  have "pump_effect c w w'"
  proof (cases "be_output a = []")
    case True
    obtain ys r where sh: "redsocks_shutdown c1 (other s) SHUT_WR = (ys, r)" "wr_shut c1 (other s) a r"
        "\<And>t. (\<exists>x\<in>set ys. is_fin t x) \<longleftrightarrow> t = other s"
      by (rule shutdown_wr [of c1 "other s" a c1]) (use a c1' in simp_all)
    from eff_eof_pass [OF b a en True c1'(1,2) sh(2), of w] c1' c1(1) sh True a show ?thesis
      by (simp add: w' redsocks_event_error_def Let_def pw_return_def bex_Un)
  next
    case False
    with eff_eof_wait [OF b en c1'(1,2), of w] c1' c1(1) a show ?thesis
      by (simp add: w' redsocks_event_error_def Let_def pw_return_def)
  qed
  with o' show ?thesis by blast
qed

lemma pump_exec_effect:
  assumes "obj_inv (pw_object w)" "pump_exec now i w = Some w'"
  shows "\<exists>c. pw_object w = Live c \<and> pump_inv c \<and> pump_effect c w w' \<and> obj_inv (pw_object w')"
proof -
  from assms obtain c where c: "pw_object w = Live c" "pump_inv c"
    by (cases "pw_object w") (auto simp: pump_exec_def)
  have "pump_effect c w w' \<and> obj_inv (pw_object w')"
  proof (cases i)
    case (Failed s)
    then have "w' = w\<lparr>pw_object := Freed\<rparr>"
      using assms(2) c(1) by (auto simp: pump_exec_def redsocks_event_error_def Let_def pw_return_def no_fin_drop)
    then show ?thesis by (simp add: eff_failed)
  qed (use assms(2) c effect_data effect_written effect_eof in blast)+
  with c show ?thesis by blast
qed

lemma bpump_reach_inv: "bpump_reach c w \<Longrightarrow> pump_ready c \<Longrightarrow> obj_inv (pw_object w)"
proof (induction rule: bpump_reach.induct)
  case reach_start
  then show ?case using pump_start_inv by fastforce
next
  case (reach_step w now i w')
  then show ?case using pump_exec_effect by blast
qed

section \<open>No loss\<close>

text \<open>What the side \<open>t\<close> is to be sent: the output left from the negotiation, what the other side had sent before the pump started, and
  what it has sent since.\<close>

definition pump_handed :: "redsocks_client \<Rightarrow> pump_world \<Rightarrow> side \<Rightarrow> byte list" where
  "pump_handed c0 w t = be_output (buf_of c0 t) @ be_input (buf_of c0 (other t)) @ pw_received w (other t)"

definition pump_flow :: "redsocks_client \<Rightarrow> pump_world \<Rightarrow> bool" where
  "pump_flow c0 w \<longleftrightarrow> (case pw_object w of
     Live c \<Rightarrow> (\<forall>t. pump_handed c0 w t = pw_sent w t @ be_output (buf_of c t) @ be_input (buf_of c (other t)) \<and>
                 (pw_fin w t \<longleftrightarrow> EV_WRITE \<in> rc_evshut c t))
   | Freed \<Rightarrow> (\<forall>t. \<exists>rest. pump_handed c0 w t = pw_sent w t @ rest)
   | Bad \<Rightarrow> False)"

lemma pump_flow_live:
  "pw_object w = Live c \<Longrightarrow> pump_flow c0 w \<longleftrightarrow>
     (\<forall>t. pump_handed c0 w t = pw_sent w t @ be_output (buf_of c t) @ be_input (buf_of c (other t)) \<and>
          (pw_fin w t \<longleftrightarrow> EV_WRITE \<in> rc_evshut c t))"
  by (simp add: pump_flow_def)

lemma pump_flow_freed:
  "pw_object w = Freed \<Longrightarrow> pump_flow c0 w \<longleftrightarrow> (\<forall>t. \<exists>rest. pump_handed c0 w t = pw_sent w t @ rest)"
  by (simp add: pump_flow_def)

lemma pump_effect_flow:
  assumes "pump_effect c w w'" "pw_object w = Live c" "pump_flow c0 w"
  shows "pump_flow c0 w'"
  using assms(1)
proof cases
  case (eff_moved s b a bs c')
  then show ?thesis
    using assms(2,3)
    by (simp add: pump_flow_live pump_handed_def buf_of_def all_sides [of _ s] bufferevent_defs)
next
  case (eff_full s b bs c')
  then show ?thesis
    using assms(2,3)
    by (simp add: pump_flow_live pump_handed_def buf_of_def all_sides [of _ s] bufferevent_defs)
next
  case (eff_eof_wait s b c')
  then show ?thesis
    using assms(2,3)
    by (simp add: pump_flow_live pump_handed_def buf_of_def all_sides [of _ s] bufferevent_defs)
next
  case (eff_eof_pass s b a c1 r)
  then show ?thesis
    using assms(2,3)
    by (auto simp: wr_shut_def pump_flow_live pump_flow_freed pump_handed_def buf_of_def all_sides [of _ s] bufferevent_defs)
next
  case (eff_sent s b n c')
  then show ?thesis
    using assms(2,3)
    by (simp add: pump_flow_live pump_handed_def buf_of_def all_sides [of _ s] bufferevent_defs)
next
  case (eff_drained_eof s b a r)
  then show ?thesis
    using assms(2,3)
    by (auto simp: wr_shut_def pump_flow_live pump_flow_freed pump_handed_def buf_of_def all_sides [of _ s] bufferevent_defs)
next
  case (eff_drained_move s b a c')
  then show ?thesis
    using assms(2,3)
    by (simp add: pump_flow_live pump_handed_def buf_of_def all_sides [of _ s] bufferevent_defs)
next
  case eff_failed
  then show ?thesis
    using assms(2,3) by (simp add: pump_flow_live pump_flow_freed pump_handed_def)
qed

text \<open>When nothing was buffered on a side that can still be read, reading is enabled only while the input is empty, and a direction is shut
  down only when its buffers are empty.\<close>

definition pump_settled :: "redsocks_client \<Rightarrow> bool" where
  "pump_settled c \<longleftrightarrow> (\<forall>s. (EV_READ \<in> be_enabled (buf_of c s) \<longrightarrow> be_input (buf_of c s) = []) \<and>
     (EV_WRITE \<in> rc_evshut c s \<longrightarrow> be_output (buf_of c s) = [] \<and> be_input (buf_of c (other s)) = []))"

definition pump_quiet :: "redsocks_client \<Rightarrow> bool" where
  "pump_quiet c \<longleftrightarrow> (\<forall>s. (EV_READ \<notin> rc_evshut c s \<longrightarrow> be_input (buf_of c s) = []) \<and>
     (EV_WRITE \<in> rc_evshut c s \<longrightarrow> be_output (buf_of c s) = [] \<and> be_input (buf_of c (other s)) = []))"

definition pump_complete :: "redsocks_client \<Rightarrow> pump_world \<Rightarrow> bool" where
  "pump_complete c0 w \<longleftrightarrow> (case pw_object w of
     Live c \<Rightarrow> pump_settled c
   | Freed \<Rightarrow> (\<forall>t. pw_fin w t \<longrightarrow> pw_sent w t = pump_handed c0 w t)
   | Bad \<Rightarrow> False)"

lemma pump_complete_simps:
  "pw_object w = Live c \<Longrightarrow> pump_complete c0 w = pump_settled c"
  "pw_object w = Freed \<Longrightarrow> pump_complete c0 w = (\<forall>t. pw_fin w t \<longrightarrow> pw_sent w t = pump_handed c0 w t)"
  by (simp_all add: pump_complete_def)

lemma settled_fin_complete:
  "pump_flow c0 w \<Longrightarrow> pw_object w = Live c \<Longrightarrow> pump_settled c \<Longrightarrow> pw_fin w t \<Longrightarrow> pw_sent w t = pump_handed c0 w t"
  by (simp add: pump_flow_live pump_settled_def)

lemma settled_wr_shut:
  assumes "wr_shut c s b r" "rc_buffev c s = Some b'" "rc_buffev c (other s) = Some a" "be_output b = []"
    "be_input b = be_input b'" "be_enabled b \<subseteq> be_enabled b'" "be_input a = []"
    "EV_READ \<in> be_enabled b' \<longrightarrow> be_input b' = []" "EV_WRITE \<in> rc_evshut c (other s) \<longrightarrow> be_output a = [] \<and> be_input b' = []"
  shows "r = Freed \<or> (\<exists>c'. r = Live c' \<and> pump_settled c')"
  using assms
  by (auto simp: wr_shut_def pump_settled_def all_sides [of _ s] buf_of_def bufferevent_defs)

lemma pump_effect_complete:
  assumes eff: "pump_effect c w w'" and ob: "pw_object w = Live c" and inv: "pump_inv c"
    and flow: "pump_flow c0 w" and cm: "pump_complete c0 w"
  shows "pump_complete c0 w'"
proof -
  have st: "pump_settled c" using cm ob by (simp add: pump_complete_simps)
  have dir: "EV_WRITE \<in> rc_evshut c (other s) \<longrightarrow> EV_READ \<in> rc_evshut c s"
    "EV_READ \<in> be_enabled (buf_of c s) \<longrightarrow> EV_READ \<notin> rc_evshut c s" for s
    using pump_invD(3) [OF inv, of s] by (simp_all add: pump_dir_def)
  from eff show ?thesis
  proof cases
    case (eff_moved s b a bs c')
    then show ?thesis
      using st dir [of s] dir [of "other s"]
      by (simp add: pump_complete_simps pump_settled_def all_sides [of _ s] buf_of_def bufferevent_defs; blast?)
  next
    case (eff_full s b bs c')
    then show ?thesis
      using st dir [of s] dir [of "other s"]
      by (simp add: pump_complete_simps pump_settled_def all_sides [of _ s] buf_of_def bufferevent_defs; blast?)
  next
    case (eff_eof_wait s b c')
    then show ?thesis
      using st by (simp add: pump_complete_simps pump_settled_def all_sides [of _ s] buf_of_def bufferevent_defs)
  next
    case (eff_eof_pass s b a c1 r)
    have i: "be_input b = []" "EV_WRITE \<in> rc_evshut c s \<longrightarrow> be_output b = [] \<and> be_input a = []"
      "EV_READ \<in> be_enabled a \<longrightarrow> be_input a = []"
      using st eff_eof_pass(2-4) by (simp_all add: pump_settled_def all_sides [of _ s] buf_of_def)
    have "r = Freed \<or> (\<exists>c'. r = Live c' \<and> pump_settled c')"
      using eff_eof_pass(3-7) i
      by (intro settled_wr_shut [OF eff_eof_pass(8), of a "bufferevent_disable b {EV_READ}"])
        (simp_all add: bufferevent_disable_def)
    moreover have "pw_sent w t = pump_handed c0 w t" if "pw_fin w t \<or> t = other s" for t
      using that settled_fin_complete [OF flow ob st] flow i(1) eff_eof_pass(2,3,5) ob
      by (auto simp: pump_flow_live all_sides [of _ s] buf_of_def)
    ultimately show ?thesis
      using eff_eof_pass(1) by (auto simp: pump_complete_simps pump_handed_def)
  next
    case (eff_sent s b n c')
    then show ?thesis
      using st by (auto simp: pump_complete_simps pump_settled_def all_sides [of _ s] buf_of_def)
  next
    case (eff_drained_eof s b a r)
    have i: "EV_READ \<in> be_enabled b \<longrightarrow> be_input b = []" "EV_WRITE \<in> rc_evshut c (other s) \<longrightarrow> be_output a = [] \<and> be_input b = []"
      using st eff_drained_eof(2,3) by (simp_all add: pump_settled_def all_sides [of _ s] buf_of_def)
    have "r = Freed \<or> (\<exists>c'. r = Live c' \<and> pump_settled c')"
      using eff_drained_eof(2-5) i by (intro settled_wr_shut [OF eff_drained_eof(6), of b a]) simp_all
    moreover have "pw_sent w' t = pump_handed c0 w' t" if "pw_fin w t \<or> t = s" for t
      using that side_cases [of t s] settled_fin_complete [OF flow ob st] flow eff_drained_eof(1-4) ob
      by (auto simp: pump_flow_live all_sides [of _ s] buf_of_def pump_handed_def)
    ultimately show ?thesis
      using eff_drained_eof(1) by (auto simp: pump_complete_simps)
  next
    case (eff_drained_move s b a c')
    then show ?thesis
      using st dir [of s] dir [of "other s"]
      by (simp add: pump_complete_simps pump_settled_def all_sides [of _ s] buf_of_def bufferevent_defs; blast?)
  next
    case eff_failed
    then show ?thesis
      using settled_fin_complete [OF flow ob st] by (simp add: pump_complete_simps pump_handed_def)
  qed
qed

section \<open>Memory\<close>

definition pump_small :: "nat \<Rightarrow> rs_object \<Rightarrow> bool" where
  "pump_small k r \<longleftrightarrow> (case r of
     Live c \<Rightarrow> (\<forall>s. length (be_input (buf_of c s)) \<le> k \<and> length (be_output (buf_of c s)) < REDSOCKS_RELAY_HALFBUFF + k)
   | _ \<Rightarrow> True)"

lemma pump_small_simps [simp]:
  "pump_small k (Live c) \<longleftrightarrow>
     (\<forall>s. length (be_input (buf_of c s)) \<le> k \<and> length (be_output (buf_of c s)) < REDSOCKS_RELAY_HALFBUFF + k)"
  "pump_small k Freed" "pump_small k Bad"
  by (simp_all add: pump_small_def)

lemma wr_shut_small:
  "wr_shut c s b r \<Longrightarrow> pump_small k (Live c) \<Longrightarrow> length (be_input b) \<le> k \<Longrightarrow> length (be_output b) < REDSOCKS_RELAY_HALFBUFF + k \<Longrightarrow>
   pump_small k r"
  by (auto simp: wr_shut_def buf_of_def bufferevent_disable_def)

lemma pump_effect_small:
  assumes "pump_effect c w w'" "pump_small k (Live c)" "REDSOCKS_RELAY_HALFBUFF \<le> k"
  shows "pump_small k (pw_object w')"
  using assms(1)
proof cases
  case (eff_eof_pass s b a c1 r)
  have "pump_small k r"
    using eff_eof_pass assms(2)
    by (intro wr_shut_small [OF eff_eof_pass(8)]) (auto simp: all_sides [of _ s] buf_of_def bufferevent_defs)
  then show ?thesis by (simp add: eff_eof_pass(1))
next
  case (eff_drained_eof s b a r)
  have "pump_small k r"
    using eff_drained_eof assms(2)
    by (intro wr_shut_small [OF eff_drained_eof(6)]) (auto simp: all_sides [of _ s] buf_of_def)
  then show ?thesis by (simp add: eff_drained_eof(1))
next
  case (eff_moved s b a bs c')
  then show ?thesis using assms(2,3) by (auto simp: all_sides [of _ s] buf_of_def bufferevent_defs)
next
  case (eff_full s b bs c')
  then show ?thesis using assms(2,3) by (auto simp: all_sides [of _ s] buf_of_def bufferevent_defs)
next
  case (eff_eof_wait s b c')
  then show ?thesis using assms(2) by (auto simp: all_sides [of _ s] buf_of_def bufferevent_defs)
next
  case (eff_sent s b n c')
  then show ?thesis using assms(2) by (auto simp: all_sides [of _ s] buf_of_def)
next
  case (eff_drained_move s b a c')
  then show ?thesis using assms(2,3) by (auto simp: all_sides [of _ s] buf_of_def bufferevent_defs REDSOCKS_RELAY_HALFBUFF_def)
qed simp

section \<open>Draining\<close>

text \<open>Once a side has sent its end of stream, writing out what is buffered shuts down the other side.\<close>

lemma exec_written_all:
  assumes "pw_object w = Live c" "rc_buffev c s = Some b" "be_write_pending b"
  shows "pump_exec now (Written s (length (be_output b))) w =
    Some (pw_return (pump_writecb now (set_buffev s (b\<lparr>be_output := [], be_write_pending := False\<rparr>) c) s)
      (w\<lparr>pw_sent := (pw_sent w)(s := pw_sent w s @ be_output b)\<rparr>))"
  using assms by (simp add: pump_exec_def Let_def)

lemma drain_empty:
  assumes inv: "pump_inv c" and ob: "pw_object w = Live c" and rd: "EV_READ \<in> rc_evshut c (other s)"
    and wr: "EV_WRITE \<notin> rc_evshut c s" and em: "be_input (buf_of c (other s)) = []"
  shows "\<exists>n w'. pump_exec now (Written s n) w = Some w' \<and> obj_inv (pw_object w') \<and>
    (\<forall>c'. pw_object w' = Live c' \<longrightarrow> rc_evshut c' = (rc_evshut c)(s := insert EV_WRITE (rc_evshut c s)))"
proof -
  obtain b a where b: "rc_buffev c s = Some b" and a: "rc_buffev c (other s) = Some a"
    using inv by (rule pump_inv_bufs)
  have pend: "be_write_pending b"
    using pump_invD(3) [OF inv, of "other s"] rd wr b a by (auto simp: pump_dir_def buf_of_def)
  let ?b = "b\<lparr>be_output := [], be_write_pending := False\<rparr>"
  let ?w = "w\<lparr>pw_sent := (pw_sent w)(s := pw_sent w s @ be_output b)\<rparr>" and ?c = "set_buffev s ?b c"
  have cb: "pump_writecb now ?c s = redsocks_shutdown (redsocks_touch_client now ?c) s SHUT_WR"
    using a em rd by (simp add: pump_writecb_def redsocks_relay_writecb_def buf_of_def)
  obtain xs r where sh: "redsocks_shutdown (redsocks_touch_client now ?c) s SHUT_WR = (xs, r)" "wr_shut ?c s ?b r"
    by (rule shutdown_wr [of "redsocks_touch_client now ?c" s ?b ?c]) simp_all
  from exec_written_all [OF ob b pend, of now]
  have ex: "pump_exec now (Written s (length (be_output b))) w = Some (pw_return (xs, r) ?w)"
    by (simp only: cb sh(1))
  have "obj_inv (pw_object (pw_return (xs, r) ?w))"
    using effect_written [OF inv ob ex] by blast
  moreover have "\<forall>c'. r = Live c' \<longrightarrow> rc_evshut c' = (rc_evshut c)(s := insert EV_WRITE (rc_evshut c s))"
    using sh(2) by (auto simp: wr_shut_def)
  ultimately show ?thesis
    using ex by (intro exI [of _ "length (be_output b)"] exI [of _ "pw_return (xs, r) ?w"]) (simp add: pw_return_def)
qed

lemma drain_full:
  assumes inv: "pump_inv c" and ob: "pw_object w = Live c" and rd: "EV_READ \<in> rc_evshut c (other s)"
    and wr: "EV_WRITE \<notin> rc_evshut c s" and ne: "be_input (buf_of c (other s)) \<noteq> []"
  shows "\<exists>n w' c'. pump_exec now (Written s n) w = Some w' \<and> pw_object w' = Live c' \<and> pump_inv c' \<and>
    rc_evshut c' = rc_evshut c \<and> be_input (buf_of c' (other s)) = []"
proof -
  obtain b a where b: "rc_buffev c s = Some b" and a: "rc_buffev c (other s) = Some a"
    using inv by (rule pump_inv_bufs)
  have pend: "be_write_pending b"
    using pump_invD(3) [OF inv, of "other s"] rd wr b a by (auto simp: pump_dir_def buf_of_def)
  let ?b = "b\<lparr>be_output := [], be_write_pending := False\<rparr>"
  let ?w = "w\<lparr>pw_sent := (pw_sent w)(s := pw_sent w s @ be_output b)\<rparr>" and ?c = "set_buffev s ?b c"
  note ex = exec_written_all [OF ob b pend, of now]
  have "rc_buffev ?c s = Some ?b" "rc_buffev ?c (other s) = Some a" "be_output ?b = []" "0 < be_wm_write_high ?b"
    using a pump_wm [OF inv b] by simp_all
  then show ?thesis
  proof (cases rule: writecb_cases [where now = now])
    case eof
    with ne a show ?thesis by (simp add: buf_of_def)
  next
    case (moved c')
    have ex': "pump_exec now (Written s (length (be_output b))) w = Some (?w\<lparr>pw_object := Live c'\<rparr>)"
      using ex by (simp add: moved(1) pw_return_nil)
    have "pump_inv c'"
      using effect_written [OF inv ob ex'] by simp
    moreover have "be_input (buf_of c' (other s)) = []" "rc_evshut c' = rc_evshut c"
      using moved(3,5) by (simp_all add: buf_of_def)
    ultimately show ?thesis using ex' by (auto intro!: exI)
  qed
qed

lemma drain_side:
  assumes inv: "pump_inv c" and ob: "pw_object w = Live c" and rd: "EV_READ \<in> rc_evshut c (other s)"
    and wr: "EV_WRITE \<notin> rc_evshut c s"
  shows "\<exists>ns w'. pump_run now (map (Written s) ns) w = Some w' \<and> obj_inv (pw_object w') \<and>
    (\<forall>c'. pw_object w' = Live c' \<longrightarrow> rc_evshut c' = (rc_evshut c)(s := insert EV_WRITE (rc_evshut c s)))"
proof (cases "be_input (buf_of c (other s)) = []")
  case True
  from drain_empty [OF inv ob rd wr True, of now] obtain n w' where
    "pump_exec now (Written s n) w = Some w'" "obj_inv (pw_object w')"
    "\<forall>c'. pw_object w' = Live c' \<longrightarrow> rc_evshut c' = (rc_evshut c)(s := insert EV_WRITE (rc_evshut c s))" by blast
  then show ?thesis by (intro exI [of _ "[n]"] exI [of _ w']) simp
next
  case False
  from drain_full [OF inv ob rd wr False, of now] obtain n w1 c1 where
    1: "pump_exec now (Written s n) w = Some w1" "pw_object w1 = Live c1" "pump_inv c1"
    "rc_evshut c1 = rc_evshut c" "be_input (buf_of c1 (other s)) = []" by blast
  from drain_empty [OF 1(3,2) _ _ 1(5), of now] rd wr 1(4) obtain m w' where
    "pump_exec now (Written s m) w1 = Some w'" "obj_inv (pw_object w')"
    "\<forall>c'. pw_object w' = Live c' \<longrightarrow> rc_evshut c' = (rc_evshut c)(s := insert EV_WRITE (rc_evshut c s))" by auto
  with 1(1) show ?thesis by (intro exI [of _ "[n, m]"] exI [of _ w']) simp
qed

lemma pump_run_append:
  "pump_run now (xs @ ys) w = (case pump_run now xs w of None \<Rightarrow> None | Some w1 \<Rightarrow> pump_run now ys w1)"
  by (induction xs arbitrary: w) (auto split: option.splits)

definition is_written :: "pump_input \<Rightarrow> bool" where
  "is_written i \<longleftrightarrow> (case i of Written s n \<Rightarrow> True | _ \<Rightarrow> False)"

lemma drain_both:
  assumes inv: "pump_inv c" and ob: "pw_object w = Live c" and rd: "\<forall>s. EV_READ \<in> rc_evshut c s"
  shows "\<exists>is w'. pump_run now is w = Some w' \<and> pw_object w' = Freed \<and> (\<forall>i\<in>set is. is_written i)"
proof -
  from pump_invD(2) [OF inv] rd obtain s where wr: "EV_WRITE \<notin> rc_evshut c s"
    by (auto simp: shut_both_eq)
  from drain_side [OF inv ob _ wr, of now] rd obtain ns w1 where
    1: "pump_run now (map (Written s) ns) w = Some w1" "obj_inv (pw_object w1)"
    "\<forall>c'. pw_object w1 = Live c' \<longrightarrow> rc_evshut c' = (rc_evshut c)(s := insert EV_WRITE (rc_evshut c s))" by blast
  show ?thesis
  proof (cases "pw_object w1")
    case (Live c1)
    with 1(2,3) have inv1: "pump_inv c1" and ev1: "rc_evshut c1 = (rc_evshut c)(s := insert EV_WRITE (rc_evshut c s))"
      by simp_all
    have wr1: "EV_WRITE \<notin> rc_evshut c1 (other s)"
      using pump_invD(2) [OF inv1] rd ev1 by (auto simp: shut_both_eq all_sides [of _ s])
    from drain_side [OF inv1 Live _ wr1, of now] rd ev1 obtain ms w2 where
      2: "pump_run now (map (Written (other s)) ms) w1 = Some w2" "obj_inv (pw_object w2)"
      "\<forall>c'. pw_object w2 = Live c' \<longrightarrow> rc_evshut c' = (rc_evshut c1)(other s := insert EV_WRITE (rc_evshut c1 (other s)))"
      by auto
    have "pw_object w2 = Freed"
    proof (cases "pw_object w2")
      case (Live c2)
      with 2(2,3) rd ev1 pump_invD(2) [of c2] show ?thesis
        by (auto simp: shut_both_eq all_sides [of _ s])
    qed (use 2(2) in simp_all)
    with 1(1) 2(1) show ?thesis
      by (intro exI [of _ "map (Written s) ns @ map (Written (other s)) ms"] exI [of _ w2])
        (auto simp: pump_run_append is_written_def)
  qed (use 1 in \<open>auto simp: is_written_def intro!: exI\<close>)
qed

section \<open>Properties of the buffer pump\<close>

lemma bpump_reach_flow: "bpump_reach c w \<Longrightarrow> pump_ready c \<Longrightarrow> pump_flow c w"
proof (induction rule: bpump_reach.induct)
  case reach_start
  then obtain b r where "rc_buffev c ClientSide = Some b" "rc_buffev c RelaySide = Some r"
    by (auto simp: pump_ready_def all_sides [of _ ClientSide])
  then show ?case
    by (simp add: pump_flow_def pump_start_def redsocks_start_bufferpump_def pump_handed_def buf_of_def
        all_sides [of _ ClientSide] bufferpump_buffev_def bufferevent_enable_def)
next
  case (reach_step w now i w')
  with bpump_reach_inv pump_exec_effect pump_effect_flow show ?case by blast
qed

lemma bpump_reach_complete: "bpump_reach c w \<Longrightarrow> pump_ready c \<Longrightarrow> pump_quiet c \<Longrightarrow> pump_complete c w"
proof (induction rule: bpump_reach.induct)
  case reach_start
  then obtain b r where "rc_buffev c ClientSide = Some b" "rc_buffev c RelaySide = Some r"
    by (auto simp: pump_ready_def all_sides [of _ ClientSide])
  with reach_start show ?case
    by (auto simp: pump_complete_def pump_settled_def pump_quiet_def pump_ready_def pump_start_def
        redsocks_start_bufferpump_def buf_of_def all_sides [of _ ClientSide] bufferpump_buffev_def bufferevent_enable_def)
next
  case (reach_step w now i w')
  from reach_step.IH reach_step.prems have cm: "pump_complete c w" by blast
  from pump_exec_effect [OF bpump_reach_inv [OF reach_step(1,4)] reach_step(2)] obtain c1 where
    "pw_object w = Live c1" "pump_inv c1" "pump_effect c1 w w'" by blast
  with pump_effect_complete bpump_reach_flow [OF reach_step(1,4)] cm show ?case by blast
qed

section \<open>What a pump promises\<close>

text \<open>The contract of a pump towards the code that starts it: it never uses a freed client, and it sends to each side what the client
  had buffered for that side and then what the other side sends, in order.\<close>

locale relay_pump =
  fixes ready :: "redsocks_client \<Rightarrow> bool" and reach :: "redsocks_client \<Rightarrow> 'w \<Rightarrow> bool" and object :: "'w \<Rightarrow> rs_object"
    and received :: "'w \<Rightarrow> side \<Rightarrow> byte list" and sent :: "'w \<Rightarrow> side \<Rightarrow> byte list"
  assumes alive: "ready c \<Longrightarrow> reach c w \<Longrightarrow> object w \<noteq> Bad"
    and in_order: "ready c \<Longrightarrow> reach c w \<Longrightarrow>
      \<exists>rest. be_output (buf_of c t) @ be_input (buf_of c (other t)) @ received w (other t) = sent w t @ rest"

interpretation buffer_pump: relay_pump pump_ready bpump_reach pw_object pw_received pw_sent
proof
  fix c w t
  assume a: "pump_ready c" "bpump_reach c w"
  have f: "pump_flow c w" by (rule bpump_reach_flow [OF a(2,1)])
  show "pw_object w \<noteq> Bad" using f by (auto simp: pump_flow_def)
  show "\<exists>rest. be_output (buf_of c t) @ be_input (buf_of c (other t)) @ pw_received w (other t) = pw_sent w t @ rest"
    using f by (cases "pw_object w") (auto simp: pump_flow_def pump_handed_def)
qed

text \<open>A client as it is when the pump starts: the proxy has accepted the request, everything is open and
  the bytes \<open>pre\<close> of the device are already buffered.\<close>

definition pump_ex_buffev :: "side \<Rightarrow> byte list \<Rightarrow> bufferevent" where
  "pump_ex_buffev s i =
     \<lparr>be_fd = Some (Sock s), be_input = i, be_output = [], be_wm_read = (0, 0), be_wm_write_high = 0,
      be_enabled = {EV_READ}, be_write_pending = False\<rparr>"

definition pump_ex :: "byte list \<Rightarrow> redsocks_client" where
  "pump_ex pre =
     \<lparr>rc_buffev = (\<lambda>s. Some (pump_ex_buffev s (if s = ClientSide then pre else []))), rc_evshut = (\<lambda>_. {}),
      rc_state = 2, rc_last_event = 0, rc_pump = None\<rparr>"

lemma pump_ex_ready: "pump_ready (pump_ex pre)"
  by (simp add: pump_ready_def pump_ex_def pump_ex_buffev_def buf_of_def shut_both_def)

lemma pump_run_reach: "pump_run now is w = Some w' \<Longrightarrow> bpump_reach c w \<Longrightarrow> bpump_reach c w'"
  by (induction "is" arbitrary: w) (auto split: option.splits intro: reach_step)

lemmas pump_eval = pump_exec_def pump_start_def redsocks_start_bufferpump_def bufferpump_buffev_def pump_ex_def
  pump_ex_buffev_def bufferevent_defs pump_readcb_def redsocks_relay_readcb_def pump_writecb_def redsocks_relay_writecb_def
  redsocks_event_error_def redsocks_shutdown_def redsocks_drop_client_def redsocks_bufferevent_free_def close_opt_def
  shut_both_eq all_sides [of _ ClientSide] pw_return_def Let_def REDSOCKS_RELAY_HALFBUFF_def pump_active_def
  redsocks_touch_client_def set_buffev_def

lemma pump_ex_run:
  "\<exists>w. pump_run 5 [Data ClientSide [1, 2], Eof ClientSide, Written RelaySide 2, Data RelaySide [7], Eof RelaySide,
      Written ClientSide 1] (pump_start (pump_ex [])) = Some w \<and>
    pw_sent w RelaySide = [1, 2] \<and> pw_fin w RelaySide \<and> pw_sent w ClientSide = [7] \<and> pw_object w = Freed"
  by (simp add: pump_eval)

lemma pump_ex_loses:
  "\<exists>w. pump_run 5 [Eof ClientSide] (pump_start (pump_ex [1, 2])) = Some w \<and>
    pw_sent w RelaySide = [] \<and> pw_fin w RelaySide"
  by (simp add: pump_eval)

text \<open>Claim C24: from any client whose negotiation is over, the pump never uses a freed client or a null bufferevent, for every
  sequence of socket events. What was sent to a side is always a prefix of what it is to be sent, and while the client lives the
  rest is exactly what the two buffers of the direction hold.\<close>

theorem bufferpump_no_loss:
  assumes "pump_ready c0" "bpump_reach c0 w"
  shows "pw_object w \<noteq> Bad \<and> (\<forall>t. \<exists>rest. pump_handed c0 w t = pw_sent w t @ rest \<and>
    (\<forall>c. pw_object w = Live c \<longrightarrow> rest = be_output (buf_of c t) @ be_input (buf_of c (other t))))"
  using bpump_reach_flow [OF assms(2,1)] by (cases "pw_object w") (auto simp: pump_flow_def)

theorem bufferpump_no_loss_witness:
  "\<exists>w. bpump_reach (pump_ex []) w \<and> pw_sent w RelaySide = [1, 2] \<and> pw_object w \<noteq> Bad"
  using pump_ex_run pump_run_reach [OF _ reach_start] bufferpump_no_loss [OF pump_ex_ready] by metis

text \<open>Claim C25: if no input of a side that can still be read was buffered when the pump started, the writing direction of a socket is shut
  down only after everything it is to be sent has been written to it.\<close>

theorem bufferpump_fin_complete:
  assumes "pump_ready c0" "pump_quiet c0" "bpump_reach c0 w" "pw_fin w t"
  shows "pw_sent w t = pump_handed c0 w t"
  using bpump_reach_complete [OF assms(3,1,2)] bpump_reach_flow [OF assms(3,1)] assms(4)
  by (cases "pw_object w") (auto simp: pump_complete_def pump_flow_def pump_settled_def)

lemma pump_ex_quiet: "pump_quiet (pump_ex [])"
  by (simp add: pump_quiet_def pump_ex_def pump_ex_buffev_def buf_of_def)

theorem bufferpump_fin_complete_witness:
  "\<exists>w. bpump_reach (pump_ex []) w \<and> pw_fin w RelaySide \<and> pump_handed (pump_ex []) w RelaySide = [1, 2]"
  using pump_ex_run pump_run_reach [OF _ reach_start] bufferpump_fin_complete [OF pump_ex_ready pump_ex_quiet] by metis

text \<open>Without that condition it can lose data: bytes the device sent before the pump started are dropped when its end of stream
  is the next event, because \<^verbatim>\<open>redsocks_event_error\<close> looks only at the output of the other side.\<close>

lemma eof_loses_buffered_input:
  "\<exists>w. pump_ready (pump_ex [1, 2]) \<and> bpump_reach (pump_ex [1, 2]) w \<and> pw_fin w RelaySide \<and>
    pw_sent w RelaySide = [] \<and> pump_handed (pump_ex [1, 2]) w RelaySide = [1, 2]"
proof -
  from pump_ex_loses obtain w where w: "pump_run 5 [Eof ClientSide] (pump_start (pump_ex [1, 2])) = Some w"
    "pw_sent w RelaySide = []" "pw_fin w RelaySide" by blast
  have "pw_received w ClientSide = []"
    using w(1) by (auto simp: pump_eval)
  then have "pump_handed (pump_ex [1, 2]) w RelaySide = [1, 2]"
    by (simp add: pump_handed_def buf_of_def pump_ex_def pump_ex_buffev_def)
  with w pump_run_reach [OF w(1) reach_start] pump_ex_ready show ?thesis by blast
qed

text \<open>Claim C26: while a direction is open, the pump is reading from it or a write that continues it is pending, and when
  both sides have sent their end of stream, writing out the buffered data frees the client.\<close>

theorem bufferpump_closes:
  assumes "pump_ready c0" "bpump_reach c0 w" "pw_object w = Live c"
  shows "(\<forall>s. EV_WRITE \<in> rc_evshut c (other s) \<or> be_write_pending (buf_of c (other s)) \<or> EV_READ \<in> be_enabled (buf_of c s)) \<and>
    ((\<forall>s. EV_READ \<in> rc_evshut c s) \<longrightarrow>
      (\<exists>is w'. pump_run now is w = Some w' \<and> pw_object w' = Freed \<and> (\<forall>i\<in>set is. is_written i)))"
proof -
  have inv: "pump_inv c"
    using bpump_reach_inv [OF assms(2,1)] assms(3) by simp
  have "EV_WRITE \<in> rc_evshut c (other s) \<or> be_write_pending (buf_of c (other s)) \<or> EV_READ \<in> be_enabled (buf_of c s)" for s
    using pump_invD(3) [OF inv, of s] pump_invD(3) [OF inv, of "other s"] by (auto simp: pump_dir_def)
  with drain_both [OF inv assms(3)] show ?thesis by blast
qed

lemma pump_ex_half_closed:
  "\<exists>w c. pump_run 5 [Data ClientSide [1, 2], Data RelaySide [7], Eof ClientSide, Eof RelaySide] (pump_start (pump_ex [])) = Some w \<and>
    pw_object w = Live c \<and> (\<forall>s. EV_READ \<in> rc_evshut c s)"
  by (simp add: pump_eval)

theorem bufferpump_closes_witness:
  "\<exists>w is w'. bpump_reach (pump_ex []) w \<and> pump_run 6 is w = Some w' \<and> pw_object w' = Freed \<and> (\<forall>i\<in>set is. is_written i)"
proof -
  from pump_ex_half_closed obtain w c where w:
    "pump_run 5 [Data ClientSide [1, 2], Data RelaySide [7], Eof ClientSide, Eof RelaySide] (pump_start (pump_ex [])) = Some w"
    "pw_object w = Live c" "\<forall>s. EV_READ \<in> rc_evshut c s" by blast
  have "bpump_reach (pump_ex []) w" by (rule pump_run_reach [OF w(1) reach_start])
  with bufferpump_closes [OF pump_ex_ready this w(2), of 6] w(3) show ?thesis by blast
qed

text \<open>the buffers stay bounded. With at most \<open>k\<close> bytes in each input and fewer than 4096 + \<open>k\<close> in each output at the start, where
  \<open>k\<close> is at least 4096, the same holds at every later time.\<close>

lemma bufferpump_bounded:
  assumes "pump_ready c0" "bpump_reach c0 w" "pump_small k (Live c0)" "4096 \<le> k"
  shows "pump_small k (pw_object w)"
  using assms(2)
proof (induction rule: bpump_reach.induct)
  case reach_start
  from assms(1) obtain b r where "rc_buffev c0 ClientSide = Some b" "rc_buffev c0 RelaySide = Some r"
    by (auto simp: pump_ready_def all_sides [of _ ClientSide])
  with assms(3) show ?case
    by (simp add: pump_start_def redsocks_start_bufferpump_def buf_of_def all_sides [of _ ClientSide]
        bufferpump_buffev_def bufferevent_enable_def)
next
  case (reach_step w now i w')
  from pump_exec_effect [OF bpump_reach_inv [OF reach_step(1) assms(1)] reach_step(2)] obtain c where
    "pw_object w = Live c" "pump_effect c w w'" by blast
  with reach_step.IH assms(4) show ?case
    by (auto intro: pump_effect_small simp: REDSOCKS_RELAY_HALFBUFF_def)
qed

text \<open>Before the pump is active an end of stream only sets the flag. If both sides close during the negotiation, reading is over, nothing is
  left to write, and the client is kept.\<close>

lemma eof_before_pump_keeps:
  assumes "rc_state c \<noteq> pump_active" "rc_buffev c s = Some b" "EV_WRITE \<notin> rc_evshut c (other s)"
  shows "\<exists>xs c'. redsocks_event_error now c s True = (xs, Live c') \<and>
    rc_evshut c' = (rc_evshut c)(s := insert EV_READ (rc_evshut c s)) \<and> rc_state c' = rc_state c"
proof -
  let ?c = "redsocks_touch_client now c"
  obtain xs c1 where c1: "redsocks_shutdown ?c s SHUT_RD = (xs, Live c1)"
    "rc_evshut c1 = (rc_evshut ?c)(s := rc_evshut ?c s \<union> evhow SHUT_RD)" "rc_state c1 = rc_state ?c"
    by (rule shutdown_live [of ?c s b "other s" SHUT_RD]) (use assms in simp_all)
  with assms(1) show ?thesis
    by (auto simp: redsocks_event_error_def Let_def split: option.splits)
qed

end
