(* ===== verification/Red_Splice.thy ===== *)
theory Red_Splice
  imports Red_Client
begin

text \<open>
  The other pump of \<^verbatim>\<open>redsocks/redsocks.c\<close>: with \<^verbatim>\<open>splice\<close> the kernel moves the data of each direction through a pipe. The buffers of
  the bufferevents only hold what was read before the pump started; a write callback sends them first and then
  the pipe. The events of the two sockets are added and removed to apply backpressure.

  The results of the system calls are arguments: \<open>Would_block\<close>, another error, or the number of bytes.
\<close>

datatype io = Would_block | Io_error | Done nat

section \<open>Events\<close>

definition event_add :: "event \<Rightarrow> event" where "event_add e = e\<lparr>ev_pending := True\<rparr>"

definition event_del :: "event \<Rightarrow> event" where "event_del e = e\<lparr>ev_pending := False, ev_active := False\<rparr>"

definition event_active :: "event \<Rightarrow> event" where "event_active e = e\<lparr>ev_active := True\<rparr>"

definition upd_event :: "side \<Rightarrow> ev \<Rightarrow> (event \<Rightarrow> event) \<Rightarrow> redsocks_pump \<Rightarrow> redsocks_pump" where
  "upd_event s e f p = p\<lparr>pm_event := (pm_event p)(s := (pm_event p s)(e := f (pm_event p s e)))\<rparr>"

definition upd_pipe :: "side \<Rightarrow> (splice_pipe \<Rightarrow> splice_pipe) \<Rightarrow> redsocks_pump \<Rightarrow> redsocks_pump" where
  "upd_pipe s f p = p\<lparr>pm_pipe := (pm_pipe p)(s := f (pm_pipe p s))\<rparr>"

lemma upd_event_simps [simp]:
  "pm_pipe (upd_event s e f p) = pm_pipe p"
  "pm_event (upd_event s e f p) s' e' = (if s' = s \<and> e' = e then f (pm_event p s e) else pm_event p s' e')"
  "pm_event (upd_pipe s g p) = pm_event p" "pm_pipe (upd_pipe s g p) s' = (if s' = s then g (pm_pipe p s) else pm_pipe p s')"
  by (simp_all add: upd_event_def upd_pipe_def)

lemma event_simps [simp]:
  "ev_fd (event_add e) = ev_fd e" "ev_pending (event_add e)" "ev_active (event_add e) = ev_active e"
  "ev_fd (event_del e) = ev_fd e" "\<not> ev_pending (event_del e)" "\<not> ev_active (event_del e)"
  "ev_fd (event_active e) = ev_fd e" "ev_pending (event_active e) = ev_pending e" "ev_active (event_active e)"
  by (simp_all add: event_add_def event_del_def event_active_def)

section \<open>The callbacks (redsocks/redsocks.c)\<close>

definition bufferevent_free_unused :: "side \<Rightarrow> redsocks_client \<Rightarrow> rs_call list \<times> redsocks_client" where
  "bufferevent_free_unused s c = (case rc_buffev c s of
     Some b \<Rightarrow> if be_input b = [] \<and> be_output b = [] then ([Free_bufferevent s], c\<lparr>rc_buffev := (rc_buffev c)(s := None)\<rparr>)
              else ([], c)
   | None \<Rightarrow> ([], c))"

definition redsocks_touch_pump :: "nat \<Rightarrow> redsocks_client \<Rightarrow> rs_call list \<times> redsocks_client" where
  "redsocks_touch_pump now c =
     (let (xs, c1) = bufferevent_free_unused ClientSide (redsocks_touch_client now c);
          (ys, c2) = bufferevent_free_unused RelaySide c1 in (xs @ ys, c2))"

text \<open>Sending from a source with \<open>avail\<close> bytes: all of it, a part of it with an output that is then not writable, or an error.\<close>

datatype drained = Dr_full | Dr_short nat | Dr_error

definition drain_source :: "nat \<Rightarrow> io \<Rightarrow> drained" where
  "drain_source avail r =
     (if avail = 0 then Dr_full
      else case r of
        Would_block \<Rightarrow> Dr_short 0
      | Io_error \<Rightarrow> Dr_error
      | Done sent \<Rightarrow> if avail = sent then Dr_full else Dr_short sent)"

definition buf_output :: "redsocks_client \<Rightarrow> side \<Rightarrow> byte list" where
  "buf_output c s = (case rc_buffev c s of None \<Rightarrow> [] | Some b \<Rightarrow> be_output b)"

definition buf_input :: "redsocks_client \<Rightarrow> side \<Rightarrow> byte list" where
  "buf_input c s = (case rc_buffev c s of None \<Rightarrow> [] | Some b \<Rightarrow> be_input b)"

definition drop_output :: "nat \<Rightarrow> side \<Rightarrow> redsocks_client \<Rightarrow> redsocks_client" where
  "drop_output n s c = c\<lparr>rc_buffev := (rc_buffev c)(s := map_option (\<lambda>b. b\<lparr>be_output := drop n (be_output b)\<rparr>) (rc_buffev c s))\<rparr>"

definition drop_input :: "nat \<Rightarrow> side \<Rightarrow> redsocks_client \<Rightarrow> redsocks_client" where
  "drop_input n s c = c\<lparr>rc_buffev := (rc_buffev c)(s := map_option (\<lambda>b. b\<lparr>be_input := drop n (be_input b)\<rparr>) (rc_buffev c s))\<rparr>"

text \<open>The code at the label \<^verbatim>\<open>decide\<close>: pass on the end of the stream when nothing is left, then choose the events to wait for. A failed
  assertion (a pipe closed with data in it, a full write with data left) is \<open>Bad\<close>.\<close>

definition redsplice_manage :: "redsocks_client \<Rightarrow> side \<Rightarrow> bool \<Rightarrow> bool \<Rightarrow> redsocks_client" where
  "redsplice_manage c dst has_data can_write =
     (let src = other dst in
      c\<lparr>rc_pump := map_option
         (if \<not> can_write \<and> has_data then upd_event dst EV_WRITE event_add \<circ> upd_event src EV_READ event_del
          else if can_write \<and> \<not> has_data then upd_event dst EV_WRITE event_del \<circ> upd_event src EV_READ event_add
          else if \<not> can_write \<and> \<not> has_data then upd_event dst EV_WRITE event_del \<circ> upd_event src EV_READ event_del
          else id) (rc_pump c)\<rparr>)"

definition redsplice_decide :: "redsocks_client \<Rightarrow> redsocks_pump \<Rightarrow> side \<Rightarrow> bool \<Rightarrow> bool \<Rightarrow> rs_result" where
  "redsplice_decide c p dst has_data can_write =
     (let src = other dst in
      if \<not> has_data \<and> EV_READ \<in> rc_evshut c src \<and> EV_WRITE \<notin> rc_evshut c dst
      then (let calls = Shutdown dst SHUT_WR # close_opt (sp_read (pm_pipe p src)) @ close_opt (sp_write (pm_pipe p src));
                c1 = c\<lparr>rc_evshut := (rc_evshut c)(dst := rc_evshut c dst \<union> {EV_WRITE}),
                       rc_pump := Some (upd_pipe src (\<lambda>q. q\<lparr>sp_read := None, sp_write := None\<rparr>) p)\<rparr> in
            if sp_size (pm_pipe p src) \<noteq> 0 then ([Shutdown dst SHUT_WR], Bad)
            else if shut_both c1 then (calls @ fst (redsocks_drop_client c1), snd (redsocks_drop_client c1))
            else (calls, Live (redsplice_manage c1 dst has_data False)))
      else if can_write \<and> has_data then ([], Bad)
      else ([], Live (redsplice_manage c dst has_data can_write)))"

definition write_call :: "side \<Rightarrow> byte list \<Rightarrow> rs_call list" where
  "write_call s bs = (if bs = [] then [] else [Write_to s bs])"

definition rs_before :: "rs_call list \<Rightarrow> rs_result \<Rightarrow> rs_result" where
  "rs_before xs r = (xs @ fst r, snd r)"

text \<open>\<open>r0\<close>, \<open>r1\<close> and \<open>r2\<close> answer the writes from the output of the destination, the input of the source and the pipe.\<close>

definition redsplice_write_cb :: "redsocks_client \<Rightarrow> side \<Rightarrow> io \<Rightarrow> io \<Rightarrow> io \<Rightarrow> rs_result" where
  "redsplice_write_cb c dst r0 r1 r2 = (case rc_pump c of
     None \<Rightarrow> ([], Bad)
   | Some p \<Rightarrow>
      (let src = other dst; out = buf_output c dst; inp = buf_input c src; size = sp_size (pm_pipe p src) in
       case drain_source (length out) r0 of
         Dr_error \<Rightarrow> redsocks_drop_client c
       | Dr_short n \<Rightarrow> rs_before (write_call dst (take n out)) (redsplice_decide (drop_output n dst c) p dst True False)
       | Dr_full \<Rightarrow>
          (let c1 = drop_output (length out) dst c in rs_before (write_call dst out)
           (case drain_source (length inp) r1 of
              Dr_error \<Rightarrow> redsocks_drop_client c1
            | Dr_short n \<Rightarrow> rs_before (write_call dst (take n inp)) (redsplice_decide (drop_input n src c1) p dst True False)
            | Dr_full \<Rightarrow>
               (let c2 = drop_input (length inp) src c1 in rs_before (write_call dst inp)
                (case drain_source size r2 of
                   Dr_error \<Rightarrow> redsocks_drop_client c2
                 | Dr_short n \<Rightarrow>
                     (let p1 = upd_pipe src (\<lambda>q. q\<lparr>sp_size := size - n\<rparr>) p in
                      rs_before [Splice_to dst n] (redsplice_decide (c2\<lparr>rc_pump := Some p1\<rparr>) p1 dst True False))
                 | Dr_full \<Rightarrow>
                     (let p1 = upd_pipe src (\<lambda>q. q\<lparr>sp_size := 0\<rparr>) p in
                      rs_before (if size = 0 then [] else [Splice_to dst size]) (redsplice_decide (c2\<lparr>rc_pump := Some p1\<rparr>) p1 dst False True))))))))"

definition redsplice_read_cb :: "redsocks_client \<Rightarrow> side \<Rightarrow> io \<Rightarrow> rs_result" where
  "redsplice_read_cb c src r = (case rc_pump c of
     None \<Rightarrow> ([], Bad)
   | Some p \<Rightarrow> (case r of
       Would_block \<Rightarrow> ([], Live (c\<lparr>rc_pump := Some (upd_event src EV_READ event_del p)\<rparr>))
     | Io_error \<Rightarrow> redsocks_drop_client c
     | Done got \<Rightarrow>
         if got = 0
         then ([Shutdown src SHUT_RD],
               Live (c\<lparr>rc_evshut := (rc_evshut c)(src := rc_evshut c src \<union> {EV_READ}),
                      rc_pump := Some (upd_event (other src) EV_WRITE event_active (upd_event src EV_READ event_del p))\<rparr>))
         else ([Splice_from src got],
               Live (c\<lparr>rc_pump := Some (upd_event (other src) EV_WRITE event_active
                        (upd_pipe src (\<lambda>q. q\<lparr>sp_size := sp_size q + got\<rparr>) p))\<rparr>))))"

text \<open>The callbacks of the events: \<^verbatim>\<open>redsplice_relay_read\<close>, \<^verbatim>\<open>redsplice_client_read\<close> and the write callbacks by their side.\<close>

definition redsplice_read :: "nat \<Rightarrow> redsocks_client \<Rightarrow> side \<Rightarrow> io \<Rightarrow> rs_result" where
  "redsplice_read now c s r = (let (xs, c1) = redsocks_touch_pump now c in rs_before xs (redsplice_read_cb c1 s r))"

definition redsplice_write :: "nat \<Rightarrow> redsocks_client \<Rightarrow> side \<Rightarrow> io \<Rightarrow> io \<Rightarrow> io \<Rightarrow> rs_result" where
  "redsplice_write now c s r0 r1 r2 =
     (let (xs, c1) = redsocks_touch_pump now c in rs_before xs (redsplice_write_cb c1 s r0 r1 r2))"

section \<open>Starting a pump\<close>

text \<open>Where \<^verbatim>\<open>redsocks_start_splicepump\<close> can fail; \<open>Fail_assign k\<close> after \<open>k\<close> of the four events were assigned.\<close>

datatype start_result = Start_ok | Fail_disable | Fail_request | Fail_reply | Fail_assign nat

definition open_pipe :: "side \<Rightarrow> redsocks_pump \<Rightarrow> redsocks_pump" where
  "open_pipe s = upd_pipe s (\<lambda>q. q\<lparr>sp_read := Some (Pipe_read s), sp_write := Some (Pipe_write s)\<rparr>)"

definition event_assign :: "side \<Rightarrow> ev \<Rightarrow> redsocks_pump \<Rightarrow> redsocks_pump" where
  "event_assign s e = upd_event s e (\<lambda>_. \<lparr>ev_fd = Some (Sock s), ev_pending = False, ev_active = False\<rparr>)"

definition assign_events :: "nat \<Rightarrow> redsocks_pump \<Rightarrow> redsocks_pump" where
  "assign_events k p =
     fold (\<lambda>(s, e). event_assign s e)
       (take k [(ClientSide, EV_READ), (ClientSide, EV_WRITE), (RelaySide, EV_READ), (RelaySide, EV_WRITE)]) p"

text \<open>Both bufferevents lose their events, and at the end their descriptors (\<^verbatim>\<open>redsocks_bufferevent_dropfd\<close>).\<close>

definition map_buffev :: "(bufferevent \<Rightarrow> bufferevent) \<Rightarrow> redsocks_client \<Rightarrow> redsocks_client" where
  "map_buffev f c = c\<lparr>rc_buffev := (\<lambda>s. map_option f (rc_buffev c s))\<rparr>"

definition redsocks_start_splicepump :: "start_result \<Rightarrow> redsocks_client \<Rightarrow> bool \<times> rs_result" where
  "redsocks_start_splicepump res c = (case rc_pump c of
     None \<Rightarrow> (False, [], Bad)
   | Some p \<Rightarrow>
      (let c1 = map_buffev (\<lambda>b. bufferevent_disable b {EV_READ, EV_WRITE}) c;
           p1 = open_pipe ClientSide p;
           p2 = open_pipe RelaySide p1 in
       case res of
         Fail_disable \<Rightarrow> (True, [], Live c)
       | Fail_request \<Rightarrow> (True, [], Live c1)
       | Fail_reply \<Rightarrow> (True, [], Live (c1\<lparr>rc_pump := Some p1\<rparr>))
       | Fail_assign k \<Rightarrow> (True, [], Live (c1\<lparr>rc_pump := Some (assign_events k p2)\<rparr>))
       | Start_ok \<Rightarrow>
          (let c2 = map_buffev (\<lambda>b. b\<lparr>be_fd := None\<rparr>) c1;
               p3 = upd_event RelaySide EV_WRITE event_active (upd_event ClientSide EV_WRITE event_active (assign_events 4 p2));
               p4 = upd_event RelaySide EV_READ event_add (upd_event ClientSide EV_READ event_add p3) in
           (False, [], Live (c2\<lparr>rc_pump := Some p4\<rparr>)))))"

definition redsocks_start_relay :: "bool \<Rightarrow> start_result \<Rightarrow> redsocks_client \<Rightarrow> rs_result" where
  "redsocks_start_relay enable_error res c =
     (let c1 = c\<lparr>rc_state := pump_active\<rparr>;
          (error, r) = (if rc_pump c1 \<noteq> None then redsocks_start_splicepump res c1
                        else redsocks_start_bufferpump enable_error c1) in
      rs_before [Fini]
        (if error then (case snd r of Live c2 \<Rightarrow> rs_before (fst r) (redsocks_drop_client c2) | _ \<Rightarrow> (fst r, Bad)) else r))"

section \<open>The sockets and pipes around the pump\<close>

record splice_world =
  sw_object :: rs_object
  sw_received :: "side \<Rightarrow> byte list"
  sw_pipe :: "side \<Rightarrow> byte list"
  sw_sent :: "side \<Rightarrow> byte list"
  sw_fin :: "side \<Rightarrow> bool"
  sw_closed :: "fd list"

fun sw_call :: "rs_call \<Rightarrow> splice_world \<Rightarrow> splice_world" where
  "sw_call (Shutdown s how) w = (if EV_WRITE \<in> evhow how then w\<lparr>sw_fin := (sw_fin w)(s := True)\<rparr> else w)"
| "sw_call (Close d) w = w\<lparr>sw_closed := sw_closed w @ [d]\<rparr>"
| "sw_call (Write_to s bs) w = w\<lparr>sw_sent := (sw_sent w)(s := sw_sent w s @ bs)\<rparr>"
| "sw_call (Splice_to s n) w =
     w\<lparr>sw_sent := (sw_sent w)(s := sw_sent w s @ take n (sw_pipe w (other s))),
       sw_pipe := (sw_pipe w)(other s := drop n (sw_pipe w (other s)))\<rparr>"
| "sw_call _ w = w"

definition sw_return :: "rs_result \<Rightarrow> splice_world \<Rightarrow> splice_world" where
  "sw_return r w = (fold sw_call (fst r) w)\<lparr>sw_object := snd r\<rparr>"

text \<open>Events: a readable socket with the bytes that \<^verbatim>\<open>splice\<close> moves into the pipe, with the end of the stream, with a full pipe or
  an error, and a writable one with the answers to the writes. There is nothing to read after the end of the stream. As the
  comment in \<^verbatim>\<open>redsplice_read_cb\<close> assumes, reading from a readable socket would block only because the pipe is full, so that it
  holds data; a spurious wakeup of an empty pipe is not an event here. Bytes moved are at least one and at most what is there.\<close>

datatype splice_input = Sp_data side "byte list" | Sp_eof side | Sp_full side | Sp_error side | Sp_write side io io io

definition io_ok :: "nat \<Rightarrow> io \<Rightarrow> bool" where
  "io_ok avail r \<longleftrightarrow> (case r of Done n \<Rightarrow> 0 < n \<and> n \<le> avail | _ \<Rightarrow> True)"

definition clear_active :: "side \<Rightarrow> ev \<Rightarrow> redsocks_client \<Rightarrow> redsocks_client" where
  "clear_active s e c = c\<lparr>rc_pump := map_option (upd_event s e (\<lambda>x. x\<lparr>ev_active := False\<rparr>)) (rc_pump c)\<rparr>"

definition splice_exec :: "nat \<Rightarrow> splice_input \<Rightarrow> splice_world \<Rightarrow> splice_world option" where
  "splice_exec now i w = (case sw_object w of
     Live c \<Rightarrow> (case rc_pump c of
       None \<Rightarrow> None
     | Some p \<Rightarrow> (case i of
         Sp_data s bs \<Rightarrow>
           if ev_pending (pm_event p s EV_READ) \<and> EV_READ \<notin> rc_evshut c s \<and> bs \<noteq> []
           then Some (sw_return (redsplice_read now c s (Done (length bs)))
                  (w\<lparr>sw_received := (sw_received w)(s := sw_received w s @ bs), sw_pipe := (sw_pipe w)(s := sw_pipe w s @ bs)\<rparr>))
           else None
       | Sp_eof s \<Rightarrow>
           if ev_pending (pm_event p s EV_READ) then Some (sw_return (redsplice_read now c s (Done 0)) w) else None
       | Sp_full s \<Rightarrow>
           if ev_pending (pm_event p s EV_READ) \<and> sw_pipe w s \<noteq> []
           then Some (sw_return (redsplice_read now c s Would_block) w) else None
       | Sp_error s \<Rightarrow>
           if ev_pending (pm_event p s EV_READ) then Some (sw_return (redsplice_read now c s Io_error) w) else None
       | Sp_write s r0 r1 r2 \<Rightarrow>
           if (ev_pending (pm_event p s EV_WRITE) \<or> ev_active (pm_event p s EV_WRITE)) \<and>
              io_ok (length (buf_output c s)) r0 \<and> io_ok (length (buf_input c (other s))) r1 \<and>
              io_ok (sp_size (pm_pipe p (other s))) r2
           then Some (sw_return (redsplice_write now (clear_active s EV_WRITE c) s r0 r1 r2) w) else None))
   | _ \<Rightarrow> None)"

fun splice_run :: "nat \<Rightarrow> splice_input list \<Rightarrow> splice_world \<Rightarrow> splice_world option" where
  "splice_run now [] w = Some w"
| "splice_run now (i # is) w = (case splice_exec now i w of None \<Rightarrow> None | Some w1 \<Rightarrow> splice_run now is w1)"

definition splice_start :: "redsocks_client \<Rightarrow> splice_world" where
  "splice_start c =
     sw_return (redsocks_start_relay False Start_ok c)
       \<lparr>sw_object = Bad, sw_received = (\<lambda>_. []), sw_pipe = (\<lambda>_. []), sw_sent = (\<lambda>_. []), sw_fin = (\<lambda>_. False), sw_closed = []\<rparr>"

inductive splice_reach :: "redsocks_client \<Rightarrow> splice_world \<Rightarrow> bool" for c where
  splice_reach_start: "splice_reach c (splice_start c)"
| splice_reach_step: "splice_reach c w \<Longrightarrow> splice_exec now i w = Some w' \<Longrightarrow> splice_reach c w'"

text \<open>What \<^verbatim>\<open>redsocks_accept_client\<close> and the negotiation leave: two bufferevents with their sockets, no pipe, no event, and at most an
  end of stream from a side.\<close>

definition splice_ready :: "redsocks_client \<Rightarrow> bool" where
  "splice_ready c \<longleftrightarrow> (\<exists>p. rc_pump c = Some p \<and> (\<forall>s. sp_size (pm_pipe p s) = 0)) \<and>
     (\<forall>s. rc_buffev c s \<noteq> None \<and> EV_WRITE \<notin> rc_evshut c s)"

section \<open>What the callbacks leave alone\<close>

definition nofd :: "redsocks_client \<Rightarrow> bool" where
  "nofd c \<longleftrightarrow> (\<forall>s b. rc_buffev c s = Some b \<longrightarrow> be_fd b = None)"

text \<open>Two clients with the same bytes, flags and events.\<close>

definition same_view :: "redsocks_client \<Rightarrow> redsocks_client \<Rightarrow> bool" where
  "same_view c c' \<longleftrightarrow> rc_pump c' = rc_pump c \<and> rc_evshut c' = rc_evshut c \<and> buf_output c' = buf_output c \<and>
     buf_input c' = buf_input c \<and> (nofd c \<longrightarrow> nofd c')"

lemma free_unused_view:
  assumes "bufferevent_free_unused s c = (xs, c')"
  shows "same_view c c' \<and> fold sw_call xs w = w"
  using assms
  by (auto simp: bufferevent_free_unused_def same_view_def buf_output_def buf_input_def nofd_def fun_eq_iff
      split: option.splits if_splits)

lemma same_view_trans: "same_view a b \<Longrightarrow> same_view b c \<Longrightarrow> same_view a c"
  by (simp add: same_view_def)

lemma touch_client_view: "same_view c (redsocks_touch_client n c)"
  by (simp add: same_view_def buf_output_def [abs_def] buf_input_def [abs_def] nofd_def)

lemma touch_pump_view:
  shows "\<exists>xs c'. redsocks_touch_pump now c = (xs, c') \<and> same_view c c' \<and> (\<forall>w. fold sw_call xs w = w)"
proof -
  obtain xs c1 where 1: "bufferevent_free_unused ClientSide (redsocks_touch_client now c) = (xs, c1)" by fastforce
  obtain ys c2 where 2: "bufferevent_free_unused RelaySide c1 = (ys, c2)" by fastforce
  have "same_view c c2"
    using free_unused_view [OF 1] free_unused_view [OF 2] touch_client_view same_view_trans by blast
  moreover have "redsocks_touch_pump now c = (xs @ ys, c2)"
    by (simp add: redsocks_touch_pump_def 1 2)
  moreover have "fold sw_call (xs @ ys) w = w" for w
    using free_unused_view [OF 1] free_unused_view [OF 2] by simp
  ultimately show ?thesis by blast
qed

text \<open>The descriptors a pump still holds, which is what dropping the client closes.\<close>

definition opt_list :: "'a option \<Rightarrow> 'a list" where
  "opt_list x = (case x of None \<Rightarrow> [] | Some y \<Rightarrow> [y])"

lemma opt_list_simps [simp]: "opt_list None = []" "opt_list (Some x) = [x]"
  by (simp_all add: opt_list_def)

definition pump_fds :: "redsocks_pump \<Rightarrow> fd list" where
  "pump_fds p =
     opt_list (sp_read (pm_pipe p ClientSide)) @ opt_list (sp_write (pm_pipe p ClientSide)) @
     opt_list (sp_read (pm_pipe p RelaySide)) @ opt_list (sp_write (pm_pipe p RelaySide)) @
     opt_list (ev_fd (pm_event p ClientSide EV_READ)) @ opt_list (ev_fd (pm_event p RelaySide EV_READ))"

lemma fold_close_opt: "fold sw_call (close_opt x) w = w\<lparr>sw_closed := sw_closed w @ opt_list x\<rparr>"
  by (cases x) (simp_all add: close_opt_def)

lemma drop_pump_closed: "fold sw_call (drop_pump p) w = w\<lparr>sw_closed := sw_closed w @ pump_fds p\<rparr>"
  by (simp add: drop_pump_def pump_fds_def fold_close_opt)

lemma drop_client_closed:
  assumes "nofd c" "rc_pump c = Some p"
  shows "fold sw_call (fst (redsocks_drop_client c)) w = w\<lparr>sw_closed := sw_closed w @ pump_fds p\<rparr>"
proof -
  have "fold sw_call (case rc_buffev c s of None \<Rightarrow> [] | Some b \<Rightarrow> redsocks_bufferevent_free s b) w = w" for s w
    using assms(1) by (auto simp: nofd_def redsocks_bufferevent_free_def close_opt_def split: option.splits)
  then show ?thesis
    using assms(2) by (simp add: redsocks_drop_client_def drop_pump_closed)
qed

section \<open>One direction\<close>

text \<open>All the state that belongs to the direction from \<open>s\<close> to the other side. The callbacks of a direction change only that direction.\<close>

record direction =
  d_eof :: bool
  d_shut :: bool
  d_data :: "byte list"
  d_size_ok :: bool
  d_reading :: bool
  d_writing :: bool
  d_pipe :: "fd option \<times> fd option"
  d_received :: "byte list"
  d_sent :: "byte list"
  d_fin :: bool

definition dir :: "redsocks_client \<Rightarrow> redsocks_pump \<Rightarrow> splice_world \<Rightarrow> side \<Rightarrow> direction" where
  "dir c p w s =
     \<lparr>d_eof = (EV_READ \<in> rc_evshut c s), d_shut = (EV_WRITE \<in> rc_evshut c (other s)),
      d_data = buf_output c (other s) @ buf_input c s @ sw_pipe w s,
      d_size_ok = (sp_size (pm_pipe p s) = length (sw_pipe w s)),
      d_reading = ev_pending (pm_event p s EV_READ),
      d_writing = (ev_pending (pm_event p (other s) EV_WRITE) \<or> ev_active (pm_event p (other s) EV_WRITE)),
      d_pipe = (sp_read (pm_pipe p s), sp_write (pm_pipe p s)),
      d_received = sw_received w s, d_sent = sw_sent w (other s), d_fin = sw_fin w (other s)\<rparr>"

definition dir_ok :: "byte list \<Rightarrow> side \<Rightarrow> direction \<Rightarrow> bool" where
  "dir_ok pre s d \<longleftrightarrow>
     d_size_ok d \<and> d_fin d = d_shut d \<and> pre @ d_received d = d_sent d @ d_data d \<and>
     (d_shut d \<longrightarrow> d_eof d \<and> d_data d = [] \<and> \<not> d_reading d \<and> \<not> d_writing d \<and> d_pipe d = (None, None)) \<and>
     (\<not> d_shut d \<longrightarrow> d_pipe d = (Some (Pipe_read s), Some (Pipe_write s)) \<and>
        (d_data d \<noteq> [] \<or> d_eof d \<or> \<not> d_reading d \<longrightarrow> d_writing d))"

section \<open>Invariant\<close>

definition before :: "redsocks_client \<Rightarrow> side \<Rightarrow> byte list" where
  "before c0 s = buf_output c0 (other s) @ buf_input c0 s"

definition closed_ok :: "redsocks_client \<Rightarrow> splice_world \<Rightarrow> bool" where
  "closed_ok c w \<longleftrightarrow> distinct (sw_closed w) \<and>
     (\<forall>s. Sock s \<notin> set (sw_closed w) \<and> (Pipe_read s \<in> set (sw_closed w) \<longleftrightarrow> EV_WRITE \<in> rc_evshut c (other s)) \<and>
          (Pipe_write s \<in> set (sw_closed w) \<longleftrightarrow> EV_WRITE \<in> rc_evshut c (other s)))"

definition pump_fd_ok :: "redsocks_pump \<Rightarrow> bool" where
  "pump_fd_ok p \<longleftrightarrow> (\<forall>s. ev_fd (pm_event p s EV_READ) = Some (Sock s))"

definition splice_inv :: "redsocks_client \<Rightarrow> redsocks_client \<Rightarrow> splice_world \<Rightarrow> bool" where
  "splice_inv c0 c w \<longleftrightarrow> (\<exists>p. rc_pump c = Some p \<and> nofd c \<and> \<not> shut_both c \<and> pump_fd_ok p \<and> closed_ok c w \<and>
     (\<forall>s. dir_ok (before c0 s) s (dir c p w s)))"

definition freed_ok :: "redsocks_client \<Rightarrow> splice_world \<Rightarrow> bool" where
  "freed_ok c0 w \<longleftrightarrow> distinct (sw_closed w) \<and> set (sw_closed w) = UNIV \<and>
     (\<forall>s. \<exists>rest. before c0 s @ sw_received w s = sw_sent w (other s) @ rest \<and> (sw_fin w (other s) \<longrightarrow> rest = []))"

definition sw_inv :: "redsocks_client \<Rightarrow> splice_world \<Rightarrow> bool" where
  "sw_inv c0 w \<longleftrightarrow> (case sw_object w of Live c \<Rightarrow> splice_inv c0 c w | Freed \<Rightarrow> freed_ok c0 w | Bad \<Rightarrow> False)"

text \<open>Inside a write callback for the side \<open>dst\<close>: the direction that ends there is open, but its events are not settled yet.\<close>

definition dir_mid :: "byte list \<Rightarrow> side \<Rightarrow> direction \<Rightarrow> bool" where
  "dir_mid pre s d \<longleftrightarrow> d_size_ok d \<and> \<not> d_fin d \<and> \<not> d_shut d \<and> pre @ d_received d = d_sent d @ d_data d \<and>
     d_pipe d = (Some (Pipe_read s), Some (Pipe_write s))"

definition splice_mid :: "redsocks_client \<Rightarrow> redsocks_client \<Rightarrow> redsocks_pump \<Rightarrow> splice_world \<Rightarrow> side \<Rightarrow> bool" where
  "splice_mid c0 c p w dst \<longleftrightarrow> rc_pump c = Some p \<and> nofd c \<and> pump_fd_ok p \<and> closed_ok c w \<and>
     dir_mid (before c0 (other dst)) (other dst) (dir c p w (other dst)) \<and> dir_ok (before c0 dst) dst (dir c p w dst)"

lemma fd_exhaust: "d \<in> {Sock ClientSide, Sock RelaySide, Pipe_read ClientSide, Pipe_read RelaySide, Pipe_write ClientSide,
   Pipe_write RelaySide}"
  by (cases d; simp; metis side.exhaust)

lemma all_fds: "A = (UNIV :: fd set) \<longleftrightarrow> (\<forall>s. Sock s \<in> A \<and> Pipe_read s \<in> A \<and> Pipe_write s \<in> A)"
  by (metis UNIV_eq_I UNIV_I fd.exhaust)

lemma sw_return_before: "sw_return (rs_before xs r) w = sw_return r (fold sw_call xs w)"
  by (simp add: sw_return_def rs_before_def)

lemma sw_return_nil: "sw_return ([], o') w = w\<lparr>sw_object := o'\<rparr>"
  by (simp add: sw_return_def)

lemma dir_object [simp]: "dir c p (w\<lparr>sw_object := o'\<rparr>) s = dir c p w s"
  by (simp add: dir_def)

lemma closed_ok_object [simp]: "closed_ok c (w\<lparr>sw_object := o'\<rparr>) = closed_ok c w"
  by (simp add: closed_ok_def)

lemma splice_inv_object [simp]: "splice_inv c0 c (w\<lparr>sw_object := o'\<rparr>) = splice_inv c0 c w"
  by (simp add: splice_inv_def)

lemma sw_inv_simps:
  "sw_object w = Live c \<Longrightarrow> sw_inv c0 w = splice_inv c0 c w" "sw_object w = Freed \<Longrightarrow> sw_inv c0 w = freed_ok c0 w"
  by (simp_all add: sw_inv_def)

lemma closed_fds:
  assumes "pump_fd_ok p" "closed_ok c w"
    "\<And>s. d_pipe (dir c p w s) = (if EV_WRITE \<in> rc_evshut c (other s) then (None, None) else (Some (Pipe_read s), Some (Pipe_write s)))"
  shows "distinct (sw_closed w @ pump_fds p) \<and> set (sw_closed w @ pump_fds p) = UNIV"
  using assms(1,2) assms(3) [of ClientSide] assms(3) [of RelaySide]
  unfolding all_fds closed_ok_def pump_fds_def pump_fd_ok_def dir_def all_sides [of _ ClientSide]
  by (simp split: if_splits)

text \<open>Dropping the client, in a write callback or outside.\<close>

lemma drop_freed_ok:
  assumes "rc_pump c = Some p" "nofd c" "pump_fd_ok p" "closed_ok c w"
    "\<And>s. d_pipe (dir c p w s) = (if EV_WRITE \<in> rc_evshut c (other s) then (None, None) else (Some (Pipe_read s), Some (Pipe_write s)))"
    "\<And>s. before c0 s @ sw_received w s = sw_sent w (other s) @ d_data (dir c p w s)"
    "\<And>s. sw_fin w (other s) \<Longrightarrow> d_data (dir c p w s) = []"
  shows "sw_inv c0 (sw_return (redsocks_drop_client c) w)"
proof -
  have w': "sw_return (redsocks_drop_client c) w = w\<lparr>sw_closed := sw_closed w @ pump_fds p, sw_object := Freed\<rparr>"
    using assms(1,2) by (simp add: sw_return_def drop_client_closed)
  show ?thesis
    using closed_fds [OF assms(3-5)] assms(6,7) by (auto simp: w' sw_inv_simps freed_ok_def)
qed

lemma dir_ok_pipe:
  "dir_ok pre s d \<Longrightarrow> d_pipe d = (if d_shut d then (None, None) else (Some (Pipe_read s), Some (Pipe_write s)))"
  by (auto simp: dir_ok_def)

lemma dir_sel [simp]:
  "d_shut (dir c p w s) = (EV_WRITE \<in> rc_evshut c (other s))" "d_received (dir c p w s) = sw_received w s"
  "d_sent (dir c p w s) = sw_sent w (other s)" "d_fin (dir c p w s) = sw_fin w (other s)"
  "d_eof (dir c p w s) = (EV_READ \<in> rc_evshut c s)"
  by (simp_all add: dir_def)

lemma mid_drop:
  assumes "splice_mid c0 c p w dst"
  shows "sw_inv c0 (sw_return (redsocks_drop_client c) w)"
proof (rule drop_freed_ok [of c p])
  fix s
  have s: "s = dst \<or> s = other dst" by (rule side_cases)
  show "d_pipe (dir c p w s) = (if EV_WRITE \<in> rc_evshut c (other s) then (None, None) else (Some (Pipe_read s), Some (Pipe_write s)))"
    using s assms dir_ok_pipe [of "before c0 dst" dst "dir c p w dst"] by (auto simp: splice_mid_def dir_mid_def)
  show "before c0 s @ sw_received w s = sw_sent w (other s) @ d_data (dir c p w s)"
    using s assms by (auto simp: splice_mid_def dir_mid_def dir_ok_def)
  show "d_data (dir c p w s) = []" if "sw_fin w (other s)"
    using s assms that by (auto simp: splice_mid_def dir_mid_def dir_ok_def split: if_splits)
qed (use assms in \<open>simp_all add: splice_mid_def\<close>)

lemma shut_both_pump [simp]: "shut_both (c\<lparr>rc_pump := q\<rparr>) = shut_both c"
  by (simp add: shut_both_def)

lemma view_pump [simp]:
  "buf_output (c\<lparr>rc_pump := q\<rparr>) = buf_output c" "buf_input (c\<lparr>rc_pump := q\<rparr>) = buf_input c" "nofd (c\<lparr>rc_pump := q\<rparr>) = nofd c"
  "buf_output (c\<lparr>rc_evshut := e\<rparr>) = buf_output c" "buf_input (c\<lparr>rc_evshut := e\<rparr>) = buf_input c" "nofd (c\<lparr>rc_evshut := e\<rparr>) = nofd c"
  "closed_ok (c\<lparr>rc_pump := q\<rparr>) = closed_ok c"
  by (simp_all add: buf_output_def [abs_def] buf_input_def [abs_def] nofd_def closed_ok_def [abs_def])

lemma decide_wait:
  assumes mid: "splice_mid c0 c p w dst" and ns: "\<not> shut_both c"
    and hd: "has_data = (d_data (dir c p w (other dst)) \<noteq> [])" and no: "has_data \<or> EV_READ \<notin> rc_evshut c (other dst)"
  shows "sw_inv c0 (sw_return (redsplice_decide c p dst has_data (\<not> has_data)) w)"
proof -
  obtain p' where p': "redsplice_manage c dst has_data (\<not> has_data) = c\<lparr>rc_pump := Some p'\<rparr>"
    "p' = (if has_data then upd_event dst EV_WRITE event_add (upd_event (other dst) EV_READ event_del p)
           else upd_event dst EV_WRITE event_del (upd_event (other dst) EV_READ event_add p))"
    using mid by (simp add: redsplice_manage_def splice_mid_def)
  have "redsplice_decide c p dst has_data (\<not> has_data) = ([], Live (c\<lparr>rc_pump := Some p'\<rparr>))"
    using no p'(1) by (auto simp: redsplice_decide_def Let_def)
  moreover have "splice_inv c0 (c\<lparr>rc_pump := Some p'\<rparr>) w"
    using mid ns hd no
    unfolding splice_inv_def splice_mid_def dir_mid_def dir_ok_def
    by (cases has_data) (simp_all add: all_sides [of _ dst] p'(2) pump_fd_ok_def dir_def)
  ultimately show ?thesis by (simp add: sw_return_nil sw_inv_simps)
qed

text \<open>The end of the stream is passed on: the pipe of the direction is closed.\<close>

lemma decide_shut:
  assumes mid: "splice_mid c0 c p w dst" and em: "d_data (dir c p w (other dst)) = []"
    and eof: "EV_READ \<in> rc_evshut c (other dst)"
  shows "sw_inv c0 (sw_return (redsplice_decide c p dst False True) w)"
proof -
  let ?src = "other dst"
  let ?p = "upd_pipe ?src (\<lambda>q. q\<lparr>sp_read := None, sp_write := None\<rparr>) p"
  let ?c = "c\<lparr>rc_evshut := (rc_evshut c)(dst := rc_evshut c dst \<union> {EV_WRITE}), rc_pump := Some ?p\<rparr>"
  let ?w = "w\<lparr>sw_fin := (sw_fin w)(dst := True), sw_closed := sw_closed w @ [Pipe_read ?src, Pipe_write ?src]\<rparr>"
  let ?calls = "Shutdown dst SHUT_WR # close_opt (sp_read (pm_pipe p ?src)) @ close_opt (sp_write (pm_pipe p ?src))"
  have pipe: "sp_read (pm_pipe p ?src) = Some (Pipe_read ?src)" "sp_write (pm_pipe p ?src) = Some (Pipe_write ?src)"
    and wo: "EV_WRITE \<notin> rc_evshut c dst" and rp: "rc_pump c = Some p"
    using mid by (simp_all add: splice_mid_def dir_mid_def dir_def)
  have sz: "sp_size (pm_pipe p ?src) = 0" using mid em by (simp add: splice_mid_def dir_mid_def dir_def)
  have calls: "fold sw_call ?calls w = ?w"
    by (simp add: pipe close_opt_def)
  have cl: "closed_ok ?c ?w"
    using mid wo by (simp add: splice_mid_def closed_ok_def all_sides [of _ dst])
  have fd: "pump_fd_ok ?p"
    using mid by (simp add: splice_mid_def pump_fd_ok_def)
  have nf: "nofd ?c" using mid by (simp add: splice_mid_def nofd_def)
  show ?thesis
  proof (cases "shut_both ?c")
    case True
    have dec: "redsplice_decide c p dst False True = rs_before ?calls (redsocks_drop_client ?c)"
      using eof wo sz True by (simp add: redsplice_decide_def Let_def rs_before_def)
    have "sw_inv c0 (sw_return (redsocks_drop_client ?c) ?w)"
    proof (rule drop_freed_ok [of ?c ?p])
      fix s
      have s: "s = dst \<or> s = ?src" by (rule side_cases)
      show "d_pipe (dir ?c ?p ?w s) =
          (if EV_WRITE \<in> rc_evshut ?c (other s) then (None, None) else (Some (Pipe_read s), Some (Pipe_write s)))"
        using s mid dir_ok_pipe [of "before c0 dst" dst "dir c p w dst"]
        by (auto simp: splice_mid_def dir_def)
      show "before c0 s @ sw_received ?w s = sw_sent ?w (other s) @ d_data (dir ?c ?p ?w s)"
        using s mid by (auto simp: splice_mid_def dir_mid_def dir_ok_def dir_def)
      show "d_data (dir ?c ?p ?w s) = []" if "sw_fin ?w (other s)"
        using s mid em that by (auto simp: splice_mid_def dir_mid_def dir_ok_def dir_def)
    qed (use cl fd nf in simp_all)
    then show ?thesis by (simp only: dec sw_return_before calls)
  next
    case False
    let ?p1 = "upd_event dst EV_WRITE event_del (upd_event ?src EV_READ event_del ?p)"
    have dec: "redsplice_decide c p dst False True = rs_before ?calls ([], Live (?c\<lparr>rc_pump := Some ?p1\<rparr>))"
      using eof wo sz False by (simp add: redsplice_decide_def Let_def rs_before_def redsplice_manage_def)
    have "splice_inv c0 (?c\<lparr>rc_pump := Some ?p1\<rparr>) ?w"
      unfolding splice_inv_def
    proof (intro exI conjI)
      show "\<forall>s. dir_ok (before c0 s) s (dir (?c\<lparr>rc_pump := Some ?p1\<rparr>) ?p1 ?w s)"
        using mid em eof by (simp add: all_sides [of _ dst] splice_mid_def dir_mid_def dir_ok_def dir_def)
      show "pump_fd_ok ?p1" using fd by (simp add: pump_fd_ok_def)
    qed (use cl nf False in simp_all)
    then show ?thesis by (simp add: dec sw_return_before calls sw_return_nil sw_inv_simps del: fold.simps)
  qed
qed

lemma decide_inv:
  assumes "splice_mid c0 c p w dst" "\<not> shut_both c" "has_data = (d_data (dir c p w (other dst)) \<noteq> [])"
  shows "sw_inv c0 (sw_return (redsplice_decide c p dst has_data (\<not> has_data)) w)"
proof (cases "has_data \<or> EV_READ \<notin> rc_evshut c (other dst)")
  case True
  with assms show ?thesis by (rule decide_wait)
next
  case False
  with decide_shut [OF assms(1)] assms(3) show ?thesis by simp
qed

section \<open>The callbacks keep the invariant\<close>

lemma drop_buffer_simps [simp]:
  "rc_evshut (drop_output n s c) = rc_evshut c" "rc_pump (drop_output n s c) = rc_pump c"
  "rc_evshut (drop_input n s c) = rc_evshut c" "rc_pump (drop_input n s c) = rc_pump c"
  "nofd c \<Longrightarrow> nofd (drop_output n s c)" "nofd c \<Longrightarrow> nofd (drop_input n s c)"
  "buf_output (drop_output n s c) t = (if t = s then drop n (buf_output c s) else buf_output c t)"
  "buf_input (drop_input n s c) t = (if t = s then drop n (buf_input c s) else buf_input c t)"
  "buf_input (drop_output n s c) t = buf_input c t" "buf_output (drop_input n s c) t = buf_output c t"
  by (auto simp: drop_output_def drop_input_def nofd_def buf_output_def buf_input_def split: option.splits)

lemma closed_ok_cong: "rc_evshut c' = rc_evshut c \<Longrightarrow> sw_closed w' = sw_closed w \<Longrightarrow> closed_ok c' w' = closed_ok c w"
  by (simp add: closed_ok_def)

lemma fold_write_call: "fold sw_call (write_call s bs) w = w\<lparr>sw_sent := (sw_sent w)(s := sw_sent w s @ bs)\<rparr>"
  by (simp add: write_call_def)

lemma mid_sent_output:
  assumes "splice_mid c0 c p w dst"
  shows "splice_mid c0 (drop_output n dst c) p (w\<lparr>sw_sent := (sw_sent w)(dst := sw_sent w dst @ take n (buf_output c dst))\<rparr>) dst"
proof -
  let ?w = "w\<lparr>sw_sent := (sw_sent w)(dst := sw_sent w dst @ take n (buf_output c dst))\<rparr>"
  have "closed_ok (drop_output n dst c) ?w = closed_ok c w" by (rule closed_ok_cong) simp_all
  with assms show ?thesis
    by (simp add: splice_mid_def dir_mid_def dir_def dir_ok_def)
qed

lemma mid_sent_input:
  assumes "splice_mid c0 c p w dst" "buf_output c dst = []"
  shows "splice_mid c0 (drop_input n (other dst) c) p
    (w\<lparr>sw_sent := (sw_sent w)(dst := sw_sent w dst @ take n (buf_input c (other dst)))\<rparr>) dst"
proof -
  let ?w = "w\<lparr>sw_sent := (sw_sent w)(dst := sw_sent w dst @ take n (buf_input c (other dst)))\<rparr>"
  have "closed_ok (drop_input n (other dst) c) ?w = closed_ok c w" by (rule closed_ok_cong) simp_all
  with assms show ?thesis
    by (simp add: splice_mid_def dir_mid_def dir_def dir_ok_def)
qed

lemma mid_sent_pipe:
  assumes "splice_mid c0 c p w dst" "buf_output c dst = []" "buf_input c (other dst) = []"
    "p' = upd_pipe (other dst) (\<lambda>q. q\<lparr>sp_size := sp_size (pm_pipe p (other dst)) - n\<rparr>) p"
  shows "splice_mid c0 (c\<lparr>rc_pump := Some p'\<rparr>) p' (sw_call (Splice_to dst n) w) dst"
proof -
  have "closed_ok (c\<lparr>rc_pump := Some p'\<rparr>) (sw_call (Splice_to dst n) w) = closed_ok c w" by (rule closed_ok_cong) simp_all
  with assms show ?thesis
    by (simp add: splice_mid_def dir_mid_def dir_def dir_ok_def pump_fd_ok_def)
qed

lemma drain_cases:
  assumes "io_ok avail r"
  obtains (full) "drain_source avail r = Dr_full" | (error) "drain_source avail r = Dr_error"
    | (short) n where "drain_source avail r = Dr_short n" "n < avail"
proof (cases "drain_source avail r")
  case (Dr_short n)
  then have "n < avail"
    using assms by (auto simp: drain_source_def io_ok_def split: io.splits if_splits)
  with Dr_short show ?thesis by (rule short)
qed (use full error in simp_all)

lemma shut_both_drop [simp]:
  "shut_both (drop_output n s c) = shut_both c" "shut_both (drop_input n s c) = shut_both c"
  by (simp_all add: shut_both_def)

text \<open>The three sources in turn; each lemma takes up where the sources before it are empty.\<close>

lemma write_pipe_inv:
  assumes mid: "splice_mid c0 c p w dst" and ns: "\<not> shut_both c" and em: "buf_output c dst = []" "buf_input c (other dst) = []"
    and avail: "avail = sp_size (pm_pipe p (other dst))" and io: "io_ok avail r2"
  shows "sw_inv c0 (sw_return
    (case drain_source avail r2 of
       Dr_error \<Rightarrow> redsocks_drop_client c
     | Dr_short n \<Rightarrow>
         (let p1 = upd_pipe (other dst) (\<lambda>q. q\<lparr>sp_size := avail - n\<rparr>) p in
          rs_before [Splice_to dst n] (redsplice_decide (c\<lparr>rc_pump := Some p1\<rparr>) p1 dst True False))
     | Dr_full \<Rightarrow>
         (let p1 = upd_pipe (other dst) (\<lambda>q. q\<lparr>sp_size := 0\<rparr>) p in
          rs_before (if avail = 0 then [] else [Splice_to dst avail])
            (redsplice_decide (c\<lparr>rc_pump := Some p1\<rparr>) p1 dst False True))) w)"
  using io
proof (cases rule: drain_cases)
  case full
  let ?p = "upd_pipe (other dst) (\<lambda>q. q\<lparr>sp_size := 0\<rparr>) p" and ?w = "sw_call (Splice_to dst avail) w"
  have len: "avail = length (sw_pipe w (other dst))"
    using mid avail by (simp add: splice_mid_def dir_mid_def dir_def)
  have m: "splice_mid c0 (c\<lparr>rc_pump := Some ?p\<rparr>) ?p ?w dst"
    by (rule mid_sent_pipe [OF mid em]) (simp add: avail)
  have "?w = w" if "avail = 0"
    by (rule splice_world.equality) (use that len in \<open>simp_all add: fun_upd_idem\<close>)
  then have w: "fold sw_call (if avail = 0 then [] else [Splice_to dst avail]) w = ?w" by simp
  have "sw_inv c0 (sw_return (redsplice_decide (c\<lparr>rc_pump := Some ?p\<rparr>) ?p dst False (\<not> False)) ?w)"
    by (rule decide_inv [OF m]) (use ns em len in \<open>simp_all add: dir_def\<close>)
  then show ?thesis by (simp only: full drained.case Let_def sw_return_before w not_False_eq_True)
next
  case error
  then show ?thesis using mid_drop [OF mid] by simp
next
  case (short n)
  let ?p = "upd_pipe (other dst) (\<lambda>q. q\<lparr>sp_size := avail - n\<rparr>) p" and ?w = "sw_call (Splice_to dst n) w"
  have len: "avail = length (sw_pipe w (other dst))"
    using mid avail by (simp add: splice_mid_def dir_mid_def dir_def)
  have m: "splice_mid c0 (c\<lparr>rc_pump := Some ?p\<rparr>) ?p ?w dst"
    by (rule mid_sent_pipe [OF mid em]) (simp add: avail)
  have "sw_inv c0 (sw_return (redsplice_decide (c\<lparr>rc_pump := Some ?p\<rparr>) ?p dst True (\<not> True)) ?w)"
    by (rule decide_inv [OF m]) (use ns em len short in \<open>simp_all add: dir_def\<close>)
  then show ?thesis
    by (simp only: short drained.case Let_def sw_return_before fold.simps comp_apply id_apply not_True_eq_False)
qed

lemma write_short_inv:
  assumes mid: "splice_mid c0 c p w dst" and ns: "\<not> shut_both c" and ne: "buf_output c dst @ buf_input c (other dst) \<noteq> []"
  shows "sw_inv c0 (sw_return (redsplice_decide c p dst True False) w)"
  using decide_inv [OF mid ns, of True] ne by (auto simp: dir_def)

lemma write_cb_inv:
  assumes mid: "splice_mid c0 c p w dst" and ns: "\<not> shut_both c"
    and io: "io_ok (length (buf_output c dst)) r0" "io_ok (length (buf_input c (other dst))) r1"
      "io_ok (sp_size (pm_pipe p (other dst))) r2"
  shows "sw_inv c0 (sw_return (redsplice_write_cb c dst r0 r1 r2) w)"
proof -
  have rp: "rc_pump c = Some p" using mid by (simp add: splice_mid_def)
  note m0 = mid_sent_output [OF mid]
  from io(1) show ?thesis
  proof (cases rule: drain_cases)
    case error
    then show ?thesis using mid_drop [OF mid] by (simp add: redsplice_write_cb_def rp)
  next
    case (short n)
    have "sw_inv c0 (sw_return (redsplice_decide (drop_output n dst c) p dst True False)
        (fold sw_call (write_call dst (take n (buf_output c dst))) w))"
      unfolding fold_write_call by (rule write_short_inv [OF m0]) (use ns short in simp_all)
    then show ?thesis by (simp add: redsplice_write_cb_def rp short sw_return_before)
  next
    case full
    let ?c1 = "drop_output (length (buf_output c dst)) dst c"
    let ?w1 = "w\<lparr>sw_sent := (sw_sent w)(dst := sw_sent w dst @ buf_output c dst)\<rparr>"
    have m1: "splice_mid c0 ?c1 p ?w1 dst" using m0 [of "length (buf_output c dst)"] by simp
    note m2 = mid_sent_input [OF m1]
    from io(2) show ?thesis
    proof (cases rule: drain_cases)
      case error
      then show ?thesis
        using mid_drop [OF m1] full by (simp add: redsplice_write_cb_def rp sw_return_before fold_write_call Let_def)
    next
      case (short n)
      have "sw_inv c0 (sw_return (redsplice_decide (drop_input n (other dst) ?c1) p dst True False)
          (fold sw_call (write_call dst (take n (buf_input c (other dst)))) ?w1))"
        unfolding fold_write_call using m2 [of n] ns short by (intro write_short_inv) simp_all
      then show ?thesis using full by (simp add: redsplice_write_cb_def rp short sw_return_before fold_write_call Let_def)
    next
      case full2: full
      let ?c2 = "drop_input (length (buf_input c (other dst))) (other dst) ?c1"
      let ?w2 = "?w1\<lparr>sw_sent := (sw_sent ?w1)(dst := sw_sent ?w1 dst @ buf_input c (other dst))\<rparr>"
      have "splice_mid c0 ?c2 p ?w2 dst" using m2 [of "length (buf_input c (other dst))"] by simp
      from write_pipe_inv [OF this _ _ _ refl io(3)] ns show ?thesis
        using full full2 by (simp add: redsplice_write_cb_def rp sw_return_before fold_write_call Let_def)
    qed
  qed
qed

lemma same_view_inv:
  assumes "same_view c c'" "splice_inv c0 c w"
  shows "splice_inv c0 c' w"
  using assms by (auto simp: splice_inv_def same_view_def dir_def closed_ok_def shut_both_def)

lemma splice_invE:
  assumes "splice_inv c0 c w"
  obtains p where "rc_pump c = Some p" "nofd c" "\<not> shut_both c" "pump_fd_ok p" "closed_ok c w"
    "\<And>s. dir_ok (before c0 s) s (dir c p w s)"
  using assms by (auto simp: splice_inv_def)

lemma inv_drop:
  assumes "splice_inv c0 c w"
  shows "sw_inv c0 (sw_return (redsocks_drop_client c) w)"
  using assms
proof (rule splice_invE)
  fix p
  assume p: "rc_pump c = Some p" "nofd c" "\<not> shut_both c" "pump_fd_ok p" "closed_ok c w" "\<And>s. dir_ok (before c0 s) s (dir c p w s)"
  show ?thesis
  proof (rule drop_freed_ok [OF p(1,2,4,5)])
    fix s
    show "d_pipe (dir c p w s) = (if EV_WRITE \<in> rc_evshut c (other s) then (None, None) else (Some (Pipe_read s), Some (Pipe_write s)))"
      using dir_ok_pipe [OF p(6), of s] by simp
    show "before c0 s @ sw_received w s = sw_sent w (other s) @ d_data (dir c p w s)"
      and "sw_fin w (other s) \<Longrightarrow> d_data (dir c p w s) = []"
      using p(6) [of s] by (auto simp: dir_ok_def)
  qed
qed

lemma write_inv:
  assumes inv: "splice_inv c0 c w" and p: "rc_pump c = Some p"
    and ev: "ev_pending (pm_event p s EV_WRITE) \<or> ev_active (pm_event p s EV_WRITE)"
    and io: "io_ok (length (buf_output c s)) r0" "io_ok (length (buf_input c (other s))) r1" "io_ok (sp_size (pm_pipe p (other s))) r2"
  shows "sw_inv c0 (sw_return (redsplice_write now (clear_active s EV_WRITE c) s r0 r1 r2) w)"
proof -
  let ?c = "clear_active s EV_WRITE c" and ?p = "upd_event s EV_WRITE (\<lambda>x. x\<lparr>ev_active := False\<rparr>) p"
  obtain xs c' where t: "redsocks_touch_pump now ?c = (xs, c')" "same_view ?c c'" "\<forall>w. fold sw_call xs w = w"
    using touch_pump_view [of now ?c] by blast
  have c: "?c = c\<lparr>rc_pump := Some ?p\<rparr>" by (simp add: clear_active_def p)
  from inv have d: "nofd c" "\<not> shut_both c" "pump_fd_ok p" "closed_ok c w" "\<And>t. dir_ok (before c0 t) t (dir c p w t)"
    using p by (auto elim: splice_invE)
  have "nofd c'" "rc_pump c' = Some ?p" "rc_evshut c' = rc_evshut c" "buf_output c' = buf_output c" "buf_input c' = buf_input c"
    using t(2) d(1) by (simp_all add: same_view_def c)
  note c' = this
  have "closed_ok c' w" using d(4) c'(3) by (simp add: closed_ok_def)
  moreover have "dir_mid (before c0 (other s)) (other s) (dir c' ?p w (other s))"
    using d(5) [of "other s"] ev by (auto simp: dir_ok_def dir_mid_def dir_def c')
  moreover have "dir_ok (before c0 s) s (dir c' ?p w s)"
    using d(5) [of s] by (simp add: dir_def c')
  ultimately have "splice_mid c0 c' ?p w s"
    using d(3) c'(1,2) by (simp add: splice_mid_def pump_fd_ok_def)
  from write_cb_inv [OF this, of r0 r1 r2] io d(2) c'
  have "sw_inv c0 (sw_return (redsplice_write_cb c' s r0 r1 r2) w)" by (simp add: shut_both_def)
  then show ?thesis by (simp add: redsplice_write_def t sw_return_before)
qed

lemma read_inv:
  assumes inv: "splice_inv c0 c w" and p: "rc_pump c = Some p" and ev: "ev_pending (pm_event p s EV_READ)"
    and r: "r = Would_block \<and> sw_pipe w s \<noteq> [] \<and> bs = [] \<or> r = Io_error \<and> bs = [] \<or> r = Done (length bs)"
      "bs \<noteq> [] \<Longrightarrow> EV_READ \<notin> rc_evshut c s"
    and w': "w' = w\<lparr>sw_received := (sw_received w)(s := sw_received w s @ bs), sw_pipe := (sw_pipe w)(s := sw_pipe w s @ bs)\<rparr>"
  shows "sw_inv c0 (sw_return (redsplice_read now c s r) w')"
proof -
  obtain xs c' where t: "redsocks_touch_pump now c = (xs, c')" "same_view c c'" "\<forall>w. fold sw_call xs w = w"
    using touch_pump_view [of now c] by blast
  have inv': "splice_inv c0 c' w" by (rule same_view_inv [OF t(2) inv])
  have p': "rc_pump c' = Some p" "rc_evshut c' = rc_evshut c" using t(2) p by (simp_all add: same_view_def)
  from inv' have d: "nofd c'" "\<not> shut_both c'" "pump_fd_ok p" "closed_ok c' w" "\<And>t. dir_ok (before c0 t) t (dir c' p w t)"
    using p' by (auto elim: splice_invE)
  have wo: "EV_WRITE \<notin> rc_evshut c' (other s)"
    using d(5) [of s] ev by (auto simp: dir_ok_def dir_def)
  have "sw_inv c0 (sw_return (redsplice_read_cb c' s r) w')"
  proof -
    consider (block) "r = Would_block" "sw_pipe w s \<noteq> []" "bs = []" | (error) "r = Io_error" "bs = []"
      | (eof) "r = Done 0" "bs = []" | (data) "r = Done (length bs)" "bs \<noteq> []"
      using r(1) by (cases "bs = []") auto
    then show ?thesis
    proof cases
      case block
      let ?c = "c'\<lparr>rc_pump := Some (upd_event s EV_READ event_del p)\<rparr>"
      have "splice_inv c0 ?c w'"
        using d(1-4) d(5) [of s] d(5) [of "other s"] block wo unfolding splice_inv_def w'
        by (simp add: all_sides [of _ s] dir_def dir_ok_def pump_fd_ok_def closed_ok_def)
      then show ?thesis by (simp add: redsplice_read_cb_def p'(1) block sw_return_nil sw_inv_simps)
    next
      case error
      have "splice_inv c0 c' w'" using inv' by (simp add: splice_inv_def w' error dir_def closed_ok_def)
      from inv_drop [OF this] show ?thesis by (simp add: redsplice_read_cb_def p'(1) error)
    next
      case eof
      let ?p = "upd_event (other s) EV_WRITE event_active (upd_event s EV_READ event_del p)"
      let ?c = "c'\<lparr>rc_evshut := (rc_evshut c')(s := rc_evshut c' s \<union> {EV_READ}), rc_pump := Some ?p\<rparr>"
      have "splice_inv c0 ?c w'"
        using d(1-4) d(5) [of s] d(5) [of "other s"] eof wo unfolding splice_inv_def w'
        by (simp add: all_sides [of _ s] dir_def dir_ok_def pump_fd_ok_def closed_ok_def shut_both_eq)
      then show ?thesis
        by (simp add: redsplice_read_cb_def p'(1) eof sw_return_def sw_inv_simps)
    next
      case data
      let ?p = "upd_event (other s) EV_WRITE event_active (upd_pipe s (\<lambda>q. q\<lparr>sp_size := sp_size q + length bs\<rparr>) p)"
      have "splice_inv c0 (c'\<lparr>rc_pump := Some ?p\<rparr>) w'"
        using d(1-4) d(5) [of s] d(5) [of "other s"] data wo unfolding splice_inv_def w'
        by (simp add: all_sides [of _ s] dir_def dir_ok_def pump_fd_ok_def closed_ok_def)
      then show ?thesis
        using data by (simp add: redsplice_read_cb_def p'(1) sw_return_def sw_inv_simps)
    qed
  qed
  then show ?thesis by (simp add: redsplice_read_def t sw_return_before)
qed

lemma splice_exec_inv:
  assumes "sw_inv c0 w" "splice_exec now i w = Some w'"
  shows "sw_inv c0 w'"
proof -
  from assms obtain c p where c: "sw_object w = Live c" "rc_pump c = Some p" "splice_inv c0 c w"
    by (auto simp: splice_exec_def sw_inv_def split: rs_object.splits option.splits)
  show ?thesis
  proof (cases i)
    case (Sp_data s bs)
    with assms(2) c(1,2) show ?thesis
      by (auto simp: splice_exec_def split: if_splits intro!: read_inv [OF c(3,2)])
  next
    case (Sp_eof s)
    with assms(2) c(1,2) show ?thesis
      by (auto simp: splice_exec_def split: if_splits intro!: read_inv [OF c(3,2), where bs = "[]"])
  next
    case (Sp_full s)
    with assms(2) c(1,2) show ?thesis
      by (auto simp: splice_exec_def split: if_splits intro!: read_inv [OF c(3,2), where bs = "[]"])
  next
    case (Sp_error s)
    with assms(2) c(1,2) show ?thesis
      by (auto simp: splice_exec_def split: if_splits intro!: read_inv [OF c(3,2), where bs = "[]"])
  next
    case (Sp_write s r0 r1 r2)
    with assms(2) c(1,2) show ?thesis
      by (auto simp: splice_exec_def split: if_splits intro!: write_inv [OF c(3,2)])
  qed
qed

lemma assign_events_4:
  "pm_pipe (assign_events 4 p) = pm_pipe p"
  "pm_event (assign_events 4 p) s e = \<lparr>ev_fd = Some (Sock s), ev_pending = False, ev_active = False\<rparr>"
  by (cases s; cases e; simp add: assign_events_def event_assign_def)+

lemma map_buffev_simps [simp]:
  "rc_evshut (map_buffev f c) = rc_evshut c" "rc_pump (map_buffev f c) = rc_pump c" "rc_state (map_buffev f c) = rc_state c"
  "(\<And>b. be_output (f b) = be_output b) \<Longrightarrow> buf_output (map_buffev f c) = buf_output c"
  "(\<And>b. be_input (f b) = be_input b) \<Longrightarrow> buf_input (map_buffev f c) = buf_input c"
  by (auto simp: map_buffev_def buf_output_def buf_input_def fun_eq_iff split: option.splits)

lemma view_state [simp]:
  "buf_output (c\<lparr>rc_state := x\<rparr>) = buf_output c" "buf_input (c\<lparr>rc_state := x\<rparr>) = buf_input c"
  by (simp_all add: buf_output_def [abs_def] buf_input_def [abs_def])

lemma splice_start_inv:
  assumes "splice_ready c"
  shows "sw_inv c (splice_start c)"
proof -
  from assms obtain p where p: "rc_pump c = Some p" "\<And>s. sp_size (pm_pipe p s) = 0"
    and ev: "\<And>s. EV_WRITE \<notin> rc_evshut c s"
    by (auto simp: splice_ready_def)
  let ?c = "map_buffev (\<lambda>b. b\<lparr>be_fd := None\<rparr>)
    (map_buffev (\<lambda>b. bufferevent_disable b {EV_READ, EV_WRITE}) (c\<lparr>rc_state := pump_active\<rparr>))"
  let ?p3 = "upd_event RelaySide EV_WRITE event_active (upd_event ClientSide EV_WRITE event_active
    (assign_events 4 (open_pipe RelaySide (open_pipe ClientSide p))))"
  let ?p = "upd_event RelaySide EV_READ event_add (upd_event ClientSide EV_READ event_add ?p3)"
  have start: "redsocks_start_relay False Start_ok c = ([Fini], Live (?c\<lparr>rc_pump := Some ?p\<rparr>))"
    by (simp add: redsocks_start_relay_def redsocks_start_splicepump_def p(1) rs_before_def Let_def)
  have nf: "nofd (?c\<lparr>rc_pump := Some ?p\<rparr>)"
    by (auto simp: nofd_def map_buffev_def split: option.splits)
  have "splice_inv c (?c\<lparr>rc_pump := Some ?p\<rparr>) (splice_start c)"
    unfolding splice_inv_def
  proof (intro exI conjI)
    show "\<not> shut_both (?c\<lparr>rc_pump := Some ?p\<rparr>)" using ev by (simp add: shut_both_eq)
    show "pump_fd_ok ?p" by (simp add: pump_fd_ok_def assign_events_4)
    show "closed_ok (?c\<lparr>rc_pump := Some ?p\<rparr>) (splice_start c)"
      using ev by (simp add: closed_ok_def splice_start_def start sw_return_def)
    show "\<forall>s. dir_ok (before c s) s (dir (?c\<lparr>rc_pump := Some ?p\<rparr>) ?p (splice_start c) s)"
      using ev p(2)
      by (simp add: all_sides [of _ ClientSide] dir_ok_def dir_def splice_start_def start sw_return_def before_def
          assign_events_4 open_pipe_def bufferevent_disable_def)
  qed (use nf in simp_all)
  then show ?thesis by (simp add: sw_inv_def splice_start_def start sw_return_def)
qed

lemma splice_reach_inv: "splice_reach c w \<Longrightarrow> splice_ready c \<Longrightarrow> sw_inv c w"
  by (induction rule: splice_reach.induct) (auto intro: splice_start_inv splice_exec_inv)

section \<open>Draining\<close>

definition full_io :: "nat \<Rightarrow> io" where
  "full_io n = (if n = 0 then Would_block else Done n)"

lemma full_io [simp]: "io_ok n (full_io n)" "drain_source n (full_io n) = Dr_full"
  by (simp_all add: full_io_def io_ok_def drain_source_def)

lemma decide_evshut:
  assumes "EV_READ \<in> rc_evshut c (other dst)" "EV_WRITE \<notin> rc_evshut c dst"
    "snd (redsplice_decide c p dst False True) = Live c'"
  shows "rc_evshut c' = (rc_evshut c)(dst := insert EV_WRITE (rc_evshut c dst))"
  using assms by (auto simp: redsplice_decide_def Let_def redsplice_manage_def split: if_splits)

text \<open>A write callback that can write everything, after the end of the stream.\<close>

lemma write_all:
  assumes inv: "splice_inv c0 c w" and ob: "sw_object w = Live c"
    and eof: "EV_READ \<in> rc_evshut c (other dst)" and wo: "EV_WRITE \<notin> rc_evshut c dst"
  shows "\<exists>r0 r1 r2 w'. splice_exec now (Sp_write dst r0 r1 r2) w = Some w' \<and> sw_inv c0 w' \<and>
    (\<forall>c'. sw_object w' = Live c' \<longrightarrow> rc_evshut c' = (rc_evshut c)(dst := insert EV_WRITE (rc_evshut c dst)))"
proof -
  from inv obtain p where p: "rc_pump c = Some p" and d: "\<And>s. dir_ok (before c0 s) s (dir c p w s)"
    by (auto simp: splice_inv_def)
  have wr: "ev_pending (pm_event p dst EV_WRITE) \<or> ev_active (pm_event p dst EV_WRITE)"
    using d [of "other dst"] eof wo by (simp add: dir_ok_def dir_def)
  let ?r0 = "full_io (length (buf_output c dst))" and ?r1 = "full_io (length (buf_input c (other dst)))"
    and ?r2 = "full_io (sp_size (pm_pipe p (other dst)))"
  let ?c = "clear_active dst EV_WRITE c" and ?p = "upd_event dst EV_WRITE (\<lambda>x. x\<lparr>ev_active := False\<rparr>) p"
  let ?w = "sw_return (redsplice_write now ?c dst ?r0 ?r1 ?r2) w"
  have ex: "splice_exec now (Sp_write dst ?r0 ?r1 ?r2) w = Some ?w"
    using ob p wr by (simp add: splice_exec_def)
  obtain xs c1 where t: "redsocks_touch_pump now ?c = (xs, c1)" "same_view ?c c1" "\<forall>w. fold sw_call xs w = w"
    using touch_pump_view [of now ?c] by blast
  have c1: "rc_pump c1 = Some ?p" "rc_evshut c1 = rc_evshut c" "buf_output c1 = buf_output c" "buf_input c1 = buf_input c"
    using t(2) by (simp_all add: same_view_def clear_active_def p)
  let ?p1 = "upd_pipe (other dst) (\<lambda>q. q\<lparr>sp_size := 0\<rparr>) ?p"
  let ?c2 = "drop_input (length (buf_input c (other dst))) (other dst) (drop_output (length (buf_output c dst)) dst c1)
    \<lparr>rc_pump := Some ?p1\<rparr>"
  have "sw_object ?w = snd (redsplice_decide ?c2 ?p1 dst False True)"
    by (simp add: sw_return_def redsplice_write_def t(1) rs_before_def redsplice_write_cb_def c1 Let_def)
  then have "rc_evshut c' = (rc_evshut c)(dst := insert EV_WRITE (rc_evshut c dst))" if "sw_object ?w = Live c'" for c'
    using that decide_evshut [of ?c2 dst ?p1 c'] eof wo c1(2) by simp
  moreover have "sw_inv c0 ?w"
    using splice_exec_inv [OF _ ex] inv ob by (simp add: sw_inv_simps)
  ultimately show ?thesis using ex by blast
qed

definition is_write :: "splice_input \<Rightarrow> bool" where
  "is_write i \<longleftrightarrow> (case i of Sp_write _ _ _ _ \<Rightarrow> True | _ \<Rightarrow> False)"

lemma splice_drain:
  assumes inv: "splice_inv c0 c w" and ob: "sw_object w = Live c" and eof: "\<forall>s. EV_READ \<in> rc_evshut c s"
  shows "\<exists>is w'. splice_run now is w = Some w' \<and> sw_object w' = Freed \<and> length is \<le> 2 \<and> (\<forall>i\<in>set is. is_write i)"
proof -
  from inv eof obtain s where wo: "EV_WRITE \<notin> rc_evshut c s"
    by (auto simp: splice_inv_def shut_both_eq)
  from write_all [OF inv ob _ wo, of now] eof obtain r0 r1 r2 w1 where
    1: "splice_exec now (Sp_write s r0 r1 r2) w = Some w1" "sw_inv c0 w1"
    "\<forall>c'. sw_object w1 = Live c' \<longrightarrow> rc_evshut c' = (rc_evshut c)(s := insert EV_WRITE (rc_evshut c s))" by blast
  show ?thesis
  proof (cases "sw_object w1")
    case Freed
    with 1(1) show ?thesis
      by (intro exI [of _ "[Sp_write s r0 r1 r2]"] exI [of _ w1]) (simp add: is_write_def)
  next
    case Bad
    with 1(2) show ?thesis by (simp add: sw_inv_def)
  next
    case (Live c1)
    with 1(2,3) have inv1: "splice_inv c0 c1 w1" and ev1: "rc_evshut c1 = (rc_evshut c)(s := insert EV_WRITE (rc_evshut c s))"
      by (simp_all add: sw_inv_simps)
    have wo1: "EV_WRITE \<notin> rc_evshut c1 (other s)"
      using inv1 ev1 eof by (auto simp: splice_inv_def shut_both_eq all_sides [of _ s])
    from write_all [OF inv1 Live _ wo1, of now] eof ev1 obtain q0 q1 q2 w2 where
      2: "splice_exec now (Sp_write (other s) q0 q1 q2) w1 = Some w2" "sw_inv c0 w2"
      "\<forall>c'. sw_object w2 = Live c' \<longrightarrow> rc_evshut c' = (rc_evshut c1)(other s := insert EV_WRITE (rc_evshut c1 (other s)))"
      by auto
    have "sw_object w2 = Freed"
    proof (cases "sw_object w2")
      case (Live c2)
      with 2(2,3) ev1 eof show ?thesis by (auto simp: sw_inv_simps splice_inv_def shut_both_eq all_sides [of _ s])
    qed (use 2(2) in \<open>simp_all add: sw_inv_def\<close>)
    with 1(1) 2(1) show ?thesis
      by (intro exI [of _ "[Sp_write s r0 r1 r2, Sp_write (other s) q0 q1 q2]"] exI [of _ w2]) (simp add: is_write_def)
  qed
qed

text \<open>The splice pump keeps the same contract as the buffer pump.\<close>

lemma splice_reach_order:
  assumes "splice_ready c0" "splice_reach c0 w"
  shows "sw_object w \<noteq> Bad \<and> (\<exists>rest. before c0 s @ sw_received w s = sw_sent w (other s) @ rest)"
proof -
  have inv: "sw_inv c0 w" by (rule splice_reach_inv [OF assms(2,1)])
  show ?thesis
  proof (cases "sw_object w")
    case (Live c)
    then obtain p where "dir_ok (before c0 s) s (dir c p w s)"
      using inv by (auto simp: sw_inv_simps splice_inv_def)
    with Live show ?thesis by (auto simp: dir_ok_def)
  next
    case Freed
    with inv show ?thesis by (auto simp: sw_inv_def freed_ok_def)
  qed (use inv in \<open>simp_all add: sw_inv_def\<close>)
qed

interpretation splice_pump: relay_pump splice_ready splice_reach sw_object sw_received sw_sent
proof
  fix c w t
  assume a: "splice_ready c" "splice_reach c w"
  show "sw_object w \<noteq> Bad" using splice_reach_order [OF a] by blast
  have "rc_buffev c t \<noteq> None" "rc_buffev c (other t) \<noteq> None" using a(1) by (simp_all add: splice_ready_def)
  then have "before c (other t) = be_output (buf_of c t) @ be_input (buf_of c (other t))"
    by (auto simp: before_def buf_output_def buf_input_def buf_of_def)
  then show "\<exists>rest. be_output (buf_of c t) @ be_input (buf_of c (other t)) @ sw_received w (other t) = sw_sent w t @ rest"
    using splice_reach_order [OF a, of "other t"] by simp
qed

section \<open>Properties of the splice pump\<close>

definition splice_ex :: "byte list \<Rightarrow> redsocks_client" where
  "splice_ex pre = (pump_ex pre)\<lparr>rc_pump := Some
     \<lparr>pm_pipe = (\<lambda>_. \<lparr>sp_read = None, sp_write = None, sp_size = 0\<rparr>),
      pm_event = (\<lambda>_ _. \<lparr>ev_fd = None, ev_pending = False, ev_active = False\<rparr>)\<rparr>\<rparr>"

lemma splice_ex_ready: "splice_ready (splice_ex pre)"
  by (simp add: splice_ready_def splice_ex_def pump_ex_def)

lemma splice_run_reach: "splice_run now is w = Some w' \<Longrightarrow> splice_reach c w \<Longrightarrow> splice_reach c w'"
  by (induction "is" arbitrary: w) (auto split: option.splits intro: splice_reach_step)

lemmas splice_eval = splice_exec_def splice_start_def redsocks_start_relay_def redsocks_start_splicepump_def splice_ex_def
  pump_ex_def pump_ex_buffev_def sw_return_def rs_before_def Let_def redsplice_read_def redsplice_write_def
  redsocks_touch_pump_def bufferevent_free_unused_def redsplice_read_cb_def redsplice_write_cb_def redsplice_decide_def
  redsplice_manage_def redsocks_drop_client_def redsocks_bufferevent_free_def drop_pump_def close_opt_def shut_both_eq
  all_sides [of _ ClientSide] open_pipe_def assign_events_4 map_buffev_def bufferevent_disable_def redsocks_touch_client_def
  clear_active_def buf_output_def buf_input_def drop_output_def drop_input_def drain_source_def write_call_def io_ok_def

text \<open>The device has sent \<open>[1, 2]\<close> and closes before the pump starts to read; the answer of the server is \<open>[7]\<close>.\<close>

lemma splice_ex_run:
  "\<exists>w. splice_run 5 [Sp_eof ClientSide, Sp_write RelaySide Would_block (Done 1) Would_block,
      Sp_write RelaySide Would_block (Done 1) Would_block, Sp_data RelaySide [7],
      Sp_write ClientSide Would_block Would_block (Done 1), Sp_eof RelaySide,
      Sp_write ClientSide Would_block Would_block Would_block] (splice_start (splice_ex [1, 2])) = Some w \<and>
    sw_object w = Freed \<and> sw_fin w RelaySide"
  by (simp add: splice_eval)

text \<open>Claim C27: with \<^verbatim>\<open>splice\<close> the pump never uses a freed client. What was sent to a side is always a prefix of what it is to be sent, and
  when the sending direction is shut down everything has been sent, including what the other side had sent
  before the pump started. While the client lives, the rest is exactly what the buffers of the client and then the pipe hold, and the
  size that the pump keeps for a pipe is the number of bytes in it.\<close>

theorem splicepump_no_loss:
  assumes "splice_ready c0" "splice_reach c0 w"
  shows "sw_object w \<noteq> Bad \<and> (\<forall>s. \<exists>rest. before c0 s @ sw_received w s = sw_sent w (other s) @ rest \<and>
      (sw_fin w (other s) \<longrightarrow> rest = []) \<and>
      (\<forall>c. sw_object w = Live c \<longrightarrow> rest = buf_output c (other s) @ buf_input c s @ sw_pipe w s \<and>
        (\<exists>p. rc_pump c = Some p \<and> sp_size (pm_pipe p s) = length (sw_pipe w s))))"
proof -
  have inv: "sw_inv c0 w" by (rule splice_reach_inv [OF assms(2,1)])
  show ?thesis
  proof (cases "sw_object w")
    case (Live c)
    then obtain p where p: "rc_pump c = Some p" and d: "\<And>s. dir_ok (before c0 s) s (dir c p w s)"
      using inv by (auto simp: sw_inv_simps splice_inv_def)
    have "before c0 s @ sw_received w s = sw_sent w (other s) @ d_data (dir c p w s) \<and>
        (sw_fin w (other s) \<longrightarrow> d_data (dir c p w s) = []) \<and> sp_size (pm_pipe p s) = length (sw_pipe w s)" for s
      using d [of s] by (simp add: dir_ok_def dir_def)
    then show ?thesis using Live p by (auto simp: dir_def)
  qed (use inv in \<open>simp_all add: sw_inv_def freed_ok_def\<close>)
qed

theorem splicepump_no_loss_witness:
  "\<exists>w. splice_reach (splice_ex [1, 2]) w \<and> sw_fin w RelaySide \<and> [1, 2] @ sw_received w ClientSide = sw_sent w RelaySide"
proof -
  from splice_ex_run splice_run_reach [OF _ splice_reach_start] obtain w where
    w: "splice_reach (splice_ex [1, 2]) w" "sw_fin w RelaySide" by blast
  have "\<exists>rest. before (splice_ex [1, 2]) ClientSide @ sw_received w ClientSide = sw_sent w (other ClientSide) @ rest \<and>
      (sw_fin w (other ClientSide) \<longrightarrow> rest = [])"
    using splicepump_no_loss [OF splice_ex_ready w(1)] by blast
  then have "[1, 2] @ sw_received w ClientSide = sw_sent w RelaySide"
    using w(2) by (auto simp: before_def splice_ex_def pump_ex_def pump_ex_buffev_def buf_output_def buf_input_def)
  with w show ?thesis by blast
qed

text \<open>Claim C28: when the client has been freed, both sockets and both ends of both pipes have been closed, each of them exactly once.\<close>

theorem splicepump_closes_once:
  assumes "splice_ready c0" "splice_reach c0 w" "sw_object w = Freed"
  shows "distinct (sw_closed w) \<and> (\<forall>s. {Sock s, Pipe_read s, Pipe_write s} \<subseteq> set (sw_closed w))"
  using splice_reach_inv [OF assms(2,1)] assms(3) by (simp add: sw_inv_simps freed_ok_def)

theorem splicepump_closes_once_witness:
  "\<exists>w. splice_reach (splice_ex [1, 2]) w \<and> distinct (sw_closed w) \<and> Sock RelaySide \<in> set (sw_closed w)"
  using splice_ex_run splice_run_reach [OF _ splice_reach_start] splicepump_closes_once [OF splice_ex_ready] by blast

text \<open>Claim C29: while a direction is open, its reading side is watched or a write for it is scheduled, and when both sides have
  sent their end of stream at most two write events that can write everything free the client.\<close>

theorem splicepump_closes:
  assumes "splice_ready c0" "splice_reach c0 w" "sw_object w = Live c" "rc_pump c = Some p"
  shows "(\<forall>s. EV_WRITE \<in> rc_evshut c (other s) \<or> ev_pending (pm_event p s EV_READ) \<or>
      ev_pending (pm_event p (other s) EV_WRITE) \<or> ev_active (pm_event p (other s) EV_WRITE)) \<and>
    ((\<forall>s. EV_READ \<in> rc_evshut c s) \<longrightarrow>
      (\<exists>is w'. splice_run now is w = Some w' \<and> sw_object w' = Freed \<and> length is \<le> 2 \<and> (\<forall>i\<in>set is. is_write i)))"
proof -
  have inv: "splice_inv c0 c w"
    using splice_reach_inv [OF assms(2,1)] assms(3) by (simp add: sw_inv_simps)
  then have "dir_ok (before c0 s) s (dir c p w s)" for s
    using assms(4) by (auto simp: splice_inv_def)
  then have "EV_WRITE \<in> rc_evshut c (other s) \<or> ev_pending (pm_event p s EV_READ) \<or>
      ev_pending (pm_event p (other s) EV_WRITE) \<or> ev_active (pm_event p (other s) EV_WRITE)" for s
    by (auto simp: dir_ok_def dir_def)
  with splice_drain [OF inv assms(3)] show ?thesis by blast
qed

lemma splice_ex_half_closed:
  "\<exists>w c p. splice_run 5 [Sp_eof ClientSide, Sp_data RelaySide [7], Sp_eof RelaySide] (splice_start (splice_ex [1, 2])) = Some w \<and>
    sw_object w = Live c \<and> rc_pump c = Some p \<and> (\<forall>s. EV_READ \<in> rc_evshut c s)"
  by (simp add: splice_eval)

theorem splicepump_closes_witness:
  "\<exists>w is w'. splice_reach (splice_ex [1, 2]) w \<and> splice_run 6 is w = Some w' \<and> sw_object w' = Freed \<and> length is \<le> 2"
proof -
  from splice_ex_half_closed obtain w c p where w:
    "splice_run 5 [Sp_eof ClientSide, Sp_data RelaySide [7], Sp_eof RelaySide] (splice_start (splice_ex [1, 2])) = Some w"
    "sw_object w = Live c" "rc_pump c = Some p" "\<forall>s. EV_READ \<in> rc_evshut c s" by blast
  have "splice_reach (splice_ex [1, 2]) w" by (rule splice_run_reach [OF w(1) splice_reach_start])
  with splicepump_closes [OF splice_ex_ready this w(2,3), of 6] w(4) show ?thesis by blast
qed

end
