(* ===== verification/Red_Negotiate.thy ===== *)
theory Red_Negotiate
  imports Red_Splice
begin

text \<open>
  The negotiation with the proxy in \<^verbatim>\<open>redsocks/redsocks.c\<close>: connecting, the helpers with which a relay subsystem reads replies and
  writes messages, and the events of libevent until the pump starts. The subsystem is given by its callbacks; \<open>'p\<close> is its part of
  the client (\<^verbatim>\<open>red_payload\<close>).

  A subsystem of fixed-size replies is a machine that waits for a number of bytes, and then refuses, sends the next message or starts the
  relay. The locale \<open>fixed_reply_subsys\<close> states that the callbacks implement such a machine and proves, once for all subsystems, what
  was exchanged when the pump starts and that every good server is accepted.
\<close>

section \<open>Helpers (redsocks/redsocks.c)\<close>

definition sizes_equal :: "nat \<Rightarrow> nat \<Rightarrow> bool" where "sizes_equal a b \<longleftrightarrow> a = b"

definition sizes_greater_equal :: "nat \<Rightarrow> nat \<Rightarrow> bool" where "sizes_greater_equal a b \<longleftrightarrow> a \<ge> b"

text \<open>The bytes read and the client without them, or \<open>None\<close> when the client is to be dropped.\<close>

definition redsocks_read_expected ::
  "redsocks_client \<Rightarrow> side \<Rightarrow> (nat \<Rightarrow> nat \<Rightarrow> bool) \<Rightarrow> nat \<Rightarrow> (byte list \<times> redsocks_client) option" where
  "redsocks_read_expected c s comparator expected = (case rc_buffev c s of
     None \<Rightarrow> None
   | Some b \<Rightarrow>
       if comparator (length (be_input b)) expected
       then Some (take expected (be_input b), set_buffev s (b\<lparr>be_input := drop expected (be_input b)\<rparr>) c)
       else None)"

text \<open>\<open>mkmessage\<close> is \<open>None\<close> for \<^verbatim>\<open>NULL\<close>, and \<open>Some None\<close> when no memory is left for the message.\<close>

definition redsocks_write_helper_ex_plain ::
  "redsocks_client \<Rightarrow> byte list option option \<Rightarrow> int \<Rightarrow> nat \<Rightarrow> nat \<Rightarrow> rs_result" where
  "redsocks_write_helper_ex_plain c mkmessage st wm_low wm_high = (case rc_buffev c RelaySide of
     None \<Rightarrow> ([], Bad)
   | Some b \<Rightarrow> (case mkmessage of
       Some None \<Rightarrow> redsocks_drop_client c
     | _ \<Rightarrow>
       (let b1 = (case mkmessage of Some (Some bs) \<Rightarrow> bufferevent_write b bs | _ \<Rightarrow> b) in
        ([], Live ((set_buffev RelaySide (bufferevent_enable (b1\<lparr>be_wm_read := (wm_low, wm_high)\<rparr>) {EV_READ}) c)\<lparr>rc_state := st\<rparr>)))))"

definition redsocks_write_helper :: "redsocks_client \<Rightarrow> byte list option option \<Rightarrow> int \<Rightarrow> nat \<Rightarrow> rs_result" where
  "redsocks_write_helper c mkmessage st wm_only = redsocks_write_helper_ex_plain c mkmessage st wm_only wm_only"

text \<open>A new bufferevent of libevent, on which \<^verbatim>\<open>EV_WRITE\<close> is enabled.\<close>

definition bufferevent_new :: "side \<Rightarrow> bufferevent" where
  "bufferevent_new s =
     \<lparr>be_fd = Some (Sock s), be_input = [], be_output = [], be_wm_read = (0, 0), be_wm_write_high = 0,
      be_enabled = {EV_WRITE}, be_write_pending = False\<rparr>"

text \<open>\<open>ok\<close> tells whether \<^verbatim>\<open>red_connect_relay\<close> succeeds.\<close>

definition redsocks_connect_relay :: "bool \<Rightarrow> redsocks_client \<Rightarrow> rs_result" where
  "redsocks_connect_relay ok c =
     (if ok then ([], Live (set_buffev RelaySide (bufferevent_enable (bufferevent_new RelaySide) {EV_WRITE}) c))
      else redsocks_drop_client (c\<lparr>rc_buffev := (rc_buffev c)(RelaySide := None)\<rparr>))"

type_synonym 'p neg_result = "rs_result \<times> 'p"

text \<open>What the system answers during a callback: the time, whether memory is left for a message, and how starting the pump ends.\<close>

record rs_env =
  en_now :: nat
  en_alloc :: bool
  en_enable_error :: bool
  en_start :: start_result

type_synonym 'p neg_callback = "rs_env \<Rightarrow> redsocks_client \<times> 'p \<Rightarrow> 'p neg_result"

definition mkevbuffer :: "rs_env \<Rightarrow> byte list \<Rightarrow> byte list option" where
  "mkevbuffer e bs = (if en_alloc e then Some bs else None)"

definition redsocks_relay_connected :: "'p neg_callback \<Rightarrow> bool \<Rightarrow> 'p neg_callback" where
  "redsocks_relay_connected writecb ok e cp =
     (let c = redsocks_touch_client (en_now e) (fst cp) in
      if ok then writecb e (c, snd cp) else (redsocks_drop_client c, snd cp))"

text \<open>The client as \<^verbatim>\<open>redsocks_accept_client\<close> makes it, in the state of the subsystem's \<^verbatim>\<open>init\<close>.\<close>

definition accepted_client :: "bool \<Rightarrow> int \<Rightarrow> nat \<Rightarrow> redsocks_client" where
  "accepted_client use_splice st now =
     \<lparr>rc_buffev = (\<lambda>s. if s = ClientSide then Some (bufferevent_enable (bufferevent_new ClientSide) {EV_READ}) else None),
      rc_evshut = (\<lambda>_. {}), rc_state = st, rc_last_event = now,
      rc_pump = (if use_splice then Some
        \<lparr>pm_pipe = (\<lambda>_. \<lparr>sp_read = None, sp_write = None, sp_size = 0\<rparr>),
         pm_event = (\<lambda>_ _. \<lparr>ev_fd = None, ev_pending = False, ev_active = False\<rparr>)\<rparr> else None)\<rparr>"

section \<open>Events during the negotiation\<close>

record 'p neg_world =
  nw_object :: rs_object
  nw_payload :: 'p
  nw_received :: "byte list"
  nw_sent :: "byte list"
  nw_device :: "byte list"

datatype neg_input = Neg_reply "byte list" | Neg_written nat | Neg_client_data "byte list" | Neg_eof side | Neg_failed side

definition neg_return :: "'p neg_result \<Rightarrow> 'p neg_world \<Rightarrow> 'p neg_world" where
  "neg_return r w = w\<lparr>nw_object := snd (fst r), nw_payload := snd r\<rparr>"

text \<open>The bufferevent of the relay has the callbacks of the subsystem, that of the device has none. The read callback runs when the input has
  reached its low watermark, and no more is read than the high watermark allows.\<close>

definition neg_exec ::
  "'p neg_callback \<Rightarrow> 'p neg_callback \<Rightarrow> rs_env \<Rightarrow> neg_input \<Rightarrow> 'p neg_world \<Rightarrow> 'p neg_world option" where
  "neg_exec readcb writecb e i w = (case nw_object w of
     Live c \<Rightarrow>
       if rc_state c = pump_active then None else (case (rc_buffev c ClientSide, rc_buffev c RelaySide) of
         (Some b, Some r) \<Rightarrow> (case i of
           Neg_reply bs \<Rightarrow>
             if EV_READ \<in> be_enabled r \<and> bs \<noteq> [] \<and> length (be_input r) + length bs \<le> snd (be_wm_read r)
             then (let c1 = set_buffev RelaySide (r\<lparr>be_input := be_input r @ bs\<rparr>) c;
                       w1 = w\<lparr>nw_received := nw_received w @ bs\<rparr> in
                   if fst (be_wm_read r) \<le> length (be_input r @ bs)
                   then Some (neg_return (readcb e (c1, nw_payload w)) w1) else Some (w1\<lparr>nw_object := Live c1\<rparr>))
             else None
         | Neg_written n \<Rightarrow>
             if be_write_pending r \<and> n \<le> length (be_output r) \<and> (be_output r = [] \<or> 0 < n)
             then (let r1 = r\<lparr>be_output := drop n (be_output r)\<rparr>; w1 = w\<lparr>nw_sent := nw_sent w @ take n (be_output r)\<rparr> in
                   if be_output r1 = []
                   then Some (neg_return (writecb e (set_buffev RelaySide (r1\<lparr>be_write_pending := False\<rparr>) c, nw_payload w)) w1)
                   else Some (w1\<lparr>nw_object := Live (set_buffev RelaySide r1 c)\<rparr>))
             else None
         | Neg_client_data bs \<Rightarrow>
             if EV_READ \<in> be_enabled b
             then Some (w\<lparr>nw_object := Live (set_buffev ClientSide (b\<lparr>be_input := be_input b @ bs\<rparr>) c), nw_device := nw_device w @ bs\<rparr>)
             else None
         | Neg_eof s \<Rightarrow>
             (let x = (if s = ClientSide then b else r) in
              if EV_READ \<in> be_enabled x
              then Some (w\<lparr>nw_object := snd (redsocks_event_error (en_now e) (set_buffev s (bufferevent_disable x {EV_READ}) c) s True)\<rparr>)
              else None)
         | Neg_failed s \<Rightarrow> Some (w\<lparr>nw_object := snd (redsocks_event_error (en_now e) c s False)\<rparr>))
       | _ \<Rightarrow> None)
   | _ \<Rightarrow> None)"

text \<open>The negotiation begins when the connection to the proxy is established.\<close>

definition neg_start :: "'p neg_callback \<Rightarrow> bool \<Rightarrow> int \<Rightarrow> 'p \<Rightarrow> rs_env \<Rightarrow> 'p neg_world" where
  "neg_start writecb use_splice st p e =
     (let w = \<lparr>nw_object = Bad, nw_payload = p, nw_received = [], nw_sent = [], nw_device = []\<rparr> in
      case redsocks_connect_relay True (accepted_client use_splice st (en_now e)) of
        (_, Live c) \<Rightarrow>
          neg_return (redsocks_relay_connected writecb True e
            (set_buffev RelaySide ((buf_of c RelaySide)\<lparr>be_write_pending := False\<rparr>) c, p)) w
      | _ \<Rightarrow> w)"

inductive neg_reach :: "'p neg_callback \<Rightarrow> 'p neg_callback \<Rightarrow> 'p neg_world \<Rightarrow> 'p neg_world \<Rightarrow> bool" for readcb writecb w0 where
  neg_reach_start: "neg_reach readcb writecb w0 w0"
| neg_reach_step: "neg_reach readcb writecb w0 w \<Longrightarrow> neg_exec readcb writecb e i w = Some w' \<Longrightarrow> neg_reach readcb writecb w0 w'"

text \<open>The bytes of a server, in pieces.\<close>

fun neg_feed :: "'p neg_callback \<Rightarrow> 'p neg_callback \<Rightarrow> rs_env \<Rightarrow> byte list list \<Rightarrow> 'p neg_world \<Rightarrow> 'p neg_world option" where
  "neg_feed readcb writecb e [] w = Some w"
| "neg_feed readcb writecb e (bs # bss) w = (case neg_exec readcb writecb e (Neg_reply bs) w of
     None \<Rightarrow> None
   | Some w' \<Rightarrow> neg_feed readcb writecb e bss w')"

lemma reply_grows:
  assumes "neg_exec readcb writecb e (Neg_reply bs) w = Some w'"
  shows "length (nw_received w) < length (nw_received w')"
proof -
  obtain c b r where "nw_object w = Live c" "rc_state c \<noteq> pump_active" "rc_buffev c ClientSide = Some b" "rc_buffev c RelaySide = Some r"
    using assms by (auto simp: neg_exec_def split: rs_object.splits if_splits option.splits)
  with assms show ?thesis by (auto simp: neg_exec_def neg_return_def Let_def split: if_splits)
qed

lemma neg_feed_reach:
  "neg_feed readcb writecb e bss w = Some w' \<Longrightarrow> neg_reach readcb writecb w0 w \<Longrightarrow> neg_reach readcb writecb w0 w'"
  by (induction bss arbitrary: w) (auto split: option.splits intro: neg_reach_step)

section \<open>Machines of fixed-size replies\<close>

datatype 'q reaction = Refuse | Send "byte list option" 'q | Start

datatype 'q neg_outcome = Waiting 'q "byte list" "byte list" | Refused | Accepted "byte list" "byte list"

definition message :: "byte list option \<Rightarrow> byte list" where
  "message m = (case m of None \<Rightarrow> [] | Some bs \<Rightarrow> bs)"

fun sent_before :: "byte list \<Rightarrow> 'q neg_outcome \<Rightarrow> 'q neg_outcome" where
  "sent_before ms (Waiting q rest ms') = Waiting q rest (ms @ ms')"
| "sent_before ms Refused = Refused"
| "sent_before ms (Accepted rest ms') = Accepted rest (ms @ ms')"

text \<open>What a machine makes of a stream of bytes: the phase in which it waits with the bytes of the incomplete reply, or its end with the
  bytes after the last reply, and the messages it has sent.\<close>

function neg_run :: "('q \<Rightarrow> nat) \<Rightarrow> ('q \<Rightarrow> byte list \<Rightarrow> 'q reaction) \<Rightarrow> 'q \<Rightarrow> byte list \<Rightarrow> 'q neg_outcome" where
  "neg_run need react q xs =
     (if need q = 0 \<or> length xs < need q then Waiting q xs []
      else case react q (take (need q) xs) of
        Refuse \<Rightarrow> Refused
      | Start \<Rightarrow> Accepted (drop (need q) xs) []
      | Send m q' \<Rightarrow> sent_before (message m) (neg_run need react q' (drop (need q) xs)))"
  by pat_completeness auto
termination
  by (relation "measure (\<lambda>(need, react, q, xs). length xs)") auto

declare neg_run.simps [simp del]

lemma sent_before_nil [simp]: "sent_before [] r = r"
  by (cases r) simp_all

lemma sent_before_append: "sent_before xs (sent_before ys r) = sent_before (xs @ ys) r"
  by (cases r) simp_all

lemma neg_run_append:
  "neg_run need react q xs = Waiting q' rest ms \<Longrightarrow>
   neg_run need react q (xs @ bs) = sent_before ms (neg_run need react q' (rest @ bs))"
proof (induction need react q xs arbitrary: ms rule: neg_run.induct)
  case (1 need react q xs)
  show ?case
  proof (cases "need q = 0 \<or> length xs < need q")
    case True
    then show ?thesis using "1.prems" by (simp add: neg_run.simps [of need react q xs])
  next
    case False
    then obtain m q1 where r: "react q (take (need q) xs) = Send m q1"
      using "1.prems" by (cases "react q (take (need q) xs)") (auto simp: neg_run.simps [of need react q xs])
    obtain ms1 where w: "neg_run need react q1 (drop (need q) xs) = Waiting q' rest ms1" "ms = message m @ ms1"
      using "1.prems" False r
      by (cases "neg_run need react q1 (drop (need q) xs)") (auto simp: neg_run.simps [of need react q xs])
    from "1.IH" [OF False r w(1)] False r w(2) show ?thesis
      by (simp add: neg_run.simps [of need react q "xs @ bs"] sent_before_append)
  qed
qed

lemma neg_run_waiting:
  "neg_run need react q xs = Waiting q' rest ms \<Longrightarrow> need q' = 0 \<or> length rest < need q'"
proof (induction need react q xs arbitrary: ms rule: neg_run.induct)
  case (1 need react q xs)
  show ?case
  proof (cases "need q = 0 \<or> length xs < need q")
    case True
    then show ?thesis using "1.prems" by (auto simp: neg_run.simps [of need react q xs])
  next
    case False
    then obtain m q1 where r: "react q (take (need q) xs) = Send m q1"
      using "1.prems" by (cases "react q (take (need q) xs)") (auto simp: neg_run.simps [of need react q xs])
    obtain ms1 where w: "neg_run need react q1 (drop (need q) xs) = Waiting q' rest ms1"
      using "1.prems" False r
      by (cases "neg_run need react q1 (drop (need q) xs)") (auto simp: neg_run.simps [of need react q xs])
    from "1.IH" [OF False r w] show ?thesis .
  qed
qed

lemma sent_before_eq [simp]:
  "sent_before ms r = Refused \<longleftrightarrow> r = Refused"
  "sent_before ms r = Accepted rest out \<longleftrightarrow> (\<exists>ms'. r = Accepted rest ms' \<and> out = ms @ ms')"
  by (cases r; auto)+

text \<open>A machine that has ended does not look at further bytes.\<close>

lemma neg_run_ended:
  "neg_run need react q xs = Refused \<Longrightarrow> neg_run need react q (xs @ bs) = Refused"
  "neg_run need react q xs = Accepted rest ms \<Longrightarrow> neg_run need react q (xs @ bs) = Accepted (rest @ bs) ms"
proof (induction need react q xs arbitrary: rest ms rule: neg_run.induct)
  case (1 need react q xs)
  note s = neg_run.simps [of need react q xs] neg_run.simps [of need react q "xs @ bs"]
  { case 1
    then show ?case using "1.IH" by (auto simp: s split: if_splits reaction.splits)
  next
    case 2
    then show ?case using "1.IH" by (fastforce simp: s split: if_splits reaction.splits) }
qed

text \<open>A machine that waits has received less than \<open>left\<close> allows it.\<close>

lemma neg_run_bounded:
  assumes "\<And>q. 0 < need q" "\<And>q. need q \<le> left q"
    "\<forall>q bs m q'. length bs = need q \<longrightarrow> react q bs = Send m q' \<longrightarrow> need q + left q' \<le> left q"
    "neg_run need react q xs = Waiting q' rest ms"
  shows "length xs < left q"
  using assms
proof (induction need react q xs arbitrary: ms rule: neg_run.induct)
  case (1 need react q xs)
  show ?case
  proof (cases "length xs < need q")
    case True
    then show ?thesis using "1.prems"(2) [of q] by simp
  next
    case False
    with "1.prems"(1) [of q] have f: "\<not> (need q = 0 \<or> length xs < need q)" by simp
    then obtain m q1 where r: "react q (take (need q) xs) = Send m q1"
      using "1.prems"(4) by (cases "react q (take (need q) xs)") (auto simp: neg_run.simps [of need react q xs])
    obtain ms1 where w: "neg_run need react q1 (drop (need q) xs) = Waiting q' rest ms1"
      using "1.prems"(4) f r
      by (cases "neg_run need react q1 (drop (need q) xs)") (auto simp: neg_run.simps [of need react q xs])
    from "1.IH" [OF f r "1.prems"(1,2,3) w] have "length (drop (need q) xs) < left q1" .
    moreover have "length (take (need q) xs) = need q" using False by simp
    then have "need q + left q1 \<le> left q" using "1.prems"(3) r by blast
    ultimately show ?thesis using False by simp
  qed
qed

text \<open>A client that has received \<open>bs\<close> and lives.\<close>

definition live_with :: "(redsocks_client \<Rightarrow> bool) \<Rightarrow> byte list \<Rightarrow> 'p neg_world option \<Rightarrow> bool" where
  "live_with P bs r \<longleftrightarrow> (case r of None \<Rightarrow> False | Some w \<Rightarrow> nw_received w = bs \<and>
     (case nw_object w of Live c \<Rightarrow> P c | _ \<Rightarrow> False))"

lemma live_withE:
  assumes "live_with P bs r"
  obtains w c where "r = Some w" "nw_received w = bs" "nw_object w = Live c" "P c"
  using assms by (auto simp: live_with_def split: option.splits rs_object.splits)

section \<open>What holds during a negotiation\<close>

definition neg_ready :: "redsocks_client \<Rightarrow> bool" where
  "neg_ready c \<longleftrightarrow>
     (\<forall>s. rc_buffev c s \<noteq> None \<and> EV_WRITE \<notin> rc_evshut c s \<and> be_enabled (buf_of c s) \<inter> rc_evshut c s = {} \<and>
          (be_write_pending (buf_of c s) \<longrightarrow> EV_WRITE \<in> be_enabled (buf_of c s))) \<and>
     (\<forall>p. rc_pump c = Some p \<longrightarrow> (\<forall>s. sp_size (pm_pipe p s) = 0))"

text \<open>A client at the end of its negotiation is what both pumps start from.\<close>

lemma neg_ready_pump: "neg_ready c \<Longrightarrow> pump_ready c"
  by (auto simp: neg_ready_def pump_ready_def shut_both_eq)

lemma neg_ready_splice: "neg_ready c \<Longrightarrow> rc_pump c \<noteq> None \<Longrightarrow> splice_ready c"
  by (auto simp: neg_ready_def splice_ready_def)

definition neg_phase ::
  "('q \<Rightarrow> nat) \<Rightarrow> ('q \<Rightarrow> int \<Rightarrow> 'p \<Rightarrow> bool) \<Rightarrow> 'q \<Rightarrow> byte list \<Rightarrow> byte list \<Rightarrow> 'p neg_world \<Rightarrow> redsocks_client \<Rightarrow> bool" where
  "neg_phase need conc q rest out w c \<longleftrightarrow>
     nw_object w = Live c \<and> conc q (rc_state c) (nw_payload w) \<and> neg_ready c \<and> be_input (buf_of c RelaySide) = rest \<and>
     be_wm_read (buf_of c RelaySide) = (need q, need q) \<and>
     (EV_READ \<in> be_enabled (buf_of c RelaySide) \<or> EV_READ \<in> rc_evshut c RelaySide) \<and>
     out = nw_sent w @ be_output (buf_of c RelaySide) \<and> be_output (buf_of c ClientSide) = [] \<and>
     be_input (buf_of c ClientSide) = nw_device w"

text \<open>The relay starts: \<open>rest\<close> of what the proxy sent is left for the device.\<close>

definition neg_handover :: "byte list \<Rightarrow> byte list \<Rightarrow> 'p neg_world \<Rightarrow> redsocks_client \<Rightarrow> bool" where
  "neg_handover out rest w c0 \<longleftrightarrow> (\<exists>ee st. nw_object w = snd (redsocks_start_relay ee st c0)) \<and> neg_ready c0 \<and>
     be_input (buf_of c0 RelaySide) = rest \<and> out = nw_sent w @ be_output (buf_of c0 RelaySide) \<and>
     be_output (buf_of c0 ClientSide) = [] \<and> be_input (buf_of c0 ClientSide) = nw_device w"

abbreviation neg_started :: "byte list \<Rightarrow> 'p neg_world \<Rightarrow> redsocks_client \<Rightarrow> bool" where
  "neg_started out w c0 \<equiv> neg_handover out [] w c0"

text \<open>Of two clients that differ in the state and the time only, both are ready or none.\<close>

lemma neg_ready_cong:
  "rc_buffev c' = rc_buffev c \<Longrightarrow> rc_evshut c' = rc_evshut c \<Longrightarrow> rc_pump c' = rc_pump c \<Longrightarrow> neg_ready c' = neg_ready c"
  by (simp add: neg_ready_def buf_of_def)

lemma neg_ready_set:
  assumes "neg_ready c" "EV_READ \<in> be_enabled b \<Longrightarrow> EV_READ \<notin> rc_evshut c s" "be_write_pending b \<longrightarrow> EV_WRITE \<in> be_enabled b"
  shows "neg_ready (set_buffev s b c)"
proof -
  have "be_enabled b \<inter> rc_evshut c s = {}"
    using assms(1,2) by (auto simp: neg_ready_def) (metis ev.exhaust)
  with assms show ?thesis by (auto simp: neg_ready_def buf_of_def)
qed

lemma write_helper_live:
  assumes "rc_buffev c RelaySide = Some b" "m = None \<or> (\<exists>bs. m = Some (Some bs))"
  shows "\<exists>c'. redsocks_write_helper c m st n = ([], Live c') \<and> rc_state c' = st \<and> rc_evshut c' = rc_evshut c \<and> rc_pump c' = rc_pump c \<and>
    rc_buffev c' = (rc_buffev c)(RelaySide := Some (bufferevent_enable
      ((case m of Some (Some bs) \<Rightarrow> bufferevent_write b bs | _ \<Rightarrow> b)\<lparr>be_wm_read := (n, n)\<rparr>) {EV_READ}))"
  using assms by (auto simp: redsocks_write_helper_def redsocks_write_helper_ex_plain_def Let_def split: option.splits)

lemma neg_eof:
  assumes "rc_state c \<noteq> pump_active" "rc_buffev c s = Some b" "EV_WRITE \<notin> rc_evshut c (other s)"
  shows "\<exists>c'. snd (redsocks_event_error now c s True) = Live c' \<and> rc_state c' = rc_state c \<and> rc_pump c' = rc_pump c \<and>
    rc_evshut c' = (rc_evshut c)(s := insert EV_READ (rc_evshut c s)) \<and>
    rc_buffev c' = (rc_buffev c)(s := Some (bufferevent_disable b {EV_READ}))"
proof -
  let ?c = "set_buffev s (bufferevent_disable b {EV_READ}) (redsocks_touch_client now c)"
  let ?d = "?c\<lparr>rc_evshut := (rc_evshut ?c)(s := rc_evshut ?c s \<union> {EV_READ})\<rparr>"
  have "EV_WRITE \<notin> rc_evshut ?d (other s)" using assms(3) by simp
  then have "\<not> shut_both ?d" unfolding shut_both_eq by blast
  then have "snd (redsocks_event_error now c s True) = Live ?d"
    using assms(1,2) by (simp add: redsocks_event_error_def redsocks_shutdown_def Let_def split: option.split)
  then show ?thesis by (auto simp: fun_eq_iff)
qed

lemma start_relay_active:
  assumes "neg_ready c0" "snd (redsocks_start_relay ee st c0) = Live c"
  shows "rc_state c = pump_active"
proof (cases "rc_pump c0")
  case None
  from assms(1) obtain b r where "rc_buffev c0 ClientSide = Some b" "rc_buffev c0 RelaySide = Some r"
    by (auto simp: neg_ready_def all_sides [of _ ClientSide])
  with None assms(2) show ?thesis
    by (cases ee) (auto simp: redsocks_start_relay_def redsocks_start_bufferpump_def rs_before_def Let_def)
next
  case (Some p)
  with assms(2) show ?thesis
    by (cases st) (auto simp: redsocks_start_relay_def redsocks_start_splicepump_def rs_before_def Let_def)
qed

lemma started_not_bad:
  assumes "neg_handover out rest w c0"
  shows "nw_object w \<noteq> Bad"
proof -
  obtain ee st where o: "nw_object w = snd (redsocks_start_relay ee st c0)" and r: "neg_ready c0"
    using assms by (auto simp: neg_handover_def)
  obtain b r where br: "rc_buffev c0 ClientSide = Some b" "rc_buffev c0 RelaySide = Some r"
    using r by (auto simp: neg_ready_def all_sides [of _ ClientSide])
  show ?thesis
  proof (cases "rc_pump c0")
    case None
    with o br show ?thesis
      by (cases ee) (auto simp: redsocks_start_relay_def redsocks_start_bufferpump_def redsocks_drop_client_def rs_before_def Let_def)
  next
    case (Some p)
    with o br show ?thesis
      by (cases st) (auto simp: redsocks_start_relay_def redsocks_start_splicepump_def redsocks_drop_client_def rs_before_def Let_def)
  qed
qed

text \<open>The client that goes on living is where the pump begins.\<close>

lemma started_pump:
  assumes "neg_handover out rest w c0" "nw_object w = Live c"
  shows "rc_pump c0 = None \<longrightarrow> pump_ready c0 \<and> nw_object w = pw_object (pump_start c0)"
    "rc_pump c0 \<noteq> None \<longrightarrow> splice_ready c0 \<and> nw_object w = sw_object (splice_start c0)"
proof -
  obtain ee st where o: "snd (redsocks_start_relay ee st c0) = Live c" and r: "neg_ready c0"
    using assms by (auto simp: neg_handover_def)
  obtain b r where br: "rc_buffev c0 ClientSide = Some b" "rc_buffev c0 RelaySide = Some r"
    using r by (auto simp: neg_ready_def all_sides [of _ ClientSide])
  have "rc_pump c0 = None \<Longrightarrow> Live c = pw_object (pump_start c0)"
    using o br by (cases ee)
      (auto simp: redsocks_start_relay_def redsocks_start_bufferpump_def redsocks_drop_client_def pump_start_def rs_before_def Let_def)
  with assms(2) neg_ready_pump [OF r]
  show "rc_pump c0 = None \<longrightarrow> pump_ready c0 \<and> nw_object w = pw_object (pump_start c0)" by simp
  have "rc_pump c0 = Some p \<Longrightarrow> Live c = sw_object (splice_start c0)" for p
    using o by (cases st)
      (auto simp: redsocks_start_relay_def redsocks_start_splicepump_def redsocks_drop_client_def splice_start_def sw_return_def
        rs_before_def Let_def)
  with assms(2) neg_ready_splice [OF r]
  show "rc_pump c0 \<noteq> None \<longrightarrow> splice_ready c0 \<and> nw_object w = sw_object (splice_start c0)" by auto
qed

text \<open>A whole session: a pump that takes over from a negotiation sends the server the rest of the negotiation, then what the device sent
  during it, then what the device sends; the device gets nothing of the negotiation.\<close>

context relay_pump
begin

lemma session:
  assumes "neg_handover out rest w c0" "ready c0" "reach c0 pw"
  shows "object pw \<noteq> Bad \<and> (\<exists>later. out @ nw_device w @ received pw ClientSide = nw_sent w @ sent pw RelaySide @ later) \<and>
    (\<exists>later. rest @ received pw RelaySide = sent pw ClientSide @ later)"
  using alive [OF assms(2,3)] in_order [OF assms(2,3), of RelaySide] in_order [OF assms(2,3), of ClientSide] assms(1)
  by (auto simp: neg_handover_def)

end

text \<open>The whole session with the pump of the client.\<close>

definition relays_in_order :: "byte list \<Rightarrow> byte list \<Rightarrow> 'p neg_world \<Rightarrow> redsocks_client \<Rightarrow> bool" where
  "relays_in_order out rest w c0 \<longleftrightarrow>
     (rc_pump c0 = None \<longrightarrow> nw_object w = pw_object (pump_start c0) \<and> (\<forall>v. bpump_reach c0 v \<longrightarrow>
        (\<exists>later. out @ nw_device w @ pw_received v ClientSide = nw_sent w @ pw_sent v RelaySide @ later) \<and>
        (\<exists>later. rest @ pw_received v RelaySide = pw_sent v ClientSide @ later))) \<and>
     (rc_pump c0 \<noteq> None \<longrightarrow> nw_object w = sw_object (splice_start c0) \<and> (\<forall>v. splice_reach c0 v \<longrightarrow>
        (\<exists>later. out @ nw_device w @ sw_received v ClientSide = nw_sent w @ sw_sent v RelaySide @ later) \<and>
        (\<exists>later. rest @ sw_received v RelaySide = sw_sent v ClientSide @ later)))"

lemma started_in_order:
  assumes "neg_handover out rest w c0" "nw_object w = Live c"
  shows "relays_in_order out rest w c0"
  unfolding relays_in_order_def
  using started_pump [OF assms] buffer_pump.session [OF assms(1)] splice_pump.session [OF assms(1)] by simp

section \<open>Subsystems\<close>

locale fixed_reply_subsys =
  fixes readcb :: "'p neg_callback" and writecb :: "'p neg_callback"
    and conc :: "'q \<Rightarrow> int \<Rightarrow> 'p \<Rightarrow> bool" and need :: "'q \<Rightarrow> nat" and react :: "'q \<Rightarrow> byte list \<Rightarrow> 'q reaction"
    and st0 :: int and p0 :: 'p and st1 :: int and q0 :: 'q and hello :: "byte list"
  assumes need_pos: "0 < need q"
    and conc_state: "conc q st p \<Longrightarrow> st \<noteq> pump_active"
    and conc_start: "conc q0 st1 p0"
    and hello_sent: "rc_state c = st0 \<Longrightarrow>
      writecb e (c, p0) = (redsocks_write_helper (redsocks_touch_client (en_now e) c) (Some (mkevbuffer e hello)) st1 (need q0), p0)"
    and drained: "conc q (rc_state c) p \<Longrightarrow> rc_buffev c RelaySide = Some b \<Longrightarrow>
      \<exists>c' evs. writecb e (c, p) = (([], Live c'), p) \<and> evs \<subseteq> {EV_WRITE} \<and> rc_state c' = rc_state c \<and>
        rc_evshut c' = rc_evshut c \<and> rc_pump c' = rc_pump c \<and>
        rc_buffev c' = (rc_buffev c)(RelaySide := Some (bufferevent_disable b evs))"
    and refused: "conc q (rc_state c) p \<Longrightarrow> rc_buffev c RelaySide = Some b \<Longrightarrow> length (be_input b) = need q \<Longrightarrow>
      react q (be_input b) = Refuse \<Longrightarrow> snd (fst (readcb e (c, p))) = Freed"
    and answered: "conc q (rc_state c) p \<Longrightarrow> rc_buffev c RelaySide = Some b \<Longrightarrow> length (be_input b) = need q \<Longrightarrow>
      react q (be_input b) = Send m q' \<Longrightarrow>
      \<exists>st p'. conc q' st p' \<and> readcb e (c, p) =
        (redsocks_write_helper (set_buffev RelaySide (b\<lparr>be_input := []\<rparr>) (redsocks_touch_client (en_now e) c))
           (map_option (mkevbuffer e) m) st (need q'), p')"
    and started: "conc q (rc_state c) p \<Longrightarrow> rc_buffev c RelaySide = Some b \<Longrightarrow> length (be_input b) = need q \<Longrightarrow>
      react q (be_input b) = Start \<Longrightarrow>
      \<exists>c1. readcb e (c, p) = (redsocks_start_relay (en_enable_error e) (en_start e) c1, p) \<and> rc_evshut c1 = rc_evshut c \<and>
        rc_pump c1 = rc_pump c \<and> rc_buffev c1 = (rc_buffev c)(RelaySide := Some (b\<lparr>be_input := []\<rparr>))"
begin

definition neg_ok :: "'p neg_world \<Rightarrow> bool" where
  "neg_ok w \<longleftrightarrow> (case neg_run need react q0 (nw_received w) of
     Waiting q rest ms \<Rightarrow> nw_object w = Freed \<or> (\<exists>c. neg_phase need conc q rest (hello @ ms) w c)
   | Refused \<Rightarrow> nw_object w = Freed
   | Accepted rest ms \<Rightarrow> rest = [] \<and> (\<exists>c0. neg_started (hello @ ms) w c0))"

lemma need_neq0: "need q \<noteq> 0"
  using need_pos [of q] by simp

lemma phase_bufs:
  assumes "neg_phase need conc q rest out w c"
  obtains b r where "rc_buffev c ClientSide = Some b" "rc_buffev c RelaySide = Some r"
    "be_input r = rest" "be_wm_read r = (need q, need q)" "out = nw_sent w @ be_output r"
    "EV_READ \<in> be_enabled r \<or> EV_READ \<in> rc_evshut c RelaySide" "nw_object w = Live c"
    "conc q (rc_state c) (nw_payload w)" "neg_ready c" "rc_state c \<noteq> pump_active" "be_output b = []" "be_input b = nw_device w"
proof -
  have nr: "neg_ready c" and co: "conc q (rc_state c) (nw_payload w)" using assms by (simp_all add: neg_phase_def)
  then have "rc_buffev c ClientSide \<noteq> None" "rc_buffev c RelaySide \<noteq> None" by (simp_all add: neg_ready_def)
  then obtain b r where br: "rc_buffev c ClientSide = Some b" "rc_buffev c RelaySide = Some r" by auto
  show thesis
    by (rule that [OF br]) (use assms br nr co conc_state in \<open>auto simp: neg_phase_def buf_of_def\<close>)
qed

lemma helper_phase:
  assumes "neg_ready c" "rc_buffev c RelaySide = Some b" "EV_READ \<notin> rc_evshut c RelaySide" "be_input b = []" "conc q st p"
    "redsocks_write_helper c (map_option (mkevbuffer e) m) st (need q) = r"
    "nw_object w = snd r" "nw_payload w = p" "out = nw_sent w @ be_output b @ message m"
    "be_output (buf_of c ClientSide) = []" "be_input (buf_of c ClientSide) = nw_device w"
  shows "nw_object w = Freed \<and> \<not> en_alloc e \<or> (\<exists>c'. neg_phase need conc q [] out w c' \<and> rc_evshut c' = rc_evshut c)"
proof (cases "m = None \<or> en_alloc e")
  case True
  then have "map_option (mkevbuffer e) m = None \<or> (\<exists>bs. map_option (mkevbuffer e) m = Some (Some bs))"
    by (cases m) (auto simp: mkevbuffer_def)
  from write_helper_live [OF assms(2) this] obtain c' where
    c': "redsocks_write_helper c (map_option (mkevbuffer e) m) st (need q) = ([], Live c')" "rc_state c' = st"
      "rc_evshut c' = rc_evshut c" "rc_pump c' = rc_pump c"
      "rc_buffev c' = (rc_buffev c)(RelaySide := Some (bufferevent_enable
        ((case map_option (mkevbuffer e) m of Some (Some bs) \<Rightarrow> bufferevent_write b bs | _ \<Rightarrow> b)\<lparr>be_wm_read := (need q, need q)\<rparr>) {EV_READ}))"
    by blast
  have pend: "be_write_pending b \<longrightarrow> EV_WRITE \<in> be_enabled b"
    using assms(1,2) by (auto simp: neg_ready_def buf_of_def all_sides [of _ ClientSide])
  let ?b = "bufferevent_enable
        ((case map_option (mkevbuffer e) m of Some (Some bs) \<Rightarrow> bufferevent_write b bs | _ \<Rightarrow> b)\<lparr>be_wm_read := (need q, need q)\<rparr>) {EV_READ}"
  have b': "be_input ?b = []" "be_output ?b = be_output b @ message m" "be_wm_read ?b = (need q, need q)" "EV_READ \<in> be_enabled ?b"
    "be_write_pending ?b \<longrightarrow> EV_WRITE \<in> be_enabled ?b"
    using True assms(4) pend by (auto simp: mkevbuffer_def bufferevent_defs message_def split: option.splits)
  have "neg_ready (set_buffev RelaySide ?b c)"
    by (rule neg_ready_set [OF assms(1)]) (use assms(3) b'(5) in simp_all)
  then have "neg_ready c'"
    using neg_ready_cong [of c' "set_buffev RelaySide ?b c"] c' by simp
  with c' b' assms(5-11) show ?thesis
    by (auto simp: neg_phase_def buf_of_def)
next
  case False
  then have "r = redsocks_drop_client c"
    using assms(2,6)
    by (auto simp: redsocks_write_helper_def redsocks_write_helper_ex_plain_def mkevbuffer_def)
  with assms(7) False show ?thesis by simp
qed

lemma neg_start_ok: "neg_ok (neg_start writecb sp st0 p0 e)"
proof -
  let ?b = "(bufferevent_enable (bufferevent_new RelaySide) {EV_WRITE})\<lparr>be_write_pending := False\<rparr>"
  let ?a = "accepted_client sp st0 (en_now e)"
  let ?c = "set_buffev RelaySide ?b (set_buffev RelaySide (bufferevent_enable (bufferevent_new RelaySide) {EV_WRITE}) ?a)"
  let ?t = "redsocks_touch_client (en_now e) (redsocks_touch_client (en_now e) ?c)"
  have w: "neg_start writecb sp st0 p0 e =
      neg_return (writecb e (redsocks_touch_client (en_now e) ?c, p0))
        \<lparr>nw_object = Bad, nw_payload = p0, nw_received = [], nw_sent = [], nw_device = []\<rparr>"
    by (simp add: neg_start_def redsocks_connect_relay_def redsocks_relay_connected_def buf_of_def)
  have wr: "writecb e (redsocks_touch_client (en_now e) ?c, p0) =
      (redsocks_write_helper ?t (map_option (mkevbuffer e) (Some hello)) st1 (need q0), p0)"
    by (subst hello_sent) (simp_all add: accepted_client_def)
  have rd: "neg_ready ?t"
    by (simp add: neg_ready_def accepted_client_def buf_of_def bufferevent_enable_def bufferevent_new_def all_sides [of _ ClientSide])
  have f: "nw_object (neg_start writecb sp st0 p0 e) =
        snd (redsocks_write_helper ?t (map_option (mkevbuffer e) (Some hello)) st1 (need q0))"
      "nw_payload (neg_start writecb sp st0 p0 e) = p0" "nw_sent (neg_start writecb sp st0 p0 e) = []"
      "nw_received (neg_start writecb sp st0 p0 e) = []" "nw_device (neg_start writecb sp st0 p0 e) = []"
    unfolding w wr neg_return_def by simp_all
  have "nw_object (neg_start writecb sp st0 p0 e) = Freed \<and> \<not> en_alloc e \<or>
      (\<exists>c'. neg_phase need conc q0 [] hello (neg_start writecb sp st0 p0 e) c' \<and> rc_evshut c' = rc_evshut ?t)"
    by (rule helper_phase [OF rd _ _ _ conc_start refl f(1,2), where b = ?b])
      (simp_all add: f accepted_client_def buf_of_def bufferevent_enable_def bufferevent_new_def message_def)
  moreover have "neg_run need react q0 (nw_received (neg_start writecb sp st0 p0 e)) = Waiting q0 [] []"
    by (simp add: f neg_run.simps need_neq0)
  ultimately show ?thesis by (auto simp: neg_ok_def)
qed

text \<open>A reply of which a part or all arrives. Only a lack of memory or an answer of the server ends the negotiation.\<close>

lemma reply_step:
  assumes ph: "neg_phase need conc q rest (hello @ ms) w c" and run: "neg_run need react q0 (nw_received w) = Waiting q rest ms"
    and ex: "neg_exec readcb writecb e (Neg_reply bs) w = Some w'"
  shows "nw_received w' = nw_received w @ bs \<and> (case neg_run need react q0 (nw_received w') of
     Waiting q rest ms \<Rightarrow> nw_object w' = Freed \<and> \<not> en_alloc e \<or>
       (\<exists>c'. neg_phase need conc q rest (hello @ ms) w' c' \<and> rc_evshut c' = rc_evshut c)
   | Refused \<Rightarrow> nw_object w' = Freed
   | Accepted rest ms \<Rightarrow> rest = [] \<and> (\<exists>c0. neg_started (hello @ ms) w' c0))"
proof -
  from ph obtain b r where br: "rc_buffev c ClientSide = Some b" "rc_buffev c RelaySide = Some r"
    "be_input r = rest" "be_wm_read r = (need q, need q)" "hello @ ms = nw_sent w @ be_output r"
    "EV_READ \<in> be_enabled r \<or> EV_READ \<in> rc_evshut c RelaySide" "nw_object w = Live c"
    "conc q (rc_state c) (nw_payload w)" "neg_ready c" "rc_state c \<noteq> pump_active" "be_output b = []" "be_input b = nw_device w"
    by (rule phase_bufs)
  let ?r = "r\<lparr>be_input := rest @ bs\<rparr>" and ?w = "w\<lparr>nw_received := nw_received w @ bs\<rparr>"
  let ?c = "set_buffev RelaySide ?r c"
  have en: "EV_READ \<in> be_enabled r" and len: "length (rest @ bs) \<le> need q"
    and w': "w' = (if need q \<le> length (rest @ bs) then neg_return (readcb e (?c, nw_payload w)) ?w else ?w\<lparr>nw_object := Live ?c\<rparr>)"
    using ex br by (auto simp: neg_exec_def Let_def split: if_splits)
  have ro: "EV_READ \<notin> rc_evshut c RelaySide" using en br(2,9) by (auto simp: neg_ready_def buf_of_def all_sides [of _ ClientSide])
  have "be_write_pending r \<longrightarrow> EV_WRITE \<in> be_enabled r"
    using br(2,9) by (auto simp: neg_ready_def buf_of_def all_sides [of _ ClientSide])
  then have rdy: "neg_ready ?c" "neg_ready (set_buffev RelaySide (?r\<lparr>be_input := []\<rparr>) (redsocks_touch_client (en_now e) ?c))"
    using neg_ready_set [OF br(9), of ?r RelaySide] ro neg_ready_cong [of "redsocks_touch_client (en_now e) ?c" ?c]
    by (auto intro!: neg_ready_set)
  have rc: "nw_received w' = nw_received w @ bs" by (simp add: w' neg_return_def)
  note run' = neg_run_append [OF run, of bs]
  show ?thesis
  proof (cases "need q \<le> length (rest @ bs)")
    case False
    then have "neg_run need react q0 (nw_received w') = Waiting q (rest @ bs) ms"
      unfolding rc run' by (simp add: neg_run.simps [of need react q])
    moreover have "neg_phase need conc q (rest @ bs) (hello @ ms) w' ?c"
      using False br rdy(1) by (simp add: w' neg_phase_def buf_of_def)
    ultimately show ?thesis using rc by auto
  next
    case True
    with len have full: "length (rest @ bs) = need q" by simp
    have w'': "nw_object w' = snd (fst (readcb e (?c, nw_payload w)))" "nw_payload w' = snd (readcb e (?c, nw_payload w))"
      "nw_sent w' = nw_sent w" "nw_device w' = nw_device w" using True by (simp_all add: w' neg_return_def)
    have co: "conc q (rc_state ?c) (nw_payload w)" "rc_buffev ?c RelaySide = Some ?r" "length (be_input ?r) = need q"
      using br full by simp_all
    have rn: "neg_run need react q (rest @ bs) = (case react q (rest @ bs) of Refuse \<Rightarrow> Refused | Start \<Rightarrow> Accepted [] []
        | Send m q' \<Rightarrow> sent_before (message m) (Waiting q' [] []))"
      using full by (simp add: neg_run.simps [of need react q] neg_run.simps [of need react _ "[]"] need_neq0 split: reaction.split)
    show ?thesis
    proof (cases "react q (rest @ bs)")
      case Refuse
      then show ?thesis using refused [OF co] rn by (simp add: rc run' w'')
    next
      case (Send m q')
      then obtain st p' where a: "conc q' st p'" "readcb e (?c, nw_payload w) =
          (redsocks_write_helper (set_buffev RelaySide (?r\<lparr>be_input := []\<rparr>) (redsocks_touch_client (en_now e) ?c))
             (map_option (mkevbuffer e) m) st (need q'), p')"
        using answered [OF co, of m q' e] by auto
      have "nw_object w' = Freed \<and> \<not> en_alloc e \<or>
          (\<exists>c'. neg_phase need conc q' [] ((hello @ ms) @ message m) w' c' \<and> rc_evshut c' =
             rc_evshut (set_buffev RelaySide (?r\<lparr>be_input := []\<rparr>) (redsocks_touch_client (en_now e) ?c)))"
        by (rule helper_phase [OF rdy(2) _ _ _ a(1) refl, where b = "?r\<lparr>be_input := []\<rparr>" and e = e and m = m])
          (use ro a(2) w'' br in \<open>simp_all add: buf_of_def\<close>)
      then show ?thesis using Send rn by (simp add: rc run')
    next
      case Start
      then obtain c1 where a: "readcb e (?c, nw_payload w) = (redsocks_start_relay (en_enable_error e) (en_start e) c1, nw_payload w)"
        "rc_evshut c1 = rc_evshut ?c" "rc_pump c1 = rc_pump ?c" "rc_buffev c1 = (rc_buffev ?c)(RelaySide := Some (?r\<lparr>be_input := []\<rparr>))"
        using started [OF co, of e] by auto
      have "neg_ready c1"
        using rdy(2) neg_ready_cong [of c1 "set_buffev RelaySide (?r\<lparr>be_input := []\<rparr>) (redsocks_touch_client (en_now e) ?c)"] a by simp
      then have "neg_started (hello @ ms) w' c1"
        using a w'' br by (auto simp: neg_handover_def buf_of_def)
      then show ?thesis using Start rn by (auto simp: rc run')
    qed
  qed
qed

lemma reply_ok:
  assumes "neg_phase need conc q rest (hello @ ms) w c" "neg_run need react q0 (nw_received w) = Waiting q rest ms"
    "neg_exec readcb writecb e (Neg_reply bs) w = Some w'"
  shows "neg_ok w'"
  using reply_step [OF assms] by (auto simp: neg_ok_def split: neg_outcome.splits)

lemma live_ok:
  assumes "neg_run need react q0 (nw_received w') = Waiting q rest ms" "neg_phase need conc q rest (hello @ ms) w' c'"
  shows "neg_ok w'"
  using assms by (auto simp: neg_ok_def)

lemma written_ok:
  assumes ph: "neg_phase need conc q rest (hello @ ms) w c" and run: "neg_run need react q0 (nw_received w) = Waiting q rest ms"
    and ex: "neg_exec readcb writecb e (Neg_written n) w = Some w'"
  shows "neg_ok w'"
proof -
  from ph obtain b r where br: "rc_buffev c ClientSide = Some b" "rc_buffev c RelaySide = Some r"
    "be_input r = rest" "be_wm_read r = (need q, need q)" "hello @ ms = nw_sent w @ be_output r"
    "EV_READ \<in> be_enabled r \<or> EV_READ \<in> rc_evshut c RelaySide" "nw_object w = Live c"
    "conc q (rc_state c) (nw_payload w)" "neg_ready c" "rc_state c \<noteq> pump_active" "be_output b = []" "be_input b = nw_device w"
    by (rule phase_bufs)
  let ?r = "r\<lparr>be_output := drop n (be_output r)\<rparr>" and ?w = "w\<lparr>nw_sent := nw_sent w @ take n (be_output r)\<rparr>"
  let ?p = "?r\<lparr>be_write_pending := False\<rparr>"
  have en: "be_write_pending r" and
    w': "w' = (if drop n (be_output r) = [] then neg_return (writecb e (set_buffev RelaySide ?p c, nw_payload w)) ?w
               else ?w\<lparr>nw_object := Live (set_buffev RelaySide ?r c)\<rparr>)"
    using ex br by (auto simp: neg_exec_def Let_def split: if_splits)
  have ro: "EV_READ \<in> be_enabled r \<Longrightarrow> EV_READ \<notin> rc_evshut c RelaySide" "be_write_pending r \<longrightarrow> EV_WRITE \<in> be_enabled r"
    using br(2,9) by (auto simp: neg_ready_def buf_of_def all_sides [of _ ClientSide])
  show ?thesis
  proof (cases "drop n (be_output r) = []")
    case True
    obtain c' evs where c': "writecb e (set_buffev RelaySide ?p c, nw_payload w) = (([], Live c'), nw_payload w)" "evs \<subseteq> {EV_WRITE}"
      "rc_state c' = rc_state c" "rc_evshut c' = rc_evshut c" "rc_pump c' = rc_pump c"
      "rc_buffev c' = (rc_buffev c)(RelaySide := Some (bufferevent_disable ?p evs))"
      using drained [of q "set_buffev RelaySide ?p c" "nw_payload w" ?p e] br(8) by auto
    have "neg_ready (set_buffev RelaySide (bufferevent_disable ?p evs) c)"
      by (rule neg_ready_set [OF br(9)]) (use ro in \<open>auto simp: bufferevent_disable_def\<close>)
    then have "neg_ready c'" using neg_ready_cong [of c' "set_buffev RelaySide (bufferevent_disable ?p evs) c"] c' by simp
    moreover have "EV_READ \<notin> evs" using c'(2) by auto
    ultimately have "neg_phase need conc q rest (hello @ ms) w' c'"
      using True br c' by (auto simp: w' neg_return_def neg_phase_def buf_of_def bufferevent_disable_def)
    then show ?thesis using run by (intro live_ok) (simp_all add: w' neg_return_def)
  next
    case False
    have "neg_ready (set_buffev RelaySide ?r c)"
      by (rule neg_ready_set [OF br(9)]) (use ro in auto)
    then have "neg_phase need conc q rest (hello @ ms) w' (set_buffev RelaySide ?r c)"
      using False br by (simp add: w' neg_phase_def buf_of_def)
    then show ?thesis using run False by (intro live_ok) (simp_all add: w')
  qed
qed

lemma client_data_ok:
  assumes ph: "neg_phase need conc q rest (hello @ ms) w c" and run: "neg_run need react q0 (nw_received w) = Waiting q rest ms"
    and ex: "neg_exec readcb writecb e (Neg_client_data bs) w = Some w'"
  shows "neg_ok w'"
proof -
  from ph obtain b r where br: "rc_buffev c ClientSide = Some b" "rc_buffev c RelaySide = Some r"
    "be_input r = rest" "be_wm_read r = (need q, need q)" "hello @ ms = nw_sent w @ be_output r"
    "EV_READ \<in> be_enabled r \<or> EV_READ \<in> rc_evshut c RelaySide" "nw_object w = Live c"
    "conc q (rc_state c) (nw_payload w)" "neg_ready c" "rc_state c \<noteq> pump_active" "be_output b = []" "be_input b = nw_device w"
    by (rule phase_bufs)
  let ?b = "b\<lparr>be_input := be_input b @ bs\<rparr>"
  have w': "w' = w\<lparr>nw_object := Live (set_buffev ClientSide ?b c), nw_device := nw_device w @ bs\<rparr>"
    using ex br by (auto simp: neg_exec_def Let_def split: if_splits)
  have "neg_ready (set_buffev ClientSide ?b c)"
    by (rule neg_ready_set [OF br(9)]) (use br(1,9) in \<open>auto simp: neg_ready_def buf_of_def all_sides [of _ ClientSide]\<close>)
  then have "neg_phase need conc q rest (hello @ ms) w' (set_buffev ClientSide ?b c)"
    using br by (simp add: w' neg_phase_def buf_of_def)
  then show ?thesis using run by (intro live_ok) (simp_all add: w')
qed

lemma eof_ok:
  assumes ph: "neg_phase need conc q rest (hello @ ms) w c" and run: "neg_run need react q0 (nw_received w) = Waiting q rest ms"
    and ex: "neg_exec readcb writecb e (Neg_eof s) w = Some w'"
  shows "neg_ok w'"
proof -
  from ph obtain b r where br: "rc_buffev c ClientSide = Some b" "rc_buffev c RelaySide = Some r"
    "be_input r = rest" "be_wm_read r = (need q, need q)" "hello @ ms = nw_sent w @ be_output r"
    "EV_READ \<in> be_enabled r \<or> EV_READ \<in> rc_evshut c RelaySide" "nw_object w = Live c"
    "conc q (rc_state c) (nw_payload w)" "neg_ready c" "rc_state c \<noteq> pump_active" "be_output b = []" "be_input b = nw_device w"
    by (rule phase_bufs)
  let ?x = "if s = ClientSide then b else r"
  let ?d = "set_buffev s (bufferevent_disable ?x {EV_READ}) c"
  have x: "rc_buffev c s = Some ?x" using br(1,2) by (cases s) auto
  have w': "w' = w\<lparr>nw_object := snd (redsocks_event_error (en_now e) ?d s True)\<rparr>"
    using ex br by (auto simp: neg_exec_def Let_def split: if_splits)
  have nw: "EV_WRITE \<notin> rc_evshut c t" for t using br(9) by (simp add: neg_ready_def)
  obtain c' where c': "snd (redsocks_event_error (en_now e) ?d s True) = Live c'" "rc_state c' = rc_state c" "rc_pump c' = rc_pump c"
    "rc_evshut c' = (rc_evshut c)(s := insert EV_READ (rc_evshut c s))"
    "rc_buffev c' = (rc_buffev c)(s := Some (bufferevent_disable ?x {EV_READ}))"
    using neg_eof [of ?d s "bufferevent_disable ?x {EV_READ}" "en_now e"] br(10) nw
    by (auto simp: bufferevent_disable_def)
  have old: "be_enabled (buf_of c t) \<inter> rc_evshut c t = {}" "be_write_pending (buf_of c t) \<longrightarrow> EV_WRITE \<in> be_enabled (buf_of c t)" for t
    using br(9) by (simp_all add: neg_ready_def)
  have "neg_ready c'"
    using br(9) c' old [of s] x by (auto simp: neg_ready_def buf_of_def bufferevent_disable_def)
  then have "neg_phase need conc q rest (hello @ ms) w' c'"
    using br c' x by (cases s) (auto simp: w' neg_phase_def buf_of_def bufferevent_disable_def)
  then show ?thesis using run by (intro live_ok) (simp_all add: w')
qed

lemma neg_exec_ok:
  assumes "neg_ok w" "neg_exec readcb writecb e i w = Some w'"
  shows "neg_ok w'"
proof -
  obtain c where c: "nw_object w = Live c" "rc_state c \<noteq> pump_active"
    using assms(2) by (auto simp: neg_exec_def split: rs_object.splits if_splits)
  have "\<not> neg_started out w c0" for out c0
    unfolding neg_handover_def using c start_relay_active by metis
  then obtain q rest ms c1 where run: "neg_run need react q0 (nw_received w) = Waiting q rest ms"
    and ph: "neg_phase need conc q rest (hello @ ms) w c1"
    using assms(1) c by (auto simp: neg_ok_def split: neg_outcome.splits)
  show ?thesis
  proof (cases i)
    case (Neg_reply bs)
    then show ?thesis using reply_ok [OF ph run] assms(2) by simp
  next
    case (Neg_written n)
    then show ?thesis using written_ok [OF ph run] assms(2) by simp
  next
    case (Neg_client_data bs)
    then show ?thesis using client_data_ok [OF ph run] assms(2) by simp
  next
    case (Neg_eof s)
    then show ?thesis using eof_ok [OF ph run] assms(2) by simp
  next
    case (Neg_failed s)
    from ph obtain b r where "rc_buffev c1 ClientSide = Some b" "rc_buffev c1 RelaySide = Some r" "nw_object w = Live c1"
      by (rule phase_bufs)
    with Neg_failed assms(2) c have "w' = w\<lparr>nw_object := Freed\<rparr>"
      by (simp add: neg_exec_def redsocks_event_error_def redsocks_drop_client_def Let_def)
    with run show ?thesis by (simp add: neg_ok_def)
  qed
qed

theorem neg_reach_ok:
  assumes "neg_reach readcb writecb (neg_start writecb sp st0 p0 e) w"
  shows "neg_ok w"
  using assms by (induction rule: neg_reach.induct) (blast intro: neg_start_ok neg_exec_ok)+

text \<open>A good server: its bytes, in whatever pieces they arrive, bring the client to the start of the relay, and until then the next byte
  is always welcome.\<close>

lemma started_stuck:
  assumes "neg_started out w c0"
  shows "neg_exec readcb writecb e i w = None"
proof (cases "nw_object w")
  case (Live c)
  then have "rc_state c = pump_active"
    using assms start_relay_active unfolding neg_handover_def by metis
  with Live show ?thesis by (simp add: neg_exec_def)
qed (simp_all add: neg_exec_def)

lemma reply_welcome:
  assumes "neg_phase need conc q rest out w c" "EV_READ \<notin> rc_evshut c RelaySide" "length rest < need q"
  shows "neg_exec readcb writecb e (Neg_reply [x]) w \<noteq> None"
proof -
  from assms(1) obtain b r where "rc_buffev c ClientSide = Some b" "rc_buffev c RelaySide = Some r"
    "be_input r = rest" "be_wm_read r = (need q, need q)"
    "EV_READ \<in> be_enabled r \<or> EV_READ \<in> rc_evshut c RelaySide" "nw_object w = Live c" "rc_state c \<noteq> pump_active"
    by (rule phase_bufs)
  with assms(2,3) show ?thesis by (simp add: neg_exec_def Let_def)
qed

lemma feed_ok:
  assumes "neg_phase need conc q rest (hello @ ms) w c" "neg_run need react q0 (nw_received w) = Waiting q rest ms"
    "EV_READ \<notin> rc_evshut c RelaySide" "en_alloc e" "neg_feed readcb writecb e bss w = Some w'"
    "neg_run need react q0 (nw_received w @ concat bss @ ys) = Accepted [] out"
  shows "(ys = [] \<longrightarrow> (\<exists>c0. neg_started (hello @ out) w' c0)) \<and>
    (ys \<noteq> [] \<longrightarrow> (\<exists>c. nw_object w' = Live c) \<and> neg_exec readcb writecb e (Neg_reply [hd ys]) w' \<noteq> None)"
  using assms
proof (induction bss arbitrary: q rest ms w c)
  case Nil
  then have "ys \<noteq> []" "w' = w" by auto
  moreover have "length rest < need q" using neg_run_waiting [OF Nil(2)] need_neq0 by auto
  moreover have "nw_object w = Live c" using Nil(1) by (simp add: neg_phase_def)
  ultimately show ?case using reply_welcome [OF Nil(1,3)] by auto
next
  case (Cons bs bss)
  then obtain w1 where w1: "neg_exec readcb writecb e (Neg_reply bs) w = Some w1" "neg_feed readcb writecb e bss w1 = Some w'"
    by (auto split: option.splits)
  note st = reply_step [OF Cons.prems(1,2) w1(1)]
  have acc: "neg_run need react q0 (nw_received w1 @ concat bss @ ys) = Accepted [] out" using Cons.prems(6) st by simp
  show ?case
  proof (cases "neg_run need react q0 (nw_received w1)")
    case (Waiting q' rest' ms')
    then obtain c' where "neg_phase need conc q' rest' (hello @ ms') w1 c'" "EV_READ \<notin> rc_evshut c' RelaySide"
      using st Cons.prems(3,4) by auto
    from Cons.IH [OF this(1) Waiting this(2) Cons.prems(4) w1(2) acc] show ?thesis .
  next
    case Refused
    from neg_run_ended(1) [OF this] acc show ?thesis by simp
  next
    case (Accepted rest' ms')
    then obtain c0 where c0: "neg_started (hello @ ms') w1 c0" using st by auto
    from neg_run_ended(2) [OF Accepted] acc have "concat bss @ ys = []" "ms' = out" by simp_all
    moreover have "w' = w1" using w1(2) started_stuck [OF c0] by (cases bss) simp_all
    ultimately show ?thesis using c0 by auto
  qed
qed

lemma relay_negotiated:
  assumes "neg_reach readcb writecb (neg_start writecb sp st0 p0 e) w"
  shows "nw_object w \<noteq> Bad \<and> (\<forall>c. nw_object w = Live c \<and> rc_state c = pump_active \<longrightarrow>
    (\<exists>out c0. neg_run need react q0 (nw_received w) = Accepted [] out \<and> neg_started (hello @ out) w c0))"
proof -
  have ok: "neg_ok w" by (rule neg_reach_ok [OF assms])
  show ?thesis
  proof (cases "neg_run need react q0 (nw_received w)")
    case (Waiting q rest ms)
    with ok have "nw_object w = Freed \<or> (\<exists>c. neg_phase need conc q rest (hello @ ms) w c)" by (simp add: neg_ok_def)
    moreover have "nw_object w = Live c \<and> rc_state c \<noteq> pump_active" if "neg_phase need conc q rest (hello @ ms) w c" for c
      using that conc_state by (auto simp: neg_phase_def)
    ultimately show ?thesis by auto
  qed (use ok in \<open>auto simp: neg_ok_def dest: started_not_bad\<close>)
qed

lemma good_server:
  assumes "neg_reach readcb writecb (neg_start writecb sp st0 p0 e0) w" "nw_object w = Live c" "rc_state c \<noteq> pump_active"
    "EV_READ \<notin> rc_evshut c RelaySide" "en_alloc e" "neg_feed readcb writecb e bss w = Some w'"
    "neg_run need react q0 (nw_received w @ concat bss @ ys) = Accepted [] out"
  shows "(ys = [] \<longrightarrow> (\<exists>c0. neg_started (hello @ out) w' c0)) \<and>
    (ys \<noteq> [] \<longrightarrow> (\<exists>c. nw_object w' = Live c) \<and> neg_exec readcb writecb e (Neg_reply [hd ys]) w' \<noteq> None)"
proof -
  have "\<not> neg_started out w c0" for out c0
    unfolding neg_handover_def using assms(2,3) start_relay_active by metis
  then obtain q rest ms where "neg_run need react q0 (nw_received w) = Waiting q rest ms" "neg_phase need conc q rest (hello @ ms) w c"
    using neg_reach_ok [OF assms(1)] assms(2) by (auto simp: neg_ok_def neg_phase_def split: neg_outcome.splits)
  from feed_ok [OF this(2,1) assms(4-7)] show ?thesis .
qed

lemma negotiation_bounded:
  assumes "\<And>q. need q \<le> left q" "\<forall>q bs m q'. length bs = need q \<longrightarrow> react q bs = Send m q' \<longrightarrow> need q + left q' \<le> left q"
    "neg_reach readcb writecb (neg_start writecb sp st0 p0 e) w" "nw_object w = Live c" "rc_state c \<noteq> pump_active"
  shows "length (nw_received w) < left q0"
proof -
  have "\<not> neg_started out w c0" for out c0
    unfolding neg_handover_def using assms(4,5) start_relay_active by metis
  then obtain q rest ms where "neg_run need react q0 (nw_received w) = Waiting q rest ms"
    using neg_reach_ok [OF assms(3)] assms(4) by (auto simp: neg_ok_def split: neg_outcome.splits)
  from neg_run_bounded [OF need_pos assms(1,2) this] show ?thesis .
qed

end

end
