(* ===== verification/Red_Parser.thy ===== *)
theory Red_Parser
  imports C_Prelude
begin

text \<open>
  \<^verbatim>\<open>redsocks/parser.c\<close>: the parser of the configuration file. A C string is the list of its characters without the terminator, so a pointer
  into a string is the rest of the list. A file is the text that has not been read; of a line with a zero character only what precedes it is
  seen (\<^verbatim>\<open>strlen\<close>).
  Sections are looked up in the list of the registered ones, and their callbacks and the assignments of values are recorded as calls.

  The program reads the file line by line into a buffer that it doubles when a line does not fit, and looks for tokens in the buffer.
  The reference parser looks at the whole text at once. On a text without zero characters the program makes the calls of the reference parser on the
  complete lines of the text and ends in the same way, and a printed configuration is read back. A failing \<^verbatim>\<open>assert\<close> and a null pointer passed for a
  string to be printed are outcomes of their own.
\<close>

section \<open>Characters and numbers of the C library\<close>

definition code :: "char \<Rightarrow> nat" where "code c = of_char c"

definition isdigit :: "char \<Rightarrow> bool" where "isdigit c \<longleftrightarrow> 48 \<le> code c \<and> code c \<le> 57"

definition isalpha :: "char \<Rightarrow> bool" where
  "isalpha c \<longleftrightarrow> 65 \<le> code c \<and> code c \<le> 90 \<or> 97 \<le> code c \<and> code c \<le> 122"

definition isalnum :: "char \<Rightarrow> bool" where "isalnum c \<longleftrightarrow> isalpha c \<or> isdigit c"

definition isspace :: "char \<Rightarrow> bool" where "isspace c \<longleftrightarrow> code c = 32 \<or> 9 \<le> code c \<and> code c \<le> 13"

abbreviation newline :: char where "newline \<equiv> CHR 0x0A"
abbreviation quote :: char where "quote \<equiv> CHR 0x22"
abbreviation backslash :: char where "backslash \<equiv> CHR 0x5C"
abbreviation slash :: char where "slash \<equiv> CHR 0x2F"
abbreviation star :: char where "star \<equiv> CHR 0x2A"

text \<open>The value of a digit of a base up to 16.\<close>

definition digit_value :: "nat \<Rightarrow> char \<Rightarrow> nat option" where
  "digit_value base c =
     (let v = (if isdigit c then Some (code c - 48)
               else if 97 \<le> code c \<and> code c \<le> 102 then Some (code c - 87)
               else if 65 \<le> code c \<and> code c \<le> 70 then Some (code c - 55) else None) in
      case v of None \<Rightarrow> None | Some n \<Rightarrow> if n < base then Some n else None)"

fun strto_digits :: "nat \<Rightarrow> nat \<Rightarrow> string \<Rightarrow> nat \<times> string" where
  "strto_digits base acc [] = (acc, [])"
| "strto_digits base acc (c # cs) = (case digit_value base c of
     None \<Rightarrow> (acc, c # cs)
   | Some d \<Rightarrow> strto_digits base (acc * base + d) cs)"

text \<open>\<^verbatim>\<open>strtoul\<close> with base 0: the value and the rest. \<open>ulong_max\<close> is \<^verbatim>\<open>ULONG_MAX\<close>, to which a value that is too large is clamped.\<close>

definition strtoul :: "nat \<Rightarrow> string \<Rightarrow> nat \<times> string" where
  "strtoul ulong_max s0 =
     (let s1 = dropWhile isspace s0;
          neg = (s1 \<noteq> [] \<and> hd s1 = CHR ''-'');
          s2 = (if s1 \<noteq> [] \<and> (hd s1 = CHR ''-'' \<or> hd s1 = CHR ''+'') then tl s1 else s1);
          hex = (length s2 \<ge> 3 \<and> s2 ! 0 = CHR ''0'' \<and> (s2 ! 1 = CHR ''x'' \<or> s2 ! 1 = CHR ''X'') \<and> digit_value 16 (s2 ! 2) \<noteq> None);
          base = (if hex then 16 else if s2 \<noteq> [] \<and> hd s2 = CHR ''0'' then 8 else 10);
          s3 = (if hex then drop 2 s2 else s2) in
      if s3 = [] \<or> digit_value base (hd s3) = None then (0, s0)
      else (let (v, rest) = strto_digits base 0 s3 in
            (if v > ulong_max then ulong_max else if neg then (ulong_max + 1 - v) mod (ulong_max + 1) else v, rest)))"

section \<open>Tokens\<close>

definition unescape :: "char \<Rightarrow> char option" where
  "unescape c =
     (if c = CHR ''n'' then Some newline else if c = CHR ''t'' then Some (CHR 0x09) else if c = CHR ''r'' then Some (CHR 0x0D)
      else if c = backslash then Some backslash else if c = CHR 0x27 then Some (CHR 0x27) else if c = quote then Some quote
      else None)"

text \<open>What a scan for the end of a token finds: its length, the end of the buffer, or an error.\<close>

datatype scan = Found nat | More | Wrong

fun scan_add :: "nat \<Rightarrow> scan \<Rightarrow> scan" where
  "scan_add n (Found m) = Found (n + m)"
| "scan_add n More = More"
| "scan_add n Wrong = Wrong"

text \<open>The characters of a string with escapes, up to its closing quote.\<close>

fun count_cstr :: "string \<Rightarrow> scan" where
  "count_cstr [] = More"
| "count_cstr (c # p) =
     (if c = quote then Found 0
      else if c = backslash then (case p of
          [] \<Rightarrow> More
        | d # p' \<Rightarrow> if unescape d \<noteq> None then scan_add 1 (count_cstr p') else Wrong)
      else scan_add 1 (count_cstr p))"

fun copy_cstr :: "string \<Rightarrow> string \<times> string" where
  "copy_cstr [] = ([], [])"
| "copy_cstr (c # p) =
     (if c = quote then ([], p)
      else if c = backslash then (case p of
          [] \<Rightarrow> ([], [])
        | d # p' \<Rightarrow> (case unescape d of
              None \<Rightarrow> ([], [])
            | Some x \<Rightarrow> (let (t, r) = copy_cstr p' in (x # t, r))))
      else (let (t, r) = copy_cstr p in (c # t, r)))"

fun scan_number :: "string \<Rightarrow> scan" where
  "scan_number [] = More"
| "scan_number (c # p) =
     (if isdigit c \<or> c = CHR ''.'' then scan_add 1 (scan_number p)
      else if c = slash then (case p of
          [] \<Rightarrow> More
        | d # p' \<Rightarrow> if isdigit d then scan_add 1 (scan_number p) else if d = slash \<or> d = star then Found 0 else More)
      else Found 0)"

fun scan_word :: "string \<Rightarrow> scan" where
  "scan_word [] = More"
| "scan_word (c # p) =
     (if isalnum c \<or> c = CHR ''_'' \<or> c = CHR ''.'' \<or> c = CHR ''-'' then scan_add 1 (scan_word p) else Found 0)"

text \<open>\<^verbatim>\<open>NULL\<close> comes with an error or without, and with the position after the spaces. \<open>mem\<close> tells which sizes can be allocated.\<close>

datatype gt_result = Gt_token string string | Gt_null string | Gt_error string

definition gettoken_plain :: "(nat \<Rightarrow> bool) \<Rightarrow> string \<Rightarrow> scan \<Rightarrow> gt_result" where
  "gettoken_plain mem iter s = (case s of
     Found len \<Rightarrow> if mem (len + 1) then Gt_token (take len iter) (drop len iter) else Gt_error iter
   | More \<Rightarrow> Gt_null iter
   | Wrong \<Rightarrow> Gt_error iter)"

definition gettoken :: "(nat \<Rightarrow> bool) \<Rightarrow> string \<Rightarrow> gt_result" where
  "gettoken mem iter0 = (case dropWhile isspace iter0 of
     [] \<Rightarrow> Gt_null []
   | c # p \<Rightarrow>
       if c = quote then (case count_cstr p of
           Found len \<Rightarrow> if mem (len + 1) then Gt_token (fst (copy_cstr p)) (snd (copy_cstr p)) else Gt_error (c # p)
         | More \<Rightarrow> Gt_null (c # p)
         | Wrong \<Rightarrow> Gt_error (c # p))
       else if isdigit c then gettoken_plain mem (c # p) (scan_number (c # p))
       else if isalpha c then gettoken_plain mem (c # p) (scan_word (c # p))
       else if c \<in> {CHR ''{'', CHR ''}'', CHR ''='', CHR '';''} then gettoken_plain mem (c # p) (Found 1)
       else if c = slash \<and> p \<noteq> [] \<and> (hd p = slash \<or> hd p = star) then gettoken_plain mem (c # p) (Found 2)
       else Gt_error (c # p))"

section \<open>Values\<close>

datatype parser_type = pt_bool | pt_pchar | pt_uint16 | pt_uint32 | pt_in_addr | pt_in_addr2 | pt_disclose_src | pt_on_proxy_fail
  | pt_obsolete | pt_redsocks_max_accept_backoff

datatype disclose_src_e = DISCLOSE_NONE | DISCLOSE_X_FORWARDED_FOR | DISCLOSE_FORWARDED_IP | DISCLOSE_FORWARDED_IPPORT

datatype on_proxy_fail_e = ONFAIL_CLOSE | ONFAIL_FORWARD_HTTP_ERR

datatype cfg_value = V_bool bool | V_pchar string | V_uint16 u16 | V_uint32 u32 | V_in_addr u32 | V_in_addr2 u32 "u32 option"
  | V_disclose_src disclose_src_e | V_on_proxy_fail on_proxy_fail_e

text \<open>The system below the parser: allocation, \<^verbatim>\<open>ULONG_MAX\<close>, \<^verbatim>\<open>inet_aton\<close> and the address that \<^verbatim>\<open>getaddrinfo\<close> and the random choice
  among its results give, in host byte order.\<close>

record parser_env =
  pe_mem :: "nat \<Rightarrow> bool"
  pe_ulong_max :: nat
  pe_inet_aton :: "string \<Rightarrow> u32 option"
  pe_resolve :: "string \<Rightarrow> u32 option"

definition vp_pbool :: "string \<Rightarrow> cfg_value option" where
  "vp_pbool token =
     (if token \<in> {''ok'', ''on'', ''yes'', ''true''} then Some (V_bool True)
      else if token \<in> {''off'', ''no'', ''false''} then Some (V_bool False) else None)"

definition vp_disclose_src :: "string \<Rightarrow> cfg_value option" where
  "vp_disclose_src token = map_option V_disclose_src (map_of
     [(''off'', DISCLOSE_NONE), (''no'', DISCLOSE_NONE), (''false'', DISCLOSE_NONE),
      (''X-Forwarded-For'', DISCLOSE_X_FORWARDED_FOR), (''Forwarded_ip'', DISCLOSE_FORWARDED_IP),
      (''Forwarded_ipport'', DISCLOSE_FORWARDED_IPPORT)] token)"

definition vp_on_proxy_fail :: "string \<Rightarrow> cfg_value option" where
  "vp_on_proxy_fail token = map_option V_on_proxy_fail (map_of
     [(''close'', ONFAIL_CLOSE), (''forward_http_err'', ONFAIL_FORWARD_HTTP_ERR)] token)"

definition vp_pchar :: "parser_env \<Rightarrow> string \<Rightarrow> cfg_value option" where
  "vp_pchar e token = (if pe_mem e (length token + 1) then Some (V_pchar token) else None)"

definition vp_uint16 :: "parser_env \<Rightarrow> string \<Rightarrow> cfg_value option" where
  "vp_uint16 e token =
     (let (uli, tail) = strtoul (pe_ulong_max e) token in
      if uli > 0xFFFF then None else if tail \<noteq> [] then None else Some (V_uint16 (of_nat uli)))"

definition vp_uint32 :: "parser_env \<Rightarrow> string \<Rightarrow> cfg_value option" where
  "vp_uint32 e token =
     (let (uli, tail) = strtoul (pe_ulong_max e) token in if tail \<noteq> [] then None else Some (V_uint32 (of_nat uli)))"

definition vp_in_addr :: "parser_env \<Rightarrow> string \<Rightarrow> cfg_value option" where
  "vp_in_addr e token = (case pe_inet_aton e token of
     Some ia \<Rightarrow> Some (V_in_addr ia)
   | None \<Rightarrow> map_option V_in_addr (pe_resolve e token))"

definition vp_in_addr2 :: "parser_env \<Rightarrow> string \<Rightarrow> cfg_value option" where
  "vp_in_addr2 e token =
     (if \<not> pe_mem e (length token + 1) then None
      else (let host = takeWhile (\<lambda>c. c \<noteq> slash) token in
        case pe_inet_aton e host of
          None \<Rightarrow> None
        | Some ia \<Rightarrow>
            if slash \<notin> set token then Some (V_in_addr2 ia None)
            else (let mask = tl (dropWhile (\<lambda>c. c \<noteq> slash) token); (uli, tail) = strtoul (pe_ulong_max e) mask in
              if tail \<noteq> [] \<and> hd tail = CHR ''.'' then map_option (\<lambda>m. V_in_addr2 ia (Some m)) (pe_inet_aton e mask)
              else if 0 < uli \<and> uli < 32 then Some (V_in_addr2 ia (Some (push_bit (32 - uli) (- 1))))
              else None)))"

fun value_parser_by_type :: "parser_env \<Rightarrow> parser_type \<Rightarrow> string \<Rightarrow> cfg_value option" where
  "value_parser_by_type e pt_bool token = vp_pbool token"
| "value_parser_by_type e pt_pchar token = vp_pchar e token"
| "value_parser_by_type e pt_uint16 token = vp_uint16 e token"
| "value_parser_by_type e pt_uint32 token = vp_uint32 e token"
| "value_parser_by_type e pt_in_addr token = vp_in_addr e token"
| "value_parser_by_type e pt_in_addr2 token = vp_in_addr2 e token"
| "value_parser_by_type e pt_disclose_src token = vp_disclose_src token"
| "value_parser_by_type e pt_on_proxy_fail token = vp_on_proxy_fail token"
| "value_parser_by_type e pt_obsolete token = None"
| "value_parser_by_type e pt_redsocks_max_accept_backoff token = None"

section \<open>Sections and assignments (parser\_run)\<close>

datatype parser_call = On_enter string | On_exit string | Assign string string cfg_value

text \<open>A callback of a section is told by whether it succeeds after the calls made so far; \<open>None\<close> is \<^verbatim>\<open>NULL\<close>.\<close>

record parser_entry =
  pe_key :: string
  pe_type :: parser_type

record parser_section =
  sec_name :: string
  sec_onenter :: "(parser_call list \<Rightarrow> bool) option"
  sec_onexit :: "(parser_call list \<Rightarrow> bool) option"
  sec_entries :: "parser_entry list"

text \<open>Besides errors, the ways in which handling a token can fail: \<^verbatim>\<open>assert(false)\<close>, and a null pointer for \<^verbatim>\<open>%s\<close>.\<close>

datatype parser_failure = Assertion_failed | Null_for_string

record parser_state =
  ps_section :: "parser_section option"
  ps_section_token :: "string option"
  ps_key_token :: "string option"
  ps_value_token :: "string option"
  ps_error :: bool
  ps_failed :: "parser_failure option"
  ps_calls :: "parser_call list"

definition parser_error :: "parser_state \<Rightarrow> parser_state" where
  "parser_error s = s\<lparr>ps_error := True\<rparr>"

text \<open>After a failure nothing more is done.\<close>

definition parser_stop :: "parser_failure \<Rightarrow> parser_state \<Rightarrow> parser_state" where
  "parser_stop k s = s\<lparr>ps_error := True, ps_failed := Some k\<rparr>"

definition parser_callback :: "(parser_call list \<Rightarrow> bool) option \<Rightarrow> parser_call \<Rightarrow> parser_state \<Rightarrow> parser_state" where
  "parser_callback f call s = (case f of
     None \<Rightarrow> s
   | Some ok \<Rightarrow>
      (let s1 = s\<lparr>ps_calls := ps_calls s @ [call]\<rparr> in if ok (ps_calls s) then s1 else parser_error s1))"

definition parser_open :: "parser_section list \<Rightarrow> parser_state \<Rightarrow> parser_state" where
  "parser_open sections s =
     (if ps_section s \<noteq> None then parser_error s
      else case ps_section_token s of
        None \<Rightarrow> parser_error s
      | Some name \<Rightarrow>
         (let s1 = (case find (\<lambda>p. sec_name p = name) sections of
                Some p \<Rightarrow> parser_callback (sec_onenter p) (On_enter name) (s\<lparr>ps_section := Some p\<rparr>)
              | None \<Rightarrow> parser_error s) in
          s1\<lparr>ps_section_token := None\<rparr>))"

definition parser_close :: "parser_state \<Rightarrow> parser_state" where
  "parser_close s = (case ps_section s of
     Some p \<Rightarrow> (parser_callback (sec_onexit p) (On_exit (sec_name p)) s)\<lparr>ps_section := None\<rparr>
   | None \<Rightarrow> parser_error s)"

definition parser_equals :: "parser_state \<Rightarrow> parser_state" where
  "parser_equals s = (if ps_section s = None \<or> ps_key_token s = None then parser_error s else s)"

definition parser_assign :: "parser_env \<Rightarrow> parser_section \<Rightarrow> string \<Rightarrow> string \<Rightarrow> parser_state \<Rightarrow> parser_state" where
  "parser_assign e p key val s = (case find (\<lambda>x. pe_key x = key) (sec_entries p) of
     Some x \<Rightarrow> (case value_parser_by_type e (pe_type x) val of
         Some v \<Rightarrow> s\<lparr>ps_calls := ps_calls s @ [Assign (sec_name p) key v]\<rparr>
       | None \<Rightarrow> parser_error s)
   | None \<Rightarrow> parser_error s)"

text \<open>A terminator without a key is an \<^verbatim>\<open>assert(false)\<close>.\<close>

definition parser_terminate :: "parser_env \<Rightarrow> parser_state \<Rightarrow> parser_state" where
  "parser_terminate e s =
     (let s1 = (case ps_section s of
            None \<Rightarrow> parser_error s
          | Some p \<Rightarrow> (case (ps_key_token s, ps_value_token s) of
                (Some key, None) \<Rightarrow> parser_error s
              | (Some key, Some val) \<Rightarrow> parser_assign e p key val s
              | (None, _) \<Rightarrow> parser_stop Assertion_failed s)) in
      s1\<lparr>ps_key_token := None, ps_value_token := None\<rparr>)"

text \<open>The message about a word in the wrong place prints the key and the value.\<close>

definition parser_word :: "string \<Rightarrow> parser_state \<Rightarrow> parser_state" where
  "parser_word token s =
     (if ps_section s = None \<and> ps_section_token s = None then s\<lparr>ps_section_token := Some token\<rparr>
      else if ps_section s \<noteq> None \<and> ps_key_token s = None then s\<lparr>ps_key_token := Some token\<rparr>
      else if ps_section s \<noteq> None \<and> ps_key_token s \<noteq> None \<and> ps_value_token s = None then s\<lparr>ps_value_token := Some token\<rparr>
      else if ps_key_token s = None \<or> ps_value_token s = None then parser_stop Null_for_string s
      else parser_error s)"

definition parser_token :: "parser_env \<Rightarrow> parser_section list \<Rightarrow> string \<Rightarrow> parser_state \<Rightarrow> parser_state" where
  "parser_token e sections token s =
     (if token = ''{'' then parser_open sections s
      else if token = ''}'' then parser_close s
      else if token = ''='' then parser_equals s
      else if token = '';'' then parser_terminate e s
      else parser_word token s)"

declare count_cstr.simps(2) [simp del] copy_cstr.simps(2) [simp del] scan_number.simps(2) [simp del]

lemma cstr_quote [simp]: "count_cstr (quote # p) = Found 0" "copy_cstr (quote # p) = ([], p)"
  by (simp_all add: count_cstr.simps(2) copy_cstr.simps(2))

lemma cstr_escape:
  "count_cstr (backslash # d # p) = (if unescape d = None then Wrong else scan_add 1 (count_cstr p))"
  "unescape d = Some x \<Longrightarrow> copy_cstr (backslash # d # p) = (x # fst (copy_cstr p), snd (copy_cstr p))"
  by (simp_all add: count_cstr.simps(2) copy_cstr.simps(2) case_prod_beta)

lemma cstr_plain:
  assumes "c \<noteq> quote" "c \<noteq> backslash"
  shows "count_cstr (c # p) = scan_add 1 (count_cstr p)" "copy_cstr (c # p) = (c # fst (copy_cstr p), snd (copy_cstr p))"
  using assms by (simp_all add: count_cstr.simps(2) copy_cstr.simps(2) case_prod_beta)

text \<open>The rules of a string with escapes.\<close>

lemma cstr_induct [case_names nil quote end_escape escape plain]:
  assumes "P []" "\<And>p. P (quote # p)" "P [backslash]" "\<And>d p. P p \<Longrightarrow> P (backslash # d # p)"
    "\<And>c p. c \<noteq> quote \<Longrightarrow> c \<noteq> backslash \<Longrightarrow> P p \<Longrightarrow> P (c # p)"
  shows "P p"
proof (induction p rule: length_induct)
  case (1 p)
  show ?case
  proof (cases p)
    case (Cons c q)
    show ?thesis
    proof (cases "c = backslash")
      case True
      then show ?thesis using 1 assms(3,4) Cons by (cases q) auto
    qed (use 1 assms(2,5) Cons in \<open>cases "c = quote"; simp\<close>)
  qed (simp add: assms(1))
qed

lemma length_copy_cstr: "length (snd (copy_cstr p)) \<le> length p"
proof (induction p rule: cstr_induct)
  case end_escape
  show ?case by (simp add: copy_cstr.simps(2))
next
  case (escape d p)
  then show ?case by (cases "unescape d") (simp_all add: copy_cstr.simps(2) case_prod_beta)
qed (simp_all add: cstr_plain)

lemma scan_pos:
  "isdigit c \<Longrightarrow> scan_number (c # p) = Found n \<Longrightarrow> 0 < n"
  "isalpha c \<Longrightarrow> scan_word (c # p) = Found n \<Longrightarrow> 0 < n"
  by (cases "scan_number p"; auto simp: scan_number.simps(2)) (cases "scan_word p"; auto simp: isalnum_def)

lemma length_spaces: "length (dropWhile isspace s) \<le> length s"
  by (rule length_dropWhile_le)

lemma gettoken_plain_token:
  "gettoken_plain mem it s = Gt_token t r \<longleftrightarrow> (\<exists>n. s = Found n \<and> mem (n + 1) \<and> t = take n it \<and> r = drop n it)"
  "gettoken_plain mem it s = Gt_null r \<longleftrightarrow> s = More \<and> r = it"
  "gettoken_plain mem it s = Gt_error r \<longleftrightarrow> (s = Wrong \<or> (\<exists>n. s = Found n \<and> \<not> mem (n + 1))) \<and> r = it"
  by (auto simp: gettoken_plain_def split: scan.splits)

text \<open>A token consumes at least one character.\<close>

lemma gettoken_shorter:
  assumes "gettoken mem s = Gt_token t r"
  shows "length r < length s"
proof -
  obtain c p where cp: "dropWhile isspace s = c # p"
    using assms by (auto simp: gettoken_def split: list.splits)
  have plain: "length r < length (c # p)" if "gettoken_plain mem (c # p) x = Gt_token t r" "\<And>n. x = Found n \<Longrightarrow> 0 < n" for x
    using that by (auto simp: gettoken_plain_token)
  have "length r < length (c # p)"
  proof (cases "c = quote")
    case True
    then show ?thesis using assms length_copy_cstr [of p] by (auto simp: gettoken_def cp le_imp_less_Suc split: if_splits scan.splits)
  next
    case False
    note a = assms [unfolded gettoken_def cp list.case if_not_P [OF False]]
    show ?thesis
    proof (cases "isdigit c \<or> isalpha c")
      case True
      then show ?thesis using a scan_pos [of c p] plain [of "scan_number (c # p)"] plain [of "scan_word (c # p)"]
        by (simp del: scan_number.simps scan_word.simps split: if_splits)
    next
      case False
      then show ?thesis using a plain [of "Found 1"] plain [of "Found 2"] by (simp split: if_splits)
    qed
  qed
  with length_spaces [of s] show ?thesis unfolding cp by simp
qed

lemma gettoken_null: "gettoken mem s = Gt_null r \<or> gettoken mem s = Gt_error r \<Longrightarrow> r = dropWhile isspace s"
  by (cases "dropWhile isspace s")
    (auto simp: gettoken_def gettoken_plain_token simp del: dropWhile_eq_Nil_conv split: if_splits scan.splits)

section \<open>The loops of parser\_run\<close>

text \<open>The inner loop on the text from the position in the buffer: the state, the text it leaves in the buffer, whether more data is
  needed and whether a comment was opened; \<open>None\<close> stands for the arithmetic on a null pointer after a failed \<^verbatim>\<open>strchr\<close>.\<close>

definition skip_line :: "string \<Rightarrow> string option" where
  "skip_line iter = (case dropWhile (\<lambda>c. c \<noteq> newline) iter of [] \<Rightarrow> None | _ # r \<Rightarrow> Some r)"

lemma skip_line_shorter: "skip_line s = Some r \<Longrightarrow> length r < length s"
proof -
  assume "skip_line s = Some r"
  then obtain c where "dropWhile (\<lambda>c. c \<noteq> newline) s = c # r" by (auto simp: skip_line_def split: list.splits)
  with length_dropWhile_le [of "\<lambda>c. c \<noteq> newline" s] show ?thesis by simp
qed

function parser_tokens :: "parser_env \<Rightarrow> parser_section list \<Rightarrow> parser_state \<Rightarrow> string \<Rightarrow> (parser_state \<times> string \<times> bool \<times> bool) option" where
  "parser_tokens e sections s iter =
     (if ps_error s then Some (s, iter, False, False)
      else case gettoken (pe_mem e) iter of
        Gt_null r \<Rightarrow> Some (s, r, True, False)
      | Gt_error r \<Rightarrow> Some (parser_error s, r, True, False)
      | Gt_token token r \<Rightarrow>
          if token = ''//'' then (case skip_line r of
              None \<Rightarrow> None
            | Some r' \<Rightarrow> parser_tokens e sections s r')
          else if token = ''/*'' then Some (s, r, False, True)
          else parser_tokens e sections (parser_token e sections token s) r)"
  by pat_completeness auto
termination
  by (relation "measure (\<lambda>(e, sections, s, iter). length iter)")
    (auto dest: gettoken_shorter skip_line_shorter intro: less_trans)

declare parser_tokens.simps [simp del]

text \<open>\<^verbatim>\<open>strstr(s, "*/")\<close>: what follows the end of a comment.\<close>

fun comment_end :: "string \<Rightarrow> string option" where
  "comment_end (c # d # r) = (if c = star \<and> d = slash then Some r else comment_end (d # r))"
| "comment_end _ = None"

text \<open>\<^verbatim>\<open>fgets\<close> with room for \<open>n\<close> characters: what it reads, the rest of the file and whether the end of the file was met. \<open>fail\<close> is set if
  the file ends in a read error.\<close>

datatype fgets_result = Fg_line string string bool | Fg_eof | Fg_error

definition line_of :: "string \<Rightarrow> string" where
  "line_of file = takeWhile (\<lambda>c. c \<noteq> newline) file @ (if newline \<in> set file then [newline] else [])"

definition fgets :: "nat \<Rightarrow> bool \<Rightarrow> string \<Rightarrow> fgets_result" where
  "fgets n fail file =
     (if n \<le> 1 then Fg_line [] file False
      else (let line = line_of file in
        if newline \<in> set file \<or> n - 1 \<le> length line then Fg_line (take (n - 1) line) (drop (n - 1) line @ drop (length line) file) False
        else if fail then Fg_error
        else if line = [] then Fg_eof
        else Fg_line line [] True))"

text \<open>The context with the local variables of the outer loop. The buffer starts with 128 characters and has been doubled some times;
  \<open>pc_data\<close> are its filled characters.\<close>

record parser_context =
  pc_file :: string
  pc_fail :: bool
  pc_eof :: bool
  pc_doubled :: nat
  pc_data :: string
  pc_line :: nat
  pc_state :: parser_state
  pc_in_comment :: bool
  pc_need_more_space :: bool
  pc_need_more_data :: bool

definition buffer_size :: "parser_context \<Rightarrow> nat" where
  "buffer_size c = 128 * 2 ^ pc_doubled c"

text \<open>One round of the outer loop: what it leaves for the next, or the end.\<close>

definition parser_process :: "parser_env \<Rightarrow> parser_section list \<Rightarrow> parser_context \<Rightarrow> parser_context option" where
  "parser_process e sections c =
     (if pc_in_comment c \<and> comment_end (pc_data c) = None then Some (c\<lparr>pc_data := [], pc_need_more_data := True\<rparr>)
      else (let iter = (if pc_in_comment c then the (comment_end (pc_data c)) else pc_data c) in
        case parser_tokens e sections (pc_state c) iter of
          None \<Rightarrow> None
        | Some (s, r, need, in_comment) \<Rightarrow>
            Some (c\<lparr>pc_state := s, pc_data := r, pc_in_comment := in_comment,
                    pc_need_more_data := (pc_need_more_data c \<or> need)\<rparr>)))"

datatype read_result = Rd_process parser_context | Rd_again parser_context | Rd_fail

definition parser_grow :: "parser_env \<Rightarrow> parser_context \<Rightarrow> parser_context option" where
  "parser_grow e c =
     (if pc_need_more_space c
      then if pe_mem e (buffer_size c * 2) then Some (c\<lparr>pc_doubled := pc_doubled c + 1, pc_need_more_space := False\<rparr>) else None
      else Some c)"

text \<open>The characters that \<^verbatim>\<open>strlen\<close> counts.\<close>

definition till_zero :: "string \<Rightarrow> string" where
  "till_zero s = takeWhile (\<lambda>c. c \<noteq> CHR 0x00) s"

definition parser_read :: "parser_context \<Rightarrow> read_result" where
  "parser_read c =
     (if \<not> pc_need_more_data c then Rd_process c
      else case fgets (buffer_size c - length (pc_data c)) (pc_fail c) (pc_file c) of
        Fg_error \<Rightarrow> Rd_fail
      | Fg_eof \<Rightarrow> Rd_again (c\<lparr>pc_eof := True\<rparr>)
      | Fg_line s rest eof \<Rightarrow>
          (let len = till_zero s; c1 = c\<lparr>pc_file := rest, pc_eof := eof, pc_data := pc_data c @ len\<rparr> in
           if len \<noteq> [] \<and> last len = newline then Rd_process (c1\<lparr>pc_line := pc_line c1 + 1, pc_need_more_data := False\<rparr>)
           else Rd_again (c1\<lparr>pc_need_more_space := True\<rparr>)))"

datatype run_result = Run_done parser_state | Run_fail parser_state | Run_crash

lemma parser_tokens_rest:
  "parser_tokens e sections s iter = Some (s', r, need, ic) \<Longrightarrow>
     length r \<le> length iter \<and> (ic \<longrightarrow> length r < length iter) \<and> (need \<or> ic \<or> ps_error s')"
proof (induction e sections s iter rule: parser_tokens.induct)
  case (1 e sections s iter)
  have null: "gettoken m x = Gt_null y \<or> gettoken m x = Gt_error y \<Longrightarrow> length y \<le> length x" for m x y
    using gettoken_null [of m x y] length_spaces [of x] by simp
  show ?case
  proof (cases "gettoken (pe_mem e) iter")
    case (Gt_token t r1)
    note sh = gettoken_shorter [OF Gt_token]
    show ?thesis
    proof (cases "ps_error s \<or> t = ''/*''")
      case True
      then show ?thesis using "1.prems" Gt_token sh
        by (auto simp: parser_tokens.simps [of e sections s iter] split: if_splits option.splits)
    next
      case False
      show ?thesis
      proof (cases "t = ''//''")
        case True
        with "1.prems" Gt_token False obtain r2 where "skip_line r1 = Some r2" "parser_tokens e sections s r2 = Some (s', r, need, ic)"
          by (auto simp: parser_tokens.simps [of e sections s iter] split: option.splits)
        with "1.IH"(1) [of t r1 r2] False True Gt_token sh skip_line_shorter show ?thesis by fastforce
      next
        case f: False
        with "1.prems" Gt_token False have "parser_tokens e sections (parser_token e sections t s) r1 = Some (s', r, need, ic)"
          by (auto simp: parser_tokens.simps [of e sections s iter])
        with "1.IH"(2) [of t r1] False f Gt_token sh show ?thesis by fastforce
      qed
    qed
  qed (use "1.prems" null in \<open>auto simp: parser_tokens.simps [of e sections s iter] parser_error_def split: if_splits\<close>)
qed

lemma comment_end_shorter: "comment_end s = Some r \<Longrightarrow> length r < length s"
  by (induction s rule: comment_end.induct) (auto split: if_splits)

lemma line_of_split: "\<exists>r. f = line_of f @ r"
proof (cases "newline \<in> set f")
  case True
  then have "dropWhile (\<lambda>c. c \<noteq> newline) f = newline # tl (dropWhile (\<lambda>c. c \<noteq> newline) f)" by (induction f) auto
  then have "f = takeWhile (\<lambda>c. c \<noteq> newline) f @ newline # tl (dropWhile (\<lambda>c. c \<noteq> newline) f)"
    using takeWhile_dropWhile_id [of "\<lambda>c. c \<noteq> newline" f] by simp
  with True show ?thesis unfolding line_of_def by auto
next
  case False
  then have "line_of f = f" by (auto simp: line_of_def takeWhile_eq_all_conv)
  then show ?thesis by simp
qed

lemma line_of_no_nl: "newline \<notin> set f \<Longrightarrow> line_of f = f"
  by (auto simp: line_of_def takeWhile_eq_all_conv)

lemma line_of_eq: "line_of f @ drop (length (line_of f)) f = f"
  using line_of_split [of f] by (metis append_eq_conv_conj)

lemma fgets_line:
  assumes "fgets n fail fl = Fg_line s rest eof"
  shows "fl = s @ rest" "s = [] \<longleftrightarrow> n \<le> 1" "length s < n \<or> n = 0" "eof \<longrightarrow> rest = []" "newline \<notin> set (butlast s)"
    "eof \<longrightarrow> newline \<notin> set s" "\<not> eof \<and> 1 < n \<longrightarrow> last s = newline \<or> length s = n - 1"
proof -
  note d = assms [unfolded fgets_def Let_def]
  have e: "line_of fl @ drop (length (line_of fl)) fl = fl" by (rule line_of_eq)
  have b: "newline \<notin> set (butlast (line_of fl))"
    by (auto simp: line_of_def butlast_append dest: in_set_butlastD set_takeWhileD)
  have ln: "fl \<noteq> [] \<Longrightarrow> line_of fl \<noteq> []" by (cases fl) (auto simp: line_of_def)
  have nn: "newline \<notin> set fl \<Longrightarrow> line_of fl = fl" by (auto simp: line_of_def takeWhile_eq_all_conv)
  have ll: "newline \<in> set fl \<Longrightarrow> last (line_of fl) = newline" by (simp add: line_of_def)
  show "fl = s @ rest"
    using d e nn by (auto split: if_splits simp flip: append_assoc)
  show "s = [] \<longleftrightarrow> n \<le> 1"
    using d ln by (cases "fl = []") (auto split: if_splits)
  show "length s < n \<or> n = 0" using d by (auto split: if_splits)
  show "eof \<longrightarrow> rest = []" using d by (auto split: if_splits)
  have bt: "newline \<notin> set (butlast (take k (line_of fl)))" for k
  proof (cases "k < length (line_of fl)")
    case True
    then have "k - 1 < length (line_of fl)" by simp
    from take_butlast [OF this] True have "butlast (take k (line_of fl)) = take (k - 1) (butlast (line_of fl))"
      by (simp add: butlast_take)
    with b show ?thesis by (metis in_set_takeD)
  qed (use b in simp)
  show "newline \<notin> set (butlast s)" using d b bt by (auto split: if_splits)
  show "eof \<longrightarrow> newline \<notin> set s" using d nn by (auto split: if_splits)
  show "\<not> eof \<and> 1 < n \<longrightarrow> last s = newline \<or> length s = n - 1"
    using d ll by (auto split: if_splits)
qed

lemma till_zero_line:
  assumes "newline \<notin> set (butlast s)"
  shows "till_zero s \<noteq> [] \<and> last (till_zero s) = newline \<longleftrightarrow> s \<noteq> [] \<and> last s = newline \<and> till_zero s = s"
    "CHR 0x00 \<notin> set s \<Longrightarrow> till_zero s = s" "length (till_zero s) \<le> length s" "set (till_zero s) \<subseteq> set s"
proof -
  obtain r where r: "s = till_zero s @ r" unfolding till_zero_def by (metis takeWhile_dropWhile_id)
  have "till_zero s = s" if "till_zero s \<noteq> []" "last (till_zero s) = newline"
  proof (cases "r = []")
    case False
    then have "newline \<in> set (butlast s)" using that last_in_set [of "till_zero s"] by (subst r) (simp add: butlast_append)
    with assms show ?thesis by simp
  qed (use r in simp)
  then show "till_zero s \<noteq> [] \<and> last (till_zero s) = newline \<longleftrightarrow> s \<noteq> [] \<and> last s = newline \<and> till_zero s = s" by auto
  show "CHR 0x00 \<notin> set s \<Longrightarrow> till_zero s = s" by (auto simp: till_zero_def takeWhile_eq_all_conv)
  show "length (till_zero s) \<le> length s" by (simp add: till_zero_def length_takeWhile_le)
  show "set (till_zero s) \<subseteq> set s" by (auto simp: till_zero_def dest: set_takeWhileD)
qed

lemma till_zero_Nil [simp]: "till_zero [] = []"
  by (simp add: till_zero_def)

lemma parser_read_cases:
  assumes "parser_read c = Rd_again c2"
  shows "pc_need_more_data c2 \<and> pc_state c2 = pc_state c \<and> pc_doubled c2 = pc_doubled c \<and>
    (length (pc_file c2) + (if pc_eof c2 then 0 else 1) < length (pc_file c) + 1 \<or>
     pc_file c2 = pc_file c \<and> \<not> pc_eof c2 \<and> pc_data c2 = pc_data c \<and> pc_need_more_space c2 \<and> buffer_size c \<le> length (pc_data c) + 1)"
proof (cases "fgets (buffer_size c - length (pc_data c)) (pc_fail c) (pc_file c)")
  case (Fg_line s rest eof)
  from fgets_line(1,2) [OF Fg_line] assms Fg_line show ?thesis
    by (cases s) (auto simp: parser_read_def Let_def split: if_splits)
qed (use assms in \<open>auto simp: parser_read_def split: if_splits\<close>)

lemma parser_read_process:
  assumes "parser_read c = Rd_process c2"
  shows "\<not> pc_need_more_data c2 \<and> (\<not> pc_need_more_data c \<and> c2 = c \<or> pc_need_more_data c \<and> length (pc_file c2) < length (pc_file c))"
proof (cases "fgets (buffer_size c - length (pc_data c)) (pc_fail c) (pc_file c)")
  case (Fg_line s rest eof)
  from fgets_line(1) [OF Fg_line] assms Fg_line show ?thesis
    by (cases s) (auto simp: parser_read_def Let_def split: if_splits)
qed (use assms in \<open>auto simp: parser_read_def split: if_splits\<close>)

lemma parser_process_shorter:
  assumes "parser_process e sections c = Some c3" "\<not> pc_need_more_data c" "\<not> ps_error (pc_state c3)"
  shows "pc_file c3 = pc_file c \<and> pc_eof c3 = pc_eof c \<and> (pc_need_more_data c3 \<or> length (pc_data c3) < length (pc_data c))"
proof -
  have "length (the (comment_end (pc_data c))) < length (pc_data c)" if "comment_end (pc_data c) \<noteq> None"
    using that comment_end_shorter by auto
  with assms show ?thesis
    by (auto simp: parser_process_def Let_def split: if_splits option.splits dest!: parser_tokens_rest)
qed

definition loop_measure :: "parser_context \<Rightarrow> nat \<times> nat \<times> nat" where
  "loop_measure c =
     (length (pc_file c) + (if pc_eof c then 0 else 1), if pc_need_more_data c then 0 else 1 + length (pc_data c),
      2 * (length (pc_data c) + 2 - buffer_size c) + (if pc_need_more_space c then 0 else 1))"

abbreviation loop_less :: "(parser_context \<times> parser_context) set" where
  "loop_less \<equiv> inv_image (less_than <*lex*> less_than <*lex*> less_than) loop_measure"

lemma loop_again_less:
  assumes "\<not> pc_eof c" "parser_grow e c = Some c1" "parser_read c1 = Rd_again c2"
  shows "(c2, c) \<in> loop_less"
proof -
  have c1: "pc_file c1 = pc_file c" "pc_data c1 = pc_data c" "pc_need_more_data c1 = pc_need_more_data c"
    "pc_need_more_space c \<longrightarrow> buffer_size c1 = 2 * buffer_size c" "\<not> pc_need_more_space c \<longrightarrow> c1 = c"
    using assms(2) by (auto simp: parser_grow_def buffer_size_def split: if_splits)
  have m: "pc_need_more_data c" using assms(3) c1(3) by (auto simp: parser_read_def split: if_splits)
  have p: "0 < buffer_size c" by (simp add: buffer_size_def)
  from parser_read_cases [OF assms(3)] show ?thesis
  proof (elim conjE disjE)
    assume "length (pc_file c2) + (if pc_eof c2 then 0 else 1) < length (pc_file c1) + 1"
    then show ?thesis using assms(1) c1(1) by (simp add: loop_measure_def)
  next
    assume a: "pc_file c2 = pc_file c1" "\<not> pc_eof c2" "pc_data c2 = pc_data c1" "pc_need_more_space c2" "pc_need_more_data c2"
      "buffer_size c1 \<le> length (pc_data c1) + 1" "pc_doubled c2 = pc_doubled c1"
    have "buffer_size c2 = buffer_size c1" using a(7) by (simp add: buffer_size_def)
    with a c1 m p assms(1) show ?thesis by (cases "pc_need_more_space c") (auto simp: loop_measure_def)
  qed
qed

lemma loop_process_less:
  assumes "\<not> pc_eof c" "parser_grow e c = Some c1" "parser_read c1 = Rd_process c2" "parser_process e sections c2 = Some c3"
    "\<not> ps_error (pc_state c3)"
  shows "(c3, c) \<in> loop_less"
proof -
  have c1: "pc_file c1 = pc_file c" "pc_data c1 = pc_data c" "pc_need_more_data c1 = pc_need_more_data c" "pc_eof c1 = pc_eof c"
    using assms(2) by (auto simp: parser_grow_def split: if_splits)
  from parser_read_process [OF assms(3)] have n: "\<not> pc_need_more_data c2"
    and r: "\<not> pc_need_more_data c1 \<and> c2 = c1 \<or> length (pc_file c2) < length (pc_file c1)" by auto
  note s = parser_process_shorter [OF assms(4) n assms(5)]
  from r show ?thesis
  proof (elim conjE disjE)
    assume "length (pc_file c2) < length (pc_file c1)"
    then show ?thesis using s c1 assms(1) by (simp add: loop_measure_def)
  next
    assume "\<not> pc_need_more_data c1" "c2 = c1"
    then show ?thesis using s c1 assms(1) by (auto simp: loop_measure_def)
  qed
qed

function parser_loop :: "parser_env \<Rightarrow> parser_section list \<Rightarrow> parser_context \<Rightarrow> run_result" where
  "parser_loop e sections c =
     (if ps_error (pc_state c) \<or> pc_eof c then Run_done (pc_state c)
      else if buffer_size c \<le> length (pc_data c) then Run_crash
      else case parser_grow e c of
        None \<Rightarrow> Run_fail (pc_state c)
      | Some c1 \<Rightarrow> (case parser_read c1 of
          Rd_fail \<Rightarrow> Run_fail (pc_state c)
        | Rd_again c2 \<Rightarrow> parser_loop e sections c2
        | Rd_process c2 \<Rightarrow> (case parser_process e sections c2 of
            None \<Rightarrow> Run_crash
          | Some c3 \<Rightarrow> if ps_error (pc_state c3) then Run_done (pc_state c3) else parser_loop e sections c3)))"
  by pat_completeness auto
termination
  by (relation "inv_image loop_less (\<lambda>(e, sections, c). c)") (use loop_again_less loop_process_less in fastforce)+

declare parser_loop.simps [simp del]

definition parser_start :: "string \<Rightarrow> bool \<Rightarrow> parser_context" where
  "parser_start text fail =
     \<lparr>pc_file = text, pc_fail = fail, pc_eof = False, pc_doubled = 0, pc_data = [], pc_line = 0,
      pc_state = \<lparr>ps_section = None, ps_section_token = None, ps_key_token = None, ps_value_token = None, ps_error = False, ps_failed = None,
        ps_calls = []\<rparr>,
      pc_in_comment = False, pc_need_more_space = False, pc_need_more_data = True\<rparr>"

text \<open>Anything left open is an error.\<close>

definition parser_ok :: "parser_state \<Rightarrow> bool" where
  "parser_ok s \<longleftrightarrow> \<not> ps_error s \<and> ps_section s = None \<and> ps_section_token s = None \<and> ps_key_token s = None \<and> ps_value_token s = None"

text \<open>The outcome and the calls that were made: the parser returns, with 0 or not; it fails at a token; or it leaves its buffer or uses a
  null pointer as an address.\<close>

datatype parser_result = Returned bool "parser_call list" | Failed parser_failure "parser_call list" | Out_of_bounds

definition parser_outcome :: "parser_state \<Rightarrow> parser_result" where
  "parser_outcome s = (case ps_failed s of None \<Rightarrow> Returned (parser_ok s) (ps_calls s) | Some k \<Rightarrow> Failed k (ps_calls s))"

definition parser_run :: "parser_env \<Rightarrow> parser_section list \<Rightarrow> parser_context \<Rightarrow> parser_result" where
  "parser_run e sections c = (case parser_loop e sections c of
     Run_done s \<Rightarrow> parser_outcome s
   | Run_fail s \<Rightarrow> Returned False (ps_calls s)
   | Run_crash \<Rightarrow> Out_of_bounds)"

section \<open>The reference parser\<close>

text \<open>The same tokens, looked for in the whole text at once.\<close>

function ref_parse :: "parser_env \<Rightarrow> parser_section list \<Rightarrow> parser_state \<Rightarrow> string \<Rightarrow> parser_state" where
  "ref_parse e sections s text =
     (if ps_error s then s
      else case gettoken (pe_mem e) text of
        Gt_null r \<Rightarrow> s
      | Gt_error r \<Rightarrow> parser_error s
      | Gt_token token r \<Rightarrow>
          if token = ''//'' then (case skip_line r of None \<Rightarrow> s | Some r' \<Rightarrow> ref_parse e sections s r')
          else if token = ''/*'' then (case comment_end r of None \<Rightarrow> s | Some r' \<Rightarrow> ref_parse e sections s r')
          else ref_parse e sections (parser_token e sections token s) r)"
  by pat_completeness auto
termination
  by (relation "measure (\<lambda>(e, sections, s, text). length text)")
    (auto dest: gettoken_shorter skip_line_shorter comment_end_shorter intro: less_trans)

declare ref_parse.simps [simp del]

definition ref_from :: "parser_env \<Rightarrow> parser_section list \<Rightarrow> parser_state \<Rightarrow> bool \<Rightarrow> string \<Rightarrow> parser_state" where
  "ref_from e sections s in_comment text =
     (if in_comment then (case comment_end text of None \<Rightarrow> s | Some r \<Rightarrow> ref_parse e sections s r) else ref_parse e sections s text)"

text \<open>A line that has no newline at the end of the file is never looked at.\<close>

definition complete_lines :: "string \<Rightarrow> string" where
  "complete_lines text = rev (dropWhile (\<lambda>c. c \<noteq> newline) (rev text))"

section \<open>Tokens do not depend on what follows the line\<close>

definition ends_nl :: "string \<Rightarrow> bool" where
  "ends_nl s \<longleftrightarrow> s \<noteq> [] \<and> last s = newline"

lemma ends_nl_drop: "ends_nl s \<Longrightarrow> n < length s \<Longrightarrow> ends_nl (drop n s)"
  by (simp add: ends_nl_def)

lemma ends_nl_Nil [simp]: "\<not> ends_nl []"
  by (simp add: ends_nl_def)

lemma ends_nl_Cons: "ends_nl (c # s) \<longleftrightarrow> (s = [] \<and> c = newline) \<or> ends_nl s"
  by (auto simp: ends_nl_def)

lemma cstr_found:
  "count_cstr p = Found n \<Longrightarrow> count_cstr (p @ b) = Found n \<and>
     copy_cstr (p @ b) = (fst (copy_cstr p), snd (copy_cstr p) @ b) \<and> length (fst (copy_cstr p)) = n \<and>
     (ends_nl p \<longrightarrow> ends_nl (snd (copy_cstr p)))"
proof (induction p arbitrary: n rule: cstr_induct)
  case (escape d p)
  then obtain x m where "unescape d = Some x" "count_cstr p = Found m" "n = Suc m"
    by (cases "count_cstr p") (auto simp: cstr_escape split: if_splits)
  then show ?case using escape.IH [of m] by (auto simp: cstr_escape ends_nl_Cons ends_nl_def)
next
  case (plain c p)
  then obtain m where "count_cstr p = Found m" "n = Suc m"
    by (cases "count_cstr p") (auto simp: cstr_plain)
  then show ?case using plain by (auto simp: cstr_plain ends_nl_Cons ends_nl_def)
qed (auto simp: count_cstr.simps(2) ends_nl_Cons)

lemma cstr_wrong: "count_cstr p = Wrong \<Longrightarrow> count_cstr (p @ b) = Wrong"
proof (induction p rule: cstr_induct)
  case (escape d p)
  then show ?case by (cases "count_cstr p") (auto simp: cstr_escape split: if_splits)
next
  case (plain c p)
  then show ?case by (cases "count_cstr p") (auto simp: cstr_plain)
qed (auto simp: count_cstr.simps(2))

lemma scan_word_found: "scan_word p = Found n \<Longrightarrow> scan_word (p @ b) = Found n \<and> n < length p"
proof (induction p arbitrary: n)
  case (Cons c p)
  then show ?case by (cases "scan_word p") (auto split: if_splits)
qed simp

lemma scan_number_found: "scan_number p = Found n \<Longrightarrow> scan_number (p @ b) = Found n \<and> n < length p"
proof (induction p arbitrary: n)
  case (Cons c p)
  show ?case
  proof (cases p)
    case Nil
    then show ?thesis using Cons.prems by (auto simp: scan_number.simps(2) split: if_splits)
  next
    case (Cons d q)
    then show ?thesis using Cons.prems Cons.IH
      by (cases "scan_number p") (auto simp: scan_number.simps(2) [of c] split: if_splits)
  qed
qed simp

lemma scan_not_wrong [simp]: "scan_word p \<noteq> Wrong" "scan_number p \<noteq> Wrong"
proof -
  show "scan_word p \<noteq> Wrong"
  proof (induction p)
    case (Cons c p)
    then show ?case by (cases "scan_word p") auto
  qed simp
  show "scan_number p \<noteq> Wrong"
  proof (induction p)
    case (Cons c p)
    then show ?case by (cases "scan_number p") (auto simp: scan_number.simps(2) split: list.split)
  qed simp
qed

lemma gettoken_spaces: "gettoken mem (a @ b) = gettoken mem (dropWhile isspace a @ b)"
proof -
  have "dropWhile isspace (a @ b) = dropWhile isspace (dropWhile isspace a @ b)" by (induction a) auto
  then show ?thesis unfolding gettoken_def by (rule arg_cong)
qed

lemma isspace_newline: "isspace newline"
  by (simp add: isspace_def code_def)

lemma ends_nl_spaces: "ends_nl s \<Longrightarrow> dropWhile isspace s = [] \<or> ends_nl (dropWhile isspace s)"
  by (induction s) (auto simp: ends_nl_Cons)

text \<open>What is found in a complete line is found when more text follows, too.\<close>

definition plain_scan :: "char \<Rightarrow> string \<Rightarrow> scan" where
  "plain_scan c p =
     (if isdigit c then scan_number (c # p)
      else if isalpha c then scan_word (c # p)
      else if c \<in> {CHR ''{'', CHR ''}'', CHR ''='', CHR '';''} then Found 1
      else if c = slash \<and> p \<noteq> [] \<and> (hd p = slash \<or> hd p = star) then Found 2
      else Wrong)"

lemma gettoken_plain_scan:
  "dropWhile isspace s = c # p \<Longrightarrow> c \<noteq> quote \<Longrightarrow> gettoken mem s = gettoken_plain mem (c # p) (plain_scan c p)"
  by (auto simp: gettoken_def plain_scan_def gettoken_plain_def [of _ _ Wrong] simp del: scan_word.simps)

lemma plain_scan_stable:
  assumes "ends_nl (c # p)" "\<not> isspace c"
  shows "plain_scan c p = Found n \<Longrightarrow> plain_scan c (p @ b) = Found n \<and> n < length (c # p)"
    "plain_scan c p = Wrong \<Longrightarrow> plain_scan c (p @ b) = Wrong"
proof -
  have p: "p \<noteq> []" "0 < length p" using assms isspace_newline by (auto simp: ends_nl_Cons)
  have l: "c = slash \<Longrightarrow> hd p = slash \<or> hd p = star \<Longrightarrow> 1 < length p"
    using assms p by (cases p) (auto simp: ends_nl_Cons ends_nl_def)
  show "plain_scan c (p @ b) = Found n \<and> n < length (c # p)" if "plain_scan c p = Found n"
    using that p l scan_number_found [of "c # p" n b] scan_word_found [of "c # p" n b]
    by (auto simp: plain_scan_def simp del: scan_word.simps split: if_splits)
  show "plain_scan c (p @ b) = Wrong" if "plain_scan c p = Wrong"
    using that p by (auto simp: plain_scan_def simp del: scan_word.simps split: if_splits)
qed

lemma gettoken_stable:
  assumes "ends_nl a"
  shows "gettoken mem a = Gt_token t r \<Longrightarrow> gettoken mem (a @ b) = Gt_token t (r @ b) \<and> ends_nl r"
    "gettoken mem a = Gt_error r \<Longrightarrow> \<exists>r'. gettoken mem (a @ b) = Gt_error r'"
proof -
  have nil: "dropWhile isspace a = [] \<Longrightarrow> gettoken mem a = Gt_null []"
    by (simp add: gettoken_def del: dropWhile_eq_Nil_conv)
  have ab: "dropWhile isspace (a @ b) = c # p @ b" if "dropWhile isspace a = c # p" for c p
    using that by (induction a) auto
  show "gettoken mem (a @ b) = Gt_token t (r @ b) \<and> ends_nl r" if g: "gettoken mem a = Gt_token t r"
  proof (cases "dropWhile isspace a")
    case (Cons c p)
    have e: "ends_nl (c # p)" "\<not> isspace c" using ends_nl_spaces [OF assms] Cons hd_dropWhile [of isspace a] by simp_all
    show ?thesis
    proof (cases "c = quote")
      case True
      then obtain n where n: "count_cstr p = Found n" "mem (n + 1)" "t = fst (copy_cstr p)" "r = snd (copy_cstr p)"
        using g Cons by (auto simp: gettoken_def split: scan.splits if_splits)
      moreover have "ends_nl p" using e True by (auto simp: ends_nl_Cons)
      ultimately show ?thesis using cstr_found [OF n(1), of b] True ab [OF Cons] by (simp add: gettoken_def)
    next
      case False
      then obtain n where "plain_scan c p = Found n" "mem (n + 1)" "t = take n (c # p)" "r = drop n (c # p)"
        using g gettoken_plain_scan [OF Cons False] by (auto simp: gettoken_plain_token)
      with plain_scan_stable(1) [OF e, of n b] ends_nl_drop [OF e(1), of n]
      have "n < length (c # p)" "plain_scan c (p @ b) = Found n" "ends_nl r" by auto
      moreover from this(1) have "take n ((c # p) @ b) = take n (c # p)" "drop n ((c # p) @ b) = drop n (c # p) @ b"
        by (simp_all del: append_Cons)
      ultimately show ?thesis
        using gettoken_plain_scan [OF ab [OF Cons] False, where mem = mem] \<open>mem (n + 1)\<close> \<open>t = _\<close> \<open>r = _\<close>
        by (simp add: gettoken_plain_def)
    qed
  qed (use g nil in simp)
  show "\<exists>r'. gettoken mem (a @ b) = Gt_error r'" if g: "gettoken mem a = Gt_error r"
  proof (cases "dropWhile isspace a")
    case (Cons c p)
    have e: "ends_nl (c # p)" "\<not> isspace c" using ends_nl_spaces [OF assms] Cons hd_dropWhile [of isspace a] by simp_all
    show ?thesis
    proof (cases "c = quote")
      case True
      then have "count_cstr p = Wrong \<or> (\<exists>n. count_cstr p = Found n \<and> \<not> mem (n + 1))"
        using g Cons by (auto simp: gettoken_def split: scan.splits if_splits)
      then show ?thesis using True ab [OF Cons] cstr_found [of p _ b] cstr_wrong [of p b] by (auto simp: gettoken_def)
    next
      case False
      then have "plain_scan c p = Wrong \<or> (\<exists>n. plain_scan c p = Found n \<and> \<not> mem (n + 1))"
        using g gettoken_plain_scan [OF Cons False] by (auto simp: gettoken_plain_token)
      then show ?thesis using plain_scan_stable(1) [OF e, of _ b] plain_scan_stable(2) [OF e, of b] gettoken_plain_scan [OF ab [OF Cons] False]
        by (auto simp: gettoken_plain_def)
    qed
  qed (use g nil in simp)
qed

lemma gettoken_null_stuck:
  "gettoken mem a = Gt_null r \<Longrightarrow> r = dropWhile isspace a \<and> gettoken mem r = Gt_null r"
  using gettoken_null [of mem a r] gettoken_spaces [of mem a "[]"] by simp

lemma skip_line_stable:
  assumes "ends_nl r"
  shows "\<exists>r'. skip_line r = Some r' \<and> skip_line (r @ b) = Some (r' @ b) \<and> (r' = [] \<or> ends_nl r')"
  using assms
proof (induction r)
  case (Cons c r)
  then show ?case by (cases "c = newline") (auto simp: skip_line_def ends_nl_Cons)
qed (simp add: ends_nl_def)

lemma comment_end_stable:
  "comment_end a = Some r \<Longrightarrow> comment_end (a @ b) = Some (r @ b)"
  "comment_end a = Some r \<Longrightarrow> ends_nl a \<Longrightarrow> ends_nl r"
  "comment_end a = None \<Longrightarrow> ends_nl a \<Longrightarrow> comment_end (a @ b) = comment_end b"
proof -
  show "comment_end a = Some r \<Longrightarrow> comment_end (a @ b) = Some (r @ b)"
    by (induction a rule: comment_end.induct) (auto split: if_splits)
  show "comment_end a = Some r \<Longrightarrow> ends_nl a \<Longrightarrow> ends_nl r"
    by (induction a rule: comment_end.induct) (auto simp: ends_nl_Cons split: if_splits)
  show "comment_end a = None \<Longrightarrow> ends_nl a \<Longrightarrow> comment_end (a @ b) = comment_end b"
  proof (induction a)
    case (Cons c a)
    show ?case
    proof (cases a)
      case Nil
      with Cons.prems have "c = newline" by (simp add: ends_nl_def)
      with Nil show ?thesis by (cases b) simp_all
    next
      case a: (Cons d r)
      then show ?thesis using Cons.IH Cons.prems by (auto simp: ends_nl_Cons split: if_splits)
    qed
  qed simp
qed

lemma complete_lines_append: "ends_nl a \<Longrightarrow> complete_lines (a @ f) = a @ complete_lines f"
proof -
  assume "ends_nl a"
  then obtain a' where "a = a' @ [newline]" by (metis append_butlast_last_id ends_nl_def)
  then show ?thesis
    by (cases "newline \<in> set f") (simp_all add: complete_lines_def dropWhile_append)
qed

section \<open>Line by line or all at once\<close>

lemma ref_parse_spaces: "ref_parse e sections s (a @ b) = ref_parse e sections s (dropWhile isspace a @ b)"
  using gettoken_spaces [of "pe_mem e" a b] by (simp add: ref_parse.simps)

lemma ref_parse_error: "ps_error s \<Longrightarrow> ref_parse e sections s text = s"
  by (simp add: ref_parse.simps)

lemma parser_error_simps [simp]: "ps_error (parser_error s)"
  by (simp add: parser_error_def)

definition stuck :: "parser_env \<Rightarrow> string \<Rightarrow> bool" where
  "stuck e r \<longleftrightarrow> gettoken (pe_mem e) r = Gt_null r \<and> (r = [] \<or> ends_nl r)"

lemma parser_tokens_ref:
  "a = [] \<or> ends_nl a \<Longrightarrow> \<exists>s' r need ic. parser_tokens e sections s a = Some (s', r, need, ic) \<and>
     ref_parse e sections s (a @ b) = ref_from e sections s' ic (r @ b) \<and>
     (\<not> ps_error s' \<longrightarrow> need \<and> \<not> ic \<and> stuck e r \<or> \<not> need \<and> ic \<and> ends_nl r)"
proof (induction e sections s a rule: parser_tokens.induct)
  case (1 e sections s a)
  note ps = parser_tokens.simps [of e sections s a] and rf = ref_parse.simps [of e sections s "a @ b"]
  show ?case
  proof (cases "ps_error s")
    case True
    then show ?thesis
      by (intro exI [of _ s] exI [of _ a] exI [of _ False] conjI) (simp_all add: ps ref_from_def ref_parse_error)
  next
    case ne: False
    show ?thesis
    proof (cases "gettoken (pe_mem e) a")
      case (Gt_null r)
      have r: "r = dropWhile isspace a" "gettoken (pe_mem e) r = Gt_null r" using gettoken_null_stuck [OF Gt_null] by auto
      have "r = [] \<or> ends_nl r" using "1.prems" ends_nl_spaces [of a] r(1) by auto
      then show ?thesis using Gt_null ne r ref_parse_spaces [of e sections s a b] by (auto simp: ps stuck_def ref_from_def)
    next
      case (Gt_error r)
      then have "ends_nl a" using "1.prems" by (auto simp: gettoken_def)
      from gettoken_stable(2) [OF this Gt_error, of b] obtain r' where "gettoken (pe_mem e) (a @ b) = Gt_error r'" ..
      then show ?thesis using Gt_error ne
        by (intro exI [of _ "parser_error s"] exI [of _ r] exI [of _ True] exI [of _ False])
          (simp add: ps rf ref_from_def ref_parse_error)
    next
      case (Gt_token t r)
      then have "ends_nl a" using "1.prems" by (auto simp: gettoken_def)
      from gettoken_stable(1) [OF this Gt_token, of b]
      have g: "gettoken (pe_mem e) (a @ b) = Gt_token t (r @ b)" and r: "ends_nl r" by auto
      show ?thesis
      proof (cases "t = ''//''")
        case True
        obtain r' where r': "skip_line r = Some r'" "skip_line (r @ b) = Some (r' @ b)" "r' = [] \<or> ends_nl r'"
          using skip_line_stable [OF r] by blast
        from "1.IH"(1) [OF ne Gt_token True r'(1,3)] show ?thesis
          using ne Gt_token True r'(1,2) g by (simp add: ps rf)
      next
        case n: False
        show ?thesis
        proof (cases "t = ''/*''")
          case True
          then show ?thesis using ne Gt_token g r
            by (intro exI [of _ s] exI [of _ r] exI [of _ False] exI [of _ True]) (simp add: ps rf ref_from_def)
        next
          case False
          from "1.IH"(2) [OF ne Gt_token n False] r show ?thesis using ne Gt_token g n False by (simp add: ps rf)
        qed
      qed
    qed
  qed
qed

text \<open>What the outer loop keeps: the buffer is not full; while more data is needed, it holds a part in which no token is
  complete and the beginning of a line; otherwise it ends with a line.\<close>

definition data_ok :: "parser_env \<Rightarrow> bool \<Rightarrow> bool \<Rightarrow> string \<Rightarrow> bool" where
  "data_ok e need ic data \<longleftrightarrow>
     (if need then \<exists>r b. data = r @ b \<and> newline \<notin> set b \<and> stuck e r \<and> (ic \<longrightarrow> r = []) else ends_nl data)"

definition loop_inv :: "parser_env \<Rightarrow> parser_context \<Rightarrow> bool" where
  "loop_inv e c \<longleftrightarrow> length (pc_data c) < buffer_size c \<and> (pc_eof c \<longrightarrow> pc_file c = [] \<and> pc_need_more_data c) \<and>
     data_ok e (pc_need_more_data c) (pc_in_comment c) (pc_data c)"

definition ref_rest :: "parser_env \<Rightarrow> parser_section list \<Rightarrow> parser_context \<Rightarrow> parser_state" where
  "ref_rest e sections c = ref_from e sections (pc_state c) (pc_in_comment c) (complete_lines (pc_data c @ pc_file c))"

lemma stuck_nil [simp]: "stuck e []"
  by (simp add: stuck_def gettoken_def)

lemma complete_stuck: "stuck e r \<Longrightarrow> newline \<notin> set b \<Longrightarrow> complete_lines (r @ b) = r"
proof -
  assume "stuck e r" "newline \<notin> set b"
  moreover have "complete_lines b = []" using \<open>newline \<notin> set b\<close> by (auto simp: complete_lines_def)
  ultimately show ?thesis by (cases "r = []") (auto simp: stuck_def complete_lines_append)
qed

lemma loop_eof:
  assumes "loop_inv e c" "pc_eof c"
  shows "ref_rest e sections c = pc_state c"
proof -
  obtain r b where r: "pc_data c = r @ b" "newline \<notin> set b" "stuck e r" "pc_in_comment c \<longrightarrow> r = []" "pc_file c = []"
    using assms unfolding loop_inv_def data_ok_def by (elim conjE) (simp, blast)
  have "complete_lines (pc_data c @ pc_file c) = r" using complete_stuck [OF r(3,2)] r(1,5) by simp
  then show ?thesis using r(3,4)
    by (auto simp: ref_rest_def ref_from_def stuck_def ref_parse.simps [of e sections "pc_state c" r] ref_parse.simps [of e sections "pc_state c" "[]"])
qed

lemma grow_keeps:
  assumes "parser_grow e c = Some c1" "loop_inv e c"
  shows "loop_inv e c1 \<and> ref_rest e sections c1 = ref_rest e sections c \<and> pc_eof c1 = pc_eof c \<and> pc_fail c1 = pc_fail c \<and>
    pc_state c1 = pc_state c"
  using assms by (auto simp: parser_grow_def loop_inv_def ref_rest_def buffer_size_def split: if_splits)

lemma read_again_keeps:
  assumes "parser_read c = Rd_again c2" "loop_inv e c" "\<not> pc_eof c"
  shows "loop_inv e c2 \<and> (CHR 0x00 \<notin> set (pc_file c) \<longrightarrow> ref_rest e sections c2 = ref_rest e sections c \<and> CHR 0x00 \<notin> set (pc_file c2)) \<and>
    pc_fail c2 = pc_fail c"
proof -
  have n: "pc_need_more_data c" using assms(1) by (auto simp: parser_read_def split: if_splits)
  obtain r b where r: "pc_data c = r @ b" "newline \<notin> set b" "stuck e r" "pc_in_comment c \<longrightarrow> r = []"
    using assms(2) n unfolding loop_inv_def data_ok_def by (elim conjE) (simp, blast)
  have sz: "length (pc_data c) < buffer_size c" using assms(2) by (simp add: loop_inv_def)
  show ?thesis
  proof (cases "fgets (buffer_size c - length (pc_data c)) (pc_fail c) (pc_file c)")
    case (Fg_line s rest eof)
    note f = fgets_line [OF Fg_line]
    have c2: "c2 = c\<lparr>pc_file := rest, pc_eof := eof, pc_data := pc_data c @ till_zero s, pc_need_more_space := True\<rparr>"
      "till_zero s = [] \<or> last (till_zero s) \<noteq> newline"
      using assms(1) n Fg_line by (auto simp: parser_read_def Let_def split: if_splits)
    note z = till_zero_line [OF f(5)]
    have "newline \<notin> set (till_zero s)"
    proof
      assume nl: "newline \<in> set (till_zero s)"
      then have "s \<noteq> []" by auto
      with nl f(5) z(4) have "last s = newline" by (metis append_butlast_last_id Un_iff empty_iff list.set(1) list.set(2) insert_iff set_append subsetD)
      have "till_zero s = s"
      proof (rule ccontr)
        assume "till_zero s \<noteq> s"
        then obtain x r where "s = till_zero s @ x # r" unfolding till_zero_def by (metis neq_Nil_conv self_append_conv takeWhile_dropWhile_id)
        then have "newline \<in> set (butlast s)" using nl by (metis Un_iff butlast_append list.distinct(1) set_append)
        with f(5) show False by simp
      qed
      with c2(2) \<open>s \<noteq> []\<close> \<open>last s = newline\<close> show False by simp
    qed
    then have "data_ok e True (pc_in_comment c) (pc_data c @ till_zero s)"
      unfolding data_ok_def if_True using r by (intro exI [of _ r] exI [of _ "b @ till_zero s"]) auto
    moreover have "length (pc_data c @ till_zero s) < buffer_size c" using f(3) sz z(3) by auto
    moreover have "till_zero s = s" "CHR 0x00 \<notin> set rest" if "CHR 0x00 \<notin> set (pc_file c)" using that f(1) z(2) by simp_all
    ultimately show ?thesis using c2(1) f(1,4) n by (auto simp: loop_inv_def ref_rest_def buffer_size_def)
  next
    case Fg_eof
    then have "newline \<notin> set (pc_file c)" "line_of (pc_file c) = []" "c2 = c\<lparr>pc_eof := True\<rparr>"
      using assms(1) n by (auto simp: parser_read_def fgets_def Let_def split: if_splits)
    then have "pc_file c = []" "c2 = c\<lparr>pc_eof := True\<rparr>" using line_of_no_nl by auto
    then show ?thesis using assms(2) n by (auto simp: loop_inv_def ref_rest_def buffer_size_def)
  qed (use assms(1) n in \<open>simp add: parser_read_def\<close>)
qed

lemma read_process_keeps:
  assumes "parser_read c = Rd_process c2" "loop_inv e c" "\<not> pc_eof c"
  shows "loop_inv e c2 \<and> ref_rest e sections c2 = ref_rest e sections c \<and> (CHR 0x00 \<notin> set (pc_file c) \<longrightarrow> CHR 0x00 \<notin> set (pc_file c2)) \<and>
    pc_fail c2 = pc_fail c \<and> \<not> pc_eof c2 \<and> \<not> pc_need_more_data c2"
proof (cases "pc_need_more_data c")
  case False
  then show ?thesis using assms by (auto simp: parser_read_def)
next
  case n: True
  then obtain s rest eof where f: "fgets (buffer_size c - length (pc_data c)) (pc_fail c) (pc_file c) = Fg_line s rest eof"
    and z: "till_zero s \<noteq> []" "last (till_zero s) = newline"
    and c2': "c2 = c\<lparr>pc_file := rest, pc_eof := eof, pc_data := pc_data c @ till_zero s, pc_line := pc_line c + 1, pc_need_more_data := False\<rparr>"
    using assms(1) by (auto simp: parser_read_def Let_def split: fgets_result.splits if_splits)
  note g = fgets_line [OF f]
  have s: "s \<noteq> []" "last s = newline"
    and c2: "c2 = c\<lparr>pc_file := rest, pc_eof := eof, pc_data := pc_data c @ s, pc_line := pc_line c + 1, pc_need_more_data := False\<rparr>"
    using till_zero_line(1) [OF g(5)] z c2' by auto
  have sz: "length (pc_data c) < buffer_size c" using assms(2) by (simp add: loop_inv_def)
  have "\<not> eof" using g(6) s last_in_set [of s] by auto
  moreover have "length (pc_data c @ s) < buffer_size c" using g(3) sz by auto
  moreover have "data_ok e False (pc_in_comment c) (pc_data c @ s)" using s by (simp add: data_ok_def ends_nl_def)
  ultimately show ?thesis using c2 g(1) by (simp add: loop_inv_def ref_rest_def buffer_size_def)
qed

lemma process_keeps:
  assumes "loop_inv e c" "\<not> pc_need_more_data c" "\<not> pc_eof c"
  shows "\<exists>c3. parser_process e sections c = Some c3 \<and> ref_rest e sections c3 = ref_rest e sections c \<and> pc_fail c3 = pc_fail c \<and>
    pc_file c3 = pc_file c \<and> (ps_error (pc_state c3) \<or> loop_inv e c3)"
proof -
  have nl: "ends_nl (pc_data c)" and sz: "length (pc_data c) < buffer_size c"
    using assms(1,2) by (simp_all add: loop_inv_def data_ok_def)
  note cl = complete_lines_append [OF nl, of "pc_file c"]
  show ?thesis
  proof (cases "pc_in_comment c \<and> comment_end (pc_data c) = None")
    case True
    let ?c3 = "c\<lparr>pc_data := [], pc_need_more_data := True\<rparr>"
    have "comment_end (complete_lines (pc_data c @ pc_file c)) = comment_end (complete_lines (pc_file c))"
      using True nl cl comment_end_stable(3) by simp
    then have "ref_rest e sections ?c3 = ref_rest e sections c" using True by (simp add: ref_rest_def ref_from_def)
    moreover have "data_ok e True True []" unfolding data_ok_def if_True by (intro exI [of _ "[]"]) simp
    ultimately show ?thesis using True assms sz
      by (intro exI [of _ ?c3]) (simp add: parser_process_def loop_inv_def buffer_size_def)
  next
    case False
    let ?iter = "if pc_in_comment c then the (comment_end (pc_data c)) else pc_data c"
    have it: "ends_nl ?iter" "length ?iter \<le> length (pc_data c)"
      "ref_rest e sections c = ref_parse e sections (pc_state c) (?iter @ complete_lines (pc_file c))"
      using False nl cl comment_end_stable(1) [of "pc_data c"] comment_end_stable(2) [of "pc_data c"] comment_end_shorter [of "pc_data c"]
      by (auto simp: ref_rest_def ref_from_def less_imp_le)
    obtain s' r need ic where t: "parser_tokens e sections (pc_state c) ?iter = Some (s', r, need, ic)"
      "ref_parse e sections (pc_state c) (?iter @ complete_lines (pc_file c)) = ref_from e sections s' ic (r @ complete_lines (pc_file c))"
      "\<not> ps_error s' \<longrightarrow> need \<and> \<not> ic \<and> stuck e r \<or> \<not> need \<and> ic \<and> ends_nl r"
      using parser_tokens_ref [of ?iter e sections "pc_state c" "complete_lines (pc_file c)"] it(1) by blast
    let ?c3 = "c\<lparr>pc_state := s', pc_data := r, pc_in_comment := ic, pc_need_more_data := need\<rparr>"
    have p: "parser_process e sections c = Some ?c3"
      unfolding parser_process_def if_not_P [OF False] Let_def t(1) using assms(2) by simp
    have len: "length r < buffer_size c" using parser_tokens_rest [OF t(1)] it(2) sz by simp
    show ?thesis
    proof (cases "ps_error s'")
      case True
      then have "ref_rest e sections ?c3 = s'" "ref_rest e sections c = s'"
        using it(3) t(2) by (auto simp: ref_rest_def ref_from_def ref_parse_error split: option.split)
      with p True show ?thesis by simp
    next
      case ne: False
      have d: "data_ok e need ic r"
      proof (cases need)
        case True
        with t(3) ne have "r = r @ [] \<and> newline \<notin> set [] \<and> stuck e r \<and> (ic \<longrightarrow> r = [])" by simp
        then have "\<exists>r' b. r = r' @ b \<and> newline \<notin> set b \<and> stuck e r' \<and> (ic \<longrightarrow> r' = [])" by blast
        with True show ?thesis by (simp only: data_ok_def if_True)
      qed (use t(3) ne in \<open>simp add: data_ok_def\<close>)
      have "complete_lines (r @ pc_file c) = r @ complete_lines (pc_file c)"
        using t(3) ne complete_lines_append [of r] by (cases "r = []") (auto simp: stuck_def)
      then have "ref_rest e sections ?c3 = ref_rest e sections c" using it(3) t(2) by (simp add: ref_rest_def)
      with p d len assms(3) show ?thesis by (intro exI [of _ ?c3]) (simp add: loop_inv_def buffer_size_def)
    qed
  qed
qed

lemma parser_loop_ref:
  assumes "loop_inv e c" "\<not> pc_fail c" "CHR 0x00 \<notin> set (pc_file c)" "\<And>n. pe_mem e n"
  shows "parser_loop e sections c = Run_done (ref_rest e sections c)"
  using assms
proof (induction e sections c rule: parser_loop.induct)
  case (1 e sections c)
  note pl = parser_loop.simps [of e sections c]
  show ?case
  proof (cases "ps_error (pc_state c) \<or> pc_eof c")
    case True
    then have "ref_rest e sections c = pc_state c"
      using loop_eof [OF "1.prems"(1)] by (auto simp: ref_rest_def ref_from_def ref_parse_error split: option.split)
    with True show ?thesis by (simp add: pl)
  next
    case False
    obtain c1 where c1: "parser_grow e c = Some c1"
      using "1.prems"(4) by (cases "pc_need_more_space c") (simp_all add: parser_grow_def)
    have sz: "\<not> buffer_size c \<le> length (pc_data c)" using "1.prems"(1) by (simp add: loop_inv_def)
    have fl: "pc_file c1 = pc_file c" using c1 by (auto simp: parser_grow_def split: if_splits)
    note k = grow_keeps [OF c1 "1.prems"(1), of sections]
    have i1: "loop_inv e c1" "\<not> pc_eof c1" "\<not> pc_fail c1" using k False "1.prems"(2) by simp_all
    show ?thesis
    proof (cases "parser_read c1")
      case (Rd_again c2)
      note r = read_again_keeps [OF Rd_again i1(1,2), of sections]
      with "1.IH"(2) [OF False sz c1 Rd_again] "1.prems"(2-4) False sz fl c1 Rd_again k show ?thesis by (simp add: pl)
    next
      case (Rd_process c2)
      note r = read_process_keeps [OF Rd_process i1(1,2), of sections]
      then obtain c3 where c3: "parser_process e sections c2 = Some c3" "ref_rest e sections c3 = ref_rest e sections c2"
        "pc_fail c3 = pc_fail c2" "pc_file c3 = pc_file c2" "ps_error (pc_state c3) \<or> loop_inv e c3"
        using process_keeps [of e c2 sections] by blast
      show ?thesis
      proof (cases "ps_error (pc_state c3)")
        case True
        then have "ref_rest e sections c3 = pc_state c3"
          by (auto simp: ref_rest_def ref_from_def ref_parse_error split: option.split)
        then show ?thesis using True c3 r k False sz c1 Rd_process by (simp add: pl)
      next
        case ne: False
        with "1.IH"(1) [OF False sz c1 Rd_process c3(1) ne] "1.prems"(2-4) False sz fl c1 Rd_process c3 r k show ?thesis by (simp add: pl)
      qed
    next
      case Rd_fail
      then show ?thesis using i1(3)
        by (auto simp: parser_read_def fgets_def Let_def split: if_splits fgets_result.splits)
    qed
  qed
qed

text \<open>The contexts of the outer loop.\<close>

inductive loop_reach :: "parser_env \<Rightarrow> parser_section list \<Rightarrow> parser_context \<Rightarrow> parser_context \<Rightarrow> bool" for e sections c0 where
  loop_reach_start: "loop_reach e sections c0 c0"
| loop_reach_again: "loop_reach e sections c0 c \<Longrightarrow> \<not> ps_error (pc_state c) \<Longrightarrow> \<not> pc_eof c \<Longrightarrow> parser_grow e c = Some c1 \<Longrightarrow>
    parser_read c1 = Rd_again c2 \<Longrightarrow> loop_reach e sections c0 c2"
| loop_reach_process: "loop_reach e sections c0 c \<Longrightarrow> \<not> ps_error (pc_state c) \<Longrightarrow> \<not> pc_eof c \<Longrightarrow> parser_grow e c = Some c1 \<Longrightarrow>
    parser_read c1 = Rd_process c2 \<Longrightarrow> parser_process e sections c2 = Some c3 \<Longrightarrow> loop_reach e sections c0 c3"

lemma loop_round_keeps:
  assumes "loop_inv e c" "\<not> pc_eof c" "parser_grow e c = Some c1"
  shows "parser_read c1 = Rd_again c2 \<Longrightarrow> loop_inv e c2"
    "parser_read c1 = Rd_process c2 \<Longrightarrow> \<exists>c3. parser_process e sections c2 = Some c3 \<and> (ps_error (pc_state c3) \<or> loop_inv e c3)"
proof -
  have i: "loop_inv e c1" "\<not> pc_eof c1" using grow_keeps [OF assms(3,1)] assms(2) by simp_all
  show "parser_read c1 = Rd_again c2 \<Longrightarrow> loop_inv e c2" using read_again_keeps [OF _ i] by blast
  show "parser_read c1 = Rd_process c2 \<Longrightarrow> \<exists>c3. parser_process e sections c2 = Some c3 \<and> (ps_error (pc_state c3) \<or> loop_inv e c3)"
    using read_process_keeps [OF _ i] process_keeps by blast
qed

lemma loop_reach_inv:
  "loop_reach e sections c0 c \<Longrightarrow> loop_inv e c0 \<Longrightarrow> ps_error (pc_state c) \<or> loop_inv e c"
proof (induction rule: loop_reach.induct)
  case (loop_reach_again c c1 c2)
  then show ?case using loop_round_keeps(1) by blast
next
  case (loop_reach_process c c1 c2 c3)
  then have "loop_inv e c" by simp
  from loop_round_keeps(2) [OF this loop_reach_process.hyps(3-5), of sections] loop_reach_process.hyps(6) show ?case by simp
qed simp

lemma parser_loop_safe: "loop_inv e c \<Longrightarrow> parser_loop e sections c \<noteq> Run_crash"
proof (induction e sections c rule: parser_loop.induct)
  case (1 e sections c)
  note pl = parser_loop.simps [of e sections c]
  show ?case
  proof (cases "ps_error (pc_state c) \<or> pc_eof c")
    case False
    have sz: "\<not> buffer_size c \<le> length (pc_data c)" using "1.prems" by (simp add: loop_inv_def)
    show ?thesis
    proof (cases "parser_grow e c")
      case (Some c1)
      note k = loop_round_keeps [OF "1.prems" _ Some]
      show ?thesis
      proof (cases "parser_read c1")
        case (Rd_again c2)
        with "1.IH"(2) [OF False sz Some Rd_again] k(1) False sz Some show ?thesis by (simp add: pl)
      next
        case (Rd_process c2)
        with k(2) False obtain c3 where c3: "parser_process e sections c2 = Some c3" "ps_error (pc_state c3) \<or> loop_inv e c3" by blast
        with "1.IH"(1) [OF False sz Some Rd_process c3(1)] False sz Some Rd_process show ?thesis by (auto simp: pl)
      qed (use False sz Some in \<open>simp add: pl\<close>)
    qed (use False sz in \<open>simp add: pl\<close>)
  qed (simp add: pl)
qed

lemma parser_start_inv: "loop_inv e (parser_start text fail)"
  by (simp add: loop_inv_def parser_start_def buffer_size_def data_ok_def)

definition parser_init :: parser_state where
  "parser_init = \<lparr>ps_section = None, ps_section_token = None, ps_key_token = None, ps_value_token = None, ps_error = False, ps_failed = None,
     ps_calls = []\<rparr>"

lemma parser_start_ref: "ref_rest e sections (parser_start text fail) = ref_parse e sections parser_init (complete_lines text)"
  by (simp add: ref_rest_def ref_from_def parser_start_def parser_init_def)

definition parser_ref :: "parser_env \<Rightarrow> parser_section list \<Rightarrow> string \<Rightarrow> parser_result" where
  "parser_ref e sections text = parser_outcome (ref_parse e sections parser_init text)"

lemma parser_run_ref:
  "(\<And>n. pe_mem e n) \<Longrightarrow> CHR 0x00 \<notin> set text \<Longrightarrow>
    parser_run e sections (parser_start text False) = parser_ref e sections (complete_lines text)"
  using parser_loop_ref [OF parser_start_inv, of "text" False e sections] parser_start_ref [of e sections "text" False]
  by (simp add: parser_run_def parser_ref_def parser_start_def)

section \<open>Printing\<close>

definition escape_char :: "char \<Rightarrow> string" where
  "escape_char c =
     (if c = newline then [backslash, CHR ''n''] else if c = CHR 0x09 then [backslash, CHR ''t'']
      else if c = CHR 0x0D then [backslash, CHR ''r''] else if c = backslash \<or> c = quote then [backslash, c] else [c])"

definition print_entry :: "string \<times> string \<Rightarrow> string" where
  "print_entry kv = fst kv @ '' = '' @ [quote] @ concat (map escape_char (snd kv)) @ [quote] @ '';'' @ [newline]"

definition print_section :: "string \<times> (string \<times> string) list \<Rightarrow> string" where
  "print_section s = fst s @ '' {'' @ [newline] @ concat (map print_entry (snd s)) @ ''}'' @ [newline]"

definition is_word :: "string \<Rightarrow> bool" where
  "is_word w \<longleftrightarrow> w \<noteq> [] \<and> isalpha (hd w) \<and> list_all (\<lambda>c. isalnum c \<or> c \<in> {CHR ''_'', CHR ''.'', CHR ''-''}) w"

text \<open>A value that reads like punctuation is taken for it even between quotes. A C string holds no zero character.\<close>

definition printable :: "string \<Rightarrow> bool" where
  "printable v \<longleftrightarrow> v \<notin> {''{'', ''}'', ''='', '';'', ''//'', ''/*''} \<and> CHR 0x00 \<notin> set v"

text \<open>The calls for a configuration that the sections know, all of whose values are valid.\<close>

definition entry_call :: "parser_env \<Rightarrow> parser_section \<Rightarrow> string \<times> string \<Rightarrow> parser_call option" where
  "entry_call e p kv = (case find (\<lambda>x. pe_key x = fst kv) (sec_entries p) of
     None \<Rightarrow> None
   | Some x \<Rightarrow> map_option (Assign (sec_name p) (fst kv)) (value_parser_by_type e (pe_type x) (snd kv)))"

definition always :: "(parser_call list \<Rightarrow> bool) option \<Rightarrow> bool" where
  "always f \<longleftrightarrow> (case f of None \<Rightarrow> True | Some ok \<Rightarrow> ok = (\<lambda>_. True))"

definition section_ok :: "parser_env \<Rightarrow> parser_section list \<Rightarrow> string \<times> (string \<times> string) list \<Rightarrow> bool" where
  "section_ok e sections s \<longleftrightarrow> is_word (fst s) \<and> (case find (\<lambda>p. sec_name p = fst s) sections of
     None \<Rightarrow> False
   | Some p \<Rightarrow> always (sec_onenter p) \<and> always (sec_onexit p) \<and>
       (\<forall>kv\<in>set (snd s). is_word (fst kv) \<and> printable (snd kv) \<and> entry_call e p kv \<noteq> None))"

definition section_calls :: "parser_env \<Rightarrow> parser_section list \<Rightarrow> string \<times> (string \<times> string) list \<Rightarrow> parser_call list" where
  "section_calls e sections s = (case find (\<lambda>p. sec_name p = fst s) sections of
     None \<Rightarrow> []
   | Some p \<Rightarrow> (if sec_onenter p = None then [] else [On_enter (fst s)]) @ map (\<lambda>kv. the (entry_call e p kv)) (snd s) @
       (if sec_onexit p = None then [] else [On_exit (fst s)]))"

abbreviation word_char :: "char \<Rightarrow> bool" where
  "word_char c \<equiv> isalnum c \<or> c \<in> {CHR ''_'', CHR ''.'', CHR ''-''}"

lemma scan_word_all: "list_all word_char w \<Longrightarrow> \<not> word_char c \<Longrightarrow> scan_word (w @ c # r) = Found (length w)"
  by (induction w) auto

lemma isalpha_other: "isalpha c \<Longrightarrow> \<not> isspace c \<and> \<not> isdigit c \<and> c \<noteq> quote"
  by (auto simp: isalpha_def isspace_def isdigit_def code_def)

lemma gettoken_word:
  assumes "is_word w" "\<not> word_char c" "mem (length w + 1)"
  shows "gettoken mem (w @ c # r) = Gt_token w (c # r)"
proof -
  obtain h w' where w: "w = h # w'" using assms(1) by (cases w) (auto simp: is_word_def)
  have h: "isalpha h" using assms(1) w by (simp add: is_word_def)
  have d: "dropWhile isspace (w @ c # r) = h # w' @ c # r" using isalpha_other [OF h] w by simp
  have "plain_scan h (w' @ c # r) = Found (length w)"
    using scan_word_all [of w c r] assms(1,2) h isalpha_other [OF h] by (simp add: plain_scan_def is_word_def w del: scan_word.simps)
  then show ?thesis using gettoken_plain_scan [OF d, where mem = mem] isalpha_other [OF h] assms(3) w
    by (simp add: gettoken_plain_def)
qed

lemma gettoken_punct: "c \<in> {CHR ''{'', CHR ''}'', CHR ''='', CHR '';''} \<Longrightarrow> mem (1 + 1) \<Longrightarrow> gettoken mem (c # r) = Gt_token [c] r"
  by (elim insertE emptyE) (simp_all add: gettoken_def gettoken_plain_def isspace_def isdigit_def isalpha_def code_def)

lemma escape_char_cstr:
  "count_cstr (escape_char c @ p) = scan_add 1 (count_cstr p)" "copy_cstr (escape_char c @ p) = (c # fst (copy_cstr p), snd (copy_cstr p))"
proof -
  consider "c = newline" | "c = CHR 0x09" | "c = CHR 0x0D" | "c = backslash" | "c = quote" |
    "c \<notin> {newline, CHR 0x09, CHR 0x0D, backslash, quote}" by blast
  then have "count_cstr (escape_char c @ p) = scan_add 1 (count_cstr p) \<and> copy_cstr (escape_char c @ p) = (c # fst (copy_cstr p), snd (copy_cstr p))"
    by cases (simp_all add: escape_char_def cstr_escape cstr_plain unescape_def)
  then show "count_cstr (escape_char c @ p) = scan_add 1 (count_cstr p)"
    "copy_cstr (escape_char c @ p) = (c # fst (copy_cstr p), snd (copy_cstr p))" by auto
qed

lemma cstr_escaped:
  "count_cstr (concat (map escape_char v) @ quote # r) = Found (length v)"
  "copy_cstr (concat (map escape_char v) @ quote # r) = (v, r)"
  by (induction v) (simp_all add: escape_char_cstr)

lemma gettoken_quoted:
  assumes "mem (length v + 1)"
  shows "gettoken mem (quote # concat (map escape_char v) @ quote # r) = Gt_token v r"
  using assms by (simp add: gettoken_def cstr_escaped isspace_def code_def)

lemma ref_space: "isspace c \<Longrightarrow> ref_parse e sections s (c # r) = ref_parse e sections s r"
  using ref_parse_spaces [of e sections s "[c]" r] by simp

lemma ref_token:
  assumes "\<not> ps_error s" "gettoken (pe_mem e) t = Gt_token token r" "token \<noteq> ''//''" "token \<noteq> ''/*''"
  shows "ref_parse e sections s t = ref_parse e sections (parser_token e sections token s) r"
  using assms by (simp add: ref_parse.simps [of e sections s t])

lemma is_word_not: "is_word w \<Longrightarrow> w \<notin> {''{'', ''}'', ''='', '';'', ''//'', ''/*''}"
  by (auto simp: is_word_def isalpha_def code_def)

definition in_section :: "parser_section option \<Rightarrow> parser_call list \<Rightarrow> parser_state" where
  "in_section p calls = parser_init\<lparr>ps_section := p, ps_calls := calls\<rparr>"

lemma spaces: "isspace (CHR '' '')" "isspace newline" "\<not> word_char (CHR '' '')"
  by (simp_all add: isspace_def isalnum_def isalpha_def isdigit_def code_def)

lemmas ref_chars = ref_space [OF spaces(1)] ref_space [OF spaces(2)]

lemma token_word: "is_word w \<Longrightarrow> parser_token e sections w s = parser_word w s"
  using is_word_not [of w] by (simp add: parser_token_def)

lemma ref_entry:
  assumes "is_word k" "printable v" "entry_call e p (k, v) = Some x" "\<And>n. pe_mem e n"
  shows "ref_parse e sections (in_section (Some p) calls) (print_entry (k, v) @ rest) =
    ref_parse e sections (in_section (Some p) (calls @ [x])) rest"
proof -
  let ?s0 = "in_section (Some p) calls" and ?q = "quote # concat (map escape_char v) @ quote # CHR '';'' # newline # rest"
  let ?s1 = "?s0\<lparr>ps_key_token := Some k\<rparr>"
  have tx: "print_entry (k, v) @ rest = k @ CHR '' '' # CHR ''='' # CHR '' '' # ?q" by (simp add: print_entry_def)
  have "ref_parse e sections ?s0 (k @ CHR '' '' # CHR ''='' # CHR '' '' # ?q) = ref_parse e sections ?s1 (CHR '' '' # CHR ''='' # CHR '' '' # ?q)"
    using ref_token [OF _ gettoken_word [OF assms(1) spaces(3), where mem = "pe_mem e"], of ?s0] is_word_not [OF assms(1)] assms(4)
    by (simp add: token_word [OF assms(1)] parser_word_def in_section_def parser_init_def)
  also have "\<dots> = ref_parse e sections ?s1 (CHR ''='' # CHR '' '' # ?q)" by (rule ref_chars)
  also have "\<dots> = ref_parse e sections ?s1 (CHR '' '' # ?q)"
    using ref_token [OF _ gettoken_punct [of "CHR ''=''" "pe_mem e"], of ?s1] assms(4)
    by (simp add: parser_token_def parser_equals_def in_section_def parser_init_def)
  also have "\<dots> = ref_parse e sections ?s1 ?q" by (rule ref_chars)
  also have "\<dots> = ref_parse e sections (?s1\<lparr>ps_value_token := Some v\<rparr>) (CHR '';'' # newline # rest)"
    using ref_token [OF _ gettoken_quoted [where mem = "pe_mem e" and v = v], of ?s1] assms(2,4)
    by (simp add: parser_token_def parser_word_def in_section_def parser_init_def printable_def)
  also have "\<dots> = ref_parse e sections (in_section (Some p) (calls @ [x])) (newline # rest)"
    using ref_token [OF _ gettoken_punct [of "CHR '';''" "pe_mem e"], of "?s1\<lparr>ps_value_token := Some v\<rparr>"] assms(3,4)
    by (auto simp: parser_token_def parser_terminate_def parser_assign_def entry_call_def in_section_def parser_init_def Let_def
        split: option.splits)
  also have "\<dots> = ref_parse e sections (in_section (Some p) (calls @ [x])) rest" by (rule ref_chars)
  finally show ?thesis unfolding tx .
qed

lemma ref_entries:
  assumes "\<forall>kv\<in>set kvs. is_word (fst kv) \<and> printable (snd kv) \<and> entry_call e p kv \<noteq> None" "\<And>n. pe_mem e n"
  shows "ref_parse e sections (in_section (Some p) calls) (concat (map print_entry kvs) @ rest) =
    ref_parse e sections (in_section (Some p) (calls @ map (\<lambda>kv. the (entry_call e p kv)) kvs)) rest"
  using assms(1)
proof (induction kvs arbitrary: calls)
  case (Cons kv kvs)
  then obtain x where "entry_call e p (fst kv, snd kv) = Some x" by auto
  with Cons ref_entry [of "fst kv" "snd kv" e p x sections calls] assms(2) show ?case by simp
qed simp

lemma callback_always:
  "always f \<Longrightarrow> parser_callback f call s = s\<lparr>ps_calls := ps_calls s @ (if f = None then [] else [call])\<rparr>"
  by (auto simp: always_def parser_callback_def Let_def split: option.splits)

lemma find_name: "find (\<lambda>p. sec_name p = n) ps = Some p \<Longrightarrow> sec_name p = n"
  by (auto simp: find_Some_iff)

lemma ref_section:
  assumes "section_ok e sections sec" "\<And>n. pe_mem e n"
  shows "ref_parse e sections (in_section None calls) (print_section sec @ rest) =
    ref_parse e sections (in_section None (calls @ section_calls e sections sec)) rest"
proof -
  obtain n kvs where sec: "sec = (n, kvs)" by (cases sec)
  obtain p where p: "find (\<lambda>p. sec_name p = n) sections = Some p" "always (sec_onenter p)" "always (sec_onexit p)" "is_word n"
    "\<forall>kv\<in>set kvs. is_word (fst kv) \<and> printable (snd kv) \<and> entry_call e p kv \<noteq> None"
    using assms(1) sec by (auto simp: section_ok_def split: option.splits)
  let ?en = "if sec_onenter p = None then [] else [On_enter n]" and ?ex = "if sec_onexit p = None then [] else [On_exit n]"
  let ?cs = "map (\<lambda>kv. the (entry_call e p kv)) kvs" and ?tail = "CHR ''}'' # newline # rest"
  let ?b = "concat (map print_entry kvs) @ ?tail"
  let ?s = "in_section None calls"
  have tx: "print_section sec @ rest = n @ CHR '' '' # CHR ''{'' # newline # ?b" by (simp add: print_section_def sec)
  have "ref_parse e sections ?s (n @ CHR '' '' # CHR ''{'' # newline # ?b) =
      ref_parse e sections (?s\<lparr>ps_section_token := Some n\<rparr>) (CHR '' '' # CHR ''{'' # newline # ?b)"
    using ref_token [OF _ gettoken_word [OF p(4) spaces(3), where mem = "pe_mem e"], of ?s] is_word_not [OF p(4)] assms(2)
    by (simp add: token_word [OF p(4)] parser_word_def in_section_def parser_init_def)
  also have "\<dots> = ref_parse e sections (?s\<lparr>ps_section_token := Some n\<rparr>) (CHR ''{'' # newline # ?b)" by (rule ref_chars)
  also have "\<dots> = ref_parse e sections (in_section (Some p) (calls @ ?en)) (newline # ?b)"
    using ref_token [OF _ gettoken_punct [of "CHR ''{''" "pe_mem e"], of "?s\<lparr>ps_section_token := Some n\<rparr>"] assms(2) p(1,2)
    by (simp add: parser_token_def parser_open_def callback_always in_section_def parser_init_def)
  also have "\<dots> = ref_parse e sections (in_section (Some p) (calls @ ?en)) ?b" by (rule ref_chars)
  also have "\<dots> = ref_parse e sections (in_section (Some p) ((calls @ ?en) @ ?cs)) ?tail"
    by (rule ref_entries [OF p(5) assms(2)])
  also have "\<dots> = ref_parse e sections (in_section None (((calls @ ?en) @ ?cs) @ ?ex)) (newline # rest)"
    using ref_token [OF _ gettoken_punct [of "CHR ''}''" "pe_mem e"], of "in_section (Some p) ((calls @ ?en) @ ?cs)"] assms(2) p(3)
      find_name [OF p(1)]
    by (simp add: parser_token_def parser_close_def callback_always in_section_def parser_init_def)
  also have "\<dots> = ref_parse e sections (in_section None (((calls @ ?en) @ ?cs) @ ?ex)) rest" by (rule ref_chars)
  finally show ?thesis unfolding tx using p(1) by (simp add: section_calls_def sec)
qed

lemma ref_config:
  assumes "\<forall>s\<in>set cfg. section_ok e sections s" "\<And>n. pe_mem e n"
  shows "ref_parse e sections (in_section None calls) (concat (map print_section cfg)) =
    in_section None (calls @ concat (map (section_calls e sections) cfg))"
  using assms(1)
proof (induction cfg arbitrary: calls)
  case Nil
  show ?case by (simp add: ref_parse.simps gettoken_def)
next
  case (Cons s cfg)
  then show ?case using ref_section [OF _ assms(2), of sections s calls "concat (map print_section cfg)"] by simp
qed

lemma complete_config: "complete_lines (concat (map print_section cfg)) = concat (map print_section cfg)"
proof (induction cfg)
  case (Cons s cfg)
  have "ends_nl (print_section s)" by (simp add: print_section_def ends_nl_def)
  with Cons show ?case by (simp add: complete_lines_append)
qed (simp add: complete_lines_def)

lemma print_no_zero:
  assumes "\<forall>s\<in>set cfg. section_ok e sections s"
  shows "CHR 0x00 \<notin> set (concat (map print_section cfg))"
proof -
  have w: "CHR 0x00 \<notin> set w" if "is_word w" for w
    using that by (auto simp: is_word_def list_all_iff isalnum_def isalpha_def isdigit_def code_def)
  have v: "CHR 0x00 \<notin> set (concat (map escape_char v))" if "printable v" for v
    using that by (auto simp: printable_def escape_char_def split: if_splits)
  have "CHR 0x00 \<notin> set (print_entry kv)" if "is_word (fst kv)" "printable (snd kv)" for kv
    using w [OF that(1)] v [OF that(2)] by (simp add: print_entry_def)
  then have "CHR 0x00 \<notin> set (print_section s)" if "section_ok e sections s" for s
    using that w by (auto simp: section_ok_def print_section_def split: option.splits)
  with assms show ?thesis by auto
qed

section \<open>Where the parser accepts less or more than it should\<close>

definition parser_ex_env :: parser_env where
  "parser_ex_env = \<lparr>pe_mem = (\<lambda>_. True), pe_ulong_max = 18446744073709551615, pe_inet_aton = (\<lambda>_. None), pe_resolve = (\<lambda>_. None)\<rparr>"

definition parser_ex_sections :: "parser_section list" where
  "parser_ex_sections =
     [\<lparr>sec_name = ''base'', sec_onenter = Some (\<lambda>_. True), sec_onexit = None,
       sec_entries = [\<lparr>pe_key = ''log_debug'', pe_type = pt_bool\<rparr>, \<lparr>pe_key = ''user'', pe_type = pt_pchar\<rparr>]\<rparr>]"

lemma parser_ex_mem: "pe_mem parser_ex_env n"
  by (simp add: parser_ex_env_def)

lemmas parser_eval = parser_ref_def parser_outcome_def parser_stop_def ref_parse.simps gettoken_def gettoken_plain_def scan_number.simps(2) isspace_def isdigit_def isalpha_def
  isalnum_def code_def complete_lines_def parser_init_def parser_ok_def parser_token_def parser_word_def parser_open_def parser_close_def
  parser_equals_def parser_terminate_def parser_assign_def parser_callback_def skip_line_def vp_pchar_def vp_pbool_def parser_error_def
  parser_ex_env_def parser_ex_sections_def count_cstr.simps(2) copy_cstr.simps(2) unescape_def Let_def

text \<open>A number followed by a slash and something else is neither a token nor an error: it waits for more input, and
  everything after it is ignored.\<close>

lemma number_swallows_rest:
  assumes "isdigit d" "\<not> isdigit c" "c \<noteq> slash" "c \<noteq> star"
  shows "ref_parse e sections s (d # slash # c # rest) = s"
proof -
  have "\<not> isspace d" "d \<noteq> quote" using assms(1) by (auto simp: isdigit_def isspace_def code_def)
  moreover have "\<not> isdigit slash" by (simp add: isdigit_def code_def)
  ultimately have "gettoken (pe_mem e) (d # slash # c # rest) = Gt_null (d # slash # c # rest)"
    using assms by (simp add: gettoken_def gettoken_plain_def scan_number.simps(2))
  then show ?thesis by (simp add: ref_parse.simps)
qed

text \<open>A last line without a newline is ignored, even if it is wrong.\<close>

lemma last_line_ignored:
  "parser_run parser_ex_env parser_ex_sections (parser_start ''} }'' False) = Returned True []"
  by (subst parser_run_ref [OF parser_ex_mem]) (simp_all add: parser_eval)

text \<open>A quoted semicolon ends an assignment.\<close>

lemma quoted_punctuation:
  "parser_run parser_ex_env parser_ex_sections (parser_start (''base { user = '' @ [quote] @ '';'' @ [quote] @ ''; }'' @ [newline]) False) =
   Returned False [On_enter ''base'']"
  by (subst parser_run_ref [OF parser_ex_mem]) (simp_all add: parser_eval)

text \<open>A terminator without an assignment fails an assertion, and of two words outside of any section the message about the second is
  printed with null pointers.\<close>

lemma lone_terminator_aborts:
  "parser_run parser_ex_env parser_ex_sections (parser_start (''base { ; }'' @ [newline]) False) = Failed Assertion_failed [On_enter ''base'']"
  by (subst parser_run_ref [OF parser_ex_mem]) (simp_all add: parser_eval)

lemma second_word_prints_null:
  "parser_run parser_ex_env parser_ex_sections (parser_start (''a b'' @ [newline]) False) = Failed Null_for_string []"
  by (subst parser_run_ref [OF parser_ex_mem]) (simp_all add: parser_eval)

text \<open>A number that does not fit in 32 bits is cut off.\<close>

lemma uint32_cut_off: "vp_uint32 parser_ex_env ''4294967296'' = Some (V_uint32 0)"
  by (simp add: vp_uint32_def strtoul_def digit_value_def parser_ex_env_def isspace_def isdigit_def code_def Let_def)

text \<open>A number in range is stored as it is.\<close>

lemma uint16_exact: "vp_uint16 e token = Some (V_uint16 w) \<Longrightarrow> unat w = fst (strtoul (pe_ulong_max e) token) \<and> snd (strtoul (pe_ulong_max e) token) = []"
  by (auto simp: vp_uint16_def case_prod_beta unat_of_nat split: if_splits)

section \<open>Properties\<close>

text \<open>Claim C38: with enough memory and a readable file without zero characters, \<^verbatim>\<open>parser_run\<close>, which reads lines into a growing buffer and leaves
  incomplete tokens and comments for the next line, makes the same calls and ends in the same way as the reference parser on
  the complete lines of the file, that is, on everything up to its last newline, at once. Ending includes both ways of failing at a token: the assertion for
  a terminator without a key, and the null pointer printed for a word outside of its place.\<close>

theorem parser_run_matches_reference:
  assumes "\<And>n. pe_mem e n" "CHR 0x00 \<notin> set text"
  shows "parser_run e sections (parser_start text False) = parser_ref e sections (complete_lines text)"
  by (rule parser_run_ref [OF assms])

theorem parser_run_matches_reference_witness:
  "parser_run parser_ex_env parser_ex_sections
     (parser_start (''base { /* two'' @ [newline] @ ''lines */ user = x; } // done'' @ [newline] @ ''ignored'') False) =
   Returned True [On_enter ''base'', Assign ''base'' ''user'' (V_pchar ''x'')]"
  by (subst parser_run_matches_reference [OF parser_ex_mem]) (simp_all add: parser_eval)

text \<open>Claim C39: a configuration with known sections and keys and valid values, printed with its values as quoted strings, is read back: the
  parser enters and leaves its sections and assigns its values in order, and returns success.\<close>

theorem parser_config_roundtrip:
  assumes "\<forall>s\<in>set cfg. section_ok e sections s" "\<And>n. pe_mem e n"
  shows "parser_run e sections (parser_start (concat (map print_section cfg)) False) =
    Returned True (concat (map (section_calls e sections) cfg))"
  using ref_config [OF assms, of "[]"] parser_run_ref [OF assms(2) print_no_zero [OF assms(1)]]
  by (simp add: parser_ref_def parser_outcome_def complete_config in_section_def parser_init_def parser_ok_def)

theorem parser_config_roundtrip_witness:
  "parser_run parser_ex_env parser_ex_sections
     (parser_start (print_section (''base'', [(''log_debug'', ''yes''), (''user'', [newline, quote])])) False) =
   Returned True [On_enter ''base'', Assign ''base'' ''log_debug'' (V_bool True), Assign ''base'' ''user'' (V_pchar [newline, quote])]"
proof -
  let ?cfg = "[(''base'', [(''log_debug'', ''yes''), (''user'', [newline, quote])])]"
  have "\<forall>s\<in>set ?cfg. section_ok parser_ex_env parser_ex_sections s"
    by (simp add: section_ok_def parser_ex_sections_def parser_ex_env_def always_def is_word_def printable_def entry_call_def
        isalpha_def isalnum_def isdigit_def code_def vp_pbool_def vp_pchar_def)
  from parser_config_roundtrip [OF this parser_ex_mem] show ?thesis
    by (simp add: section_calls_def parser_ex_sections_def parser_ex_env_def entry_call_def vp_pbool_def vp_pchar_def)
qed


text \<open>A line of 300 characters: the second round has doubled the buffer and filled it up to the terminator.\<close>

lemma read_long_line:
  assumes "pc_file c = replicate n (CHR ''a'')" "pc_need_more_data c" "buffer_size c = length (pc_data c) + k + 1" "0 < k" "k \<le> n"
  shows "parser_read c = Rd_again (c\<lparr>pc_file := replicate (n - k) (CHR ''a''), pc_eof := False, pc_data := pc_data c @ replicate k (CHR ''a''),
    pc_need_more_space := True\<rparr>)"
proof -
  have "line_of (replicate n (CHR ''a'')) = replicate n (CHR ''a'')" by (rule line_of_no_nl) simp
  moreover have "till_zero (replicate k (CHR ''a'')) = replicate k (CHR ''a'')" by (simp add: till_zero_def)
  ultimately show ?thesis using assms by (simp add: parser_read_def fgets_def Let_def min_def)
qed


end
