(* ===== verification/Red_Http_Connect.thy ===== *)
theory Red_Http_Connect
  imports Red_Negotiate Red_Http_Auth Red_Parser
begin

text \<open>
  The subsystem for HTTP proxies with \<^verbatim>\<open>CONNECT\<close>, \<^verbatim>\<open>redsocks/http-connect.c\<close>: the request, the reply line by line, and the answer to a
  challenge on a new connection. The answer itself is in \<open>Red_Http_Auth\<close>, the events are those of \<open>Red_Negotiate\<close>. The
  authentication state belongs to the instance and is shared by its clients.
\<close>

section \<open>Lines and numbers\<close>

text \<open>\<^verbatim>\<open>evbuffer_readln\<close> of libevent with \<^verbatim>\<open>EVBUFFER_EOL_CRLF\<close>: the line before a newline that an optional carriage return precedes, as a C
  string, and the rest.\<close>

definition redsocks_evbuffer_readline :: "byte list \<Rightarrow> (byte list \<times> byte list) option" where
  "redsocks_evbuffer_readline buf =
     (if 10 \<in> set buf
      then (let l = takeWhile (\<lambda>c. c \<noteq> 10) buf in
            Some (takeWhile (\<lambda>c. c \<noteq> 0) (if l \<noteq> [] \<and> last l = 13 then butlast l else l), drop (length l + 1) buf))
      else None)"

lemma readline_shorter: "redsocks_evbuffer_readline buf = Some (l, rest) \<Longrightarrow> length rest < length buf"
  by (cases buf) (auto simp: redsocks_evbuffer_readline_def Let_def split: if_splits)

text \<open>All complete lines, and what is left after reading a number of them.\<close>

function lines_of :: "byte list \<Rightarrow> byte list list" where
  "lines_of buf = (case redsocks_evbuffer_readline buf of None \<Rightarrow> [] | Some (l, rest) \<Rightarrow> l # lines_of rest)"
  by pat_completeness auto
termination
  by (relation "measure length") (auto dest: readline_shorter)

declare lines_of.simps [simp del]

fun skip_lines :: "nat \<Rightarrow> byte list \<Rightarrow> byte list" where
  "skip_lines 0 buf = buf"
| "skip_lines (Suc n) buf = (case redsocks_evbuffer_readline buf of None \<Rightarrow> buf | Some (l, rest) \<Rightarrow> skip_lines n rest)"

definition b_isdigit :: "byte \<Rightarrow> bool" where "b_isdigit c \<longleftrightarrow> 48 \<le> c \<and> c \<le> 57"

text \<open>\<^verbatim>\<open>%u\<close> of \<^verbatim>\<open>sscanf\<close> and of \<^verbatim>\<open>printf\<close>.\<close>

definition scan_u :: "byte list \<Rightarrow> (u32 \<times> byte list) option" where
  "scan_u s0 =
     (let s1 = dropWhile c_isspace s0;
          s2 = (if s1 \<noteq> [] \<and> (hd s1 = of_char (CHR ''-'') \<or> hd s1 = of_char (CHR ''+'')) then tl s1 else s1);
          neg = (s1 \<noteq> [] \<and> hd s1 = of_char (CHR ''-''));
          ds = takeWhile b_isdigit s2;
          v = foldl (\<lambda>a d. a * 10 + (uint d - 48)) 0 ds in
      if ds = [] then None
      else Some (if v > 0xFFFFFFFF then 0xFFFFFFFF else if neg then - word_of_int v else word_of_int v, drop (length ds) s2))"

function print_u :: "int \<Rightarrow> byte list" where
  "print_u n = (if n < 10 then [48 + word_of_int n] else print_u (n div 10) @ [48 + word_of_int (n mod 10)])"
  by pat_completeness auto
termination
  by (relation "measure nat") auto

declare print_u.simps [simp del]

text \<open>\<^verbatim>\<open>sscanf(line, "HTTP/%*u.%*u %u", &num)\<close>\<close>

definition http_code :: "byte list \<Rightarrow> u32 option" where
  "http_code line =
     (let p = c_str ''HTTP/'' in
      if take (length p) line \<noteq> p then None
      else case scan_u (drop (length p) line) of
        None \<Rightarrow> None
      | Some (_, s1) \<Rightarrow>
          if s1 = [] \<or> hd s1 \<noteq> of_char (CHR ''.'') then None
          else case scan_u (tl s1) of
            None \<Rightarrow> None
          | Some (_, s2) \<Rightarrow> map_option fst (scan_u s2))"

section \<open>The subsystem (redsocks/http-connect.c)\<close>

definition httpc_new :: int where "httpc_new = 0"
definition httpc_request_sent :: int where "httpc_request_sent = 1"
definition httpc_reply_came :: int where "httpc_reply_came = 2"
definition httpc_headers_skipped :: int where "httpc_headers_skipped = 3"
definition httpc_no_way :: int where "httpc_no_way = 4"

definition HTTP_HEAD_WM_HIGH :: nat where "HTTP_HEAD_WM_HIGH = 4096"

lemmas httpc_states = httpc_new_def httpc_request_sent_def httpc_reply_came_def httpc_headers_skipped_def httpc_no_way_def pump_active_def

record http_auth =
  last_auth_query :: "byte list option"
  last_auth_count :: int

text \<open>The configuration and the addresses of a client, with the texts that \<^verbatim>\<open>inet_ntoa\<close> and \<^verbatim>\<open>inet_ntop\<close> give.\<close>

record httpc_config =
  hc_login :: "byte list option"
  hc_password :: "byte list option"
  hc_dest_ip :: "byte list"
  hc_dest_port :: u16
  hc_client_ip :: "byte list"
  hc_client_port :: u16
  hc_disclose_src :: disclose_src_e
  hc_on_proxy_fail :: on_proxy_fail_e

text \<open>What the system answers during a callback beyond \<open>rs_env\<close>: the random numbers, whether connecting, disabling and writing succeed.\<close>

record hc_env =
  hx_junk :: "byte list"
  hx_rand :: "u32 \<times> u32"
  hx_connect_ok :: bool
  hx_disable_ok :: bool
  hx_tee_ok :: bool
  hx_add_ok :: "byte list \<Rightarrow> bool"
  hx_write_ok :: bool

definition httpc_client_init :: int where "httpc_client_init = httpc_new"

definition httpc_instance_fini :: "http_auth \<Rightarrow> http_auth" where
  "httpc_instance_fini auth = auth\<lparr>last_auth_query := None\<rparr>"

text \<open>The answer to a Digest challenge, for a destination printed into 128 characters.\<close>

definition httpc_digest :: "httpc_config \<Rightarrow> hc_env \<Rightarrow> http_auth \<Rightarrow> byte list \<Rightarrow> (int \<times> byte list) option" where
  "httpc_digest cfg x auth q =
     (let uri = take 127 (hc_dest_ip cfg @ c_str '':'' @ print_u (uint (hc_dest_port cfg)));
          cnounce = hex8 (fst (hx_rand x)) @ hex8 (snd (hx_rand x)) in
      digest_authentication_encode (hx_junk x) (drop 7 q) (hc_login cfg) (hc_password cfg) (Some (c_str ''CONNECT'')) (Some uri)
        (word_of_int (last_auth_count auth)) cnounce)"

text \<open>The header that answers the last challenge; \<open>None\<close> if memory outside of its objects would be accessed: a name that is \<^verbatim>\<open>NULL\<close>, a
  challenge shorter than the code assumes, or an answer that does not fit into the memory allocated for it.\<close>

definition httpc_auth_header :: "httpc_config \<Rightarrow> hc_env \<Rightarrow> http_auth \<Rightarrow> byte list option" where
  "httpc_auth_header cfg x auth = (case last_auth_query auth of
     None \<Rightarrow> Some []
   | Some q \<Rightarrow>
       (let line = (\<lambda>scheme s. c_str ''Proxy-Authorization:'' @ c_str '' '' @ c_str scheme @ c_str '' '' @ s @ [13, 10]) in
        if strncaseeq q (c_str ''Basic'') 5
        then (case (hc_login cfg, hc_password cfg) of
               (Some u, Some p) \<Rightarrow> Some (case basic_authentication_encode u p of None \<Rightarrow> [] | Some s \<Rightarrow> line ''Basic'' s)
             | _ \<Rightarrow> None)
        else if strncaseeq q (c_str ''Digest'') 6
        then if length q < 7 then None
             else (case httpc_digest cfg x auth q of
                     None \<Rightarrow> Some []
                   | Some (len, s) \<Rightarrow> if int (length s) < len then Some (line ''Digest'' s) else None)
        else Some []))"

definition httpc_disclose :: "httpc_config \<Rightarrow> byte list" where
  "httpc_disclose cfg = (case hc_disclose_src cfg of
     DISCLOSE_NONE \<Rightarrow> []
   | DISCLOSE_X_FORWARDED_FOR \<Rightarrow> c_str ''X-Forwarded-For: '' @ hc_client_ip cfg @ [13, 10]
   | DISCLOSE_FORWARDED_IP \<Rightarrow> c_str ''Forwarded: for='' @ hc_client_ip cfg @ [13, 10]
   | DISCLOSE_FORWARDED_IPPORT \<Rightarrow>
       c_str ''Forwarded: for='' @ [34] @ hc_client_ip cfg @ c_str '':'' @ print_u (uint (hc_client_port cfg)) @ [34, 13, 10])"

definition httpc_request :: "httpc_config \<Rightarrow> byte list \<Rightarrow> byte list" where
  "httpc_request cfg auth_header =
     c_str ''CONNECT '' @ hc_dest_ip cfg @ c_str '':'' @ print_u (uint (hc_dest_port cfg)) @ c_str '' HTTP/1.0'' @ [13, 10] @
     auth_header @ httpc_disclose cfg @ [13, 10]"

text \<open>The changed state, and the message or nothing when no memory is left; the outer \<open>None\<close> for a read outside of memory.\<close>

definition httpc_mkconnect :: "httpc_config \<Rightarrow> hc_env \<Rightarrow> rs_env \<Rightarrow> http_auth \<Rightarrow> http_auth \<times> byte list option option" where
  "httpc_mkconnect cfg x e auth =
     (let auth1 = auth\<lparr>last_auth_count := last_auth_count auth + 1\<rparr> in
      if \<not> en_alloc e then (auth, Some None)
      else (auth1, map_option (\<lambda>h. if hx_write_ok x then Some (httpc_request cfg h) else None) (httpc_auth_header cfg x auth1)))"

definition httpc_write_cb :: "httpc_config \<Rightarrow> hc_env \<Rightarrow> http_auth neg_callback" where
  "httpc_write_cb cfg x e = (\<lambda>(c0, auth).
     let c = redsocks_touch_client (en_now e) c0 in
     if rc_state c = httpc_new
     then (case httpc_mkconnect cfg x e auth of
         (auth1, None) \<Rightarrow> (([], Bad), auth1)
       | (auth1, Some m) \<Rightarrow> (redsocks_write_helper_ex_plain c (Some m) httpc_request_sent 1 HTTP_HEAD_WM_HIGH, auth1))
     else if rc_state c \<ge> httpc_request_sent
     then (case rc_buffev c RelaySide of
         None \<Rightarrow> (([], Bad), auth)
       | Some b \<Rightarrow> (([], Live (set_buffev RelaySide (bufferevent_disable b {EV_WRITE}) c)), auth))
     else (([], Live c), auth))"

text \<open>The first line of the reply: the next state with the rest of the input, the line and the headers read, or a challenge.\<close>

datatype first_line = Fl_next int "byte list" "byte list option" "byte list option" | Fl_challenge "byte list" "byte list"

definition httpc_first_line :: "httpc_config \<Rightarrow> hc_env \<Rightarrow> http_auth \<Rightarrow> byte list \<Rightarrow> first_line" where
  "httpc_first_line cfg x auth input = (case redsocks_evbuffer_readline input of
     None \<Rightarrow> Fl_next (if length input \<ge> HTTP_HEAD_WM_HIGH then httpc_no_way else httpc_request_sent) input None None
   | Some (line, rest) \<Rightarrow> (case http_code line of
       None \<Rightarrow> Fl_next httpc_no_way rest (Some line) None
     | Some num \<Rightarrow>
         if num = 407
         then if last_auth_query auth \<noteq> None \<and> last_auth_count auth = 1 then Fl_next httpc_no_way rest (Some line) None
              else if hc_login cfg = None \<or> hc_password cfg = None then Fl_next httpc_no_way rest (Some line) None
              else (let tee = (if hc_on_proxy_fail cfg = ONFAIL_FORWARD_HTTP_ERR \<and> hx_tee_ok x then Some [] else None);
                        ls = lines_of rest;
                        (hdr, ls', tee') = http_auth_request_header (hx_add_ok x) ls tee;
                        rest' = skip_lines (length ls - length ls') rest in
                    case hdr of
                      None \<Rightarrow> Fl_next httpc_no_way rest' (Some line) tee'
                    | Some h \<Rightarrow> Fl_challenge h rest')
         else if 200 \<le> num \<and> num \<le> 299 then Fl_next httpc_reply_came rest (Some line) None
         else Fl_next httpc_no_way rest (Some line) None))"

definition httpc_reconnect :: "hc_env \<Rightarrow> byte list \<Rightarrow> redsocks_client \<Rightarrow> http_auth neg_result" where
  "httpc_reconnect x h c =
     (let auth1 = \<lparr>last_auth_query = Some (dropWhile c_isspace (drop (length auth_request_header) h)), last_auth_count = 0\<rparr> in
      if \<not> hx_disable_ok x then (([], Live c), auth1)
      else (rs_before (redsocks_bufferevent_free RelaySide (buf_of c RelaySide)) (redsocks_connect_relay (hx_connect_ok x) (c\<lparr>rc_state := httpc_new\<rparr>)), auth1))"

text \<open>An error is forwarded to the client: the line, the headers read, and then what the proxy still sends.\<close>

definition httpc_forward :: "rs_env \<Rightarrow> byte list option \<Rightarrow> byte list option \<Rightarrow> redsocks_client \<Rightarrow> rs_result" where
  "httpc_forward e line tee c = (case rc_buffev c ClientSide of
     None \<Rightarrow> ([], Bad)
   | Some b \<Rightarrow>
      (let b1 = (case line of None \<Rightarrow> b | Some l \<Rightarrow> bufferevent_write (bufferevent_write b l) [13, 10]);
           b2 = (case tee of None \<Rightarrow> b1 | Some t \<Rightarrow> bufferevent_write b1 t) in
       rs_seq (redsocks_shutdown (set_buffev ClientSide b2 c) ClientSide SHUT_RD) (\<lambda>c1.
         case rc_buffev c1 ClientSide of
           None \<Rightarrow> ([], Bad)
         | Some b3 \<Rightarrow>
            rs_seq (redsocks_shutdown (set_buffev ClientSide (b3\<lparr>be_input := []\<rparr>) c1) RelaySide SHUT_WR) (\<lambda>c2.
              redsocks_start_relay (en_enable_error e) (en_start e) (c2\<lparr>rc_state := httpc_headers_skipped\<rparr>)))))"

function httpc_skip_headers :: "byte list \<Rightarrow> bool \<times> byte list" where
  "httpc_skip_headers input = (case redsocks_evbuffer_readline input of
     None \<Rightarrow> (False, input)
   | Some (line, rest) \<Rightarrow> if line = [] then (True, rest) else httpc_skip_headers rest)"
  by pat_completeness auto
termination
  by (relation "measure length") (auto dest: readline_shorter)

declare httpc_skip_headers.simps [simp del]

definition httpc_finish :: "httpc_config \<Rightarrow> hc_env \<Rightarrow> rs_env \<Rightarrow> byte list option \<Rightarrow> byte list option \<Rightarrow> redsocks_client \<Rightarrow> rs_result" where
  "httpc_finish cfg x e line tee c =
     (if hc_on_proxy_fail cfg = ONFAIL_FORWARD_HTTP_ERR \<and> rc_state c = httpc_no_way \<and> (hx_write_ok x \<or> line = None \<and> tee = None) then httpc_forward e line tee c
      else if rc_state c = httpc_no_way then redsocks_drop_client c
      else if rc_state c = httpc_reply_came
      then (case rc_buffev c RelaySide of
          None \<Rightarrow> ([], Bad)
        | Some r \<Rightarrow>
           (let (skipped, rest) = httpc_skip_headers (be_input r); c1 = set_buffev RelaySide (r\<lparr>be_input := rest\<rparr>) c in
            if skipped then redsocks_start_relay (en_enable_error e) (en_start e) (c1\<lparr>rc_state := httpc_headers_skipped\<rparr>) else ([], Live c1)))
      else if rc_state c = httpc_headers_skipped then redsocks_start_relay (en_enable_error e) (en_start e) c
      else ([], Live c))"

definition httpc_read_cb :: "httpc_config \<Rightarrow> hc_env \<Rightarrow> http_auth neg_callback" where
  "httpc_read_cb cfg x e = (\<lambda>(c0, auth).
     let c = redsocks_touch_client (en_now e) c0 in
     case rc_buffev c RelaySide of
       None \<Rightarrow> (([], Bad), auth)
     | Some r \<Rightarrow>
         if rc_state c \<noteq> httpc_request_sent \<and> rc_state c \<noteq> httpc_reply_came then (([], Bad), auth)
         else if rc_state c = httpc_request_sent
         then (case httpc_first_line cfg x auth (be_input r) of
             Fl_challenge h rest \<Rightarrow> httpc_reconnect x h (set_buffev RelaySide (r\<lparr>be_input := rest\<rparr>) c)
           | Fl_next st rest line tee \<Rightarrow>
               (httpc_finish cfg x e line tee ((set_buffev RelaySide (r\<lparr>be_input := rest\<rparr>) c)\<lparr>rc_state := st\<rparr>), auth))
         else (httpc_finish cfg x e None None c, auth))"

section \<open>Replies\<close>

text \<open>The reference: what follows the head of a reply of success in the bytes of the proxy.\<close>

definition is_2xx :: "byte list \<Rightarrow> bool" where
  "is_2xx line \<longleftrightarrow> (case http_code line of None \<Rightarrow> False | Some num \<Rightarrow> 200 \<le> num \<and> num \<le> 299)"

definition http_reply :: "byte list \<Rightarrow> byte list option" where
  "http_reply xs = (case redsocks_evbuffer_readline xs of
     None \<Rightarrow> None
   | Some (line, r) \<Rightarrow> if is_2xx line \<and> fst (httpc_skip_headers r) then Some (snd (httpc_skip_headers r)) else None)"

lemma readline_append:
  assumes "redsocks_evbuffer_readline a = Some (l, r)"
  shows "redsocks_evbuffer_readline (a @ b) = Some (l, r @ b)"
proof -
  have ten: "10 \<in> set a" using assms by (auto simp: redsocks_evbuffer_readline_def split: if_splits)
  then have "length (takeWhile (\<lambda>c. c \<noteq> 10) a) < length a" by (induction a) auto
  moreover have "takeWhile (\<lambda>c. c \<noteq> 10) (a @ b) = takeWhile (\<lambda>c. c \<noteq> 10) a" using ten by (simp add: takeWhile_append1)
  ultimately show ?thesis using assms ten by (simp add: redsocks_evbuffer_readline_def Let_def)
qed

lemma skip_headers_append:
  assumes "httpc_skip_headers a = (d, r)"
  shows "httpc_skip_headers (a @ b) = (if d then (True, r @ b) else httpc_skip_headers (r @ b)) \<and>
    (\<not> d \<longrightarrow> redsocks_evbuffer_readline r = None)"
  using assms
proof (induction a rule: httpc_skip_headers.induct)
  case (1 a)
  show ?case
  proof (cases "redsocks_evbuffer_readline a")
    case None
    with "1.prems" show ?thesis by (simp add: httpc_skip_headers.simps [of a])
  next
    case (Some lr)
    obtain l r' where lr: "lr = (l, r')" by (cases lr)
    note ab = readline_append [OF Some [unfolded lr], of b]
    show ?thesis
    proof (cases "l = []")
      case True
      with Some lr ab "1.prems" show ?thesis by (simp add: httpc_skip_headers.simps [of a] httpc_skip_headers.simps [of "a @ b"])
    next
      case False
      with Some lr ab "1.prems" "1.IH" [OF Some lr [symmetric] False]
      show ?thesis by (simp add: httpc_skip_headers.simps [of a] httpc_skip_headers.simps [of "a @ b"])
    qed
  qed
qed

section \<open>The events of a connection\<close>

text \<open>A new connection to the proxy starts with nothing received and sent.\<close>

definition hc_reset :: "http_auth neg_world \<Rightarrow> http_auth neg_world" where
  "hc_reset w = (case nw_object w of
     Live c \<Rightarrow> if rc_state c = httpc_new then w\<lparr>nw_received := [], nw_sent := []\<rparr> else w
   | _ \<Rightarrow> w)"

definition hc_exec :: "httpc_config \<Rightarrow> hc_env \<Rightarrow> rs_env \<Rightarrow> neg_input \<Rightarrow> http_auth neg_world \<Rightarrow> http_auth neg_world option" where
  "hc_exec cfg x e i w = map_option hc_reset (neg_exec (httpc_read_cb cfg x) (httpc_write_cb cfg x) e i w)"

text \<open>A challenge is remembered only where there is a password to answer it with.\<close>

definition auth_ok :: "httpc_config \<Rightarrow> http_auth \<Rightarrow> bool" where
  "auth_ok cfg auth \<longleftrightarrow> last_auth_query auth = None \<or> hc_login cfg \<noteq> None \<and> hc_password cfg \<noteq> None"

text \<open>Between the events, other clients of the instance change the authentication state. Disabling an event of a bufferevent does not
  fail.\<close>

inductive hc_reach :: "httpc_config \<Rightarrow> http_auth neg_world \<Rightarrow> http_auth neg_world \<Rightarrow> bool" for cfg w0 where
  hc_reach_start: "hc_reach cfg w0 w0"
| hc_reach_step: "hc_reach cfg w0 w \<Longrightarrow> hx_disable_ok x \<Longrightarrow> hc_exec cfg x e i w = Some w' \<Longrightarrow> hc_reach cfg w0 w'"
| hc_reach_shared: "hc_reach cfg w0 w \<Longrightarrow> nw_object w \<noteq> Bad \<Longrightarrow> auth_ok cfg auth \<Longrightarrow> hc_reach cfg w0 (w\<lparr>nw_payload := auth\<rparr>)"

text \<open>A challenge of six characters makes the code read outside of it.\<close>

definition short_challenge :: "http_auth \<Rightarrow> bool" where
  "short_challenge auth \<longleftrightarrow> (case last_auth_query auth of None \<Rightarrow> False
     | Some q \<Rightarrow> \<not> strncaseeq q (c_str ''Basic'') 5 \<and> strncaseeq q (c_str ''Digest'') 6 \<and> length q < 7)"

text \<open>For strings of \<open>2 ^ 28\<close> bytes and more the size of an answer may wrap around.\<close>

definition long_answer :: "httpc_config \<Rightarrow> http_auth \<Rightarrow> bool" where
  "long_answer cfg auth \<longleftrightarrow> (case (last_auth_query auth, hc_login cfg) of
     (Some q, Some u) \<Rightarrow> 2 ^ 28 \<le> length q \<or> 2 ^ 28 \<le> length u | _ \<Rightarrow> False)"

text \<open>What holds while the reply is awaited: the phases of a connection.\<close>

definition is_request :: "httpc_config \<Rightarrow> byte list \<Rightarrow> bool" where
  "is_request cfg out \<longleftrightarrow> (\<exists>x auth h. httpc_auth_header cfg x auth = Some h \<and> out = httpc_request cfg h)"

definition hc_phase :: "httpc_config \<Rightarrow> http_auth neg_world \<Rightarrow> redsocks_client \<Rightarrow> bool" where
  "hc_phase cfg w c \<longleftrightarrow>
     (let r = buf_of c RelaySide; input = be_input r in
      rc_state c = httpc_new \<and> nw_received w = [] \<and> nw_sent w = [] \<and> input = [] \<and> be_output r = [] \<and> EV_READ \<notin> be_enabled r \<union> rc_evshut c RelaySide \<or>
      (be_wm_read r = (1, HTTP_HEAD_WM_HIGH) \<and> EV_READ \<in> be_enabled r \<union> rc_evshut c RelaySide \<and>
       is_request cfg (nw_sent w @ be_output r) \<and> redsocks_evbuffer_readline input = None \<and>
       (rc_state c = httpc_request_sent \<and> nw_received w = input \<or>
        rc_state c = httpc_reply_came \<and> (\<exists>line r0. redsocks_evbuffer_readline (nw_received w) = Some (line, r0) \<and> is_2xx line \<and>
          httpc_skip_headers r0 = (False, input)))))"

definition hc_live :: "httpc_config \<Rightarrow> http_auth neg_world \<Rightarrow> redsocks_client \<Rightarrow> bool" where
  "hc_live cfg w c \<longleftrightarrow> neg_ready c \<and> be_output (buf_of c ClientSide) = [] \<and> be_input (buf_of c ClientSide) = nw_device w \<and>
     hc_phase cfg w c"

definition hc_started :: "httpc_config \<Rightarrow> http_auth neg_world \<Rightarrow> bool" where
  "hc_started cfg w \<longleftrightarrow> (\<exists>out rest c0. is_request cfg out \<and> http_reply (nw_received w) = Some rest \<and> neg_handover out rest w c0)"

text \<open>A refusal is forwarded: the pump starts with the request sent, with the data of the device dropped, with reading from the device
  shut down and with writing to the proxy shut down.\<close>

definition forwards_refusal :: "httpc_config \<Rightarrow> http_auth neg_world \<Rightarrow> redsocks_client \<Rightarrow> bool" where
  "forwards_refusal cfg w c0 \<longleftrightarrow> hc_on_proxy_fail cfg = ONFAIL_FORWARD_HTTP_ERR \<and> http_reply (nw_received w) = None \<and>
     (\<exists>ee st. nw_object w = snd (redsocks_start_relay ee st c0)) \<and> pump_ready c0 \<and>
     EV_READ \<in> rc_evshut c0 ClientSide \<and> be_input (buf_of c0 ClientSide) = [] \<and> EV_WRITE \<in> rc_evshut c0 RelaySide \<and>
     is_request cfg (nw_sent w @ be_output (buf_of c0 RelaySide))"

definition hc_ok :: "httpc_config \<Rightarrow> http_auth neg_world \<Rightarrow> bool" where
  "hc_ok cfg w \<longleftrightarrow> (case nw_object w of
     Live c \<Rightarrow> if rc_state c = pump_active then hc_started cfg w \<or> (\<exists>c0. forwards_refusal cfg w c0) else hc_live cfg w c
   | Freed \<Rightarrow> True
   | Bad \<Rightarrow> short_challenge (nw_payload w) \<or> long_answer cfg (nw_payload w))"

lemma live_bufs:
  assumes "hc_live cfg w c"
  obtains b r where "rc_buffev c ClientSide = Some b" "rc_buffev c RelaySide = Some r" "neg_ready c" "be_output b = []" "be_input b = nw_device w"
    "EV_READ \<in> be_enabled r \<longrightarrow> EV_READ \<notin> rc_evshut c RelaySide" "EV_READ \<in> be_enabled b \<longrightarrow> EV_READ \<notin> rc_evshut c ClientSide"
    "be_write_pending r \<longrightarrow> EV_WRITE \<in> be_enabled r" "be_write_pending b \<longrightarrow> EV_WRITE \<in> be_enabled b" "rc_state c \<noteq> pump_active"
proof -
  have nr: "neg_ready c" using assms by (simp add: hc_live_def)
  then have "rc_buffev c ClientSide \<noteq> None" "rc_buffev c RelaySide \<noteq> None" by (simp_all add: neg_ready_def)
  then obtain b r where br: "rc_buffev c ClientSide = Some b" "rc_buffev c RelaySide = Some r" by auto
  have d: "be_enabled b \<inter> rc_evshut c ClientSide = {}" "be_enabled r \<inter> rc_evshut c RelaySide = {}"
    "be_write_pending r \<longrightarrow> EV_WRITE \<in> be_enabled r" "be_write_pending b \<longrightarrow> EV_WRITE \<in> be_enabled b"
    using nr br by (auto simp: neg_ready_def buf_of_def all_sides [of _ ClientSide])
  have "rc_state c \<noteq> pump_active" using assms by (auto simp: hc_live_def hc_phase_def Let_def httpc_states)
  then show thesis
    by (intro that [OF br nr]) (use assms br d in \<open>auto simp: hc_live_def buf_of_def\<close>)
qed

lemma hc_reset_same:
  assumes "hc_ok cfg w"
  shows "hc_reset w = w"
proof (cases "nw_object w")
  case (Live c)
  show ?thesis
  proof (cases "rc_state c = httpc_new")
    case True
    then have "hc_live cfg w c" using assms Live by (simp add: hc_ok_def httpc_states)
    with True have "nw_received w = []" "nw_sent w = []" by (auto simp: hc_live_def hc_phase_def Let_def httpc_states)
    with Live True show ?thesis by (simp add: hc_reset_def)
  qed (simp add: hc_reset_def Live)
qed (simp_all add: hc_reset_def)

lemma auth_header_bad:
  assumes "auth_ok cfg auth" "httpc_auth_header cfg x auth = None"
  shows "short_challenge auth \<or> long_answer cfg auth"
proof -
  obtain q where q: "last_auth_query auth = Some q" using assms(2) by (auto simp: httpc_auth_header_def split: option.splits)
  with assms(1) obtain u p where up: "hc_login cfg = Some u" "hc_password cfg = Some p" by (auto simp: auth_ok_def)
  have "int (length s) < len" if d: "httpc_digest cfg x auth q = Some (len, s)" and n: "\<not> long_answer cfg auth" for len s
    by (rule digest_fits [OF d [unfolded httpc_digest_def Let_def up(1)]])
      (use n q up in \<open>auto simp: long_answer_def length_hex8 simp del: take_append\<close>)
  then have "long_answer cfg auth" if "httpc_digest cfg x auth q = Some (len, s)" "\<not> int (length s) < len" for len s using that by blast
  then show ?thesis using assms(2) q up
    by (auto simp: httpc_auth_header_def short_challenge_def Let_def split: option.splits if_splits)
qed

lemma is_requestI: "httpc_auth_header cfg x auth = Some h \<Longrightarrow> is_request cfg (httpc_request cfg h)"
  by (auto simp: is_request_def)

lemma mkconnect_cases:
  assumes "httpc_mkconnect cfg x e auth = (auth1, m)" "auth_ok cfg auth"
  shows "last_auth_query auth1 = last_auth_query auth \<and>
    (m = None \<and> (short_challenge auth1 \<or> long_answer cfg auth1) \<or> m = Some None \<or> (\<exists>out. m = Some (Some out) \<and> is_request cfg out))"
proof (cases "en_alloc e")
  case True
  let ?a = "auth\<lparr>last_auth_count := last_auth_count auth + 1\<rparr>"
  have a: "auth1 = ?a" "m = map_option (\<lambda>h. if hx_write_ok x then Some (httpc_request cfg h) else None) (httpc_auth_header cfg x ?a)"
    using assms(1) True by (auto simp: httpc_mkconnect_def Let_def)
  have ok: "auth_ok cfg ?a" using assms(2) by (simp add: auth_ok_def)
  show ?thesis
  proof (cases "httpc_auth_header cfg x ?a")
    case None
    then show ?thesis using auth_header_bad [OF ok None] a by simp
  next
    case (Some h)
    then show ?thesis using is_requestI [OF Some] a by simp
  qed
qed (use assms(1) in \<open>simp add: httpc_mkconnect_def Let_def\<close>)

text \<open>The request is sent on a new connection.\<close>

lemma write_new_ok:
  assumes "neg_ready c" "rc_state c = httpc_new" "rc_buffev c RelaySide = Some r" "be_input r = []" "be_output r = []"
    "EV_READ \<notin> rc_evshut c RelaySide" "be_write_pending r \<longrightarrow> EV_WRITE \<in> be_enabled r"
    "nw_received w = []" "nw_sent w = []" "be_output (buf_of c ClientSide) = []" "be_input (buf_of c ClientSide) = nw_device w"
    "auth_ok cfg p"
  shows "hc_ok cfg (neg_return (httpc_write_cb cfg x e (c, p)) w)"
proof -
  obtain auth1 m where m: "httpc_mkconnect cfg x e p = (auth1, m)" by fastforce
  let ?t = "redsocks_touch_client (en_now e) c"
  have cb: "httpc_write_cb cfg x e (c, p) = (case m of None \<Rightarrow> (([], Bad), auth1)
      | Some m' \<Rightarrow> (redsocks_write_helper_ex_plain ?t (Some m') httpc_request_sent 1 HTTP_HEAD_WM_HIGH, auth1))"
    using assms(2) by (simp add: httpc_write_cb_def Let_def m split: option.split)
  from mkconnect_cases [OF m assms(12)] consider "m = None" "short_challenge auth1 \<or> long_answer cfg auth1" | "m = Some None" | out where "m = Some (Some out)" "is_request cfg out"
    by blast
  then show ?thesis
  proof cases
    case 1
    then show ?thesis by (simp add: cb neg_return_def hc_ok_def)
  next
    case 2
    then show ?thesis using assms(3)
      by (simp add: cb neg_return_def hc_ok_def redsocks_write_helper_ex_plain_def redsocks_drop_client_def)
  next
    case 3
    let ?r = "bufferevent_enable ((bufferevent_write r out)\<lparr>be_wm_read := (1, HTTP_HEAD_WM_HIGH)\<rparr>) {EV_READ}"
    let ?c = "(set_buffev RelaySide ?r ?t)\<lparr>rc_state := httpc_request_sent\<rparr>"
    have w: "neg_return (httpc_write_cb cfg x e (c, p)) w = w\<lparr>nw_object := Live ?c, nw_payload := auth1\<rparr>"
      using assms(3) 3 by (simp add: cb neg_return_def redsocks_write_helper_ex_plain_def)
    have "neg_ready (set_buffev RelaySide ?r c)"
      by (rule neg_ready_set [OF assms(1)]) (use assms(6,7) in \<open>auto simp: bufferevent_defs\<close>)
    then have "neg_ready ?c" using neg_ready_cong [of ?c "set_buffev RelaySide ?r c"] by simp
    then have "hc_live cfg (w\<lparr>nw_object := Live ?c, nw_payload := auth1\<rparr>) ?c"
      using assms 3 by (auto simp: hc_live_def hc_phase_def buf_of_def bufferevent_defs redsocks_evbuffer_readline_def Let_def)
    then show ?thesis by (simp add: w hc_ok_def httpc_states)
  qed
qed

lemma hc_start_ok:
  assumes "auth_ok cfg auth"
  shows "hc_ok cfg (neg_start (httpc_write_cb cfg x) sp httpc_client_init auth e)"
proof -
  let ?b = "(bufferevent_enable (bufferevent_new RelaySide) {EV_WRITE})\<lparr>be_write_pending := False\<rparr>"
  let ?a = "accepted_client sp httpc_client_init (en_now e)"
  let ?c = "set_buffev RelaySide ?b (set_buffev RelaySide (bufferevent_enable (bufferevent_new RelaySide) {EV_WRITE}) ?a)"
  have w: "neg_start (httpc_write_cb cfg x) sp httpc_client_init auth e =
      neg_return (httpc_write_cb cfg x e (redsocks_touch_client (en_now e) ?c, auth))
        \<lparr>nw_object = Bad, nw_payload = auth, nw_received = [], nw_sent = [], nw_device = []\<rparr>"
    by (simp add: neg_start_def redsocks_connect_relay_def redsocks_relay_connected_def buf_of_def)
  show ?thesis unfolding w
    by (rule write_new_ok [where r = ?b])
      (simp_all add: assms accepted_client_def httpc_client_init_def buf_of_def bufferevent_enable_def bufferevent_new_def neg_ready_def all_sides [of _ ClientSide])
qed

lemma hc_written:
  assumes "nw_object w = Live c" "hc_live cfg w c" "neg_exec readcb (httpc_write_cb cfg x) e (Neg_written n) w = Some w'"
    "auth_ok cfg (nw_payload w)"
  shows "hc_ok cfg w'"
proof -
  from assms(2) obtain b r where br: "rc_buffev c ClientSide = Some b" "rc_buffev c RelaySide = Some r" "neg_ready c" "be_output b = []"
    "be_input b = nw_device w" "EV_READ \<in> be_enabled r \<longrightarrow> EV_READ \<notin> rc_evshut c RelaySide"
    "be_write_pending r \<longrightarrow> EV_WRITE \<in> be_enabled r" "rc_state c \<noteq> pump_active"
    by (rule live_bufs)
  let ?r = "r\<lparr>be_output := drop n (be_output r)\<rparr>" and ?w = "w\<lparr>nw_sent := nw_sent w @ take n (be_output r)\<rparr>"
  let ?p = "?r\<lparr>be_write_pending := False\<rparr>"
  have w': "w' = (if drop n (be_output r) = [] then neg_return (httpc_write_cb cfg x e (set_buffev RelaySide ?p c, nw_payload w)) ?w
               else ?w\<lparr>nw_object := Live (set_buffev RelaySide ?r c)\<rparr>)"
    using assms(1,3) br by (auto simp: neg_exec_def Let_def split: if_splits)
  have ph: "hc_phase cfg w c" using assms(2) by (simp add: hc_live_def)
  show ?thesis
  proof (cases "rc_state c = httpc_new")
    case True
    then have n: "nw_received w = []" "nw_sent w = []" "be_input r = []" "be_output r = []" "EV_READ \<notin> rc_evshut c RelaySide"
      using ph br(2) by (auto simp: hc_phase_def buf_of_def Let_def httpc_states)
    have "neg_ready (set_buffev RelaySide ?p c)" by (rule neg_ready_set [OF br(3)]) (use br(6) in auto)
    then have "hc_ok cfg (neg_return (httpc_write_cb cfg x e (set_buffev RelaySide ?p c, nw_payload w)) ?w)"
      by (rule write_new_ok [where r = ?p]) (use True n br assms(4) in \<open>simp_all add: buf_of_def\<close>)
    with n(4) show ?thesis by (simp add: w')
  next
    case False
    then have st: "rc_state c \<ge> httpc_request_sent" "rc_state c \<noteq> pump_active" using ph by (auto simp: hc_phase_def Let_def httpc_states)
    let ?d = "bufferevent_disable ?p {EV_WRITE}" and ?t = "redsocks_touch_client (en_now e) c"
    have "hc_live cfg (?w\<lparr>nw_object := Live (set_buffev RelaySide ?r c)\<rparr>) (set_buffev RelaySide ?r c)"
      using neg_ready_set [OF br(3), of ?r RelaySide] br(6,7) assms(2) br(1,2) False
      by (auto simp: hc_live_def hc_phase_def buf_of_def Let_def)
    then have one: "hc_ok cfg (?w\<lparr>nw_object := Live (set_buffev RelaySide ?r c)\<rparr>)" using st by (simp add: hc_ok_def)
    have two: "hc_ok cfg (?w\<lparr>nw_object := Live (set_buffev RelaySide ?d ?t)\<rparr>)" if "drop n (be_output r) = []"
    proof -
      have "neg_ready (set_buffev RelaySide ?d c)"
        by (rule neg_ready_set [OF br(3)]) (use br(6) in \<open>auto simp: bufferevent_disable_def\<close>)
      then have "neg_ready (set_buffev RelaySide ?d ?t)" using neg_ready_cong [of "set_buffev RelaySide ?d ?t" "set_buffev RelaySide ?d c"] by simp
      then have "hc_live cfg (?w\<lparr>nw_object := Live (set_buffev RelaySide ?d ?t)\<rparr>) (set_buffev RelaySide ?d ?t)"
        using assms(2) br(1,2) False that by (auto simp: hc_live_def hc_phase_def buf_of_def bufferevent_disable_def Let_def)
      then show ?thesis using st by (simp add: hc_ok_def)
    qed
    have "neg_return (httpc_write_cb cfg x e (set_buffev RelaySide ?p c, nw_payload w)) ?w = ?w\<lparr>nw_object := Live (set_buffev RelaySide ?d ?t)\<rparr>"
      using False st(1) by (simp add: httpc_write_cb_def neg_return_def Let_def set_buffev_def redsocks_touch_client_def)
    then have three: "hc_ok cfg (neg_return (httpc_write_cb cfg x e (set_buffev RelaySide ?p c, nw_payload w)) ?w)"
      if "drop n (be_output r) = []" using two [OF that] by (simp only:)
    show ?thesis unfolding w' using one three by (auto simp only: split: if_split)
  qed
qed

lemma hc_client_data:
  assumes "nw_object w = Live c" "hc_live cfg w c" "neg_exec readcb writecb e (Neg_client_data bs) w = Some w'"
  shows "hc_ok cfg w'"
proof -
  from assms(2) obtain b r where br: "rc_buffev c ClientSide = Some b" "rc_buffev c RelaySide = Some r" "neg_ready c" "be_output b = []"
    "be_input b = nw_device w" "EV_READ \<in> be_enabled b \<longrightarrow> EV_READ \<notin> rc_evshut c ClientSide"
    "be_write_pending b \<longrightarrow> EV_WRITE \<in> be_enabled b" "rc_state c \<noteq> pump_active"
    by (rule live_bufs)
  let ?b = "b\<lparr>be_input := be_input b @ bs\<rparr>"
  have w': "w' = w\<lparr>nw_object := Live (set_buffev ClientSide ?b c), nw_device := nw_device w @ bs\<rparr>"
    using assms(1,3) br by (auto simp: neg_exec_def Let_def split: if_splits)
  have "neg_ready (set_buffev ClientSide ?b c)" by (rule neg_ready_set [OF br(3)]) (use br in auto)
  then have "hc_live cfg w' (set_buffev ClientSide ?b c)"
    using assms(2) br by (simp add: w' hc_live_def hc_phase_def buf_of_def)
  then show ?thesis using br(8) by (simp add: w' hc_ok_def)
qed

lemma hc_eof:
  assumes "nw_object w = Live c" "hc_live cfg w c" "neg_exec readcb writecb e (Neg_eof s) w = Some w'"
  shows "hc_ok cfg w'"
proof -
  from assms(2) obtain b r where br: "rc_buffev c ClientSide = Some b" "rc_buffev c RelaySide = Some r" "neg_ready c" "be_output b = []"
    "be_input b = nw_device w" "rc_state c \<noteq> pump_active"
    by (rule live_bufs)
  let ?x = "if s = ClientSide then b else r"
  let ?d = "set_buffev s (bufferevent_disable ?x {EV_READ}) c"
  have x: "rc_buffev c s = Some ?x" using br(1,2) by (cases s) auto
  have w': "w' = w\<lparr>nw_object := snd (redsocks_event_error (en_now e) ?d s True)\<rparr>" and en: "EV_READ \<in> be_enabled ?x"
    using assms(1,3) br by (auto simp: neg_exec_def Let_def split: if_splits)
  have nw: "EV_WRITE \<notin> rc_evshut c t" for t using br(3) by (simp add: neg_ready_def)
  obtain c' where c': "snd (redsocks_event_error (en_now e) ?d s True) = Live c'" "rc_state c' = rc_state c" "rc_pump c' = rc_pump c"
    "rc_evshut c' = (rc_evshut c)(s := insert EV_READ (rc_evshut c s))"
    "rc_buffev c' = (rc_buffev c)(s := Some (bufferevent_disable ?x {EV_READ}))"
    using neg_eof [of ?d s "bufferevent_disable ?x {EV_READ}" "en_now e"] br(6) nw
    by (auto simp: bufferevent_disable_def)
  have old: "be_enabled (buf_of c t) \<inter> rc_evshut c t = {}" "be_write_pending (buf_of c t) \<longrightarrow> EV_WRITE \<in> be_enabled (buf_of c t)" for t
    using br(3) by (simp_all add: neg_ready_def)
  have "neg_ready c'"
    using br(3) c' old [of s] x by (auto simp: neg_ready_def buf_of_def bufferevent_disable_def)
  moreover have "hc_phase cfg w' c'"
    using assms(2) br(1,2) c' en by (cases s) (auto simp: w' hc_live_def hc_phase_def buf_of_def bufferevent_disable_def Let_def)
  ultimately have "hc_live cfg w' c'"
    using br c' x by (cases s) (auto simp: w' hc_live_def buf_of_def bufferevent_disable_def)
  then show ?thesis using c' br(6) by (simp add: w' hc_ok_def)
qed

text \<open>The end of the negotiation.\<close>

lemma hc_handover:
  assumes "hc_started cfg w"
  shows "hc_ok cfg w"
proof -
  obtain out rest c0 where s: "neg_handover out rest w c0" using assms by (auto simp: hc_started_def)
  show ?thesis
  proof (cases "nw_object w")
    case (Live c)
    then have "rc_state c = pump_active" using s start_relay_active unfolding neg_handover_def by metis
    with Live assms show ?thesis by (simp add: hc_ok_def)
  qed (use started_not_bad [OF s] in \<open>simp_all add: hc_ok_def\<close>)
qed

text \<open>The headers of a reply of success are read.\<close>

lemma finish_reply:
  assumes "neg_ready c" "rc_state c = httpc_reply_came" "rc_buffev c RelaySide = Some r"
    "be_wm_read r = (1, HTTP_HEAD_WM_HIGH)" "EV_READ \<in> be_enabled r" "is_request cfg (nw_sent w @ be_output r)" "be_output (buf_of c ClientSide) = []"
    "be_input (buf_of c ClientSide) = nw_device w" "redsocks_evbuffer_readline (nw_received w) = Some (line, r0)" "is_2xx line"
    "httpc_skip_headers r0 = httpc_skip_headers (be_input r)" "nw_object w = snd (httpc_finish cfg x e l t c)"
  shows "hc_started cfg w \<or> (\<exists>c'. nw_object w = Live c' \<and> hc_live cfg w c' \<and> rc_state c' = httpc_reply_came \<and> rc_evshut c' = rc_evshut c)"
proof -
  obtain d rest where sk: "httpc_skip_headers (be_input r) = (d, rest)" by fastforce
  let ?r = "r\<lparr>be_input := rest\<rparr>"
  let ?c = "set_buffev RelaySide ?r c"
  have o: "nw_object w = (if d then snd (redsocks_start_relay (en_enable_error e) (en_start e) (?c\<lparr>rc_state := httpc_headers_skipped\<rparr>)) else Live ?c)"
    using assms(2,3,12) sk by (simp add: httpc_finish_def Let_def httpc_states)
  have "neg_ready ?c"
    by (rule neg_ready_set [OF assms(1)]) (use assms(1,3) in \<open>auto simp: neg_ready_def buf_of_def all_sides [of _ ClientSide]\<close>)
  then have rd: "neg_ready ?c" "neg_ready (?c\<lparr>rc_state := httpc_headers_skipped\<rparr>)"
    using neg_ready_cong [of "?c\<lparr>rc_state := httpc_headers_skipped\<rparr>" ?c] by simp_all
  show ?thesis
  proof (cases d)
    case True
    have "http_reply (nw_received w) = Some rest" using assms(9-11) sk True by (simp add: http_reply_def)
    moreover have "neg_handover (nw_sent w @ be_output r) rest w (?c\<lparr>rc_state := httpc_headers_skipped\<rparr>)"
      using o True rd(2) assms(7,8) by (auto simp: neg_handover_def buf_of_def)
    ultimately show ?thesis using assms(6) unfolding hc_started_def by blast
  next
    case False
    have "redsocks_evbuffer_readline rest = None" using skip_headers_append [OF sk, of "[]"] False by simp
    then have "hc_phase cfg w ?c" using assms(2,4-6,9-11) sk False by (simp add: hc_phase_def buf_of_def Let_def)
    then have "hc_live cfg w ?c" using rd(1) assms(7,8) by (simp add: hc_live_def buf_of_def)
    then show ?thesis using o False assms(2) by simp
  qed
qed

lemma snd_rs_seq: "snd r = Live c \<Longrightarrow> snd (rs_seq r f) = snd (f c)"
  by (cases r) simp

lemma shutdown_open:
  assumes "rc_buffev c s = Some b" "EV_WRITE \<notin> rc_evshut c t" "\<not> EV_WRITE \<in> evhow how \<or> s \<noteq> t"
  shows "snd (redsocks_shutdown c s how) = Live ((set_buffev s (bufferevent_disable b (evhow how)) c)
    \<lparr>rc_evshut := (rc_evshut c)(s := rc_evshut c s \<union> evhow how)\<rparr>)"
proof -
  let ?c = "(set_buffev s (bufferevent_disable b (evhow how)) c)\<lparr>rc_evshut := (rc_evshut c)(s := rc_evshut c s \<union> evhow how)\<rparr>"
  have "EV_WRITE \<notin> rc_evshut ?c t" using assms(2,3) by auto
  then have "\<not> shut_both ?c" unfolding shut_both_eq by blast
  then show ?thesis using assms(1) by (simp add: redsocks_shutdown_def Let_def)
qed

text \<open>Forwarding a refusal.\<close>

lemma forward_refusal:
  assumes "hc_on_proxy_fail cfg = ONFAIL_FORWARD_HTTP_ERR" "neg_ready c" "rc_buffev c ClientSide = Some b" "rc_buffev c RelaySide = Some r"
    "is_request cfg (nw_sent w @ be_output r)" "http_reply (nw_received w) = None" "nw_object w = snd (httpc_forward e line tee c)"
  shows "\<exists>c0. forwards_refusal cfg w c0"
proof -
  define b2 where "b2 = (case tee of None \<Rightarrow> (case line of None \<Rightarrow> b | Some l \<Rightarrow> bufferevent_write (bufferevent_write b l) [13, 10])
    | Some t \<Rightarrow> bufferevent_write (case line of None \<Rightarrow> b | Some l \<Rightarrow> bufferevent_write (bufferevent_write b l) [13, 10]) t)"
  let ?b3 = "(bufferevent_disable b2 {EV_READ})\<lparr>be_input := []\<rparr>" and ?r3 = "bufferevent_disable r {EV_WRITE}"
  let ?sh = "(rc_evshut c)(ClientSide := rc_evshut c ClientSide \<union> {EV_READ})"
  let ?c1 = "(set_buffev ClientSide (bufferevent_disable b2 {EV_READ}) (set_buffev ClientSide b2 c))\<lparr>rc_evshut := ?sh\<rparr>"
  let ?c2 = "(set_buffev RelaySide ?r3 (set_buffev ClientSide ?b3 ?c1))\<lparr>rc_evshut := ?sh(RelaySide := ?sh RelaySide \<union> {EV_WRITE})\<rparr>"
  have nw: "EV_WRITE \<notin> rc_evshut c s" for s using assms(2) by (simp add: neg_ready_def)
  have one: "snd (redsocks_shutdown (set_buffev ClientSide b2 c) ClientSide SHUT_RD) = Live ?c1"
    using shutdown_open [of "set_buffev ClientSide b2 c" ClientSide b2 RelaySide SHUT_RD] nw by simp
  have two: "snd (redsocks_shutdown (set_buffev ClientSide ?b3 ?c1) RelaySide SHUT_WR) = Live ?c2"
    using shutdown_open [of "set_buffev ClientSide ?b3 ?c1" RelaySide r ClientSide SHUT_WR] nw assms(4) by simp
  let ?c0 = "?c2\<lparr>rc_state := httpc_headers_skipped\<rparr>"
  have o: "nw_object w = snd (redsocks_start_relay (en_enable_error e) (en_start e) ?c0)"
    using assms(3,7) one two unfolding httpc_forward_def
    by (cases line; cases tee) (simp_all add: b2_def snd_rs_seq Let_def)
  have b2: "be_enabled b2 = be_enabled b" "be_write_pending b2 \<longrightarrow> EV_WRITE \<in> be_enabled b" "be_write_pending r \<longrightarrow> EV_WRITE \<in> be_enabled r"
    "be_enabled b \<inter> rc_evshut c ClientSide = {}" "be_enabled r \<inter> rc_evshut c RelaySide = {}"
    using assms(2-4) by (auto simp: b2_def bufferevent_write_def neg_ready_def buf_of_def all_sides [of _ ClientSide] split: option.splits)
  then have "pump_ready ?c0"
    using nw by (auto simp: pump_ready_def buf_of_def all_sides [of _ ClientSide] bufferevent_disable_def shut_both_eq)
  then have "forwards_refusal cfg w ?c0"
    using o assms(1,4-6) by (auto simp: forwards_refusal_def buf_of_def bufferevent_disable_def)
  then show ?thesis ..
qed

lemma pump_started_active:
  assumes "pump_ready c0"
  shows "snd (redsocks_start_relay ee st c0) \<noteq> Bad" "snd (redsocks_start_relay ee st c0) = Live c \<Longrightarrow> rc_state c = pump_active"
proof -
  from assms obtain b r where br: "rc_buffev c0 ClientSide = Some b" "rc_buffev c0 RelaySide = Some r"
    by (auto simp: pump_ready_def all_sides [of _ ClientSide])
  show "snd (redsocks_start_relay ee st c0) \<noteq> Bad"
    using br by (cases "rc_pump c0"; cases ee; cases st)
      (auto simp: redsocks_start_relay_def redsocks_start_bufferpump_def redsocks_start_splicepump_def redsocks_drop_client_def rs_before_def Let_def)
  show "rc_state c = pump_active" if "snd (redsocks_start_relay ee st c0) = Live c"
    using br that by (cases "rc_pump c0"; cases ee; cases st)
      (auto simp: redsocks_start_relay_def redsocks_start_bufferpump_def redsocks_start_splicepump_def redsocks_drop_client_def rs_before_def Let_def)
qed

lemma refusal_ok:
  assumes "forwards_refusal cfg w c0"
  shows "hc_ok cfg w"
proof -
  obtain ee st where o: "nw_object w = snd (redsocks_start_relay ee st c0)" and r: "pump_ready c0"
    using assms by (auto simp: forwards_refusal_def)
  show ?thesis
  proof (cases "nw_object w")
    case (Live c)
    then have "rc_state c = pump_active" using pump_started_active(2) [OF r, of ee st c] o by simp
    with Live assms show ?thesis by (auto simp: hc_ok_def)
  qed (use pump_started_active(1) [OF r, of ee st] o in \<open>simp_all add: hc_ok_def\<close>)
qed

lemma finish_no_way:
  assumes "rc_state c = httpc_no_way" "neg_ready c" "rc_buffev c ClientSide = Some b" "rc_buffev c RelaySide = Some r"
    "is_request cfg (nw_sent w @ be_output r)" "http_reply (nw_received w) = None" "nw_object w = snd (httpc_finish cfg x e l t c)"
  shows "nw_object w = Freed \<or> (\<exists>c0. forwards_refusal cfg w c0)"
proof (cases "hc_on_proxy_fail cfg = ONFAIL_FORWARD_HTTP_ERR \<and> (hx_write_ok x \<or> l = None \<and> t = None)")
  case True
  then show ?thesis using forward_refusal [OF _ assms(2-6), of e l t] assms(1,7) by (simp add: httpc_finish_def)
next
  case False
  then show ?thesis using assms(1,7) by (auto simp: httpc_finish_def redsocks_drop_client_def)
qed

text \<open>The bytes of a proxy that does not grant the request, whatever follows.\<close>

definition no_grant :: "byte list \<Rightarrow> bool" where
  "no_grant xs \<longleftrightarrow> (\<exists>l r. redsocks_evbuffer_readline xs = Some (l, r) \<and> \<not> is_2xx l) \<or>
     redsocks_evbuffer_readline xs = None \<and> HTTP_HEAD_WM_HIGH \<le> length xs"

lemma no_grant_none: "no_grant xs \<Longrightarrow> http_reply xs = None"
  by (auto simp: no_grant_def http_reply_def)

lemma no_grant_reply:
  assumes "no_grant xs" "length (xs @ ys) \<le> HTTP_HEAD_WM_HIGH"
  shows "http_reply (xs @ ys) = None"
proof (cases "redsocks_evbuffer_readline xs")
  case None
  with assms have "ys = []" by (cases ys) (simp_all add: no_grant_def)
  with None show ?thesis by (simp add: http_reply_def)
next
  case (Some lr)
  with assms(1) readline_append [of xs _ _ ys] show ?thesis by (auto simp: no_grant_def http_reply_def)
qed

text \<open>The next steps after a first line.\<close>

lemma first_line_next:
  assumes "httpc_first_line cfg x auth input = Fl_next st rest line tee"
  shows "(st = httpc_no_way \<and> no_grant input) \<or> (st = httpc_request_sent \<and> rest = input \<and> redsocks_evbuffer_readline input = None) \<or>
    (st = httpc_reply_came \<and> (\<exists>l. redsocks_evbuffer_readline input = Some (l, rest) \<and> is_2xx l))"
  using assms
  by (auto simp: httpc_first_line_def is_2xx_def no_grant_def Let_def split: option.splits if_splits prod.splits)

lemma first_line_challenge:
  assumes "httpc_first_line cfg x auth input = Fl_challenge h rest"
  shows "no_grant input"
  using assms
  by (auto simp: httpc_first_line_def is_2xx_def no_grant_def Let_def split: option.splits if_splits prod.splits)

text \<open>An answer to a challenge starts on a new connection.\<close>

lemma reconnect_ok:
  assumes "hx_disable_ok x" "neg_ready c" "EV_READ \<notin> rc_evshut c RelaySide" "rc_buffev c ClientSide = Some b" "be_output b = []"
    "be_input b = nw_device w" "nw_object w = snd (fst (httpc_reconnect x h c))"
  shows "hc_ok cfg (hc_reset w)"
proof -
  let ?r = "bufferevent_enable (bufferevent_new RelaySide) {EV_WRITE}"
  let ?c = "set_buffev RelaySide ?r (c\<lparr>rc_state := httpc_new\<rparr>)"
  have o: "nw_object w = (if hx_connect_ok x then Live ?c else Freed)"
    using assms(1,7) by (simp add: httpc_reconnect_def redsocks_connect_relay_def rs_before_def redsocks_drop_client_def Let_def)
  have "neg_ready (set_buffev RelaySide ?r c)"
    by (rule neg_ready_set [OF assms(2)]) (simp_all add: bufferevent_enable_def bufferevent_new_def)
  then have "neg_ready ?c" using neg_ready_cong [of ?c "set_buffev RelaySide ?r c"] by simp
  then have "hc_live cfg (w\<lparr>nw_received := [], nw_sent := []\<rparr>) ?c"
    using assms(3-6) by (simp add: hc_live_def hc_phase_def buf_of_def bufferevent_enable_def bufferevent_new_def Let_def)
  then show ?thesis using o by (auto simp: hc_ok_def hc_reset_def httpc_states)
qed

text \<open>A part of a reply: the relay starts, the client waits for more, or the proxy does not grant the request.\<close>

lemma hc_reply_step:
  assumes "hx_disable_ok x" "nw_object w = Live c" "hc_live cfg w c"
    "neg_exec (httpc_read_cb cfg x) writecb e (Neg_reply bs) w = Some w'"
  shows "nw_received w' = nw_received w @ bs \<and> (hc_started cfg w' \<or>
    (\<exists>c'. nw_object w' = Live c' \<and> hc_live cfg w' c' \<and> rc_state c' \<noteq> httpc_new \<and> rc_evshut c' = rc_evshut c) \<or>
    hc_ok cfg (hc_reset w') \<and> no_grant (nw_received w'))"
proof -
  from assms(3) obtain b r where br: "rc_buffev c ClientSide = Some b" "rc_buffev c RelaySide = Some r" "neg_ready c" "be_output b = []"
    "be_input b = nw_device w" "EV_READ \<in> be_enabled r \<longrightarrow> EV_READ \<notin> rc_evshut c RelaySide"
    "be_write_pending r \<longrightarrow> EV_WRITE \<in> be_enabled r" "rc_state c \<noteq> pump_active"
    by (rule live_bufs)
  have en: "EV_READ \<in> be_enabled r" "bs \<noteq> []"
    using assms(2,4) br by (auto simp: neg_exec_def Let_def split: if_splits)
  have ph: "be_wm_read r = (1, HTTP_HEAD_WM_HIGH)" "is_request cfg (nw_sent w @ be_output r)"
    and st: "rc_state c = httpc_request_sent \<and> nw_received w = be_input r \<or>
        rc_state c = httpc_reply_came \<and> (\<exists>line r0. redsocks_evbuffer_readline (nw_received w) = Some (line, r0) \<and> is_2xx line \<and>
          httpc_skip_headers r0 = (False, be_input r))"
    using assms(3) br(2) en(1) by (auto simp: hc_live_def hc_phase_def buf_of_def Let_def)
  let ?in = "be_input r @ bs"
  let ?c = "redsocks_touch_client (en_now e) (set_buffev RelaySide (r\<lparr>be_input := ?in\<rparr>) c)"
  have w': "w' = neg_return (httpc_read_cb cfg x e (set_buffev RelaySide (r\<lparr>be_input := ?in\<rparr>) c, nw_payload w)) (w\<lparr>nw_received := nw_received w @ bs\<rparr>)"
    using assms(2,4) br(1,2,8) ph(1) en(2) by (auto simp: neg_exec_def Let_def Suc_le_eq split: if_splits)
  have rc: "nw_received w' = nw_received w @ bs" by (simp add: w' neg_return_def)
  have rd: "neg_ready (set_buffev RelaySide (r\<lparr>be_input := i\<rparr>) c)" for i
    by (rule neg_ready_set [OF br(3)]) (use br(6,7) in auto)
  have rd': "neg_ready c'" if "rc_buffev c' = (rc_buffev c)(RelaySide := Some (r\<lparr>be_input := i\<rparr>))" "rc_evshut c' = rc_evshut c" "rc_pump c' = rc_pump c" for c' i
    using neg_ready_cong [of c' "set_buffev RelaySide (r\<lparr>be_input := i\<rparr>) c"] rd [of i] that by simp
  have came: "httpc_reply_came \<noteq> httpc_new" by (simp add: httpc_states)
  from st show ?thesis
  proof (elim disjE conjE exE)
    fix line r0
    assume s: "rc_state c = httpc_reply_came" "redsocks_evbuffer_readline (nw_received w) = Some (line, r0)" "is_2xx line"
      "httpc_skip_headers r0 = (False, be_input r)"
    have o: "w' = w\<lparr>nw_received := nw_received w @ bs, nw_object := snd (httpc_finish cfg x e None None ?c)\<rparr>"
      using s(1) by (simp add: w' httpc_read_cb_def neg_return_def Let_def httpc_states)
    have d: "neg_ready ?c" using rd' [of ?c ?in] by simp
    have "hc_started cfg w' \<or> (\<exists>c'. nw_object w' = Live c' \<and> hc_live cfg w' c' \<and> rc_state c' = httpc_reply_came \<and> rc_evshut c' = rc_evshut ?c)"
      by (intro finish_reply [OF d, of "r\<lparr>be_input := ?in\<rparr>" cfg w' line "r0 @ bs" x e None None])
        (use s br ph en skip_headers_append [OF s(4), of bs] in \<open>simp_all add: o buf_of_def readline_append\<close>)
    then show ?thesis using rc came by auto
  next
    assume s: "rc_state c = httpc_request_sent" "nw_received w = be_input r"
    show ?thesis
    proof (cases "httpc_first_line cfg x (nw_payload w) ?in")
      case (Fl_challenge h rest)
      let ?d = "set_buffev RelaySide (r\<lparr>be_input := rest\<rparr>) ?c"
      have "nw_object w' = snd (fst (httpc_reconnect x h ?d))" "nw_device w' = nw_device w"
        using s(1) Fl_challenge by (simp_all add: w' httpc_read_cb_def neg_return_def Let_def)
      then have "hc_ok cfg (hc_reset w')"
        by (intro reconnect_ok [OF assms(1), of ?d b w' h]) (use br en rd' [of ?d rest] in \<open>simp_all\<close>)
      then show ?thesis using first_line_challenge [OF Fl_challenge] s(2) rc by simp
    next
      case (Fl_next st' rest line tee)
      let ?d = "(set_buffev RelaySide (r\<lparr>be_input := rest\<rparr>) ?c)\<lparr>rc_state := st'\<rparr>"
      have o: "w' = w\<lparr>nw_received := ?in, nw_object := snd (httpc_finish cfg x e line tee ?d)\<rparr>"
        using s Fl_next by (simp add: w' httpc_read_cb_def neg_return_def Let_def)
      have d: "neg_ready ?d" using rd' [of ?d rest] by simp
      show ?thesis
        using first_line_next [OF Fl_next]
      proof (elim disjE conjE exE)
        assume "st' = httpc_no_way" "no_grant ?in"
        have "http_reply ?in = None" by (rule no_grant_none [OF \<open>no_grant ?in\<close>])
        then have "nw_object w' = Freed \<or> (\<exists>c0. forwards_refusal cfg w' c0)"
          by (intro finish_no_way [OF _ d, where b = b and r = "r\<lparr>be_input := rest\<rparr>" and x = x and e = e and l = line and t = tee]) (use \<open>st' = httpc_no_way\<close> br ph in \<open>simp_all add: o\<close>)
        then have "hc_ok cfg w'"
        proof (elim disjE exE)
          assume "nw_object w' = Freed"
          then show ?thesis by (simp add: hc_ok_def)
        qed (rule refusal_ok)
        then have "hc_ok cfg (hc_reset w')" using hc_reset_same by metis
        then show ?thesis using \<open>no_grant ?in\<close> s(2) rc by simp
      next
        assume n: "st' = httpc_request_sent" "rest = ?in" "redsocks_evbuffer_readline ?in = None"
        then have "nw_object w' = Live ?d" "hc_live cfg w' ?d"
          using d br ph en by (simp_all add: o hc_live_def hc_phase_def buf_of_def httpc_finish_def Let_def httpc_states)
        then show ?thesis using n(1) rc by (auto simp: httpc_states)
      next
        fix l
        assume "st' = httpc_reply_came" "redsocks_evbuffer_readline ?in = Some (l, rest)" "is_2xx l"
        then have "hc_started cfg w' \<or> (\<exists>c'. nw_object w' = Live c' \<and> hc_live cfg w' c' \<and> rc_state c' = httpc_reply_came \<and> rc_evshut c' = rc_evshut ?d)"
          by (intro finish_reply [OF d, of "r\<lparr>be_input := rest\<rparr>" cfg w' l rest x e line tee])
            (use br ph en in \<open>simp_all add: o buf_of_def\<close>)
        then show ?thesis using rc came by auto
      qed
    qed
  qed
qed

lemma hc_live_ok: "nw_object w = Live c \<Longrightarrow> hc_live cfg w c \<Longrightarrow> hc_ok cfg w"
  by (auto simp: hc_ok_def elim: live_bufs)

lemma hc_reply:
  assumes "hx_disable_ok x" "nw_object w = Live c" "hc_live cfg w c"
    "neg_exec (httpc_read_cb cfg x) writecb e (Neg_reply bs) w = Some w'"
  shows "hc_ok cfg w' \<or> hc_ok cfg (hc_reset w')"
  using hc_reply_step [OF assms] hc_handover [of cfg w'] hc_live_ok [of w' _ cfg] by blast

lemma hc_exec_ok:
  assumes "hx_disable_ok x" "hc_ok cfg w" "auth_ok cfg (nw_payload w)" "hc_exec cfg x e i w = Some w'"
  shows "hc_ok cfg w'"
proof -
  obtain v where v: "neg_exec (httpc_read_cb cfg x) (httpc_write_cb cfg x) e i w = Some v" "w' = hc_reset v"
    using assms(4) by (auto simp: hc_exec_def)
  obtain c where c: "nw_object w = Live c" "rc_state c \<noteq> pump_active"
    using v(1) by (auto simp: neg_exec_def split: rs_object.splits if_splits)
  then have live: "hc_live cfg w c" using assms(2) by (simp add: hc_ok_def)
  have "hc_ok cfg v \<or> hc_ok cfg (hc_reset v)"
  proof (cases i)
    case (Neg_reply bs)
    then show ?thesis using hc_reply [OF assms(1) c(1) live] v(1) by blast
  next
    case (Neg_written n)
    then show ?thesis using hc_written [OF c(1) live] v(1) assms(3) by blast
  next
    case (Neg_client_data bs)
    then show ?thesis using hc_client_data [OF c(1) live] v(1) by blast
  next
    case (Neg_eof s)
    then show ?thesis using hc_eof [OF c(1) live] v(1) by blast
  next
    case (Neg_failed s)
    from live obtain b r where "rc_buffev c ClientSide = Some b" "rc_buffev c RelaySide = Some r" by (rule live_bufs)
    with Neg_failed v(1) c have "nw_object v = Freed"
      by (auto simp: neg_exec_def redsocks_event_error_def redsocks_drop_client_def Let_def)
    then show ?thesis by (simp add: hc_ok_def)
  qed
  then show ?thesis using v(2) hc_reset_same by metis
qed

lemma hc_shared_ok:
  assumes "hc_ok cfg w" "nw_object w \<noteq> Bad"
  shows "hc_ok cfg (w\<lparr>nw_payload := auth\<rparr>)"
proof -
  have "forwards_refusal cfg (w\<lparr>nw_payload := auth\<rparr>) c0 = forwards_refusal cfg w c0" for c0 by (simp add: forwards_refusal_def)
  with assms show ?thesis
    by (auto simp: hc_ok_def hc_live_def hc_phase_def hc_started_def neg_handover_def Let_def split: rs_object.splits)
qed

text \<open>The state of the authentication.\<close>

lemma read_cb_auth:
  assumes "auth_ok cfg auth"
  shows "auth_ok cfg (snd (httpc_read_cb cfg x e (c, auth)))"
  using assms
  by (auto simp: httpc_read_cb_def httpc_first_line_def httpc_reconnect_def auth_ok_def Let_def split: option.splits prod.splits first_line.splits if_splits)

lemma write_cb_auth:
  assumes "auth_ok cfg auth"
  shows "auth_ok cfg (snd (httpc_write_cb cfg x e (c, auth)))"
  using assms by (auto simp: httpc_write_cb_def httpc_mkconnect_def auth_ok_def Let_def split: option.splits)

lemma hc_exec_auth:
  assumes "auth_ok cfg (nw_payload w)" "hc_exec cfg x e i w = Some w'"
  shows "auth_ok cfg (nw_payload w')"
proof -
  obtain v where v: "neg_exec (httpc_read_cb cfg x) (httpc_write_cb cfg x) e i w = Some v" "w' = hc_reset v"
    using assms(2) by (auto simp: hc_exec_def)
  have "nw_payload v = nw_payload w \<or> (\<exists>c. nw_payload v = snd (httpc_read_cb cfg x e (c, nw_payload w))) \<or>
      (\<exists>c. nw_payload v = snd (httpc_write_cb cfg x e (c, nw_payload w)))"
    using v(1)
    by (auto simp: neg_exec_def neg_return_def Let_def split: rs_object.splits if_splits option.splits neg_input.splits)
  then have "auth_ok cfg (nw_payload v)" using assms(1) read_cb_auth write_cb_auth by metis
  then show ?thesis by (simp add: v(2) hc_reset_def split: rs_object.split)
qed

lemma hc_reach_ok:
  assumes "hc_reach cfg w0 w" "hc_ok cfg w0" "auth_ok cfg (nw_payload w0)"
  shows "hc_ok cfg w \<and> auth_ok cfg (nw_payload w)"
  using assms by (induction rule: hc_reach.induct) (auto intro: hc_exec_ok hc_shared_ok hc_exec_auth)

lemma hc_start_auth:
  assumes "auth_ok cfg auth"
  shows "auth_ok cfg (nw_payload (neg_start (httpc_write_cb cfg x) sp httpc_client_init auth e))"
  using assms write_cb_auth
  by (simp add: neg_start_def redsocks_connect_relay_def redsocks_relay_connected_def neg_return_def)

lemmas hc_session_ok = hc_reach_ok [OF _ hc_start_ok hc_start_auth, THEN conjunct1]

section \<open>A proxy that grants the request\<close>

fun hc_feed :: "httpc_config \<Rightarrow> hc_env \<Rightarrow> rs_env \<Rightarrow> byte list list \<Rightarrow> http_auth neg_world \<Rightarrow> http_auth neg_world option" where
  "hc_feed cfg x e [] w = Some w"
| "hc_feed cfg x e (bs # bss) w = (case hc_exec cfg x e (Neg_reply bs) w of None \<Rightarrow> None | Some w' \<Rightarrow> hc_feed cfg x e bss w')"

lemma hc_feed_reach: "hc_feed cfg x e bss w = Some w' \<Longrightarrow> hx_disable_ok x \<Longrightarrow> hc_reach cfg w0 w \<Longrightarrow> hc_reach cfg w0 w'"
  by (induction bss arbitrary: w) (auto split: option.splits intro: hc_reach_step)

lemma hc_live_reply:
  assumes "hc_live cfg w c" "rc_state c \<noteq> httpc_new"
  shows "http_reply (nw_received w) = None"
  using assms by (auto simp: hc_live_def hc_phase_def http_reply_def Let_def)

lemma hc_started_stuck:
  assumes "hc_started cfg w"
  shows "hc_exec cfg x e i w = None"
proof (cases "nw_object w")
  case (Live c)
  then have "rc_state c = pump_active" using assms start_relay_active unfolding hc_started_def neg_handover_def by metis
  with Live show ?thesis by (simp add: hc_exec_def neg_exec_def)
qed (simp_all add: hc_exec_def neg_exec_def)

lemma skip_headers_length: "length (snd (httpc_skip_headers a)) \<le> length a"
proof (induction a rule: httpc_skip_headers.induct)
  case (1 a)
  show ?case
  proof (cases "redsocks_evbuffer_readline a")
    case None
    then show ?thesis by (simp add: httpc_skip_headers.simps [of a])
  next
    case (Some lr)
    then obtain l r where lr: "lr = (l, r)" by (cases lr)
    note sh = readline_shorter [OF Some [unfolded lr]]
    show ?thesis
    proof (cases "l = []")
      case True
      then show ?thesis using Some lr sh by (simp add: httpc_skip_headers.simps [of a])
    next
      case False
      with "1" [OF Some lr [symmetric] False] sh Some lr show ?thesis by (simp add: httpc_skip_headers.simps [of a])
    qed
  qed
qed

lemma skip_bound:
  assumes "redsocks_evbuffer_readline a = Some (l, r)" "httpc_skip_headers r = (d, i)"
  shows "length i \<le> length a"
  using readline_shorter [OF assms(1)] skip_headers_length [of r] assms(2) by simp

lemma hc_input_bound:
  assumes "hc_live cfg w c" "rc_state c \<noteq> httpc_new"
  shows "length (be_input (buf_of c RelaySide)) \<le> length (nw_received w)"
  using assms by (auto simp: hc_live_def hc_phase_def Let_def dest: skip_bound)

lemma hc_welcome:
  assumes "nw_object w = Live c" "hc_live cfg w c" "rc_state c \<noteq> httpc_new" "EV_READ \<notin> rc_evshut c RelaySide"
    "length (nw_received w) < HTTP_HEAD_WM_HIGH"
  shows "hc_exec cfg x e (Neg_reply [y]) w \<noteq> None"
proof -
  from assms(2) obtain b r where br: "rc_buffev c ClientSide = Some b" "rc_buffev c RelaySide = Some r" "rc_state c \<noteq> pump_active"
    by (rule live_bufs)
  have "EV_READ \<in> be_enabled r" "be_wm_read r = (1, HTTP_HEAD_WM_HIGH)"
    using assms(2-4) br(2) by (auto simp: hc_live_def hc_phase_def buf_of_def Let_def)
  then show ?thesis
    using assms(1,5) br hc_input_bound [OF assms(2,3)] by (simp add: hc_exec_def neg_exec_def buf_of_def Let_def)
qed

lemma hc_feed_good:
  assumes "hx_disable_ok x" "nw_object w = Live c" "hc_live cfg w c" "rc_state c \<noteq> httpc_new"
    "EV_READ \<notin> rc_evshut c RelaySide" "hc_feed cfg x e bss w = Some w'" "http_reply (nw_received w @ concat bss @ ys) \<noteq> None"
    "length (nw_received w @ concat bss @ ys) \<le> HTTP_HEAD_WM_HIGH"
  shows "nw_received w' = nw_received w @ concat bss \<and> (hc_started cfg w' \<or>
    http_reply (nw_received w') = None \<and> (\<exists>c'. nw_object w' = Live c') \<and> (\<forall>x e. hc_exec cfg x e (Neg_reply [hd ys]) w' \<noteq> None))"
  using assms(2-)
proof (induction bss arbitrary: w c)
  case Nil
  have "http_reply (nw_received w) = None" by (rule hc_live_reply [OF Nil(2,3)])
  moreover with Nil(6) have "ys \<noteq> []" by auto
  with Nil(7) have "length (nw_received w) < HTTP_HEAD_WM_HIGH" by (cases ys) simp_all
  ultimately show ?case using Nil(1,5) hc_welcome [OF Nil(1-4)] by simp
next
  case (Cons bs bss)
  then obtain w1 where w1: "hc_exec cfg x e (Neg_reply bs) w = Some w1" "hc_feed cfg x e bss w1 = Some w'"
    by (auto split: option.splits)
  then obtain v where v: "neg_exec (httpc_read_cb cfg x) (httpc_write_cb cfg x) e (Neg_reply bs) w = Some v" "w1 = hc_reset v"
    by (auto simp: hc_exec_def)
  note st = hc_reply_step [OF assms(1) Cons.prems(1,2) v(1)]
  have rec: "nw_received v @ concat bss @ ys = nw_received w @ concat (bs # bss) @ ys" using st by simp
  have "\<not> no_grant (nw_received v)" using no_grant_reply [of "nw_received v" "concat bss @ ys"] Cons.prems(6,7) rec by auto
  with st consider "hc_started cfg v" | c' where "nw_object v = Live c'" "hc_live cfg v c'" "rc_state c' \<noteq> httpc_new" "rc_evshut c' = rc_evshut c"
    by blast
  then show ?case
  proof cases
    case 1
    then have "w1 = v" using v(2) hc_reset_same [OF hc_handover] by simp
    moreover have "w' = w1 \<and> bss = []" using w1(2) hc_started_stuck [OF 1] calculation by (cases bss) simp_all
    ultimately show ?thesis using 1 st by simp
  next
    case 2
    then have w1v: "w1 = v" using v(2) hc_reset_same [OF hc_live_ok [OF 2(1,2)]] by simp
    have "EV_READ \<notin> rc_evshut c' RelaySide" using 2(4) Cons.prems(4) by simp
    from Cons.IH [OF 2(1-3) this] w1(2) w1v rec Cons.prems(6,7) st show ?thesis by auto
  qed
qed

section \<open>Replies that are not answered\<close>

text \<open>A header line that fills the input is never read and never refused: the read callback is not called any more.\<close>

lemma long_header_stuck:
  assumes "nw_object w = Live c" "hc_live cfg w c" "rc_state c = httpc_reply_came" "length (be_input (buf_of c RelaySide)) = HTTP_HEAD_WM_HIGH"
  shows "hc_exec cfg x e (Neg_reply bs) w = None"
proof -
  from assms(2) obtain b r where br: "rc_buffev c ClientSide = Some b" "rc_buffev c RelaySide = Some r" by (rule live_bufs)
  have "be_wm_read r = (1, HTTP_HEAD_WM_HIGH)"
    using assms(2,3) br(2) by (auto simp: hc_live_def hc_phase_def buf_of_def Let_def httpc_states)
  then show ?thesis using assms(1,4) br by (simp add: hc_exec_def neg_exec_def buf_of_def)
qed

text \<open>A challenge of which the status line has arrived but not yet the header is taken for a refusal.\<close>

lemma split_challenge_refused:
  assumes "redsocks_evbuffer_readline input = Some (line, rest)" "http_code line = Some 407" "redsocks_evbuffer_readline rest = None"
  shows "\<exists>tee. httpc_first_line cfg x auth input = Fl_next httpc_no_way rest (Some line) tee"
  using assms by (auto simp: httpc_first_line_def lines_of.simps [of rest] Let_def)

section \<open>Sessions\<close>

definition hc_cfg :: httpc_config where
  "hc_cfg = \<lparr>hc_login = Some (c_str ''u''), hc_password = Some (c_str ''p''), hc_dest_ip = c_str ''1.2.3.4'', hc_dest_port = 80,
     hc_client_ip = c_str ''10.0.0.2'', hc_client_port = 4000, hc_disclose_src = DISCLOSE_FORWARDED_IPPORT, hc_on_proxy_fail = ONFAIL_CLOSE\<rparr>"

definition hc_x :: hc_env where
  "hc_x = \<lparr>hx_junk = [], hx_rand = (0, 0), hx_connect_ok = True, hx_disable_ok = True, hx_tee_ok = True, hx_add_ok = (\<lambda>_. True), hx_write_ok = True\<rparr>"

definition hc_e :: rs_env where
  "hc_e = \<lparr>en_now = 0, en_alloc = True, en_enable_error = False, en_start = Start_ok\<rparr>"

definition hc_no_auth :: http_auth where
  "hc_no_auth = \<lparr>last_auth_query = None, last_auth_count = 0\<rparr>"

text \<open>The worlds that a client of an instance can reach.\<close>

abbreviation hc_session :: "httpc_config \<Rightarrow> hc_env \<Rightarrow> bool \<Rightarrow> http_auth \<Rightarrow> rs_env \<Rightarrow> http_auth neg_world \<Rightarrow> bool" where
  "hc_session cfg x sp auth e w \<equiv> hc_reach cfg (neg_start (httpc_write_cb cfg x) sp httpc_client_init auth e) w"

abbreviation hc_w0 :: "http_auth neg_world" where
  "hc_w0 \<equiv> neg_start (httpc_write_cb hc_cfg hc_x) False httpc_client_init hc_no_auth hc_e"

lemma hc_x_ok: "hx_disable_ok hc_x" "hc_on_proxy_fail hc_cfg = ONFAIL_CLOSE" "auth_ok hc_cfg hc_no_auth"
  by (simp_all add: hc_x_def hc_cfg_def auth_ok_def hc_no_auth_def)

definition hc_challenge :: "byte list" where
  "hc_challenge = c_str ''HTTP/1.1 407 No'' @ [13, 10] @ c_str ''A: b'' @ [13, 10] @ c_str ''Proxy-Authenticate: Basic'' @ [13, 10, 13, 10]"

definition hc_grant :: "byte list" where
  "hc_grant = c_str ''HTTP/1.1 200 OK'' @ [13, 10] @ c_str ''A: b'' @ [13, 10, 13, 10]"

text \<open>The proxy asks for a password, gets it on a second connection, and grants the request.\<close>

definition hc_ex_auth :: "http_auth neg_world option" where
  "hc_ex_auth = Option.bind (hc_exec hc_cfg hc_x hc_e (Neg_reply hc_challenge) hc_w0) (hc_exec hc_cfg hc_x hc_e (Neg_written 0))"

lemma hc_ex_active:
  "live_with (\<lambda>c. rc_state c = pump_active) (hc_grant @ [65]) (Option.bind hc_ex_auth (hc_feed hc_cfg hc_x hc_e [take 9 hc_grant, drop 9 hc_grant @ [65]]))"
  by code_simp

lemma hc_ex_waiting:
  "live_with (\<lambda>c. rc_state c = httpc_request_sent \<and> EV_READ \<notin> rc_evshut c RelaySide) [] hc_ex_auth"
  by code_simp

lemma hc_ex_auth_reach:
  assumes "hc_ex_auth = Some w"
  shows "hc_session hc_cfg hc_x False hc_no_auth hc_e w"
proof -
  obtain v where "hc_exec hc_cfg hc_x hc_e (Neg_reply hc_challenge) hc_w0 = Some v" "hc_exec hc_cfg hc_x hc_e (Neg_written 0) v = Some w"
    using assms by (auto simp: hc_ex_auth_def Option.bind_eq_Some_conv)
  then show ?thesis using hc_x_ok(1) by (blast intro: hc_reach.intros)
qed

text \<open>A proxy that asks for Digest authentication without any parameter makes the next request read outside of its memory.\<close>

definition hc_ex_digest :: "http_auth neg_world option" where
  "hc_ex_digest = Option.bind (hc_exec hc_cfg hc_x hc_e
     (Neg_reply (c_str ''HTTP/1.1 407 No'' @ [13, 10] @ c_str ''Proxy-Authenticate: Digest'' @ [13, 10, 13, 10])) hc_w0)
     (hc_exec hc_cfg hc_x hc_e (Neg_written 0))"

lemma short_challenge_reachable: "\<exists>w. hc_session hc_cfg hc_x False hc_no_auth hc_e w \<and> nw_object w = Bad"
proof -
  have "case hc_ex_digest of None \<Rightarrow> False | Some w \<Rightarrow> (case nw_object w of Bad \<Rightarrow> True | _ \<Rightarrow> False)" by code_simp
  then obtain v w where "hc_exec hc_cfg hc_x hc_e
      (Neg_reply (c_str ''HTTP/1.1 407 No'' @ [13, 10] @ c_str ''Proxy-Authenticate: Digest'' @ [13, 10, 13, 10])) hc_w0 = Some v"
      "hc_exec hc_cfg hc_x hc_e (Neg_written 0) v = Some w" "nw_object w = Bad"
    by (auto simp: hc_ex_digest_def Option.bind_eq_Some_conv split: option.splits rs_object.splits)
  then show ?thesis using hc_x_ok(1) by (blast intro: hc_reach.intros)
qed



text \<open>Claim C37: with either way of handling failures, a proxy that grants the request in at most 4096 bytes is accepted in whatever pieces they arrive: until its head is complete the
  client lives and takes the next byte, and then the relay starts with exactly what follows the head.\<close>

theorem httpc_accepts_good_proxy:
  assumes "hc_session cfg x0 sp auth e0 w" "auth_ok cfg auth" "nw_object w = Live c"
    "rc_state c \<noteq> pump_active" "rc_state c \<noteq> httpc_new" "EV_READ \<notin> rc_evshut c RelaySide" "hx_disable_ok x"
    "hc_feed cfg x e bss w = Some w'" "http_reply (nw_received w @ concat bss @ ys) \<noteq> None"
    "length (nw_received w @ concat bss @ ys) \<le> HTTP_HEAD_WM_HIGH"
  shows "nw_received w' = nw_received w @ concat bss \<and>
    (case http_reply (nw_received w') of
       Some rest \<Rightarrow> \<exists>out c0. is_request cfg out \<and> neg_handover out rest w' c0
     | None \<Rightarrow> (\<exists>c'. nw_object w' = Live c') \<and> (\<forall>x e. hc_exec cfg x e (Neg_reply [hd ys]) w' \<noteq> None))"
proof -
  have "hc_live cfg w c" using hc_session_ok [OF assms(1,2,2)] assms(3,4) by (simp add: hc_ok_def)
  from hc_feed_good [OF assms(7,3) this assms(5,6,8-10)] show ?thesis
    by (auto simp: hc_started_def split: option.split) blast
qed

theorem httpc_accepts_good_proxy_witness:
  "\<exists>w' out c0. hc_session hc_cfg hc_x False hc_no_auth hc_e w' \<and> nw_received w' = hc_grant @ [65] \<and> is_request hc_cfg out \<and>
     neg_handover out [65] w' c0"
proof -
  obtain w c where w: "hc_ex_auth = Some w" "nw_received w = []" "nw_object w = Live c"
    "rc_state c = httpc_request_sent \<and> EV_READ \<notin> rc_evshut c RelaySide"
    by (rule live_withE [OF hc_ex_waiting])
  have "live_with (\<lambda>c. rc_state c = pump_active) (hc_grant @ [65]) (hc_feed hc_cfg hc_x hc_e [take 9 hc_grant, drop 9 hc_grant @ [65]] w)"
    using hc_ex_active unfolding w(1) Option.bind.simps .
  then obtain w' where w': "hc_feed hc_cfg hc_x hc_e [take 9 hc_grant, drop 9 hc_grant @ [65]] w = Some w'"
    by (rule live_withE)
  have g: "http_reply (hc_grant @ [65]) = Some [65]" "length (hc_grant @ [65]) = 26" by code_simp+
  have c: "concat [take 9 hc_grant, drop 9 hc_grant @ [65]] = hc_grant @ [65]" by simp
  note r = hc_ex_auth_reach [OF w(1)]
  have "hc_session hc_cfg hc_x False hc_no_auth hc_e w'" by (rule hc_feed_reach [OF w' hc_x_ok(1) r])
  moreover have "nw_received w' = hc_grant @ [65] \<and> (\<exists>out c0. is_request hc_cfg out \<and> neg_handover out [65] w' c0)"
    using httpc_accepts_good_proxy [OF r hc_x_ok(3) w(3) _ _ _ hc_x_ok(1) w', of "[]"] w(2,4) g
    unfolding c by (auto simp: httpc_states HTTP_HEAD_WM_HIGH_def)
  ultimately show ?thesis by blast
qed

end
