(* ===== verification/Red_Socks.thy ===== *)
theory Red_Socks
  imports Red_Negotiate
begin

text \<open>
  The SOCKS subsystems of redsocks: \<^verbatim>\<open>redsocks/socks5.c\<close> with \<^verbatim>\<open>socks5.h\<close>, and \<^verbatim>\<open>redsocks/socks4.c\<close>. Both are interpreted as
  \<open>fixed_reply_subsys\<close>.
\<close>

section \<open>SOCKS5 (redsocks/socks5.c)\<close>

text \<open>Login and password are strings without their terminating zero; the destination is in network byte order.\<close>

record relay_config =
  cf_login :: "byte list option"
  cf_password :: "byte list option"
  cf_dest_addr :: "byte list"
  cf_dest_port :: "byte list"

record socks5_client =
  do_password :: bool
  to_skip :: nat

definition socks5_new :: int where "socks5_new = 0"
definition socks5_method_sent :: int where "socks5_method_sent = 1"
definition socks5_auth_sent :: int where "socks5_auth_sent = 2"
definition socks5_request_sent :: int where "socks5_request_sent = 3"
definition socks5_skip_domain :: int where "socks5_skip_domain = 4"
definition socks5_skip_address :: int where "socks5_skip_address = 5"

definition socks5_is_valid_cred :: "byte list option \<Rightarrow> byte list option \<Rightarrow> bool" where
  "socks5_is_valid_cred login password = (case (login, password) of
     (Some l, Some p) \<Rightarrow> length l \<le> 255 \<and> length p \<le> 255
   | _ \<Rightarrow> False)"

definition socks5_instance_init :: "relay_config \<Rightarrow> relay_config" where
  "socks5_instance_init cfg =
     (if cf_login cfg \<noteq> None \<or> cf_password cfg \<noteq> None
      then (let deauth = (if cf_login cfg \<noteq> None \<and> cf_password cfg \<noteq> None
                          then \<not> socks5_is_valid_cred (cf_login cfg) (cf_password cfg) else True) in
            if deauth then cfg\<lparr>cf_login := None, cf_password := None\<rparr> else cfg)
      else cfg)"

definition socks5_client_init :: "relay_config \<Rightarrow> socks5_client \<Rightarrow> int \<times> socks5_client" where
  "socks5_client_init cfg p = (socks5_new, p\<lparr>do_password := (cf_login cfg \<noteq> None \<and> cf_password cfg \<noteq> None)\<rparr>)"

definition socks5_mkmethods_plain :: "bool \<Rightarrow> byte list" where
  "socks5_mkmethods_plain dp = [5, if dp then 2 else 1, 0] @ (if dp then [2] else [])"

definition socks5_mkpassword_plain :: "byte list \<Rightarrow> byte list \<Rightarrow> byte list" where
  "socks5_mkpassword_plain login password =
     [1, of_nat (length login)] @ login @ [of_nat (length password)] @ password"

definition socks5_mkcommand_plain :: "byte \<Rightarrow> relay_config \<Rightarrow> byte list" where
  "socks5_mkcommand_plain cmd cfg = [5, cmd, 0, 1] @ cf_dest_addr cfg @ cf_dest_port cfg"

definition socks5_mkconnect :: "relay_config \<Rightarrow> byte list" where
  "socks5_mkconnect cfg = socks5_mkcommand_plain 1 cfg"

definition socks5_mkpassword :: "relay_config \<Rightarrow> byte list" where
  "socks5_mkpassword cfg = socks5_mkpassword_plain (the (cf_login cfg)) (the (cf_password cfg))"

definition socks5_write_cb :: "relay_config \<Rightarrow> socks5_client neg_callback" where
  "socks5_write_cb cfg e = (\<lambda>(c, p).
     let c1 = redsocks_touch_client (en_now e) c in
     if rc_state c1 = socks5_new
     then (redsocks_write_helper c1 (Some (mkevbuffer e (socks5_mkmethods_plain (do_password p)))) socks5_method_sent 2, p)
     else (([], Live c1), p))"

definition socks5_is_known_auth_method :: "byte list \<Rightarrow> bool \<Rightarrow> bool" where
  "socks5_is_known_auth_method reply dp \<longleftrightarrow>
     \<not> (reply ! 0 \<noteq> 5) \<and> \<not> (reply ! 1 = 0xFF) \<and> \<not> (reply ! 1 \<noteq> 0 \<and> \<not> (reply ! 1 = 2 \<and> dp))"

definition socks5_read_auth_methods :: "relay_config \<Rightarrow> socks5_client neg_callback" where
  "socks5_read_auth_methods cfg e = (\<lambda>(c, p). (case redsocks_read_expected c RelaySide sizes_equal 2 of
     None \<Rightarrow> (redsocks_drop_client c, p)
   | Some (reply, c1) \<Rightarrow>
       if \<not> socks5_is_known_auth_method reply (do_password p) then (redsocks_drop_client c1, p)
       else if reply ! 1 = 0 then (redsocks_write_helper c1 (Some (mkevbuffer e (socks5_mkconnect cfg))) socks5_request_sent 4, p)
       else if reply ! 1 = 2 then (redsocks_write_helper c1 (Some (mkevbuffer e (socks5_mkpassword cfg))) socks5_auth_sent 2, p)
       else (([], Live c1), p)))"

definition socks5_read_auth_reply :: "relay_config \<Rightarrow> socks5_client neg_callback" where
  "socks5_read_auth_reply cfg e = (\<lambda>(c, p). (case redsocks_read_expected c RelaySide sizes_equal 2 of
     None \<Rightarrow> (redsocks_drop_client c, p)
   | Some (reply, c1) \<Rightarrow>
       if reply ! 0 \<noteq> 1 then (redsocks_drop_client c1, p)
       else if reply ! 1 = 0 then (redsocks_write_helper c1 (Some (mkevbuffer e (socks5_mkconnect cfg))) socks5_request_sent 4, p)
       else (redsocks_drop_client c1, p)))"

definition socks5_read_reply :: "socks5_client neg_callback" where
  "socks5_read_reply e = (\<lambda>(c, p). (case redsocks_read_expected c RelaySide sizes_greater_equal 4 of
     None \<Rightarrow> (redsocks_drop_client c, p)
   | Some (reply, c1) \<Rightarrow>
       if reply ! 0 \<noteq> 5 then (redsocks_drop_client c1, p)
       else if reply ! 1 = 0
       then (if reply ! 3 = 1 then (redsocks_write_helper c1 None socks5_skip_address 6, p\<lparr>to_skip := 6\<rparr>)
             else if reply ! 3 = 4 then (redsocks_write_helper c1 None socks5_skip_address 18, p\<lparr>to_skip := 18\<rparr>)
             else if reply ! 3 = 3 then (redsocks_write_helper c1 None socks5_skip_domain 1, p)
             else (redsocks_drop_client c1, p))
       else (redsocks_drop_client c1, p)))"

definition socks5_read_cb :: "relay_config \<Rightarrow> socks5_client neg_callback" where
  "socks5_read_cb cfg e = (\<lambda>(c0, p).
     let c = redsocks_touch_client (en_now e) c0 in
     if rc_state c = socks5_method_sent then socks5_read_auth_methods cfg e (c, p)
     else if rc_state c = socks5_auth_sent then socks5_read_auth_reply cfg e (c, p)
     else if rc_state c = socks5_request_sent then socks5_read_reply e (c, p)
     else if rc_state c = socks5_skip_domain
     then (case redsocks_read_expected c RelaySide sizes_greater_equal 1 of
         None \<Rightarrow> (redsocks_drop_client c, p)
       | Some (sz, c1) \<Rightarrow>
           (let n = unat (sz ! 0) + 2 in (redsocks_write_helper c1 None socks5_skip_address n, p\<lparr>to_skip := n\<rparr>)))
     else if rc_state c = socks5_skip_address
     then (case redsocks_read_expected c RelaySide sizes_greater_equal (to_skip p) of
         None \<Rightarrow> (redsocks_drop_client c, p)
       | Some (_, c1) \<Rightarrow> (redsocks_start_relay (en_enable_error e) (en_start e) c1, p))
     else (redsocks_drop_client c, p))"

section \<open>SOCKS4 (redsocks/socks4.c)\<close>

definition socks4_new :: int where "socks4_new = 0"
definition socks4_request_sent :: int where "socks4_request_sent = 1"
definition socks4_reply_came :: int where "socks4_reply_came = 2"

text \<open>SOCKS4 has no part of its own in the client; the user name is sent with its terminating zero.\<close>

definition socks4_mkconnect :: "relay_config \<Rightarrow> byte list" where
  "socks4_mkconnect cfg =
     [4, 1] @ cf_dest_port cfg @ cf_dest_addr cfg @ (case cf_login cfg of None \<Rightarrow> [] | Some l \<Rightarrow> l) @ [0]"

definition socks4_write_cb :: "relay_config \<Rightarrow> unit neg_callback" where
  "socks4_write_cb cfg e = (\<lambda>(c0, p).
     let c = redsocks_touch_client (en_now e) c0 in
     if rc_state c = socks4_new
     then (redsocks_write_helper c (Some (mkevbuffer e (socks4_mkconnect cfg))) socks4_request_sent 8, p)
     else if rc_state c \<ge> socks4_request_sent
     then (case rc_buffev c RelaySide of
         None \<Rightarrow> (([], Bad), p)
       | Some b \<Rightarrow> (([], Live (set_buffev RelaySide (bufferevent_disable b {EV_WRITE}) c)), p))
     else (([], Live c), p))"

definition socks4_read_cb :: "unit neg_callback" where
  "socks4_read_cb e = (\<lambda>(c0, p).
     let c = redsocks_touch_client (en_now e) c0 in
     if rc_state c < socks4_request_sent then (([], Bad), p)
     else if rc_state c = socks4_request_sent
     then (case redsocks_read_expected c RelaySide sizes_greater_equal 8 of
         None \<Rightarrow> (redsocks_drop_client c, p)
       | Some (reply, c1) \<Rightarrow>
           (let c2 = c1\<lparr>rc_state := socks4_reply_came\<rparr> in
            if reply ! 0 \<noteq> 0 then (redsocks_drop_client c2, p)
            else if reply ! 1 = 90 then (redsocks_start_relay (en_enable_error e) (en_start e) c2, p)
            else (redsocks_drop_client c2, p)))
     else (([], Live c), p))"

section \<open>The SOCKS5 machine\<close>

text \<open>What RFC 1928 and RFC 1929 make of the replies of a server, one reply after the other.\<close>

datatype socks5_phase = S5_method | S5_auth | S5_request | S5_domain | S5_ipv4 | S5_ipv6 | S5_name byte

fun socks5_need :: "socks5_phase \<Rightarrow> nat" where
  "socks5_need S5_method = 2"
| "socks5_need S5_auth = 2"
| "socks5_need S5_request = 4"
| "socks5_need S5_domain = 1"
| "socks5_need S5_ipv4 = 4 + 2"
| "socks5_need S5_ipv6 = 16 + 2"
| "socks5_need (S5_name n) = unat n + 2"

definition uses_password :: "relay_config \<Rightarrow> bool" where
  "uses_password cfg \<longleftrightarrow> cf_login cfg \<noteq> None \<and> cf_password cfg \<noteq> None"

fun socks5_react :: "relay_config \<Rightarrow> socks5_phase \<Rightarrow> byte list \<Rightarrow> socks5_phase reaction" where
  "socks5_react cfg S5_method reply =
     (if reply = [5, 0] then Send (Some (socks5_mkconnect cfg)) S5_request
      else if reply = [5, 2] \<and> uses_password cfg then Send (Some (socks5_mkpassword cfg)) S5_auth
      else Refuse)"
| "socks5_react cfg S5_auth reply =
     (if reply = [1, 0] then Send (Some (socks5_mkconnect cfg)) S5_request else Refuse)"
| "socks5_react cfg S5_request reply =
     (case reply of
        [ver, status, reserved, addrtype] \<Rightarrow>
          if ver \<noteq> 5 \<or> status \<noteq> 0 then Refuse
          else if addrtype = 1 then Send None S5_ipv4
          else if addrtype = 4 then Send None S5_ipv6
          else if addrtype = 3 then Send None S5_domain
          else Refuse
      | _ \<Rightarrow> Refuse)"
| "socks5_react cfg S5_domain reply = Send None (S5_name (hd reply))"
| "socks5_react cfg S5_ipv4 reply = Start"
| "socks5_react cfg S5_ipv6 reply = Start"
| "socks5_react cfg (S5_name n) reply = Start"

text \<open>The state and the payload of a client in a phase.\<close>

fun socks5_conc :: "relay_config \<Rightarrow> socks5_phase \<Rightarrow> int \<Rightarrow> socks5_client \<Rightarrow> bool" where
  "socks5_conc cfg S5_method st p \<longleftrightarrow> st = socks5_method_sent \<and> do_password p = uses_password cfg"
| "socks5_conc cfg S5_auth st p \<longleftrightarrow> st = socks5_auth_sent"
| "socks5_conc cfg S5_request st p \<longleftrightarrow> st = socks5_request_sent"
| "socks5_conc cfg S5_domain st p \<longleftrightarrow> st = socks5_skip_domain"
| "socks5_conc cfg S5_ipv4 st p \<longleftrightarrow> st = socks5_skip_address \<and> to_skip p = 6"
| "socks5_conc cfg S5_ipv6 st p \<longleftrightarrow> st = socks5_skip_address \<and> to_skip p = 18"
| "socks5_conc cfg (S5_name n) st p \<longleftrightarrow> st = socks5_skip_address \<and> to_skip p = unat n + 2"

lemmas socks5_states = socks5_new_def socks5_method_sent_def socks5_auth_sent_def socks5_request_sent_def
  socks5_skip_domain_def socks5_skip_address_def pump_active_def

lemma read_expected_all:
  assumes "rc_buffev c s = Some b" "length (be_input b) = n" "comparator = sizes_equal \<or> comparator = sizes_greater_equal"
  shows "redsocks_read_expected c s comparator n = Some (be_input b, set_buffev s (b\<lparr>be_input := []\<rparr>) c)"
  using assms by (auto simp: redsocks_read_expected_def sizes_equal_def sizes_greater_equal_def)

lemma list_2: "length xs = 2 \<longleftrightarrow> (\<exists>a b. xs = [a, b])"
  by (auto simp: numeral_2_eq_2 length_Suc_conv)

lemma list_4: "length xs = 4 \<longleftrightarrow> (\<exists>a b c d. xs = [a, b, c, d])"
  by (auto simp: eval_nat_numeral length_Suc_conv)

lemma list_1: "length xs = Suc 0 \<longleftrightarrow> (\<exists>a. xs = [a])"
  by (auto simp: length_Suc_conv)

lemmas socks5_cb_defs = socks5_read_cb_def socks5_read_auth_methods_def socks5_read_auth_reply_def socks5_read_reply_def
  socks5_is_known_auth_method_def

lemma socks5_refused:
  assumes "socks5_conc cfg q (rc_state c) p" "rc_buffev c RelaySide = Some b" "length (be_input b) = socks5_need q"
    "socks5_react cfg q (be_input b) = Refuse"
  shows "snd (fst (socks5_read_cb cfg e (c, p))) = Freed"
  using assms
  by (cases q) (auto simp: list_2 list_4 read_expected_all socks5_cb_defs socks5_states Let_def split: if_splits)

lemma socks5_answered:
  assumes "socks5_conc cfg q (rc_state c) p" "rc_buffev c RelaySide = Some b" "length (be_input b) = socks5_need q"
    "socks5_react cfg q (be_input b) = Send m q'"
  shows "\<exists>st p'. socks5_conc cfg q' st p' \<and> socks5_read_cb cfg e (c, p) =
    (redsocks_write_helper (set_buffev RelaySide (b\<lparr>be_input := []\<rparr>) (redsocks_touch_client (en_now e) c))
       (map_option (mkevbuffer e) m) st (socks5_need q'), p')"
  using assms
  by (cases q) (auto simp: list_1 list_2 list_4 read_expected_all socks5_cb_defs socks5_states Let_def split: if_splits)

lemma socks5_started:
  assumes "socks5_conc cfg q (rc_state c) p" "rc_buffev c RelaySide = Some b" "length (be_input b) = socks5_need q"
    "socks5_react cfg q (be_input b) = Start"
  shows "\<exists>c1. socks5_read_cb cfg e (c, p) = (redsocks_start_relay (en_enable_error e) (en_start e) c1, p) \<and>
    rc_evshut c1 = rc_evshut c \<and> rc_pump c1 = rc_pump c \<and> rc_buffev c1 = (rc_buffev c)(RelaySide := Some (b\<lparr>be_input := []\<rparr>))"
  using assms
  by (cases q) (auto simp: list_2 list_4 read_expected_all socks5_cb_defs socks5_states Let_def split: if_splits list.splits)

lemma socks5_drained:
  assumes "socks5_conc cfg q (rc_state c) p" "rc_buffev c RelaySide = Some b"
  shows "\<exists>c' evs. socks5_write_cb cfg e (c, p) = (([], Live c'), p) \<and> evs \<subseteq> {EV_WRITE} \<and> rc_state c' = rc_state c \<and>
    rc_evshut c' = rc_evshut c \<and> rc_pump c' = rc_pump c \<and> rc_buffev c' = (rc_buffev c)(RelaySide := Some (bufferevent_disable b evs))"
proof (intro exI conjI)
  show "socks5_write_cb cfg e (c, p) = (([], Live (redsocks_touch_client (en_now e) c)), p)"
    using assms(1) by (cases q) (simp_all add: socks5_write_cb_def socks5_states)
  show "rc_buffev (redsocks_touch_client (en_now e) c) = (rc_buffev c)(RelaySide := Some (bufferevent_disable b {}))"
    using assms(2) by (auto simp: bufferevent_disable_def fun_eq_iff)
qed simp_all

lemma socks5_hello:
  "rc_state c = socks5_new \<Longrightarrow> socks5_write_cb cfg e (c, p\<lparr>do_password := uses_password cfg\<rparr>) =
     (redsocks_write_helper (redsocks_touch_client (en_now e) c)
        (Some (mkevbuffer e (socks5_mkmethods_plain (uses_password cfg)))) socks5_method_sent (socks5_need S5_method),
      p\<lparr>do_password := uses_password cfg\<rparr>)"
  by (simp add: socks5_write_cb_def)

interpretation socks5: fixed_reply_subsys "socks5_read_cb cfg" "socks5_write_cb cfg" "socks5_conc cfg" socks5_need "socks5_react cfg"
  socks5_new "p\<lparr>do_password := uses_password cfg\<rparr>" socks5_method_sent S5_method "socks5_mkmethods_plain (uses_password cfg)"
  for cfg p
proof
  show "0 < socks5_need q" for q by (cases q) simp_all
  show "socks5_conc cfg q st p' \<Longrightarrow> st \<noteq> pump_active" for q st p' by (cases q) (auto simp: socks5_states)
qed ((rule socks5_hello socks5_drained socks5_refused socks5_answered socks5_started; assumption) | simp)+

text \<open>The streams that make a SOCKS5 negotiation succeed, and the messages that are sent for them.\<close>

definition socks5_good_reply :: "byte list \<Rightarrow> bool" where
  "socks5_good_reply rs \<longleftrightarrow> (case rs of
     ver # status # reserved # addrtype # bound \<Rightarrow>
       ver = 5 \<and> status = 0 \<and>
       (addrtype = 1 \<and> length bound = 4 + 2 \<or> addrtype = 4 \<and> length bound = 16 + 2 \<or>
        addrtype = 3 \<and> bound \<noteq> [] \<and> length bound = 1 + unat (hd bound) + 2)
   | _ \<Rightarrow> False)"

definition socks5_session :: "relay_config \<Rightarrow> byte list \<Rightarrow> byte list option" where
  "socks5_session cfg xs =
     (if take 2 xs = [5, 0] \<and> socks5_good_reply (drop 2 xs) then Some (socks5_mkconnect cfg)
      else if uses_password cfg \<and> take 4 xs = [5, 2, 1, 0] \<and> socks5_good_reply (drop 4 xs)
      then Some (socks5_mkpassword cfg @ socks5_mkconnect cfg)
      else None)"

abbreviation run5 :: "relay_config \<Rightarrow> socks5_phase \<Rightarrow> byte list \<Rightarrow> socks5_phase neg_outcome" where
  "run5 cfg \<equiv> neg_run socks5_need (socks5_react cfg)"

lemma run5_bound:
  "run5 cfg S5_ipv4 xs = Accepted [] out \<longleftrightarrow> length xs = 6 \<and> out = []"
  "run5 cfg S5_ipv6 xs = Accepted [] out \<longleftrightarrow> length xs = 18 \<and> out = []"
  "run5 cfg (S5_name n) xs = Accepted [] out \<longleftrightarrow> length xs = unat n + 2 \<and> out = []"
  by (auto simp: neg_run.simps)

lemma run5_domain:
  "run5 cfg S5_domain xs = Accepted [] out \<longleftrightarrow> xs \<noteq> [] \<and> length xs = 1 + unat (hd xs) + 2 \<and> out = []"
proof (cases xs)
  case (Cons n xs')
  then show ?thesis
    by (simp add: neg_run.simps [of _ _ S5_domain] run5_bound message_def)
qed (simp add: neg_run.simps)

lemma run5_request: "run5 cfg S5_request xs = Accepted [] out \<longleftrightarrow> socks5_good_reply xs \<and> out = []"
proof (cases "length xs < 4")
  case True
  then have "\<not> socks5_good_reply xs" by (auto simp: socks5_good_reply_def split: list.splits)
  with True show ?thesis by (simp add: neg_run.simps)
next
  case False
  then obtain a b c d ys where "xs = a # b # c # d # ys"
    by (cases xs; cases "tl xs"; cases "tl (tl xs)"; cases "tl (tl (tl xs))") auto
  then show ?thesis
    by (auto simp: neg_run.simps [of _ _ S5_request] run5_bound run5_domain message_def socks5_good_reply_def)
qed

lemma run5_auth:
  "run5 cfg S5_auth xs = Accepted [] out \<longleftrightarrow> take 2 xs = [1, 0] \<and> socks5_good_reply (drop 2 xs) \<and> out = socks5_mkconnect cfg"
proof (cases "length xs < 2")
  case True
  then have "take 2 xs \<noteq> [1, 0]" by (auto dest: arg_cong [where f = length])
  with True show ?thesis by (simp add: neg_run.simps)
next
  case False
  then show ?thesis by (auto simp: neg_run.simps [of _ _ S5_auth] run5_request message_def)
qed

lemma run5_accepted: "run5 cfg S5_method xs = Accepted [] out \<longleftrightarrow> socks5_session cfg xs = Some out"
proof (cases "length xs < 2")
  case True
  then have "take 2 xs \<noteq> [5, 0]" "take 4 xs \<noteq> [5, 2, 1, 0]" by (auto dest: arg_cong [where f = length])
  with True show ?thesis by (simp add: neg_run.simps socks5_session_def)
next
  case False
  then obtain a b ys where xs: "xs = a # b # ys" by (cases xs; cases "tl xs") auto
  then show ?thesis
    by (auto simp: neg_run.simps [of _ _ S5_method] run5_request run5_auth message_def socks5_session_def numeral_eq_Suc)
qed

fun socks5_left :: "socks5_phase \<Rightarrow> nat" where
  "socks5_left S5_method = 266"
| "socks5_left S5_auth = 264"
| "socks5_left S5_request = 262"
| "socks5_left S5_domain = 258"
| "socks5_left S5_ipv4 = 6"
| "socks5_left S5_ipv6 = 18"
| "socks5_left (S5_name n) = unat n + 2"

lemma socks5_left_need: "socks5_need q \<le> socks5_left q"
  by (cases q) simp_all

lemma socks5_left_send:
  "length bs = socks5_need q \<Longrightarrow> socks5_react cfg q bs = Send m q' \<Longrightarrow> socks5_need q + socks5_left q' \<le> socks5_left q"
proof (cases q)
  case S5_domain
  assume "socks5_react cfg q bs = Send m q'"
  moreover have "unat (hd bs) < 256" using unsigned_less [of "hd bs"] by simp
  ultimately show ?thesis using S5_domain by auto
qed (auto simp: list_4 split: if_splits)

section \<open>The SOCKS4 machine\<close>

definition socks4_react :: "unit \<Rightarrow> byte list \<Rightarrow> unit reaction" where
  "socks4_react q reply = (if take 2 reply = [0, 90] then Start else Refuse)"

definition socks4_conc :: "unit \<Rightarrow> int \<Rightarrow> unit \<Rightarrow> bool" where
  "socks4_conc q st p \<longleftrightarrow> st = socks4_request_sent"

lemmas socks4_defs = socks4_read_cb_def socks4_conc_def socks4_react_def socks4_request_sent_def socks4_new_def socks4_reply_came_def
  pump_active_def

lemma list_8_take: "length xs = 8 \<Longrightarrow> take 2 xs = [xs ! 0, xs ! 1]"
  by (cases xs; cases "tl xs") (auto simp: numeral_2_eq_2)

interpretation socks4: fixed_reply_subsys socks4_read_cb "socks4_write_cb cfg" socks4_conc "\<lambda>_. 8" socks4_react
  socks4_new "()" socks4_request_sent "()" "socks4_mkconnect cfg"
  for cfg
proof
  fix c :: redsocks_client and p :: unit and b :: bufferevent and q :: unit and e
  assume c: "socks4_conc q (rc_state c) p" and b: "rc_buffev c RelaySide = Some b"
  show "\<exists>c' evs. socks4_write_cb cfg e (c, p) = (([], Live c'), p) \<and> evs \<subseteq> {EV_WRITE} \<and> rc_state c' = rc_state c \<and>
    rc_evshut c' = rc_evshut c \<and> rc_pump c' = rc_pump c \<and> rc_buffev c' = (rc_buffev c)(RelaySide := Some (bufferevent_disable b evs))"
  proof (intro exI conjI)
    show "socks4_write_cb cfg e (c, p) =
        (([], Live (set_buffev RelaySide (bufferevent_disable b {EV_WRITE}) (redsocks_touch_client (en_now e) c))), p)"
      using c b by (simp add: socks4_write_cb_def socks4_defs)
  qed simp_all
  assume l: "length (be_input b) = 8"
  have r: "redsocks_read_expected (redsocks_touch_client (en_now e) c) RelaySide sizes_greater_equal 8 =
      Some (be_input b, set_buffev RelaySide (b\<lparr>be_input := []\<rparr>) (redsocks_touch_client (en_now e) c))"
    by (rule read_expected_all) (use b l in simp_all)
  note t = list_8_take [OF l]
  show "snd (fst (socks4_read_cb e (c, p))) = Freed" if "socks4_react q (be_input b) = Refuse"
    using that c r by (auto simp: socks4_defs t Let_def split: if_splits)
  show "\<exists>st p'. socks4_conc q' st p' \<and> socks4_read_cb e (c, p) =
      (redsocks_write_helper (set_buffev RelaySide (b\<lparr>be_input := []\<rparr>) (redsocks_touch_client (en_now e) c))
        (map_option (mkevbuffer e) m) st 8, p')" if "socks4_react q (be_input b) = Send m q'" for m q'
    using that by (simp add: socks4_react_def split: if_splits)
  show "\<exists>c1. socks4_read_cb e (c, p) = (redsocks_start_relay (en_enable_error e) (en_start e) c1, p) \<and> rc_evshut c1 = rc_evshut c \<and>
      rc_pump c1 = rc_pump c \<and> rc_buffev c1 = (rc_buffev c)(RelaySide := Some (b\<lparr>be_input := []\<rparr>))"
    if "socks4_react q (be_input b) = Start"
    using that c r by (auto simp: socks4_defs t Let_def split: if_splits)
next
  show "rc_state c = socks4_new \<Longrightarrow> socks4_write_cb cfg e (c, ()) =
      (redsocks_write_helper (redsocks_touch_client (en_now e) c) (Some (mkevbuffer e (socks4_mkconnect cfg))) socks4_request_sent 8, ())"
    for c e by (simp add: socks4_write_cb_def)
qed (auto simp: socks4_defs)

section \<open>Properties\<close>

text \<open>The password message as a server reads it by RFC 1929. The check at the start of the program keeps its lengths within a byte.\<close>

definition rfc1929_parse :: "byte list \<Rightarrow> (byte list \<times> byte list) option" where
  "rfc1929_parse bs = (case bs of
     ver # ulen # body \<Rightarrow> (case drop (unat ulen) body of
         plen # password \<Rightarrow> if ver = 1 \<and> length password = unat plen then Some (take (unat ulen) body, password) else None
       | [] \<Rightarrow> None)
   | _ \<Rightarrow> None)"

lemma socks5_password_parses:
  assumes "uses_password (socks5_instance_init cfg)"
  shows "rfc1929_parse (socks5_mkpassword (socks5_instance_init cfg)) =
    Some (the (cf_login (socks5_instance_init cfg)), the (cf_password (socks5_instance_init cfg)))"
proof -
  obtain l p where lp: "cf_login cfg = Some l" "cf_password cfg = Some p" "length l \<le> 255" "length p \<le> 255" "socks5_instance_init cfg = cfg"
    using assms
    by (auto simp: socks5_instance_init_def uses_password_def socks5_is_valid_cred_def Let_def split: if_splits option.splits)
  have "unat (of_nat (length l) :: byte) = length l" "unat (of_nat (length p) :: byte) = length p"
    using lp(3,4) by (simp_all add: unat_of_nat)
  with lp show ?thesis
    by (simp add: rfc1929_parse_def socks5_mkpassword_def socks5_mkpassword_plain_def)
qed

lemma client_init_payload:
  "socks5_client_init cfg p0 = (st, p) \<Longrightarrow> st = socks5_new \<and> p = p0\<lparr>do_password := uses_password cfg\<rparr>"
  by (auto simp: socks5_client_init_def uses_password_def)

abbreviation reach5 :: "relay_config \<Rightarrow> bool \<Rightarrow> int \<Rightarrow> socks5_client \<Rightarrow> rs_env \<Rightarrow> socks5_client neg_world \<Rightarrow> bool" where
  "reach5 cfg sp st p e \<equiv> neg_reach (socks5_read_cb cfg) (socks5_write_cb cfg) (neg_start (socks5_write_cb cfg) sp st p e)"

abbreviation reach4 :: "relay_config \<Rightarrow> bool \<Rightarrow> rs_env \<Rightarrow> unit neg_world \<Rightarrow> bool" where
  "reach4 cfg sp e \<equiv> neg_reach socks4_read_cb (socks4_write_cb cfg) (neg_start (socks4_write_cb cfg) sp socks4_new () e)"

lemma socks4_accepted:
  "neg_run (\<lambda>_. 8) socks4_react () xs = Accepted [] out \<longleftrightarrow> length xs = 8 \<and> take 2 xs = [0, 90] \<and> out = []"
  by (auto simp: neg_run.simps socks4_react_def take_take min_def)

definition s5_cfg :: relay_config where
  "s5_cfg = \<lparr>cf_login = Some [97], cf_password = Some [98, 99], cf_dest_addr = [1, 2, 3, 4], cf_dest_port = [0, 80]\<rparr>"

definition s5_payload :: socks5_client where
  "s5_payload = \<lparr>do_password = True, to_skip = 0\<rparr>"

definition s5_env :: rs_env where
  "s5_env = \<lparr>en_now = 0, en_alloc = True, en_enable_error = False, en_start = Start_ok\<rparr>"

definition s5_feed :: "bool \<Rightarrow> byte list list \<Rightarrow> socks5_client neg_world option" where
  "s5_feed sp bss = neg_feed (socks5_read_cb s5_cfg) (socks5_write_cb s5_cfg) s5_env bss
     (neg_start (socks5_write_cb s5_cfg) sp socks5_new s5_payload s5_env)"

lemma s5_ex_active:
  "live_with (\<lambda>c. rc_state c = pump_active) [5, 2, 1, 0, 5, 0, 0, 1, 1, 2, 3, 4, 0, 80]
     (s5_feed True [[5], [2], [1, 0], [5, 0, 0, 1], [1, 2, 3, 4, 0], [80]])"
  by code_simp

lemma s5_ex_waiting:
  "live_with (\<lambda>c. rc_state c \<noteq> pump_active \<and> EV_READ \<notin> rc_evshut c RelaySide) [5, 2, 1] (s5_feed True [[5], [2], [1]])"
  by code_simp

lemma s5_ex_rest:
  "live_with (\<lambda>c. rc_state c = pump_active) [5, 2, 1, 0, 5, 0, 0, 3, 1, 98, 0, 80]
     (Option.bind (s5_feed True [[5], [2], [1]])
        (neg_feed (socks5_read_cb s5_cfg) (socks5_write_cb s5_cfg) s5_env [[0], [5, 0, 0, 3], [1], [98, 0, 80]]))"
  by code_simp

lemma s5_ex_init: "socks5_client_init s5_cfg s5_payload = (socks5_new, s5_payload)"
  by code_simp

lemma s5_feed_reach: "s5_feed sp bss = Some w \<Longrightarrow> reach5 s5_cfg sp socks5_new s5_payload s5_env w"
  unfolding s5_feed_def by (erule neg_feed_reach) (rule neg_reach_start)

lemma s4_ex_active:
  "live_with (\<lambda>c. rc_state c = pump_active) [0, 90, 0, 0, 0, 0, 0, 0]
     (neg_feed socks4_read_cb (socks4_write_cb s5_cfg) s5_env [[0, 90, 0], [0, 0, 0, 0, 0]]
        (neg_start (socks4_write_cb s5_cfg) False socks4_new () s5_env))"
  by code_simp

text \<open>however the events of a SOCKS5 negotiation are ordered, the client is never used after it was freed, and the relay is active
  only when the server's bytes were exactly a successful negotiation of RFC 1928 and RFC 1929, the messages sent or waiting to be sent are
  exactly the greeting, the password if it was asked for, and the request, and nothing of the server's data is left unread.\<close>

lemma socks5_relay_after_acceptance:
  assumes "socks5_client_init cfg p0 = (st, p)" "reach5 cfg sp st p e w"
  shows "nw_object w \<noteq> Bad \<and> (\<forall>c. nw_object w = Live c \<and> rc_state c = pump_active \<longrightarrow>
    (\<exists>out c0. socks5_session cfg (nw_received w) = Some out \<and>
       neg_started (socks5_mkmethods_plain (uses_password cfg) @ out) w c0))"
  using socks5.relay_negotiated [of cfg sp p0 e w] assms client_init_payload [OF assms(1)]
  by (auto simp: run5_accepted)

text \<open>Claim C32: a SOCKS5 server whose bytes are a successful negotiation is accepted in whatever pieces they arrive: until the last byte the
  client lives and takes the next byte, and with the last byte the relay starts.\<close>

theorem socks5_accepts_good_server:
  assumes "socks5_client_init cfg p0 = (st, p)" "reach5 cfg sp st p e0 w" "nw_object w = Live c" "rc_state c \<noteq> pump_active"
    "EV_READ \<notin> rc_evshut c RelaySide" "en_alloc e" "neg_feed (socks5_read_cb cfg) (socks5_write_cb cfg) e bss w = Some w'"
    "socks5_session cfg (nw_received w @ concat bss @ ys) = Some out"
  shows "(ys = [] \<longrightarrow> (\<exists>c0. neg_started (socks5_mkmethods_plain (uses_password cfg) @ out) w' c0)) \<and>
    (ys \<noteq> [] \<longrightarrow> (\<exists>c. nw_object w' = Live c) \<and>
       neg_exec (socks5_read_cb cfg) (socks5_write_cb cfg) e (Neg_reply [hd ys]) w' \<noteq> None)"
  using socks5.good_server [of cfg sp p0 e0 w c e bss w' ys out] assms client_init_payload [OF assms(1)]
  by (simp add: run5_accepted)

theorem socks5_accepts_good_server_witness:
  "\<exists>(w' :: socks5_client neg_world) c0. neg_started (socks5_mkmethods_plain True @ socks5_mkpassword s5_cfg @ socks5_mkconnect s5_cfg) w' c0 \<and>
     nw_received w' = [5, 2, 1, 0, 5, 0, 0, 3, 1, 98, 0, 80]"
proof -
  obtain w c where w: "s5_feed True [[5], [2], [1]] = Some w" "nw_received w = [5, 2, 1]" "nw_object w = Live c"
    "rc_state c \<noteq> pump_active \<and> EV_READ \<notin> rc_evshut c RelaySide"
    by (rule live_withE [OF s5_ex_waiting])
  obtain w' c' where w': "neg_feed (socks5_read_cb s5_cfg) (socks5_write_cb s5_cfg) s5_env [[0], [5, 0, 0, 3], [1], [98, 0, 80]] w = Some w'"
    "nw_received w' = [5, 2, 1, 0, 5, 0, 0, 3, 1, 98, 0, 80]"
    by (rule live_withE [OF s5_ex_rest]) (simp add: w(1))
  have s: "socks5_session s5_cfg ([5, 2, 1] @ concat [[0], [5, 0, 0, 3], [1], [98, 0, 80]] @ []) =
      Some (socks5_mkpassword s5_cfg @ socks5_mkconnect s5_cfg)" "uses_password s5_cfg" "en_alloc s5_env" by code_simp+
  have "\<exists>c0. neg_started (socks5_mkmethods_plain True @ socks5_mkpassword s5_cfg @ socks5_mkconnect s5_cfg) w' c0"
    using socks5_accepts_good_server [OF s5_ex_init s5_feed_reach [OF w(1)] w(3) _ _ s(3) w'(1), of "[]"] s(1,2) w(2,4) by simp
  with w'(2) show ?thesis by blast
qed

text \<open>Claim C33: a SOCKS5 negotiation ends: a client that still negotiates has received fewer than 266 bytes from the server, and every
  reply event adds to them.\<close>

theorem socks5_negotiation_ends:
  assumes "socks5_client_init cfg p0 = (st, p)" "reach5 cfg sp st p e0 w" "nw_object w = Live c" "rc_state c \<noteq> pump_active"
  shows "length (nw_received w) < 266 \<and>
    (\<forall>e bs w'. neg_exec (socks5_read_cb cfg) (socks5_write_cb cfg) e (Neg_reply bs) w = Some w' \<longrightarrow>
       length (nw_received w) < length (nw_received w'))"
  using socks5.negotiation_bounded [of socks5_left cfg sp p0 e0 w c] socks5_left_need socks5_left_send reply_grows
    assms client_init_payload [OF assms(1)] by fastforce

theorem socks5_negotiation_ends_witness:
  "\<exists>w. reach5 s5_cfg True socks5_new s5_payload s5_env w \<and> nw_received w = [5, 2, 1] \<and> length (nw_received w) < 266"
proof -
  obtain w c where w: "s5_feed True [[5], [2], [1]] = Some w" "nw_received w = [5, 2, 1]" "nw_object w = Live c"
    "rc_state c \<noteq> pump_active \<and> EV_READ \<notin> rc_evshut c RelaySide"
    by (rule live_withE [OF s5_ex_waiting])
  from socks5_negotiation_ends [OF s5_ex_init s5_feed_reach [OF w(1)] w(3)] s5_feed_reach [OF w(1)] w(2,4) show ?thesis by blast
qed

text \<open>Claim C34: however the events of a SOCKS5 negotiation are ordered, the client is never used after it was freed, and the relay is active
  only when the server's bytes were exactly a successful negotiation of RFC 1928 and RFC 1929; then, with either pump, the server gets the
  greeting, the password if it was asked for, the request, and then exactly what the device sends, from its first byte on, and the device gets
  exactly what the server sends after the negotiation.\<close>

theorem socks5_session_in_order:
  assumes "socks5_client_init cfg p0 = (st, p)" "reach5 cfg sp st p e w"
  shows "nw_object w \<noteq> Bad \<and> (\<forall>c. nw_object w = Live c \<and> rc_state c = pump_active \<longrightarrow>
    (\<exists>out c0. socks5_session cfg (nw_received w) = Some out \<and>
       relays_in_order (socks5_mkmethods_plain (uses_password cfg) @ out) [] w c0))"
  using socks5_relay_after_acceptance [OF assms] started_in_order by blast

theorem socks5_session_in_order_witness:
  "\<exists>w out c0. reach5 s5_cfg True socks5_new s5_payload s5_env w \<and> nw_received w = [5, 2, 1, 0, 5, 0, 0, 1, 1, 2, 3, 4, 0, 80] \<and>
     relays_in_order (socks5_mkmethods_plain (uses_password s5_cfg) @ out) [] w c0"
proof -
  obtain w c where w: "s5_feed True [[5], [2], [1, 0], [5, 0, 0, 1], [1, 2, 3, 4, 0], [80]] = Some w"
    "nw_received w = [5, 2, 1, 0, 5, 0, 0, 1, 1, 2, 3, 4, 0, 80]" "nw_object w = Live c" "rc_state c = pump_active"
    by (rule live_withE [OF s5_ex_active])
  from socks5_session_in_order [OF s5_ex_init s5_feed_reach [OF w(1)]] s5_feed_reach [OF w(1)] w(2-4) show ?thesis by blast
qed

text \<open>Claim C35: with SOCKS4 the relay is active only after the request with the user name was answered by eight bytes that grant it, and
  then the session goes on in order with either pump.\<close>

theorem socks4_session_in_order:
  assumes "reach4 cfg sp e w"
  shows "nw_object w \<noteq> Bad \<and> (\<forall>c. nw_object w = Live c \<and> rc_state c = pump_active \<longrightarrow>
    length (nw_received w) = 8 \<and> take 2 (nw_received w) = [0, 90] \<and> (\<exists>c0. relays_in_order (socks4_mkconnect cfg) [] w c0))"
  using socks4.relay_negotiated [OF assms] started_in_order by (fastforce simp: socks4_accepted)

theorem socks4_session_in_order_witness:
  "\<exists>w c0. reach4 s5_cfg False s5_env w \<and> nw_received w = [0, 90, 0, 0, 0, 0, 0, 0] \<and> relays_in_order (socks4_mkconnect s5_cfg) [] w c0"
proof -
  obtain w c where w: "neg_feed socks4_read_cb (socks4_write_cb s5_cfg) s5_env [[0, 90, 0], [0, 0, 0, 0, 0]]
      (neg_start (socks4_write_cb s5_cfg) False socks4_new () s5_env) = Some w"
    "nw_received w = [0, 90, 0, 0, 0, 0, 0, 0]" "nw_object w = Live c" "rc_state c = pump_active"
    by (rule live_withE [OF s4_ex_active])
  have r: "reach4 s5_cfg False s5_env w" by (rule neg_feed_reach [OF w(1) neg_reach_start])
  from socks4_session_in_order [OF r] r w(2-4) show ?thesis by blast
qed

end
