(* ===== verification/Red_Accept.thy ===== *)
theory Red_Accept
  imports C_Prelude
begin

text \<open>
  Accepting connections in \<^verbatim>\<open>redsocks/redsocks.c\<close> and the limits on their number: the lists of clients of the instances, the counter
  \<^verbatim>\<open>redsocks_conn\<close>, dropping of idle clients, and the timer \<^verbatim>\<open>accept_backoff_ev\<close> with which the listeners pause when descriptors run out.

  A client is a name with the time of its last event, in microseconds; \<^verbatim>\<open>struct timeval\<close> arithmetic is arithmetic on these numbers. A list
  of clients is in the order of the C list. What the system answers (whether \<^verbatim>\<open>accept\<close> and \<^verbatim>\<open>socket\<close> succeed, the random number, the time,
  how many descriptors a dropped client closes) is an argument. A freed client that is used again is the result \<open>None\<close>.
\<close>

section \<open>State\<close>

record conn_config =
  redsocks_conn_max :: u32
  connpres_idle_timeout :: u32
  max_accept_backoff_ms :: u32

record conn_client =
  cl_name :: nat
  cl_last_event :: int

record conn_instance =
  in_listening :: bool
  in_clients :: "conn_client list"

record conn_state =
  instances :: "conn_instance list"
  redsocks_conn :: u32
  accept_backoff_ms :: u32
  accept_backoff_ev :: "int option"

definition all_clients :: "conn_state \<Rightarrow> conn_client list" where
  "all_clients s = concat (map in_clients (instances s))"

definition listed :: "nat \<Rightarrow> conn_state \<Rightarrow> bool" where
  "listed n s \<longleftrightarrow> n \<in> cl_name ` set (all_clients s)"

section \<open>Pressure (redsocks/redsocks.c)\<close>

definition accept_enable :: "conn_state \<Rightarrow> conn_state" where
  "accept_enable s = s\<lparr>instances := map (\<lambda>i. i\<lparr>in_listening := True\<rparr>) (instances s)\<rparr>"

definition accept_disable :: "conn_state \<Rightarrow> conn_state" where
  "accept_disable s = s\<lparr>instances := map (\<lambda>i. i\<lparr>in_listening := False\<rparr>) (instances s)\<rparr>"

definition conn_pressure_lowered :: "conn_config \<Rightarrow> conn_state \<Rightarrow> conn_state" where
  "conn_pressure_lowered cfg s =
     (if redsocks_conn s \<ge> redsocks_conn_max cfg then s
      else if accept_backoff_ev s \<noteq> None then accept_enable (s\<lparr>accept_backoff_ev := None\<rparr>)
      else s)"

definition list_del :: "nat \<Rightarrow> conn_state \<Rightarrow> conn_state" where
  "list_del n s = s\<lparr>instances := map (\<lambda>i. i\<lparr>in_clients := filter (\<lambda>c. cl_name c \<noteq> n) (in_clients i)\<rparr>) (instances s)\<rparr>"

definition redsocks_conn_list_del :: "conn_config \<Rightarrow> nat \<Rightarrow> conn_state \<Rightarrow> conn_state" where
  "redsocks_conn_list_del cfg n s =
     conn_pressure_lowered cfg
       (if listed n s then list_del n (s\<lparr>redsocks_conn := redsocks_conn s - 1\<rparr>) else s)"

text \<open>\<^verbatim>\<open>redsocks_drop_client\<close> as far as the limits are concerned: each descriptor it closes reports lower pressure.\<close>

definition conn_drop_client :: "conn_config \<Rightarrow> nat \<Rightarrow> nat \<Rightarrow> conn_state \<Rightarrow> conn_state" where
  "conn_drop_client cfg closes n s = redsocks_conn_list_del cfg n ((conn_pressure_lowered cfg ^^ closes) s)"

definition max_idle :: "conn_config \<Rightarrow> int" where
  "max_idle cfg = uint (connpres_idle_timeout cfg) * 1000000"

definition is_idle :: "conn_config \<Rightarrow> int \<Rightarrow> conn_client \<Rightarrow> bool" where
  "is_idle cfg now c \<longleftrightarrow> now - cl_last_event c \<le> 0 \<or> max_idle cfg \<le> now - cl_last_event c"

fun drop_idle_loop :: "conn_config \<Rightarrow> int \<Rightarrow> (nat \<Rightarrow> nat) \<Rightarrow> conn_client list \<Rightarrow> conn_state \<times> int \<Rightarrow> conn_state \<times> int" where
  "drop_idle_loop cfg now closes [] (s, best_next) = (s, best_next)"
| "drop_idle_loop cfg now closes (c # cs) (s, best_next) =
     (if is_idle cfg now c
      then drop_idle_loop cfg now closes cs (conn_drop_client cfg (closes (cl_name c)) (cl_name c) s, 0)
      else (let delay = max_idle cfg - (now - cl_last_event c) in
            drop_idle_loop cfg now closes cs (s, if delay < best_next then delay else best_next)))"

definition drop_idle_connections :: "conn_config \<Rightarrow> int \<Rightarrow> (nat \<Rightarrow> nat) \<Rightarrow> conn_state \<Rightarrow> conn_state \<times> int" where
  "drop_idle_connections cfg now closes s = drop_idle_loop cfg now closes (all_clients s) (s, max_idle cfg)"

definition clamp_value :: "u32 \<Rightarrow> u32 \<Rightarrow> u32 \<Rightarrow> u32" where
  "clamp_value value min_val max_val =
     (let v = (if value < min_val then min_val else value) in if v > max_val then max_val else v)"

definition next_backoff :: "conn_config \<Rightarrow> u32 \<Rightarrow> u32" where
  "next_backoff cfg ms = clamp_value (push_bit 1 ms + 1) 1 (max_accept_backoff_ms cfg)"

definition tv_of_msec :: "u32 \<Rightarrow> int" where
  "tv_of_msec delay = uint (delay div 1000) * 1000000 + uint ((delay mod 1000) * 1000)"

definition backoff_delay :: "u32 \<Rightarrow> u32 \<Rightarrow> u32" where
  "backoff_delay rnd ms = rnd mod ms + 1"

definition conn_backoff :: "conn_config \<Rightarrow> u32 \<Rightarrow> int \<Rightarrow> conn_state \<Rightarrow> conn_state" where
  "conn_backoff cfg rnd next s =
     (let ms = next_backoff cfg (accept_backoff_ms s);
          tvdelay = tv_of_msec (backoff_delay rnd ms);
          tv = (if next \<noteq> 0 \<and> next < tvdelay then next else tvdelay) in
      accept_disable (s\<lparr>accept_backoff_ms := ms, accept_backoff_ev := Some tv\<rparr>))"

definition conn_pressure :: "conn_config \<Rightarrow> int \<Rightarrow> u32 \<Rightarrow> (nat \<Rightarrow> nat) \<Rightarrow> conn_state \<Rightarrow> conn_state" where
  "conn_pressure cfg now rnd closes s =
     (if connpres_idle_timeout cfg \<noteq> 0
      then (let (s1, next) = drop_idle_connections cfg now closes s in
            if next = 0 then s1 else conn_backoff cfg rnd next s1)
      else conn_backoff cfg rnd 0 s)"

text \<open>The callback of the timer, which is no longer pending; \<open>no_socket\<close> is set when \<^verbatim>\<open>socket\<close> fails.\<close>

definition redsocks_accept_backoff ::
  "conn_config \<Rightarrow> int \<Rightarrow> u32 \<Rightarrow> (nat \<Rightarrow> nat) \<Rightarrow> bool \<Rightarrow> conn_state \<Rightarrow> conn_state" where
  "redsocks_accept_backoff cfg now rnd closes no_socket s =
     (if redsocks_conn s \<ge> redsocks_conn_max cfg \<or> no_socket then conn_pressure cfg now rnd closes s
      else accept_enable s)"

definition redsocks_conn_list_add ::
  "conn_config \<Rightarrow> int \<Rightarrow> u32 \<Rightarrow> (nat \<Rightarrow> nat) \<Rightarrow> nat \<Rightarrow> conn_client \<Rightarrow> conn_state \<Rightarrow> conn_state" where
  "redsocks_conn_list_add cfg now rnd closes i c s =
     (let s1 = s\<lparr>instances := (instances s)[i := (instances s ! i)\<lparr>in_clients := c # in_clients (instances s ! i)\<rparr>],
                 redsocks_conn := redsocks_conn s + 1\<rparr> in
      if redsocks_conn s1 \<ge> redsocks_conn_max cfg then conn_pressure cfg now rnd closes s1 else s1)"

text \<open>How far \<^verbatim>\<open>redsocks_accept_client\<close> gets: \<^verbatim>\<open>accept\<close> fails, for lack of descriptors or otherwise; a step before the client
  is allocated fails; one between that and \<^verbatim>\<open>redsocks_conn_list_add\<close>; or all succeed, where \<open>fails\<close> tells whether the rest, which uses the client,
  drops it again.\<close>

datatype accept_outcome = Accept_failed bool | Setup_failed | Client_failed nat | Accepted conn_client bool

definition redsocks_accept_client ::
  "conn_config \<Rightarrow> int \<Rightarrow> u32 \<Rightarrow> (nat \<Rightarrow> nat) \<Rightarrow> nat \<Rightarrow> accept_outcome \<Rightarrow> conn_state \<Rightarrow> conn_state option" where
  "redsocks_accept_client cfg now rnd closes i out s = (case out of
     Accept_failed no_fds \<Rightarrow> Some (if no_fds then conn_pressure cfg now rnd closes s else s)
   | Setup_failed \<Rightarrow> Some (conn_pressure_lowered cfg (s\<lparr>accept_backoff_ms := 0\<rparr>))
   | Client_failed n \<Rightarrow>
       Some (conn_pressure_lowered cfg (conn_drop_client cfg (closes n) n (s\<lparr>accept_backoff_ms := 0\<rparr>)))
   | Accepted c fails \<Rightarrow>
       (let s1 = redsocks_conn_list_add cfg now rnd closes i c (s\<lparr>accept_backoff_ms := 0\<rparr>) in
        if \<not> listed (cl_name c) s1 then None
        else Some (if fails then conn_drop_client cfg (closes (cl_name c)) (cl_name c) s1 else s1)))"

section \<open>Steps\<close>

datatype conn_input =
    In_accept nat accept_outcome
  | In_timer bool
  | In_close nat
  | In_touch nat int

definition touch :: "nat \<Rightarrow> int \<Rightarrow> conn_state \<Rightarrow> conn_state" where
  "touch n t s = s\<lparr>instances := map (\<lambda>i. i\<lparr>in_clients :=
     map (\<lambda>c. if cl_name c = n then c\<lparr>cl_last_event := t\<rparr> else c) (in_clients i)\<rparr>) (instances s)\<rparr>"

text \<open>Connections arrive at instances that listen, and the name of a new client is not in use. The timer fires when it is
  pending. The outer result tells whether the event can occur.\<close>

definition conn_exec :: "conn_config \<Rightarrow> int \<Rightarrow> u32 \<Rightarrow> (nat \<Rightarrow> nat) \<Rightarrow> conn_input \<Rightarrow> conn_state \<Rightarrow> conn_state option option" where
  "conn_exec cfg now rnd closes x s = (case x of
     In_accept i out \<Rightarrow>
       if i < length (instances s) \<and> in_listening (instances s ! i) \<and>
          (case out of Accepted c _ \<Rightarrow> \<not> listed (cl_name c) s | Client_failed n \<Rightarrow> \<not> listed n s | _ \<Rightarrow> True)
       then Some (redsocks_accept_client cfg now rnd closes i out s) else None
   | In_timer no_socket \<Rightarrow>
       if accept_backoff_ev s \<noteq> None
       then Some (Some (redsocks_accept_backoff cfg now rnd closes no_socket (s\<lparr>accept_backoff_ev := None\<rparr>))) else None
   | In_close n \<Rightarrow> if listed n s then Some (Some (conn_drop_client cfg (closes n) n s)) else None
   | In_touch n t \<Rightarrow> if listed n s then Some (Some (touch n t s)) else None)"

section \<open>Invariant\<close>

definition listening :: "conn_state \<Rightarrow> bool" where
  "listening s \<longleftrightarrow> (\<exists>i\<in>set (instances s). in_listening i)"

definition count_ok :: "conn_config \<Rightarrow> conn_state \<Rightarrow> bool" where
  "count_ok cfg s \<longleftrightarrow> distinct (map cl_name (all_clients s)) \<and> redsocks_conn s = of_nat (length (all_clients s)) \<and>
     length (all_clients s) \<le> unat (redsocks_conn_max cfg)"

definition flags_ok :: "conn_config \<Rightarrow> conn_state \<Rightarrow> bool" where
  "flags_ok cfg s \<longleftrightarrow> (listening s \<longrightarrow> accept_backoff_ev s = None \<and> length (all_clients s) < unat (redsocks_conn_max cfg))"

definition conn_inv :: "conn_config \<Rightarrow> conn_state \<Rightarrow> bool" where
  "conn_inv cfg s \<longleftrightarrow> count_ok cfg s \<and> flags_ok cfg s"

lemma unat_conn:
  assumes "count_ok cfg s"
  shows "unat (redsocks_conn s) = length (all_clients s)"
proof -
  have "unat (redsocks_conn_max cfg) < 2 ^ 32"
    using unsigned_less [of "redsocks_conn_max cfg"] by simp
  then have "length (all_clients s) < 2 ^ 32"
    using assms by (simp add: count_ok_def)
  then show ?thesis
    using assms by (simp add: count_ok_def unsigned_of_nat take_bit_nat_eq_self)
qed

lemma conn_full:
  assumes "count_ok cfg s"
  shows "redsocks_conn_max cfg \<le> redsocks_conn s \<longleftrightarrow> length (all_clients s) = unat (redsocks_conn_max cfg)"
  using unat_conn [OF assms] assms by (auto simp: count_ok_def word_le_nat_alt)

lemma enable_simps [simp]:
  "all_clients (accept_enable s) = all_clients s" "redsocks_conn (accept_enable s) = redsocks_conn s"
  "accept_backoff_ev (accept_enable s) = accept_backoff_ev s" "length (instances (accept_enable s)) = length (instances s)"
  "all_clients (accept_disable s) = all_clients s" "redsocks_conn (accept_disable s) = redsocks_conn s"
  "accept_backoff_ev (accept_disable s) = accept_backoff_ev s" "\<not> listening (accept_disable s)"
  "accept_backoff_ms (accept_enable s) = accept_backoff_ms s" "accept_backoff_ms (accept_disable s) = accept_backoff_ms s"
  by (auto simp: accept_enable_def accept_disable_def all_clients_def listening_def comp_def)

lemma all_clients_upd [simp]:
  "all_clients (s\<lparr>redsocks_conn := x\<rparr>) = all_clients s" "all_clients (s\<lparr>accept_backoff_ms := y\<rparr>) = all_clients s"
  "all_clients (s\<lparr>accept_backoff_ev := z\<rparr>) = all_clients s"
  "listening (s\<lparr>redsocks_conn := x\<rparr>) = listening s" "listening (s\<lparr>accept_backoff_ms := y\<rparr>) = listening s"
  "listening (s\<lparr>accept_backoff_ev := z\<rparr>) = listening s" "listed n (s\<lparr>redsocks_conn := x\<rparr>) = listed n s"
  "listed n (s\<lparr>accept_backoff_ms := y\<rparr>) = listed n s"
  by (simp_all add: all_clients_def listening_def listed_def)

lemma list_del_simps [simp]:
  "all_clients (list_del n s) = filter (\<lambda>c. cl_name c \<noteq> n) (all_clients s)" "redsocks_conn (list_del n s) = redsocks_conn s"
  "accept_backoff_ev (list_del n s) = accept_backoff_ev s" "listening (list_del n s) = listening s"
  "accept_backoff_ms (list_del n s) = accept_backoff_ms s"
  by (auto simp: list_del_def all_clients_def listening_def filter_concat comp_def)

lemma lowered_none [simp]: "accept_backoff_ev s = None \<Longrightarrow> conn_pressure_lowered cfg s = s"
  by (simp add: conn_pressure_lowered_def)

lemma lowered_pow_none [simp]: "accept_backoff_ev s = None \<Longrightarrow> (conn_pressure_lowered cfg ^^ k) s = s"
  by (induction k) simp_all

lemma lowered_inv:
  assumes "conn_inv cfg s"
  shows "conn_inv cfg (conn_pressure_lowered cfg s)" "all_clients (conn_pressure_lowered cfg s) = all_clients s"
    "redsocks_conn (conn_pressure_lowered cfg s) = redsocks_conn s"
proof -
  show "all_clients (conn_pressure_lowered cfg s) = all_clients s"
    "redsocks_conn (conn_pressure_lowered cfg s) = redsocks_conn s"
    by (simp_all add: conn_pressure_lowered_def)
  show "conn_inv cfg (conn_pressure_lowered cfg s)"
    using assms conn_full [of cfg s]
    by (auto simp: conn_inv_def conn_pressure_lowered_def count_ok_def flags_ok_def)
qed

lemma lowered_pow_inv:
  assumes "conn_inv cfg s"
  shows "conn_inv cfg ((conn_pressure_lowered cfg ^^ k) s) \<and> all_clients ((conn_pressure_lowered cfg ^^ k) s) = all_clients s"
  by (induction k) (use assms lowered_inv in \<open>auto\<close>)

lemma length_filter_name:
  assumes "distinct (map cl_name cs)" "n \<in> cl_name ` set cs"
  shows "length cs = Suc (length (filter (\<lambda>c. cl_name c \<noteq> n) cs))"
  using assms
proof (induction cs)
  case (Cons c cs)
  show ?case
  proof (cases "cl_name c = n")
    case True
    then have "filter (\<lambda>c. cl_name c \<noteq> n) cs = cs"
      using Cons.prems(1) by (intro filter_True) (metis distinct.simps(2) image_eqI list.simps(9) list.set_map)
    with True show ?thesis by simp
  next
    case False
    with Cons show ?thesis by simp
  qed
qed simp

text \<open>Taking a listed client off its list.\<close>

lemma list_del_count:
  assumes "count_ok cfg s" "listed n s" "s' = list_del n (s\<lparr>redsocks_conn := redsocks_conn s - 1\<rparr>)"
  shows "count_ok cfg s'" "length (all_clients s') < length (all_clients s)"
proof -
  have len: "length (all_clients s) = Suc (length (all_clients s'))"
    using length_filter_name [of "all_clients s" n] assms by (simp add: count_ok_def listed_def)
  then show "length (all_clients s') < length (all_clients s)" by simp
  have "redsocks_conn s' = of_nat (length (all_clients s'))"
    using assms len by (simp add: count_ok_def)
  then show "count_ok cfg s'"
    using assms len by (auto simp: count_ok_def distinct_map inj_on_def)
qed

lemma conn_drop_inv:
  assumes "conn_inv cfg s"
  shows "conn_inv cfg (conn_drop_client cfg k n s)"
    "all_clients (conn_drop_client cfg k n s) = filter (\<lambda>c. cl_name c \<noteq> n) (all_clients s)"
proof -
  let ?s = "(conn_pressure_lowered cfg ^^ k) s"
  let ?d = "if listed n ?s then list_del n (?s\<lparr>redsocks_conn := redsocks_conn ?s - 1\<rparr>) else ?s"
  have inv: "conn_inv cfg ?s" and cl: "all_clients ?s = all_clients s"
    using lowered_pow_inv [OF assms] by auto
  have d: "conn_inv cfg ?d"
  proof (cases "listed n ?s")
    case True
    with list_del_count [OF _ True refl] inv show ?thesis by (fastforce simp: conn_inv_def flags_ok_def)
  qed (use inv in simp)
  have "all_clients ?d = filter (\<lambda>c. cl_name c \<noteq> n) (all_clients s)"
    using cl by (auto simp: listed_def intro: filter_True [symmetric])
  with lowered_inv [OF d] show "conn_inv cfg (conn_drop_client cfg k n s)"
    "all_clients (conn_drop_client cfg k n s) = filter (\<lambda>c. cl_name c \<noteq> n) (all_clients s)"
    by (simp_all add: conn_drop_client_def redsocks_conn_list_del_def)
qed

section \<open>Dropping idle clients\<close>

text \<open>While the timer is not pending, dropping a client only takes it off its list.\<close>

lemma drop_quiet:
  assumes "accept_backoff_ev s = None" "count_ok cfg s"
  shows "all_clients (conn_drop_client cfg k n s) = filter (\<lambda>c. cl_name c \<noteq> n) (all_clients s)"
    "accept_backoff_ev (conn_drop_client cfg k n s) = None" "listening (conn_drop_client cfg k n s) = listening s"
    "count_ok cfg (conn_drop_client cfg k n s)"
    "listed n s \<Longrightarrow> length (all_clients (conn_drop_client cfg k n s)) < length (all_clients s)"
proof -
  let ?d = "if listed n s then list_del n (s\<lparr>redsocks_conn := redsocks_conn s - 1\<rparr>) else s"
  have d: "conn_drop_client cfg k n s = ?d"
    using assms(1) by (simp add: conn_drop_client_def redsocks_conn_list_del_def)
  show "all_clients (conn_drop_client cfg k n s) = filter (\<lambda>c. cl_name c \<noteq> n) (all_clients s)"
    unfolding d by (auto simp: listed_def intro: filter_True [symmetric])
  show "accept_backoff_ev (conn_drop_client cfg k n s) = None" "listening (conn_drop_client cfg k n s) = listening s"
    unfolding d using assms(1) by simp_all
  show "count_ok cfg (conn_drop_client cfg k n s)"
    unfolding d using assms(2) list_del_count(1) [OF assms(2) _ refl] by simp
  show "listed n s \<Longrightarrow> length (all_clients (conn_drop_client cfg k n s)) < length (all_clients s)"
    unfolding d using list_del_count(2) [OF assms(2) _ refl] by simp
qed

definition idle_names :: "conn_config \<Rightarrow> int \<Rightarrow> conn_client list \<Rightarrow> nat set" where
  "idle_names cfg now cs = cl_name ` {c \<in> set cs. is_idle cfg now c}"

lemma idle_names_simps [simp]:
  "idle_names cfg now [] = {}"
  "idle_names cfg now (c # cs) = (if is_idle cfg now c then insert (cl_name c) (idle_names cfg now cs) else idle_names cfg now cs)"
  by (auto simp: idle_names_def)

lemma drop_idle_loop_spec:
  assumes "drop_idle_loop cfg now closes cs (s, b) = (s', b')" "accept_backoff_ev s = None" "count_ok cfg s" "0 \<le> b"
  shows "all_clients s' = filter (\<lambda>c. cl_name c \<notin> idle_names cfg now cs) (all_clients s) \<and>
    accept_backoff_ev s' = None \<and> listening s' = listening s \<and> count_ok cfg s' \<and> 0 \<le> b' \<and>
    (b' = 0 \<longleftrightarrow> b = 0 \<or> idle_names cfg now cs \<noteq> {})"
  using assms
proof (induction cs arbitrary: s b)
  case Nil
  then show ?case by simp
next
  case (Cons c cs)
  show ?case
  proof (cases "is_idle cfg now c")
    case True
    note d = drop_quiet [OF Cons.prems(2,3), of "closes (cl_name c)" "cl_name c"]
    have "drop_idle_loop cfg now closes cs (conn_drop_client cfg (closes (cl_name c)) (cl_name c) s, 0) = (s', b')"
      using Cons.prems(1) True by simp
    from Cons.IH [OF this d(2,4)] d(1,3) True show ?thesis by (simp add: conj_commute)
  next
    case False
    let ?delay = "max_idle cfg - (now - cl_last_event c)"
    have "0 < ?delay" using False by (simp add: is_idle_def)
    moreover have "drop_idle_loop cfg now closes cs (s, if ?delay < b then ?delay else b) = (s', b')"
      using Cons.prems(1) False by (simp add: Let_def)
    ultimately show ?thesis
      using Cons.IH [of s "if ?delay < b then ?delay else b"] Cons.prems(2-4) False by auto
  qed
qed

lemma filter_names_less:
  assumes "A \<inter> cl_name ` set cs \<noteq> {}"
  shows "length (filter (\<lambda>c. cl_name c \<notin> A) cs) < length cs"
proof -
  from assms obtain c where "c \<in> set cs" "\<not> cl_name c \<notin> A" by auto
  then show ?thesis by (rule length_filter_less)
qed

text \<open>Under pressure, either an idle client is dropped and nothing else changes, or the listeners pause and the timer is set.\<close>

lemma conn_pressure_cases:
  assumes t: "accept_backoff_ev s = None" and cnt: "count_ok cfg s" and s': "s' = conn_pressure cfg now rnd closes s"
  obtains (dropped) "connpres_idle_timeout cfg \<noteq> 0"
      "all_clients s' = filter (\<lambda>c. \<not> is_idle cfg now c) (all_clients s)" "length (all_clients s') < length (all_clients s)"
      "accept_backoff_ev s' = None" "listening s' = listening s" "count_ok cfg s'"
  | (paused) "all_clients s' = all_clients s" "accept_backoff_ev s' \<noteq> None" "\<not> listening s'" "count_ok cfg s'"
proof -
  have bk: "all_clients (conn_backoff cfg rnd nxt x) = all_clients x" "accept_backoff_ev (conn_backoff cfg rnd nxt x) \<noteq> None"
    "\<not> listening (conn_backoff cfg rnd nxt x)" "count_ok cfg (conn_backoff cfg rnd nxt x) = count_ok cfg x" for nxt x
    by (simp_all add: conn_backoff_def Let_def count_ok_def)
  show thesis
  proof (cases "connpres_idle_timeout cfg = 0")
    case True
    then show thesis using s' cnt bk by (intro paused) (simp_all add: conn_pressure_def)
  next
    case False
    obtain s1 nxt where d: "drop_idle_connections cfg now closes s = (s1, nxt)" by fastforce
    have "uint (connpres_idle_timeout cfg) \<noteq> 0" "0 \<le> uint (connpres_idle_timeout cfg)"
      using False by (simp_all add: unsigned_eq_0_iff)
    then have "0 < max_idle cfg" unfolding max_idle_def by (intro mult_pos_pos) linarith+
    with drop_idle_loop_spec [OF d [unfolded drop_idle_connections_def] t cnt]
    have sp: "all_clients s1 = filter (\<lambda>c. cl_name c \<notin> idle_names cfg now (all_clients s)) (all_clients s)"
      "accept_backoff_ev s1 = None" "listening s1 = listening s" "count_ok cfg s1"
      "nxt = 0 \<longleftrightarrow> idle_names cfg now (all_clients s) \<noteq> {}" by auto
    have "cl_name c \<in> idle_names cfg now (all_clients s) \<longleftrightarrow> is_idle cfg now c" if "c \<in> set (all_clients s)" for c
      using that cnt by (auto simp: idle_names_def count_ok_def distinct_map dest: inj_onD)
    then have al: "all_clients s1 = filter (\<lambda>c. \<not> is_idle cfg now c) (all_clients s)"
      unfolding sp(1) by (intro filter_cong) auto
    show thesis
    proof (cases "nxt = 0")
      case True
      have "length (all_clients s1) < length (all_clients s)"
        unfolding sp(1) by (rule filter_names_less) (use True sp(5) in \<open>auto simp: idle_names_def\<close>)
      with True False d s' sp al show thesis by (intro dropped) (simp_all add: conn_pressure_def)
    next
      case nz: False
      with sp(5) have "idle_names cfg now (all_clients s) = {}" by simp
      with sp(1) have "all_clients s1 = all_clients s" by simp
      with nz False d s' sp bk show thesis by (intro paused) (simp_all add: conn_pressure_def)
    qed
  qed
qed

section \<open>Properties\<close>

lemma conn_pressure_inv:
  assumes "accept_backoff_ev s = None" "count_ok cfg s"
  shows "conn_inv cfg (conn_pressure cfg now rnd closes s)"
  using assms refl
proof (cases rule: conn_pressure_cases [where s' = "conn_pressure cfg now rnd closes s" and now = now and rnd = rnd and closes = closes])
  case dropped
  then show ?thesis using assms(2) by (auto simp: conn_inv_def flags_ok_def count_ok_def)
next
  case paused
  then show ?thesis by (simp add: conn_inv_def flags_ok_def)
qed

lemma list_add_clients:
  assumes "i < length xs"
  shows "\<exists>ys zs. concat (map in_clients xs) = ys @ zs \<and>
    concat (map in_clients (xs[i := (xs ! i)\<lparr>in_clients := c # in_clients (xs ! i)\<rparr>])) = ys @ c # zs"
proof -
  from id_take_nth_drop [OF assms] have x: "xs = take i xs @ (xs ! i) # drop (Suc i) xs" .
  have "xs[i := y] = take i xs @ y # drop (Suc i) xs" for y
    using upd_conv_take_nth_drop [OF assms] by blast
  moreover have "concat (map in_clients xs) =
      concat (map in_clients (take i xs)) @ in_clients (xs ! i) @ concat (map in_clients (drop (Suc i) xs))"
    by (subst x) simp
  ultimately show ?thesis
    by (intro exI [of _ "concat (map in_clients (take i xs))"]
        exI [of _ "in_clients (xs ! i) @ concat (map in_clients (drop (Suc i) xs))"]) simp
qed

text \<open>A client that is added stays on the list unless the clock says that it is idle already.\<close>

lemma list_add_inv:
  assumes inv: "conn_inv cfg s" and i: "i < length (instances s)" "in_listening (instances s ! i)"
    and new: "\<not> listed (cl_name c) s" and s': "s' = redsocks_conn_list_add cfg now rnd closes i c s"
  shows "conn_inv cfg s'" "connpres_idle_timeout cfg = 0 \<or> \<not> is_idle cfg now c \<Longrightarrow> listed (cl_name c) s'"
proof -
  let ?s = "s\<lparr>instances := (instances s)[i := (instances s ! i)\<lparr>in_clients := c # in_clients (instances s ! i)\<rparr>],
    redsocks_conn := redsocks_conn s + 1\<rparr>"
  have l: "listening s" using i nth_mem by (auto simp: listening_def)
  then have t: "accept_backoff_ev s = None" "length (all_clients s) < unat (redsocks_conn_max cfg)" "count_ok cfg s"
    using inv by (simp_all add: conn_inv_def flags_ok_def)
  from list_add_clients [OF i(1), of c] obtain ys zs where
    a: "all_clients s = ys @ zs"
      "all_clients (s\<lparr>instances := (instances s)[i := (instances s ! i)\<lparr>in_clients := c # in_clients (instances s ! i)\<rparr>]\<rparr>) = ys @ c # zs"
    by (auto simp: all_clients_def)
  have cnt: "count_ok cfg ?s"
    using t(2,3) new by (auto simp: count_ok_def a listed_def)
  have c: "c \<in> set (all_clients ?s)" using a by simp
  show "conn_inv cfg s'"
  proof (cases "redsocks_conn_max cfg \<le> redsocks_conn ?s")
    case True
    then show ?thesis using s' conn_pressure_inv [OF _ cnt] t(1) by (simp add: redsocks_conn_list_add_def Let_def)
  next
    case False
    then have "length (all_clients ?s) \<noteq> unat (redsocks_conn_max cfg)" using conn_full [OF cnt] by simp
    then have "conn_inv cfg ?s" using cnt t(1) by (simp add: conn_inv_def flags_ok_def count_ok_def)
    with False s' show ?thesis by (simp add: redsocks_conn_list_add_def Let_def)
  qed
  show "listed (cl_name c) s'" if ok: "connpres_idle_timeout cfg = 0 \<or> \<not> is_idle cfg now c"
  proof (cases "redsocks_conn_max cfg \<le> redsocks_conn ?s")
    case True
    then have s'': "s' = conn_pressure cfg now rnd closes ?s" using s' by (simp add: redsocks_conn_list_add_def Let_def)
    have "accept_backoff_ev ?s = None" using t(1) by simp
    from this cnt s'' show ?thesis
    proof (cases rule: conn_pressure_cases)
      case dropped
      with ok c show ?thesis by (auto simp: listed_def)
    next
      case paused
      with c show ?thesis by (auto simp: listed_def)
    qed
  next
    case False
    then have "s' = ?s" using s' by (simp add: redsocks_conn_list_add_def Let_def)
    with c show ?thesis by (auto simp: listed_def)
  qed
qed

text \<open>The clock between setting the time of a new client and looking for idle ones: it advances, and by less than the limit.\<close>

definition clock_ok :: "conn_config \<Rightarrow> int \<Rightarrow> conn_input \<Rightarrow> bool" where
  "clock_ok cfg now x \<longleftrightarrow> (case x of
     In_accept i (Accepted c fails) \<Rightarrow> connpres_idle_timeout cfg = 0 \<or> \<not> is_idle cfg now c
   | _ \<Rightarrow> True)"

lemma cl_name_touch: "cl_name (if P then c\<lparr>cl_last_event := t\<rparr> else c) = cl_name c"
  by simp

lemma touch_simps:
  "map cl_name (all_clients (touch n t s)) = map cl_name (all_clients s)" "redsocks_conn (touch n t s) = redsocks_conn s"
  "accept_backoff_ev (touch n t s) = accept_backoff_ev s" "listening (touch n t s) = listening s"
  by (auto simp: touch_def all_clients_def listening_def map_concat comp_def cl_name_touch)

lemma conn_touch_inv: "conn_inv cfg s \<Longrightarrow> conn_inv cfg (touch n t s)"
  using touch_simps(1) [of n t s, THEN map_eq_imp_length_eq]
  by (simp add: conn_inv_def count_ok_def flags_ok_def touch_simps)

lemma conn_inv_ms [simp]: "conn_inv cfg (s\<lparr>accept_backoff_ms := x\<rparr>) = conn_inv cfg s"
  by (simp add: conn_inv_def count_ok_def flags_ok_def)

lemma conn_exec_inv:
  assumes inv: "conn_inv cfg s" and ex: "conn_exec cfg now rnd closes x s = Some r" and ck: "clock_ok cfg now x"
  shows "\<exists>s'. r = Some s' \<and> conn_inv cfg s'"
proof (cases x)
  case (In_accept i out)
  have i: "i < length (instances s)" "in_listening (instances s ! i)" and r: "r = redsocks_accept_client cfg now rnd closes i out s"
    using ex In_accept by (auto simp: conn_exec_def split: if_splits)
  then have t: "accept_backoff_ev s = None" "count_ok cfg s"
    using inv nth_mem by (auto simp: conn_inv_def flags_ok_def listening_def)
  show ?thesis
  proof (cases out)
    case (Accepted c fails)
    let ?s = "s\<lparr>accept_backoff_ms := 0\<rparr>"
    let ?s1 = "redsocks_conn_list_add cfg now rnd closes i c ?s"
    have "\<not> listed (cl_name c) ?s" using ex In_accept Accepted by (auto simp: conn_exec_def split: if_splits)
    from list_add_inv [of cfg ?s i c ?s1, OF _ _ _ this refl] inv i ck
    have "conn_inv cfg ?s1" "listed (cl_name c) ?s1" by (simp_all add: In_accept Accepted clock_ok_def)
    with r Accepted show ?thesis by (simp add: redsocks_accept_client_def Let_def conn_drop_inv)
  qed (use inv r t in \<open>simp_all add: redsocks_accept_client_def conn_pressure_inv lowered_inv conn_drop_inv\<close>)
next
  case (In_timer no_socket)
  let ?s = "s\<lparr>accept_backoff_ev := None\<rparr>"
  have cnt: "count_ok cfg ?s" "accept_backoff_ev ?s = None" using inv by (simp_all add: conn_inv_def count_ok_def)
  have "conn_inv cfg (redsocks_accept_backoff cfg now rnd closes no_socket ?s)"
    using conn_pressure_inv [OF cnt(2,1)] cnt conn_full [OF cnt(1)]
    by (auto simp: redsocks_accept_backoff_def conn_inv_def count_ok_def flags_ok_def)
  with ex In_timer show ?thesis by (auto simp: conn_exec_def split: if_splits)
next
  case (In_close n)
  with ex inv show ?thesis by (auto simp: conn_exec_def conn_drop_inv split: if_splits)
next
  case (In_touch n t)
  with ex inv show ?thesis by (auto simp: conn_exec_def conn_touch_inv split: if_splits)
qed

text \<open>Runs of the server in which the clock advances. The result \<open>None\<close> is the use of a freed client.\<close>

inductive conn_reach :: "conn_config \<Rightarrow> conn_state \<Rightarrow> conn_state option \<Rightarrow> bool" for cfg s0 where
  conn_reach_start: "conn_reach cfg s0 (Some s0)"
| conn_reach_step: "conn_reach cfg s0 (Some s) \<Longrightarrow> clock_ok cfg now x \<Longrightarrow> conn_exec cfg now rnd closes x s = Some r \<Longrightarrow> conn_reach cfg s0 r"

text \<open>After \<^verbatim>\<open>redsocks_init\<close>: no client, and every instance listens.\<close>

definition conn_init :: "nat \<Rightarrow> conn_state" where
  "conn_init n =
     \<lparr>instances = replicate n \<lparr>in_listening = True, in_clients = []\<rparr>, redsocks_conn = 0, accept_backoff_ms = 0, accept_backoff_ev = None\<rparr>"

lemma conn_init_inv: "redsocks_conn_max cfg \<noteq> 0 \<Longrightarrow> conn_inv cfg (conn_init n)"
  by (auto simp: conn_inv_def count_ok_def flags_ok_def conn_init_def all_clients_def unat_gt_0)

lemma conn_reach_inv:
  "conn_reach cfg (conn_init n) r \<Longrightarrow> redsocks_conn_max cfg \<noteq> 0 \<Longrightarrow> \<exists>s. r = Some s \<and> conn_inv cfg s"
proof (induction rule: conn_reach.induct)
  case conn_reach_start
  then show ?case using conn_init_inv by blast
next
  case (conn_reach_step s now x rnd closes r)
  then show ?case using conn_exec_inv by blast
qed

text \<open>Claim C30: while the clock advances, \<^verbatim>\<open>redsocks_conn\<close> is the number of listed clients and never exceeds the limit, a connection is only
  accepted below the limit and while the timer is not pending, and a freed client is not used.\<close>

theorem redsocks_conn_counts_clients:
  assumes "redsocks_conn_max cfg \<noteq> 0" "conn_reach cfg (conn_init n) r"
  shows "\<exists>s. r = Some s \<and> unat (redsocks_conn s) = length (all_clients s) \<and>
    redsocks_conn s \<le> redsocks_conn_max cfg \<and> distinct (map cl_name (all_clients s)) \<and>
    (\<forall>i<length (instances s). in_listening (instances s ! i) \<longrightarrow>
      accept_backoff_ev s = None \<and> redsocks_conn s < redsocks_conn_max cfg)"
proof -
  from conn_reach_inv [OF assms(2,1)] obtain s where s: "r = Some s" "conn_inv cfg s" by blast
  from s(2) have c: "count_ok cfg s" "flags_ok cfg s" by (simp_all add: conn_inv_def)
  have u: "unat (redsocks_conn s) = length (all_clients s)" by (rule unat_conn [OF c(1)])
  with c show ?thesis
    by (auto simp: s(1) count_ok_def flags_ok_def listening_def word_le_nat_alt word_less_nat_alt)
qed

definition conn_ex :: conn_config where
  "conn_ex = \<lparr>redsocks_conn_max = 1, connpres_idle_timeout = 10, max_accept_backoff_ms = 60000\<rparr>"

definition conn_ex_client :: "nat \<Rightarrow> int \<Rightarrow> conn_client" where
  "conn_ex_client n t = \<lparr>cl_name = n, cl_last_event = t\<rparr>"

lemmas conn_eval = conn_exec_def conn_init_def redsocks_accept_client_def redsocks_conn_list_add_def conn_pressure_def
  drop_idle_connections_def conn_backoff_def next_backoff_def clamp_value_def conn_drop_client_def redsocks_conn_list_del_def
  tv_of_msec_def backoff_delay_def conn_pressure_lowered_def redsocks_accept_backoff_def list_del_def accept_enable_def accept_disable_def listed_def
  all_clients_def is_idle_def max_idle_def conn_ex_def conn_ex_client_def clock_ok_def Let_def

lemma conn_ex_accept:
  "\<exists>s. conn_exec conn_ex 1 0 (\<lambda>_. 2) (In_accept 0 (Accepted (conn_ex_client 7 0) False)) (conn_init 1) = Some (Some s) \<and>
    map cl_name (all_clients s) = [7] \<and> accept_backoff_ev s = Some 1000"
  by (simp add: conn_eval)

theorem redsocks_conn_counts_clients_witness:
  "\<exists>s. conn_reach conn_ex (conn_init 1) (Some s) \<and> map cl_name (all_clients s) = [7] \<and> unat (redsocks_conn s) = 1"
proof -
  from conn_ex_accept obtain s where
    s: "conn_exec conn_ex 1 0 (\<lambda>_. 2) (In_accept 0 (Accepted (conn_ex_client 7 0) False)) (conn_init 1) = Some (Some s)"
    "map cl_name (all_clients s) = [7]" by (elim exE conjE)
  have r: "conn_reach conn_ex (conn_init 1) (Some s)"
    by (rule conn_reach_step [OF conn_reach_start _ s(1)]) (simp add: conn_eval)
  have "redsocks_conn_max conn_ex \<noteq> 0" by (simp add: conn_ex_def)
  from redsocks_conn_counts_clients [OF this r] have "unat (redsocks_conn s) = length (all_clients s)" by simp
  moreover have "length (all_clients s) = 1" using arg_cong [OF s(2), of length] by simp
  ultimately have "unat (redsocks_conn s) = 1" by simp
  with r s(2) show ?thesis by (intro exI conjI)
qed

text \<open>If the clock has not advanced since the client got its time, the client is found idle, freed, and then used.\<close>

lemma accept_uses_freed_client:
  "conn_exec conn_ex 5 0 (\<lambda>_. 2) (In_accept 0 (Accepted (conn_ex_client 7 5) False)) (conn_init 1) = Some None"
  by (simp add: conn_eval)

text \<open>A server that does not listen and has no timer pending never accepts a connection again.\<close>

definition deaf :: "conn_state \<Rightarrow> bool" where
  "deaf s \<longleftrightarrow> \<not> listening s \<and> accept_backoff_ev s = None"

lemma deaf_forever:
  assumes "deaf s" "conn_exec cfg now rnd closes x s = Some r"
  shows "\<exists>s'. r = Some s' \<and> deaf s'"
proof -
  have t: "accept_backoff_ev s = None" "\<not> listening s" using assms(1) by (simp_all add: deaf_def)
  have "conn_drop_client cfg k n s = (if listed n s then list_del n (s\<lparr>redsocks_conn := redsocks_conn s - 1\<rparr>) else s)" for k n
    using t by (simp add: conn_drop_client_def redsocks_conn_list_del_def)
  moreover have "\<not> in_listening (instances s ! i)" if "i < length (instances s)" for i
    using t(2) that nth_mem by (auto simp: listening_def)
  ultimately show ?thesis
    using assms(2) t by (auto simp: conn_exec_def deaf_def touch_simps split: conn_input.splits if_splits)
qed

text \<open>When the timer fires while the limit is still reached, or without descriptors, and a client has become idle,
  \<^verbatim>\<open>redsocks_accept_backoff\<close> drops it and returns without adding the listeners or the timer again.\<close>

definition timer_drops :: "conn_config \<Rightarrow> int \<Rightarrow> bool \<Rightarrow> conn_state \<Rightarrow> bool" where
  "timer_drops cfg now no_socket s \<longleftrightarrow> (redsocks_conn_max cfg \<le> redsocks_conn s \<or> no_socket) \<and> connpres_idle_timeout cfg \<noteq> 0 \<and>
     (\<exists>c \<in> set (all_clients s). is_idle cfg now c)"

lemma backoff_makes_deaf:
  assumes "conn_inv cfg s" "accept_backoff_ev s \<noteq> None" "redsocks_conn_max cfg \<le> redsocks_conn s \<or> no_socket"
    "connpres_idle_timeout cfg \<noteq> 0" "c \<in> set (all_clients s)" "is_idle cfg now c"
    "conn_exec cfg now rnd closes (In_timer no_socket) s = Some r"
  shows "\<exists>s'. r = Some s' \<and> deaf s'"
proof -
  let ?s = "s\<lparr>accept_backoff_ev := None\<rparr>"
  have cnt: "count_ok cfg ?s" "accept_backoff_ev ?s = None" using assms(1) by (simp_all add: conn_inv_def count_ok_def)
  have nl: "\<not> listening s" using assms(1,2) by (auto simp: conn_inv_def flags_ok_def)
  have r: "r = Some (conn_pressure cfg now rnd closes ?s)"
    using assms(2,3,7) by (auto simp: conn_exec_def redsocks_accept_backoff_def split: if_splits)
  from cnt(2,1) refl show ?thesis
  proof (cases rule: conn_pressure_cases [where s' = "conn_pressure cfg now rnd closes ?s" and now = now and rnd = rnd and closes = closes])
    case dropped
    with nl r show ?thesis by (auto simp: deaf_def)
  next
    case paused
    obtain s1 nxt where d: "drop_idle_connections cfg now closes ?s = (s1, nxt)" by fastforce
    have "0 \<le> max_idle cfg" by (simp add: max_idle_def)
    from drop_idle_loop_spec [OF d [unfolded drop_idle_connections_def] cnt(2,1) this] assms(5,6)
    have "nxt = 0" "accept_backoff_ev s1 = None" by (auto simp: idle_names_def)
    then have "accept_backoff_ev (conn_pressure cfg now rnd closes ?s) = None"
      using d assms(4) by (simp add: conn_pressure_def)
    with paused show ?thesis by simp
  qed
qed

lemma accept_never_resumes:
  "\<exists>s s'. conn_reach conn_ex (conn_init 1) (Some s) \<and> conn_reach conn_ex (conn_init 1) (Some s') \<and>
     accept_backoff_ev s \<noteq> None \<and> all_clients s' = [] \<and> deaf s'"
proof -
  let ?s = "\<lparr>instances = [\<lparr>in_listening = False, in_clients = [conn_ex_client 7 0]\<rparr>], redsocks_conn = 1,
    accept_backoff_ms = 1, accept_backoff_ev = Some 1000\<rparr>"
  let ?t = "\<lparr>instances = [\<lparr>in_listening = False, in_clients = []\<rparr>], redsocks_conn = 0,
    accept_backoff_ms = 1, accept_backoff_ev = None\<rparr>"
  have 1: "conn_exec conn_ex 1 0 (\<lambda>_. 2) (In_accept 0 (Accepted (conn_ex_client 7 0) False)) (conn_init 1) = Some (Some ?s)"
    by (simp add: conn_eval)
  have 2: "conn_exec conn_ex 10000000 0 (\<lambda>_. 2) (In_timer False) ?s = Some (Some ?t)"
    by (simp add: conn_eval)
  have r1: "conn_reach conn_ex (conn_init 1) (Some ?s)"
    by (rule conn_reach_step [OF conn_reach_start _ 1]) (simp add: conn_eval)
  have r2: "conn_reach conn_ex (conn_init 1) (Some ?t)"
    by (rule conn_reach_step [OF r1 _ 2]) (simp add: clock_ok_def)
  show ?thesis
    by (rule exI [of _ ?s], rule exI [of _ ?t]) (use r1 r2 in \<open>simp add: deaf_def listening_def all_clients_def\<close>)
qed

definition awake :: "conn_state \<Rightarrow> bool" where
  "awake s \<longleftrightarrow> instances s \<noteq> [] \<and> (accept_backoff_ev s \<noteq> None \<or> (\<forall>i\<in>set (instances s). in_listening i))"

lemma awake_not_deaf: "awake s \<Longrightarrow> \<not> deaf s"
  by (auto simp: awake_def deaf_def listening_def)

lemma lowered_awake:
  assumes "awake s"
  shows "awake (conn_pressure_lowered cfg s)"
    "redsocks_conn s < redsocks_conn_max cfg \<Longrightarrow> accept_backoff_ev (conn_pressure_lowered cfg s) = None \<and>
       (\<forall>i\<in>set (instances (conn_pressure_lowered cfg s)). in_listening i)"
  using assms by (auto simp: awake_def conn_pressure_lowered_def accept_enable_def)

lemma lowered_pow_awake: "awake s \<Longrightarrow> awake ((conn_pressure_lowered cfg ^^ k) s)"
  by (induction k) (simp_all add: lowered_awake)

lemma close_resumes:
  assumes inv: "conn_inv cfg s" and l: "listed n s" and aw: "awake s"
  shows "accept_backoff_ev (conn_drop_client cfg k n s) = None \<and>
    (\<forall>i\<in>set (instances (conn_drop_client cfg k n s)). in_listening i)"
proof -
  let ?s = "(conn_pressure_lowered cfg ^^ k) s"
  let ?d = "list_del n (?s\<lparr>redsocks_conn := redsocks_conn ?s - 1\<rparr>)"
  have i: "conn_inv cfg ?s" "all_clients ?s = all_clients s" using lowered_pow_inv [OF inv] by auto
  then have cnt: "count_ok cfg ?s" and l': "listed n ?s" using l by (simp_all add: conn_inv_def listed_def)
  have "awake ?s" by (rule lowered_pow_awake [OF aw])
  then have "awake ?d" by (auto simp: awake_def list_del_def)
  moreover have "count_ok cfg ?d" "length (all_clients ?d) < length (all_clients ?s)"
    using list_del_count [OF cnt l' refl] by auto
  then have "redsocks_conn ?d < redsocks_conn_max cfg"
    using cnt unat_conn [of cfg ?d] by (simp add: word_less_nat_alt count_ok_def)
  ultimately show ?thesis
    using lowered_awake(2) l' by (simp add: conn_drop_client_def redsocks_conn_list_del_def)
qed

text \<open>The instances that listen change together.\<close>

abbreviation flags :: "conn_state \<Rightarrow> bool list" where
  "flags s \<equiv> map in_listening (instances s)"

lemma awake_flags: "flags s' = flags s \<Longrightarrow> accept_backoff_ev s' = accept_backoff_ev s \<Longrightarrow> awake s' = awake s"
proof -
  assume f: "flags s' = flags s" and e: "accept_backoff_ev s' = accept_backoff_ev s"
  have "(\<forall>i\<in>set (instances x). in_listening i) \<longleftrightarrow> list_all id (flags x)" for x by (simp add: list_all_iff)
  moreover have "instances x = [] \<longleftrightarrow> flags x = []" for x by simp
  ultimately show "awake s' = awake s" unfolding awake_def using f e by metis
qed

lemma list_del_flags: "flags (list_del n s) = flags s"
  by (simp add: list_del_def comp_def)

lemma drop_flags:
  assumes "accept_backoff_ev s = None"
  shows "flags (conn_drop_client cfg k n s) = flags s \<and> accept_backoff_ev (conn_drop_client cfg k n s) = None"
  using assms list_del_flags [of n "s\<lparr>redsocks_conn := redsocks_conn s - 1\<rparr>"]
  by (simp add: conn_drop_client_def redsocks_conn_list_del_def)

lemma drop_idle_flags:
  assumes "drop_idle_loop cfg now closes cs (s, b) = (s', b')" "accept_backoff_ev s = None"
  shows "flags s' = flags s \<and> accept_backoff_ev s' = None"
  using assms
proof (induction cs arbitrary: s b)
  case (Cons c cs)
  show ?case
  proof (cases "is_idle cfg now c")
    case True
    with Cons drop_flags [OF Cons.prems(2), of cfg "closes (cl_name c)" "cl_name c"] show ?thesis by fastforce
  qed (use Cons in \<open>auto simp: Let_def\<close>)
qed simp

lemma pressure_flags:
  assumes "accept_backoff_ev s = None" "instances s \<noteq> []"
  shows "flags (conn_pressure cfg now rnd closes s) = flags s \<and> accept_backoff_ev (conn_pressure cfg now rnd closes s) = None \<or>
    awake (conn_pressure cfg now rnd closes s)"
proof -
  have bk: "awake (conn_backoff cfg rnd nxt x)" if "instances x \<noteq> []" for nxt x
    using that by (simp add: awake_def conn_backoff_def accept_disable_def Let_def)
  obtain s1 nxt where d: "drop_idle_connections cfg now closes s = (s1, nxt)" by fastforce
  have f: "flags s1 = flags s" "accept_backoff_ev s1 = None" using drop_idle_flags [OF d [unfolded drop_idle_connections_def] assms(1)] by simp_all
  then have "instances s1 \<noteq> []" using assms(2) by (metis map_is_Nil_conv)
  then show ?thesis using f bk [of s1 nxt] bk [OF assms(2), of 0] by (simp add: conn_pressure_def d)
qed

lemma drop_awake:
  assumes "awake s"
  shows "awake (conn_drop_client cfg k n s)"
proof -
  let ?s = "(conn_pressure_lowered cfg ^^ k) s"
  have "awake ?s" by (rule lowered_pow_awake [OF assms])
  then have "awake (if listed n ?s then list_del n (?s\<lparr>redsocks_conn := redsocks_conn ?s - 1\<rparr>) else ?s)"
    using awake_flags [of "list_del n (?s\<lparr>redsocks_conn := redsocks_conn ?s - 1\<rparr>)" ?s] list_del_flags by simp
  then show ?thesis using lowered_awake(1) by (simp add: conn_drop_client_def redsocks_conn_list_del_def)
qed

lemma pressure_awake:
  assumes "accept_backoff_ev s = None" "awake s"
  shows "awake (conn_pressure cfg now rnd closes s)"
  using pressure_flags [OF assms(1), of cfg now rnd closes] awake_flags [of "conn_pressure cfg now rnd closes s" s] assms
  by (auto simp: awake_def)

lemma list_add_awake:
  assumes "accept_backoff_ev s = None" "awake s" "i < length (instances s)"
  shows "awake (redsocks_conn_list_add cfg now rnd closes i c s)"
proof -
  let ?s = "s\<lparr>instances := (instances s)[i := (instances s ! i)\<lparr>in_clients := c # in_clients (instances s ! i)\<rparr>], redsocks_conn := redsocks_conn s + 1\<rparr>"
  have "flags ?s = (flags s)[i := flags s ! i]" using assms(3) by (simp add: map_update)
  then have "flags ?s = flags s" by simp
  then have "awake ?s" using awake_flags [of ?s s] assms(2) by simp
  then show ?thesis using pressure_awake [of ?s] assms(1) by (simp add: redsocks_conn_list_add_def Let_def)
qed

text \<open>Only the timer makes the server deaf.\<close>

lemma step_awake:
  assumes "conn_inv cfg s" "awake s" "conn_exec cfg now rnd closes x s = Some (Some s')"
  shows "if \<exists>no_socket. x = In_timer no_socket \<and> timer_drops cfg now no_socket s then deaf s' else awake s'"
proof (cases x)
  case (In_accept i out)
  have i: "i < length (instances s)" "in_listening (instances s ! i)" and r: "Some s' = redsocks_accept_client cfg now rnd closes i out s"
    using assms(3) In_accept by (auto simp: conn_exec_def split: if_splits)
  then have t: "accept_backoff_ev s = None" using assms(1) nth_mem by (auto simp: conn_inv_def flags_ok_def listening_def)
  let ?s = "s\<lparr>accept_backoff_ms := 0\<rparr>"
  have aw: "awake ?s" "accept_backoff_ev ?s = None" using assms(2) t by (simp_all add: awake_def)
  have "awake s'"
    using r aw t drop_awake [OF aw(1)] list_add_awake [OF aw(2,1)] i(1) assms(2) pressure_awake [OF t assms(2)]
    by (cases out) (auto simp: redsocks_accept_client_def drop_awake lowered_awake(1) Let_def split: if_splits)
  then show ?thesis by (simp add: In_accept)
next
  case (In_timer no_socket)
  let ?s = "s\<lparr>accept_backoff_ev := None\<rparr>"
  have ev: "accept_backoff_ev s \<noteq> None" and s': "s' = redsocks_accept_backoff cfg now rnd closes no_socket ?s"
    using assms(3) In_timer by (auto simp: conn_exec_def split: if_splits)
  have ne: "instances s \<noteq> []" using assms(2) by (simp add: awake_def)
  show ?thesis
  proof (cases "timer_drops cfg now no_socket s")
    case True
    then obtain c where "redsocks_conn_max cfg \<le> redsocks_conn s \<or> no_socket" "connpres_idle_timeout cfg \<noteq> 0" "c \<in> set (all_clients s)" "is_idle cfg now c"
      by (auto simp: timer_drops_def)
    from backoff_makes_deaf [OF assms(1) ev this] assms(3) True show ?thesis by (auto simp: In_timer)
  next
    case False
    have cnt: "count_ok cfg ?s" using assms(1) by (simp add: conn_inv_def count_ok_def)
    have "awake s'"
    proof (cases "redsocks_conn_max cfg \<le> redsocks_conn s \<or> no_socket")
      case True
      then have p: "s' = conn_pressure cfg now rnd closes ?s" by (simp add: s' redsocks_accept_backoff_def)
      have "accept_backoff_ev ?s = None" by simp
      from this cnt p show ?thesis
      proof (cases rule: conn_pressure_cases)
        case dropped
        have "\<exists>c \<in> set (all_clients s). is_idle cfg now c"
        proof (rule ccontr)
          assume "\<not> (\<exists>c \<in> set (all_clients s). is_idle cfg now c)"
          then have "filter (\<lambda>c. \<not> is_idle cfg now c) (all_clients s) = all_clients s" by (intro filter_True) blast
          with dropped(2,3) show False by simp
        qed
        with dropped(1) True False show ?thesis by (simp add: timer_drops_def)
      next
        case paused
        then show ?thesis using pressure_flags [of ?s cfg now rnd closes] ne p by auto
      qed
    qed (use ne in \<open>simp add: s' redsocks_accept_backoff_def awake_def accept_enable_def\<close>)
    with False show ?thesis by (simp add: In_timer)
  qed
next
  case (In_close n)
  then show ?thesis using assms(2,3) drop_awake by (auto simp: conn_exec_def split: if_splits)
next
  case (In_touch n t)
  have "flags (touch n t s) = flags s" by (simp add: touch_def comp_def)
  with In_touch show ?thesis using assms(2,3) awake_flags [of "touch n t s" s] by (auto simp: conn_exec_def touch_simps split: if_splits)
qed

lemma reach_awake:
  assumes "conn_reach cfg (conn_init n) r" "redsocks_conn_max cfg \<noteq> 0" "0 < n"
  shows "\<exists>s. r = Some s \<and> (awake s \<or> deaf s)"
  using assms
proof (induction rule: conn_reach.induct)
  case conn_reach_start
  then show ?case by (simp add: awake_def conn_init_def)
next
  case (conn_reach_step s now x rnd closes r)
  obtain s' where s': "r = Some s'" using conn_exec_inv conn_reach_inv [OF conn_reach_step(1,5)] conn_reach_step(2,3) by blast
  have inv: "conn_inv cfg s" using conn_reach_inv [OF conn_reach_step(1,5)] by simp
  show ?case
  proof (cases "deaf s")
    case True
    then show ?thesis using deaf_forever [OF True conn_reach_step(3)] by blast
  next
    case False
    then have "awake s" using conn_reach_step by simp
    from step_awake [OF inv this, of now rnd closes x s'] conn_reach_step(3) s' show ?thesis by (auto split: if_splits)
  qed
qed

text \<open>Claim C31: a server that is not deaf, that is, that listens or has the timer pending, listens with all its instances or has the timer pending,
  and an event makes it deaf exactly if it is the timer, fired while the limit is reached or no descriptor is available, and some client is
  found idle. While the timer is pending the pause ends: if a client closes and the number falls below the limit, all
  instances listen again, and so they do when the timer fires below the limit with descriptors available.\<close>

theorem accept_resumes:
  assumes "redsocks_conn_max cfg \<noteq> 0" "0 < n" "conn_reach cfg (conn_init n) (Some s)" "\<not> deaf s"
  shows "(accept_backoff_ev s \<noteq> None \<or> (\<forall>i\<in>set (instances s). in_listening i)) \<and>
    (\<forall>now rnd closes x s'. conn_exec cfg now rnd closes x s = Some (Some s') \<longrightarrow>
      deaf s' = (\<exists>no_socket. x = In_timer no_socket \<and> timer_drops cfg now no_socket s)) \<and>
    (accept_backoff_ev s \<noteq> None \<longrightarrow>
      (\<forall>now rnd closes. \<forall>c\<in>set (all_clients s). \<exists>s'. conn_exec cfg now rnd closes (In_close (cl_name c)) s = Some (Some s') \<and>
        accept_backoff_ev s' = None \<and> (\<forall>i\<in>set (instances s'). in_listening i)) \<and>
      (\<forall>now rnd closes. redsocks_conn s < redsocks_conn_max cfg \<longrightarrow>
        (\<exists>s'. conn_exec cfg now rnd closes (In_timer False) s = Some (Some s') \<and>
          accept_backoff_ev s' = None \<and> (\<forall>i\<in>set (instances s'). in_listening i))))"
proof -
  have inv: "conn_inv cfg s" using conn_reach_inv [OF assms(3,1)] by simp
  have aw: "awake s" using reach_awake [OF assms(3,1,2)] assms(4) by simp
  then have "accept_backoff_ev s \<noteq> None \<or> (\<forall>i\<in>set (instances s). in_listening i)" by (simp add: awake_def)
  moreover have "deaf s' = (\<exists>no_socket. x = In_timer no_socket \<and> timer_drops cfg now no_socket s)"
    if "conn_exec cfg now rnd closes x s = Some (Some s')" for now rnd closes x s'
    using step_awake [OF inv aw that] awake_not_deaf by (simp split: if_splits)
  moreover have "\<exists>s'. conn_exec cfg now rnd closes (In_close (cl_name c)) s = Some (Some s') \<and>
      accept_backoff_ev s' = None \<and> (\<forall>i\<in>set (instances s'). in_listening i)" if "c \<in> set (all_clients s)" for now rnd closes c
    using close_resumes [OF inv _ aw] that by (auto simp: conn_exec_def listed_def)
  moreover have "\<exists>s'. conn_exec cfg now rnd closes (In_timer False) s = Some (Some s') \<and>
      accept_backoff_ev s' = None \<and> (\<forall>i\<in>set (instances s'). in_listening i)"
    if "redsocks_conn s < redsocks_conn_max cfg" "accept_backoff_ev s \<noteq> None" for now rnd closes
    using that by (auto simp: conn_exec_def redsocks_accept_backoff_def accept_enable_def)
  ultimately show ?thesis by simp
qed

theorem accept_resumes_witness:
  "\<exists>s s'. conn_reach conn_ex (conn_init 1) (Some s) \<and> conn_exec conn_ex 9 0 (\<lambda>_. 2) (In_close 7) s = Some (Some s') \<and>
     (\<forall>i\<in>set (instances s'). in_listening i)"
proof -
  from conn_ex_accept obtain s where
    s: "conn_exec conn_ex 1 0 (\<lambda>_. 2) (In_accept 0 (Accepted (conn_ex_client 7 0) False)) (conn_init 1) = Some (Some s)"
    "map cl_name (all_clients s) = [7]" "accept_backoff_ev s = Some 1000" by (elim exE conjE)
  have r: "conn_reach conn_ex (conn_init 1) (Some s)"
    by (rule conn_reach_step [OF conn_reach_start _ s(1)]) (simp add: conn_eval)
  from s(2) have "7 \<in> cl_name ` set (all_clients s)" by (metis image_set list.set_intros(1))
  then obtain c where c: "c \<in> set (all_clients s)" "cl_name c = 7" by (elim imageE) simp
  have m: "redsocks_conn_max conn_ex \<noteq> 0" "(0 :: nat) < 1" and t: "accept_backoff_ev s \<noteq> None" "\<not> deaf s" using s(3) by (simp_all add: conn_ex_def deaf_def)
  from accept_resumes [OF m r t(2)] t(1) c r show ?thesis by metis
qed

lemma unat32: "unat (x :: u32) < 4294967296"
  using unsigned_less [of x] by simp

lemma uint_unat: "uint (x :: u32) = int (unat x)"
  by simp

text \<open>A \<^verbatim>\<open>struct timeval\<close> made of milliseconds.\<close>

lemma timeval_1000: "n div 1000 * 1000000 + (n mod 1000) * 1000 = n * (1000 :: nat)"
proof -
  have "n div 1000 * 1000 * 1000 + n mod 1000 * 1000 = (n div 1000 * 1000 + n mod 1000) * 1000"
    by (rule add_mult_distrib [symmetric])
  then show ?thesis unfolding div_mult_mod_eq mult.assoc by simp
qed

lemma unat_1000: "unat (1000 :: u32) = 1000"
  by simp

lemma mod_1000: "unat (d mod 1000 :: u32) = unat d mod 1000"
  unfolding unat_mod unat_1000 ..

lemma div_1000: "unat (d div 1000 :: u32) = unat d div 1000"
  unfolding unat_div unat_1000 ..

lemma mult_1000:
  assumes "unat (m :: u32) < 1000"
  shows "unat (m * 1000) = unat m * 1000"
proof -
  have "unat (m * 1000) = (unat m * unat (1000 :: u32)) mod 2 ^ LENGTH(32)" by (rule unat_word_ariths(2))
  then show ?thesis using assms unfolding unat_1000 by simp
qed

lemma tv_of_msec: "tv_of_msec d = int (unat d) * 1000"
proof -
  have "unat (d mod 1000) < 1000" unfolding mod_1000 by (rule mod_less_divisor) simp
  note m = mult_1000 [OF this, unfolded mod_1000]
  have "tv_of_msec d = int (unat d div 1000 * 1000000 + (unat d mod 1000) * 1000)"
    unfolding tv_of_msec_def uint_unat m div_1000 of_nat_add of_nat_mult of_nat_numeral ..
  then show ?thesis unfolding timeval_1000 of_nat_mult of_nat_numeral .
qed

text \<open>the pause has a positive length and at most the configured maximum, for every state of the 32-bit backoff counter, every
  random number and every time until the next client becomes idle; without idle clients to wait for it lasts at least a millisecond. The
  counter itself stays between 1 and the maximum.\<close>

lemma accept_backoff_in_range:
  assumes "max_accept_backoff_ms cfg \<noteq> 0" "0 \<le> nxt"
  shows "\<exists>tv. accept_backoff_ev (conn_backoff cfg rnd nxt s) = Some tv \<and> 0 < tv \<and> (nxt = 0 \<longrightarrow> 1000 \<le> tv) \<and>
    tv \<le> uint (max_accept_backoff_ms cfg) * 1000 \<and>
    1 \<le> accept_backoff_ms (conn_backoff cfg rnd nxt s) \<and>
    accept_backoff_ms (conn_backoff cfg rnd nxt s) \<le> max_accept_backoff_ms cfg"
proof -
  let ?M = "max_accept_backoff_ms cfg" and ?ms = "next_backoff cfg (accept_backoff_ms s)"
  have le1: "1 \<le> x \<longleftrightarrow> x \<noteq> 0" for x :: u32
    by (simp add: word_le_nat_alt Suc_le_eq unat_gt_0)
  have ms: "1 \<le> ?ms" "?ms \<le> ?M"
    using assms(1) by (auto simp: next_backoff_def clamp_value_def Let_def not_less le1)
  let ?d = "backoff_delay rnd ?ms"
  have lt: "unat (rnd mod ?ms) < unat ?ms"
    using ms(1) by (simp add: unat_mod word_le_nat_alt Suc_le_eq)
  then have d: "unat ?d = Suc (unat (rnd mod ?ms))"
    using unat32 [of ?ms] by (simp add: backoff_delay_def unat_plus_if')
  have "unat ?ms \<le> unat ?M" using ms(2) by (simp add: word_le_nat_alt)
  with d lt have "1 \<le> unat ?d" "unat ?d \<le> unat ?M" by linarith+
  then have "1 \<le> int (unat ?d)" "int (unat ?d) \<le> uint ?M"
    unfolding uint_unat by linarith+
  then have "1000 \<le> tv_of_msec ?d" "tv_of_msec ?d \<le> uint ?M * 1000" unfolding tv_of_msec by linarith+
  then show ?thesis using ms assms(2) by (simp add: conn_backoff_def Let_def)
qed

end
