(* ===== verification/Spec2Isabelle.thy ===== *)
theory Spec2Isabelle
  imports Chunk_Buffer Packet_Buffer Packet_Proto Flow_Components
    Fair_Queue Tcp_Relay Udp_Packets Socks_Udp Red_Http_Auth Red_Http_Connect Red_Socks Red_Accept Red_Parser
begin

text \<open>
  Verification of the native networking code of the Android client, the C sources under
  \<^verbatim>\<open>src/app/src/main/jni\<close> that the program builds itself.

  \<^bold>\<open>The program.\<close> The app starts native helpers around a VPN interface. \<^verbatim>\<open>tun2socks\<close> (badvpn) reads IP packets from
  the interface: TCP connections are terminated by lwIP and relayed to a SOCKS server, UDP packets are encapsulated and sent to the
  server's UDP relay. It is built from an event loop with a queue of pending jobs, from interfaces for passing packets and
  streams between components, and from components over these interfaces. \<^verbatim>\<open>redsocks\<close> redirects TCP connections of a rooted
  device to a proxy.

  \<^bold>\<open>The theories\<close>, in the order in which they use each other. A struct of the code is a record, an object in a shared list
  or tree is addressed by a name in an explicit store, a callback returns the calls it makes as a list of values, and a failing
  call is a branch of the result. \<^verbatim>\<open>tun2socks\<close> is built with \<^verbatim>\<open>NDEBUG\<close>: its \<^verbatim>\<open>ASSERT\<close>s are not executed, so the
  models leave them out or make them failures that are proved not to occur. \<^verbatim>\<open>redsocks\<close> is built without it. Its
  \<^verbatim>\<open>assert\<close>s that compare a buffer with the two of a client, or check an argument, hold by the types of the models; those on the state of a
  negotiation (\<^verbatim>\<open>http-connect.c\<close>, \<^verbatim>\<open>socks4.c\<close>), on the splice pump's pipes and on the parser's buffer are failures proved not to
  occur; those on the number of connections follow from the theorem on the counter; and the \<^verbatim>\<open>assert(false)\<close> of
  \<^verbatim>\<open>parser.c\<close>, which a file can reach, is an outcome of the parser.

  \<^item> \<open>C_Prelude\<close>: machine types, the byte store, little-endian views, conversions between integer types.
  \<^item> \<open>Misc_Size\<close>: \<^verbatim>\<open>misc/bsize.h\<close>, \<^verbatim>\<open>balign.h\<close>, \<^verbatim>\<open>modadd.h\<close>, \<^verbatim>\<open>balloc.h\<close>. Sizes are exact or flagged as overflowed at
    every word width, and an array allocation is never too short.
  \<^item> \<open>Linked_Lists\<close>: \<^verbatim>\<open>structure/LinkedList1.h\<close>, \<^verbatim>\<open>SLinkedList_impl.h\<close>, over a store of nodes, with the sequence they represent.
    The locale for node sequences is interpreted on the list operations.
  \<^item> \<open>Pending_Jobs\<close>: \<^verbatim>\<open>base/BPending.c\<close>. The pointer structure refines a list of jobs in which the job set last runs first.
  \<^item> \<open>Chunk_Buffer\<close>: \<^verbatim>\<open>structure/ChunkBuffer2.h\<close>, the ring of packets in a block array. Submitting and consuming refine a queue of packets;
    its size never overflows and its capacity is what was asked for.
  \<^item> \<open>Flow_Interface\<close>: \<^verbatim>\<open>flow/PacketPassInterface\<close>, \<^verbatim>\<open>PacketRecvInterface\<close>, \<^verbatim>\<open>StreamPassInterface\<close>, \<^verbatim>\<open>StreamRecvInterface\<close> with
    their jobs. Every operation is answered by exactly one completion and the handlers run only in the states they assert.
  \<^item> \<open>Packet_Buffer\<close>: \<^verbatim>\<open>flow/PacketBuffer.c\<close>, \<^verbatim>\<open>SinglePacketBuffer.c\<close>: first in, first out, without loss, and never stuck.
  \<^item> \<open>Packet_Proto\<close>: \<^verbatim>\<open>protocol/packetproto.h\<close>, \<^verbatim>\<open>flow/PacketProtoEncoder.c\<close>, \<^verbatim>\<open>PacketProtoDecoder.c\<close>. The decoder equals a reference decoder
    for every way the stream is cut into pieces, and decoding inverts encoding.
  \<^item> \<open>Flow_Components\<close>: \<^verbatim>\<open>PacketStreamSender\<close>, \<^verbatim>\<open>BufferWriter\<close>, \<^verbatim>\<open>PacketPassConnector\<close>, \<^verbatim>\<open>PacketRecvConnector\<close>, \<^verbatim>\<open>PacketCopier\<close>,
    \<^verbatim>\<open>LineBuffer\<close>, \<^verbatim>\<open>PacketPassInactivityMonitor\<close>, \<^verbatim>\<open>PacketProtoFlow\<close>.
  \<^item> \<open>Fair_Queue\<close>: \<^verbatim>\<open>flow/PacketPassFairQueue.c\<close>. The AVL tree of waiting flows is the sequence of its nodes in order. The flow with
    the least virtual time is served, at most one send is outstanding and no assertion of the scheduler fails, and the 64-bit
    times never wrap around.
  \<^item> \<open>Net_Addr\<close>: \<^verbatim>\<open>misc/byteorder.h\<close>, \<^verbatim>\<open>misc/read_write_int.h\<close>, \<^verbatim>\<open>misc/compare.h\<close> and the addresses of \<^verbatim>\<open>system/BAddr.h\<close>. Their comparison
    is a linear order, which is what the trees keyed by addresses rely on (locale \<open>key_order\<close>).
  \<^item> \<open>Socks_Client\<close>: \<^verbatim>\<open>socksclient/BSocksClient.c\<close>. The client reports that it is up only after a complete negotiation, and a good server is
    accepted however its bytes are cut into pieces.
  \<^item> \<open>Tcp_Relay\<close>: the TCP clients of \<^verbatim>\<open>tun2socks/tun2socks.c\<close> between lwIP and the SOCKS client: lifetime of the objects, no loss
    while the receiving side is open, and draining of half-closed connections.
  \<^item> \<open>Udp_Packets\<close>: \<^verbatim>\<open>misc/ipv4_proto.h\<close>, \<^verbatim>\<open>ipv6_proto.h\<close>, \<^verbatim>\<open>udp_proto.h\<close> and both UDP paths of \<^verbatim>\<open>tun2socks.c\<close>: parsing never reads outside of
    the packet, a read that fails in the model, checksums are Internet checksums, and what is built for the device is read back.
  \<^item> \<open>Socks_Udp\<close>: \<^verbatim>\<open>tun2socks/SocksUdpGwClient.c\<close>. The table of connections refines a least-recently-used cache, and the SOCKS
    encapsulation of data that fits the writer's MTU with its header is inverted by the receiving side. A lemma shows that data
    close to the MTU does not fit.
  \<^item> \<open>Red_Base64\<close>: \<^verbatim>\<open>redsocks/base64.c\<close>. Decoding inverts encoding, at the exact buffer size.
  \<^item> \<open>Red_Md5\<close>: \<^verbatim>\<open>redsocks/md5.c\<close>. The digest is the one RFC 1321 defines, for every way the message is cut into pieces.
  \<^item> \<open>Red_Http_Auth\<close>: \<^verbatim>\<open>redsocks/http-auth.c\<close>. A Digest challenge, its parameters in any order, quoting and spacing, is parsed and answered as
    RFC 2617 defines, inside the memory allocated for the answer while no string reaches \<open>2 ^ 28\<close> bytes.
  \<^item> \<open>Red_Client\<close>: the client object of \<^verbatim>\<open>redsocks/redsocks.c\<close>, its shutting down and dropping, and the pump over
    bufferevents. The data stays in order, an end of stream follows everything received before it if nothing was buffered when the pump
    started (a lemma shows the loss otherwise), and a client both of whose sides ended is freed.
  \<^item> \<open>Red_Splice\<close>: the pump over pipes and \<^verbatim>\<open>splice\<close>, where an end of stream always follows everything received before it; every descriptor is closed exactly once.
    Both pumps are interpretations of the locale \<open>relay_pump\<close>.
  \<^item> \<open>Red_Negotiate\<close>: connecting to the proxy in \<^verbatim>\<open>redsocks.c\<close> and the helpers with which a subsystem reads replies and writes
    messages. The locale \<open>fixed_reply_subsys\<close> is what such a subsystem promises; inside it the negotiation is shown to follow the machine of
    its replies, and with \<open>relay_pump\<close> the order of the whole session.
  \<^item> \<open>Red_Socks\<close>: \<^verbatim>\<open>redsocks/socks5.c\<close> and \<^verbatim>\<open>socks4.c\<close>, two interpretations of that locale. The relay starts only after a complete
    successful negotiation, a good server is accepted however its bytes arrive, and negotiations end.
  \<^item> \<open>Red_Http_Connect\<close>: \<^verbatim>\<open>redsocks/http-connect.c\<close>, the negotiation with a proxy that knows \<^verbatim>\<open>CONNECT\<close>, with challenges answered on a
    new connection and errors forwarded to the client. The relay starts only after a complete reply of success, with what follows it, or, if so
    configured, to forward a refusal with the sending direction shut down; a
    proxy that grants the request is accepted however its bytes arrive. Three lemmas show replies that the code does not handle.
  \<^item> \<open>Red_Accept\<close>: accepting connections in \<^verbatim>\<open>redsocks.c\<close>. The counter of connections is the number of listed clients, and the
    accept backoff stays in its range. A server that does not accept has the timer pending, except after the one event that
    makes it deaf. Two lemmas show that event and how a freed client can be used.
  \<^item> \<open>Red_Parser\<close>: \<^verbatim>\<open>redsocks/parser.c\<close>, the configuration file. Reading it line by line into a growing buffer is equivalent to
    looking at all its complete lines at once (what follows the last newline is ignored), a printed configuration is read back, and the buffer is never full.

  \<^bold>\<open>Environment.\<close> Memory allocation, sockets, timers, lwIP and the kernel are not part of the models. What they answer is an argument of a
  definition (an allocation that fails, the result of \<^verbatim>\<open>tcp_write\<close>) or an event of a step relation that is enabled only as their
  documentation promises (data within the receive window, a completion for an outstanding operation).
  There is no fuel: loops are structural recursion or functions with a termination proof.

  \<^bold>\<open>Not modelled.\<close> Code that only calls the operating system (\<^verbatim>\<open>system/BReactor\<close>, \<^verbatim>\<open>BConnection\<close>, \<^verbatim>\<open>BDatagram\<close>, \<^verbatim>\<open>BTap\<close>, logging,
  command line parsing, \<^verbatim>\<open>libancillary\<close>), third-party code (\<^verbatim>\<open>libevent\<close>, \<^verbatim>\<open>lwip\<close>, \<^verbatim>\<open>shadowsocks\<close> in Rust), code in the
  badvpn tree that no target builds (\<^verbatim>\<open>ncd\<close>, \<^verbatim>\<open>client\<close>, \<^verbatim>\<open>server\<close> and others), the Kotlin app, and of \<^verbatim>\<open>redsocks\<close> the
  start-up, firewall queries (\<^verbatim>\<open>base.c\<close>), logging and the subsystem that rewrites requests for proxies without \<^verbatim>\<open>CONNECT\<close>
  (\<^verbatim>\<open>http-relay.c\<close>).
\<close>

end
